(* ===== verification/Prelude.thy ===== *)
theory Prelude
  imports Main "HOL-Library.Char_ord" "HOL-Library.List_Lexorder"
begin

text \<open>
  The prelude of the development: the part of the Go language and of its standard library that
  the modelled packages use, and the generic lemmas the component theories share.

  A Go \<^verbatim>\<open>string\<close> is a byte string, so it is modelled by HOL's \<open>string\<close> (a list of 8-bit
  characters); \<open><\<close> on strings is the bytewise lexicographic order Go uses. A Go
  \<^verbatim>\<open>(T, error)\<close> result is \<open>error + T\<close> with \<open>Inl\<close> for the error. \<^verbatim>\<open>int\<close> is the
  64-bit integer of the supported platforms: where a value can leave its range (\<open>strconv.Atoi\<close>) the
  range check is written out. Whitespace trimming and \<open>%q\<close> quoting follow the Go library on ASCII;
  a byte from 0x80 on is never whitespace and is quoted as \<^verbatim>\<open>\x..\<close>, as Go does for bytes that are
  not part of a valid UTF-8 sequence.
\<close>

named_theorems go_string "unfolding of the modelled string operations"
named_theorems char_class "byte classes unfolded to comparisons of character codes"

type_synonym ('e, 'a) result = "'e + 'a"

subsection \<open>Bytes\<close>

definition code :: "char \<Rightarrow> nat" where
  "code c = of_char c"

definition is_digit :: "char \<Rightarrow> bool" where
  "is_digit c \<longleftrightarrow> 48 \<le> code c \<and> code c \<le> 57"

definition is_lower :: "char \<Rightarrow> bool" where
  "is_lower c \<longleftrightarrow> 97 \<le> code c \<and> code c \<le> 122"

definition is_upper :: "char \<Rightarrow> bool" where
  "is_upper c \<longleftrightarrow> 65 \<le> code c \<and> code c \<le> 90"

definition is_letter :: "char \<Rightarrow> bool" where
  \<comment> \<open>\<^verbatim>\<open>unicode.IsLetter(rune(b))\<close> for one byte: ASCII letters and the Latin-1 letters\<close>
  "is_letter c \<longleftrightarrow> is_lower c \<or> is_upper c \<or> code c = 170 \<or> code c = 181 \<or> code c = 186 \<or>
     192 \<le> code c \<and> code c \<noteq> 215 \<and> code c \<noteq> 247"

lemmas byte_defs [char_class] = is_digit_def is_lower_def is_upper_def is_letter_def

lemma code_inject [simp]: "code c = code d \<longleftrightarrow> c = d"
  by (simp add: code_def)

lemma code_less [simp]: "code c < 256"
  by (simp add: code_def)

lemma char_of_code [simp]: "char_of (code c) = c"
  by (simp add: code_def)

lemma code_char_of [simp]: "n < 256 \<Longrightarrow> code (char_of n) = n"
  by (simp add: code_def)

lemma code_literal:
  "code c = 48 \<longleftrightarrow> c = CHR ''0''" "code c = 33 \<longleftrightarrow> c = CHR ''!''" "code c = 46 \<longleftrightarrow> c = CHR ''.''"
  "code c = 45 \<longleftrightarrow> c = CHR ''-''" "code c = 95 \<longleftrightarrow> c = CHR ''_''"
  using code_inject [of c "CHR ''0''"] code_inject [of c "CHR ''!''"] code_inject [of c "CHR ''.''"]
    code_inject [of c "CHR ''-''"] code_inject [of c "CHR ''_''"]
  by (simp_all add: code_def del: code_inject)

lemma less_char_code: "c < d \<longleftrightarrow> code c < code d"
  by (simp add: code_def less_char_def)

subsection \<open>The \<open>strings\<close> package\<close>

definition HasPrefix :: "string \<Rightarrow> string \<Rightarrow> bool" where
  "HasPrefix s p \<longleftrightarrow> take (length p) s = p"

definition HasSuffix :: "string \<Rightarrow> string \<Rightarrow> bool" where
  "HasSuffix s p \<longleftrightarrow> length p \<le> length s \<and> drop (length s - length p) s = p"

definition TrimPrefix :: "string \<Rightarrow> string \<Rightarrow> string" where
  "TrimPrefix s p = (if HasPrefix s p then drop (length p) s else s)"

definition TrimSuffix :: "string \<Rightarrow> string \<Rightarrow> string" where
  "TrimSuffix s p = (if HasSuffix s p then take (length s - length p) s else s)"

definition TrimLeft :: "string \<Rightarrow> string \<Rightarrow> string" where
  "TrimLeft s cutset = dropWhile (\<lambda>c. c \<in> set cutset) s"

definition ascii_space :: "char \<Rightarrow> bool" where
  "ascii_space c \<longleftrightarrow> code c = 32 \<or> 9 \<le> code c \<and> code c \<le> 13"

definition TrimSpace :: "string \<Rightarrow> string" where
  "TrimSpace s = rev (dropWhile ascii_space (rev (dropWhile ascii_space s)))"

fun split_on :: "char \<Rightarrow> string \<Rightarrow> string list" where
  \<comment> \<open>\<^verbatim>\<open>strings.Split(s, sep)\<close> for a one-byte separator\<close>
  "split_on d [] = [[]]"
| "split_on d (c # cs) =
     (if c = d then [] # split_on d cs
      else (case split_on d cs of [] \<Rightarrow> [[c]] | w # ws \<Rightarrow> (c # w) # ws))"

fun join_with :: "string \<Rightarrow> string list \<Rightarrow> string" where
  "join_with sep [] = []"
| "join_with sep [w] = w"
| "join_with sep (w # v # ws) = w @ sep @ join_with sep (v # ws)"

definition Repeat :: "char \<Rightarrow> nat \<Rightarrow> string" where
  "Repeat c n = replicate n c"

lemma HasPrefix_append [simp]: "HasPrefix (p @ s) p"
  by (simp add: HasPrefix_def)

lemma HasPrefix_iff: "HasPrefix s p \<longleftrightarrow> (\<exists>t. s = p @ t)"
  unfolding HasPrefix_def by (metis append_take_drop_id append_eq_conv_conj)

lemma HasPrefix_Nil [simp]: "HasPrefix s []"
  by (simp add: HasPrefix_def)

lemma HasPrefix_Cons [simp]: "HasPrefix (c # s) (d # p) \<longleftrightarrow> c = d \<and> HasPrefix s p"
  by (auto simp: HasPrefix_def)

lemma HasPrefix_Nil_Cons [simp]: "\<not> HasPrefix [] (d # p)"
  by (simp add: HasPrefix_def)

lemma HasSuffix_append [simp]: "HasSuffix (s @ p) p"
  by (simp add: HasSuffix_def)

lemma HasSuffix_iff: "HasSuffix s p \<longleftrightarrow> (\<exists>t. s = t @ p)"
proof
  assume "HasSuffix s p"
  then have "s = take (length s - length p) s @ p"
    by (metis HasSuffix_def append_take_drop_id)
  then show "\<exists>t. s = t @ p" ..
next
  assume "\<exists>t. s = t @ p"
  then show "HasSuffix s p" by auto
qed

lemma HasSuffix_single: "HasSuffix s [c] \<longleftrightarrow> s \<noteq> [] \<and> last s = c"
  by (auto simp: HasSuffix_iff intro: append_butlast_last_id [symmetric])

lemma TrimSuffix_append [simp]: "TrimSuffix (s @ p) p = s"
  by (simp add: TrimSuffix_def)

lemma TrimPrefix_append [simp]: "TrimPrefix (p @ s) p = s"
  by (simp add: TrimPrefix_def)

lemma HasPrefix_bang: "HasPrefix s ''!'' \<longleftrightarrow> (\<exists>t. s = CHR ''!'' # t)"
  by (cases s) auto

subsection \<open>Numbers as text\<close>

definition digit_char :: "nat \<Rightarrow> char" where
  "digit_char d = char_of (48 + d)"

fun show_nat :: "nat \<Rightarrow> string" where
  "show_nat n = (if n < 10 then [digit_char n] else show_nat (n div 10) @ [digit_char (n mod 10)])"

declare show_nat.simps [simp del]

definition Itoa :: "int \<Rightarrow> string" where
  "Itoa i = (if i < 0 then CHR ''-'' # show_nat (nat (- i)) else show_nat (nat i))"

definition digit_value :: "char \<Rightarrow> nat" where
  "digit_value c = code c - 48"

definition nat_of_digits :: "string \<Rightarrow> nat" where
  "nat_of_digits s = foldl (\<lambda>n c. 10 * n + digit_value c) 0 s"

definition int_of_digits :: "string \<Rightarrow> int" where
  "int_of_digits s = foldl (\<lambda>n c. 10 * n + int (digit_value c)) 0 s"

definition max_int :: int where
  \<comment> \<open>\<^verbatim>\<open>int(^uint(0) >> 1)\<close> on a 64-bit platform\<close>
  "max_int = 2 ^ 63 - 1"

definition Atoi :: "string \<Rightarrow> int option" where
  \<comment> \<open>\<^verbatim>\<open>strconv.Atoi\<close>: an optional sign, decimal digits, and a value that fits 64 bits\<close>
  "Atoi s =
     (let neg = HasPrefix s ''-'';
          ds = (if neg \<or> HasPrefix s ''+'' then tl s else s);
          n = int_of_digits ds
      in if ds = [] \<or> \<not> list_all is_digit ds then None
         else if neg then (if n \<le> max_int + 1 then Some (- n) else None)
         else (if n \<le> max_int then Some n else None))"

definition hex_digit :: "nat \<Rightarrow> char" where
  "hex_digit d = (if d < 10 then char_of (48 + d) else char_of (87 + d))"

definition hex2 :: "nat \<Rightarrow> string" where
  "hex2 n = [hex_digit (n div 16), hex_digit (n mod 16)]"

definition quote_byte :: "char \<Rightarrow> char \<Rightarrow> string" where
  \<comment> \<open>one byte of \<^verbatim>\<open>strconv.Quote\<close>, with the quote character first\<close>
  "quote_byte q c =
     (let n = code c; bs = CHR 0x5C in
      if c = q \<or> c = bs then [bs, c]
      else if n = 7 then [bs, CHR ''a'']
      else if n = 8 then [bs, CHR ''b'']
      else if n = 9 then [bs, CHR ''t'']
      else if n = 10 then [bs, CHR ''n'']
      else if n = 11 then [bs, CHR ''v'']
      else if n = 12 then [bs, CHR ''f'']
      else if n = 13 then [bs, CHR ''r'']
      else if n < 32 \<or> n \<ge> 127 then [bs, CHR ''x''] @ hex2 n
      else [c])"

definition go_quote :: "string \<Rightarrow> string" where
  "go_quote s = CHR 0x22 # concat (map (quote_byte (CHR 0x22)) s) @ [CHR 0x22]"

definition go_quote_char :: "char \<Rightarrow> string" where
  "go_quote_char c = CHR 0x27 # quote_byte (CHR 0x27) c @ [CHR 0x27]"

subsection \<open>Values of digit strings\<close>

lemma is_digit_value: "is_digit c \<Longrightarrow> digit_value c < 10"
  by (auto simp: is_digit_def digit_value_def)

lemma foldl_digits:
  "foldl (\<lambda>n c. 10 * n + digit_value c) a s = a * 10 ^ length s + nat_of_digits s"
proof (induction s arbitrary: a)
  case Nil
  then show ?case by (simp add: nat_of_digits_def)
next
  case (Cons c s)
  have "nat_of_digits (c # s) = digit_value c * 10 ^ length s + nat_of_digits s"
    using Cons [of "digit_value c"] by (simp add: nat_of_digits_def)
  then show ?case using Cons [of "10 * a + digit_value c"] by (simp add: algebra_simps)
qed

lemma nat_of_digits_Nil [simp]: "nat_of_digits [] = 0"
  by (simp add: nat_of_digits_def)

lemma nat_of_digits_Cons [simp]:
  "nat_of_digits (c # s) = digit_value c * 10 ^ length s + nat_of_digits s"
  using foldl_digits [of "digit_value c" s] by (simp add: nat_of_digits_def)

lemma nat_of_digits_append:
  "nat_of_digits (s @ t) = nat_of_digits s * 10 ^ length t + nat_of_digits t"
  by (induction s) (simp_all add: algebra_simps power_add)

lemma foldl_int_digits:
  "foldl (\<lambda>n c. 10 * n + int (digit_value c)) (int a) s = int (foldl (\<lambda>n c. 10 * n + digit_value c) a s)"
proof (induction s arbitrary: a)
  case (Cons c s)
  show ?case using Cons.IH [of "10 * a + digit_value c"] by simp
qed simp

lemma int_of_digits [simp]: "int_of_digits s = int (nat_of_digits s)"
  using foldl_int_digits [of 0 s] by (simp add: int_of_digits_def nat_of_digits_def)

lemma Atoi_digits:
  assumes "s \<noteq> []" "list_all is_digit s"
  shows "Atoi s = (if int (nat_of_digits s) \<le> max_int then Some (int (nat_of_digits s)) else None)"
proof -
  have "\<not> HasPrefix s ''-''" "\<not> HasPrefix s ''+''"
    using assms by (cases s; auto simp: is_digit_def code_def)+
  then show ?thesis using assms by (simp add: Atoi_def)
qed

lemma list_all_takeWhile [simp]: "list_all P (takeWhile P xs)"
  by (auto simp: list_all_iff dest: set_takeWhileD)

lemma nat_of_digits_bound: "list_all is_digit s \<Longrightarrow> nat_of_digits s < 10 ^ length s"
proof (induction s)
  case (Cons c s)
  let ?p = "10 ^ length s :: nat"
  have "digit_value c * ?p \<le> 9 * ?p"
    using Cons.prems is_digit_value [of c] by (intro mult_right_mono) simp_all
  then have "digit_value c * ?p + nat_of_digits s < 9 * ?p + ?p"
    using Cons by (intro add_le_less_mono) simp_all
  then show ?case by simp
qed simp

lemma digit_value_char [simp]: "d < 10 \<Longrightarrow> digit_value (digit_char d) = d"
  by (simp add: digit_value_def digit_char_def)

lemma is_digit_char [simp]: "d < 10 \<Longrightarrow> is_digit (digit_char d)"
  by (simp add: is_digit_def digit_char_def)

lemma show_nat_digits [simp]: "list_all is_digit (show_nat n)" and show_nat_nonempty: "show_nat n \<noteq> []"
  and nat_of_show [simp]: "nat_of_digits (show_nat n) = n"
proof (induction n rule: show_nat.induct)
  case (1 n)
  {
    case 1 then show ?case by (subst show_nat.simps) (simp add: "1.IH")
  next
    case 2 then show ?case by (subst show_nat.simps) simp
  next
    case 3 then show ?case by (subst show_nat.simps) (simp add: "1.IH" nat_of_digits_append)
  }
qed

lemma nat_of_TrimLeft: "nat_of_digits (TrimLeft s ''0'') = nat_of_digits s"
  by (induction s) (simp_all add: TrimLeft_def digit_value_def code_def)

lemma nat_of_digits_less_iff:
  assumes "length s = length t" "list_all is_digit s" "list_all is_digit t"
  shows "s < t \<longleftrightarrow> nat_of_digits s < nat_of_digits t"
  using assms
proof (induction s t rule: list_induct2)
  case (Cons c s d t)
  let ?p = "10 ^ length t :: nat"
  have bounds: "nat_of_digits s < ?p" "nat_of_digits t < ?p"
    using Cons.prems Cons.hyps nat_of_digits_bound [of s] nat_of_digits_bound [of t] by simp_all
  have less: "a * ?p + x < b * ?p + y" if "a < b" "x < ?p" for a b x y :: nat
  proof -
    have "a * ?p + x < Suc a * ?p" using that(2) by simp
    also have "\<dots> \<le> b * ?p" using that(1) by (intro mult_right_mono) simp_all
    finally show ?thesis by simp
  qed
  have order: "c < d \<longleftrightarrow> digit_value c < digit_value d" "c = d \<longleftrightarrow> digit_value c = digit_value d"
    using Cons.prems by (auto simp: less_char_code is_digit_def digit_value_def simp flip: code_inject)
  consider "digit_value c < digit_value d" | "digit_value c = digit_value d"
    | "digit_value d < digit_value c" by linarith
  then show ?case
  proof cases
    case 1 then show ?thesis using less [OF 1 bounds(1)] Cons.hyps order by simp
  next
    case 2 then show ?thesis using Cons order by simp
  next
    case 3 then show ?thesis using less [OF 3 bounds(2), of "nat_of_digits s"] Cons.hyps order by simp
  qed
qed simp

subsection \<open>Three-way comparison\<close>

definition cmp :: "'a::linorder \<Rightarrow> 'a \<Rightarrow> int" where
  "cmp x y = (if x < y then -1 else if y < x then 1 else 0)"

lemma cmp_simps [simp]:
  "cmp x x = 0" "cmp x y = 0 \<longleftrightarrow> x = y" "cmp x y < 0 \<longleftrightarrow> x < y" "0 < cmp x y \<longleftrightarrow> y < x"
  "cmp x y \<le> 0 \<longleftrightarrow> x \<le> y" "0 \<le> cmp x y \<longleftrightarrow> y \<le> x"
  by (auto simp: cmp_def)

text \<open>
  The contract of a three-way comparison in the style of \<^verbatim>\<open>Compare\<close>: its results are -1, 0 and 1, and
  exchanging the arguments negates the result. The client lemmas hold for every comparison of the
  development that keeps the contract.
\<close>

locale three_way =
  fixes compare3 :: "'a \<Rightarrow> 'a \<Rightarrow> int"
  assumes flip: "compare3 x y = - compare3 y x"
    and sign: "compare3 x y \<in> {-1, 0, 1}"
begin

lemma self_zero: "compare3 x x = 0"
  using flip [of x x] by simp

lemma less_iff_flip: "compare3 x y < 0 \<longleftrightarrow> compare3 y x > 0"
  using flip [of x y] by simp

lemma trichotomy: "compare3 x y = -1 \<or> compare3 x y = 0 \<or> compare3 x y = 1"
  using sign [of x y] by auto

end

text \<open>
  A comparison that is the order of a key on part of its domain: there it is a total preorder, which
  is what sorting and selecting a newest element rely on.
\<close>

locale keyed_order = three_way compare3 for compare3 :: "'a \<Rightarrow> 'a \<Rightarrow> int" +
  fixes key :: "'a \<Rightarrow> 'k::linorder" and carrier :: "'a \<Rightarrow> bool"
  assumes by_key: "carrier x \<Longrightarrow> carrier y \<Longrightarrow> compare3 x y = cmp (key x) (key y)"
begin

lemma le_trans:
  "carrier x \<Longrightarrow> carrier y \<Longrightarrow> carrier z \<Longrightarrow> compare3 x y \<le> 0 \<Longrightarrow> compare3 y z \<le> 0 \<Longrightarrow> compare3 x z \<le> 0"
  by (simp add: by_key)

lemma equal_substitutes:
  "carrier x \<Longrightarrow> carrier y \<Longrightarrow> carrier z \<Longrightarrow> compare3 x y = 0 \<Longrightarrow> compare3 x z = compare3 y z"
  by (simp add: by_key)

lemma less_trans3:
  "carrier x \<Longrightarrow> carrier y \<Longrightarrow> carrier z \<Longrightarrow> compare3 x y < 0 \<Longrightarrow> compare3 y z < 0 \<Longrightarrow> compare3 x z < 0"
  using less_trans by (simp add: by_key)

end

text \<open>
  A printer and a parser that belong together: the parser returns well-formed values only, and it
  reads back the text of every well-formed value. The consequences hold for each such pair of the
  development.
\<close>

locale print_parse =
  fixes to_text :: "'a \<Rightarrow> string" and of_text :: "string \<Rightarrow> ('e, 'a) result" and wf :: "'a \<Rightarrow> bool"
  assumes of_text_wf: "of_text s = Inr x \<Longrightarrow> wf x"
    and of_to_text: "wf x \<Longrightarrow> of_text (to_text x) = Inr x"
begin

lemma reparse: "of_text s = Inr x \<Longrightarrow> of_text (to_text x) = Inr x"
  by (simp add: of_text_wf of_to_text)

lemma range_iff: "(\<exists>s. of_text s = Inr x) \<longleftrightarrow> wf x"
  using of_text_wf of_to_text by blast

lemma fixed_point_iff: "(\<exists>s. of_text s = Inr x) \<longleftrightarrow> of_text (to_text x) = Inr x"
  using reparse by blast

lemma to_text_inject: "wf x \<Longrightarrow> wf y \<Longrightarrow> to_text x = to_text y \<longleftrightarrow> x = y"
  by (metis of_to_text sum.inject(2))

lemma text_identifies: "of_text s = Inr x \<Longrightarrow> of_text t = Inr y \<Longrightarrow> to_text x = to_text y \<longleftrightarrow> x = y"
  by (simp add: of_text_wf to_text_inject)

end

end
