(* ===== verification/Versions.thy ===== *)
theory Versions
  imports Prelude
begin

text \<open>
  Package versions: the \<^verbatim>\<open>Version\<close> struct, its parser \<^verbatim>\<open>parseVersionString\<close> and the comparison
  \<^verbatim>\<open>Version.Compare\<close> of \<^verbatim>\<open>src/internal/atom\<close>. The order-theoretic results about \<open>Compare\<close> are in
  the theory \<open>Version_Order\<close>.
\<close>

subsection \<open>The struct\<close>

record version =
  v_raw :: string
  v_numbers :: "int list"
  v_letter :: string
  v_suffixes :: "string list"
  v_revision :: int
  v_revision_raw :: string

datatype version_error =
    EmptyVersion
  | InvalidVersionByte nat nat
  | NoNumericComponents string
  | UnknownSuffix string string
  | UnexpectedByte char string
  | UnexpectedText string string
  | EmptyVersionAfterDash

definition version_error_text :: "version_error \<Rightarrow> string" where
  "version_error_text e = (case e of
     EmptyVersion \<Rightarrow> ''empty version string''
   | InvalidVersionByte b n \<Rightarrow> ''invalid version byte 0x'' @ hex2 b @ '' at position '' @ show_nat n
   | NoNumericComponents raw \<Rightarrow> ''no numeric components in version '' @ go_quote raw
   | UnknownSuffix t raw \<Rightarrow> ''unknown version suffix '' @ go_quote t @ '' in version '' @ go_quote raw
   | UnexpectedByte c raw \<Rightarrow> ''unexpected '' @ [CHR 0x27, c, CHR 0x27] @ '' in version '' @ go_quote raw
   | UnexpectedText s raw \<Rightarrow> ''unexpected '' @ go_quote s @ '' in version '' @ go_quote raw
   | EmptyVersionAfterDash \<Rightarrow> ''empty version after '' @ [CHR 0x27, CHR ''-'', CHR 0x27])"

subsection \<open>Digit strings and suffix tokens\<close>

definition isDigitString :: "string \<Rightarrow> bool" where
  "isDigitString s \<longleftrightarrow> s \<noteq> [] \<and> list_all is_digit s"

definition compareDigitStrings :: "string \<Rightarrow> string \<Rightarrow> int" where
  "compareDigitStrings l r =
     (let l1 = TrimLeft l ''0''; r1 = TrimLeft r ''0'';
          left = (if l1 = [] then ''0'' else l1);
          right = (if r1 = [] then ''0'' else r1)
      in if length left < length right then -1
         else if length left > length right then 1
         else if left < right then -1
         else if left > right then 1
         else 0)"

definition suffixRemainderIsZero :: "string list \<Rightarrow> bool" where
  "suffixRemainderIsZero suffixes \<longleftrightarrow>
     suffixes \<noteq> [] \<and>
     list_all (\<lambda>s. \<not> (\<not> isDigitString s \<or> compareDigitStrings s ''0'' \<noteq> 0)) suffixes"

definition rawNumberComponents :: "string \<Rightarrow> string list" where
  "rawNumberComponents raw =
     (let digits = takeWhile (\<lambda>c. c = CHR ''.'' \<or> is_digit c) raw
      in if digits = [] then [] else split_on (CHR ''.'') digits)"

definition parseSuffixNum :: "string \<Rightarrow> int \<times> bool" where
  "parseSuffixNum s =
     (if s = [] then (0, False)
      else case Atoi s of None \<Rightarrow> (0, False) | Some n \<Rightarrow> (n, True))"

definition suffixOrder :: "string \<Rightarrow> int" where
  "suffixOrder s =
     (if s = ''_alpha'' then 0
      else if s = ''_beta'' then 1
      else if s = ''_pre'' then 2
      else if s = ''_rc'' then 3
      else if s = ''_p'' then 4
      else if length s > 1 \<and> s ! 0 = CHR ''_'' then 5
      else 6)"

definition isNegativeSuffix :: "string \<Rightarrow> bool" where
  "isNegativeSuffix s \<longleftrightarrow> s = ''_alpha'' \<or> s = ''_beta'' \<or> s = ''_pre'' \<or> s = ''_rc''"

definition isPositiveSuffix :: "string \<Rightarrow> bool" where
  "isPositiveSuffix s \<longleftrightarrow> s = ''_p''"

subsection \<open>Comparison\<close>

fun first_nonzero :: "int list \<Rightarrow> int" where
  \<comment> \<open>a loop that returns the first decisive comparison and otherwise falls through with 0\<close>
  "first_nonzero [] = 0"
| "first_nonzero (c # cs) = (if c \<noteq> 0 then c else first_nonzero cs)"

definition compare_component :: "string list \<Rightarrow> string list \<Rightarrow> nat \<Rightarrow> int" where
  \<comment> \<open>one iteration of the loop over the numeric components\<close>
  "compare_component vRawNumbers oRawNumbers i =
     (let vRaw = (if i < length vRawNumbers then vRawNumbers ! i else ''0'');
          oRaw = (if i < length oRawNumbers then oRawNumbers ! i else ''0'')
      in if i > 0 \<and> i < length vRawNumbers \<and> i < length oRawNumbers \<and>
            (HasPrefix (vRawNumbers ! i) ''0'' \<or> HasPrefix (oRawNumbers ! i) ''0'')
         then (let width = max (length (vRawNumbers ! i)) (length (oRawNumbers ! i));
                   left = vRaw @ Repeat (CHR ''0'') (width - length vRaw);
                   right = oRaw @ Repeat (CHR ''0'') (width - length oRaw)
               in if left < right then -1 else if left > right then 1 else 0)
         else compareDigitStrings vRaw oRaw)"

definition compare_suffix_token :: "string \<Rightarrow> string \<Rightarrow> int" where
  \<comment> \<open>one iteration of the loop over the common suffix tokens\<close>
  "compare_suffix_token sa sb =
     (let aIsNum = isDigitString sa; bIsNum = isDigitString sb
      in if aIsNum \<and> bIsNum then compareDigitStrings sa sb
         else if aIsNum \<noteq> bIsNum then (if aIsNum then 1 else -1)
         else if suffixOrder sa < suffixOrder sb then -1
         else if suffixOrder sa > suffixOrder sb then 1
         else 0)"

definition extra_suffix :: "string list \<Rightarrow> int" where
  \<comment> \<open>the sign of a longer suffix list's remainder, 0 when it falls through to the revisions\<close>
  "extra_suffix suf =
     (if suffixRemainderIsZero suf then 0
      else if isNegativeSuffix (hd suf) then -1
      else if isPositiveSuffix (hd suf) then 1
      else if snd (parseSuffixNum (hd suf)) then 1
      else 1)"

fun compare_suffixes :: "string list \<Rightarrow> string list \<Rightarrow> int" where
  "compare_suffixes [] [] = 0"
| "compare_suffixes (a # as) [] = extra_suffix (a # as)"
| "compare_suffixes [] (b # bs) = - extra_suffix (b # bs)"
| "compare_suffixes (a # as) (b # bs) =
     (let c = compare_suffix_token a b in if c \<noteq> 0 then c else compare_suffixes as bs)"

definition revision_text :: "version \<Rightarrow> string" where
  "revision_text v =
     (if v_revision_raw v = [] \<and> v_revision v > 0 then Itoa (v_revision v) else v_revision_raw v)"

definition compare_version :: "version \<Rightarrow> version \<Rightarrow> int" where
  "compare_version v other =
     (let vRawNumbers = rawNumberComponents (v_raw v);
          oRawNumbers = rawNumberComponents (v_raw other);
          maxN = max (length (v_numbers v)) (length (v_numbers other));
          numbers = first_nonzero (map (compare_component vRawNumbers oRawNumbers) [0..<maxN]);
          suffixes = compare_suffixes (v_suffixes v) (v_suffixes other);
          revisions = compareDigitStrings (revision_text v) (revision_text other)
      in if numbers \<noteq> 0 then numbers
         else if length (v_numbers v) < length (v_numbers other) then -1
         else if length (v_numbers v) > length (v_numbers other) then 1
         else if v_letter v < v_letter other then -1
         else if v_letter v > v_letter other then 1
         else if suffixes \<noteq> 0 then suffixes
         else if revisions \<noteq> 0 then revisions
         else 0)"

fun Compare :: "version option \<Rightarrow> version option \<Rightarrow> int" where
  "Compare None None = 0"
| "Compare None (Some other) = -1"
| "Compare (Some v) None = 1"
| "Compare (Some v) (Some other) = compare_version v other"

subsection \<open>Parsing\<close>

definition saturating_Atoi :: "string \<Rightarrow> int" where
  \<comment> \<open>\<^verbatim>\<open>strconv.Atoi\<close> of a digit run, the largest \<^verbatim>\<open>int\<close> where it overflows; a digit run is a
    digit string (\<open>digit_run\<close> below), so overflow is the only way the conversion can fail and the
    source's other error branch is never taken\<close>
  "saturating_Atoi s = (case Atoi s of Some n \<Rightarrow> n | None \<Rightarrow> max_int)"

lemma digit_run: "s \<noteq> [] \<Longrightarrow> is_digit (hd s) \<Longrightarrow> isDigitString (takeWhile is_digit s)"
  by (cases s) (auto simp: isDigitString_def list_all_iff dest: set_takeWhileD)

function parse_numbers :: "string \<Rightarrow> int list \<times> string" where
  "parse_numbers remain =
     (if remain = [] \<or> \<not> is_digit (hd remain) then ([], remain)
      else (let run = takeWhile is_digit remain;
                rest = dropWhile is_digit remain;
                n = saturating_Atoi run
            in if rest \<noteq> [] \<and> hd rest = CHR ''.''
               then (let (ns, rest') = parse_numbers (tl rest) in (n # ns, rest'))
               else ([n], rest)))"
  by pat_completeness auto
termination
proof (relation "measure length", simp)
  fix remain run rest :: string and n
  assume "\<not> (remain = [] \<or> \<not> is_digit (hd remain))"
    and rest: "rest = dropWhile is_digit remain" and "rest \<noteq> [] \<and> hd rest = CHR ''.''"
  then have "length (tl rest) < length rest" by (simp add: length_greater_0_conv)
  also have "length rest \<le> length remain" by (simp add: rest length_dropWhile_le)
  finally show "(tl rest, remain) \<in> measure length" by simp
qed

declare parse_numbers.simps [simp del]

definition suffix_type :: "string \<Rightarrow> string" where
  "suffix_type token =
     (if HasPrefix token ''_alpha'' then ''_alpha''
      else if HasPrefix token ''_beta'' then ''_beta''
      else if HasPrefix token ''_pre'' then ''_pre''
      else if HasPrefix token ''_rc'' then ''_rc''
      else if HasPrefix token ''_p'' then ''_p''
      else [])"

definition suffix_token :: "string \<Rightarrow> string" where
  \<comment> \<open>the underscore and the letters and digits after it\<close>
  "suffix_token remain = hd remain # takeWhile (\<lambda>c. is_letter c \<or> is_digit c) (tl remain)"

text \<open>
  One iteration of the loop over suffixes and revisions: an underscore reads a suffix keyword and
  the digits that end its token, \<open>-r\<close> followed by digits reads a revision, every other byte leaves
  the loop. The first component of \<open>Inr\<close> says whether the loop goes on.
\<close>

definition tail_step ::
  "string \<Rightarrow> version \<Rightarrow> string \<Rightarrow> (version_error, bool \<times> version \<times> string) result" where
  "tail_step raw v remain =
     (if hd remain = CHR ''_'' then
        (let token = suffix_token remain;
             ty = suffix_type token;
             numStr = drop (length ty) token
         in if ty \<noteq> [] \<and> length ty < length token \<and> isDigitString numStr
            then Inr (True, v\<lparr>v_suffixes := v_suffixes v @ [ty, numStr]\<rparr>, drop (length token) remain)
            else if ty \<noteq> []
            then Inr (True, v\<lparr>v_suffixes := v_suffixes v @ [ty]\<rparr>, drop (length ty) remain)
            else Inl (UnknownSuffix token raw))
      else if hd remain = CHR ''-'' then
        (let digits = takeWhile is_digit (drop 2 remain)
         in if length remain > 2 \<and> remain ! 1 = CHR ''r'' \<and> digits \<noteq> []
            then (case Atoi digits of
                Some n \<Rightarrow> Inr (True, v\<lparr>v_revision := n\<rparr>, drop (2 + length digits) remain)
              | None \<Rightarrow> Inr (True, v\<lparr>v_revision := max_int, v_revision_raw := digits\<rparr>,
                              drop (2 + length digits) remain))
            else Inl (UnexpectedByte (CHR ''-'') raw))
      else Inr (False, v, remain))"

lemma suffix_type_nonempty: "ty = suffix_type token \<Longrightarrow> ty \<noteq> [] \<Longrightarrow> 0 < length ty"
  by simp

lemma tail_step_shrinks:
  "remain \<noteq> [] \<Longrightarrow> tail_step raw v remain = Inr (True, v', remain') \<Longrightarrow>
     length remain' < length remain"
  by (auto simp: tail_step_def suffix_token_def Let_def length_greater_0_conv
      split: if_splits option.splits)

function parse_tail ::
  "string \<Rightarrow> version \<Rightarrow> string \<Rightarrow> (version_error, version \<times> string) result" where
  "parse_tail raw v remain =
     (if remain = [] then Inr (v, remain)
      else (case tail_step raw v remain of
          Inl e \<Rightarrow> Inl e
        | Inr (False, v', remain') \<Rightarrow> Inr (v', remain')
        | Inr (True, v', remain') \<Rightarrow> parse_tail raw v' remain'))"
  by pat_completeness auto
termination
  by (relation "measure (\<lambda>(raw, v, remain). length remain)") (auto dest: tail_step_shrinks)

declare parse_tail.simps [simp del]

definition parseVersionString :: "string \<Rightarrow> (version_error, version) result" where
  "parseVersionString raw =
     (let (numbers, remain) = parse_numbers raw
      in if numbers = [] \<and> remain \<noteq> [] \<and> hd remain \<noteq> CHR ''_'' \<and> hd remain \<noteq> CHR ''-''
         then Inl (NoNumericComponents raw)
         else (let hasLetter = (remain \<noteq> [] \<and> is_lower (hd remain));
                   letter = (if hasLetter then [hd remain] else []);
                   remain' = (if hasLetter then tl remain else remain);
                   v = \<lparr>v_raw = raw, v_numbers = numbers, v_letter = letter, v_suffixes = [],
                        v_revision = -1, v_revision_raw = []\<rparr>
               in case parse_tail raw v remain' of
                    Inl e \<Rightarrow> Inl e
                  | Inr (v', rest) \<Rightarrow>
                      if rest \<noteq> [] \<and> rest \<noteq> ''*'' then Inl (UnexpectedText rest raw)
                      else Inr v'))"

fun check_bytes :: "nat \<Rightarrow> string \<Rightarrow> (nat \<times> nat) option" where
  \<comment> \<open>the first byte outside the printable range, with its one-based position\<close>
  "check_bytes i [] = None"
| "check_bytes i (c # cs) =
     (if code c < 33 \<or> code c > 126 then Some (code c, i + 1) else check_bytes (i + 1) cs)"

definition ParseVersion :: "string \<Rightarrow> (version_error, version) result" where
  "ParseVersion raw =
     (if raw = [] then Inl EmptyVersion
      else case check_bytes 0 raw of
          Some (b, n) \<Rightarrow> Inl (InvalidVersionByte b n)
        | None \<Rightarrow> parseVersionString raw)"

definition version_string :: "version \<Rightarrow> string" where
  \<comment> \<open>\<^verbatim>\<open>Version.String\<close>\<close>
  "version_string v = v_raw v"

end
