(* ===== verification/Version_Order.thy ===== *)
theory Version_Order
  imports Versions "HOL-Library.Product_Lexorder"
begin

text \<open>
  What \<^verbatim>\<open>Version.Compare\<close> promises. It is antisymmetric on all versions, and on parsed versions that
  carry at most one suffix each, or whose suffixes all carry a number, it is the linear order of a key
  that spells out the Package Manager Specification: numeric components (a later component with a
  leading zero compared as a decimal fraction), letter, suffixes with an absent number read as 0 and
  the end of the list between \<^verbatim>\<open>_rc\<close> and \<^verbatim>\<open>_p\<close>, revision. Outside that class the comparison is not
  transitive.
\<close>

subsection \<open>Digit strings compare as numbers\<close>

lemma TrimLeft_zero_first: "TrimLeft s ''0'' = c # t \<Longrightarrow> c \<noteq> CHR ''0''"
  using hd_dropWhile [of "\<lambda>c. c \<in> set ''0''" s] by (auto simp: TrimLeft_def)

lemma list_all_TrimLeft: "list_all P s \<Longrightarrow> list_all P (TrimLeft s cs)"
  by (auto simp: TrimLeft_def list_all_iff dest: set_dropWhileD)

definition stripped :: "string \<Rightarrow> string" where
  "stripped s = (let t = TrimLeft s ''0'' in if t = [] then ''0'' else t)"

lemma stripped_digits: "list_all is_digit s \<Longrightarrow> list_all is_digit (stripped s)"
  by (auto simp: stripped_def Let_def list_all_TrimLeft is_digit_def code_def)

lemma nat_of_stripped: "nat_of_digits (stripped s) = nat_of_digits s"
  using nat_of_TrimLeft [of s] by (auto simp: stripped_def Let_def digit_value_def code_def)

lemma stripped_lower_bound:
  assumes "list_all is_digit s" "length (stripped s) > 1"
  shows "10 ^ (length (stripped s) - 1) \<le> nat_of_digits s"
proof -
  obtain c t where t: "TrimLeft s ''0'' = c # t"
    using assms(2) by (cases "TrimLeft s ''0''") (simp_all add: stripped_def Let_def)
  then have "c \<noteq> CHR ''0''" and "is_digit c"
    using TrimLeft_zero_first list_all_TrimLeft [OF assms(1), of "''0''"] by auto
  then have "1 \<le> digit_value c"
    using code_literal(1) [of c] by (auto simp: is_digit_def digit_value_def)
  then have "10 ^ length t \<le> nat_of_digits (c # t)"
    by (cases "digit_value c") simp_all
  then show ?thesis using t nat_of_TrimLeft [of s] by (simp add: stripped_def Let_def)
qed

lemma shorter_is_smaller:
  assumes "list_all is_digit s" "list_all is_digit t" "length (stripped s) < length (stripped t)"
  shows "nat_of_digits s < nat_of_digits t"
proof -
  have "stripped s \<noteq> []" by (simp add: stripped_def Let_def)
  then have "length (stripped t) > 1" using assms(3) by (cases "stripped s") auto
  have "nat_of_digits s < 10 ^ length (stripped s)"
    using nat_of_digits_bound [OF stripped_digits [OF assms(1)]] by (simp add: nat_of_stripped)
  also have "\<dots> \<le> 10 ^ (length (stripped t) - 1)"
    using assms(3) by (intro power_increasing) simp_all
  also have "\<dots> \<le> nat_of_digits t"
    by (rule stripped_lower_bound [OF assms(2) \<open>length (stripped t) > 1\<close>])
  finally show ?thesis .
qed

lemma compareDigitStrings_stripped:
  "compareDigitStrings l r =
     (if length (stripped l) < length (stripped r) then -1
      else if length (stripped l) > length (stripped r) then 1
      else cmp (stripped l) (stripped r))"
  by (auto simp: compareDigitStrings_def stripped_def Let_def cmp_def)

lemma compareDigitStrings_value:
  assumes "list_all is_digit l" "list_all is_digit r"
  shows "compareDigitStrings l r = cmp (nat_of_digits l) (nat_of_digits r)"
proof (cases "length (stripped l) = length (stripped r)")
  case True
  then have "stripped l < stripped r \<longleftrightarrow> nat_of_digits l < nat_of_digits r"
    "stripped r < stripped l \<longleftrightarrow> nat_of_digits r < nat_of_digits l"
    using nat_of_digits_less_iff [of "stripped l" "stripped r"]
      nat_of_digits_less_iff [of "stripped r" "stripped l"]
      stripped_digits [OF assms(1)] stripped_digits [OF assms(2)]
    by (simp_all add: nat_of_stripped)
  then show ?thesis using True by (simp add: compareDigitStrings_stripped cmp_def)
next
  case False
  then show ?thesis
    using shorter_is_smaller [OF assms] shorter_is_smaller [OF assms(2,1)]
    by (auto simp: compareDigitStrings_stripped cmp_def)
qed

interpretation digit_order: keyed_order compareDigitStrings nat_of_digits "list_all is_digit"
proof
  fix l r :: string
  show "compareDigitStrings l r = - compareDigitStrings r l" "compareDigitStrings l r \<in> {-1, 0, 1}"
    by (auto simp: compareDigitStrings_stripped cmp_def)
qed (rule compareDigitStrings_value)

subsection \<open>The comparison is antisymmetric\<close>

lemma first_nonzero_uminus: "first_nonzero (map uminus cs) = - first_nonzero cs"
  by (induction cs) auto

lemma first_nonzero_sign: "\<forall>c \<in> set cs. c \<in> {-1, 0, 1} \<Longrightarrow> first_nonzero cs \<in> {-1, 0, 1 :: int}"
  by (induction cs) auto

lemma compare_component_flip:
  "compare_component vs os i = - compare_component os vs i"
  using digit_order.flip [of "vs ! i" "os ! i"] digit_order.flip [of "vs ! i" "''0''"]
    digit_order.flip [of "''0''" "os ! i"] digit_order.flip [of "''0''" "''0''"]
  by (auto simp: compare_component_def Let_def max.commute)

lemma compare_component_sign: "compare_component vs os i \<in> {-1, 0, 1}"
  using digit_order.sign by (auto simp: compare_component_def Let_def)

lemma compare_suffix_token_flip: "compare_suffix_token a b = - compare_suffix_token b a"
  using digit_order.flip [of a b] by (auto simp: compare_suffix_token_def Let_def)

lemma compare_suffix_token_sign: "compare_suffix_token a b \<in> {-1, 0, 1}"
  using digit_order.sign [of a b] by (auto simp: compare_suffix_token_def Let_def)

lemma compare_suffixes_flip: "compare_suffixes as bs = - compare_suffixes bs as"
proof (induction as bs rule: compare_suffixes.induct)
  case (4 a as b bs)
  then show ?case using compare_suffix_token_flip [of a b] by (auto simp: Let_def)
qed simp_all

lemma compare_suffixes_sign: "compare_suffixes as bs \<in> {-1, 0, 1}"
proof (induction as bs rule: compare_suffixes.induct)
  case (4 a as b bs)
  then show ?case using compare_suffix_token_sign [of a b] by (auto simp: Let_def)
qed (auto simp: extra_suffix_def)

definition numbers_part :: "version \<Rightarrow> version \<Rightarrow> int" where
  "numbers_part v w =
     first_nonzero (map (compare_component (rawNumberComponents (v_raw v)) (rawNumberComponents (v_raw w)))
       [0..<max (length (v_numbers v)) (length (v_numbers w))])"

text \<open>The comparison as the chain of its decisive parts, in the order the code tries them.\<close>

lemma compare_version_chain:
  "compare_version v w = first_nonzero
     [numbers_part v w, cmp (length (v_numbers v)) (length (v_numbers w)),
      cmp (v_letter v) (v_letter w), compare_suffixes (v_suffixes v) (v_suffixes w),
      compareDigitStrings (revision_text v) (revision_text w)]"
  by (simp add: compare_version_def numbers_part_def cmp_def Let_def)

lemma numbers_part_flip: "numbers_part v w = - numbers_part w v"
proof -
  let ?v = "rawNumberComponents (v_raw v)" and ?w = "rawNumberComponents (v_raw w)"
  have "map (compare_component ?v ?w) xs = map uminus (map (compare_component ?w ?v) xs)" for xs
    by (simp add: compare_component_flip [of ?v ?w])
  then show ?thesis
    by (simp add: numbers_part_def max.commute first_nonzero_uminus del: map_map)
qed

lemma cmp_flip: "cmp x y = - cmp y x"
  by (auto simp: cmp_def)

lemma cmp_sign: "cmp x y \<in> {-1, 0, 1}"
  by (auto simp: cmp_def)

lemma numbers_part_sign: "numbers_part v w \<in> {-1, 0, 1}"
  unfolding numbers_part_def using compare_component_sign by (intro first_nonzero_sign) simp

interpretation version_order: three_way compare_version
proof
  fix v w :: version
  show "compare_version v w = - compare_version w v"
    unfolding compare_version_chain
    using numbers_part_flip [of v w] cmp_flip [of "length (v_numbers v)" "length (v_numbers w)"]
      cmp_flip [of "v_letter v" "v_letter w"] compare_suffixes_flip [of "v_suffixes v" "v_suffixes w"]
      digit_order.flip [of "revision_text v" "revision_text w"]
    by (simp only: list.map flip: first_nonzero_uminus)
  show "compare_version v w \<in> {-1, 0, 1}"
    unfolding compare_version_chain
    by (intro first_nonzero_sign) (simp only: list.set ball_simps numbers_part_sign cmp_sign
      compare_suffixes_sign digit_order.sign simp_thms)
qed

interpretation optional_version_order: three_way Compare
proof
  fix v w :: "version option"
  show "Compare v w = - Compare w v"
    using version_order.flip [of "the v" "the w"] by (cases v; cases w) simp_all
  show "Compare v w \<in> {-1, 0, 1}"
    using version_order.sign by (cases v; cases w) simp_all
qed

subsection \<open>The reference order\<close>

fun strip_zeros :: "string \<Rightarrow> string" where
  \<comment> \<open>a decimal fraction without its trailing zeros\<close>
  "strip_zeros [] = []"
| "strip_zeros (c # s) = (let r = strip_zeros s in if r = [] \<and> c = CHR ''0'' then [] else c # r)"

definition component_key :: "string \<Rightarrow> nat \<times> string \<times> nat" where
  "component_key r = (if HasPrefix r ''0'' then (0, strip_zeros r, 0) else (1, [], nat_of_digits r))"

fun numbers_key :: "string list \<Rightarrow> (nat \<times> string \<times> nat) list" where
  "numbers_key [] = []"
| "numbers_key (r # rs) = (1, [], nat_of_digits r) # map component_key rs"

definition suffix_rank :: "string \<Rightarrow> nat" where
  "suffix_rank s =
     (if s = ''_alpha'' then 0 else if s = ''_beta'' then 1 else if s = ''_pre'' then 2
      else if s = ''_rc'' then 3 else 5)"

fun suffix_key :: "string list \<Rightarrow> (nat \<times> nat) list" where
  "suffix_key [] = [(4, 0)]"
| "suffix_key [t] = [(suffix_rank t, 0), (4, 0)]"
| "suffix_key (t # d # rest) =
     (if isDigitString d then (suffix_rank t, nat_of_digits d) # suffix_key rest
      else (suffix_rank t, 0) # suffix_key (d # rest))"

definition pms_key ::
  "version \<Rightarrow> (nat \<times> string \<times> nat) list \<times> string \<times> (nat \<times> nat) list \<times> nat" where
  "pms_key v =
     (numbers_key (take (length (v_numbers v)) (rawNumberComponents (v_raw v))),
      v_letter v, suffix_key (v_suffixes v), nat_of_digits (revision_text v))"

subsection \<open>What parsing guarantees\<close>

definition is_suffix_keyword :: "string \<Rightarrow> bool" where
  "is_suffix_keyword t \<longleftrightarrow> t \<in> set [''_alpha'', ''_beta'', ''_pre'', ''_rc'', ''_p'']"

fun suffix_list_ok :: "string list \<Rightarrow> bool" where
  "suffix_list_ok [] = True"
| "suffix_list_ok [t] = is_suffix_keyword t"
| "suffix_list_ok (t # d # rest) =
     (is_suffix_keyword t \<and> (if isDigitString d then suffix_list_ok rest else suffix_list_ok (d # rest)))"

definition numbers_ok :: "version \<Rightarrow> bool" where
  "numbers_ok v \<longleftrightarrow>
     (let comps = rawNumberComponents (v_raw v); n = length (v_numbers v)
      in n \<le> length comps \<and> list_all isDigitString (take n comps) \<and>
         (\<forall>c \<in> set (drop n comps). c = []))"

definition version_ok :: "version \<Rightarrow> bool" where
  "version_ok v \<longleftrightarrow>
     numbers_ok v \<and> suffix_list_ok (v_suffixes v) \<and> list_all is_digit (v_revision_raw v)"

definition at_most_one_suffix :: "version \<Rightarrow> bool" where
  "at_most_one_suffix v \<longleftrightarrow> length (filter (\<lambda>t. \<not> isDigitString t) (v_suffixes v)) \<le> 1"

fun all_numbered :: "string list \<Rightarrow> bool" where
  "all_numbered [] = True"
| "all_numbered [t] = False"
| "all_numbered (t # d # rest) = (isDigitString d \<and> all_numbered rest)"

subsection \<open>Components\<close>

lemma strip_zeros_append: "strip_zeros (s @ replicate n (CHR ''0'')) = strip_zeros s"
proof (induction s)
  case Nil
  show ?case by (induction n) simp_all
qed simp

lemma cmp_Cons: "cmp (x # xs) (y # ys) = (if x = y then cmp xs ys else cmp x y)"
  by (auto simp: cmp_def)

lemma cmp_Nil: "cmp [] ys = (if ys = [] then 0 else -1)" "cmp xs [] = (if xs = [] then 0 else 1)"
  by (cases ys; cases xs; simp add: cmp_def)+

lemma cmp_Pair: "cmp (x, y) (x', y') = (if x = x' then cmp y y' else cmp x x')"
  by (auto simp: cmp_def)

lemma cmp_strip_zeros:
  assumes "length s = length t" "list_all is_digit s" "list_all is_digit t"
  shows "cmp (strip_zeros s) (strip_zeros t) = cmp s t"
  using assms
proof (induction s t rule: list_induct2)
  case (Cons c s d t)
  have zero: "x = CHR ''0'' \<or> CHR ''0'' < x" if "is_digit x" for x
    using that code_literal(1) [of x] by (auto simp: is_digit_def less_char_code code_def)
  show ?case
  proof (cases "c = d")
    case True
    with Cons show ?thesis by (auto simp: Let_def cmp_Cons cmp_Nil)
  next
    case False
    with Cons.prems zero [of c] zero [of d] show ?thesis
      by (auto simp: Let_def cmp_Cons) (auto simp: cmp_def)
  qed
qed simp

lemma compare_fraction:
  fixes a b :: string
  assumes "list_all is_digit a" "list_all is_digit b"
  defines "w \<equiv> max (length a) (length b)"
  shows "cmp (a @ Repeat (CHR ''0'') (w - length a)) (b @ Repeat (CHR ''0'') (w - length b)) =
         cmp (strip_zeros a) (strip_zeros b)"
proof -
  have "list_all is_digit (Repeat (CHR ''0'') n)" for n
    by (simp add: Repeat_def list_all_iff is_digit_def code_def)
  then have "cmp (strip_zeros (a @ Repeat (CHR ''0'') (w - length a)))
         (strip_zeros (b @ Repeat (CHR ''0'') (w - length b))) =
       cmp (a @ Repeat (CHR ''0'') (w - length a)) (b @ Repeat (CHR ''0'') (w - length b))"
    using assms by (intro cmp_strip_zeros) (auto simp: w_def Repeat_def)
  then show ?thesis by (simp add: Repeat_def strip_zeros_append)
qed

lemma compare_component_fraction:
  assumes "0 < i" "i < length vs" "i < length os" "isDigitString (vs ! i)" "isDigitString (os ! i)"
    and "HasPrefix (vs ! i) ''0'' \<or> HasPrefix (os ! i) ''0''"
  shows "compare_component vs os i = cmp (strip_zeros (vs ! i)) (strip_zeros (os ! i))"
proof -
  have "compare_component vs os i =
      cmp (vs ! i @ Repeat (CHR ''0'') (max (length (vs ! i)) (length (os ! i)) - length (vs ! i)))
          (os ! i @ Repeat (CHR ''0'') (max (length (vs ! i)) (length (os ! i)) - length (os ! i)))"
    using assms by (simp add: compare_component_def Let_def cmp_def)
  then show ?thesis using assms by (simp add: compare_fraction isDigitString_def)
qed

lemma compare_component_whole:
  assumes "i < length vs" "i < length os" "isDigitString (vs ! i)" "isDigitString (os ! i)"
    and "i = 0 \<or> \<not> HasPrefix (vs ! i) ''0'' \<and> \<not> HasPrefix (os ! i) ''0''"
  shows "compare_component vs os i = cmp (nat_of_digits (vs ! i)) (nat_of_digits (os ! i))"
  using assms by (auto simp: compare_component_def Let_def compareDigitStrings_value isDigitString_def)

lemma fraction_below_whole:
  assumes "HasPrefix x ''0''" "\<not> HasPrefix y ''0''" "isDigitString y"
  shows "strip_zeros x < strip_zeros y"
proof -
  obtain d y' where y: "y = d # y'" using assms(3) by (cases y) (auto simp: isDigitString_def)
  obtain x' where x: "x = CHR ''0'' # x'" using assms(1) by (auto simp: HasPrefix_iff)
  have "CHR ''0'' < d" using assms(2,3) y code_literal(1) [of d]
    by (auto simp: isDigitString_def is_digit_def less_char_code code_def)
  then show ?thesis using x y by (auto simp: Let_def)
qed

lemma compare_component_key:
  assumes "0 < i" "i < length vs" "i < length os" "isDigitString (vs ! i)" "isDigitString (os ! i)"
  shows "compare_component vs os i = cmp (component_key (vs ! i)) (component_key (os ! i))"
proof (cases "HasPrefix (vs ! i) ''0'' \<or> HasPrefix (os ! i) ''0''")
  case True
  with assms fraction_below_whole [of "vs ! i" "os ! i"] fraction_below_whole [of "os ! i" "vs ! i"]
  show ?thesis
    by (auto simp: compare_component_fraction component_key_def cmp_Pair)
      (auto simp: cmp_def dest: less_asym)
next
  case False
  with assms show ?thesis by (simp add: compare_component_whole component_key_def cmp_Pair)
qed

subsection \<open>Lists of components\<close>

lemma first_nonzero_append:
  "first_nonzero (xs @ ys) = (if first_nonzero xs \<noteq> 0 then first_nonzero xs else first_nonzero ys)"
  by (induction xs) auto

lemma cmp_lists:
  "cmp xs ys = first_nonzero (map2 cmp xs ys @ [cmp (length xs) (length ys)])"
proof (induction xs arbitrary: ys)
  case Nil
  then show ?case by (cases ys) (simp_all add: cmp_def)
next
  case (Cons x xs)
  show ?case
  proof (cases ys)
    case (Cons y ys')
    with Cons.IH [of ys'] show ?thesis by (simp add: cmp_Cons) (simp add: cmp_def)
  qed (simp add: cmp_def)
qed

lemma length_numbers_key [simp]: "length (numbers_key rs) = length rs"
  by (cases rs) simp_all

lemma numbers_key_nth:
  "i < length rs \<Longrightarrow>
     numbers_key rs ! i = (if i = 0 then (1, [], nat_of_digits (rs ! i)) else component_key (rs ! i))"
  by (cases rs; cases i) simp_all

lemma nat_of_zeros: "nat_of_digits (replicate n (CHR ''0'')) = 0"
  by (induction n) (simp_all add: digit_value_def code_def)

lemma beyond_numbers:
  assumes "length vs \<le> i \<or> vs ! i = []" "i < length os" "isDigitString (os ! i)"
  shows "compare_component vs os i \<le> 0"
proof -
  have digits: "list_all is_digit (os ! i)" using assms by (simp add: isDigitString_def)
  have zero: "list_all is_digit ''0''" by (simp add: is_digit_def code_def)
  have nil: "compareDigitStrings [] (os ! i) \<le> 0" "compareDigitStrings ''0'' (os ! i) \<le> 0"
    using digits zero by (simp_all add: compareDigitStrings_value digit_value_def code_def)
  have "replicate n (CHR ''0'') \<le> s" if "length s = n" "list_all is_digit s" for s n
    using nat_of_digits_less_iff [of s "replicate n (CHR ''0'')"] that zero
    by (auto simp: list_all_iff not_less [symmetric] nat_of_zeros)
  then have "replicate (length (os ! i)) (CHR ''0'') \<le> os ! i" using digits by blast
  then show ?thesis using assms digits nil
    by (auto simp: compare_component_def Let_def not_less max_def Repeat_def dest: leD)
qed

lemma numbers_ok_nth:
  assumes "numbers_ok v"
  shows "i < length (v_numbers v) \<Longrightarrow>
      i < length (rawNumberComponents (v_raw v)) \<and> isDigitString (rawNumberComponents (v_raw v) ! i)"
    and "length (v_numbers v) \<le> i \<Longrightarrow>
      length (rawNumberComponents (v_raw v)) \<le> i \<or> rawNumberComponents (v_raw v) ! i = []"
proof -
  let ?c = "rawNumberComponents (v_raw v)" and ?n = "length (v_numbers v)"
  have ok: "?n \<le> length ?c" "list_all isDigitString (take ?n ?c)" "\<forall>c \<in> set (drop ?n ?c). c = []"
    using assms by (simp_all add: numbers_ok_def Let_def)
  show "i < ?n \<Longrightarrow> i < length ?c \<and> isDigitString (?c ! i)"
    using ok by (auto simp: list_all_length)
  assume i: "?n \<le> i"
  show "length ?c \<le> i \<or> ?c ! i = []"
  proof (cases "length ?c \<le> i")
    case False
    then have "?c ! i = drop ?n ?c ! (i - ?n)" "i - ?n < length (drop ?n ?c)" using i by simp_all
    then show ?thesis using ok(3) by (metis nth_mem)
  qed simp
qed

lemma common_components:
  assumes "numbers_ok v" "numbers_ok w"
  shows "map (compare_component (rawNumberComponents (v_raw v)) (rawNumberComponents (v_raw w)))
           [0..<min (length (v_numbers v)) (length (v_numbers w))] =
         map2 cmp (numbers_key (take (length (v_numbers v)) (rawNumberComponents (v_raw v))))
                  (numbers_key (take (length (v_numbers w)) (rawNumberComponents (v_raw w))))"
proof (rule nth_equalityI)
  have len: "length (v_numbers v) \<le> length (rawNumberComponents (v_raw v))"
    "length (v_numbers w) \<le> length (rawNumberComponents (v_raw w))"
    using assms by (simp_all add: numbers_ok_def Let_def)
  then show "length (map (compare_component (rawNumberComponents (v_raw v)) (rawNumberComponents (v_raw w)))
        [0..<min (length (v_numbers v)) (length (v_numbers w))]) =
      length (map2 cmp (numbers_key (take (length (v_numbers v)) (rawNumberComponents (v_raw v))))
        (numbers_key (take (length (v_numbers w)) (rawNumberComponents (v_raw w)))))"
    by simp
  fix i
  assume i: "i < length (map (compare_component (rawNumberComponents (v_raw v))
      (rawNumberComponents (v_raw w))) [0..<min (length (v_numbers v)) (length (v_numbers w))])"
  then have ok: "i < length (rawNumberComponents (v_raw v))" "i < length (rawNumberComponents (v_raw w))"
    "isDigitString (rawNumberComponents (v_raw v) ! i)" "isDigitString (rawNumberComponents (v_raw w) ! i)"
    using numbers_ok_nth(1) [OF assms(1), of i] numbers_ok_nth(1) [OF assms(2), of i] by simp_all
  show "map (compare_component (rawNumberComponents (v_raw v)) (rawNumberComponents (v_raw w)))
        [0..<min (length (v_numbers v)) (length (v_numbers w))] ! i =
      map2 cmp (numbers_key (take (length (v_numbers v)) (rawNumberComponents (v_raw v))))
        (numbers_key (take (length (v_numbers w)) (rawNumberComponents (v_raw w)))) ! i"
    using i len ok compare_component_key [OF _ ok] compare_component_whole [OF ok]
    by (cases "i = 0") (simp_all add: numbers_key_nth cmp_Pair)
qed

lemma numbers_part_key_le:
  assumes "numbers_ok v" "numbers_ok w" "length (v_numbers v) \<le> length (v_numbers w)"
  shows "first_nonzero [numbers_part v w, cmp (length (v_numbers v)) (length (v_numbers w))] =
    cmp (numbers_key (take (length (v_numbers v)) (rawNumberComponents (v_raw v))))
        (numbers_key (take (length (v_numbers w)) (rawNumberComponents (v_raw w))))"
proof -
  let ?n = "length (v_numbers v)" and ?m = "length (v_numbers w)"
  let ?vs = "rawNumberComponents (v_raw v)" and ?os = "rawNumberComponents (v_raw w)"
  let ?common = "map2 cmp (numbers_key (take ?n ?vs)) (numbers_key (take ?m ?os))"
  define rest where "rest = first_nonzero (map (compare_component ?vs ?os) [?n..<?m])"
  have part: "numbers_part v w = first_nonzero (?common @ [rest])"
    using assms(3) common_components [OF assms(1,2)] upt_add_eq_append [of 0 ?n "?m - ?n"]
    by (simp add: numbers_part_def max_absorb2 min_absorb1 first_nonzero_append rest_def)
  have "compare_component ?vs ?os i \<le> 0" if "i \<in> set [?n..<?m]" for i
    using that numbers_ok_nth(2) [OF assms(1), of i] numbers_ok_nth(1) [OF assms(2), of i]
    by (intro beyond_numbers) simp_all
  then have "first_nonzero (map (compare_component ?vs ?os) xs) \<le> 0" if "set xs \<subseteq> set [?n..<?m]" for xs
    using that by (induction xs) auto
  then have "rest \<le> 0" unfolding rest_def by blast
  moreover have "rest \<in> {-1, 0, 1}"
    unfolding rest_def using compare_component_sign by (intro first_nonzero_sign) simp
  moreover have "rest = 0" if "?n = ?m" using that by (simp add: rest_def)
  moreover have "cmp ?n ?m = (if ?n = ?m then 0 else -1)" using assms(3) by (simp add: cmp_def)
  moreover have "length (take ?n ?vs) = ?n" "length (take ?m ?os) = ?m"
    using assms(1,2) by (simp_all add: numbers_ok_def Let_def)
  ultimately show ?thesis
    by (auto simp: part cmp_lists [of "numbers_key (take ?n ?vs)"] first_nonzero_append)
qed

lemma numbers_part_key:
  assumes "numbers_ok v" "numbers_ok w"
  shows "first_nonzero [numbers_part v w, cmp (length (v_numbers v)) (length (v_numbers w))] =
    cmp (numbers_key (take (length (v_numbers v)) (rawNumberComponents (v_raw v))))
        (numbers_key (take (length (v_numbers w)) (rawNumberComponents (v_raw w))))"
proof (cases "length (v_numbers v) \<le> length (v_numbers w)")
  case True
  then show ?thesis by (rule numbers_part_key_le [OF assms])
next
  case False
  then have "first_nonzero [numbers_part w v, cmp (length (v_numbers w)) (length (v_numbers v))] =
    cmp (numbers_key (take (length (v_numbers w)) (rawNumberComponents (v_raw w))))
        (numbers_key (take (length (v_numbers v)) (rawNumberComponents (v_raw v))))"
    by (intro numbers_part_key_le assms) simp
  then show ?thesis
    using numbers_part_flip [of v w] cmp_flip [of "length (v_numbers v)" "length (v_numbers w)"]
      cmp_flip [of "numbers_key (take (length (v_numbers v)) (rawNumberComponents (v_raw v)))"]
      first_nonzero_uminus [of "[numbers_part w v, cmp (length (v_numbers w)) (length (v_numbers v))]"]
    by (simp only: list.map)
qed

subsection \<open>Suffixes\<close>

lemma keyword_facts:
  assumes "is_suffix_keyword t"
  shows "\<not> isDigitString t" "isNegativeSuffix t \<longleftrightarrow> suffix_rank t < 4" "isPositiveSuffix t \<longleftrightarrow> 4 < suffix_rank t"
    "suffix_rank t \<noteq> 4" "suffixOrder t = (if t = ''_p'' then 4 else int (suffix_rank t))"
    "suffix_rank t = 5 \<longleftrightarrow> t = ''_p''"
  using assms
  by (auto simp: is_suffix_keyword_def isDigitString_def is_digit_def code_def isNegativeSuffix_def
      isPositiveSuffix_def suffix_rank_def suffixOrder_def)

lemma keyword_rank_le: "is_suffix_keyword t \<Longrightarrow> t = ''_p'' \<or> suffix_rank t \<le> 3"
  by (auto simp: is_suffix_keyword_def suffix_rank_def)

lemma compare_keywords:
  assumes "is_suffix_keyword a" "is_suffix_keyword b"
  shows "compare_suffix_token a b = cmp (suffix_rank a) (suffix_rank b)"
  using keyword_facts [OF assms(1)] keyword_facts [OF assms(2)] keyword_rank_le [OF assms(1)]
    keyword_rank_le [OF assms(2)]
  by (auto simp: compare_suffix_token_def Let_def cmp_def)

lemma compare_numbers_token:
  "isDigitString a \<Longrightarrow> isDigitString b \<Longrightarrow>
     compare_suffix_token a b = cmp (nat_of_digits a) (nat_of_digits b)"
  by (simp add: compare_suffix_token_def isDigitString_def compareDigitStrings_value)

lemma compare_zero_token: "isDigitString d \<Longrightarrow> compareDigitStrings d ''0'' = cmp (nat_of_digits d) 0"
  by (simp add: isDigitString_def compareDigitStrings_value is_digit_def digit_value_def code_def)

lemma extra_keyword:
  "is_suffix_keyword t \<Longrightarrow> extra_suffix (t # rest) = cmp (suffix_rank t) 4"
  using keyword_facts [of t] by (auto simp: extra_suffix_def suffixRemainderIsZero_def cmp_def)

lemma extra_number:
  "isDigitString d \<Longrightarrow> extra_suffix [d] = cmp (nat_of_digits d) 0"
  by (auto simp: extra_suffix_def suffixRemainderIsZero_def compare_zero_token cmp_def
      isNegativeSuffix_def isPositiveSuffix_def isDigitString_def is_digit_def code_def)

lemma one_suffix_cases:
  assumes "suffix_list_ok ts" "length (filter (\<lambda>t. \<not> isDigitString t) ts) \<le> 1"
  obtains "ts = []" | t where "ts = [t]" "is_suffix_keyword t"
    | t d where "ts = [t, d]" "is_suffix_keyword t" "isDigitString d"
proof (cases ts rule: suffix_list_ok.cases)
  case (3 t d rest)
  then have d: "is_suffix_keyword t" "\<not> isDigitString t" "isDigitString d"
    using assms keyword_facts(1) by auto (auto split: if_splits)
  moreover have "rest = []"
    using assms d 3 keyword_facts(1) by (cases rest rule: suffix_list_ok.cases) auto
  ultimately show ?thesis using 3 that(3) by simp
qed (use assms that in auto)

lemma compare_one_suffix:
  assumes "suffix_list_ok as" "length (filter (\<lambda>t. \<not> isDigitString t) as) \<le> 1"
    and "suffix_list_ok bs" "length (filter (\<lambda>t. \<not> isDigitString t) bs) \<le> 1"
  shows "compare_suffixes as bs = cmp (suffix_key as) (suffix_key bs)"
  by (rule one_suffix_cases [OF assms(1,2)]; rule one_suffix_cases [OF assms(3,4)])
    (auto simp: extra_keyword extra_number compare_keywords compare_numbers_token cmp_Cons cmp_Pair
      keyword_facts Let_def cmp_flip [of 4] cmp_flip [of "0 :: nat"])

lemma compare_all_numbered:
  assumes "suffix_list_ok as" "all_numbered as" "suffix_list_ok bs" "all_numbered bs"
  shows "compare_suffixes as bs = cmp (suffix_key as) (suffix_key bs)"
  using assms
proof (induction as arbitrary: bs rule: all_numbered.induct)
  case 1
  then show ?case
    by (cases bs rule: all_numbered.cases)
      (auto simp: extra_keyword cmp_Cons cmp_Pair keyword_facts cmp_flip [of 4])
next
  case (3 t d rest)
  show ?case
  proof (cases bs rule: all_numbered.cases)
    case 1
    with 3 show ?thesis by (auto simp: extra_keyword cmp_Cons cmp_Pair keyword_facts)
  next
    case (3 t' d' rest')
    with "3.prems" "3.IH" [of rest'] show ?thesis
      by (auto simp: compare_keywords compare_numbers_token cmp_Cons cmp_Pair Let_def)
  qed (use "3.prems" in simp_all)
qed simp_all

subsection \<open>Parsed versions\<close>

lemma parse_tail_invariant:
  assumes "parse_tail raw v r = Inr (v', r')" "Q v r"
    and step: "\<And>v r b v' r'. r \<noteq> [] \<Longrightarrow> tail_step raw v r = Inr (b, v', r') \<Longrightarrow> Q v r \<Longrightarrow> Q v' r'"
  shows "Q v' r'"
  using assms(1,2)
proof (induction r arbitrary: v rule: length_induct)
  case (1 r)
  show ?case
  proof (cases "r = []")
    case True
    with 1 show ?thesis by (simp add: parse_tail.simps)
  next
    case False
    then obtain b v1 r1 where s: "tail_step raw v r = Inr (b, v1, r1)"
      using "1.prems"(1) by (auto simp: parse_tail.simps [of raw v r] split: sum.splits)
    then have q: "Q v1 r1" using step False "1.prems"(2) by blast
    show ?thesis
    proof (cases b)
      case True
      with s False "1.prems"(1) have "parse_tail raw v1 r1 = Inr (v', r')"
        by (simp add: parse_tail.simps [of raw v r])
      moreover have "length r1 < length r" using tail_step_shrinks [OF False] s True by simp
      ultimately show ?thesis using q "1.IH" by blast
    next
      case f: False
      with s False "1.prems"(1) q show ?thesis by (simp add: parse_tail.simps [of raw v r])
    qed
  qed
qed

lemma parse_numbers_rest: "parse_numbers s = (ns, r) \<Longrightarrow> r = [] \<or> \<not> is_digit (hd r)"
proof (induction s arbitrary: ns r rule: parse_numbers.induct)
  case (1 s)
  show ?case
  proof (cases "s = [] \<or> \<not> is_digit (hd s)")
    case True
    with "1.prems" show ?thesis by (auto simp: parse_numbers.simps [of s])
  next
    case False
    with 1 hd_dropWhile [of is_digit s] show ?thesis
      by (auto simp: parse_numbers.simps [of s] Let_def split: if_splits prod.splits)
  qed
qed

lemma parse_numbers_none: "parse_numbers s = ([], r) \<Longrightarrow> r = s"
  by (simp add: parse_numbers.simps [of s] Let_def split: if_splits prod.splits)

lemma split_on_run:
  "d \<notin> set s \<Longrightarrow> split_on d s = [s]"
  "d \<notin> set s \<Longrightarrow> split_on d (s @ d # t) = s # split_on d t"
  by (induction s) auto

lemma digit_not_dot: "isDigitString s \<Longrightarrow> CHR ''.'' \<notin> set s"
  by (auto simp: isDigitString_def list_all_iff is_digit_def code_def)

abbreviation in_numbers :: "char \<Rightarrow> bool" where
  "in_numbers \<equiv> \<lambda>c. c = CHR ''.'' \<or> is_digit c"

lemma takeWhile_digits:
  "takeWhile in_numbers s = takeWhile is_digit s @ takeWhile in_numbers (dropWhile is_digit s)"
  by (induction s) auto

lemma parse_numbers_components:
  assumes "parse_numbers s = (ns, r)" "r = [] \<or> \<not> is_digit (hd r) \<and> hd r \<noteq> CHR ''.''" "ns \<noteq> []"
  shows "\<exists>runs tail. split_on (CHR ''.'') (takeWhile in_numbers s) = runs @ tail \<and>
    length runs = length ns \<and> list_all isDigitString runs \<and> (\<forall>c \<in> set tail. c = [])"
  using assms
proof (induction s arbitrary: ns r rule: parse_numbers.induct)
  case (1 s)
  let ?run = "takeWhile is_digit s" and ?rest = "dropWhile is_digit s"
  have start: "s \<noteq> []" "is_digit (hd s)"
    using "1.prems" by (auto simp: parse_numbers.simps [of s] split: if_splits)
  then have run: "isDigitString ?run" by (rule digit_run)
  note dot = digit_not_dot [OF run]
  show ?case
  proof (cases "?rest \<noteq> [] \<and> hd ?rest = CHR ''.''")
    case True
    then obtain t where t: "?rest = CHR ''.'' # t" by (cases ?rest) auto
    obtain ns' where p: "parse_numbers t = (ns', r)" and ns: "ns = saturating_Atoi ?run # ns'"
      using "1.prems"(1) start t by (auto simp: parse_numbers.simps [of s] Let_def split: prod.splits)
    have split: "split_on (CHR ''.'') (takeWhile in_numbers s) =
        ?run # split_on (CHR ''.'') (takeWhile in_numbers t)"
      using t split_on_run(2) [OF dot] by (simp add: takeWhile_digits [of s])
    show ?thesis
    proof (cases "ns' = []")
      case True
      then have "r = t" using p parse_numbers_none by blast
      then have "takeWhile in_numbers t = []"
        using "1.prems"(2) by (auto simp: takeWhile_eq_Nil_iff)
      then have "split_on (CHR ''.'') (takeWhile in_numbers s) = [?run] @ [[]] \<and>
          length [?run] = length ns \<and> list_all isDigitString [?run] \<and> (\<forall>c \<in> set [[]]. c = [])"
        using split ns True run by simp
      then show ?thesis by blast
    next
      case False
      obtain runs tail where "split_on (CHR ''.'') (takeWhile in_numbers t) = runs @ tail"
        "length runs = length ns'" "list_all isDigitString runs" "\<forall>c \<in> set tail. c = []"
        using "1.IH" [OF _ refl refl refl True, of ns' r] p "1.prems"(2) False start t by auto
      then have "split_on (CHR ''.'') (takeWhile in_numbers s) = (?run # runs) @ tail \<and>
          length (?run # runs) = length ns \<and> list_all isDigitString (?run # runs) \<and> (\<forall>c \<in> set tail. c = [])"
        using split ns run by simp
      then show ?thesis by blast
    qed
  next
    case False
    then have "r = ?rest" "length ns = 1"
      using "1.prems"(1) start by (auto simp: parse_numbers.simps [of s] Let_def)
    then have "takeWhile in_numbers ?rest = []"
      using "1.prems"(2) by (auto simp: takeWhile_eq_Nil_iff)
    then have "split_on (CHR ''.'') (takeWhile in_numbers s) = [?run] @ [] \<and>
        length [?run] = length ns \<and> list_all isDigitString [?run] \<and> (\<forall>c \<in> set []. c = [])"
      using split_on_run(1) [OF dot] run \<open>length ns = 1\<close> by (simp add: takeWhile_digits [of s])
    then show ?thesis by blast
  qed
qed

lemma suffix_list_ok_append:
  "suffix_list_ok xs \<Longrightarrow> suffix_list_ok (t # ys) \<Longrightarrow> suffix_list_ok (xs @ t # ys)"
proof (induction xs rule: suffix_list_ok.induct)
  case (2 s)
  then show ?case using keyword_facts(1) [of t] by (cases ys) auto
next
  case (3 s d rest)
  then show ?case by (cases "isDigitString d") auto
qed simp

lemma suffix_type_keyword: "suffix_type t \<noteq> [] \<Longrightarrow> is_suffix_keyword (suffix_type t)"
  by (auto simp: suffix_type_def is_suffix_keyword_def split: if_splits)

lemma tail_step_ok:
  assumes "tail_step raw v r = Inr (b, v', r')"
    and "suffix_list_ok (v_suffixes v)" "list_all is_digit (v_revision_raw v)"
  shows "v_raw v' = v_raw v" "v_numbers v' = v_numbers v" "v_letter v' = v_letter v"
    "suffix_list_ok (v_suffixes v')" "list_all is_digit (v_revision_raw v')"
  using assms suffix_type_keyword [of "suffix_token r"]
  by (auto simp: tail_step_def Let_def list_all_iff isDigitString_def intro!: suffix_list_ok_append
      split: if_splits option.splits dest: set_takeWhileD)

lemma parse_tail_ok:
  assumes "parse_tail raw v r = Inr (v', r')"
    and "suffix_list_ok (v_suffixes v)" "list_all is_digit (v_revision_raw v)"
  shows "v_raw v' = v_raw v \<and> v_numbers v' = v_numbers v \<and> v_letter v' = v_letter v \<and>
    suffix_list_ok (v_suffixes v') \<and> list_all is_digit (v_revision_raw v')"
proof (rule parse_tail_invariant [OF assms(1), where Q = "\<lambda>u r. v_raw u = v_raw v \<and>
    v_numbers u = v_numbers v \<and> v_letter u = v_letter v \<and> suffix_list_ok (v_suffixes u) \<and>
    list_all is_digit (v_revision_raw u)"])
  show "v_raw v = v_raw v \<and> v_numbers v = v_numbers v \<and> v_letter v = v_letter v \<and>
      suffix_list_ok (v_suffixes v) \<and> list_all is_digit (v_revision_raw v)"
    using assms by simp
next
  fix u r b u' r'
  assume "tail_step raw u r = Inr (b, u', r')"
    and "v_raw u = v_raw v \<and> v_numbers u = v_numbers v \<and> v_letter u = v_letter v \<and>
      suffix_list_ok (v_suffixes u) \<and> list_all is_digit (v_revision_raw u)"
  then show "v_raw u' = v_raw v \<and> v_numbers u' = v_numbers v \<and> v_letter u' = v_letter v \<and>
      suffix_list_ok (v_suffixes u') \<and> list_all is_digit (v_revision_raw u')"
    using tail_step_ok [of raw u r b u' r'] by simp
qed

lemma parse_tail_dot: "hd r = CHR ''.'' \<Longrightarrow> r \<noteq> [] \<Longrightarrow> parse_tail raw v r = Inr (v, r)"
  by (simp add: parse_tail.simps [of raw v r] tail_step_def)

lemma parsed_version_ok:
  assumes "parseVersionString raw = Inr v"
  shows "version_ok v \<and> v_raw v = raw"
proof -
  obtain ns r where p: "parse_numbers raw = (ns, r)" by fastforce
  define letter where "letter = (if r \<noteq> [] \<and> is_lower (hd r) then [hd r] else [])"
  define r1 where "r1 = (if r \<noteq> [] \<and> is_lower (hd r) then tl r else r)"
  define v0 where "v0 = \<lparr>v_raw = raw, v_numbers = ns, v_letter = letter, v_suffixes = [],
      v_revision = -1, v_revision_raw = []\<rparr>"
  obtain rest where t: "parse_tail raw v0 r1 = Inr (v, rest)" and rest: "rest = [] \<or> rest = ''*''"
    using assms p
    by (auto simp: parseVersionString_def Let_def v0_def letter_def r1_def split: if_splits sum.splits)
  have guard: "ns = [] \<Longrightarrow> r = [] \<or> hd r = CHR ''_'' \<or> hd r = CHR ''-''"
    using assms p by (auto simp: parseVersionString_def split: if_splits)
  have v: "v_raw v = raw" "v_numbers v = ns" "suffix_list_ok (v_suffixes v)" "list_all is_digit (v_revision_raw v)"
    using parse_tail_ok [OF t] by (simp_all add: v0_def)
  have "r = [] \<or> hd r \<noteq> CHR ''.''"
  proof (rule ccontr)
    assume "\<not> ?thesis"
    then have dot: "r \<noteq> []" "hd r = CHR ''.''" by simp_all
    then have "r1 = r" by (simp add: r1_def is_lower_def code_def)
    then have "rest = r" using t parse_tail_dot [OF dot(2,1)] by simp
    then show False using rest dot by auto
  qed
  then have r: "r = [] \<or> \<not> is_digit (hd r) \<and> hd r \<noteq> CHR ''.''" using parse_numbers_rest [OF p] by blast
  have "numbers_ok v"
  proof (cases "ns = []")
    case True
    then have "r = raw" using p parse_numbers_none by simp
    then have "takeWhile in_numbers raw = []" using r by (cases raw) auto
    then show ?thesis using v True by (simp add: numbers_ok_def rawNumberComponents_def)
  next
    case False
    then obtain runs tail where "split_on (CHR ''.'') (takeWhile in_numbers raw) = runs @ tail"
      "length runs = length ns" "list_all isDigitString runs" "\<forall>c \<in> set tail. c = []"
      using parse_numbers_components [OF p r] by blast
    moreover have "takeWhile in_numbers raw \<noteq> []"
      using False p by (auto simp: parse_numbers.simps [of raw] takeWhile_eq_Nil_iff split: if_splits)
    ultimately show ?thesis using v by (simp add: numbers_ok_def rawNumberComponents_def)
  qed
  then show ?thesis using v by (simp add: version_ok_def)
qed

lemma ParseVersion_ok: "ParseVersion raw = Inr v \<Longrightarrow> version_ok v \<and> v_raw v = raw"
  by (auto simp: ParseVersion_def parsed_version_ok split: if_splits option.splits)

lemma revision_text_digits: "list_all is_digit (v_revision_raw v) \<Longrightarrow> list_all is_digit (revision_text v)"
  by (simp add: revision_text_def Itoa_def)

subsection \<open>The comparison is the reference order\<close>

lemma compare_version_key:
  assumes "version_ok v" "version_ok w"
    and "compare_suffixes (v_suffixes v) (v_suffixes w) = cmp (suffix_key (v_suffixes v)) (suffix_key (v_suffixes w))"
  shows "compare_version v w = cmp (pms_key v) (pms_key w)"
proof -
  have "compare_version v w = first_nonzero
      [first_nonzero [numbers_part v w, cmp (length (v_numbers v)) (length (v_numbers w))],
       cmp (v_letter v) (v_letter w), compare_suffixes (v_suffixes v) (v_suffixes w),
       compareDigitStrings (revision_text v) (revision_text w)]"
    by (simp add: compare_version_chain)
  also have "\<dots> = cmp (pms_key v) (pms_key w)"
    using assms revision_text_digits [of v] revision_text_digits [of w]
    by (subst numbers_part_key)
      (simp_all add: version_ok_def compareDigitStrings_value pms_key_def cmp_Pair)
  finally show ?thesis .
qed

interpretation single_suffix_order:
  keyed_order compare_version pms_key "\<lambda>v. version_ok v \<and> at_most_one_suffix v"
  by unfold_locales (simp add: compare_version_key compare_one_suffix version_ok_def at_most_one_suffix_def)

interpretation numbered_suffix_order:
  keyed_order compare_version pms_key "\<lambda>v. version_ok v \<and> all_numbered (v_suffixes v)"
  by unfold_locales (simp add: compare_version_key compare_all_numbered version_ok_def)

subsection \<open>Properties\<close>

lemma saturating_Atoi_range: "isDigitString s \<Longrightarrow> 0 \<le> saturating_Atoi s \<and> saturating_Atoi s \<le> max_int"
  by (auto simp: saturating_Atoi_def Atoi_digits isDigitString_def max_int_def split: option.splits if_splits)

lemma parse_numbers_range:
  "parse_numbers s = (ns, r) \<Longrightarrow> \<forall>n \<in> set ns. 0 \<le> n \<and> n \<le> max_int"
proof (induction s arbitrary: ns r rule: parse_numbers.induct)
  case (1 s)
  show ?case
  proof (cases "s = [] \<or> \<not> is_digit (hd s)")
    case True
    with "1.prems" show ?thesis by (auto simp: parse_numbers.simps [of s])
  next
    case False
    then have "0 \<le> saturating_Atoi (takeWhile is_digit s)" "saturating_Atoi (takeWhile is_digit s) \<le> max_int"
      using saturating_Atoi_range [OF digit_run] by simp_all
    with False 1 show ?thesis
      by (auto simp: parse_numbers.simps [of s] Let_def split: if_splits prod.splits)
  qed
qed

lemma tail_step_revision:
  "tail_step raw v r = Inr (b, v', r') \<Longrightarrow> -1 \<le> v_revision v \<and> v_revision v \<le> max_int \<Longrightarrow>
     -1 \<le> v_revision v' \<and> v_revision v' \<le> max_int"
  by (auto simp: tail_step_def Let_def Atoi_digits max_int_def split: if_splits)

lemma parsed_version_range:
  assumes "parseVersionString raw = Inr v"
  shows "(\<forall>n \<in> set (v_numbers v). 0 \<le> n \<and> n \<le> max_int) \<and> -1 \<le> v_revision v \<and> v_revision v \<le> max_int"
proof -
  obtain ns r where p: "parse_numbers raw = (ns, r)" by fastforce
  obtain v0 r1 rest where t: "parse_tail raw v0 r1 = Inr (v, rest)"
    and v0: "v_numbers v0 = ns" "v_revision v0 = -1" "v_suffixes v0 = []" "v_revision_raw v0 = []"
    using assms p by (auto simp: parseVersionString_def Let_def split: if_splits sum.splits)
  have "v_numbers v = ns" using parse_tail_ok [OF t] v0 by simp
  moreover have "-1 \<le> v_revision v \<and> v_revision v \<le> max_int"
    by (rule parse_tail_invariant [OF t, where Q = "\<lambda>v r. -1 \<le> v_revision v \<and> v_revision v \<le> max_int"])
      (simp add: v0 max_int_def, erule tail_step_revision, assumption)
  ultimately show ?thesis using parse_numbers_range [OF p] by simp
qed

text \<open>
  Comparing two versions (present or absent) gives -1, 0 or 1, and exchanging them negates
  the result.
\<close>

theorem version_compare_antisymmetric:
  "Compare v w = - Compare w v \<and> (Compare v w = -1 \<or> Compare v w = 0 \<or> Compare v w = 1)"
  using optional_version_order.flip [of v w] optional_version_order.trichotomy [of v w] by simp

text \<open>
  Strings of decimal digits of any length compare as the numbers they denote, with no
  overflow; leading zeros do not count.
\<close>

theorem digit_strings_compare_as_numbers:
  assumes "list_all is_digit l" "list_all is_digit r"
  shows "compareDigitStrings l r = cmp (nat_of_digits l) (nat_of_digits r)"
  by (rule digit_order.by_key [OF assms])

theorem digit_strings_compare_as_numbers_witness:
  "compareDigitStrings ''00099999999999999999999'' ''100000000000000000000'' = -1 \<and>
   nat_of_digits ''00099999999999999999999'' = 99999999999999999999"
proof -
  have d: "list_all is_digit ''00099999999999999999999''" "list_all is_digit ''100000000000000000000''"
    by code_simp+
  have n: "nat_of_digits ''00099999999999999999999'' = 99999999999999999999"
    "nat_of_digits ''100000000000000000000'' = 100000000000000000000"
    by (simp_all add: digit_value_def code_def)
  show ?thesis using digit_strings_compare_as_numbers [OF d] unfolding n by (simp add: cmp_def)
qed

text \<open>
  Claim C38: on parsed versions that carry at most one suffix each, or whose suffixes are all
  numbered, the comparison is the order of the reference key: numeric components first (a component
  after the first with a leading zero is a decimal fraction), then the number of components, the
  letter, the suffixes and the revision.
\<close>

theorem compare_is_reference_order:
  assumes "ParseVersion rv = Inr v" "ParseVersion rw = Inr w"
    and "at_most_one_suffix v \<and> at_most_one_suffix w \<or>
         all_numbered (v_suffixes v) \<and> all_numbered (v_suffixes w)"
  shows "Compare (Some v) (Some w) = cmp (pms_key v) (pms_key w)"
  using assms ParseVersion_ok single_suffix_order.by_key [of v w] numbered_suffix_order.by_key [of v w]
  by auto

theorem compare_is_reference_order_witness:
  "\<exists>v w. ParseVersion ''1.01b_rc2-r3'' = Inr v \<and> ParseVersion ''1.1b_p'' = Inr w \<and>
     Compare (Some v) (Some w) = cmp (pms_key v) (pms_key w) \<and> pms_key v < pms_key w"
proof -
  let ?v = "projr (ParseVersion ''1.01b_rc2-r3'')" and ?w = "projr (ParseVersion ''1.1b_p'')"
  have p: "ParseVersion ''1.01b_rc2-r3'' = Inr ?v" "ParseVersion ''1.1b_p'' = Inr ?w" by code_simp+
  have s: "at_most_one_suffix ?v \<and> at_most_one_suffix ?w \<or>
      all_numbered (v_suffixes ?v) \<and> all_numbered (v_suffixes ?w)" by code_simp
  have "pms_key ?v < pms_key ?w" by code_simp
  then show ?thesis using p compare_is_reference_order [OF p s] by blast
qed

text \<open>
  Among parsed versions with at most one suffix the comparison is transitive, and versions
  that compare equal are interchangeable, so sorting by it and taking a newest version are well
  defined.
\<close>

theorem compare_total_preorder:
  assumes "ParseVersion ru = Inr u" "ParseVersion rv = Inr v" "ParseVersion rw = Inr w"
    and "at_most_one_suffix u" "at_most_one_suffix v" "at_most_one_suffix w"
  shows "(Compare (Some u) (Some v) \<le> 0 \<longrightarrow> Compare (Some v) (Some w) \<le> 0 \<longrightarrow> Compare (Some u) (Some w) \<le> 0) \<and>
         (Compare (Some u) (Some v) = 0 \<longrightarrow> Compare (Some u) (Some w) = Compare (Some v) (Some w))"
  using assms ParseVersion_ok single_suffix_order.le_trans [of u v w]
    single_suffix_order.equal_substitutes [of u v w]
  by auto

theorem compare_total_preorder_witness:
  "\<exists>u v w. ParseVersion ''1.0_alpha'' = Inr u \<and> ParseVersion ''1.0'' = Inr v \<and>
     ParseVersion ''1.0-r1'' = Inr w \<and> Compare (Some u) (Some v) \<le> 0 \<and> Compare (Some v) (Some w) \<le> 0 \<and>
     Compare (Some u) (Some w) \<le> 0"
proof -
  let ?u = "projr (ParseVersion ''1.0_alpha'')" and ?v = "projr (ParseVersion ''1.0'')"
    and ?w = "projr (ParseVersion ''1.0-r1'')"
  have p: "ParseVersion ''1.0_alpha'' = Inr ?u" "ParseVersion ''1.0'' = Inr ?v"
    "ParseVersion ''1.0-r1'' = Inr ?w" by code_simp+
  have s: "at_most_one_suffix ?u" "at_most_one_suffix ?v" "at_most_one_suffix ?w" by code_simp+
  have le: "Compare (Some ?u) (Some ?v) \<le> 0" "Compare (Some ?v) (Some ?w) \<le> 0" by code_simp+
  then show ?thesis using p compare_total_preorder [OF p s] by blast
qed

text \<open>
  With several suffixes the comparison is not transitive. \<^verbatim>\<open>1_p\<close> is older than \<^verbatim>\<open>1_p_p\<close>, which
  is older than \<^verbatim>\<open>1_p0\<close>, which compares equal to \<^verbatim>\<open>1_p\<close>: the suffix keyword after an unnumbered suffix
  is compared with the number of the other version instead of with the implicit zero.
\<close>

theorem compare_cycle_with_two_suffixes:
  "\<exists>a b c. ParseVersion ''1_p'' = Inr a \<and> ParseVersion ''1_p_p'' = Inr b \<and> ParseVersion ''1_p0'' = Inr c \<and>
     Compare (Some a) (Some b) = -1 \<and> Compare (Some b) (Some c) = -1 \<and> Compare (Some a) (Some c) = 0"
proof -
  let ?a = "projr (ParseVersion ''1_p'')" and ?b = "projr (ParseVersion ''1_p_p'')"
    and ?c = "projr (ParseVersion ''1_p0'')"
  have "ParseVersion ''1_p'' = Inr ?a" "ParseVersion ''1_p_p'' = Inr ?b" "ParseVersion ''1_p0'' = Inr ?c"
    "Compare (Some ?a) (Some ?b) = -1" "Compare (Some ?b) (Some ?c) = -1" "Compare (Some ?a) (Some ?c) = 0"
    by code_simp+
  then show ?thesis by blast
qed

text \<open>
  The integers a parsed version stores stay within Go's 64-bit \<^verbatim>\<open>int\<close>: numeric components
  are saturated at the largest value instead of wrapping, and the revision is -1 or in range.
\<close>

theorem parsed_version_in_range:
  assumes "ParseVersion raw = Inr v"
  shows "(\<forall>n \<in> set (v_numbers v). 0 \<le> n \<and> n \<le> 2 ^ 63 - 1) \<and> -1 \<le> v_revision v \<and> v_revision v \<le> 2 ^ 63 - 1"
  using assms parsed_version_range [of raw v]
  by (auto simp: ParseVersion_def max_int_def split: if_splits option.splits)

theorem parsed_version_in_range_witness:
  "\<exists>v. ParseVersion ''99999999999999999999.1-r99999999999999999999'' = Inr v \<and>
     v_numbers v = [2 ^ 63 - 1, 1] \<and> v_revision v = 2 ^ 63 - 1"
proof -
  let ?v = "projr (ParseVersion ''99999999999999999999.1-r99999999999999999999'')"
  have p: "ParseVersion ''99999999999999999999.1-r99999999999999999999'' = Inr ?v" by code_simp
  have "v_numbers ?v = [2 ^ 63 - 1, 1]" "v_revision ?v = 2 ^ 63 - 1" by code_simp+
  then show ?thesis using p parsed_version_in_range [OF p] by blast
qed

end
