(* ===== verification/Atoms.thy ===== *)
theory Atoms
  imports Versions
begin

text \<open>
  Package atoms: the \<^verbatim>\<open>Atom\<close> and \<^verbatim>\<open>UseFlag\<close> structs, their rendering and the recursive-descent parser of
  \<^verbatim>\<open>src/internal/atom\<close>. The parser state is the Go struct (input and position); \<open>rest\<close> is the text
  that is still to be read. Loops that read a run of bytes are \<open>takeWhile\<close>, loops with an error or a
  look-ahead inside are recursive functions over the remaining text.
\<close>

subsection \<open>Data\<close>

datatype slot_op = SlotOpNone | SlotOpEq | SlotOpStar

datatype op = OpNone | OpLess | OpLessEq | OpEq | OpEqGlob | OpTilde | OpGtEq | OpGt

fun slot_op_text :: "slot_op \<Rightarrow> string" where
  "slot_op_text SlotOpNone = []"
| "slot_op_text SlotOpEq = ''=''"
| "slot_op_text SlotOpStar = ''*''"

fun op_const :: "op \<Rightarrow> string" where
  \<comment> \<open>the string constant behind each operator\<close>
  "op_const OpNone = []"
| "op_const OpLess = ''<''"
| "op_const OpLessEq = ''<=''"
| "op_const OpEq = ''=''"
| "op_const OpEqGlob = ''=*''"
| "op_const OpTilde = ''~''"
| "op_const OpGtEq = ''>=''"
| "op_const OpGt = ''>''"

record use_flag =
  u_name :: string
  u_enabled :: bool
  u_conditional :: bool
  u_equal :: bool
  u_negated :: bool
  u_default :: "bool option"

record atom =
  a_op :: op
  a_category :: string
  a_package :: string
  a_version :: "version option"
  a_slot :: string
  a_subslot :: string
  a_slot_op :: slot_op
  a_repo :: string
  a_use_flags :: "use_flag list"

datatype atom_error =
    EmptyAtom
  | InvalidAtomByte nat nat
  | ParsingAtom string atom_error
  | BlockerPrefix
  | OperatorRequiresVersion op
  | DashWithoutVersion
  | VersionError version_error
  | WildcardRequiresEq
  | EmptyRepository
  | SlotError atom_error
  | UseFlagsError atom_error
  | TrailingInput string nat
  | InvalidCategoryChar char nat
  | ExpectedCategoryPackage
  | CategoryStart
  | InvalidPackageChar char nat
  | EmptyPackage
  | PackageStart
  | VersionLikeSuffix string
  | AfterStandaloneEq
  | AfterStandaloneStar
  | StarAfterSlot
  | EmptySlot
  | SlotPartStart string
  | SlotPartChar char string
  | EmptySubslotBeforeEq
  | StarAfterSubslot
  | EmptySubslot
  | EmptyUseDependency
  | DuplicateUseDependency string
  | UnterminatedUse
  | EmptyUseFlag
  | InvalidUseChar char nat
  | NegatedNeedsOperator string
  | DisabledWithOperator string
  | VersionedNeedsOperator

abbreviation squote :: "string \<Rightarrow> string" where
  "squote s \<equiv> CHR 0x27 # s @ [CHR 0x27]"

primrec atom_error_text :: "atom_error \<Rightarrow> string" where
  "atom_error_text EmptyAtom = ''empty atom string''"
| "atom_error_text (InvalidAtomByte b n) = ''invalid atom byte 0x'' @ hex2 b @ '' at position '' @ show_nat n"
| "atom_error_text (ParsingAtom raw e) = ''parsing atom '' @ go_quote raw @ '': '' @ atom_error_text e"
| "atom_error_text BlockerPrefix = ''blocker prefix belongs to a dependency expression, not an atom''"
| "atom_error_text (OperatorRequiresVersion p) = ''operator '' @ go_quote (op_const p) @ '' requires a version''"
| "atom_error_text DashWithoutVersion = ''package name must not end with '' @ squote ''-'' @ '' without a version''"
| "atom_error_text (VersionError e) = ''version: '' @ version_error_text e"
| "atom_error_text WildcardRequiresEq = ''version wildcard requires the = operator''"
| "atom_error_text EmptyRepository = ''empty repository''"
| "atom_error_text (SlotError e) = ''slot: '' @ atom_error_text e"
| "atom_error_text (UseFlagsError e) = ''use flags: '' @ atom_error_text e"
| "atom_error_text (TrailingInput s n) =
     ''unexpected trailing input '' @ go_quote s @ '' at position '' @ show_nat n"
| "atom_error_text (InvalidCategoryChar c n) =
     ''invalid character '' @ go_quote_char c @ '' in category at position '' @ show_nat n"
| "atom_error_text ExpectedCategoryPackage = ''expected category/package form''"
| "atom_error_text CategoryStart = ''category must begin with an ASCII letter, digit, or underscore''"
| "atom_error_text (InvalidPackageChar c n) =
     ''invalid character '' @ go_quote_char c @ '' in package name at position '' @ show_nat n"
| "atom_error_text EmptyPackage = ''empty package name''"
| "atom_error_text PackageStart = ''package name must begin with an ASCII letter, digit, or underscore''"
| "atom_error_text (VersionLikeSuffix s) = ''package name has version-like suffix '' @ go_quote s"
| "atom_error_text AfterStandaloneEq = ''unexpected input after standalone := operator''"
| "atom_error_text AfterStandaloneStar = ''unexpected input after standalone :* operator''"
| "atom_error_text StarAfterSlot = ''the * slot operator cannot follow a named slot''"
| "atom_error_text EmptySlot = ''empty slot''"
| "atom_error_text (SlotPartStart l) = l @ '' must begin with an ASCII letter, digit, or underscore''"
| "atom_error_text (SlotPartChar c l) = ''invalid character '' @ go_quote_char c @ '' in '' @ l"
| "atom_error_text EmptySubslotBeforeEq = ''empty subslot before '' @ squote ''='' @ '' operator''"
| "atom_error_text StarAfterSubslot = ''the * slot operator cannot follow a named subslot''"
| "atom_error_text EmptySubslot = ''empty subslot''"
| "atom_error_text EmptyUseDependency = ''empty USE dependency''"
| "atom_error_text (DuplicateUseDependency n) = ''duplicate USE dependency '' @ go_quote n"
| "atom_error_text UnterminatedUse = ''unterminated USE dependency list''"
| "atom_error_text EmptyUseFlag = ''empty use flag''"
| "atom_error_text (InvalidUseChar c n) =
     ''invalid character '' @ go_quote_char c @ '' in use flag at position '' @ show_nat n"
| "atom_error_text (NegatedNeedsOperator n) = ''negated USE dependency '' @ go_quote n @ '' requires ? or =''"
| "atom_error_text (DisabledWithOperator n) = ''disabled USE dependency '' @ go_quote n @ '' cannot use ? or =''"
| "atom_error_text VersionedNeedsOperator = ''versioned package atoms require an operator''"

subsection \<open>Rendering\<close>

definition op_part :: "atom \<Rightarrow> string" where
  "op_part a = (if a_op a = OpEqGlob then ''='' else op_const (a_op a))"

definition version_part :: "atom \<Rightarrow> string" where
  "version_part a = (case a_version a of
     Some v \<Rightarrow> if v_raw v \<noteq> [] then CHR ''-'' # v_raw v else []
   | None \<Rightarrow> [])"

definition slot_part :: "atom \<Rightarrow> string" where
  "slot_part a =
     (if a_slot a \<noteq> [] \<or> a_slot_op a \<noteq> SlotOpNone
      then CHR '':'' #
        (if a_slot a = [] then slot_op_text (a_slot_op a)
         else a_slot a @ (if a_subslot a \<noteq> [] then CHR ''/'' # a_subslot a else []) @
              slot_op_text (a_slot_op a))
      else [])"

definition repo_part :: "atom \<Rightarrow> string" where
  "repo_part a = (if a_repo a \<noteq> [] then ''::'' @ a_repo a else [])"

definition use_flag_string :: "use_flag \<Rightarrow> string" where
  "use_flag_string f =
     (if u_negated f then ''!''
      else if \<not> u_enabled f \<and> \<not> u_conditional f \<and> \<not> u_equal f then ''-'' else []) @
     u_name f @
     (case u_default f of None \<Rightarrow> [] | Some True \<Rightarrow> ''(+)'' | Some False \<Rightarrow> ''(-)'') @
     (if u_conditional f then ''?'' else if u_equal f then ''='' else [])"

definition use_part :: "atom \<Rightarrow> string" where
  "use_part a =
     (if a_use_flags a \<noteq> [] then ''['' @ join_with '','' (map use_flag_string (a_use_flags a)) @ '']'' else [])"

definition atom_string :: "atom \<Rightarrow> string" where
  \<comment> \<open>\<^verbatim>\<open>Atom.String\<close>\<close>
  "atom_string a =
     op_part a @ (if a_category a \<noteq> [] then a_category a @ ''/'' else []) @ a_package a @
     version_part a @ slot_part a @ repo_part a @ use_part a"

definition CPV :: "atom \<Rightarrow> string" where
  "CPV a = a_category a @ ''/'' @ a_package a @ version_part a"

definition CP :: "atom \<Rightarrow> string" where
  "CP a = a_category a @ ''/'' @ a_package a"

definition atom_key :: "atom \<Rightarrow> string" where
  "atom_key a = CP a"

subsection \<open>Byte classes\<close>

definition isAtomChar :: "char \<Rightarrow> bool" where
  "isAtomChar b \<longleftrightarrow> is_lower b \<or> is_upper b \<or> is_digit b \<or> b = CHR ''_''"

definition isCategoryChar :: "char \<Rightarrow> bool" where
  "isCategoryChar b \<longleftrightarrow> isAtomChar b \<or> b = CHR ''+'' \<or> b = CHR ''-'' \<or> b = CHR ''.''"

definition isSlotChar :: "char \<Rightarrow> bool" where
  "isSlotChar b \<longleftrightarrow> isCategoryChar b"

definition isRepositoryChar :: "char \<Rightarrow> bool" where
  "isRepositoryChar b \<longleftrightarrow> isAtomChar b \<or> b = CHR ''-''"

definition isPackageChar :: "char \<Rightarrow> bool" where
  \<comment> \<open>the condition of the package name loop\<close>
  "isPackageChar b \<longleftrightarrow> isAtomChar b \<or> b = CHR ''-'' \<or> b = CHR ''+''"

definition isUseChar :: "char \<Rightarrow> bool" where
  \<comment> \<open>the condition of the USE flag name loop\<close>
  "isUseChar b \<longleftrightarrow> isAtomChar b \<or> b = CHR ''-'' \<or> b = CHR ''_'' \<or> b = CHR ''@''"

definition validateSlotPart :: "string \<Rightarrow> string \<Rightarrow> atom_error option" where
  "validateSlotPart label s =
     (if s = [] \<or> \<not> isAtomChar (hd s) then Some (SlotPartStart label)
      else case find (\<lambda>c. \<not> isSlotChar c) (tl s) of
          Some c \<Rightarrow> Some (SlotPartChar c label)
        | None \<Rightarrow> None)"

subsection \<open>Parser state\<close>

record parser =
  p_input :: string
  p_pos :: nat

abbreviation nul :: char where
  "nul \<equiv> CHR 0x00"

definition rest :: "parser \<Rightarrow> string" where
  "rest p = drop (p_pos p) (p_input p)"

definition peek :: "parser \<Rightarrow> char" where
  "peek p = (if p_pos p \<ge> length (p_input p) then nul else p_input p ! p_pos p)"

definition skip :: "nat \<Rightarrow> parser \<Rightarrow> parser" where
  \<comment> \<open>\<^verbatim>\<open>p.pos += n\<close>\<close>
  "skip n p = p\<lparr>p_pos := p_pos p + n\<rparr>"

definition advance :: "parser \<Rightarrow> parser" where
  "advance p = (if p_pos p \<ge> length (p_input p) then p else skip 1 p)"

definition at_double_colon :: "parser \<Rightarrow> bool" where
  \<comment> \<open>\<^verbatim>\<open>p.pos+1 < len(p.input) && p.input[p.pos+1] == ':'\<close>\<close>
  "at_double_colon p \<longleftrightarrow> p_pos p + 1 < length (p_input p) \<and> p_input p ! (p_pos p + 1) = CHR '':''"

subsection \<open>Operators, category and package\<close>

definition parseOp :: "string \<Rightarrow> op \<times> nat" where
  "parseOp s =
     (if HasPrefix s ''<='' then (OpLessEq, 2)
      else if HasPrefix s ''>='' then (OpGtEq, 2)
      else if HasPrefix s ''<'' then (OpLess, 1)
      else if HasPrefix s ''>'' then (OpGt, 1)
      else if HasPrefix s ''~'' then (OpTilde, 1)
      else if HasPrefix s ''='' then (OpEq, 1)
      else (OpNone, 0))"

abbreviation version_ends :: "char \<Rightarrow> bool" where
  "version_ends c \<equiv> c = CHR '':'' \<or> c = CHR ''[''"

definition accepts_version :: "string \<Rightarrow> bool" where
  "accepts_version s = (case parseVersionString s of Inl e \<Rightarrow> False | Inr v \<Rightarrow> True)"

fun scan_package :: "nat \<Rightarrow> string \<Rightarrow> (atom_error, string) result" where
  \<comment> \<open>the package name loop: the bytes it consumes, from position \<open>i\<close>\<close>
  "scan_package i [] = Inr []"
| "scan_package i (b # bs) =
     (if b = CHR '':'' \<or> b = CHR ''['' \<or> b = nul then Inr []
      else if b = CHR ''-'' \<and> bs \<noteq> [] \<and> is_digit (hd bs) \<and>
              accepts_version (takeWhile (\<lambda>c. \<not> version_ends c) bs) then Inr []
      else if \<not> isAtomChar b \<and> b \<noteq> CHR ''-'' \<and> b \<noteq> CHR ''+'' then Inl (InvalidPackageChar b (i + 1))
      else (case scan_package (i + 1) bs of Inl e \<Rightarrow> Inl e | Inr s \<Rightarrow> Inr (b # s)))"

fun version_like_suffix :: "string \<Rightarrow> string option" where
  \<comment> \<open>the first suffix after a hyphen that is itself a version\<close>
  "version_like_suffix [] = None"
| "version_like_suffix (b # bs) =
     (if b \<noteq> CHR ''-'' \<or> bs = [] then version_like_suffix bs
      else if accepts_version bs then Some bs
      else version_like_suffix bs)"

definition parseCP :: "parser \<Rightarrow> (atom_error, (string \<times> string) \<times> parser) result" where
  "parseCP p =
     (let cat = takeWhile (\<lambda>b. b \<noteq> CHR ''/'' \<and> isCategoryChar b) (rest p);
          p1 = skip (length cat) p
      in if rest p1 \<noteq> [] \<and> hd (rest p1) \<noteq> CHR ''/''
         then Inl (InvalidCategoryChar (hd (rest p1)) (p_pos p1 + 1))
         else if cat = [] \<or> rest p1 = [] then Inl ExpectedCategoryPackage
         else if \<not> isAtomChar (hd cat) then Inl CategoryStart
         else (let p2 = skip 1 p1
               in case scan_package (p_pos p2) (rest p2) of
                    Inl e \<Rightarrow> Inl e
                  | Inr pkg \<Rightarrow>
                      if pkg = [] then Inl EmptyPackage
                      else if \<not> isAtomChar (hd pkg) then Inl PackageStart
                      else case version_like_suffix pkg of
                          Some s \<Rightarrow> Inl (VersionLikeSuffix s)
                        | None \<Rightarrow> Inr ((cat, pkg), skip (length pkg) p2)))"

definition parseVersion :: "parser \<Rightarrow> (version_error, version \<times> parser) result" where
  "parseVersion p =
     (let raw = takeWhile (\<lambda>b. \<not> (version_ends b \<or> b = nul)) (rest p)
      in if raw = [] then Inl EmptyVersionAfterDash
         else case parseVersionString raw of
             Inl e \<Rightarrow> Inl e
           | Inr v \<Rightarrow> Inr (v, skip (length raw) p))"

subsection \<open>Slots and repositories\<close>

fun scan_slot :: "string \<Rightarrow> (atom_error, string \<times> bool) result" where
  \<comment> \<open>the slot loop: the slot text and whether an \<open>=\<close> ended it\<close>
  "scan_slot [] = Inr ([], False)"
| "scan_slot (b # bs) =
     (if b = CHR ''/'' \<or> b = CHR ''['' \<or> b = nul then Inr ([], False)
      else if b = CHR '':'' \<and> bs \<noteq> [] \<and> hd bs = CHR '':'' then Inr ([], False)
      else if b = CHR ''='' then Inr ([], True)
      else if b = CHR ''*'' then Inl StarAfterSlot
      else (case scan_slot bs of Inl e \<Rightarrow> Inl e | Inr (s, eq) \<Rightarrow> Inr (b # s, eq)))"

fun scan_subslot :: "bool \<Rightarrow> string \<Rightarrow> (atom_error, string \<times> bool) result" where
  \<comment> \<open>the subslot loop; the flag says that nothing has been read yet\<close>
  "scan_subslot start [] = Inr ([], False)"
| "scan_subslot start (b # bs) =
     (if b = CHR ''['' \<or> b = nul \<or> b = CHR '':'' then Inr ([], False)
      else if b = CHR ''='' then (if start then Inl EmptySubslotBeforeEq else Inr ([], True))
      else if b = CHR ''*'' then Inl StarAfterSubslot
      else (case scan_subslot False bs of Inl e \<Rightarrow> Inl e | Inr (s, eq) \<Rightarrow> Inr (b # s, eq)))"

definition slot_operator_ends :: "parser \<Rightarrow> bool" where
  "slot_operator_ends p \<longleftrightarrow>
     peek p = nul \<or> peek p = CHR ''['' \<or> peek p = CHR '':'' \<and> at_double_colon p"

definition parseSubslot :: "atom \<Rightarrow> parser \<Rightarrow> (atom_error, atom \<times> parser) result" where
  "parseSubslot a p =
     (if peek p = CHR ''/'' then
        (let p1 = advance p
         in case scan_subslot True (rest p1) of
              Inl e \<Rightarrow> Inl e
            | Inr (s, eq) \<Rightarrow>
                if s = [] then Inl EmptySubslot
                else (case validateSlotPart ''subslot'' s of
                    Some e \<Rightarrow> Inl e
                  | None \<Rightarrow>
                      Inr (a\<lparr>a_subslot := s, a_slot_op := (if eq then SlotOpEq else a_slot_op a)\<rparr>,
                           skip (length s + (if eq then 1 else 0)) p1)))
      else Inr (a, p))"

definition parseSlot :: "atom \<Rightarrow> parser \<Rightarrow> (atom_error, atom \<times> parser) result" where
  "parseSlot a p =
     (if peek p = CHR ''='' then
        (let p1 = advance p
         in if slot_operator_ends p1 then Inr (a\<lparr>a_slot_op := SlotOpEq\<rparr>, p1) else Inl AfterStandaloneEq)
      else if peek p = CHR ''*'' then
        (let p1 = advance p
         in if slot_operator_ends p1 then Inr (a\<lparr>a_slot_op := SlotOpStar\<rparr>, p1) else Inl AfterStandaloneStar)
      else case scan_slot (rest p) of
          Inl e \<Rightarrow> Inl e
        | Inr (s, eq) \<Rightarrow>
            if s = [] then Inl EmptySlot
            else (case validateSlotPart ''slot'' s of
                Some e \<Rightarrow> Inl e
              | None \<Rightarrow>
                  parseSubslot
                    (a\<lparr>a_slot := s, a_slot_op := (if eq then SlotOpEq else a_slot_op a)\<rparr>)
                    (skip (length s + (if eq then 1 else 0)) p)))"

definition parseRepo :: "parser \<Rightarrow> string \<times> parser" where
  "parseRepo p =
     (let repository = takeWhile (\<lambda>b. \<not> (b = CHR ''['' \<or> b = nul \<or> \<not> isRepositoryChar b)) (rest p);
          p1 = skip (length repository) p
      in if repository \<noteq> [] \<and> \<not> isAtomChar (hd repository) then ([], p1) else (repository, p1))"

subsection \<open>USE dependencies\<close>

definition use_flag_text :: "string \<Rightarrow> string" where
  "use_flag_text s = takeWhile (\<lambda>b. \<not> (b = CHR '','' \<or> b = CHR '']'' \<or> b = nul)) s"

definition strip_use_prefix :: "string \<Rightarrow> bool \<times> bool \<times> string" where
  \<comment> \<open>(negated, enabled, remaining text)\<close>
  "strip_use_prefix raw =
     (if HasPrefix raw ''!'' then (True, True, drop 1 raw)
      else if HasPrefix raw ''-'' then (False, False, drop 1 raw)
      else (False, True, raw))"

definition strip_use_operator :: "string \<Rightarrow> bool \<times> bool \<times> string" where
  \<comment> \<open>(conditional, equal, remaining text)\<close>
  "strip_use_operator raw =
     (if HasSuffix raw ''?'' then (True, False, TrimSuffix raw ''?'')
      else if HasSuffix raw ''='' then (False, True, TrimSuffix raw ''='')
      else (False, False, raw))"

definition strip_use_default :: "string \<Rightarrow> bool option \<times> string" where
  "strip_use_default raw =
     (if HasSuffix raw ''(+)'' \<or> HasSuffix raw ''(-)''
      then (Some (HasSuffix raw ''(+)''), take (length raw - 3) raw)
      else (None, raw))"

fun find_bad_use_char :: "nat \<Rightarrow> string \<Rightarrow> (char \<times> nat) option" where
  "find_bad_use_char i [] = None"
| "find_bad_use_char i (c # cs) = (if \<not> isUseChar c then Some (c, i + 1) else find_bad_use_char (i + 1) cs)"

definition parseUseFlag :: "parser \<Rightarrow> (atom_error, use_flag \<times> parser) result" where
  "parseUseFlag p =
     (let raw = use_flag_text (rest p)
      in if raw = [] then Inl EmptyUseFlag
         else
           (let (negated, enabled, raw1) = strip_use_prefix raw;
                (conditional, equal, raw2) = strip_use_operator raw1;
                (dflt, name) = strip_use_default raw2
            in if name = [] then Inl EmptyUseFlag
               else case find_bad_use_char (p_pos p) name of
                   Some (c, n) \<Rightarrow> Inl (InvalidUseChar c n)
                 | None \<Rightarrow>
                     if negated \<and> \<not> conditional \<and> \<not> equal then Inl (NegatedNeedsOperator name)
                     else if \<not> enabled \<and> (conditional \<or> equal) then Inl (DisabledWithOperator name)
                     else Inr (\<lparr>u_name = name, u_enabled = enabled, u_conditional = conditional,
                                u_equal = equal, u_negated = negated, u_default = dflt\<rparr>,
                               skip (length raw) p)))"

lemma rest_skip [simp]: "rest (skip n p) = drop n (rest p)"
  by (simp add: rest_def skip_def add.commute)

lemma parseUseFlag_consumes:
  assumes "parseUseFlag p = Inr (f, p')"
  shows "p' = skip (length (use_flag_text (rest p))) p \<and> use_flag_text (rest p) \<noteq> []"
  using assms by (auto simp: parseUseFlag_def Let_def split: if_splits prod.splits option.splits)

lemma parseUseFlag_shrinks:
  assumes "parseUseFlag p = Inr (f, p')"
  shows "length (rest p') < length (rest p)"
proof -
  have "length (use_flag_text (rest p)) \<le> length (rest p)"
    by (simp add: use_flag_text_def length_takeWhile_le)
  moreover have "0 < length (use_flag_text (rest p))" using parseUseFlag_consumes [OF assms] by simp
  ultimately have "length (rest p) - length (use_flag_text (rest p)) < length (rest p)" by linarith
  then show ?thesis using parseUseFlag_consumes [OF assms] by simp
qed

function parseUseFlags_loop ::
  "bool \<Rightarrow> use_flag list \<Rightarrow> parser \<Rightarrow> (atom_error, use_flag list \<times> parser) result" where
  "parseUseFlags_loop expectFlag flags p =
     (case rest p of
        [] \<Rightarrow> Inl UnterminatedUse
      | b # bs \<Rightarrow>
          if b = CHR '']'' then (if expectFlag then Inl EmptyUseDependency else Inr (flags, skip 1 p))
          else if b = CHR '','' then
            (if expectFlag then Inl EmptyUseDependency else parseUseFlags_loop True flags (skip 1 p))
          else (case parseUseFlag p of
              Inl e \<Rightarrow> Inl e
            | Inr (flag, p') \<Rightarrow>
                if u_name flag \<in> set (map u_name flags) then Inl (DuplicateUseDependency (u_name flag))
                else parseUseFlags_loop False (flags @ [flag]) p'))"
  by pat_completeness auto
termination
  by (relation "measure (\<lambda>(e, fs, p). length (rest p))") (auto dest: parseUseFlag_shrinks)

declare parseUseFlags_loop.simps [simp del]

definition parseUseFlags :: "parser \<Rightarrow> (atom_error, use_flag list \<times> parser) result" where
  "parseUseFlags p = parseUseFlags_loop True [] p"

subsection \<open>The atom parser\<close>

definition parse_version_part :: "atom \<Rightarrow> parser \<Rightarrow> (atom_error, atom \<times> parser) result" where
  \<comment> \<open>step 4: an optional version after a hyphen\<close>
  "parse_version_part a p =
     (if peek p = CHR ''-'' then
        (case parseVersion (advance p) of
           Inl e \<Rightarrow> Inl (VersionError e)
         | Inr (v, p1) \<Rightarrow>
             if a_op a = OpEq \<and> HasSuffix (v_raw v) ''*''
             then Inr (a\<lparr>a_version := Some v, a_op := OpEqGlob\<rparr>, p1)
             else if HasSuffix (v_raw v) ''*'' then Inl WildcardRequiresEq
             else Inr (a\<lparr>a_version := Some v\<rparr>, p1))
      else Inr (a, p))"

definition parse_repo_here :: "atom \<Rightarrow> parser \<Rightarrow> (atom_error, atom \<times> parser) result" where
  "parse_repo_here a p =
     (let (repo, p1) = parseRepo (skip 2 p)
      in if repo = [] then Inl EmptyRepository else Inr (a\<lparr>a_repo := repo\<rparr>, p1))"

definition parse_slot_part :: "atom \<Rightarrow> parser \<Rightarrow> (atom_error, atom \<times> parser) result" where
  \<comment> \<open>step 5: an optional slot, or the repository\<close>
  "parse_slot_part a p =
     (if peek p = CHR '':'' then
        (if at_double_colon p then parse_repo_here a p
         else case parseSlot a (advance p) of Inl e \<Rightarrow> Inl (SlotError e) | Inr r \<Rightarrow> Inr r)
      else Inr (a, p))"

definition parse_repo_part :: "atom \<Rightarrow> parser \<Rightarrow> (atom_error, atom \<times> parser) result" where
  \<comment> \<open>step 6: the repository after a slot\<close>
  "parse_repo_part a p =
     (if peek p = CHR '':'' \<and> at_double_colon p then parse_repo_here a p else Inr (a, p))"

definition parse_use_part :: "atom \<Rightarrow> parser \<Rightarrow> (atom_error, atom) result" where
  \<comment> \<open>step 7: the USE dependencies and the check for trailing input\<close>
  "parse_use_part a p =
     (let flags = (if peek p = CHR ''[''
            then (case parseUseFlags (advance p) of Inl e \<Rightarrow> Inl (UseFlagsError e)
                  | Inr (fs, p1) \<Rightarrow> Inr (a\<lparr>a_use_flags := fs\<rparr>, p1))
            else Inr (a, p))
      in case flags of Inl e \<Rightarrow> Inl e
         | Inr (a1, p1) \<Rightarrow>
             if peek p1 \<noteq> nul then Inl (TrailingInput (rest p1) (p_pos p1 + 1)) else Inr a1)"

definition empty_atom :: atom where
  "empty_atom = \<lparr>a_op = OpNone, a_category = [], a_package = [], a_version = None, a_slot = [],
     a_subslot = [], a_slot_op = SlotOpNone, a_repo = [], a_use_flags = []\<rparr>"

definition parse_parts :: "atom \<Rightarrow> parser \<Rightarrow> (atom_error, atom) result" where
  \<comment> \<open>what follows the category and package: steps 4 to 7 with their early returns\<close>
  "parse_parts a p =
     (if peek p = nul then
        (if a_op a \<noteq> OpNone then Inl (OperatorRequiresVersion (a_op a))
         else if HasSuffix (a_package a) ''-'' then Inl DashWithoutVersion
         else Inr a)
      else case parse_version_part a p of
          Inl e \<Rightarrow> Inl e
        | Inr (a1, p1) \<Rightarrow>
            if peek p1 = nul then Inr a1
            else case parse_slot_part a1 p1 of
                Inl e \<Rightarrow> Inl e
              | Inr (a2, p2) \<Rightarrow>
                  if peek p2 = nul then Inr a2
                  else case parse_repo_part a2 p2 of
                      Inl e \<Rightarrow> Inl e
                    | Inr (a3, p3) \<Rightarrow> if peek p3 = nul then Inr a3 else parse_use_part a3 p3)"

definition parse :: "parser \<Rightarrow> (atom_error, atom) result" where
  "parse p0 =
     (let (op, n) = parseOp (p_input p0);
          p = (if op \<noteq> OpNone then skip n p0 else p0)
      in if peek p = CHR ''!'' then Inl BlockerPrefix
         else case parseCP p of
             Inl e \<Rightarrow> Inl e
           | Inr ((cat, pkg), p1) \<Rightarrow>
               parse_parts (empty_atom\<lparr>a_op := op, a_category := cat, a_package := pkg\<rparr>) p1)"

definition Parse :: "string \<Rightarrow> (atom_error, atom) result" where
  "Parse raw =
     (if raw = [] then Inl EmptyAtom
      else case check_bytes 0 raw of
          Some (b, n) \<Rightarrow> Inl (InvalidAtomByte b n)
        | None \<Rightarrow>
            (case parse \<lparr>p_input = raw, p_pos = 0\<rparr> of
               Inl e \<Rightarrow> Inl (ParsingAtom raw e)
             | Inr a \<Rightarrow> Inr a))"

definition ParsePackageAtom :: "string \<Rightarrow> (atom_error, atom) result" where
  "ParsePackageAtom s =
     (case Parse s of
        Inl e \<Rightarrow> Inl e
      | Inr a \<Rightarrow> if a_version a \<noteq> None \<and> a_op a = OpNone then Inl VersionedNeedsOperator else Inr a)"

end
