(* ===== verification/Atom_Print.thy ===== *)
theory Atom_Print
  imports Atoms Version_Order
begin

text \<open>
  Reading back printed atoms. \<open>wf_atom\<close> describes the atoms the parser of \<^verbatim>\<open>src/internal/atom/parser.go\<close>
  can return; for each step of the parser a lemma says what it does on the text that
  \<^verbatim>\<open>Atom.String\<close> prints for that part, and \<open>Parse_print\<close> puts them together.
\<close>

subsection \<open>The text of an accepted version\<close>

definition version_char :: "char \<Rightarrow> bool" where
  "version_char c \<longleftrightarrow>
     is_digit c \<or> is_lower c \<or> c = CHR ''.'' \<or> c = CHR ''_'' \<or> c = CHR ''-'' \<or> c = CHR ''*''"

fun dash_then_r :: "string \<Rightarrow> bool" where
  \<comment> \<open>every hyphen starts a revision\<close>
  "dash_then_r [] = True"
| "dash_then_r (c # s) = ((c = CHR ''-'' \<longrightarrow> s \<noteq> [] \<and> hd s = CHR ''r'') \<and> dash_then_r s)"

lemma dash_then_r_append: "dash_then_r s \<Longrightarrow> dash_then_r t \<Longrightarrow> dash_then_r (s @ t)"
  by (induction s) (auto simp: hd_append)

lemma dash_then_r_none: "CHR ''-'' \<notin> set s \<Longrightarrow> dash_then_r s"
  by (induction s) auto

lemma dash_then_r_split: "dash_then_r (s @ CHR ''-'' # t) \<Longrightarrow> t \<noteq> [] \<and> hd t = CHR ''r''"
  by (induction s) auto

definition version_text :: "string \<Rightarrow> bool" where
  "version_text s \<longleftrightarrow> list_all version_char s \<and> dash_then_r s"

lemma version_text_append: "version_text s \<Longrightarrow> version_text t \<Longrightarrow> version_text (s @ t)"
  by (simp add: version_text_def dash_then_r_append)

lemma version_text_plain:
  "list_all (\<lambda>c. version_char c \<and> c \<noteq> CHR ''-'') s \<Longrightarrow> version_text s"
  by (auto simp: version_text_def list_all_iff intro: dash_then_r_none)

lemma version_text_digits: "list_all is_digit s \<Longrightarrow> version_text s"
  by (rule version_text_plain) (auto simp: list_all_iff version_char_def is_digit_def code_def)

lemma version_text_keyword: "is_suffix_keyword t \<Longrightarrow> version_text t"
  by (auto simp: is_suffix_keyword_def version_text_def version_char_def is_lower_def is_digit_def code_def)

lemma suffix_type_prefix: "\<exists>u. token = suffix_type token @ u"
  by (auto simp: suffix_type_def HasPrefix_iff)

lemma tail_step_consumes:
  assumes "tail_step raw v r = Inr (b, v', r')" "r \<noteq> []"
  shows "\<exists>used. r = used @ r' \<and> version_text used"
proof (cases "hd r = CHR ''_''")
  case True
  let ?token = "suffix_token r"
  obtain u where u: "?token = suffix_type ?token @ u" using suffix_type_prefix by blast
  have tok: "r = ?token @ dropWhile (\<lambda>c. is_letter c \<or> is_digit c) (tl r)"
    using assms(2) by (simp add: suffix_token_def)
  from True assms(1) have "suffix_type ?token \<noteq> []"
    by (auto simp: tail_step_def Let_def split: if_splits)
  then have kw: "version_text (suffix_type ?token)"
    by (intro version_text_keyword suffix_type_keyword)
  consider "isDigitString (drop (length (suffix_type ?token)) ?token)" "r' = drop (length ?token) r"
    | "r' = drop (length (suffix_type ?token)) r"
    using True assms(1) by (auto simp: tail_step_def Let_def split: if_splits)
  then show ?thesis
  proof cases
    case 1
    then have "version_text (drop (length (suffix_type ?token)) ?token)"
      by (intro version_text_digits) (simp add: isDigitString_def)
    then have "version_text ?token" using kw u version_text_append by (metis append_eq_conv_conj)
    then show ?thesis using 1(2) tok by (metis append_eq_conv_conj)
  next
    case 2
    then show ?thesis using kw u tok by (metis append_assoc append_eq_conv_conj)
  qed
next
  case False
  show ?thesis
  proof (cases "hd r = CHR ''-''")
    case True
    let ?d = "takeWhile is_digit (drop 2 r)"
    from True False assms(1) have r: "length r > 2" "r ! 1 = CHR ''r''" "r' = drop (2 + length ?d) r"
      by (auto simp: tail_step_def Let_def split: if_splits option.splits)
    then have "r = ''-r'' @ ?d @ dropWhile is_digit (drop 2 r)"
      using True by (cases r; cases "tl r") (auto simp: numeral_2_eq_2)
    moreover have "version_text (''-r'' @ ?d)"
      by (rule version_text_append [OF _ version_text_digits])
        (simp_all add: version_text_def version_char_def is_lower_def code_def)
    ultimately show ?thesis using r(3)
      by (metis (no_types, lifting) append_assoc append_eq_conv_conj length_Cons length_append list.size(3)
          numeral_2_eq_2 One_nat_def plus_1_eq_Suc)
  next
    case f: False
    with False assms(1) have "r' = r" by (auto simp: tail_step_def)
    then show ?thesis by (intro exI [of _ "[]"]) (simp add: version_text_def)
  qed
qed

lemma parse_tail_text:
  assumes "parse_tail raw v r = Inr (v', r')"
  shows "\<exists>used. r = used @ r' \<and> version_text used"
proof (rule parse_tail_invariant [OF assms, where Q = "\<lambda>u s. \<exists>used. r = used @ s \<and> version_text used"])
  show "\<exists>used. r = used @ r \<and> version_text used"
    by (intro exI [of _ "[]"]) (simp add: version_text_def)
next
  fix u s b u' s'
  assume "s \<noteq> []" "tail_step raw u s = Inr (b, u', s')" "\<exists>used. r = used @ s \<and> version_text used"
  then show "\<exists>used. r = used @ s' \<and> version_text used"
    using tail_step_consumes [of raw u s b u' s'] version_text_append by fastforce
qed

lemma parse_numbers_text: "parse_numbers s = (ns, r) \<Longrightarrow> \<exists>used. s = used @ r \<and> version_text used"
proof (induction s arbitrary: ns r rule: parse_numbers.induct)
  case (1 s)
  show ?case
  proof (cases "s = [] \<or> \<not> is_digit (hd s)")
    case True
    with "1.prems" have "r = s" by (simp add: parse_numbers.simps [of s])
    then show ?thesis by (intro exI [of _ "[]"]) (simp add: version_text_def)
  next
    case start: False
    let ?run = "takeWhile is_digit s" and ?rest = "dropWhile is_digit s"
    have run: "version_text ?run" by (rule version_text_digits) simp
    show ?thesis
    proof (cases "?rest \<noteq> [] \<and> hd ?rest = CHR ''.''")
      case True
      then obtain t where t: "?rest = CHR ''.'' # t" by (cases ?rest) auto
      obtain ns' where "parse_numbers t = (ns', r)"
        using "1.prems" start t by (auto simp: parse_numbers.simps [of s] Let_def split: prod.splits)
      then obtain used where "t = used @ r" "version_text used"
        using "1.IH" [OF start refl refl refl True, of ns' r] t by auto
      moreover have "version_text (?run @ ''.'')"
        by (rule version_text_append [OF run]) (simp add: version_text_def version_char_def)
      moreover have "s = ?run @ ''.'' @ t" using t takeWhile_dropWhile_id [of is_digit s] by simp
      ultimately show ?thesis using version_text_append by (metis append_assoc)
    next
      case False
      then have "r = ?rest" using "1.prems" start by (auto simp: parse_numbers.simps [of s] Let_def)
      then show ?thesis using run takeWhile_dropWhile_id [of is_digit s] by metis
    qed
  qed
qed

lemma parsed_version_text:
  assumes "parseVersionString raw = Inr v"
  shows "version_text raw"
proof -
  obtain ns r where p: "parse_numbers raw = (ns, r)" by fastforce
  define letter where "letter = (if r \<noteq> [] \<and> is_lower (hd r) then [hd r] else [])"
  define r1 where "r1 = (if r \<noteq> [] \<and> is_lower (hd r) then tl r else r)"
  obtain v0 last where t: "parse_tail raw v0 r1 = Inr (v, last)" and last: "last = [] \<or> last = ''*''"
    using assms p
    by (auto simp: parseVersionString_def Let_def letter_def r1_def split: if_splits sum.splits)
  have "r = letter @ r1" by (simp add: letter_def r1_def)
  moreover have "version_text letter"
    by (auto simp: letter_def version_text_def version_char_def is_lower_def code_def)
  moreover have "version_text last" using last by (auto simp: version_text_def version_char_def)
  ultimately show ?thesis
    using parse_numbers_text [OF p] parse_tail_text [OF t] version_text_append by metis
qed

lemma accepted_version_text: "accepts_version s \<Longrightarrow> version_text s"
  by (auto simp: accepts_version_def parsed_version_text split: sum.splits)

subsection \<open>Well-formed atoms\<close>

definition wf_use_flag :: "use_flag \<Rightarrow> bool" where
  "wf_use_flag f \<longleftrightarrow>
     u_name f \<noteq> [] \<and> list_all isUseChar (u_name f) \<and>
     \<not> (u_conditional f \<and> u_equal f) \<and>
     (u_negated f \<longrightarrow> u_enabled f \<and> (u_conditional f \<or> u_equal f)) \<and>
     (\<not> u_enabled f \<longrightarrow> \<not> u_conditional f \<and> \<not> u_equal f) \<and>
     (u_enabled f \<and> \<not> u_negated f \<longrightarrow> hd (u_name f) \<noteq> CHR ''-'')"

definition wf_slot_text :: "string \<Rightarrow> bool" where
  "wf_slot_text s \<longleftrightarrow> s \<noteq> [] \<and> isAtomChar (hd s) \<and> list_all isSlotChar s"

definition has_suffix_part :: "atom \<Rightarrow> bool" where
  "has_suffix_part a \<longleftrightarrow>
     a_slot a \<noteq> [] \<or> a_slot_op a \<noteq> SlotOpNone \<or> a_repo a \<noteq> [] \<or> a_use_flags a \<noteq> []"

definition wf_name :: "string \<Rightarrow> string \<Rightarrow> bool" where
  "wf_name cat pkg \<longleftrightarrow>
     cat \<noteq> [] \<and> isAtomChar (hd cat) \<and> list_all isCategoryChar cat \<and>
     pkg \<noteq> [] \<and> isAtomChar (hd pkg) \<and> list_all isPackageChar pkg \<and> version_like_suffix pkg = None"

definition wf_version_part :: "atom \<Rightarrow> bool" where
  "wf_version_part a = (case a_version a of
     None \<Rightarrow> a_op a \<noteq> OpEqGlob \<and>
       (a_op a = OpNone \<and> last (a_package a) \<noteq> CHR ''-'' \<or> has_suffix_part a)
   | Some v \<Rightarrow> parseVersionString (v_raw v) = Inr v \<and> v_raw v \<noteq> [] \<and> is_digit (hd (v_raw v)) \<and>
       (HasSuffix (v_raw v) ''*'' \<longleftrightarrow> a_op a = OpEqGlob))"

definition wf_slot_part :: "atom \<Rightarrow> bool" where
  "wf_slot_part a \<longleftrightarrow>
     (a_slot a = [] \<longrightarrow> a_subslot a = []) \<and>
     (a_slot a \<noteq> [] \<longrightarrow> wf_slot_text (a_slot a) \<and> a_slot_op a \<noteq> SlotOpStar) \<and>
     (a_subslot a \<noteq> [] \<longrightarrow> wf_slot_text (a_subslot a))"

definition wf_repo :: "string \<Rightarrow> bool" where
  "wf_repo r \<longleftrightarrow> (r \<noteq> [] \<longrightarrow> isAtomChar (hd r) \<and> list_all isRepositoryChar r)"

definition wf_atom :: "atom \<Rightarrow> bool" where
  "wf_atom a \<longleftrightarrow>
     wf_name (a_category a) (a_package a) \<and> wf_version_part a \<and> wf_slot_part a \<and>
     wf_repo (a_repo a) \<and> list_all wf_use_flag (a_use_flags a) \<and> distinct (map u_name (a_use_flags a))"

subsection \<open>Reading positions through the remaining text\<close>

lemma peek_rest: "peek p = (case rest p of [] \<Rightarrow> nul | c # t \<Rightarrow> c)"
  by (simp add: peek_def rest_def split: list.split)
    (metis Cons_nth_drop_Suc drop_eq_Nil linorder_not_less list.inject)

lemma rest_advance [simp]: "rest (advance p) = tl (rest p)"
  by (auto simp: advance_def rest_def skip_def tl_drop drop_Suc)

lemma at_double_colon_rest: "at_double_colon p \<longleftrightarrow> (\<exists>c t. rest p = c # CHR '':'' # t)"
proof
  assume "at_double_colon p"
  then have "rest p = p_input p ! p_pos p # CHR '':'' # drop (p_pos p + 2) (p_input p)"
    by (simp add: at_double_colon_def rest_def) (metis Cons_nth_drop_Suc Suc_lessD add_2_eq_Suc')
  then show "\<exists>c t. rest p = c # CHR '':'' # t" by blast
next
  assume "\<exists>c t. rest p = c # CHR '':'' # t"
  then obtain c t where r: "drop (p_pos p) (p_input p) = c # CHR '':'' # t" by (auto simp: rest_def)
  then have "p_pos p + 1 < length (p_input p)"
    by (metis add.commute drop_all drop_drop drop_Suc_Cons drop0 linorder_not_less list.distinct(1) One_nat_def)
  moreover have "p_input p ! (p_pos p + 1) = CHR '':''"
    using r nth_drop [of "p_pos p" "p_input p" 1] calculation by simp
  ultimately show "at_double_colon p" by (simp add: at_double_colon_def)
qed

lemmas parser_rest = peek_rest at_double_colon_rest

lemma char_class_facts:
  "isCategoryChar c \<Longrightarrow> c \<noteq> CHR ''/'' \<and> c \<noteq> CHR '':'' \<and> c \<noteq> CHR ''['' \<and> c \<noteq> nul \<and> c \<noteq> CHR ''='' \<and> c \<noteq> CHR ''*'' \<and> c \<noteq> CHR ''!''"
  "isPackageChar c \<Longrightarrow> c \<noteq> CHR ''/'' \<and> c \<noteq> CHR '':'' \<and> c \<noteq> CHR ''['' \<and> c \<noteq> nul"
  "isAtomChar c \<Longrightarrow> c \<noteq> CHR ''='' \<and> c \<noteq> CHR ''<'' \<and> c \<noteq> CHR ''>'' \<and> c \<noteq> CHR ''~'' \<and> c \<noteq> CHR ''!'' \<and> c \<noteq> CHR ''-''"
  "version_char c \<Longrightarrow> c \<noteq> CHR '':'' \<and> c \<noteq> CHR ''['' \<and> c \<noteq> nul"
  "isUseChar c \<Longrightarrow> c \<noteq> CHR ''('' \<and> c \<noteq> CHR '')'' \<and> c \<noteq> CHR ''?'' \<and> c \<noteq> CHR ''='' \<and> c \<noteq> CHR '','' \<and> c \<noteq> CHR '']'' \<and> c \<noteq> nul \<and> c \<noteq> CHR ''!''"
  by (auto simp: isCategoryChar_def isPackageChar_def isAtomChar_def version_char_def isUseChar_def
      is_lower_def is_upper_def is_digit_def code_def)

definition ends_name :: "string \<Rightarrow> bool" where
  \<comment> \<open>what may follow a version: nothing, a slot or repository, or USE dependencies\<close>
  "ends_name t \<longleftrightarrow> t = [] \<or> version_ends (hd t)"

lemma takeWhile_version:
  "list_all version_char s \<Longrightarrow> ends_name t \<Longrightarrow> takeWhile (\<lambda>c. \<not> version_ends c) (s @ t) = s"
  "list_all version_char s \<Longrightarrow> ends_name t \<Longrightarrow>
     takeWhile (\<lambda>b. \<not> (version_ends b \<or> b = nul)) (s @ t) = s"
  by (induction s; cases t; auto simp: ends_name_def dest: char_class_facts(4))+

subsection \<open>Category and package\<close>

definition version_follows :: "string \<Rightarrow> bool" where
  "version_follows t \<longleftrightarrow>
     (\<exists>raw u. t = CHR ''-'' # raw @ u \<and> raw \<noteq> [] \<and> is_digit (hd raw) \<and> accepts_version raw \<and> ends_name u)"

lemma scan_package_print:
  assumes "list_all isPackageChar pkg" "version_like_suffix pkg = None" "ends_name t \<or> version_follows t"
  shows "scan_package i (pkg @ t) = Inr pkg"
  using assms(1,2)
proof (induction pkg arbitrary: i)
  case Nil
  from assms(3) show ?case
  proof
    assume "ends_name t"
    then show ?thesis by (cases t) (auto simp: ends_name_def)
  next
    assume "version_follows t"
    then obtain raw u where t: "t = CHR ''-'' # raw @ u" "raw \<noteq> []" "is_digit (hd raw)"
      "accepts_version raw" "ends_name u" by (auto simp: version_follows_def)
    then have "takeWhile (\<lambda>c. \<not> version_ends c) (raw @ u) = raw"
      using accepted_version_text [of raw] by (intro takeWhile_version) (auto simp: version_text_def)
    then show ?thesis using t by simp
  qed
next
  case (Cons b bs)
  have chars: "b \<noteq> CHR '':''" "b \<noteq> CHR ''[''" "b \<noteq> nul" "list_all isPackageChar bs"
    using Cons.prems char_class_facts(2) [of b] by auto
  have "\<not> accepts_version (takeWhile (\<lambda>c. \<not> version_ends c) (bs @ t))"
    if "b = CHR ''-''" "is_digit (hd (bs @ t))" "bs @ t \<noteq> []"
  proof -
    have bs: "bs \<noteq> []"
      using that(2,3) assms(3) by (auto simp: ends_name_def version_follows_def is_digit_def code_def)
    have tw: "takeWhile (\<lambda>c. \<not> version_ends c) (bs @ x) = bs @ takeWhile (\<lambda>c. \<not> version_ends c) x" for x
      using chars(4) by (induction bs) (auto dest: char_class_facts(2))
    from assms(3) show ?thesis
    proof
      assume "ends_name t"
      then have "takeWhile (\<lambda>c. \<not> version_ends c) t = []" by (cases t) (auto simp: ends_name_def)
      then have all: "takeWhile (\<lambda>c. \<not> version_ends c) (bs @ t) = bs"
        using tw [of t] by (simp only: append_Nil2)
      show ?thesis unfolding all using Cons.prems(2) that(1) bs by (simp split: if_splits)
    next
      assume "version_follows t"
      then obtain raw u where t: "t = CHR ''-'' # raw @ u" "raw \<noteq> []" "is_digit (hd raw)"
        by (auto simp: version_follows_def)
      show ?thesis
      proof
        assume "accepts_version (takeWhile (\<lambda>c. \<not> version_ends c) (bs @ t))"
        then have "dash_then_r (bs @ CHR ''-'' # takeWhile (\<lambda>c. \<not> version_ends c) (raw @ u))"
          using accepted_version_text tw t by (fastforce simp: version_text_def)
        then have "hd (takeWhile (\<lambda>c. \<not> version_ends c) (raw @ u)) = CHR ''r''"
          "takeWhile (\<lambda>c. \<not> version_ends c) (raw @ u) \<noteq> []"
          using dash_then_r_split by blast+
        then have "hd raw = CHR ''r''" using t(2) by (cases raw) (auto split: if_splits)
        then show False using t(3) by (simp add: is_digit_def code_def)
      qed
    qed
  qed
  moreover have "version_like_suffix bs = None" using Cons.prems(2) by (auto split: if_splits)
  ultimately show ?case using Cons.IH [of "i + 1"] Cons.prems(1) chars
    by (auto simp: isPackageChar_def)
qed

lemma parseCP_print:
  assumes "wf_name cat pkg" "ends_name t \<or> version_follows t" "rest p = cat @ CHR ''/'' # pkg @ t"
  shows "\<exists>p'. parseCP p = Inr ((cat, pkg), p') \<and> rest p' = t"
proof -
  have cat: "takeWhile (\<lambda>b. b \<noteq> CHR ''/'' \<and> isCategoryChar b) (cat @ CHR ''/'' # pkg @ t) = cat"
    using assms(1) by (subst takeWhile_append2)
      (auto simp: wf_name_def list_all_iff dest: char_class_facts(1))
  have "scan_package i (pkg @ t) = Inr pkg" for i
    using assms(1,2) by (intro scan_package_print) (auto simp: wf_name_def)
  then show ?thesis using assms(1,3) cat
    by (auto simp: parseCP_def Let_def wf_name_def)
qed

subsection \<open>Printed versions, slots and repositories\<close>

lemma peek_simps [simp]: "rest p = [] \<Longrightarrow> peek p = nul" "rest p = c # t \<Longrightarrow> peek p = c"
  by (simp_all add: peek_rest)

lemma parse_version_print:
  assumes "wf_version_part a" "rest p = version_part a @ t" "ends_name t"
    "a_op b = (if a_op a = OpEqGlob then OpEq else a_op a)" "a_version b = None"
  shows "\<exists>p'. parse_version_part b p = Inr (b\<lparr>a_version := a_version a, a_op := a_op a\<rparr>, p') \<and> rest p' = t"
proof (cases "a_version a")
  case None
  then have "rest p = t" "a_op a = a_op b" using assms by (auto simp: version_part_def wf_version_part_def)
  moreover from this have "peek p \<noteq> CHR ''-''" using assms(3) by (cases t) (auto simp: ends_name_def)
  ultimately show ?thesis using None assms(5) by (simp add: parse_version_part_def)
next
  case (Some v)
  let ?raw = "v_raw v"
  have v: "parseVersionString ?raw = Inr v" "?raw \<noteq> []" "HasSuffix ?raw ''*'' \<longleftrightarrow> a_op a = OpEqGlob"
    using assms(1) Some by (auto simp: wf_version_part_def)
  have r: "rest p = CHR ''-'' # ?raw @ t" using assms(2) Some v(2) by (simp add: version_part_def)
  have "list_all version_char ?raw" using parsed_version_text [OF v(1)] by (simp add: version_text_def)
  then have "takeWhile (\<lambda>b. \<not> (version_ends b \<or> b = nul)) (?raw @ t) = ?raw"
    using assms(3) by (rule takeWhile_version(2))
  then have "parseVersion (advance p) = Inr (v, skip (length ?raw) (advance p))"
    using v r by (simp add: parseVersion_def Let_def)
  then show ?thesis using r v(3) assms(4) Some by (auto simp: parse_version_part_def)
qed

lemma validateSlotPart_wf: "validateSlotPart l s = None \<longleftrightarrow> wf_slot_text s"
proof (cases s)
  case (Cons c cs)
  then show ?thesis
    using find_None_iff [of "\<lambda>c. \<not> isSlotChar c" cs]
    by (auto simp: validateSlotPart_def wf_slot_text_def list_all_iff split: option.splits)
      (auto simp: isSlotChar_def isCategoryChar_def)
qed (simp add: validateSlotPart_def wf_slot_text_def)

definition ends_slot :: "string \<Rightarrow> bool" where
  \<comment> \<open>what may follow a slot: nothing, a repository, or USE dependencies\<close>
  "ends_slot t \<longleftrightarrow> t = [] \<or> hd t = CHR ''['' \<or> (\<exists>u. t = ''::'' @ u)"

lemma slot_char_facts: "isSlotChar c \<Longrightarrow>
   c \<noteq> CHR ''/'' \<and> c \<noteq> CHR '':'' \<and> c \<noteq> CHR ''['' \<and> c \<noteq> nul \<and> c \<noteq> CHR ''='' \<and> c \<noteq> CHR ''*''"
  by (simp add: isSlotChar_def char_class_facts(1))

lemma scan_slot_append:
  "list_all isSlotChar s \<Longrightarrow> scan_slot t = Inr ([], e) \<Longrightarrow> scan_slot (s @ t) = Inr (s, e)"
  by (induction s) (use slot_char_facts in auto)

lemma scan_subslot_append:
  "list_all isSlotChar s \<Longrightarrow> (\<forall>b. scan_subslot b t = Inr ([], e)) \<or> s \<noteq> [] \<and> scan_subslot False t = Inr ([], e)
   \<Longrightarrow> scan_subslot b (s @ t) = Inr (s, e)"
proof (induction s arbitrary: b)
  case (Cons c s)
  then show ?case using slot_char_facts [of c] by (cases s) auto
qed auto

lemma scan_slot_end:
  "ends_slot t \<Longrightarrow> scan_slot t = Inr ([], False)"
  "scan_slot (CHR ''='' # t) = Inr ([], True)"
  "scan_slot (CHR ''/'' # t) = Inr ([], False)"
  "ends_slot t \<Longrightarrow> scan_subslot b t = Inr ([], False)"
  "scan_subslot False (CHR ''='' # t) = Inr ([], True)"
  by (cases t; auto simp: ends_slot_def)+

lemma ends_slot_facts:
  assumes "ends_slot t" "rest p = t"
  shows "slot_operator_ends p" "peek p \<noteq> CHR ''/''" "peek p \<noteq> CHR ''=''"
  using assms by (cases t; auto simp: ends_slot_def slot_operator_ends_def at_double_colon_rest)+

lemma parseSlot_print:
  assumes wf: "wf_slot_part a" and t: "ends_slot t" and r: "CHR '':'' # rest p = slot_part a @ t"
    and b: "a_slot b = []" "a_subslot b = []" "a_slot_op b = SlotOpNone"
    and ne: "slot_part a \<noteq> []"
  shows "\<exists>p'. parseSlot b p =
      Inr (b\<lparr>a_slot := a_slot a, a_subslot := a_subslot a, a_slot_op := a_slot_op a\<rparr>, p') \<and> rest p' = t"
proof (cases "a_slot a = []")
  case True
  then have op: "a_slot_op a = SlotOpEq \<or> a_slot_op a = SlotOpStar"
    using ne by (cases "a_slot_op a") (auto simp: slot_part_def)
  then obtain c where c: "rest p = c # t" "c = CHR ''='' \<and> a_slot_op a = SlotOpEq \<or> c = CHR ''*'' \<and> a_slot_op a = SlotOpStar"
    using r True by (auto simp: slot_part_def)
  then have "slot_operator_ends (advance p)" using t by (intro ends_slot_facts(1)) auto
  moreover have "a_subslot a = []" using wf True by (simp add: wf_slot_part_def)
  moreover have "peek p = c" "rest (advance p) = t" using c(1) by simp_all
  moreover have "b\<lparr>a_slot := [], a_subslot := []\<rparr> = b" using b by simp
  ultimately show ?thesis using c(2) True by (intro exI [of _ "advance p"]) (auto simp: parseSlot_def)
next
  case False
  let ?s = "a_slot a"
  from False wf have s: "wf_slot_text ?s" "list_all isSlotChar ?s" "isSlotChar (hd ?s)"
    and op: "a_slot_op a = SlotOpNone \<or> a_slot_op a = SlotOpEq"
    by (auto simp: wf_slot_part_def wf_slot_text_def list_all_iff intro: slot_op.exhaust [of "a_slot_op a"])
  obtain u where u: "rest p = ?s @ u"
    "u = (if a_subslot a \<noteq> [] then CHR ''/'' # a_subslot a else []) @ slot_op_text (a_slot_op a) @ t"
    using r False by (auto simp: slot_part_def)
  have pk: "peek p \<noteq> CHR ''=''" "peek p \<noteq> CHR ''*''"
    using u(1) False s(3) slot_char_facts [of "hd ?s"] by (auto simp: neq_Nil_conv)
  have valid: "validateSlotPart l ?s = None" for l using s(1) by (simp add: validateSlotPart_wf)
  show ?thesis
  proof (cases "a_subslot a = []")
    case True
    define e where "e = (a_slot_op a = SlotOpEq)"
    have "scan_slot u = Inr ([], e)"
      using u(2) True op t by (auto simp: scan_slot_end e_def)
    then have scan: "scan_slot (rest p) = Inr (?s, e)" using u(1) s(2) by (simp add: scan_slot_append)
    let ?p = "skip (length ?s + (if e then 1 else 0)) p"
    have rp: "rest ?p = t" using u True op by (auto simp: e_def)
    have "peek ?p \<noteq> CHR ''/''" by (rule ends_slot_facts(2) [OF t rp])
    then have "parseSlot b p = Inr (b\<lparr>a_slot := a_slot a, a_subslot := a_subslot a, a_slot_op := a_slot_op a\<rparr>, ?p)"
      using pk scan False valid b True op
      by (simp add: parseSlot_def parseSubslot_def) (auto simp: e_def)
    then show ?thesis using rp by blast
  next
    case sub: False
    let ?u = "a_subslot a"
    define e where "e = (a_slot_op a = SlotOpEq)"
    have su: "wf_slot_text ?u" "list_all isSlotChar ?u" using sub wf by (auto simp: wf_slot_part_def wf_slot_text_def)
    have valid': "validateSlotPart l ?u = None" for l using su(1) by (simp add: validateSlotPart_wf)
    have scan: "scan_slot (rest p) = Inr (?s, False)"
      using u s(2) sub by (simp add: scan_slot_append scan_slot_end)
    let ?p = "skip (length ?s) p"
    have rp: "rest ?p = CHR ''/'' # ?u @ slot_op_text (a_slot_op a) @ t" using u sub by simp
    have "scan_subslot True (?u @ slot_op_text (a_slot_op a) @ t) = Inr (?u, e)"
      using su(2) sub op t by (intro scan_subslot_append) (auto simp: scan_slot_end e_def)
    then have scan': "scan_subslot True (rest (advance ?p)) = Inr (?u, e)" using rp by simp
    let ?q = "skip (length ?u + (if e then 1 else 0)) (advance ?p)"
    have "parseSlot b p = Inr (b\<lparr>a_slot := a_slot a, a_subslot := a_subslot a, a_slot_op := a_slot_op a\<rparr>, ?q)"
      using pk scan False valid b sub op scan' valid' rp
      by (simp add: parseSlot_def parseSubslot_def) (auto simp: e_def)
    moreover have "rest ?q = t" using rp op by (auto simp: e_def)
    ultimately show ?thesis by blast
  qed
qed

lemma parse_repo_print:
  assumes "wf_repo r" "r \<noteq> []" "rest p = ''::'' @ r @ t" "t = [] \<or> hd t = CHR ''[''"
  shows "\<exists>p'. parse_repo_here b p = Inr (b\<lparr>a_repo := r\<rparr>, p') \<and> rest p' = t"
proof -
  have "takeWhile (\<lambda>b. \<not> (b = CHR ''['' \<or> b = nul \<or> \<not> isRepositoryChar b)) (r @ t) = r"
    using assms(1,2,4) by (subst takeWhile_append2)
      (auto simp: wf_repo_def list_all_iff takeWhile_eq_Nil_iff,
       auto simp: isRepositoryChar_def isAtomChar_def is_lower_def is_upper_def is_digit_def code_def)
  then have "parseRepo (skip 2 p) = (r, skip (length r) (skip 2 p))"
    using assms(1-3) by (simp add: parseRepo_def Let_def wf_repo_def)
  then show ?thesis using assms(2,3) by (simp add: parse_repo_here_def)
qed

subsection \<open>Printed USE dependencies\<close>

definition flag_default :: "use_flag \<Rightarrow> string" where
  "flag_default f = (case u_default f of None \<Rightarrow> [] | Some True \<Rightarrow> ''(+)'' | Some False \<Rightarrow> ''(-)'')"

definition flag_operator :: "use_flag \<Rightarrow> string" where
  "flag_operator f = (if u_conditional f then ''?'' else if u_equal f then ''='' else [])"

lemma last_use_char: "s \<noteq> [] \<Longrightarrow> list_all isUseChar s \<Longrightarrow> isUseChar (last s)"
  by (simp add: list_all_iff)

lemma flag_default_last: "flag_default f \<noteq> [] \<Longrightarrow> last (flag_default f) = CHR '')''"
  by (auto simp: flag_default_def split: option.splits bool.splits)

lemma strip_operator_print:
  assumes "wf_use_flag f"
  shows "strip_use_operator (u_name f @ flag_default f @ flag_operator f) =
     (u_conditional f, u_equal f, u_name f @ flag_default f)"
proof -
  let ?s = "u_name f @ flag_default f"
  have name: "u_name f \<noteq> []" "isUseChar (last (u_name f))"
    using assms by (auto simp: wf_use_flag_def last_use_char)
  have "last ?s \<noteq> CHR ''?''" "last ?s \<noteq> CHR ''=''"
    using name flag_default_last [of f] char_class_facts(5) [of "last (u_name f)"]
    by (auto simp: last_append)
  moreover have "?s \<noteq> []" using name by simp
  ultimately have plain: "\<not> HasSuffix ?s ''?''" "\<not> HasSuffix ?s ''=''"
    by (simp_all add: HasSuffix_single)
  consider "u_conditional f" "\<not> u_equal f" | "u_equal f" "\<not> u_conditional f" | "\<not> u_conditional f" "\<not> u_equal f"
    using assms by (auto simp: wf_use_flag_def)
  then show ?thesis
  proof cases
    case 1
    then show ?thesis using HasSuffix_append [of ?s "''?''"] TrimSuffix_append [of ?s "''?''"]
      by (simp add: strip_use_operator_def flag_operator_def)
  next
    case 2
    have "\<not> HasSuffix (?s @ ''='') ''?''" by (simp add: HasSuffix_single)
    then show ?thesis using 2 HasSuffix_append [of ?s "''=''"] TrimSuffix_append [of ?s "''=''"]
      by (simp add: strip_use_operator_def flag_operator_def)
  next
    case 3
    then show ?thesis using plain by (simp add: strip_use_operator_def flag_operator_def)
  qed
qed

lemma HasSuffix_last: "HasSuffix s t \<Longrightarrow> t \<noteq> [] \<Longrightarrow> s \<noteq> [] \<and> last s = last t"
  by (auto simp: HasSuffix_iff)

lemma strip_default_print:
  assumes "u_name f \<noteq> []" "list_all isUseChar (u_name f)"
  shows "strip_use_default (u_name f @ flag_default f) = (u_default f, u_name f)"
proof (cases "u_default f")
  case None
  have "last (u_name f) \<noteq> CHR '')''" using last_use_char [OF assms] by (auto dest: char_class_facts(5))
  then have "\<not> HasSuffix (u_name f) ''(+)''" "\<not> HasSuffix (u_name f) ''(-)''"
    by (auto dest: HasSuffix_last)
  then show ?thesis using None by (simp add: strip_use_default_def flag_default_def)
next
  case (Some d)
  have "\<not> HasSuffix (u_name f @ ''(-)'') ''(+)''" by (simp add: HasSuffix_def)
  then show ?thesis
    using Some HasSuffix_append [of "u_name f" "''(+)''"] HasSuffix_append [of "u_name f" "''(-)''"]
    by (cases d) (simp_all add: strip_use_default_def flag_default_def)
qed

lemma strip_prefix_print:
  assumes "wf_use_flag f"
  shows "strip_use_prefix (use_flag_string f) =
     (u_negated f, u_enabled f, u_name f @ flag_default f @ flag_operator f)"
proof -
  have "isUseChar (hd (u_name f))" using assms by (cases "u_name f") (auto simp: wf_use_flag_def)
  then have "\<not> HasPrefix (u_name f @ x) ''!''" for x
    using assms by (cases "u_name f") (auto simp: wf_use_flag_def dest: char_class_facts(5))
  moreover have "\<not> HasPrefix (u_name f @ x) ''-''" if "u_enabled f" "\<not> u_negated f" for x
    using assms that by (cases "u_name f") (auto simp: wf_use_flag_def)
  ultimately show ?thesis using assms
    by (auto simp: strip_use_prefix_def use_flag_string_def flag_default_def flag_operator_def wf_use_flag_def)
qed

lemma find_bad_use_char_None: "find_bad_use_char i s = None \<longleftrightarrow> list_all isUseChar s"
  by (induction s arbitrary: i) auto

lemma use_flag_text_print:
  assumes "wf_use_flag f" "c = CHR '','' \<or> c = CHR '']''"
  shows "use_flag_text (use_flag_string f @ c # t) = use_flag_string f"
proof -
  have "x \<noteq> CHR '','' \<and> x \<noteq> CHR '']'' \<and> x \<noteq> nul" if "x \<in> set (use_flag_string f)" for x
    using that assms(1)
    by (auto simp: use_flag_string_def wf_use_flag_def list_all_iff dest: char_class_facts(5)
        split: if_splits option.splits bool.splits)
  then show ?thesis using assms(2) by (subst use_flag_text_def, subst takeWhile_append2) auto
qed

lemma use_flag_string_start:
  assumes "wf_use_flag f"
  shows "\<exists>c s. use_flag_string f = c # s \<and> c \<noteq> CHR '','' \<and> c \<noteq> CHR '']''"
  using assms by (cases "u_name f") (auto simp: use_flag_string_def wf_use_flag_def dest: char_class_facts(5))

lemma parseUseFlag_print:
  assumes "wf_use_flag f" "rest p = use_flag_string f @ c # t" "c = CHR '','' \<or> c = CHR '']''"
  shows "parseUseFlag p = Inr (f, skip (length (use_flag_string f)) p)"
proof -
  have "use_flag_text (rest p) = use_flag_string f" using use_flag_text_print [OF assms(1,3)] assms(2) by simp
  moreover have "use_flag_string f \<noteq> []" using use_flag_string_start [OF assms(1)] by auto
  moreover have "u_name f \<noteq> []" "list_all isUseChar (u_name f)" using assms(1) by (auto simp: wf_use_flag_def)
  moreover have "find_bad_use_char (p_pos p) (u_name f) = None"
    using calculation(4) by (simp add: find_bad_use_char_None)
  ultimately show ?thesis using assms(1)
    by (auto simp: parseUseFlag_def strip_prefix_print strip_operator_print strip_default_print wf_use_flag_def)
qed

lemma parseUseFlags_print:
  assumes "fs \<noteq> []" "list_all wf_use_flag fs" "distinct (map u_name (flags @ fs))"
    "rest p = join_with '','' (map use_flag_string fs) @ CHR '']'' # t"
  shows "\<exists>p'. parseUseFlags_loop True flags p = Inr (flags @ fs, p') \<and> rest p' = t"
  using assms
proof (induction fs arbitrary: flags p)
  case (Cons f fs)
  obtain c u where more: "rest p = use_flag_string f @ c # u" "c = CHR '','' \<or> c = CHR '']''"
    "fs = [] \<and> c = CHR '']'' \<and> u = t \<or>
     fs \<noteq> [] \<and> c = CHR '','' \<and> u = join_with '','' (map use_flag_string fs) @ CHR '']'' # t"
    using Cons.prems(4) by (cases fs) auto
  have wf: "wf_use_flag f" using Cons.prems(2) by simp
  let ?p = "skip (length (use_flag_string f)) p"
  obtain d s where d: "use_flag_string f = d # s" "d \<noteq> CHR '',''" "d \<noteq> CHR '']''"
    using use_flag_string_start [OF wf] by auto
  have "u_name f \<notin> set (map u_name flags)" using Cons.prems(3) by auto
  then have step: "parseUseFlags_loop True flags p = parseUseFlags_loop False (flags @ [f]) ?p"
    using parseUseFlag_print [OF wf more(1,2)] more(1) d
    by (subst parseUseFlags_loop.simps) (simp split: list.split)
  have rp: "rest ?p = c # u" using more(1) by simp
  show ?case
  proof (cases "fs = []")
    case True
    then have "parseUseFlags_loop False (flags @ [f]) ?p = Inr (flags @ [f], skip 1 ?p)"
      using rp more(3) by (subst parseUseFlags_loop.simps) simp
    then show ?thesis using step rp more(3) True by auto
  next
    case False
    then have "parseUseFlags_loop False (flags @ [f]) ?p = parseUseFlags_loop True (flags @ [f]) (skip 1 ?p)"
      using rp more(3) by (subst parseUseFlags_loop.simps) simp
    moreover have "\<exists>p'. parseUseFlags_loop True (flags @ [f]) (skip 1 ?p) = Inr ((flags @ [f]) @ fs, p') \<and> rest p' = t"
      using Cons.prems False rp more(3) by (intro Cons.IH) simp_all
    ultimately show ?thesis using step by simp
  qed
qed simp

subsection \<open>The parser reads back what is printed\<close>

lemma parse_use_print:
  assumes "list_all wf_use_flag (a_use_flags a)" "distinct (map u_name (a_use_flags a))"
    "rest p = use_part a" "a_use_flags b = []"
  shows "parse_use_part b p = Inr (b\<lparr>a_use_flags := a_use_flags a\<rparr>)"
proof (cases "a_use_flags a = []")
  case True
  then show ?thesis using assms by (simp add: parse_use_part_def use_part_def)
next
  case False
  then have r: "rest p = CHR ''['' # join_with '','' (map use_flag_string (a_use_flags a)) @ '']''"
    using assms(3) by (simp add: use_part_def)
  then obtain p' where "parseUseFlags (advance p) = Inr (a_use_flags a, p')" "rest p' = []"
    using parseUseFlags_print [of "a_use_flags a" "[]" "advance p" "[]"] False assms(1,2)
    by (auto simp: parseUseFlags_def)
  then show ?thesis using r by (simp add: parse_use_part_def)
qed

lemma use_part_start: "use_part a = [] \<or> hd (use_part a) = CHR ''['' \<and> a_use_flags a \<noteq> []"
  by (simp add: use_part_def)

lemma use_part_peek: "rest p = use_part a \<Longrightarrow> peek p \<noteq> CHR '':''"
  using use_part_start [of a] by (cases "use_part a") auto

lemma tail_ends: "ends_slot (repo_part a @ use_part a)" "ends_name (slot_part a @ repo_part a @ use_part a)"
  using use_part_start [of a] by (auto simp: ends_slot_def ends_name_def repo_part_def slot_part_def)

lemma parse_repo_use_print:
  assumes "wf_repo (a_repo a)" "list_all wf_use_flag (a_use_flags a)" "distinct (map u_name (a_use_flags a))"
    "rest p = repo_part a @ use_part a" "a_use_flags b = []" "a_repo b = []"
  shows "\<exists>c p'. parse_repo_part b p = Inr (c, p') \<and>
      parse_use_part c p' = Inr (b\<lparr>a_repo := a_repo a, a_use_flags := a_use_flags a\<rparr>) \<and>
      (peek p' = nul \<longrightarrow> c = b\<lparr>a_repo := a_repo a, a_use_flags := a_use_flags a\<rparr>)"
proof -
  have ex: "\<exists>p'. parse_repo_part b p = Inr (b\<lparr>a_repo := a_repo a\<rparr>, p') \<and> rest p' = use_part a"
  proof (cases "a_repo a = []")
    case True
    then show ?thesis using assms use_part_peek [of p a] by (simp add: parse_repo_part_def repo_part_def)
  next
    case False
    then have r: "rest p = ''::'' @ a_repo a @ use_part a" using assms(4) by (simp add: repo_part_def)
    then have "peek p = CHR '':''" "at_double_colon p" by (auto simp: at_double_colon_rest)
    then show ?thesis
      using parse_repo_print [OF assms(1) False r, of b] use_part_start [of a] by (auto simp: parse_repo_part_def)
  qed
  then obtain p' where p': "parse_repo_part b p = Inr (b\<lparr>a_repo := a_repo a\<rparr>, p')" "rest p' = use_part a" by blast
  have "parse_use_part (b\<lparr>a_repo := a_repo a\<rparr>) p' = Inr (b\<lparr>a_repo := a_repo a, a_use_flags := a_use_flags a\<rparr>)"
    using parse_use_print [OF assms(2,3) p'(2), of "b\<lparr>a_repo := a_repo a\<rparr>"] assms(5) by simp
  moreover have "a_use_flags a = []" if "peek p' = nul"
    using that p'(2) use_part_start [of a] by (cases "use_part a") (auto simp: use_part_def split: if_splits)
  ultimately show ?thesis using p'(1) assms(5) by auto
qed

definition parse_after_version :: "atom \<Rightarrow> parser \<Rightarrow> (atom_error, atom) result" where
  \<comment> \<open>steps 5 to 7 of the parser\<close>
  "parse_after_version a1 p1 =
     (if peek p1 = nul then Inr a1
      else case parse_slot_part a1 p1 of
          Inl e \<Rightarrow> Inl e
        | Inr (a2, p2) \<Rightarrow>
            if peek p2 = nul then Inr a2
            else case parse_repo_part a2 p2 of
                Inl e \<Rightarrow> Inl e
              | Inr (a3, p3) \<Rightarrow> if peek p3 = nul then Inr a3 else parse_use_part a3 p3)"

lemma parse_parts_after:
  "parse_parts a p =
     (if peek p = nul then
        (if a_op a \<noteq> OpNone then Inl (OperatorRequiresVersion (a_op a))
         else if HasSuffix (a_package a) ''-'' then Inl DashWithoutVersion
         else Inr a)
      else case parse_version_part a p of Inl e \<Rightarrow> Inl e | Inr (a1, p1) \<Rightarrow> parse_after_version a1 p1)"
  by (simp add: parse_parts_def parse_after_version_def split: sum.split)

lemma slot_part_Nil: "slot_part a = [] \<longleftrightarrow> a_slot a = [] \<and> a_slot_op a = SlotOpNone"
  by (auto simp: slot_part_def)

lemma peek_nul_tail:
  assumes "rest p = repo_part a @ use_part a" "peek p = nul"
  shows "a_repo a = []" "a_use_flags a = []"
  using assms by (auto simp: repo_part_def use_part_def split: if_splits)

lemma parse_after_print:
  assumes wf: "wf_slot_part a" "wf_repo (a_repo a)" "list_all wf_use_flag (a_use_flags a)"
      "distinct (map u_name (a_use_flags a))"
    and r: "rest p = slot_part a @ repo_part a @ use_part a"
    and b: "a_slot b = []" "a_subslot b = []" "a_slot_op b = SlotOpNone" "a_repo b = []" "a_use_flags b = []"
  shows "parse_after_version b p = Inr (b\<lparr>a_slot := a_slot a, a_subslot := a_subslot a,
     a_slot_op := a_slot_op a, a_repo := a_repo a, a_use_flags := a_use_flags a\<rparr>)"
proof (cases "slot_part a = []")
  case False
  let ?c = "b\<lparr>a_slot := a_slot a, a_subslot := a_subslot a, a_slot_op := a_slot_op a\<rparr>"
  from False obtain u where u: "slot_part a = CHR '':'' # u" "u \<noteq> []"
    by (cases "a_slot_op a") (auto simp: slot_part_def split: if_splits)
  have "\<not> at_double_colon p"
  proof
    assume "at_double_colon p"
    then have "hd u = CHR '':''" using r u by (auto simp: at_double_colon_rest neq_Nil_conv)
    moreover have "a_slot a \<noteq> [] \<Longrightarrow> isSlotChar (hd (a_slot a))"
      using wf(1) by (cases "a_slot a") (auto simp: wf_slot_part_def wf_slot_text_def)
    ultimately show False using u slot_char_facts [of "hd (a_slot a)"]
      by (cases "a_slot_op a") (auto simp: slot_part_def split: if_splits)
  qed
  moreover have pk: "peek p = CHR '':''" using r u by simp
  moreover obtain p' where p': "parseSlot b (advance p) = Inr (?c, p')" "rest p' = repo_part a @ use_part a"
    using parseSlot_print [OF wf(1) tail_ends(1) _ b(1-3) False, of "advance p"] r u by auto
  ultimately have s: "parse_slot_part b p = Inr (?c, p')" by (simp add: parse_slot_part_def)
  obtain d p'' where "parse_repo_part ?c p' = Inr (d, p'')"
      "parse_use_part d p'' = Inr (?c\<lparr>a_repo := a_repo a, a_use_flags := a_use_flags a\<rparr>)"
      "peek p'' = nul \<longrightarrow> d = ?c\<lparr>a_repo := a_repo a, a_use_flags := a_use_flags a\<rparr>"
    using parse_repo_use_print [OF wf(2-4) p'(2), of ?c] b(4,5) by auto
  then show ?thesis using s pk peek_nul_tail [OF p'(2)] b(4,5) by (auto simp: parse_after_version_def)
next
  case True
  have "a_subslot a = []" using True wf(1) by (simp add: slot_part_Nil wf_slot_part_def)
  then have same: "b\<lparr>a_slot := a_slot a, a_subslot := a_subslot a, a_slot_op := a_slot_op a\<rparr> = b"
    using True b(1-3) by (simp add: slot_part_Nil)
  have r': "rest p = repo_part a @ use_part a" using r True by simp
  define fin where "fin = b\<lparr>a_repo := a_repo a, a_use_flags := a_use_flags a\<rparr>"
  obtain d p'' where d: "parse_repo_part b p = Inr (d, p'')" "parse_use_part d p'' = Inr fin"
      "peek p'' = nul \<longrightarrow> d = fin"
    using parse_repo_use_print [OF wf(2-4) r' b(5,4)] by (auto simp: fin_def)
  have "parse_after_version b p = Inr fin"
  proof (cases "a_repo a = []")
    case norepo: True
    then have ru: "rest p = use_part a" using r' by (simp add: repo_part_def)
    then have "parse_slot_part b p = Inr (b, p)" using use_part_peek by (simp add: parse_slot_part_def)
    then show ?thesis using d peek_nul_tail [OF r'] b(4,5) by (auto simp: parse_after_version_def fin_def)
  next
    case repo: False
    then have "peek p = CHR '':''" "at_double_colon p" using r' by (auto simp: at_double_colon_rest repo_part_def)
    then have here: "parse_slot_part b p = parse_repo_here b p" "parse_repo_part b p = parse_repo_here b p" "peek p \<noteq> nul"
      by (auto simp: parse_slot_part_def parse_repo_part_def)
    have "rest p = ''::'' @ a_repo a @ use_part a" using r' repo by (simp add: repo_part_def)
    then have "rest p'' = use_part a"
      using parse_repo_print [OF wf(2) repo, of p "use_part a" b] use_part_start [of a] here(2) d(1) by auto
    then have "parse_repo_part d p'' = Inr (d, p'')" using use_part_peek by (simp add: parse_repo_part_def)
    moreover have "parse_slot_part b p = Inr (d, p'')" using here(1,2) d(1) by simp
    ultimately show ?thesis using here(3) d(2,3) by (auto simp: parse_after_version_def)
  qed
  then show ?thesis by (simp only: fin_def same)
qed

lemma parse_parts_print:
  assumes wf: "wf_atom a"
    and r: "rest p = version_part a @ slot_part a @ repo_part a @ use_part a"
    and b: "b = empty_atom\<lparr>a_op := if a_op a = OpEqGlob then OpEq else a_op a,
        a_category := a_category a, a_package := a_package a\<rparr>"
  shows "parse_parts b p = Inr a"
proof -
  let ?c = "b\<lparr>a_version := a_version a, a_op := a_op a\<rparr>"
  have parts: "wf_version_part a" "wf_slot_part a" "wf_repo (a_repo a)" "list_all wf_use_flag (a_use_flags a)"
    "distinct (map u_name (a_use_flags a))"
    using wf by (auto simp: wf_atom_def)
  have be: "a_op b = (if a_op a = OpEqGlob then OpEq else a_op a)" "a_version b = None" "a_slot b = []"
    "a_subslot b = []" "a_slot_op b = SlotOpNone" "a_repo b = []" "a_use_flags b = []"
    "a_category b = a_category a" "a_package b = a_package a"
    by (simp_all add: b empty_atom_def)
  obtain p1 where p1: "parse_version_part b p = Inr (?c, p1)" "rest p1 = slot_part a @ repo_part a @ use_part a"
    using parse_version_print [OF parts(1) r tail_ends(2) be(1,2)] by blast
  have whole: "?c\<lparr>a_slot := a_slot a, a_subslot := a_subslot a, a_slot_op := a_slot_op a,
      a_repo := a_repo a, a_use_flags := a_use_flags a\<rparr> = a"
    by (rule atom.equality) (simp_all add: be)
  have "parse_after_version ?c p1 = Inr (?c\<lparr>a_slot := a_slot a, a_subslot := a_subslot a,
      a_slot_op := a_slot_op a, a_repo := a_repo a, a_use_flags := a_use_flags a\<rparr>)"
    by (rule parse_after_print [OF parts(2-5) p1(2)]) (simp_all add: be)
  then have after: "parse_after_version ?c p1 = Inr a" by (simp only: whole)
  show ?thesis
  proof (cases "peek p = nul")
    case False
    then show ?thesis using p1(1) after by (simp add: parse_parts_after)
  next
    case True
    then have none: "version_part a = []" "slot_part a = []" "repo_part a = []" "use_part a = []"
      using r by (auto simp: version_part_def slot_part_def repo_part_def use_part_def split: if_splits option.splits)
    then have "\<not> has_suffix_part a" "a_version a = None"
      using parts(1) by (auto simp: has_suffix_part_def slot_part_Nil repo_part_def use_part_def version_part_def
          wf_version_part_def split: if_splits option.splits)
    then have "a_op a = OpNone" "last (a_package a) \<noteq> CHR ''-''"
      using parts(1) by (auto simp: wf_version_part_def)
    moreover from this have "b = a"
      using none \<open>a_version a = None\<close> parts(2) be
      by (intro atom.equality) (auto simp: slot_part_Nil repo_part_def use_part_def wf_slot_part_def split: if_splits)
    ultimately show ?thesis using True by (simp add: parse_parts_after HasSuffix_single)
  qed
qed

lemma parse_print:
  assumes "wf_atom a"
  shows "parse \<lparr>p_input = atom_string a, p_pos = 0\<rparr> = Inr a"
proof -
  let ?tail = "slot_part a @ repo_part a @ use_part a"
  let ?name = "a_category a @ CHR ''/'' # a_package a @ version_part a @ ?tail"
  have name: "wf_name (a_category a) (a_package a)" "wf_version_part a" using assms by (auto simp: wf_atom_def)
  then have cat: "a_category a \<noteq> []" "isAtomChar (hd (a_category a))" by (auto simp: wf_name_def)
  then have str: "atom_string a = op_part a @ ?name" by (simp add: atom_string_def)
  have start: "hd (a_category a) \<noteq> CHR ''=''" "hd (a_category a) \<noteq> CHR ''!''"
    "hd (a_category a) \<noteq> CHR ''<''" "hd (a_category a) \<noteq> CHR ''>''" "hd (a_category a) \<noteq> CHR ''~''"
    using char_class_facts(3) [OF cat(2)] by auto
  define op where "op = (if a_op a = OpEqGlob then OpEq else a_op a)"
  have op: "parseOp (atom_string a) = (op, length (op_part a))"
    using cat(1) start unfolding str by (cases "a_op a"; cases "a_category a")
      (auto simp: op_part_def parseOp_def op_def)
  define p where "p = (if op \<noteq> OpNone then skip (length (op_part a)) \<lparr>p_input = atom_string a, p_pos = 0\<rparr>
       else \<lparr>p_input = atom_string a, p_pos = 0\<rparr>)"
  have rp: "rest p = ?name"
    by (cases "a_op a") (auto simp: p_def op_def op_part_def str rest_def skip_def)
  have "version_part a = [] \<or> version_follows (version_part a @ ?tail)"
  proof (cases "a_version a")
    case (Some v)
    then have "version_part a = CHR ''-'' # v_raw v" "v_raw v \<noteq> []" "is_digit (hd (v_raw v))" "accepts_version (v_raw v)"
      using name(2) by (auto simp: version_part_def wf_version_part_def accepts_version_def)
    then show ?thesis using tail_ends(2) [of a] by (auto simp: version_follows_def)
  qed (simp add: version_part_def)
  then have "ends_name (version_part a @ ?tail) \<or> version_follows (version_part a @ ?tail)"
    using tail_ends(2) [of a] by auto
  then obtain p' where p': "parseCP p = Inr ((a_category a, a_package a), p')" "rest p' = version_part a @ ?tail"
    using parseCP_print [OF name(1) _ rp] by blast
  have "peek p \<noteq> CHR ''!''" using rp cat(1) start by (cases "a_category a") auto
  then have "parse \<lparr>p_input = atom_string a, p_pos = 0\<rparr> =
      parse_parts (empty_atom\<lparr>a_op := op, a_category := a_category a, a_package := a_package a\<rparr>) p'"
    using op p'(1) by (simp add: parse_def p_def [symmetric])
  then show ?thesis using parse_parts_print [OF assms p'(2)] by (simp add: op_def)
qed

definition printable :: "string \<Rightarrow> bool" where
  "printable s \<longleftrightarrow> list_all (\<lambda>c. 33 \<le> code c \<and> code c \<le> 126) s"

lemma check_bytes_None: "check_bytes i s = None \<longleftrightarrow> printable s"
  by (induction s arbitrary: i) (auto simp: printable_def)

lemma printable_append [simp]: "printable (s @ t) \<longleftrightarrow> printable s \<and> printable t" "printable []"
  "printable (c # s) \<longleftrightarrow> 33 \<le> code c \<and> code c \<le> 126 \<and> printable s"
  by (simp_all add: printable_def)

lemma printable_classes:
  "isCategoryChar c \<Longrightarrow> 33 \<le> code c \<and> code c \<le> 126"
  "isPackageChar c \<Longrightarrow> 33 \<le> code c \<and> code c \<le> 126"
  "isSlotChar c \<Longrightarrow> 33 \<le> code c \<and> code c \<le> 126"
  "isRepositoryChar c \<Longrightarrow> 33 \<le> code c \<and> code c \<le> 126"
  "isUseChar c \<Longrightarrow> 33 \<le> code c \<and> code c \<le> 126"
  "version_char c \<Longrightarrow> 33 \<le> code c \<and> code c \<le> 126"
  by (auto simp: isCategoryChar_def isPackageChar_def isSlotChar_def isRepositoryChar_def isUseChar_def
      version_char_def isAtomChar_def is_lower_def is_upper_def is_digit_def)
    (auto simp: code_def)

lemma printable_list: "list_all P s \<Longrightarrow> (\<And>c. P c \<Longrightarrow> 33 \<le> code c \<and> code c \<le> 126) \<Longrightarrow> printable s"
  by (simp add: printable_def list_all_iff)

lemma printable_texts [intro]:
  "list_all isCategoryChar s \<Longrightarrow> printable s" "list_all isPackageChar s \<Longrightarrow> printable s"
  "list_all isSlotChar s \<Longrightarrow> printable s" "list_all isRepositoryChar s \<Longrightarrow> printable s"
  "list_all isUseChar s \<Longrightarrow> printable s" "list_all version_char s \<Longrightarrow> printable s"
  by (rule printable_list, assumption, simp add: printable_classes)+

lemma printable_use_flag:
  assumes "wf_use_flag f"
  shows "printable (use_flag_string f)"
proof -
  have "printable (u_name f)" using assms by (auto simp: wf_use_flag_def)
  moreover have "printable (case u_default f of None \<Rightarrow> [] | Some True \<Rightarrow> ''(+)'' | Some False \<Rightarrow> ''(-)'')"
    by (simp add: code_def split: option.split bool.split)
  ultimately show ?thesis by (simp add: use_flag_string_def code_def)
qed

lemma printable_join: "\<forall>s \<in> set ws. printable s \<Longrightarrow> printable (join_with '','' ws)"
  by (induction "'',''" ws rule: join_with.induct) (auto simp: code_def)

lemma printable_atom:
  assumes "wf_atom a"
  shows "printable (atom_string a)"
proof -
  have parts: "wf_name (a_category a) (a_package a)" "wf_version_part a" "wf_slot_part a"
    "wf_repo (a_repo a)" "list_all wf_use_flag (a_use_flags a)"
    using assms by (auto simp: wf_atom_def)
  have "printable (op_part a)" by (cases "a_op a") (auto simp: op_part_def code_def)
  moreover have "printable (a_category a)" "printable (a_package a)"
    using parts(1) by (auto simp: wf_name_def)
  moreover have "printable (version_part a)"
  proof (cases "a_version a")
    case (Some v)
    then have "version_text (v_raw v)" using parts(2) by (auto simp: wf_version_part_def parsed_version_text)
    then have "printable (v_raw v)" by (auto simp: version_text_def)
    then show ?thesis using Some by (simp add: version_part_def code_def)
  qed (simp add: version_part_def)
  moreover have "printable (slot_part a)"
  proof -
    have "printable (a_slot a)" "printable (a_subslot a)"
      using parts(3) by (cases "a_slot a = []"; cases "a_subslot a = []";
        auto simp: wf_slot_part_def wf_slot_text_def)+
    then show ?thesis by (cases "a_slot_op a") (auto simp: slot_part_def code_def)
  qed
  moreover have "printable (repo_part a)"
    using parts(4) by (auto simp: repo_part_def wf_repo_def code_def)
  moreover have "printable (use_part a)"
    using parts(5) by (auto simp: use_part_def list_all_iff intro!: printable_join printable_use_flag)
      (auto simp: code_def)
  ultimately show ?thesis by (auto simp: atom_string_def code_def)
qed

lemma Parse_print: "wf_atom a \<Longrightarrow> Parse (atom_string a) = Inr a"
proof -
  assume wf: "wf_atom a"
  have "a_category a \<noteq> []" using wf by (auto simp: wf_atom_def wf_name_def)
  then have "atom_string a \<noteq> []" by (simp add: atom_string_def)
  moreover have "check_bytes 0 (atom_string a) = None"
    using printable_atom [OF wf] by (simp add: check_bytes_None)
  ultimately show ?thesis using parse_print [OF wf] by (simp add: Parse_def)
qed

end
