(* ===== verification/Atom_Roundtrip.thy ===== *)
theory Atom_Roundtrip
  imports Atom_Print
begin

text \<open>
  Every step of the atom parser establishes its part of \<open>wf_atom\<close>, so that parsing and printing are
  inverse to each other on exactly these atoms: the contract \<open>print_parse\<close> of the prelude, for
  \<^verbatim>\<open>Parse\<close> and for \<^verbatim>\<open>ParsePackageAtom\<close>.
\<close>

subsection \<open>The parser returns well-formed atoms\<close>

definition package_stop :: "string \<Rightarrow> bool" where
  \<comment> \<open>where the package name loop ends\<close>
  "package_stop t \<longleftrightarrow> t = [] \<or> hd t = CHR '':'' \<or> hd t = CHR ''['' \<or> hd t = nul \<or>
     (\<exists>ds. t = CHR ''-'' # ds \<and> ds \<noteq> [] \<and> is_digit (hd ds))"

lemma scan_package_wf:
  "scan_package i s = Inr pkg \<Longrightarrow> \<exists>t. s = pkg @ t \<and> list_all isPackageChar pkg \<and> package_stop t"
proof (induction s arbitrary: i pkg)
  case (Cons b bs)
  show ?case
  proof (cases "package_stop (b # bs) \<and> pkg = []")
    case False
    then obtain pkg' where "scan_package (i + 1) bs = Inr pkg'" "pkg = b # pkg'" "isPackageChar b"
      using Cons.prems
      by (auto simp: package_stop_def isPackageChar_def split: if_splits sum.splits)
    then show ?thesis using Cons.IH [of "i + 1" pkg'] by auto
  qed auto
qed (simp add: package_stop_def)

lemma parseCP_wf:
  assumes "parseCP p = Inr ((cat, pkg), p')"
  shows "wf_name cat pkg \<and> package_stop (rest p')"
proof -
  let ?cat = "takeWhile (\<lambda>b. b \<noteq> CHR ''/'' \<and> isCategoryChar b) (rest p)"
  let ?p2 = "skip 1 (skip (length ?cat) p)"
  have facts: "cat = ?cat" "cat \<noteq> []" "isAtomChar (hd cat)" "scan_package (p_pos ?p2) (rest ?p2) = Inr pkg"
    "pkg \<noteq> []" "isAtomChar (hd pkg)" "version_like_suffix pkg = None" "p' = skip (length pkg) ?p2"
    using assms by (auto simp: parseCP_def Let_def split: if_splits sum.splits option.splits)
  obtain t where t: "rest ?p2 = pkg @ t" "list_all isPackageChar pkg" "package_stop t"
    using scan_package_wf [OF facts(4)] by auto
  have "list_all (\<lambda>b. b \<noteq> CHR ''/'' \<and> isCategoryChar b) ?cat" by (rule list_all_takeWhile)
  then have "list_all isCategoryChar cat" unfolding facts(1) list_all_iff by blast
  moreover have "rest p' = t" using facts(8) t(1) by simp
  ultimately show ?thesis using facts t by (simp add: wf_name_def)
qed

definition wf_core :: "atom \<Rightarrow> bool" where
  \<comment> \<open>the parts of \<open>wf_atom\<close> that hold after every step of the parser\<close>
  "wf_core a \<longleftrightarrow> wf_name (a_category a) (a_package a) \<and>
     (case a_version a of
        None \<Rightarrow> a_op a \<noteq> OpEqGlob
      | Some v \<Rightarrow> parseVersionString (v_raw v) = Inr v \<and> v_raw v \<noteq> [] \<and> is_digit (hd (v_raw v)) \<and>
          (HasSuffix (v_raw v) ''*'' \<longleftrightarrow> a_op a = OpEqGlob)) \<and>
     wf_slot_part a \<and> wf_repo (a_repo a) \<and> list_all wf_use_flag (a_use_flags a) \<and>
     distinct (map u_name (a_use_flags a))"

lemma wf_atom_core:
  "wf_atom a \<longleftrightarrow> wf_core a \<and>
     (a_version a = None \<longrightarrow> a_op a = OpNone \<and> last (a_package a) \<noteq> CHR ''-'' \<or> has_suffix_part a)"
  by (auto simp: wf_atom_def wf_core_def wf_version_part_def split: option.splits)

lemma parse_version_wf:
  assumes "parse_version_part a p = Inr (b, p')" "wf_core a" "a_version a = None" "package_stop (rest p)"
  shows "wf_core b \<and> (b = a \<and> p' = p \<and> peek p \<noteq> CHR ''-'' \<or> a_version b \<noteq> None)"
proof (cases "peek p = CHR ''-''")
  case False
  then show ?thesis using assms by (simp add: parse_version_part_def)
next
  case True
  obtain ds where ds: "rest p = CHR ''-'' # ds" "ds \<noteq> []" "is_digit (hd ds)"
    using True assms(4) by (cases "rest p") (auto simp: package_stop_def)
  obtain v p1 where v: "parseVersion (advance p) = Inr (v, p1)"
    and op: "HasSuffix (v_raw v) ''*'' \<longrightarrow> a_op a = OpEq"
    and b: "b = (if HasSuffix (v_raw v) ''*'' then a\<lparr>a_version := Some v, a_op := OpEqGlob\<rparr>
        else a\<lparr>a_version := Some v\<rparr>)"
    using True assms(1) by (auto simp: parse_version_part_def split: sum.splits if_splits)
  let ?raw = "takeWhile (\<lambda>b. \<not> (version_ends b \<or> b = nul)) ds"
  have raw: "parseVersionString ?raw = Inr v" "?raw \<noteq> []"
    using v ds by (auto simp: parseVersion_def Let_def split: if_splits sum.splits)
  then have "v_raw v = ?raw" using parsed_version_ok by blast
  moreover have "hd ?raw = hd ds" using raw(2) by (cases ds) (auto split: if_splits)
  ultimately have "parseVersionString (v_raw v) = Inr v \<and> v_raw v \<noteq> [] \<and> is_digit (hd (v_raw v))"
    using raw ds(3) by simp
  moreover have "a_op a \<noteq> OpEqGlob" using assms(2,3) by (simp add: wf_core_def)
  ultimately show ?thesis using b assms(2) op by (auto simp: wf_core_def wf_slot_part_def)
qed

lemma parseRepo_wf:
  assumes "parseRepo p = (r, p')"
  shows "wf_repo r"
proof -
  let ?run = "takeWhile (\<lambda>b. \<not> (b = CHR ''['' \<or> b = nul \<or> \<not> isRepositoryChar b)) (rest p)"
  have "list_all isRepositoryChar ?run" unfolding list_all_iff by (blast dest: set_takeWhileD)
  moreover have "r = [] \<or> r = ?run \<and> (?run = [] \<or> isAtomChar (hd ?run))"
    using assms unfolding parseRepo_def Let_def by (simp only: prod.inject split: if_splits) blast+
  ultimately show ?thesis unfolding wf_repo_def by blast
qed

lemma wf_core_repo: "wf_core a \<Longrightarrow> wf_repo r \<Longrightarrow> wf_core (a\<lparr>a_repo := r\<rparr>)"
  by (simp add: wf_core_def wf_slot_part_def split: option.splits)

lemma parse_repo_here_wf:
  assumes "parse_repo_here a p = Inr (b, p')" "wf_core a"
  shows "wf_core b \<and> a_repo b \<noteq> [] \<and> a_version b = a_version a"
proof -
  obtain r p1 where r: "parseRepo (skip 2 p) = (r, p1)" by fastforce
  then have "b = a\<lparr>a_repo := r\<rparr>" "r \<noteq> []"
    using assms(1) by (auto simp: parse_repo_here_def split: if_splits)
  then show ?thesis using wf_core_repo [OF assms(2) parseRepo_wf [OF r]] by simp
qed

definition same_but_slot :: "atom \<Rightarrow> atom \<Rightarrow> bool" where
  "same_but_slot a b \<longleftrightarrow> a_op b = a_op a \<and> a_category b = a_category a \<and> a_package b = a_package a \<and>
     a_version b = a_version a \<and> a_repo b = a_repo a \<and> a_use_flags b = a_use_flags a"

lemma wf_core_slot: "wf_core a \<Longrightarrow> same_but_slot a b \<Longrightarrow> wf_slot_part b \<Longrightarrow> wf_core b"
  by (simp add: wf_core_def same_but_slot_def split: option.splits)

lemma wf_core_use:
  "wf_core a \<Longrightarrow> list_all wf_use_flag fs \<Longrightarrow> distinct (map u_name fs) \<Longrightarrow> wf_core (a\<lparr>a_use_flags := fs\<rparr>)"
  by (simp add: wf_core_def wf_slot_part_def split: option.splits)

lemma parseSubslot_wf:
  assumes "parseSubslot a p = Inr (b, p')" "wf_slot_part a" "a_slot a \<noteq> []"
  shows "wf_slot_part b \<and> a_slot b = a_slot a \<and> same_but_slot a b"
proof (cases "peek p = CHR ''/''")
  case False
  then show ?thesis using assms by (auto simp: parseSubslot_def same_but_slot_def)
next
  case True
  then obtain s e where "scan_subslot True (rest (advance p)) = Inr (s, e)"
    using assms(1) by (auto simp: parseSubslot_def Let_def split: sum.splits)
  then have s: "validateSlotPart ''subslot'' s = None" "s \<noteq> []"
    "b = a\<lparr>a_subslot := s, a_slot_op := (if e then SlotOpEq else a_slot_op a)\<rparr>"
    using assms(1) True by (simp_all add: parseSubslot_def split: if_splits option.splits)
  then have "wf_slot_text s" by (simp add: validateSlotPart_wf)
  then show ?thesis using s(3) assms(2,3) by (auto simp: wf_slot_part_def same_but_slot_def)
qed

lemma parseSlot_wf:
  assumes "parseSlot a p = Inr (b, p')" "wf_slot_part a" "a_slot a = []" "a_slot_op a = SlotOpNone"
  shows "wf_slot_part b \<and> (a_slot b \<noteq> [] \<or> a_slot_op b \<noteq> SlotOpNone) \<and> same_but_slot a b"
proof (cases "peek p = CHR ''='' \<or> peek p = CHR ''*''")
  case True
  then obtain op where op: "b = a\<lparr>a_slot_op := op\<rparr>" "op \<noteq> SlotOpNone"
    using assms(1) by (auto simp: parseSlot_def Let_def split: if_splits)
  moreover have "wf_slot_part b" using op assms(2,3) by (auto simp: wf_slot_part_def)
  ultimately show ?thesis by (auto simp: same_but_slot_def)
next
  case False
  then obtain s e where "scan_slot (rest p) = Inr (s, e)"
    using assms(1) by (auto simp: parseSlot_def split: sum.splits)
  then have s: "validateSlotPart ''slot'' s = None" "s \<noteq> []"
    and sub: "parseSubslot (a\<lparr>a_slot := s, a_slot_op := (if e then SlotOpEq else a_slot_op a)\<rparr>)
         (skip (length s + (if e then 1 else 0)) p) = Inr (b, p')"
    using assms(1) False by (simp_all add: parseSlot_def split: if_splits option.splits)
  have "wf_slot_text s" using s by (simp add: validateSlotPart_wf)
  then have "wf_slot_part (a\<lparr>a_slot := s, a_slot_op := (if e then SlotOpEq else a_slot_op a)\<rparr>)"
    using assms(2-4) by (simp add: wf_slot_part_def)
  then show ?thesis using parseSubslot_wf [OF sub] s(2) by (auto simp: same_but_slot_def)
qed

lemma parse_slot_part_wf:
  assumes "parse_slot_part a p = Inr (b, p')" "wf_core a" "a_slot a = []" "a_slot_op a = SlotOpNone"
  shows "wf_core b \<and> a_version b = a_version a \<and> (has_suffix_part b \<or> b = a \<and> p' = p \<and> peek p \<noteq> CHR '':'')"
proof (cases "peek p = CHR '':''")
  case False
  then show ?thesis using assms by (auto simp: parse_slot_part_def)
next
  case colon: True
  show ?thesis
  proof (cases "at_double_colon p")
    case True
    then show ?thesis using colon assms parse_repo_here_wf
      by (auto simp: parse_slot_part_def has_suffix_part_def)
  next
    case False
    then have "parseSlot a (advance p) = Inr (b, p')"
      using colon assms(1) by (auto simp: parse_slot_part_def split: sum.splits)
    moreover have "wf_slot_part a" using assms(2) by (simp add: wf_core_def)
    ultimately show ?thesis using parseSlot_wf [OF _ _ assms(3,4)] wf_core_slot [OF assms(2)]
      by (auto simp: has_suffix_part_def same_but_slot_def)
  qed
qed

lemma parse_repo_part_wf:
  assumes "parse_repo_part a p = Inr (b, p')" "wf_core a"
  shows "wf_core b \<and> a_version b = a_version a \<and> (has_suffix_part b \<or> b = a \<and> p' = p)"
  using assms parse_repo_here_wf [of a p b p']
  by (auto simp: parse_repo_part_def has_suffix_part_def split: if_splits)

lemma strip_use_operator_wf:
  "strip_use_operator raw = (c, e, s) \<Longrightarrow> \<not> (c \<and> e) \<and> (\<exists>t. raw = s @ t)"
  by (auto simp: strip_use_operator_def TrimSuffix_def intro: append_take_drop_id [symmetric] split: if_splits)

lemma strip_use_default_wf: "strip_use_default raw = (d, s) \<Longrightarrow> \<exists>t. raw = s @ t"
  by (auto simp: strip_use_default_def intro: append_take_drop_id [symmetric] split: if_splits)

lemma parseUseFlag_wf:
  assumes "parseUseFlag p = Inr (f, p')"
  shows "wf_use_flag f"
proof -
  obtain neg en raw1 where 1: "strip_use_prefix (use_flag_text (rest p)) = (neg, en, raw1)" using prod_cases3 by blast
  obtain c e raw2 where 2: "strip_use_operator raw1 = (c, e, raw2)" using prod_cases3 by blast
  obtain d name where 3: "strip_use_default raw2 = (d, name)" by fastforce
  have f: "name \<noteq> []" "list_all isUseChar name" "\<not> (neg \<and> \<not> c \<and> \<not> e)" "\<not> (\<not> en \<and> (c \<or> e))"
    "f = \<lparr>u_name = name, u_enabled = en, u_conditional = c, u_equal = e, u_negated = neg, u_default = d\<rparr>"
    using assms 1 2 3 find_bad_use_char_None [of "p_pos p" name]
    by (auto simp: parseUseFlag_def Let_def split: if_splits option.splits)
  obtain t where "raw1 = name @ t"
    using strip_use_operator_wf [OF 2] strip_use_default_wf [OF 3] by auto
  then have "hd name = hd raw1" "raw1 \<noteq> []" using f(1) by simp_all
  moreover have "neg \<longrightarrow> en" "en \<and> \<not> neg \<longrightarrow> raw1 = [] \<or> hd raw1 \<noteq> CHR ''-''"
    using 1 by (auto simp: strip_use_prefix_def HasPrefix_iff split: if_splits) (metis list.collapse append_Cons append_Nil)
  ultimately show ?thesis using f strip_use_operator_wf [OF 2] by (auto simp: wf_use_flag_def)
qed

lemma parseUseFlags_wf:
  assumes "parseUseFlags_loop e flags p = Inr (fs, p')" "list_all wf_use_flag flags" "distinct (map u_name flags)"
    "e \<or> flags \<noteq> []"
  shows "list_all wf_use_flag fs \<and> distinct (map u_name fs) \<and> fs \<noteq> []"
  using assms
proof (induction e flags p rule: parseUseFlags_loop.induct)
  case (1 e flags p)
  obtain b bs where r: "rest p = b # bs"
    using "1.prems"(1) by (subst (asm) parseUseFlags_loop.simps) (auto split: list.splits)
  consider "b = CHR '']''" | "b = CHR '',''" | "b \<noteq> CHR '']''" "b \<noteq> CHR '',''" by blast
  then show ?case
  proof cases
    case 1
    then show ?thesis using "1.prems" r by (subst (asm) parseUseFlags_loop.simps) (auto split: if_splits)
  next
    case 2
    then have "parseUseFlags_loop True flags (skip 1 p) = Inr (fs, p')" "\<not> e"
      using "1.prems"(1) r by (subst (asm) parseUseFlags_loop.simps; auto split: if_splits)+
    then show ?thesis using "1.IH"(1) [OF r] 2 "1.prems"(2-4) by simp
  next
    case 3
    then obtain f p1 where f: "parseUseFlag p = Inr (f, p1)" "u_name f \<notin> set (map u_name flags)"
      "parseUseFlags_loop False (flags @ [f]) p1 = Inr (fs, p')"
      using "1.prems"(1) r by (subst (asm) parseUseFlags_loop.simps) (auto split: if_splits sum.splits)
    then show ?thesis using "1.IH"(2) [OF r 3 f(1) refl f(2)] "1.prems"(2,3) parseUseFlag_wf [OF f(1)] by simp
  qed
qed

lemma parse_use_part_wf:
  assumes "parse_use_part a p = Inr b" "wf_core a"
  shows "wf_core b \<and> a_version b = a_version a \<and> (has_suffix_part b \<or> b = a \<and> peek p \<noteq> CHR ''['')"
proof (cases "peek p = CHR ''[''")
  case False
  then show ?thesis using assms by (auto simp: parse_use_part_def split: if_splits)
next
  case True
  then obtain fs p1 where fs: "parseUseFlags (advance p) = Inr (fs, p1)" "b = a\<lparr>a_use_flags := fs\<rparr>"
    using assms(1) by (auto simp: parse_use_part_def split: sum.splits if_splits)
  then have "list_all wf_use_flag fs \<and> distinct (map u_name fs) \<and> fs \<noteq> []"
    using parseUseFlags_wf [of True "[]" "advance p" fs p1] by (simp add: parseUseFlags_def)
  then show ?thesis using fs(2) wf_core_use [OF assms(2)] by (auto simp: has_suffix_part_def)
qed

lemma parse_after_wf:
  assumes "parse_after_version a p = Inr b" "wf_core a" "a_slot a = []" "a_slot_op a = SlotOpNone"
  shows "wf_core b \<and> a_version b = a_version a \<and>
     (has_suffix_part b \<or> b = a \<and> peek p \<noteq> CHR '':'' \<and> peek p \<noteq> CHR ''['')"
proof (cases "peek p = nul")
  case True
  then show ?thesis using assms by (simp add: parse_after_version_def)
next
  case False
  then obtain c p2 where c: "parse_slot_part a p = Inr (c, p2)"
    using assms(1) by (auto simp: parse_after_version_def split: sum.splits)
  note slot = parse_slot_part_wf [OF c assms(2-4)]
  show ?thesis
  proof (cases "peek p2 = nul")
    case True
    then show ?thesis using assms(1) slot c False by (auto simp: parse_after_version_def)
  next
    case more: False
    then obtain d p3 where d: "parse_repo_part c p2 = Inr (d, p3)"
      using assms(1) c False by (auto simp: parse_after_version_def split: sum.splits)
    note repo = parse_repo_part_wf [OF d conjunct1 [OF slot]]
    have last: "b = d \<and> peek p3 = nul \<or> parse_use_part d p3 = Inr b"
      using assms(1) c d False more by (auto simp: parse_after_version_def split: if_splits)
    have keep: "has_suffix_part b" if "has_suffix_part d" "parse_use_part d p3 = Inr b"
      using parse_use_part_wf [OF that(2) conjunct1 [OF repo]] that(1) by auto
    show ?thesis using last slot repo keep parse_use_part_wf [of d p3 b] False more
      by (elim disjE conjE) auto
  qed
qed

lemma parse_wf:
  assumes "parse p0 = Inr b"
  shows "wf_atom b"
proof -
  obtain op n where op: "parseOp (p_input p0) = (op, n)" by fastforce
  then have glob: "op \<noteq> OpEqGlob" by (auto simp: parseOp_def split: if_splits)
  define p where "p = (if op \<noteq> OpNone then skip n p0 else p0)"
  obtain cat pkg p1 where cp: "parseCP p = Inr ((cat, pkg), p1)"
    and parts: "parse_parts (empty_atom\<lparr>a_op := op, a_category := cat, a_package := pkg\<rparr>) p1 = Inr b"
    using assms op by (auto simp: parse_def p_def [symmetric] split: if_splits sum.splits)
  define a where "a = empty_atom\<lparr>a_op := op, a_category := cat, a_package := pkg\<rparr>"
  have a: "wf_core a" "a_version a = None" "a_slot a = []" "a_slot_op a = SlotOpNone"
    using parseCP_wf [OF cp] glob
    by (simp_all add: a_def empty_atom_def wf_core_def wf_slot_part_def wf_repo_def)
  have stop: "package_stop (rest p1)" using parseCP_wf [OF cp] by simp
  show ?thesis
  proof (cases "peek p1 = nul")
    case True
    then have "b = a" "a_op a = OpNone" "\<not> HasSuffix (a_package a) ''-''"
      using parts by (auto simp: parse_parts_after a_def [symmetric] split: if_splits)
    moreover have "a_package a \<noteq> []" using a(1) by (simp add: wf_core_def wf_name_def)
    ultimately show ?thesis using a by (simp add: wf_atom_core HasSuffix_single)
  next
    case False
    then obtain c p2 where c: "parse_version_part a p1 = Inr (c, p2)" and after: "parse_after_version c p2 = Inr b"
      using parts by (auto simp: parse_parts_after a_def [symmetric] split: sum.splits)
    note ver = parse_version_wf [OF c a(1,2) stop]
    have "a_slot c = []" "a_slot_op c = SlotOpNone"
      using c a(3,4) by (auto simp: parse_version_part_def split: sum.splits if_splits)
    note tail = parse_after_wf [OF after conjunct1 [OF ver] this]
    show ?thesis
    proof (cases "a_version b = None")
      case True
      then have "c = a" "p2 = p1" "peek p1 \<noteq> CHR ''-''" using ver tail by auto
      then have "peek p1 = CHR '':'' \<or> peek p1 = CHR ''[''"
        using stop False by (cases "rest p1") (auto simp: package_stop_def)
      then show ?thesis using tail \<open>p2 = p1\<close> by (auto simp: wf_atom_core)
    qed (use tail in \<open>auto simp: wf_atom_core\<close>)
  qed
qed

lemma Parse_wf: "Parse s = Inr a \<Longrightarrow> wf_atom a"
  by (auto simp: Parse_def dest: parse_wf split: if_splits option.splits sum.splits)

subsection \<open>The contract of printing and parsing\<close>

interpretation atom_text: print_parse atom_string Parse wf_atom
  by unfold_locales (simp_all add: Parse_wf Parse_print)

definition wf_package_atom :: "atom \<Rightarrow> bool" where
  "wf_package_atom a \<longleftrightarrow> wf_atom a \<and> (a_version a \<noteq> None \<longrightarrow> a_op a \<noteq> OpNone)"

interpretation package_atom_text: print_parse atom_string ParsePackageAtom wf_package_atom
  by unfold_locales
    (auto simp: ParsePackageAtom_def wf_package_atom_def Parse_print dest: Parse_wf split: sum.splits if_splits)

text \<open>
  Claim C34: The atoms that \<^verbatim>\<open>atom.Parse\<close> can return are exactly the well-formed ones: category and
  package start with a letter, digit or underscore and no hyphenated suffix of the package is a
  version, a version is one the version parser accepts and a wildcard goes with the \<open>=*\<close> operator only, slots, repository
  and USE dependencies are in their alphabets, USE flag names are distinct and their prefixes and
  operators consistent. An atom without version has no operator and no trailing hyphen, unless a slot, a
  repository or USE dependencies follow.
\<close>

theorem atom_parse_range: "(\<exists>s. Parse s = Inr a) \<longleftrightarrow> wf_atom a"
  by (rule atom_text.range_iff)

text \<open>
  Claim C35: Printing an atom that was parsed and parsing the text again returns the same atom, in every
  field, and the printed text is a fixed point: rendering normalises once and for all.
\<close>

theorem atom_round_trip:
  assumes "Parse s = Inr a" "Parse t = Inr b"
  shows "Parse (atom_string a) = Inr a \<and> (atom_string a = atom_string b \<longleftrightarrow> a = b)"
  using atom_text.reparse [OF assms(1)] atom_text.text_identifies [OF assms] by simp

theorem atom_round_trip_witness:
  "Parse (atom_string (empty_atom\<lparr>a_category := ''a'', a_package := ''b'', a_slot := ''0'', a_subslot := ''2'',
      a_slot_op := SlotOpEq\<rparr>)) =
    Inr (empty_atom\<lparr>a_category := ''a'', a_package := ''b'', a_slot := ''0'', a_subslot := ''2'', a_slot_op := SlotOpEq\<rparr>)"
proof -
  have "Parse ''a/b:0=/2'' = Inr (empty_atom\<lparr>a_category := ''a'', a_package := ''b'', a_slot := ''0'',
      a_subslot := ''2'', a_slot_op := SlotOpEq\<rparr>)"
    by code_simp
  then show ?thesis using atom_round_trip by blast
qed

text \<open>
  \<^verbatim>\<open>ParsePackageAtom\<close>, the entry point for user and repository configuration, accepts exactly the well-formed atoms in
  which a version comes with an operator, and it too reads back what it accepted.
\<close>

theorem package_atom_round_trip:
  "((\<exists>s. ParsePackageAtom s = Inr a) \<longleftrightarrow> ParsePackageAtom (atom_string a) = Inr a) \<and>
   ((\<exists>s. ParsePackageAtom s = Inr a) \<longleftrightarrow> wf_package_atom a)"
  using package_atom_text.range_iff package_atom_text.fixed_point_iff by blast

text \<open>
  The parser requires a version after an operator, and a package name that does not end in a
  hyphen, only where the atom ends with the package: a slot lets both through, and a second repository
  silently replaces the first.
\<close>

theorem operator_without_version_accepted:
  "Parse ''>=null/portage'' = Inl (ParsingAtom ''>=null/portage'' (OperatorRequiresVersion OpGtEq)) \<and>
   Parse ''>=null/portage:0'' = Inr (empty_atom\<lparr>a_op := OpGtEq, a_category := ''null'', a_package := ''portage'', a_slot := ''0''\<rparr>) \<and>
   Parse ''null/portage-'' = Inl (ParsingAtom ''null/portage-'' DashWithoutVersion) \<and>
   Parse ''null/portage-:0'' = Inr (empty_atom\<lparr>a_category := ''null'', a_package := ''portage-'', a_slot := ''0''\<rparr>) \<and>
   Parse ''a/b::x::y'' = Parse ''a/b::y''"
  by (intro conjI; code_simp)

end
