(* ===== verification/Depstring.thy ===== *)
theory Depstring
  imports Atoms
begin

text \<open>
  Dependency strings, \<^verbatim>\<open>src/internal/depstring/depstring.go\<close>: the tree of \<^verbatim>\<open>DepNode\<close> values, its
  rendering, the parser, the flattened \<^verbatim>\<open>AtomMeta\<close> view, the validation of package dependencies
  against an EAPI, and \<^verbatim>\<open>Satisfy\<close>. A nil \<^verbatim>\<open>DepNode\<close> is \<open>None\<close>. The parser struct has the fields of
  the atom parser and uses its record. The mutually recursive parser carries fuel; \<open>dep_fuel\<close> is enough
  for every input, which the round-trip theory proves.
\<close>

subsection \<open>Dependency trees\<close>

datatype dep_node =
    AtomDep string
  | AllOfGroup "dep_node list" bool
  | AnyOfGroup "dep_node list"
  | XorOfGroup "dep_node list"
  | AtMostOneOfGroup "dep_node list"
  | UseConditional string "dep_node list"
  | Block string
  | WeakBlock string

definition group_text :: "string \<Rightarrow> string list \<Rightarrow> string" where
  \<comment> \<open>\<^verbatim>\<open>"( )"\<close> for no children, \<^verbatim>\<open>"( " + joinNodes(children) + " )"\<close> otherwise, after a prefix\<close>
  "group_text pre ws = pre @ (if ws = [] then ''( )'' else ''( '' @ join_with '' '' ws @ '' )'')"

fun node_string :: "dep_node \<Rightarrow> string" where
  \<comment> \<open>the \<^verbatim>\<open>String\<close> methods\<close>
  "node_string (AtomDep a) = a"
| "node_string (AllOfGroup ns implicit) =
     (if implicit then join_with '' '' (map node_string ns) else group_text [] (map node_string ns))"
| "node_string (AnyOfGroup ns) = group_text ''|| '' (map node_string ns)"
| "node_string (XorOfGroup ns) = group_text ''^^ '' (map node_string ns)"
| "node_string (AtMostOneOfGroup ns) = group_text ''?? '' (map node_string ns)"
| "node_string (UseConditional flag ns) = group_text (flag @ ''? '') (map node_string ns)"
| "node_string (Block a) = CHR ''!'' # a"
| "node_string (WeakBlock a) = ''!!'' @ a"

definition joinNodes :: "dep_node list \<Rightarrow> string" where
  "joinNodes ns = join_with '' '' (map node_string ns)"

fun node_atoms :: "dep_node \<Rightarrow> string list" where
  \<comment> \<open>the \<^verbatim>\<open>Atoms\<close> methods\<close>
  "node_atoms (AtomDep a) = [a]"
| "node_atoms (AllOfGroup ns implicit) = concat (map node_atoms ns)"
| "node_atoms (AnyOfGroup ns) = concat (map node_atoms ns)"
| "node_atoms (XorOfGroup ns) = concat (map node_atoms ns)"
| "node_atoms (AtMostOneOfGroup ns) = concat (map node_atoms ns)"
| "node_atoms (UseConditional flag ns) = concat (map node_atoms ns)"
| "node_atoms (Block a) = [a]"
| "node_atoms (WeakBlock a) = [a]"

definition collectAtoms :: "dep_node list \<Rightarrow> string list" where
  "collectAtoms ns = concat (map node_atoms ns)"

subsection \<open>Parser\<close>

datatype dep_error =
    UnexpectedEnd
  | EmptyToken
  | UnexpectedClose nat
  | EmptyAfterStrong nat
  | ExpectedOpenAfterConditional string
  | EmptyConditionalFlag
  | EmptyAfterWeak nat
  | ExpectedOpen string nat
  | UnterminatedGroup
  | OutOfFuel

fun dep_error_text :: "dep_error \<Rightarrow> string" where
  "dep_error_text UnexpectedEnd = ''unexpected end of input''"
| "dep_error_text EmptyToken = ''empty token in dependency string''"
| "dep_error_text (UnexpectedClose n) = ''unexpected '' @ squote '')'' @ '' at position '' @ show_nat n"
| "dep_error_text (EmptyAfterStrong n) = ''empty atom after '' @ squote ''!!'' @ '' at position '' @ show_nat n"
| "dep_error_text (ExpectedOpenAfterConditional tok) =
     ''expected '' @ squote ''('' @ '' after use conditional '' @ go_quote tok"
| "dep_error_text EmptyConditionalFlag = ''empty USE flag name before '' @ squote ''?''"
| "dep_error_text (EmptyAfterWeak n) = ''empty atom after '' @ squote ''!'' @ '' at position '' @ show_nat n"
| "dep_error_text (ExpectedOpen tok n) =
     ''expected '' @ squote ''('' @ '' after '' @ squote tok @ '' at position '' @ show_nat n"
| "dep_error_text UnterminatedGroup = ''unterminated group: expected '' @ squote '')''"
| "dep_error_text OutOfFuel = []"

definition isSpace :: "char \<Rightarrow> bool" where
  "isSpace b \<longleftrightarrow> b = CHR '' '' \<or> code b = 9 \<or> code b = 10 \<or> code b = 13"

definition skipWS :: "parser \<Rightarrow> parser" where
  "skipWS p = skip (length (takeWhile isSpace (rest p))) p"

fun scan_token :: "nat \<Rightarrow> string \<Rightarrow> string" where
  \<comment> \<open>the token loop, with the number of open brackets\<close>
  "scan_token brackets [] = []"
| "scan_token brackets (c # cs) =
     (if c = CHR ''['' then c # scan_token (brackets + 1) cs
      else if c = CHR '']'' \<and> brackets > 0 then c # scan_token (brackets - 1) cs
      else if brackets = 0 \<and> (isSpace c \<or> c = CHR ''('' \<or> c = CHR '')'') then []
      else c # scan_token brackets cs)"

definition token_text :: "string \<Rightarrow> string" where
  "token_text s =
     (if s = [] then []
      else if hd s = CHR ''('' \<or> hd s = CHR '')'' then [hd s]
      else if HasPrefix s ''||'' then ''||''
      else scan_token 0 s)"

definition readToken :: "parser \<Rightarrow> string \<times> parser" where
  "readToken p0 = (let p = skipWS p0; tok = token_text (rest p) in (tok, skip (length tok) p))"

definition at_open :: "parser \<Rightarrow> bool" where
  \<comment> \<open>not \<^verbatim>\<open>p.pos >= len(p.input) || p.input[p.pos] != '('\<close>\<close>
  "at_open p \<longleftrightarrow> rest p \<noteq> [] \<and> hd (rest p) = CHR ''(''"

fun parseNode :: "nat \<Rightarrow> parser \<Rightarrow> (dep_error, dep_node \<times> parser) result"
  and parseChildren :: "nat \<Rightarrow> parser \<Rightarrow> (dep_error, dep_node list \<times> parser) result"
  and parseGroup :: "nat \<Rightarrow> dep_error \<Rightarrow> parser \<Rightarrow> (dep_error, dep_node list \<times> parser) result" where
  "parseNode 0 p0 = Inl OutOfFuel"
| "parseNode (Suc fuel) p0 =
     (let p1 = skipWS p0
      in if rest p1 = [] then Inl UnexpectedEnd
         else let (tok, p) = readToken p1
           in if tok = [] then Inl EmptyToken
              else if tok = ''||'' then
                (case parseGroup fuel (ExpectedOpen tok (p_pos (skipWS p))) (skipWS p) of
                   Inl e \<Rightarrow> Inl e | Inr (ns, q) \<Rightarrow> Inr (AnyOfGroup ns, q))
              else if tok = ''^^'' then
                (case parseGroup fuel (ExpectedOpen tok (p_pos (skipWS p))) (skipWS p) of
                   Inl e \<Rightarrow> Inl e | Inr (ns, q) \<Rightarrow> Inr (XorOfGroup ns, q))
              else if tok = ''??'' then
                (case parseGroup fuel (ExpectedOpen tok (p_pos (skipWS p))) (skipWS p) of
                   Inl e \<Rightarrow> Inl e | Inr (ns, q) \<Rightarrow> Inr (AtMostOneOfGroup ns, q))
              else if tok = ''('' then
                (case parseChildren fuel p of
                   Inl e \<Rightarrow> Inl e | Inr (ns, q) \<Rightarrow> Inr (AllOfGroup ns False, q))
              else if tok = '')'' then Inl (UnexpectedClose (p_pos p))
              else if HasPrefix tok ''!!'' then
                (if drop 2 tok = [] then Inl (EmptyAfterStrong (p_pos p)) else Inr (WeakBlock (drop 2 tok), p))
              else if HasSuffix tok ''?'' then
                (case parseGroup fuel (ExpectedOpenAfterConditional tok) (skipWS p) of
                   Inl e \<Rightarrow> Inl e
                 | Inr (ns, q) \<Rightarrow>
                     if butlast tok = [] then Inl EmptyConditionalFlag
                     else Inr (UseConditional (butlast tok) ns, q))
              else if HasPrefix tok ''!'' then
                (if drop 1 tok = [] then Inl (EmptyAfterWeak (p_pos p)) else Inr (Block (drop 1 tok), p))
              else Inr (AtomDep tok, p))"
| "parseChildren 0 p0 = Inl OutOfFuel"
| "parseChildren (Suc fuel) p0 =
     (let p = skipWS p0
      in if rest p = [] then Inl UnterminatedGroup
         else if hd (rest p) = CHR '')'' then Inr ([], skip 1 p)
         else (case parseNode fuel p of
             Inl e \<Rightarrow> Inl e
           | Inr (n, q) \<Rightarrow>
               (case parseChildren fuel q of Inl e \<Rightarrow> Inl e | Inr (ns, q') \<Rightarrow> Inr (n # ns, q'))))"
| "parseGroup 0 e p = Inl OutOfFuel"
| "parseGroup (Suc fuel) e p = (if \<not> at_open p then Inl e else parseChildren fuel (skip 1 p))"

fun parseTop_loop :: "nat \<Rightarrow> parser \<Rightarrow> (dep_error, dep_node list) result" where
  "parseTop_loop 0 p = Inl OutOfFuel"
| "parseTop_loop (Suc fuel) p =
     (if rest p = [] then Inr []
      else (case parseNode fuel p of
          Inl e \<Rightarrow> Inl e
        | Inr (n, q) \<Rightarrow>
            (case parseTop_loop fuel (skipWS q) of Inl e \<Rightarrow> Inl e | Inr ns \<Rightarrow> Inr (n # ns))))"

definition dep_fuel :: "parser \<Rightarrow> nat" where
  "dep_fuel p = 3 * length (rest p) + 3"

definition parseTop :: "parser \<Rightarrow> (dep_error, dep_node option) result" where
  "parseTop p0 =
     (let p = skipWS p0
      in if rest p = [] then Inr None
         else (case parseTop_loop (dep_fuel p) p of
             Inl e \<Rightarrow> Inl e | Inr ns \<Rightarrow> Inr (Some (AllOfGroup ns True))))"

definition dep_Parse :: "string \<Rightarrow> (dep_error, dep_node option) result" where
  \<comment> \<open>\<^verbatim>\<open>depstring.Parse\<close>\<close>
  "dep_Parse s =
     (let trimmed = TrimSpace s
      in if trimmed = [] then Inr None else parseTop \<lparr>p_input = trimmed, p_pos = 0\<rparr>)"

end
