(* ===== verification/Depstring_Roundtrip.thy ===== *)
theory Depstring_Roundtrip
  imports Depstring
begin

text \<open>
  The dependency parser of \<^verbatim>\<open>src/internal/depstring/depstring.go\<close>: every step consumes input, so that the fuel
  of the model is never used up; the trees it returns are well formed (\<open>wf_top\<close>); and it reads back the
  rendering of every well-formed tree. The contract \<open>print_parse\<close> then gives the round trip.
\<close>

subsection \<open>The parser consumes input and never runs out of fuel\<close>

declare parseNode.simps [simp del] parseChildren.simps [simp del] parseGroup.simps [simp del] parseTop_loop.simps [simp del]

lemma skipWS_rest: "rest (skipWS p) = dropWhile isSpace (rest p)"
  by (simp add: skipWS_def dropWhile_eq_drop)

lemma skipWS_shorter: "length (rest (skipWS p)) \<le> length (rest p)"
  by (simp add: skipWS_rest length_dropWhile_le)

lemma skipWS_idem [simp]: "skipWS (skipWS p) = skipWS p"
proof -
  have "takeWhile isSpace (rest (skipWS p)) = []"
    using hd_dropWhile [of isSpace "rest p"] by (auto simp: skipWS_rest takeWhile_eq_Nil_iff)
  then show ?thesis unfolding skipWS_def [of "skipWS p"] by (simp add: skip_def)
qed

lemma scan_token_split: "\<exists>t. s = scan_token b s @ t"
  by (induction b s rule: scan_token.induct) auto

lemma token_text_split: "\<exists>t. s = token_text s @ t"
  using scan_token_split [of s 0] by (cases s) (auto simp: token_text_def HasPrefix_iff)

lemma readToken_facts:
  assumes "readToken p0 = (tok, p)"
  shows "tok = token_text (rest (skipWS p0))" "p = skip (length tok) (skipWS p0)"
    "rest (skipWS p0) = tok @ rest p"
proof -
  let ?s = "rest (skipWS p0)"
  show tok: "tok = token_text ?s" "p = skip (length tok) (skipWS p0)"
    using assms by (auto simp: readToken_def Let_def)
  show "?s = tok @ rest p"
    using token_text_split [of ?s] tok by (metis append_eq_conv_conj rest_skip)
qed

lemma readToken_shorter:
  assumes "readToken p0 = (tok, p)" "tok \<noteq> []"
  shows "length (rest p) < length (rest p0)"
proof -
  have "length (rest (skipWS p0)) = length tok + length (rest p)" using readToken_facts(3) [OF assms(1)] by simp
  then show ?thesis using assms(2) skipWS_shorter [of p0] by (cases tok) auto
qed

datatype action = Fail dep_error | Leaf dep_node | Group dep_error "dep_node list \<Rightarrow> dep_node" | Paren

definition token_action :: "string \<Rightarrow> parser \<Rightarrow> action" where
  \<comment> \<open>the switch over the token of \<open>parseNode\<close>\<close>
  "token_action tok p =
     (let open_error = ExpectedOpen tok (p_pos (skipWS p)) in
      if tok = ''||'' then Group open_error AnyOfGroup
      else if tok = ''^^'' then Group open_error XorOfGroup
      else if tok = ''??'' then Group open_error AtMostOneOfGroup
      else if tok = ''('' then Paren
      else if tok = '')'' then Fail (UnexpectedClose (p_pos p))
      else if HasPrefix tok ''!!'' then
        (if drop 2 tok = [] then Fail (EmptyAfterStrong (p_pos p)) else Leaf (WeakBlock (drop 2 tok)))
      else if HasSuffix tok ''?'' then Group (ExpectedOpenAfterConditional tok) (UseConditional (butlast tok))
      else if HasPrefix tok ''!'' then
        (if drop 1 tok = [] then Fail (EmptyAfterWeak (p_pos p)) else Leaf (Block (drop 1 tok)))
      else Leaf (AtomDep tok))"

lemma parseNode_action:
  "parseNode (Suc fuel) p0 =
     (if rest (skipWS p0) = [] then Inl UnexpectedEnd
      else let (tok, p) = readToken (skipWS p0)
        in if tok = [] then Inl EmptyToken
           else case token_action tok p of
               Fail e \<Rightarrow> Inl e
             | Leaf n \<Rightarrow> Inr (n, p)
             | Paren \<Rightarrow> (case parseChildren fuel p of Inl e \<Rightarrow> Inl e | Inr (ns, q) \<Rightarrow> Inr (AllOfGroup ns False, q))
             | Group e mk \<Rightarrow>
                 (case parseGroup fuel e (skipWS p) of
                    Inl e \<Rightarrow> Inl e
                  | Inr (ns, q) \<Rightarrow> if tok = ''?'' then Inl EmptyConditionalFlag else Inr (mk ns, q)))"
proof -
  have q: "HasSuffix tok ''?'' \<Longrightarrow> butlast tok = [] \<longleftrightarrow> tok = ''?''" for tok
    by (auto simp: HasSuffix_iff)
  obtain tok p where t: "readToken (skipWS p0) = (tok, p)" by fastforce
  consider "tok = ''||''" | "tok = ''^^''" | "tok = ''??''" | "tok \<noteq> ''||''" "tok \<noteq> ''^^''" "tok \<noteq> ''??''"
    by blast
  then show ?thesis by cases (simp_all add: t q parseNode.simps token_action_def split: sum.split)
qed

lemma parseNode_cases:
  assumes "parseNode fuel p0 = Inr (n, q)"
  obtains f tok p where "fuel = Suc f" "readToken (skipWS p0) = (tok, p)" "tok \<noteq> []" "length (rest p) < length (rest p0)"
    "token_action tok p = Leaf n \<and> q = p \<or>
     (\<exists>ns. token_action tok p = Paren \<and> parseChildren f p = Inr (ns, q) \<and> n = AllOfGroup ns False) \<or>
     (\<exists>ns e mk. token_action tok p = Group e mk \<and> parseGroup f e (skipWS p) = Inr (ns, q) \<and> tok \<noteq> ''?'' \<and> n = mk ns)"
proof (cases fuel)
  case (Suc f)
  obtain tok p where t: "readToken (skipWS p0) = (tok, p)" by fastforce
  have "tok \<noteq> []" using assms t Suc by (auto simp: parseNode_action split: if_splits)
  moreover from this have "length (rest p) < length (rest p0)"
    using readToken_shorter [OF t] skipWS_shorter [of p0] by simp
  moreover have "token_action tok p = Leaf n \<and> q = p \<or>
     (\<exists>ns. token_action tok p = Paren \<and> parseChildren f p = Inr (ns, q) \<and> n = AllOfGroup ns False) \<or>
     (\<exists>ns e mk. token_action tok p = Group e mk \<and> parseGroup f e (skipWS p) = Inr (ns, q) \<and> tok \<noteq> ''?'' \<and> n = mk ns)"
    using assms t Suc by (auto simp: parseNode_action split: if_splits action.splits sum.splits)
  ultimately show thesis using that Suc t by blast
qed (use assms in \<open>simp add: parseNode.simps\<close>)

lemma parseChildren_cases:
  assumes "parseChildren fuel p0 = Inr (ns, q)"
  obtains f where "fuel = Suc f" "ns = []" "rest (skipWS p0) = CHR '')'' # rest q"
  | f n q' ns' where "fuel = Suc f" "parseNode f (skipWS p0) = Inr (n, q')" "parseChildren f q' = Inr (ns', q)" "ns = n # ns'"
proof (cases fuel)
  case (Suc f)
  show thesis
  proof (cases "hd (rest (skipWS p0)) = CHR '')''")
    case True
    then have "rest (skipWS p0) = CHR '')'' # rest q" "ns = []"
      using assms Suc by (auto simp: parseChildren.simps Let_def neq_Nil_conv split: if_splits)
    then show thesis using that(1) Suc by blast
  next
    case False
    then show thesis
      using assms Suc that(2) by (auto simp: parseChildren.simps Let_def split: if_splits sum.splits)
  qed
qed (use assms in \<open>simp add: parseChildren.simps\<close>)

lemma parseGroup_cases:
  assumes "parseGroup fuel e p = Inr (ns, q)"
  obtains f where "fuel = Suc f" "at_open p" "parseChildren f (skip 1 p) = Inr (ns, q)"
  using assms by (cases fuel) (auto simp: parseGroup.simps split: if_splits)

lemma parse_consumes:
  "(\<forall>p n q. parseNode fuel p = Inr (n, q) \<longrightarrow> length (rest q) < length (rest p)) \<and>
   (\<forall>p ns q. parseChildren fuel p = Inr (ns, q) \<longrightarrow> length (rest q) < length (rest p)) \<and>
   (\<forall>e p ns q. parseGroup fuel e p = Inr (ns, q) \<longrightarrow> length (rest q) < length (rest p))"
proof (induction fuel)
  case 0
  then show ?case by (simp add: parseNode.simps parseChildren.simps parseGroup.simps)
next
  case (Suc fuel)
  have node: "length (rest q) < length (rest p)" if "parseNode (Suc fuel) p = Inr (n, q)" for p n q
    using that
  proof (rule parseNode_cases)
    fix f tok x
    assume f: "Suc fuel = Suc f" and x: "length (rest x) < length (rest p)"
      and act: "token_action tok x = Leaf n \<and> q = x \<or>
       (\<exists>ns. token_action tok x = Paren \<and> parseChildren f x = Inr (ns, q) \<and> n = AllOfGroup ns False) \<or>
       (\<exists>ns e mk. token_action tok x = Group e mk \<and> parseGroup f e (skipWS x) = Inr (ns, q) \<and> tok \<noteq> ''?'' \<and> n = mk ns)"
    from act Suc f have "q = x \<or> length (rest q) < length (rest x) \<or> length (rest q) < length (rest (skipWS x))"
      by blast
    then show ?thesis using x skipWS_shorter [of x] by auto
  qed
  have children: "length (rest q) < length (rest p)" if "parseChildren (Suc fuel) p = Inr (ns, q)" for p ns q
    using that
  proof (rule parseChildren_cases)
    fix f assume "rest (skipWS p) = CHR '')'' # rest q"
    then show ?thesis using skipWS_shorter [of p] by simp
  next
    fix f n q' ns' assume *: "Suc fuel = Suc f" "parseNode f (skipWS p) = Inr (n, q')" "parseChildren f q' = Inr (ns', q)"
    then have "length (rest q) < length (rest q')" "length (rest q') < length (rest (skipWS p))" using Suc by auto
    then show ?thesis using skipWS_shorter [of p] by linarith
  qed
  have "length (rest q) < length (rest p)" if "parseGroup (Suc fuel) e p = Inr (ns, q)" for e p ns q
    using that by (rule parseGroup_cases) (use Suc in fastforce)
  then show ?case using node children by blast
qed

lemma parse_fuel:
  "(\<forall>p. 3 * length (rest p) + 1 \<le> fuel \<longrightarrow> parseNode fuel p \<noteq> Inl OutOfFuel) \<and>
   (\<forall>p. 3 * length (rest p) + 2 \<le> fuel \<longrightarrow> parseChildren fuel p \<noteq> Inl OutOfFuel) \<and>
   (\<forall>e p. 3 * length (rest p) + 1 \<le> fuel \<longrightarrow> e \<noteq> OutOfFuel \<longrightarrow> parseGroup fuel e p \<noteq> Inl OutOfFuel)"
proof (induction fuel)
  case (Suc fuel)
  have node: "parseNode (Suc fuel) p \<noteq> Inl OutOfFuel" if fuel: "3 * length (rest p) + 1 \<le> Suc fuel" for p
  proof -
    obtain tok q where t: "readToken (skipWS p) = (tok, q)" by fastforce
    show ?thesis
    proof (cases "tok = []")
      case False
      then have len: "length (rest q) < length (rest p)"
        using readToken_shorter [OF t] skipWS_shorter [of p] by simp
      then have "parseChildren fuel q \<noteq> Inl OutOfFuel" using Suc fuel by simp
      moreover have "parseGroup fuel e (skipWS q) \<noteq> Inl OutOfFuel" if "e \<noteq> OutOfFuel" for e
        using Suc fuel len skipWS_shorter [of q] that by simp
      moreover have "token_action tok q = Group e mk \<Longrightarrow> e \<noteq> OutOfFuel" "token_action tok q \<noteq> Fail OutOfFuel" for e mk
        by (auto simp: token_action_def Let_def split: if_splits)
      ultimately show ?thesis using t by (auto simp: parseNode_action split: action.splits sum.splits)
    qed (use t in \<open>simp add: parseNode_action\<close>)
  qed
  have children: "parseChildren (Suc fuel) p \<noteq> Inl OutOfFuel" if fuel: "3 * length (rest p) + 2 \<le> Suc fuel" for p
  proof -
    have "parseNode fuel (skipWS p) \<noteq> Inl OutOfFuel" using Suc fuel skipWS_shorter [of p] by simp
    moreover have "parseChildren fuel q \<noteq> Inl OutOfFuel" if "parseNode fuel (skipWS p) = Inr (n, q)" for n q
    proof -
      have "length (rest q) < length (rest (skipWS p))" using parse_consumes [of fuel] that by blast
      then have "3 * length (rest q) + 2 \<le> fuel" using fuel skipWS_shorter [of p] by linarith
      then show ?thesis using Suc by blast
    qed
    ultimately show ?thesis by (simp add: parseChildren.simps Let_def split: sum.split) metis
  qed
  have "parseGroup (Suc fuel) e p \<noteq> Inl OutOfFuel"
    if fuel: "3 * length (rest p) + 1 \<le> Suc fuel" "e \<noteq> OutOfFuel" for e p
  proof (cases "at_open p")
    case True
    then have "length (rest (skip 1 p)) < length (rest p)" by (simp add: at_open_def)
    then have "parseChildren fuel (skip 1 p) \<noteq> Inl OutOfFuel" using Suc fuel by simp
    then show ?thesis using True by (simp add: parseGroup.simps)
  qed (use that in \<open>simp add: parseGroup.simps\<close>)
  then show ?case using node children by blast
qed simp

lemma parseTop_fuel: "3 * length (rest p) + 2 \<le> fuel \<Longrightarrow> parseTop_loop fuel p \<noteq> Inl OutOfFuel"
proof (induction fuel arbitrary: p)
  case (Suc fuel)
  then have "parseNode fuel p \<noteq> Inl OutOfFuel" using parse_fuel [of fuel] by simp
  moreover have "parseTop_loop fuel (skipWS q) \<noteq> Inl OutOfFuel" if "parseNode fuel p = Inr (n, q)" for n q
  proof (rule Suc.IH)
    have "length (rest q) < length (rest p)" using parse_consumes [of fuel] that by blast
    then show "3 * length (rest (skipWS q)) + 2 \<le> fuel" using Suc.prems skipWS_shorter [of q] by simp
  qed
  ultimately show ?case by (auto simp: parseTop_loop.simps split: sum.splits)
qed simp

subsection \<open>Words\<close>

definition plain :: "char \<Rightarrow> bool" where
  \<comment> \<open>no vertical tab or form feed: the white space of \<^verbatim>\<open>isSpace\<close> and of \<^verbatim>\<open>TrimSpace\<close> agree\<close>
  "plain c \<longleftrightarrow> code c \<noteq> 11 \<and> code c \<noteq> 12"

lemma isSpace_code: "isSpace c \<longleftrightarrow> code c = 32 \<or> code c = 9 \<or> code c = 10 \<or> code c = 13"
  using code_inject [of c "CHR '' ''"] by (simp add: isSpace_def code_def del: code_inject)

lemma plain_space: "plain c \<Longrightarrow> ascii_space c \<longleftrightarrow> isSpace c"
  by (auto simp: plain_def ascii_space_def isSpace_code)

fun bracket_depth :: "nat \<Rightarrow> string \<Rightarrow> nat" where
  \<comment> \<open>the bracket counter of the token loop after a text\<close>
  "bracket_depth b [] = b"
| "bracket_depth b (c # cs) =
     bracket_depth (if c = CHR ''['' then b + 1 else if c = CHR '']'' \<and> b > 0 then b - 1 else b) cs"

definition word :: "string \<Rightarrow> bool" where
  "word w \<longleftrightarrow> w \<noteq> [] \<and> scan_token 0 w = w \<and> \<not> HasPrefix w ''||'' \<and> list_all plain w"

definition closed_word :: "string \<Rightarrow> bool" where
  "closed_word w \<longleftrightarrow> word w \<and> bracket_depth 0 w = 0"

definition ends_token :: "string \<Rightarrow> bool" where
  "ends_token t \<longleftrightarrow> t = [] \<or> isSpace (hd t)"

lemma scan_token_append:
  "scan_token b w = w \<Longrightarrow> scan_token b (w @ t) = w @ scan_token (bracket_depth b w) t"
  by (induction w arbitrary: b) (auto split: if_splits)

lemma space_not_bracket: "isSpace c \<Longrightarrow> c \<noteq> CHR ''['' \<and> c \<noteq> CHR '']'' \<and> c \<noteq> CHR ''|'' \<and> c \<noteq> CHR ''('' \<and> c \<noteq> CHR '')''"
  by (auto simp: isSpace_def code_def)

lemma token_text_word:
  assumes "word w" "t = [] \<or> closed_word w \<and> ends_token t"
  shows "token_text (w @ t) = w"
proof -
  have w: "w \<noteq> []" "scan_token 0 w = w" "\<not> HasPrefix w ''||''" using assms(1) by (auto simp: word_def)
  have "scan_token (bracket_depth 0 w) t = []"
    using assms(2) space_not_bracket [of "hd t"] by (cases t) (auto simp: closed_word_def ends_token_def)
  then have "scan_token 0 (w @ t) = w" using scan_token_append [OF w(2), of t] by simp
  moreover have "\<not> HasPrefix (w @ t) ''||''"
  proof (cases w)
    case (Cons c v)
    then show ?thesis using w(3) assms(2) space_not_bracket [of "hd t"]
      by (cases v; cases t) (auto simp: ends_token_def)
  qed (use w(1) in simp)
  moreover have "hd w \<noteq> CHR ''(''" "hd w \<noteq> CHR '')''" using w(1,2) by (cases w; auto)+
  ultimately show ?thesis using w(1) by (simp add: token_text_def)
qed

lemma word_start: "word w \<Longrightarrow> \<not> isSpace (hd w) \<and> hd w \<noteq> CHR ''('' \<and> hd w \<noteq> CHR '')''"
  using space_not_bracket [of "hd w"] by (cases w) (auto simp: word_def split: if_splits)

lemma closed_end_gen:
  "scan_token b w = w \<Longrightarrow> w \<noteq> [] \<Longrightarrow> bracket_depth b w = 0 \<Longrightarrow> \<not> isSpace (last w)"
proof (induction w arbitrary: b)
  case (Cons c w)
  then show ?case using space_not_bracket [of c] by (cases "w = []") (auto split: if_splits)
qed simp

lemma closed_word_end: "closed_word w \<Longrightarrow> \<not> isSpace (last w)"
  using closed_end_gen [of 0 w] by (simp add: closed_word_def word_def)

lemma scan_token_idem:
  "scan_token b (scan_token b s) = scan_token b s \<and> (scan_token b s = s \<or> bracket_depth b (scan_token b s) = 0)"
  by (induction b s rule: scan_token.induct) auto

lemma token_is_word:
  assumes "tok = token_text s" "s \<noteq> []" "\<not> isSpace (hd s)" "list_all plain s"
  shows "tok = ''('' \<or> tok = '')'' \<or> tok = ''||'' \<or> word tok \<and> (tok = s \<or> closed_word tok)"
proof (cases "hd s = CHR ''('' \<or> hd s = CHR '')'' \<or> HasPrefix s ''||''")
  case True
  then show ?thesis using assms(1,2) by (auto simp: token_text_def)
next
  case False
  then have tok: "tok = scan_token 0 s" using assms(1,2) by (auto simp: token_text_def)
  obtain t where t: "s = tok @ t" using scan_token_split [of s 0] tok by metis
  have "tok \<noteq> []" using tok assms(2,3) False by (cases s) auto
  moreover have "\<not> HasPrefix tok ''||''" using False t by (auto simp: HasPrefix_iff)
  moreover have "list_all plain tok" using assms(4) t by simp
  ultimately show ?thesis using scan_token_idem [of 0 s] tok by (auto simp: closed_word_def word_def)
qed

subsection \<open>Well-formed trees\<close>

fun wf_leaf :: "dep_node \<Rightarrow> bool" where
  "wf_leaf (AtomDep a) \<longleftrightarrow> word a \<and> a \<noteq> ''^^'' \<and> a \<noteq> ''??'' \<and> \<not> HasPrefix a ''!'' \<and> \<not> HasSuffix a ''?''"
| "wf_leaf (Block a) \<longleftrightarrow> word (CHR ''!'' # a) \<and> a \<noteq> [] \<and> \<not> HasPrefix a ''!'' \<and> \<not> HasSuffix a ''?''"
| "wf_leaf (WeakBlock a) \<longleftrightarrow> word (''!!'' @ a) \<and> a \<noteq> []"
| "wf_leaf _ \<longleftrightarrow> False"

fun wf_dep :: "dep_node \<Rightarrow> bool" where
  "wf_dep (AllOfGroup ns implicit) \<longleftrightarrow> \<not> implicit \<and> (\<forall>n \<in> set ns. wf_dep n)"
| "wf_dep (AnyOfGroup ns) \<longleftrightarrow> (\<forall>n \<in> set ns. wf_dep n)"
| "wf_dep (XorOfGroup ns) \<longleftrightarrow> (\<forall>n \<in> set ns. wf_dep n)"
| "wf_dep (AtMostOneOfGroup ns) \<longleftrightarrow> (\<forall>n \<in> set ns. wf_dep n)"
| "wf_dep (UseConditional flag ns) \<longleftrightarrow>
     closed_word (flag @ ''?'') \<and> flag \<noteq> [] \<and> flag \<noteq> ''?'' \<and> \<not> HasPrefix flag ''!!'' \<and> (\<forall>n \<in> set ns. wf_dep n)"
| "wf_dep n \<longleftrightarrow> wf_leaf n \<and> closed_word (node_string n)"

lemma HasSuffix_Cons_single: "HasSuffix (c # s) [d] \<longleftrightarrow> (if s = [] then c = d else HasSuffix s [d])"
  by (simp add: HasSuffix_single)

lemma token_action_leaf:
  assumes "token_action tok p = Leaf n" "word tok"
  shows "node_string n = tok \<and> wf_leaf n"
proof -
  consider (weak) s where "tok = ''!!'' @ s" | (bang) s where "tok = CHR ''!'' # s" "\<not> HasPrefix s ''!''"
    | (other) "\<not> HasPrefix tok ''!''"
    by (cases tok; cases "tl tok") auto
  then show ?thesis
  proof cases
    case weak
    then show ?thesis using assms by (auto simp: token_action_def Let_def split: if_splits)
  next
    case bang
    then have "\<not> HasPrefix tok ''!!''" "HasPrefix tok ''!''" by auto
    then show ?thesis using assms bang by (auto simp: token_action_def Let_def HasSuffix_Cons_single split: if_splits)
  next
    case other
    then have "\<not> HasPrefix tok ''!!''" by (cases tok) auto
    then have "n = AtomDep tok" "tok \<noteq> ''^^''" "tok \<noteq> ''??''" "\<not> HasSuffix tok ''?''"
      using other assms(1) by (simp_all add: token_action_def Let_def split: if_splits)
    then show ?thesis using other assms(2) by simp
  qed
qed

lemma word_not_special: "word w \<Longrightarrow> w \<noteq> ''||'' \<and> w \<noteq> ''('' \<and> w \<noteq> '')''"
  using word_start [of w] by (auto simp: word_def)

lemma leaf_token_action: "wf_leaf n \<Longrightarrow> token_action (node_string n) p = Leaf n \<and> word (node_string n)"
proof (induction n rule: wf_leaf.induct)
  case (1 a)
  have "\<not> HasPrefix a ''!!''" using 1 by (cases a) auto
  then show ?case using 1 word_not_special [of a] by (simp add: token_action_def Let_def)
next
  case (2 a)
  then show ?case by (auto simp: token_action_def Let_def HasSuffix_Cons_single)
next
  case (3 a)
  then show ?case by (auto simp: token_action_def Let_def)
qed auto

subsection \<open>The parser reads back printed trees\<close>

lemma skipWS_id: "rest p = [] \<or> \<not> isSpace (hd (rest p)) \<Longrightarrow> skipWS p = p"
  by (cases "rest p") (auto simp: skipWS_def skip_def)

lemma group_text_spaced:
  "group_text pre ws = pre @ ''('' @ concat (map (\<lambda>w. CHR '' '' # w) ws) @ '' )''"
proof -
  have "CHR '' '' # join_with '' '' ws = concat (map (\<lambda>w. CHR '' '' # w) ws)" if "ws \<noteq> []" for ws
    using that by (induction "'' ''" ws rule: join_with.induct) auto
  from this [of ws] show ?thesis by (cases ws) (auto simp: group_text_def)
qed

definition reads :: "dep_node \<Rightarrow> bool" where
  \<comment> \<open>\<open>parseNode\<close> reads the text of the node back\<close>
  "reads n \<longleftrightarrow> (\<forall>f p t. rest p = node_string n @ t \<longrightarrow> ends_token t \<longrightarrow> 3 * length (rest p) + 1 \<le> f \<longrightarrow>
     (\<exists>q. parseNode f p = Inr (n, q) \<and> rest q = t))"

definition starts_node :: "string \<Rightarrow> bool" where
  "starts_node s \<longleftrightarrow> s \<noteq> [] \<and> \<not> isSpace (hd s) \<and> hd s \<noteq> CHR '')''"

lemma word_starts: "word w \<Longrightarrow> starts_node w"
  using word_start by (auto simp: starts_node_def word_def)

lemma wf_dep_starts: "wf_dep n \<Longrightarrow> starts_node (node_string n)"
proof (cases n)
  case (UseConditional flag ns)
  assume "wf_dep n"
  then have "word (flag @ ''?'')" "flag \<noteq> []" using UseConditional by (auto simp: closed_word_def)
  then show ?thesis using UseConditional word_start [of "flag @ ''?''"]
    by (simp add: group_text_def starts_node_def)
next
  case (AtomDep a)
  assume "wf_dep n"
  then show ?thesis using AtomDep by (auto intro: word_starts)
qed (auto simp: group_text_def starts_node_def isSpace_def code_def)

lemma space_char [simp]: "isSpace (CHR '' '')" "\<not> isSpace (CHR '')'')" "\<not> isSpace (CHR ''('')"
  by (simp_all add: isSpace_def code_def)

lemma children_print:
  assumes "\<forall>n \<in> set ns. reads n \<and> starts_node (node_string n)"
    "rest p = concat (map (\<lambda>n. CHR '' '' # node_string n) ns) @ '' )'' @ t" "3 * length (rest p) + 2 \<le> f"
  shows "\<exists>q. parseChildren f p = Inr (ns, q) \<and> rest q = t"
  using assms
proof (induction ns arbitrary: f p)
  case Nil
  then obtain f' where f: "f = Suc f'" by (cases f) auto
  have "rest (skipWS p) = CHR '')'' # t" using Nil by (simp add: skipWS_rest)
  then show ?case using f by (auto simp: parseChildren.simps Let_def)
next
  case (Cons n ns)
  obtain f' where f: "f = Suc f'" using Cons.prems(3) by (cases f) auto
  let ?t = "concat (map (\<lambda>n. CHR '' '' # node_string n) ns) @ '' )'' @ t"
  have start: "starts_node (node_string n)" and reads: "reads n" using Cons.prems(1) by auto
  have rp: "rest p = CHR '' '' # node_string n @ ?t" using Cons.prems(2) by simp
  have r: "rest (skipWS p) = node_string n @ ?t"
    using start by (simp add: skipWS_rest rp starts_node_def neq_Nil_conv) auto
  have "ends_token ?t" by (cases ns) (auto simp: ends_token_def)
  moreover have "3 * length (rest (skipWS p)) + 1 \<le> f'"
    using Cons.prems(3) f skipWS_shorter [of p] by linarith
  ultimately obtain q where q: "parseNode f' (skipWS p) = Inr (n, q)" "rest q = ?t"
    using reads r unfolding reads_def by blast
  have "3 * length (rest q) + 2 \<le> f'" using q(2) rp Cons.prems(3) f by simp
  then obtain q' where q': "parseChildren f' q = Inr (ns, q')" "rest q' = t"
    using Cons.IH [of q f'] Cons.prems(1) q(2) by auto
  have "rest (skipWS p) \<noteq> []" "hd (rest (skipWS p)) \<noteq> CHR '')''" using r start by (auto simp: starts_node_def)
  then show ?case using q(1) q' f by (auto simp: parseChildren.simps Let_def)
qed

lemma group_reads:
  assumes kids: "\<forall>n \<in> set ns. reads n \<and> starts_node (node_string n)"
    and tok: "tok = ''||'' \<or> closed_word tok" "tok \<noteq> ''?''"
    and act: "\<And>p. \<exists>e. token_action tok p = Group e mk"
    and shape: "node_string (mk ns) = group_text (tok @ '' '') (map node_string ns)"
  shows "reads (mk ns)"
  unfolding reads_def
proof (intro allI impI)
  fix f p t
  assume r: "rest p = node_string (mk ns) @ t" and fuel: "3 * length (rest p) + 1 \<le> f"
  let ?body = "concat (map (\<lambda>n. CHR '' '' # node_string n) ns) @ '' )'' @ t"
  have rp: "rest p = tok @ '' ('' @ ?body"
    using r shape by (simp add: group_text_spaced comp_def)
  have "starts_node tok" using tok(1) word_starts by (auto simp: closed_word_def starts_node_def isSpace_def code_def)
  then have p: "skipWS p = p" "rest p \<noteq> []" "tok \<noteq> []" using rp by (auto simp: starts_node_def intro: skipWS_id)
  have "token_text (rest p) = tok"
    using tok(1) rp token_text_word [of tok "'' ('' @ ?body"]
    by (auto simp: token_text_def closed_word_def ends_token_def)
  then have read: "readToken (skipWS p) = (tok, skip (length tok) p)" using p(1) by (simp add: readToken_def Let_def)
  let ?q = "skipWS (skip (length tok) p)"
  have rq: "rest ?q = CHR ''('' # ?body" by (simp add: skipWS_rest rp)
  obtain f' where f: "f = Suc f'" using fuel by (cases f) auto
  obtain f'' where f': "f' = Suc f''" using fuel f rp by (cases f') auto
  have "3 * length (rest (skip 1 ?q)) + 2 \<le> f''" using fuel f f' by (simp add: rq) (simp add: rp)
  then obtain q where q: "parseChildren f'' (skip 1 ?q) = Inr (ns, q)" "rest q = t"
    using children_print [OF kids, of "skip 1 ?q" t f''] rq by auto
  obtain e where "token_action tok (skip (length tok) p) = Group e mk" using act by blast
  moreover have "parseGroup f' e ?q = Inr (ns, q)" for e using q(1) rq f' by (simp add: parseGroup.simps at_open_def)
  ultimately have "parseNode f p = Inr (mk ns, q)"
    using read p f tok(2) by (simp add: parseNode_action)
  then show "\<exists>q. parseNode f p = Inr (mk ns, q) \<and> rest q = t" using q(2) by blast
qed

lemma leaf_parse:
  assumes "wf_leaf n" "rest p = node_string n @ t" "t = [] \<or> closed_word (node_string n) \<and> ends_token t" "0 < f"
  shows "\<exists>q. parseNode f p = Inr (n, q) \<and> rest q = t"
proof -
  let ?tok = "node_string n"
  have tok: "word ?tok" "token_action ?tok q = Leaf n" for q using leaf_token_action [OF assms(1)] by auto
  have "starts_node ?tok" using tok(1) by (rule word_starts)
  then have p: "skipWS p = p" "rest p \<noteq> []" "?tok \<noteq> []" using assms(2) by (auto simp: starts_node_def intro: skipWS_id)
  have "token_text (rest p) = ?tok" using token_text_word [OF tok(1) assms(3)] assms(2) by simp
  then have "readToken (skipWS p) = (?tok, skip (length ?tok) p)" using p(1) by (simp add: readToken_def Let_def)
  moreover obtain f' where "f = Suc f'" using assms(4) by (cases f) auto
  ultimately have "parseNode f p = Inr (n, skip (length ?tok) p)" using p tok(2) by (simp add: parseNode_action)
  then show ?thesis using assms(2) by simp
qed

lemma paren_reads:
  assumes "\<forall>n \<in> set ns. reads n \<and> starts_node (node_string n)"
  shows "reads (AllOfGroup ns False)"
  unfolding reads_def
proof (intro allI impI)
  fix f p t
  assume r: "rest p = node_string (AllOfGroup ns False) @ t" and fuel: "3 * length (rest p) + 1 \<le> f"
  let ?body = "concat (map (\<lambda>n. CHR '' '' # node_string n) ns) @ '' )'' @ t"
  have rp: "rest p = CHR ''('' # ?body" using r by (simp add: group_text_spaced comp_def)
  then have p: "skipWS p = p" by (intro skipWS_id) simp
  have read: "readToken p = (''('', skip 1 p)" using rp p by (simp add: readToken_def token_text_def)
  obtain f' where f: "f = Suc f'" using fuel by (cases f) auto
  have "3 * length (rest (skip 1 p)) + 2 \<le> f'" using fuel f by (simp add: rp)
  then obtain q where "parseChildren f' (skip 1 p) = Inr (ns, q)" "rest q = t"
    using children_print [OF assms, of "skip 1 p" t f'] rp by auto
  moreover have "token_action ''('' x = Paren" for x by (simp add: token_action_def)
  ultimately show "\<exists>q. parseNode f p = Inr (AllOfGroup ns False, q) \<and> rest q = t"
    using read p f rp by (simp add: parseNode_action)
qed

lemma operator_words: "closed_word ''^^''" "closed_word ''??''"
  by (simp_all add: closed_word_def word_def plain_def isSpace_def code_def)

lemma wf_dep_reads: "wf_dep n \<Longrightarrow> reads n"
proof (induction n)
  case (AllOfGroup ns implicit)
  then show ?case by (auto intro!: paren_reads wf_dep_starts)
next
  case (AnyOfGroup ns)
  then have "\<forall>n \<in> set ns. reads n \<and> starts_node (node_string n)" using wf_dep_starts by auto
  then show ?case by (rule group_reads [where tok = "''||''"]) (auto simp: token_action_def)
next
  case (XorOfGroup ns)
  then have "\<forall>n \<in> set ns. reads n \<and> starts_node (node_string n)" using wf_dep_starts by auto
  then show ?case by (rule group_reads [where tok = "''^^''"]) (auto simp: token_action_def operator_words)
next
  case (AtMostOneOfGroup ns)
  then have "\<forall>n \<in> set ns. reads n \<and> starts_node (node_string n)" using wf_dep_starts by auto
  then show ?case by (rule group_reads [where tok = "''??''"]) (auto simp: token_action_def operator_words)
next
  case (UseConditional flag ns)
  then have kids: "\<forall>n \<in> set ns. reads n \<and> starts_node (node_string n)" using wf_dep_starts by auto
  let ?tok = "flag @ ''?''"
  have flag: "closed_word ?tok" "flag \<noteq> []" "flag \<noteq> ''?''" "\<not> HasPrefix flag ''!!''" using UseConditional.prems by auto
  have "\<not> HasPrefix ?tok ''!!''" using flag(2,4) by (cases flag; cases "tl flag") auto
  moreover have "HasSuffix ?tok ''?''" by (rule HasSuffix_append)
  moreover have "?tok \<noteq> ''||''" "?tok \<noteq> ''^^''" "?tok \<noteq> ''??''" "?tok \<noteq> ''(''" "?tok \<noteq> '')''"
    using flag(2,3) by (cases flag rule: rev_cases; auto simp: append_eq_Cons_conv)+
  ultimately have "\<exists>e. token_action ?tok p = Group e (UseConditional flag)" for p
    by (simp add: token_action_def Let_def)
  then show ?case by (intro group_reads [OF kids, where tok = ?tok]) (use flag in auto)
qed (auto simp: reads_def intro!: leaf_parse)

subsection \<open>Whole dependency strings\<close>

definition wf_top :: "dep_node list \<Rightarrow> bool" where
  \<comment> \<open>only the last word may leave a bracket open\<close>
  "wf_top ns \<longleftrightarrow> ns \<noteq> [] \<and> (\<forall>n \<in> set (butlast ns). wf_dep n) \<and> (wf_dep (last ns) \<or> wf_leaf (last ns)) \<and>
     \<not> isSpace (last (node_string (last ns)))"

lemma wf_top_Cons: "ns \<noteq> [] \<Longrightarrow> wf_top (n # ns) \<longleftrightarrow> wf_dep n \<and> wf_top ns"
  by (auto simp: wf_top_def)

lemma leaf_starts: "wf_leaf n \<Longrightarrow> starts_node (node_string n)"
  using leaf_token_action word_starts by blast

lemma wf_top_starts: "wf_top ns \<Longrightarrow> starts_node (node_string (hd ns))"
  using wf_dep_starts leaf_starts by (cases ns rule: list.exhaust; cases "tl ns") (auto simp: wf_top_def)

lemma joinNodes_Cons: "ns \<noteq> [] \<Longrightarrow> joinNodes (n # ns) = node_string n @ CHR '' '' # joinNodes ns"
  by (cases ns) (simp_all add: joinNodes_def)

lemma joinNodes_starts: "ns \<noteq> [] \<Longrightarrow> starts_node (node_string (hd ns)) \<Longrightarrow> starts_node (joinNodes ns)"
  by (cases ns rule: list.exhaust; cases "tl ns") (auto simp: joinNodes_def starts_node_def)

lemma joinNodes_last: "ns \<noteq> [] \<Longrightarrow> node_string (last ns) \<noteq> [] \<Longrightarrow> last (joinNodes ns) = last (node_string (last ns)) \<and> joinNodes ns \<noteq> []"
proof (induction ns)
  case (Cons n ns)
  then show ?case by (cases "ns = []") (simp_all add: joinNodes_Cons, simp add: joinNodes_def)
qed simp

lemma parseTop_print:
  "wf_top ns \<Longrightarrow> rest p = joinNodes ns \<Longrightarrow> 3 * length (rest p) + 2 \<le> f \<Longrightarrow> parseTop_loop f p = Inr ns"
proof (induction ns arbitrary: p f)
  case (Cons n ns)
  obtain f' where f: "f = Suc f'" using Cons.prems(3) by (cases f) auto
  have ne: "rest p \<noteq> []"
    using joinNodes_starts [of "n # ns"] wf_top_starts [OF Cons.prems(1)] Cons.prems(2) by (auto simp: starts_node_def)
  then have "0 < length (rest p)" by simp
  then obtain g where g: "f' = Suc g" using Cons.prems(3) f by (cases f') auto
  have fuel: "3 * length (rest p) + 1 \<le> f'" using Cons.prems(3) f by simp
  show ?case
  proof (cases "ns = []")
    case True
    then have r: "rest p = node_string n @ []" using Cons.prems(2) by (simp add: joinNodes_def)
    have "\<exists>q. parseNode f' p = Inr (n, q) \<and> rest q = []"
    proof (cases "wf_leaf n")
      case leaf: True
      show ?thesis using leaf_parse [OF leaf r] g by simp
    next
      case False
      then have "reads n" using Cons.prems(1) True by (auto simp: wf_top_def wf_dep_reads)
      moreover have "ends_token []" by (simp add: ends_token_def)
      ultimately show ?thesis using r fuel unfolding reads_def by blast
    qed
    then obtain q where q: "parseNode f' p = Inr (n, q)" "rest q = []" by blast
    then have "rest (skipWS q) = []" by (simp add: skipWS_rest)
    then have "parseTop_loop f' (skipWS q) = Inr []" using g by (simp add: parseTop_loop.simps)
    then show ?thesis using q(1) True ne f by (simp add: parseTop_loop.simps)
  next
    case False
    have wf: "wf_dep n" "wf_top ns" using Cons.prems(1) wf_top_Cons [OF False] by auto
    have r: "rest p = node_string n @ CHR '' '' # joinNodes ns" using Cons.prems(2) joinNodes_Cons [OF False] by simp
    moreover have "ends_token (CHR '' '' # joinNodes ns)" by (simp add: ends_token_def)
    ultimately obtain q where q: "parseNode f' p = Inr (n, q)" "rest q = CHR '' '' # joinNodes ns"
      using wf_dep_reads [OF wf(1)] fuel unfolding reads_def by blast
    have "starts_node (joinNodes ns)" using False wf_top_starts [OF wf(2)] by (rule joinNodes_starts)
    then have rq: "rest (skipWS q) = joinNodes ns"
      using q(2) by (cases "joinNodes ns") (auto simp: skipWS_rest starts_node_def)
    have "3 * length (rest (skipWS q)) + 2 \<le> f'" using rq r fuel by simp
    then have "parseTop_loop f' (skipWS q) = Inr ns" using Cons.IH wf(2) rq by blast
    then show ?thesis using q(1) ne f by (simp add: parseTop_loop.simps)
  qed
qed (simp add: wf_top_def)

subsection \<open>Parsed trees are well formed\<close>

definition plain_parser :: "parser \<Rightarrow> bool" where
  "plain_parser p \<longleftrightarrow> list_all plain (p_input p)"

lemma skip_input [simp]: "p_input (skip n p) = p_input p" "p_input (skipWS p) = p_input p"
  by (simp_all add: skip_def skipWS_def)

lemma plain_rest: "plain_parser p \<Longrightarrow> list_all plain (rest p)"
  by (auto simp: plain_parser_def rest_def list_all_iff dest: in_set_dropD)

lemma node_token:
  assumes "readToken (skipWS p0) = (tok, p)" "tok \<noteq> []" "plain_parser p0"
  shows "tok = ''('' \<or> tok = '')'' \<or> tok = ''||'' \<or> word tok \<and> (rest p = [] \<or> closed_word tok)"
    and "p_input p = p_input p0" "rest (skipWS p0) = tok @ rest p"
proof -
  note r = readToken_facts [OF assms(1), unfolded skipWS_idem]
  show "p_input p = p_input p0" using r(2) by simp
  show "rest (skipWS p0) = tok @ rest p" by (rule r(3))
  have "rest (skipWS p0) \<noteq> []" using assms(2) by (simp only: r(3)) simp
  moreover from this have "\<not> isSpace (hd (rest (skipWS p0)))"
    unfolding skipWS_rest by (rule hd_dropWhile)
  moreover have "list_all plain (rest (skipWS p0))" using assms(3) by (intro plain_rest) (simp add: plain_parser_def)
  ultimately have "tok = ''('' \<or> tok = '')'' \<or> tok = ''||'' \<or> word tok \<and> (tok = rest (skipWS p0) \<or> closed_word tok)"
    using token_is_word [OF r(1)] by simp
  then show "tok = ''('' \<or> tok = '')'' \<or> tok = ''||'' \<or> word tok \<and> (rest p = [] \<or> closed_word tok)"
    using r(3) by (metis append_self_conv)
qed

lemma group_action:
  assumes "token_action tok p = Group e mk" "tok \<noteq> ''?''" "tok = ''||'' \<or> closed_word tok" "\<forall>n \<in> set ns. wf_dep n"
  shows "wf_dep (mk ns)"
proof -
  consider "mk = AnyOfGroup" | "mk = XorOfGroup" | "mk = AtMostOneOfGroup"
    | "mk = UseConditional (butlast tok)" "HasSuffix tok ''?''" "tok \<noteq> ''??''" "\<not> HasPrefix tok ''!!''" "tok \<noteq> ''||''"
    using assms(1) by (auto simp: token_action_def Let_def split: if_splits)
  then show ?thesis
  proof cases
    case 4
    then have tok: "tok = butlast tok @ ''?''" by (auto simp: HasSuffix_iff)
    then have "butlast tok \<noteq> []" "butlast tok \<noteq> ''?''" using 4(3) assms(2) by (metis append_Nil append_Cons)+
    moreover have "\<not> HasPrefix (butlast tok) ''!!''" using 4(4) tok HasPrefix_iff by (metis append_assoc)
    ultimately show ?thesis using 4 tok assms(3,4) by auto
  qed (use assms(4) in simp_all)
qed

lemma parse_wf_nodes:
  "(\<forall>p n q. parseNode f p = Inr (n, q) \<longrightarrow> plain_parser p \<longrightarrow>
      p_input q = p_input p \<and> (wf_dep n \<or> wf_leaf n \<and> rest q = [] \<and> (\<exists>u. rest p = u @ node_string n))) \<and>
   (\<forall>p ns q. parseChildren f p = Inr (ns, q) \<longrightarrow> plain_parser p \<longrightarrow> p_input q = p_input p \<and> (\<forall>n \<in> set ns. wf_dep n)) \<and>
   (\<forall>e p ns q. parseGroup f e p = Inr (ns, q) \<longrightarrow> plain_parser p \<longrightarrow> p_input q = p_input p \<and> (\<forall>n \<in> set ns. wf_dep n))"
proof (induction f)
  case 0
  then show ?case by (simp add: parseNode.simps parseChildren.simps parseGroup.simps)
next
  case (Suc f)
  have node: "p_input q = p_input p0 \<and> (wf_dep n \<or> wf_leaf n \<and> rest q = [] \<and> (\<exists>u. rest p0 = u @ node_string n))"
    if "parseNode (Suc f) p0 = Inr (n, q)" "plain_parser p0" for p0 n q
    using that(1)
  proof (rule parseNode_cases)
    fix f' tok p
    assume f: "Suc f = Suc f'" and t: "readToken (skipWS p0) = (tok, p)" "tok \<noteq> []"
      and act: "token_action tok p = Leaf n \<and> q = p \<or>
       (\<exists>ns. token_action tok p = Paren \<and> parseChildren f' p = Inr (ns, q) \<and> n = AllOfGroup ns False) \<or>
       (\<exists>ns e mk. token_action tok p = Group e mk \<and> parseGroup f' e (skipWS p) = Inr (ns, q) \<and> tok \<noteq> ''?'' \<and> n = mk ns)"
    note tok = node_token [OF t that(2)]
    have pl: "plain_parser p" "plain_parser (skipWS p)" using that(2) tok(2) by (simp_all add: plain_parser_def)
    from act show ?thesis
    proof (elim disjE exE conjE)
      assume a: "token_action tok p = Leaf n" "q = p"
      then have "word tok" using tok(1) by (auto simp: token_action_def split: if_splits)
      then have "node_string n = tok" "wf_leaf n" using token_action_leaf [OF a(1)] by auto
      moreover have "wf_dep n" if "closed_word tok" using calculation that by (cases n) auto
      moreover obtain u where "rest p0 = u @ rest (skipWS p0)"
        by (metis skipWS_rest takeWhile_dropWhile_id)
      ultimately show ?thesis using tok a(2) \<open>word tok\<close> token_action_def [of tok p]
        by (auto simp: word_not_special)
    next
      fix ns assume "parseChildren f' p = Inr (ns, q)" "n = AllOfGroup ns False"
      then show ?thesis using Suc f pl(1) tok(2) by auto
    next
      fix ns e mk
      assume a: "token_action tok p = Group e mk" "parseGroup f' e (skipWS p) = Inr (ns, q)" "tok \<noteq> ''?''" "n = mk ns"
      then have kids: "\<forall>n \<in> set ns. wf_dep n" "p_input q = p_input p0" using Suc f pl(2) tok(2) by auto
      from a(2) have "at_open (skipWS p)" by (auto elim: parseGroup_cases)
      then have "rest p \<noteq> []" by (auto simp: at_open_def skipWS_rest)
      moreover have "tok \<noteq> ''(''" "tok \<noteq> '')''" using a(1) by (auto simp: token_action_def)
      ultimately have "tok = ''||'' \<or> closed_word tok" using tok(1) by auto
      then show ?thesis using group_action [OF a(1,3) _ kids(1)] kids(2) a(4) by simp
    qed
  qed
  have children: "p_input q = p_input p \<and> (\<forall>n \<in> set ns. wf_dep n)"
    if "parseChildren (Suc f) p = Inr (ns, q)" "plain_parser p" for p ns q
    using that(1)
  proof (rule parseChildren_cases)
    fix f' assume "Suc f = Suc f'" "ns = []" "rest (skipWS p) = CHR '')'' # rest q"
    moreover from this have "q = skip 1 (skipWS p)"
      using that(1) by (simp add: parseChildren.simps Let_def)
    ultimately show ?thesis by simp
  next
    fix f' n q' ns'
    assume *: "Suc f = Suc f'" "parseNode f' (skipWS p) = Inr (n, q')" "parseChildren f' q' = Inr (ns', q)" "ns = n # ns'"
    have "plain_parser (skipWS p)" using that(2) by (simp add: plain_parser_def)
    then have n: "p_input q' = p_input p" "wf_dep n \<or> rest q' = []" using Suc *(1,2) by auto
    have "length (rest q) < length (rest q')" using parse_consumes [of f'] *(3) by blast
    then have "rest q' \<noteq> []" by auto
    moreover have "plain_parser q'" using that(2) n(1) by (simp add: plain_parser_def)
    ultimately show ?thesis using Suc * n by auto
  qed
  have "p_input q = p_input p \<and> (\<forall>n \<in> set ns. wf_dep n)"
    if "parseGroup (Suc f) e p = Inr (ns, q)" "plain_parser p" for e p ns q
    using that(1)
  proof (rule parseGroup_cases)
    fix f' assume "Suc f = Suc f'" "parseChildren f' (skip 1 p) = Inr (ns, q)"
    moreover have "plain_parser (skip 1 p)" using that(2) by (simp add: plain_parser_def)
    ultimately show ?thesis using Suc by auto
  qed
  then show ?case using node children by blast
qed

lemma word_plain: "word w \<Longrightarrow> plain (hd w) \<and> plain (last w) \<and> w \<noteq> []"
  by (simp add: word_def list_all_iff)

lemma wf_dep_edges:
  assumes "wf_dep n"
  shows "node_string n \<noteq> []" "\<not> ascii_space (hd (node_string n))" "\<not> ascii_space (last (node_string n))"
proof -
  have word: "w \<noteq> [] \<and> \<not> ascii_space (hd w) \<and> \<not> ascii_space (last w)" if "closed_word w" for w
    using that word_plain [of w] word_start [of w] closed_word_end [of w] plain_space
    by (auto simp: closed_word_def)
  have "node_string n \<noteq> [] \<and> \<not> ascii_space (hd (node_string n)) \<and> \<not> ascii_space (last (node_string n))"
  proof (cases n)
    case (UseConditional flag ns)
    then have "flag \<noteq> []" "\<not> ascii_space (hd (flag @ ''?''))" using assms word [of "flag @ ''?''"] by auto
    then show ?thesis using UseConditional by (simp add: group_text_def ascii_space_def code_def)
  next
    case (AtomDep a) then show ?thesis using assms word [of "node_string n"] by simp
  next
    case (Block a) then show ?thesis using assms word [of "node_string n"] by simp
  next
    case (WeakBlock a) then show ?thesis using assms word [of "node_string n"] by simp
  qed (use assms in \<open>auto simp: group_text_def ascii_space_def code_def\<close>)
  then show "node_string n \<noteq> []" "\<not> ascii_space (hd (node_string n))" "\<not> ascii_space (last (node_string n))" by auto
qed

lemma leaf_edges:
  assumes "wf_leaf n"
  shows "node_string n \<noteq> []" "\<not> ascii_space (hd (node_string n))"
    "ascii_space (last (node_string n)) \<longleftrightarrow> isSpace (last (node_string n))"
  using leaf_token_action [OF assms, of undefined] word_plain [of "node_string n"] word_start [of "node_string n"]
    plain_space by auto

lemma parseTop_wf:
  "parseTop_loop f p = Inr ns \<Longrightarrow> plain_parser p \<Longrightarrow> rest p \<noteq> [] \<Longrightarrow> \<not> isSpace (last (p_input p)) \<Longrightarrow> wf_top ns"
proof (induction f arbitrary: p ns)
  case (Suc f)
  obtain n q ns' where p: "parseNode f p = Inr (n, q)" "parseTop_loop f (skipWS q) = Inr ns'" "ns = n # ns'"
    using Suc.prems(1,3) by (auto simp: parseTop_loop.simps split: sum.splits)
  have n: "p_input q = p_input p" "wf_dep n \<or> wf_leaf n \<and> rest q = [] \<and> (\<exists>u. rest p = u @ node_string n)"
    using parse_wf_nodes [of f] p(1) Suc.prems(2) by auto
  show ?case
  proof (cases "rest (skipWS q) = []")
    case True
    then have "ns' = []" using p(2) by (cases f) (auto simp: parseTop_loop.simps)
    moreover have "\<not> isSpace (last (node_string n))"
    proof (cases "wf_dep n")
      case True
      then show ?thesis using wf_dep_edges(3) [of n] by (auto simp: ascii_space_def isSpace_code)
    next
      case False
      then have "last (rest p) = last (node_string n)" using n leaf_edges(1) [of n] by auto
      moreover have "last (rest p) = last (p_input p)"
        using Suc.prems(3) unfolding rest_def by (intro last_drop) simp
      ultimately show ?thesis using Suc.prems(4) by simp
    qed
    ultimately show ?thesis using n p(3) by (auto simp: wf_top_def)
  next
    case False
    then have "rest q \<noteq> []" by (auto simp: skipWS_rest)
    then have "wf_dep n" using n by blast
    moreover have "wf_top ns'"
      using Suc.IH [OF p(2)] Suc.prems(2,4) False n(1) by (simp add: plain_parser_def)
    moreover from this have "ns' \<noteq> []" by (simp add: wf_top_def)
    ultimately show ?thesis using p(3) wf_top_Cons by blast
  qed
qed (simp add: parseTop_loop.simps)

lemma TrimSpace_id: "s = [] \<or> \<not> ascii_space (hd s) \<and> \<not> ascii_space (last s) \<Longrightarrow> TrimSpace s = s"
proof -
  have drop: "dropWhile P t = t" if "t = [] \<or> \<not> P (hd t)" for P and t :: string using that by (cases t) auto
  assume "s = [] \<or> \<not> ascii_space (hd s) \<and> \<not> ascii_space (last s)"
  then show ?thesis by (cases "s = []") (simp_all add: TrimSpace_def drop hd_rev)
qed

lemma TrimSpace_last: "TrimSpace s \<noteq> [] \<Longrightarrow> \<not> ascii_space (last (TrimSpace s))"
  by (simp add: TrimSpace_def last_rev hd_dropWhile)

lemma TrimSpace_set: "set (TrimSpace s) \<subseteq> set s"
  by (auto simp: TrimSpace_def dest!: set_dropWhileD)

lemma wf_top_trimmed: "wf_top ns \<Longrightarrow> TrimSpace (joinNodes ns) = joinNodes ns \<and> joinNodes ns \<noteq> [] \<and> \<not> isSpace (hd (joinNodes ns))"
proof -
  assume wf: "wf_top ns"
  then have ns: "ns \<noteq> []" by (simp add: wf_top_def)
  have last: "node_string (last ns) \<noteq> []" "\<not> ascii_space (last (node_string (last ns)))"
    using wf wf_dep_edges [of "last ns"] leaf_edges [of "last ns"] by (auto simp: wf_top_def)
  have "wf_dep (hd ns) \<or> wf_leaf (hd ns)" using wf by (cases ns rule: list.exhaust; cases "tl ns") (auto simp: wf_top_def)
  then have first: "node_string (hd ns) \<noteq> []" "\<not> ascii_space (hd (node_string (hd ns)))"
    using wf_dep_edges [of "hd ns"] leaf_edges [of "hd ns"] by auto
  have "hd (joinNodes ns) = hd (node_string (hd ns))"
    using ns first(1) by (cases ns rule: list.exhaust; cases "tl ns") (auto simp: joinNodes_def)
  moreover have "starts_node (joinNodes ns)" using ns wf_top_starts [OF wf] by (rule joinNodes_starts)
  ultimately show ?thesis using joinNodes_last [OF ns last(1)] last(2) first(2) TrimSpace_id [of "joinNodes ns"]
    by (auto simp: starts_node_def)
qed

lemma dep_Parse_wf:
  assumes "dep_Parse s = Inr (Some n)" "list_all plain s"
  shows "\<exists>ns. n = AllOfGroup ns True \<and> wf_top ns"
proof -
  let ?p = "\<lparr>p_input = TrimSpace s, p_pos = 0\<rparr>"
  obtain ns where ns: "parseTop_loop (dep_fuel (skipWS ?p)) (skipWS ?p) = Inr ns" "n = AllOfGroup ns True"
      "rest (skipWS ?p) \<noteq> []" "TrimSpace s \<noteq> []"
    using assms(1) by (auto simp: dep_Parse_def parseTop_def Let_def split: if_splits sum.splits)
  have "plain_parser (skipWS ?p)" using assms(2) TrimSpace_set [of s] by (auto simp: plain_parser_def list_all_iff)
  moreover have "\<not> isSpace (last (p_input (skipWS ?p)))"
    using TrimSpace_last [OF ns(4)] by (auto simp: ascii_space_def isSpace_code)
  ultimately have "wf_top ns" using ns(1,3) by (intro parseTop_wf)
  then show ?thesis using ns(2) by blast
qed

lemma dep_Parse_print:
  assumes "wf_top ns"
  shows "dep_Parse (joinNodes ns) = Inr (Some (AllOfGroup ns True))"
proof -
  let ?p = "\<lparr>p_input = joinNodes ns, p_pos = 0\<rparr>"
  note top = wf_top_trimmed [OF assms]
  have "skipWS ?p = ?p" using top by (intro skipWS_id) (simp add: rest_def)
  moreover have r: "rest ?p = joinNodes ns" by (simp add: rest_def)
  moreover have "parseTop_loop (dep_fuel ?p) ?p = Inr ns"
    by (rule parseTop_print [OF assms r]) (simp add: dep_fuel_def)
  ultimately show ?thesis using top by (simp add: dep_Parse_def parseTop_def)
qed

subsection \<open>The contract of printing and parsing\<close>

definition dep_tree_string :: "dep_node option \<Rightarrow> string" where
  "dep_tree_string n = (case n of None \<Rightarrow> [] | Some n \<Rightarrow> node_string n)"

definition parse_plain :: "string \<Rightarrow> (dep_error option, dep_node option) result" where
  \<comment> \<open>the parser on text without vertical tabs and form feeds\<close>
  "parse_plain s =
     (if list_all plain s then (case dep_Parse s of Inl e \<Rightarrow> Inl (Some e) | Inr n \<Rightarrow> Inr n) else Inl None)"

definition wf_tree :: "dep_node option \<Rightarrow> bool" where
  "wf_tree n = (case n of None \<Rightarrow> True | Some n \<Rightarrow> (\<exists>ns. n = AllOfGroup ns True \<and> wf_top ns))"

lemma plain_nodes: "wf_dep n \<Longrightarrow> list_all plain (node_string n)"
proof (induction n)
  have lit: "list_all plain ''( )''" "list_all plain ''( ''" "list_all plain '' )''" "list_all plain ''|| ''"
    "list_all plain ''^^ ''" "list_all plain ''?? ''" "plain (CHR '' '')" "plain (CHR ''?'')"
    by (simp_all add: plain_def code_def)
  have join: "list_all plain (join_with '' '' ws)" if "\<forall>w \<in> set ws. list_all plain w" for ws
    using that lit(7) by (induction "'' ''" ws rule: join_with.induct) auto
  have group: "list_all plain (group_text pre (map node_string ns))"
    if "list_all plain pre" "\<forall>n \<in> set ns. list_all plain (node_string n)" for pre ns
    using that lit join [of "map node_string ns"] by (simp add: group_text_def)
  {
    case (AllOfGroup ns i) then show ?case using group [of "[]" ns] by simp
  next
    case (AnyOfGroup ns) then show ?case using group [of "''|| ''" ns] lit by simp
  next
    case (XorOfGroup ns) then show ?case using group [of "''^^ ''" ns] lit by simp
  next
    case (AtMostOneOfGroup ns) then show ?case using group [of "''?? ''" ns] lit by simp
  next
    case (UseConditional f ns)
    then show ?case using group [of "f @ ''? ''" ns] lit by (simp add: closed_word_def word_def)
  }
qed (auto simp: closed_word_def word_def)


lemma wf_tree_plain: "wf_tree n \<Longrightarrow> list_all plain (dep_tree_string n)"
proof (cases n)
  case (Some m)
  assume "wf_tree n"
  then obtain ns where ns: "m = AllOfGroup ns True" "wf_top ns" using Some by (auto simp: wf_tree_def)
  then have last: "wf_dep (last ns) \<or> wf_leaf (last ns)" and ne: "ns \<noteq> []" and init: "\<forall>n \<in> set (butlast ns). wf_dep n"
    by (auto simp: wf_top_def)
  have "list_all plain (node_string (last ns))"
    using last plain_nodes [of "last ns"] leaf_token_action [of "last ns"] by (auto simp: word_def)
  then have all: "\<forall>n \<in> set ns. list_all plain (node_string n)"
    using init plain_nodes append_butlast_last_id [OF ne] by (metis UnE in_set_conv_decomp set_append singletonD list.set(1,2) insertE empty_iff)
  have "list_all plain (join_with '' '' ws)" if "\<forall>w \<in> set ws. list_all plain w" for ws
    using that by (induction "'' ''" ws rule: join_with.induct) (auto simp: plain_def code_def)
  then show ?thesis using all ns Some by (simp add: dep_tree_string_def)
qed (simp add: dep_tree_string_def)

interpretation dep_text: print_parse dep_tree_string parse_plain wf_tree
proof
  fix s n
  assume "parse_plain s = Inr n"
  then have "dep_Parse s = Inr n" "list_all plain s" by (auto simp: parse_plain_def split: if_splits sum.splits)
  then show "wf_tree n" using dep_Parse_wf by (cases n) (auto simp: wf_tree_def)
next
  fix n
  assume wf: "wf_tree n"
  have "dep_Parse (dep_tree_string n) = Inr n"
  proof (cases n)
    case None
    then show ?thesis by (simp add: dep_tree_string_def dep_Parse_def TrimSpace_def)
  next
    case (Some m)
    then obtain ns where "m = AllOfGroup ns True" "wf_top ns" using wf by (auto simp: wf_tree_def)
    then show ?thesis using Some dep_Parse_print [of ns] by (simp add: dep_tree_string_def joinNodes_def)
  qed
  then show "parse_plain (dep_tree_string n) = Inr n" using wf_tree_plain [OF wf] by (simp add: parse_plain_def)
qed

text \<open>
  Claim C36: The dependency parser returns on every input: with the fuel \<^verbatim>\<open>parseTop\<close> gives it in the model
  the mutual recursion of \<^verbatim>\<open>parseNode\<close> and \<^verbatim>\<open>parseChildren\<close> ends in a tree or in one of the errors of the code.
\<close>

theorem dep_parse_returns: "dep_Parse s \<noteq> Inl OutOfFuel"
proof -
  have "parseTop_loop (dep_fuel p) p \<noteq> Inl OutOfFuel" for p
    by (rule parseTop_fuel) (simp add: dep_fuel_def)
  then show ?thesis by (simp add: dep_Parse_def parseTop_def Let_def split: sum.split) metis
qed

text \<open>
  Claim C37: Rendering a parsed dependency string and parsing it again gives the same tree, whatever groups,
  USE conditionals, blockers and bracketed USE dependencies it nests, and different trees have different renderings.
  The text must not contain vertical tabs or form feeds, which \<^verbatim>\<open>strings.TrimSpace\<close> removes at the ends
  and the tokenizer does not treat as white space.
\<close>

theorem dep_round_trip:
  assumes "list_all plain s" "dep_Parse s = Inr n" "list_all plain t" "dep_Parse t = Inr m"
  shows "dep_Parse (dep_tree_string n) = Inr n \<and> (dep_tree_string n = dep_tree_string m \<longleftrightarrow> n = m)"
proof -
  have s: "parse_plain s = Inr n" and t: "parse_plain t = Inr m" using assms by (simp_all add: parse_plain_def)
  have "parse_plain (dep_tree_string n) = Inr n" using s by (rule dep_text.reparse)
  then show ?thesis using dep_text.text_identifies [OF s t]
    by (simp add: parse_plain_def split: if_splits sum.splits)
qed

theorem dep_round_trip_witness:
  "dep_Parse (dep_tree_string (Some (AllOfGroup [AnyOfGroup [AtomDep ''a/b[x]'', UseConditional ''!f'' [Block ''c/d'']]] True)))
     = Inr (Some (AllOfGroup [AnyOfGroup [AtomDep ''a/b[x]'', UseConditional ''!f'' [Block ''c/d'']]] True))"
proof -
  have "list_all plain ''||( a/b[x]  !f? ( !c/d ))''" by code_simp
  moreover have "dep_Parse ''||( a/b[x]  !f? ( !c/d ))'' =
      Inr (Some (AllOfGroup [AnyOfGroup [AtomDep ''a/b[x]'', UseConditional ''!f'' [Block ''c/d'']]] True))"
    by code_simp
  ultimately show ?thesis using dep_round_trip by blast
qed

end
