(* ===== verification/Dep_Eval.thy ===== *)
theory Dep_Eval
  imports Depstring
begin

text \<open>
  What the rest of the program asks of a dependency tree, after \<^verbatim>\<open>src/internal/depstring/depstring.go\<close>: the
  flattened atoms with their conditions and any-of annotations (\<^verbatim>\<open>CollectMeta\<close>), the EAPI rules for package
  dependencies (\<^verbatim>\<open>ValidatePackageDependenciesEAPI\<close>) and satisfaction by installed packages
  (\<^verbatim>\<open>Satisfy\<close>), with the meaning of a tree as the reference.
\<close>

subsection \<open>Flattened atoms\<close>

record atom_meta =
  m_atom :: string
  m_condition :: string
  m_any_condition :: string
  m_any :: bool
  m_any_id :: nat
  m_any_option :: nat
  m_block :: bool
  m_weak :: bool

type_synonym meta_state = "nat \<times> (nat \<Rightarrow> nat)" \<comment> \<open>\<^verbatim>\<open>nextID\<close> and the map \<^verbatim>\<open>nextOption\<close>\<close>

record meta_context =
  \<comment> \<open>the arguments of \<^verbatim>\<open>visitMeta\<close> that describe where a node stands\<close>
  c_condition :: string
  c_any :: bool
  c_id :: nat
  c_option :: nat
  c_any_condition :: string

definition leaf_meta :: "string \<Rightarrow> meta_context \<Rightarrow> bool \<Rightarrow> bool \<Rightarrow> atom_meta" where
  "leaf_meta a c block weak =
     \<lparr>m_atom = a, m_condition = c_condition c, m_any_condition = c_any_condition c, m_any = c_any c,
      m_any_id = c_id c, m_any_option = c_option c, m_block = block, m_weak = weak\<rparr>"

definition next_condition :: "string \<Rightarrow> string \<Rightarrow> string" where
  "next_condition condition flag = (if condition \<noteq> [] then condition @ '','' @ flag else flag)"

definition enter_conditional :: "string \<Rightarrow> meta_context \<Rightarrow> meta_context" where
  "enter_conditional flag c = c\<lparr>c_condition := next_condition (c_condition c) flag\<rparr>"

definition enter_any_of :: "meta_context \<Rightarrow> meta_state \<Rightarrow> meta_context \<times> meta_state" where
  \<comment> \<open>an outermost any-of group takes a new identifier, a nested one keeps the enclosing group\<close>
  "enter_any_of c st =
     (if c_any c then (c, st)
      else (c\<lparr>c_any := True, c_id := fst st + 1, c_any_condition := c_condition c\<rparr>, (fst st + 1, snd st)))"

definition next_option :: "meta_context \<Rightarrow> meta_state \<Rightarrow> meta_context \<times> meta_state" where
  \<comment> \<open>\<^verbatim>\<open>nextOption[groupID]++\<close> before each child\<close>
  "next_option c st =
     (let opt = snd st (c_id c) + 1 in (c\<lparr>c_option := opt\<rparr>, (fst st, (snd st)(c_id c := opt))))"

fun visitMeta :: "dep_node \<Rightarrow> meta_context \<Rightarrow> meta_state \<Rightarrow> atom_meta list \<times> meta_state"
  and visitChildren :: "dep_node list \<Rightarrow> meta_context \<Rightarrow> meta_state \<Rightarrow> atom_meta list \<times> meta_state"
  and visitOptions :: "dep_node list \<Rightarrow> meta_context \<Rightarrow> meta_state \<Rightarrow> atom_meta list \<times> meta_state" where
  "visitMeta (AtomDep a) c st = ([leaf_meta a c False False], st)"
| "visitMeta (Block a) c st = ([leaf_meta a c True False], st)"
| "visitMeta (WeakBlock a) c st = ([leaf_meta a c False True], st)"
| "visitMeta (AllOfGroup ns implicit) c st = visitChildren ns c st"
| "visitMeta (AnyOfGroup ns) c st = (case enter_any_of c st of (c', st') \<Rightarrow> visitOptions ns c' st')"
| "visitMeta (XorOfGroup ns) c st = visitChildren ns c st"
| "visitMeta (AtMostOneOfGroup ns) c st = visitChildren ns c st"
| "visitMeta (UseConditional flag ns) c st = visitChildren ns (enter_conditional flag c) st"
| "visitChildren [] c st = ([], st)"
| "visitChildren (n # ns) c st =
     (case visitMeta n c st of
        (ms, st') \<Rightarrow> (case visitChildren ns c st' of (ms', st'') \<Rightarrow> (ms @ ms', st'')))"
| "visitOptions [] c st = ([], st)"
| "visitOptions (n # ns) c st =
     (case next_option c st of
        (c', st1) \<Rightarrow>
          (case visitMeta n c' st1 of
             (ms, st') \<Rightarrow> (case visitOptions ns c st' of (ms', st'') \<Rightarrow> (ms @ ms', st''))))"

definition top_context :: meta_context where
  "top_context = \<lparr>c_condition = [], c_any = False, c_id = 0, c_option = 0, c_any_condition = []\<rparr>"

definition CollectMeta :: "dep_node option \<Rightarrow> atom_meta list" where
  "CollectMeta node = (case node of None \<Rightarrow> [] | Some n \<Rightarrow> fst (visitMeta n top_context (0, \<lambda>_. 0)))"

subsection \<open>Package dependencies and the EAPI\<close>

datatype dep_valid_error =
    InvalidDepAtom atom_error
  | SlotNeedsEAPI1
  | SlotOperatorNeedsEAPI5
  | RepositoryInEAPI int
  | StrongBlockNeedsEAPI2
  | EmptyGroup
  | EmptyAnyOf
  | EmptyConditional
  | XorInPackageDeps
  | AtMostOneInPackageDeps

fun dep_valid_error_text :: "dep_valid_error \<Rightarrow> string" where
  "dep_valid_error_text (InvalidDepAtom e) = atom_error_text e"
| "dep_valid_error_text SlotNeedsEAPI1 = ''slot dependencies require EAPI 1 or newer''"
| "dep_valid_error_text SlotOperatorNeedsEAPI5 = ''slot operators require EAPI 5 or newer''"
| "dep_valid_error_text (RepositoryInEAPI n) =
     ''repository-qualified atoms are not valid in EAPI '' @ Itoa n @ '' package dependencies''"
| "dep_valid_error_text StrongBlockNeedsEAPI2 = ''strong blockers require EAPI 2 or newer''"
| "dep_valid_error_text EmptyGroup = ''empty package dependency group''"
| "dep_valid_error_text EmptyAnyOf = ''empty any-of package dependency group''"
| "dep_valid_error_text EmptyConditional = ''empty USE-conditional package dependency group''"
| "dep_valid_error_text XorInPackageDeps = ''^^ is valid in REQUIRED_USE, not package dependency fields''"
| "dep_valid_error_text AtMostOneInPackageDeps = ''?? is valid in REQUIRED_USE, not package dependency fields''"

definition validateDepAtom :: "int option \<Rightarrow> string \<Rightarrow> dep_valid_error option" where
  \<comment> \<open>the closure \<^verbatim>\<open>validateAtom\<close>; the EAPI is \<open>None\<close> when it is not a number\<close>
  "validateDepAtom eapi raw =
     (case ParsePackageAtom raw of
        Inl e \<Rightarrow> Some (InvalidDepAtom e)
      | Inr a \<Rightarrow>
          (case eapi of
             None \<Rightarrow> None
           | Some n \<Rightarrow>
               if n < 1 \<and> a_slot a \<noteq> [] then Some SlotNeedsEAPI1
               else if n < 5 \<and> a_slot_op a \<noteq> SlotOpNone then Some SlotOperatorNeedsEAPI5
               else if n \<le> 9 \<and> a_repo a \<noteq> [] then Some (RepositoryInEAPI n)
               else None))"

definition first_error :: "'e option list \<Rightarrow> 'e option" where
  \<comment> \<open>the loop over the children that returns the first error\<close>
  "first_error es = (case filter (\<lambda>e. e \<noteq> None) es of [] \<Rightarrow> None | e # _ \<Rightarrow> e)"

fun validateDep :: "int option \<Rightarrow> dep_node \<Rightarrow> dep_valid_error option" where
  "validateDep eapi (AtomDep a) = validateDepAtom eapi a"
| "validateDep eapi (Block a) = validateDepAtom eapi a"
| "validateDep eapi (WeakBlock a) =
     (if (case eapi of Some n \<Rightarrow> n < 2 | None \<Rightarrow> False) then Some StrongBlockNeedsEAPI2 else validateDepAtom eapi a)"
| "validateDep eapi (AllOfGroup ns implicit) =
     (if \<not> implicit \<and> ns = [] then Some EmptyGroup else first_error (map (validateDep eapi) ns))"
| "validateDep eapi (AnyOfGroup ns) =
     (if ns = [] then Some EmptyAnyOf else first_error (map (validateDep eapi) ns))"
| "validateDep eapi (UseConditional flag ns) =
     (if ns = [] then Some EmptyConditional else first_error (map (validateDep eapi) ns))"
| "validateDep eapi (XorOfGroup ns) = Some XorInPackageDeps"
| "validateDep eapi (AtMostOneOfGroup ns) = Some AtMostOneInPackageDeps"

definition ValidatePackageDependenciesEAPI :: "dep_node option \<Rightarrow> string \<Rightarrow> dep_valid_error option" where
  "ValidatePackageDependenciesEAPI node rawEAPI =
     (case node of None \<Rightarrow> None | Some n \<Rightarrow> validateDep (Atoi rawEAPI) n)"

definition ValidatePackageDependencies :: "dep_node option \<Rightarrow> dep_valid_error option" where
  "ValidatePackageDependencies node = ValidatePackageDependenciesEAPI node []"

subsection \<open>Satisfaction\<close>

type_synonym installed = "string \<rightharpoonup> atom" \<comment> \<open>installed packages by category/package\<close>

definition version_satisfies :: "op \<Rightarrow> int \<Rightarrow> bool" where
  \<comment> \<open>the switch on the operator for a versioned atom\<close>
  "version_satisfies p c = (case p of
     OpNone \<Rightarrow> c = 0 | OpGt \<Rightarrow> c > 0 | OpGtEq \<Rightarrow> c \<ge> 0 | OpLess \<Rightarrow> c < 0 | OpLessEq \<Rightarrow> c \<le> 0
   | OpEq \<Rightarrow> c = 0 | OpEqGlob \<Rightarrow> c \<le> 0 | OpTilde \<Rightarrow> c \<le> 0)"

definition bare_satisfies :: "op \<Rightarrow> int \<Rightarrow> bool" where
  \<comment> \<open>the switch for an operator without a version\<close>
  "bare_satisfies p c = (case p of
     OpGt \<Rightarrow> c > 0 | OpGtEq \<Rightarrow> c \<ge> 0 | OpLess \<Rightarrow> c < 0 | OpLessEq \<Rightarrow> c \<le> 0 | OpEq \<Rightarrow> c = 0 | _ \<Rightarrow> True)"

definition checkAtomSat :: "string \<Rightarrow> installed \<Rightarrow> bool \<times> string list" where
  "checkAtomSat raw inst =
     (case Parse raw of
        Inl e \<Rightarrow> (False, [raw])
      | Inr a \<Rightarrow>
          (case inst (CP a) of
             None \<Rightarrow> (False, [raw])
           | Some i \<Rightarrow>
               let versioned = (case a_version a of None \<Rightarrow> False | Some v \<Rightarrow> v_raw v \<noteq> []);
                   version_ok =
                     (if versioned then a_version i \<noteq> None \<and> version_satisfies (a_op a) (Compare (a_version i) (a_version a))
                      else a_op a \<noteq> OpNone \<longrightarrow>
                        a_version i \<noteq> None \<and> bare_satisfies (a_op a) (Compare (a_version i) (a_version a)))
               in if \<not> version_ok then (False, [raw])
                  else if a_slot a \<noteq> [] \<and> a_slot i \<noteq> [] \<and> a_slot a \<noteq> a_slot i then (False, [raw])
                  else (True, [])))"

definition flag_enabled :: "(string \<Rightarrow> bool) \<Rightarrow> string \<Rightarrow> bool" where
  "flag_enabled useFlags flag =
     (if HasPrefix flag ''!'' then \<not> useFlags (drop 1 flag) else useFlags flag)"

definition all_of_result :: "(bool \<times> string list) list \<Rightarrow> bool \<times> string list" where
  \<comment> \<open>the loop of a conjunction: all children are visited, the missing atoms kept unless all hold\<close>
  "all_of_result rs = (if \<forall>r \<in> set rs. fst r then (True, []) else (False, concat (map snd rs)))"

fun Satisfy :: "dep_node \<Rightarrow> installed \<Rightarrow> (string \<Rightarrow> bool) \<Rightarrow> bool \<times> string list" where
  "Satisfy (AtomDep a) inst use = checkAtomSat a inst"
| "Satisfy (AllOfGroup ns implicit) inst use = all_of_result (map (\<lambda>n. Satisfy n inst use) ns)"
| "Satisfy (AnyOfGroup ns) inst use =
     (let rs = map (\<lambda>n. Satisfy n inst use) ns
      in if \<exists>r \<in> set rs. fst r then (True, []) else (False, concat (map snd rs)))"
| "Satisfy (XorOfGroup ns) inst use =
     (let rs = map (\<lambda>n. Satisfy n inst use) ns
      in if length (filter fst rs) = 1 then (True, []) else (False, concat (map snd rs)))"
| "Satisfy (AtMostOneOfGroup ns) inst use =
     (length (filter fst (map (\<lambda>n. Satisfy n inst use) ns)) \<le> 1, [])"
| "Satisfy (UseConditional flag ns) inst use =
     (if \<not> flag_enabled use flag then (True, []) else all_of_result (map (\<lambda>n. Satisfy n inst use) ns))"
| "Satisfy (Block a) inst use =
     (case Parse a of
        Inl e \<Rightarrow> (False, [a])
      | Inr b \<Rightarrow> (inst (CP b) = None, []))"
| "Satisfy (WeakBlock a) inst use = (True, [])"

definition Satisfy_root :: "dep_node option \<Rightarrow> installed \<Rightarrow> (string \<Rightarrow> bool) \<Rightarrow> bool \<times> string list" where
  \<comment> \<open>a nil node is satisfied\<close>
  "Satisfy_root node inst use = (case node of None \<Rightarrow> (True, []) | Some n \<Rightarrow> Satisfy n inst use)"

end
