(* ===== verification/Dep_Meaning.thy ===== *)
theory Dep_Meaning
  imports Dep_Eval
begin

text \<open>
  The meaning of a dependency tree, and that the three views of \<^verbatim>\<open>src/internal/depstring/depstring.go\<close> agree with it:
  the flattened atoms of \<^verbatim>\<open>CollectMeta\<close>, the decision of \<^verbatim>\<open>Satisfy\<close>, and the rules of the EAPI.
\<close>

subsection \<open>Flattening keeps the atoms and their annotations\<close>

lemma visit_atoms:
  "map m_atom (fst (visitMeta n c st)) = node_atoms n"
  "map m_atom (fst (visitChildren ns c st)) = concat (map node_atoms ns)"
  "map m_atom (fst (visitOptions ns c st)) = concat (map node_atoms ns)"
  by (induction n c st and ns c st and ns c st rule: visitMeta_visitChildren_visitOptions.induct)
    (auto simp: leaf_meta_def split: prod.splits)

subsection \<open>The meaning of a tree and of its flattened form\<close>

definition condition_holds :: "(string \<Rightarrow> bool) \<Rightarrow> string \<Rightarrow> bool" where
  \<comment> \<open>a condition is a comma-separated list of flags, all of which must be enabled\<close>
  "condition_holds use c \<longleftrightarrow> c = [] \<or> list_all (flag_enabled use) (split_on (CHR '','') c)"

fun tree_holds :: "(string \<Rightarrow> bool) \<Rightarrow> (bool \<Rightarrow> bool \<Rightarrow> string \<Rightarrow> bool) \<Rightarrow> dep_node \<Rightarrow> bool" where
  \<comment> \<open>\<open>V\<close> says which atoms, weak blockers and strong blockers hold\<close>
  "tree_holds use V (AtomDep a) \<longleftrightarrow> V False False a"
| "tree_holds use V (Block a) \<longleftrightarrow> V True False a"
| "tree_holds use V (WeakBlock a) \<longleftrightarrow> V False True a"
| "tree_holds use V (AllOfGroup ns implicit) \<longleftrightarrow> (\<forall>n \<in> set ns. tree_holds use V n)"
| "tree_holds use V (AnyOfGroup ns) \<longleftrightarrow> (\<exists>n \<in> set ns. tree_holds use V n)"
| "tree_holds use V (XorOfGroup ns) \<longleftrightarrow> length (filter (tree_holds use V) ns) = 1"
| "tree_holds use V (AtMostOneOfGroup ns) \<longleftrightarrow> length (filter (tree_holds use V) ns) \<le> 1"
| "tree_holds use V (UseConditional flag ns) \<longleftrightarrow> (flag_enabled use flag \<longrightarrow> (\<forall>n \<in> set ns. tree_holds use V n))"

definition meta_holds :: "(string \<Rightarrow> bool) \<Rightarrow> (bool \<Rightarrow> bool \<Rightarrow> string \<Rightarrow> bool) \<Rightarrow> atom_meta \<Rightarrow> bool" where
  "meta_holds use V m \<longleftrightarrow> (condition_holds use (m_condition m) \<longrightarrow> V (m_block m) (m_weak m) (m_atom m))"

definition option_holds :: "(string \<Rightarrow> bool) \<Rightarrow> (bool \<Rightarrow> bool \<Rightarrow> string \<Rightarrow> bool) \<Rightarrow> atom_meta list \<Rightarrow> bool" where
  \<comment> \<open>within one group: some option has all its atoms\<close>
  "option_holds use V ms \<longleftrightarrow>
     (\<exists>m \<in> set ms. \<forall>x \<in> set ms. m_any_option x = m_any_option m \<longrightarrow> meta_holds use V x)"

definition any_of_group :: "atom_meta list \<Rightarrow> nat \<Rightarrow> atom_meta list" where
  "any_of_group ms i = filter (\<lambda>m. m_any m \<and> m_any_id m = i) ms"

definition flat_holds :: "(string \<Rightarrow> bool) \<Rightarrow> (bool \<Rightarrow> bool \<Rightarrow> string \<Rightarrow> bool) \<Rightarrow> atom_meta list \<Rightarrow> bool" where
  \<comment> \<open>atoms outside any-of groups hold, and every group whose condition holds has an option all of whose atoms hold\<close>
  "flat_holds use V ms \<longleftrightarrow>
     (\<forall>m \<in> set ms. \<not> m_any m \<longrightarrow> meta_holds use V m) \<and>
     (\<forall>m \<in> set ms. m_any m \<longrightarrow> condition_holds use (m_any_condition m) \<longrightarrow>
        option_holds use V (any_of_group ms (m_any_id m)))"

fun flattenable :: "bool \<Rightarrow> dep_node \<Rightarrow> bool" where
  \<comment> \<open>package dependencies without empty groups, whose any-of groups are not nested in one another\<close>
  "flattenable inside (AllOfGroup ns implicit) \<longleftrightarrow> (ns \<noteq> [] \<or> \<not> inside) \<and> (\<forall>n \<in> set ns. flattenable inside n)"
| "flattenable inside (AnyOfGroup ns) \<longleftrightarrow> \<not> inside \<and> ns \<noteq> [] \<and> (\<forall>n \<in> set ns. flattenable True n)"
| "flattenable inside (XorOfGroup ns) \<longleftrightarrow> False"
| "flattenable inside (AtMostOneOfGroup ns) \<longleftrightarrow> False"
| "flattenable inside (UseConditional flag ns) \<longleftrightarrow>
     (ns \<noteq> [] \<or> \<not> inside) \<and> flag \<noteq> [] \<and> CHR '','' \<notin> set flag \<and> (\<forall>n \<in> set ns. flattenable inside n)"
| "flattenable inside _ \<longleftrightarrow> True"

lemma split_on_single: "d \<notin> set s \<Longrightarrow> split_on d s = [s]"
  by (induction s) auto

lemma split_on_append: "split_on d (s @ d # t) = split_on d s @ split_on d t"
proof (induction s)
  case (Cons c s)
  moreover have "split_on d s \<noteq> []" for s by (induction s) (auto split: list.split)
  ultimately show ?case by (auto split: list.split)
qed simp

lemma condition_next:
  "flag \<noteq> [] \<Longrightarrow> CHR '','' \<notin> set flag \<Longrightarrow>
   condition_holds use (next_condition c flag) \<longleftrightarrow> condition_holds use c \<and> flag_enabled use flag"
  by (simp add: condition_holds_def next_condition_def split_on_append split_on_single)

lemma visit_inside:
  "flattenable True n \<Longrightarrow> c_any c \<Longrightarrow> visitMeta n c st = (ms, st') \<Longrightarrow>
     st' = st \<and> ms \<noteq> [] \<and>
     (\<forall>m \<in> set ms. m_any m \<and> m_any_id m = c_id c \<and> m_any_option m = c_option c \<and> m_any_condition m = c_any_condition c) \<and>
     ((\<forall>m \<in> set ms. meta_holds use V m) \<longleftrightarrow> (condition_holds use (c_condition c) \<longrightarrow> tree_holds use V n))"
  "\<forall>n \<in> set ns. flattenable True n \<Longrightarrow> c_any c \<Longrightarrow> visitChildren ns c st = (ms, st') \<Longrightarrow>
     st' = st \<and> (ns \<noteq> [] \<longrightarrow> ms \<noteq> []) \<and>
     (\<forall>m \<in> set ms. m_any m \<and> m_any_id m = c_id c \<and> m_any_option m = c_option c \<and> m_any_condition m = c_any_condition c) \<and>
     ((\<forall>m \<in> set ms. meta_holds use V m) \<longleftrightarrow>
        (condition_holds use (c_condition c) \<longrightarrow> (\<forall>n \<in> set ns. tree_holds use V n)))"
  "True"
proof (induction n c st and ns c st and ns c st arbitrary: ms st' and ms st'
    rule: visitMeta_visitChildren_visitOptions.induct)
  case (8 flag ns c st)
  then show ?case using condition_next [of flag use "c_condition c"] by (auto simp: enter_conditional_def)
next
  case (10 n ns c st)
  obtain ms1 st1 where 1: "visitMeta n c st = (ms1, st1)" by (cases "visitMeta n c st")
  obtain ms2 st2 where 2: "visitChildren ns c st1 = (ms2, st2)" by (cases "visitChildren ns c st1")
  have ms: "ms = ms1 @ ms2" "st' = st2" using "10.prems"(3) 1 2 by auto
  show ?case using "10.IH"(1) [OF _ _ 1] "10.IH"(2) [OF 1 [symmetric] _ _ 2] "10.prems"(1,2) unfolding ms by auto
qed (auto simp: leaf_meta_def meta_holds_def)


lemma visit_options:
  "\<forall>n \<in> set ns. flattenable True n \<Longrightarrow> c_any c \<Longrightarrow> visitOptions ns c st = (ms, st') \<Longrightarrow>
     fst st' = fst st \<and> (ns \<noteq> [] \<longrightarrow> ms \<noteq> []) \<and>
     (\<forall>m \<in> set ms. m_any m \<and> m_any_id m = c_id c \<and> m_any_condition m = c_any_condition c \<and>
        snd st (c_id c) < m_any_option m) \<and>
     (option_holds use V ms \<longleftrightarrow>
        (\<exists>n \<in> set ns. condition_holds use (c_condition c) \<longrightarrow> tree_holds use V n))"
proof (induction ns arbitrary: st ms st')
  case (Cons n ns)
  obtain c' st1 where 0: "next_option c st = (c', st1)" by (cases "next_option c st")
  obtain ms1 st2 where 1: "visitMeta n c' st1 = (ms1, st2)" by (cases "visitMeta n c' st1")
  obtain ms2 st3 where 2: "visitOptions ns c st2 = (ms2, st3)" by (cases "visitOptions ns c st2")
  have ms: "ms = ms1 @ ms2" "st' = st3" using Cons.prems(3) 0 1 2 by auto
  have c': "c_id c' = c_id c" "c_any_condition c' = c_any_condition c" "c_condition c' = c_condition c" "c_any c'"
    "c_option c' = snd st1 (c_id c)" "snd st (c_id c) < snd st1 (c_id c)" "fst st1 = fst st"
    using 0 Cons.prems(2) by (auto simp: next_option_def Let_def)
  have first: "st2 = st1" "ms1 \<noteq> []"
    "\<forall>m \<in> set ms1. m_any m \<and> m_any_id m = c_id c \<and> m_any_option m = snd st1 (c_id c) \<and> m_any_condition m = c_any_condition c"
    "(\<forall>m \<in> set ms1. meta_holds use V m) \<longleftrightarrow> (condition_holds use (c_condition c) \<longrightarrow> tree_holds use V n)"
    using visit_inside(1) [OF _ c'(4) 1, where use = use and V = V] Cons.prems(1) c' by auto
  have rest: "fst st3 = fst st1"
    "\<forall>m \<in> set ms2. m_any m \<and> m_any_id m = c_id c \<and> m_any_condition m = c_any_condition c \<and> snd st1 (c_id c) < m_any_option m"
    "option_holds use V ms2 \<longleftrightarrow> (\<exists>n \<in> set ns. condition_holds use (c_condition c) \<longrightarrow> tree_holds use V n)"
    using Cons.IH [OF _ Cons.prems(2) 2] Cons.prems(1) first(1) by auto
  have "option_holds use V (ms1 @ ms2) \<longleftrightarrow> (\<forall>m \<in> set ms1. meta_holds use V m) \<or> option_holds use V ms2"
  proof
    assume "option_holds use V (ms1 @ ms2)"
    then obtain m where m: "m \<in> set ms1 \<or> m \<in> set ms2"
      "\<forall>x \<in> set ms1 \<union> set ms2. m_any_option x = m_any_option m \<longrightarrow> meta_holds use V x"
      by (auto simp: option_holds_def)
    show "(\<forall>m \<in> set ms1. meta_holds use V m) \<or> option_holds use V ms2"
      using m first(3) by (cases "m \<in> set ms1") (auto simp: option_holds_def)
  next
    assume "(\<forall>m \<in> set ms1. meta_holds use V m) \<or> option_holds use V ms2"
    then show "option_holds use V (ms1 @ ms2)"
    proof
      assume all: "\<forall>m \<in> set ms1. meta_holds use V m"
      obtain m where "m \<in> set ms1" using first(2) by (cases ms1) auto
      moreover from this have "\<forall>x \<in> set (ms1 @ ms2). m_any_option x = m_any_option m \<longrightarrow> meta_holds use V x"
        using all first(3) rest(2) by fastforce
      ultimately show ?thesis by (auto simp: option_holds_def)
    next
      assume "option_holds use V ms2"
      then obtain m where "m \<in> set ms2" "\<forall>x \<in> set ms2. m_any_option x = m_any_option m \<longrightarrow> meta_holds use V x"
        by (auto simp: option_holds_def)
      moreover from this have "\<forall>x \<in> set (ms1 @ ms2). m_any_option x = m_any_option m \<longrightarrow> meta_holds use V x"
        using first(3) rest(2) by fastforce
      ultimately show ?thesis by (auto simp: option_holds_def)
    qed
  qed
  then have "option_holds use V ms \<longleftrightarrow>
      (\<exists>m \<in> set (n # ns). condition_holds use (c_condition c) \<longrightarrow> tree_holds use V m)"
    using first(4) rest(3) ms(1) by auto
  moreover have "\<forall>m \<in> set ms. m_any m \<and> m_any_id m = c_id c \<and> m_any_condition m = c_any_condition c \<and>
      snd st (c_id c) < m_any_option m"
    using first(3) rest(2) c'(6) ms(1) by fastforce
  moreover have "fst st' = fst st" "ms \<noteq> []" using rest(1) c'(7) ms first(2) by auto
  ultimately show ?case by blast
qed (simp add: option_holds_def)

lemma flat_holds_append:
  assumes "\<forall>m \<in> set ms1. m_any m \<longrightarrow> m_any_id m \<le> k" "\<forall>m \<in> set ms2. m_any m \<longrightarrow> k < m_any_id m"
  shows "flat_holds use V (ms1 @ ms2) \<longleftrightarrow> flat_holds use V ms1 \<and> flat_holds use V ms2"
proof -
  have "any_of_group (ms1 @ ms2) (m_any_id m) = any_of_group ms1 (m_any_id m)" if "m \<in> set ms1" "m_any m" for m
    using that assms by (fastforce simp: any_of_group_def filter_empty_conv)
  moreover have "any_of_group (ms1 @ ms2) (m_any_id m) = any_of_group ms2 (m_any_id m)" if "m \<in> set ms2" "m_any m" for m
    using that assms by (fastforce simp: any_of_group_def filter_empty_conv)
  ultimately show ?thesis by (auto simp: flat_holds_def)
qed

lemma visit_outside:
  "flattenable False n \<Longrightarrow> \<not> c_any c \<Longrightarrow> visitMeta n c st = (ms, st') \<Longrightarrow>
     fst st \<le> fst st' \<and> (\<forall>m \<in> set ms. m_any m \<longrightarrow> fst st < m_any_id m \<and> m_any_id m \<le> fst st') \<and>
     (flat_holds use V ms \<longleftrightarrow> (condition_holds use (c_condition c) \<longrightarrow> tree_holds use V n))"
  "\<forall>n \<in> set ns. flattenable False n \<Longrightarrow> \<not> c_any c \<Longrightarrow> visitChildren ns c st = (ms, st') \<Longrightarrow>
     fst st \<le> fst st' \<and> (\<forall>m \<in> set ms. m_any m \<longrightarrow> fst st < m_any_id m \<and> m_any_id m \<le> fst st') \<and>
     (flat_holds use V ms \<longleftrightarrow> (condition_holds use (c_condition c) \<longrightarrow> (\<forall>n \<in> set ns. tree_holds use V n)))"
  "True"
proof (induction n c st and ns c st and ns c st arbitrary: ms st' and ms st'
    rule: visitMeta_visitChildren_visitOptions.induct)
  case (5 ns c st)
  let ?c = "c\<lparr>c_any := True, c_id := fst st + 1, c_any_condition := c_condition c\<rparr>"
  have v: "visitOptions ns ?c (fst st + 1, snd st) = (ms, st')" using "5.prems"(2,3) by (simp add: enter_any_of_def)
  have "\<forall>n \<in> set ns. flattenable True n" "ns \<noteq> []" using "5.prems"(1) by auto
  then have o: "fst st' = fst st + 1" "ms \<noteq> []"
    "\<forall>m \<in> set ms. m_any m \<and> m_any_id m = fst st + 1 \<and> m_any_condition m = c_condition c"
    "option_holds use V ms \<longleftrightarrow> (\<exists>n \<in> set ns. condition_holds use (c_condition c) \<longrightarrow> tree_holds use V n)"
    using visit_options [OF _ _ v, where use = use and V = V] by auto
  have "flat_holds use V ms \<longleftrightarrow> (condition_holds use (c_condition c) \<longrightarrow> option_holds use V ms)"
  proof -
    obtain m where "m \<in> set ms" using o(2) by (cases ms) auto
    moreover have "any_of_group ms (fst st + 1) = ms" using o(3) by (simp add: any_of_group_def filter_id_conv)
    ultimately show ?thesis using o(3) by (auto simp: flat_holds_def)
  qed
  then show ?case using o \<open>ns \<noteq> []\<close> by auto
next
  case (8 flag ns c st)
  then show ?case using condition_next [of flag use "c_condition c"] by (auto simp: enter_conditional_def)
next
  case (10 n ns c st)
  obtain ms1 st1 where 1: "visitMeta n c st = (ms1, st1)" by (cases "visitMeta n c st")
  obtain ms2 st2 where 2: "visitChildren ns c st1 = (ms2, st2)" by (cases "visitChildren ns c st1")
  have ms: "ms = ms1 @ ms2" "st' = st2" using "10.prems"(3) 1 2 by auto
  note a = "10.IH"(1) [OF _ "10.prems"(2) 1] and b = "10.IH"(2) [OF 1 [symmetric] _ "10.prems"(2) 2]
  have "flat_holds use V ms \<longleftrightarrow> flat_holds use V ms1 \<and> flat_holds use V ms2"
    unfolding ms using a b "10.prems"(1) by (intro flat_holds_append [where k = "fst st1"]) auto
  then show ?case using a b "10.prems"(1) ms by fastforce
qed (auto simp: leaf_meta_def flat_holds_def meta_holds_def)

subsection \<open>Properties\<close>

text \<open>
  \<^verbatim>\<open>CollectMeta\<close> lists the atoms of a tree in the order of its \<^verbatim>\<open>Atoms\<close> method, and for a package
  dependency in which any-of groups do not nest the annotations carry its whole meaning: for all
  USE flags and all valuations of the atoms and blockers, the tree holds iff the unconditional atoms hold and each any-of
  identifier whose condition is on has an option all of whose atoms hold.
\<close>

theorem collect_meta_meaning:
  assumes "flattenable False n"
  shows "map m_atom (CollectMeta (Some n)) = node_atoms n \<and>
    (flat_holds use V (CollectMeta (Some n)) \<longleftrightarrow> tree_holds use V n)"
proof -
  obtain ms st' where v: "visitMeta n top_context (0, \<lambda>_. 0) = (ms, st')"
    by (cases "visitMeta n top_context (0, \<lambda>_. 0)")
  have "flat_holds use V ms \<longleftrightarrow> tree_holds use V n"
    using visit_outside(1) [OF assms _ v, where use = use and V = V] by (simp add: top_context_def condition_holds_def)
  then show ?thesis using v visit_atoms(1) [of n top_context "(0, \<lambda>_. 0)"] by (simp add: CollectMeta_def)
qed

theorem collect_meta_meaning_witness:
  "\<not> flat_holds (\<lambda>f. f = ''x'') (\<lambda>b w a. a = ''p'')
     (CollectMeta (Some (UseConditional ''x'' [AnyOfGroup [AtomDep ''q'', AllOfGroup [AtomDep ''p'', Block ''r''] False]])))"
proof -
  let ?n = "UseConditional ''x'' [AnyOfGroup [AtomDep ''q'', AllOfGroup [AtomDep ''p'', Block ''r''] False]]"
  have "flattenable False ?n" by simp
  moreover have "\<not> tree_holds (\<lambda>f. f = ''x'') (\<lambda>b w a. a = ''p'') ?n" by (simp add: flag_enabled_def HasPrefix_def)
  ultimately show ?thesis using collect_meta_meaning by blast
qed

text \<open>
  An any-of group inside a conjunction that is itself an alternative is flattened into further
  alternatives of the outer group: in \<^verbatim>\<open>|| ( ( a || ( b c ) ) d )\<close> the atom \<open>a\<close> alone becomes an
  option, although the tree also asks for \<open>b\<close> or \<open>c\<close>.
\<close>

theorem nested_any_of_splits_conjunction:
  "map (\<lambda>m. (m_atom m, m_any_id m, m_any_option m))
     (CollectMeta (Some (AnyOfGroup [AllOfGroup [AtomDep ''a'', AnyOfGroup [AtomDep ''b'', AtomDep ''c'']] False, AtomDep ''d''])))
     = [(''a'', 1, 1), (''b'', 1, 2), (''c'', 1, 3), (''d'', 1, 4)] \<and>
   flat_holds (\<lambda>_. False) (\<lambda>b w a. a = ''a'')
     (CollectMeta (Some (AnyOfGroup [AllOfGroup [AtomDep ''a'', AnyOfGroup [AtomDep ''b'', AtomDep ''c'']] False, AtomDep ''d'']))) \<and>
   \<not> tree_holds (\<lambda>_. False) (\<lambda>b w a. a = ''a'')
     (AnyOfGroup [AllOfGroup [AtomDep ''a'', AnyOfGroup [AtomDep ''b'', AtomDep ''c'']] False, AtomDep ''d''])"
  by (intro conjI; code_simp)

definition installed_value :: "installed \<Rightarrow> bool \<Rightarrow> bool \<Rightarrow> string \<Rightarrow> bool" where
  \<comment> \<open>what \<^verbatim>\<open>Satisfy\<close> takes an atom, a weak blocker and a strong blocker to mean\<close>
  "installed_value inst block weak a \<longleftrightarrow>
     (if weak then True
      else if block then (\<exists>b. Parse a = Inr b \<and> inst (CP b) = None)
      else fst (checkAtomSat a inst))"

lemma satisfy_holds: "fst (Satisfy n inst use) \<longleftrightarrow> tree_holds use (installed_value inst) n"
proof (induction n)
  have count: "length (filter fst (map (\<lambda>n. Satisfy n inst use) ns)) = length (filter (tree_holds use (installed_value inst)) ns)"
    if "\<And>n. n \<in> set ns \<Longrightarrow> fst (Satisfy n inst use) \<longleftrightarrow> tree_holds use (installed_value inst) n" for ns
    using that by (induction ns) auto
  {
    case (XorOfGroup ns) then show ?case using count [of ns] by simp
  next
    case (AtMostOneOfGroup ns) then show ?case using count [of ns] by simp
  }
qed (auto simp: installed_value_def all_of_result_def split: sum.splits)

lemma checkAtomSat_missing: "set (snd (checkAtomSat a inst)) \<subseteq> {a} \<and> (fst (checkAtomSat a inst) \<longleftrightarrow> snd (checkAtomSat a inst) = [])"
  by (simp add: checkAtomSat_def Let_def split: sum.split option.split)

lemma satisfy_missing: "set (snd (Satisfy n inst use)) \<subseteq> set (node_atoms n)"
proof (induction n)
  case (AtomDep a)
  then show ?case using checkAtomSat_missing [of a inst] by simp
next
  case (AllOfGroup ns i)
  then show ?case by (auto simp: all_of_result_def)
next
  case (UseConditional f ns)
  then show ?case by (auto simp: all_of_result_def)
qed (auto simp: Let_def split: sum.split)

lemma satisfied_nothing_missing: "fst (Satisfy n inst use) \<Longrightarrow> snd (Satisfy n inst use) = []"
proof (cases n)
  case (AtomDep a)
  assume "fst (Satisfy n inst use)"
  then show ?thesis using AtomDep checkAtomSat_missing [of a inst] by simp
qed (auto simp: all_of_result_def Let_def split: sum.splits if_splits)

text \<open>
  \<^verbatim>\<open>Satisfy\<close> decides the meaning of a dependency tree over the installed packages for every
  connective; what it reports missing are atoms of the tree, and nothing when the tree is satisfied.
\<close>

theorem satisfy_decides_meaning:
  "(fst (Satisfy n inst use) \<longleftrightarrow> tree_holds use (installed_value inst) n) \<and>
   set (snd (Satisfy n inst use)) \<subseteq> set (node_atoms n) \<and>
   (snd (Satisfy n inst use) = [] \<or> \<not> tree_holds use (installed_value inst) n)"
  using satisfy_holds satisfy_missing satisfied_nothing_missing by blast

theorem satisfy_decides_meaning_witness:
  "tree_holds (\<lambda>_. False) (installed_value [''a/b'' \<mapsto> empty_atom])
     (AllOfGroup [AtomDep ''a/b'', UseConditional ''x'' [AtomDep ''c/d'']] True)"
proof -
  have "fst (Satisfy (AllOfGroup [AtomDep ''a/b'', UseConditional ''x'' [AtomDep ''c/d'']] True) [''a/b'' \<mapsto> empty_atom] (\<lambda>_. False))"
    by code_simp
  then show ?thesis using satisfy_decides_meaning by blast
qed

text \<open>
  For versioned atoms \<^verbatim>\<open>checkAtomSat\<close> treats \<open>~\<close> and \<open>=*\<close> as upper bounds: an installed
  older version satisfies \<open>~a/b-2\<close>, and version 2.5 does not satisfy \<open>=a/b-2*\<close>.
\<close>

theorem tilde_and_glob_are_upper_bounds:
  "checkAtomSat ''~a/b-2'' [''a/b'' \<mapsto> empty_atom\<lparr>a_version := Some (projr (ParseVersion ''1''))\<rparr>] = (True, []) \<and>
   checkAtomSat ''=a/b-2*'' [''a/b'' \<mapsto> empty_atom\<lparr>a_version := Some (projr (ParseVersion ''2.5''))\<rparr>] = (False, [''=a/b-2*'']) \<and>
   checkAtomSat ''=a/b-2*'' [''a/b'' \<mapsto> empty_atom\<lparr>a_version := Some (projr (ParseVersion ''1''))\<rparr>] = (True, [])"
  by (intro conjI; code_simp)

definition atom_allowed :: "int option \<Rightarrow> string \<Rightarrow> bool" where
  \<comment> \<open>what an EAPI (if it is a number) lets an atom of a package dependency contain\<close>
  "atom_allowed eapi raw \<longleftrightarrow>
     (case ParsePackageAtom raw of
        Inl e \<Rightarrow> False
      | Inr a \<Rightarrow> \<forall>n \<in> set_option eapi. (a_slot a \<noteq> [] \<longrightarrow> 1 \<le> n) \<and> (a_slot_op a \<noteq> SlotOpNone \<longrightarrow> 5 \<le> n) \<and> (a_repo a \<noteq> [] \<longrightarrow> 9 < n))"

fun dep_allowed :: "int option \<Rightarrow> dep_node \<Rightarrow> bool" where
  \<comment> \<open>the rules for package dependencies, on the whole tree\<close>
  "dep_allowed eapi (AtomDep a) \<longleftrightarrow> atom_allowed eapi a"
| "dep_allowed eapi (Block a) \<longleftrightarrow> atom_allowed eapi a"
| "dep_allowed eapi (WeakBlock a) \<longleftrightarrow> (\<forall>n \<in> set_option eapi. 2 \<le> n) \<and> atom_allowed eapi a"
| "dep_allowed eapi (AllOfGroup ns implicit) \<longleftrightarrow> (implicit \<or> ns \<noteq> []) \<and> (\<forall>n \<in> set ns. dep_allowed eapi n)"
| "dep_allowed eapi (AnyOfGroup ns) \<longleftrightarrow> ns \<noteq> [] \<and> (\<forall>n \<in> set ns. dep_allowed eapi n)"
| "dep_allowed eapi (UseConditional flag ns) \<longleftrightarrow> ns \<noteq> [] \<and> (\<forall>n \<in> set ns. dep_allowed eapi n)"
| "dep_allowed eapi (XorOfGroup ns) \<longleftrightarrow> False"
| "dep_allowed eapi (AtMostOneOfGroup ns) \<longleftrightarrow> False"

lemma first_error_None: "first_error es = None \<longleftrightarrow> (\<forall>e \<in> set es. e = None)"
proof (induction es)
  case (Cons e es)
  then show ?case by (cases e) (simp_all add: first_error_def)
qed (simp add: first_error_def)

lemma validateDepAtom_None: "validateDepAtom eapi raw = None \<longleftrightarrow> atom_allowed eapi raw"
  by (auto simp: validateDepAtom_def atom_allowed_def split: sum.split option.split)

lemma validateDep_None: "validateDep eapi n = None \<longleftrightarrow> dep_allowed eapi n"
  by (induction n) (auto simp: first_error_None validateDepAtom_None not_less split: option.splits)

text \<open>
  The trees \<^verbatim>\<open>ValidatePackageDependenciesEAPI\<close> accepts. It leaves USE dependencies to its callers: of the two, the resolver
  checks them for every atom (\<open>Resolve_Graph\<close>), and the plan validator does not.
\<close>

lemma eapi_validation_exact: "ValidatePackageDependenciesEAPI (Some n) raw = None \<longleftrightarrow> dep_allowed (Atoi raw) n"
  by (simp add: ValidatePackageDependenciesEAPI_def validateDep_None)

end
