(* ===== verification/Plan_Model.thy ===== *)
theory Plan_Model
  imports Atoms Version_Order
begin

text \<open>
  The data of the plan validator, \<^verbatim>\<open>src/internal/planvalidate/model.go\<close>: packages, plans, fixtures and
  violations, package identities, canonical states, and the sorting and bounding of violations of
  \<^verbatim>\<open>validate.go\<close>. A Go map is an association list in key order without duplicate keys; a slice or map
  that may be nil is an option. \<open>sort\<close> on strings is the byte order of Go.
\<close>

subsection \<open>Maps\<close>

type_synonym 'v gomap = "(string \<times> 'v) list"

fun map_put :: "string \<Rightarrow> 'v \<Rightarrow> 'v gomap \<Rightarrow> 'v gomap" where
  "map_put k v [] = [(k, v)]"
| "map_put k v ((k', v') # m) =
     (if k < k' then (k, v) # (k', v') # m
      else if k = k' then (k, v) # m
      else (k', v') # map_put k v m)"

definition map_delete :: "string \<Rightarrow> 'v gomap \<Rightarrow> 'v gomap" where
  "map_delete k m = filter (\<lambda>e. fst e \<noteq> k) m"

definition map_ok :: "'v gomap \<Rightarrow> bool" where
  "map_ok m \<longleftrightarrow> sorted_wrt (<) (map fst m)"

definition entries :: "'a list option \<Rightarrow> 'a list" where
  \<comment> \<open>the elements of a slice or map that may be nil\<close>
  "entries x = (case x of None \<Rightarrow> [] | Some xs \<Rightarrow> xs)"

lemma entries_simps [simp]: "entries None = []" "entries (Some xs) = xs"
  by (simp_all add: entries_def)

lemma map_of_put [simp]: "map_of (map_put k v m) = (map_of m)(k \<mapsto> v)"
  by (induction k v m rule: map_put.induct) (auto simp: fun_upd_def)

lemma map_put_keys [simp]: "fst ` set (map_put k v m) = insert k (fst ` set m)"
  by (induction k v m rule: map_put.induct) auto

lemma map_put_ok: "map_ok m \<Longrightarrow> map_ok (map_put k v m)"
proof (induction k v m rule: map_put.induct)
  case (2 k v k' v' m)
  have less: "\<forall>x \<in> fst ` set m. k' < x" and rest: "map_ok m" using "2.prems" by (auto simp: map_ok_def)
  show ?case
  proof (cases "k < k'")
    case True
    then show ?thesis using "2.prems" less by (auto simp: map_ok_def)
  next
    case False
    show ?thesis
    proof (cases "k = k'")
      case True
      then show ?thesis using "2.prems" by (simp add: map_ok_def)
    next
      case neq: False
      then have "map_ok (map_put k v m)" using "2.IH" False rest by simp
      moreover have "\<forall>x \<in> fst ` set (map_put k v m). k' < x" using less False neq by auto
      ultimately show ?thesis using False neq by (auto simp: map_ok_def)
    qed
  qed
qed (simp add: map_ok_def)

lemma map_of_delete [simp]: "map_of (map_delete k m) = (map_of m)(k := None)"
  by (induction m) (auto simp: map_delete_def fun_upd_def)

lemma map_delete_ok: "map_ok m \<Longrightarrow> map_ok (map_delete k m)"
  by (induction m) (auto simp: map_ok_def map_delete_def)

lemma map_ok_distinct: "map_ok m \<Longrightarrow> distinct (map fst m)"
  unfolding map_ok_def by (induction m) auto

lemma map_ok_entry: "map_ok m \<Longrightarrow> (k, v) \<in> set m \<longleftrightarrow> map_of m k = Some v"
  using map_ok_distinct map_of_eq_Some_iff by metis

text \<open>
  The contract of a dictionary: what a lookup returns after an insertion and after a deletion, and that
  both keep the representation invariant. It is interpreted on the ordered association lists.
\<close>

locale dictionary =
  fixes lookup :: "'m \<Rightarrow> 'k \<Rightarrow> 'v option" and put :: "'k \<Rightarrow> 'v \<Rightarrow> 'm \<Rightarrow> 'm"
    and del :: "'k \<Rightarrow> 'm \<Rightarrow> 'm" and ok :: "'m \<Rightarrow> bool"
  assumes lookup_put: "lookup (put k v m) = (lookup m)(k \<mapsto> v)"
    and lookup_del: "lookup (del k m) = (lookup m)(k := None)"
    and put_ok: "ok m \<Longrightarrow> ok (put k v m)"
    and del_ok: "ok m \<Longrightarrow> ok (del k m)"
begin

lemma replace_lookup: "lookup (put k v (del j m)) i = (if i = k then Some v else if i = j then None else lookup m i)"
  by (simp add: lookup_put lookup_del)

lemma replace_ok: "ok m \<Longrightarrow> ok (put k v (del j m))"
  by (simp add: put_ok del_ok)

lemma foldl_put_ok: "ok m \<Longrightarrow> ok (foldl (\<lambda>m (k, v). put k v m) m kvs)"
  by (induction kvs arbitrary: m) (auto simp: put_ok)

end

lemma map_ok_unique:
  assumes "map_ok m" "map_ok m'" "map_of m = map_of m'"
  shows "m = m'"
proof -
  have "set m = set m'" using assms map_ok_entry [OF assms(1)] map_ok_entry [OF assms(2)] by auto
  moreover have "sorted (map fst m)" "sorted (map fst m')" using assms(1,2) unfolding map_ok_def by (auto intro: strict_sorted_imp_sorted)
  ultimately show ?thesis
    using map_sorted_distinct_set_unique [of fst m m'] map_ok_distinct [OF assms(1)] map_ok_distinct [OF assms(2)]
    by (auto simp: distinct_map)
qed

interpretation go_map: dictionary map_of map_put map_delete map_ok
  by unfold_locales (simp_all add: map_put_ok map_delete_ok)

subsection \<open>Packages, plans and fixtures\<close>

definition SchemaVersion :: int where "SchemaVersion = 1"

definition MaxViolationRecords :: nat where "MaxViolationRecords = 256"

type_synonym metadata_authority = string

definition AuthorityVDB :: metadata_authority where "AuthorityVDB = ''vdb''"

definition AuthorityMD5Cache :: metadata_authority where "AuthorityMD5Cache = ''md5-cache''"

definition AuthorityEvaluated :: metadata_authority where "AuthorityEvaluated = ''evaluated''"

definition ActionInstall :: string where "ActionInstall = ''install''"

definition ActionRemove :: string where "ActionRemove = ''remove''"

record package_policy =
  pp_base_keyword :: string
  pp_keyword_changes :: "string list option"
  pp_license_changes :: "string list option"
  pp_masked :: bool
  pp_mask_atom :: string
  pp_mask_source :: string

record package =
  pk_cpv :: string
  pk_slot :: string
  pk_subslot :: string
  pk_repository :: string
  pk_authority :: metadata_authority
  pk_merge_type :: string
  pk_use :: "bool gomap option"
  pk_iuse :: "bool gomap option"
  pk_dependencies :: "string gomap option"
  pk_required_use :: string
  pk_eapi :: string
  pk_keywords :: "string list option"
  pk_license :: string
  pk_masked :: bool
  pk_policy :: package_policy

definition zero_package :: package where
  \<comment> \<open>the zero value \<^verbatim>\<open>Package{}\<close>\<close>
  "zero_package = \<lparr>pk_cpv = [], pk_slot = [], pk_subslot = [], pk_repository = [], pk_authority = [],
     pk_merge_type = [], pk_use = None, pk_iuse = None, pk_dependencies = None, pk_required_use = [],
     pk_eapi = [], pk_keywords = None, pk_license = [], pk_masked = False,
     pk_policy = \<lparr>pp_base_keyword = [], pp_keyword_changes = None, pp_license_changes = None,
       pp_masked = False, pp_mask_atom = [], pp_mask_source = []\<rparr>\<rparr>"

record policy =
  po_accepted_keywords :: "string list"
  po_accepted_licenses :: "string list"
  po_supported_eapis :: "string list"
  po_license_groups :: "string list gomap"

record request =
  rq_build_only :: bool
  rq_operation :: string
  rq_targets :: "string list"
  rq_original_targets :: "string list"
  rq_partial_mode :: string

record fixture =
  fx_schema :: int
  fx_request :: request
  fx_installed :: "package list"
  fx_available :: "package list"
  fx_domains :: "package list gomap"
  fx_domains_alias_to_root :: bool
  fx_policy :: policy

record decision_record =
  dr_id :: string
  dr_outcome :: string
  dr_state :: string
  dr_cpv :: string
  dr_slot :: string
  dr_subslot :: string
  dr_repository :: string
  dr_action_id :: string
  dr_reasons :: "string list option"
  dr_requirements :: "string list"

record decision_ledger =
  dl_records :: "decision_record list"
  dl_truncated :: bool
  dl_omitted_records :: int
  dl_encoded_bytes :: int

record action_item =
  ac_id :: string
  ac_kind :: string
  ac_package :: package
  ac_replaces :: string
  ac_prerequisites :: "string list"

record plan =
  pl_schema :: int
  pl_actions :: "action_item list"
  pl_decisions :: decision_ledger

definition zero_action :: action_item where
  "zero_action = \<lparr>ac_id = [], ac_kind = [], ac_package = zero_package, ac_replaces = [], ac_prerequisites = []\<rparr>"

definition zero_ledger :: decision_ledger where
  "zero_ledger = \<lparr>dl_records = [], dl_truncated = False, dl_omitted_records = 0, dl_encoded_bytes = 0\<rparr>"

definition schema_plan :: "int \<Rightarrow> plan" where
  \<comment> \<open>\<^verbatim>\<open>Plan{Schema: n}\<close>\<close>
  "schema_plan n = \<lparr>pl_schema = n, pl_actions = [], pl_decisions = zero_ledger\<rparr>"

record violation =
  vi_class :: string
  vi_kind :: string
  vi_package :: string
  vi_requirement :: string
  vi_required_by :: string
  vi_message :: string

record application_result =
  ar_packages :: "package list"
  ar_violations :: "violation list"
  ar_truncated :: bool
  ar_omitted :: nat

record validation_result =
  vr_valid :: bool
  vr_violations :: "violation list"
  vr_truncated :: bool
  vr_omitted :: nat
  vr_pre_existing :: nat

definition packageIdentity :: "package \<Rightarrow> string" where
  "packageIdentity pkg = pk_cpv pkg @ '':'' @ pk_slot pkg @ ''::'' @ pk_repository pkg"

definition copied :: "'a list option \<Rightarrow> 'a list option" where
  \<comment> \<open>\<^verbatim>\<open>append([]T(nil), xs...)\<close>: an empty slice becomes nil\<close>
  "copied xs = (if entries xs = [] then None else xs)"

definition clonePackage :: "package \<Rightarrow> package" where
  "clonePackage pkg =
     pkg\<lparr>pk_keywords := copied (pk_keywords pkg),
         pk_policy := (pk_policy pkg)\<lparr>pp_keyword_changes := copied (pp_keyword_changes (pk_policy pkg)),
           pp_license_changes := copied (pp_license_changes (pk_policy pkg))\<rparr>\<rparr>"

definition canonicalState :: "package list \<Rightarrow> package list" where
  "canonicalState packages = sort_key packageIdentity (map clonePackage packages)"

subsection \<open>Violations\<close>

definition violation_of :: "string \<Rightarrow> string \<Rightarrow> string \<Rightarrow> string \<Rightarrow> string \<Rightarrow> violation" where
  \<comment> \<open>the constructor \<^verbatim>\<open>violation\<close>\<close>
  "violation_of kind pkg requirement requiredBy message =
     \<lparr>vi_class = [], vi_kind = kind, vi_package = pkg, vi_requirement = requirement,
      vi_required_by = requiredBy, vi_message = message\<rparr>"

definition violation_key :: "violation \<Rightarrow> string" where
  "violation_key v =
     vi_kind v @ [nul] @ vi_package v @ [nul] @ vi_requirement v @ [nul] @ vi_required_by v @ [nul] @ vi_message v"

definition sortViolations :: "violation list \<Rightarrow> violation list" where
  "sortViolations vs = sort_key violation_key vs"

fun unique_violations :: "violation list \<Rightarrow> violation list \<Rightarrow> violation list" where
  \<comment> \<open>the loop that keeps the first of equal records; the first argument is what has been seen\<close>
  "unique_violations seen [] = []"
| "unique_violations seen (v # vs) =
     (if v \<in> set seen then unique_violations seen vs else v # unique_violations (v # seen) vs)"

definition boundViolations :: "violation list \<Rightarrow> nat \<Rightarrow> violation list \<times> bool \<times> nat" where
  "boundViolations violations alreadyOmitted =
     (let unique = (if length violations > 1 then unique_violations [] violations else violations);
          omitted = alreadyOmitted + (length violations - length unique) +
            (if length unique > MaxViolationRecords then length unique - MaxViolationRecords else 0)
      in (take MaxViolationRecords unique, omitted \<noteq> 0, omitted))"

subsection \<open>Bounded violation lists\<close>

lemma unique_violations_set: "set (unique_violations seen vs) = set vs - set seen"
  by (induction seen vs rule: unique_violations.induct) auto

lemma unique_violations_distinct: "distinct (unique_violations seen vs)"
  by (induction seen vs rule: unique_violations.induct) (auto simp: unique_violations_set)

lemma unique_violations_length: "length (unique_violations seen vs) \<le> length vs"
  by (induction seen vs rule: unique_violations.induct) auto

lemma bounded_unique: "fst (boundViolations vs n) = take MaxViolationRecords (unique_violations [] vs)"
proof (cases vs)
  case (Cons v ws)
  then show ?thesis by (cases ws) (simp_all add: boundViolations_def Let_def)
qed (simp add: boundViolations_def)

lemma bounded_empty: "fst (boundViolations vs n) = [] \<longleftrightarrow> vs = []"
proof -
  have "unique_violations [] vs = [] \<longleftrightarrow> vs = []"
    using unique_violations_set [of "[]" vs] by (metis Diff_empty list.set(1) set_empty)
  then show ?thesis by (simp add: bounded_unique MaxViolationRecords_def)
qed

lemma bounded_set:
  "set (fst (boundViolations vs n)) \<subseteq> set vs"
  "length (fst (boundViolations vs n)) < MaxViolationRecords \<Longrightarrow> set (fst (boundViolations vs n)) = set vs"
proof -
  show "set (fst (boundViolations vs n)) \<subseteq> set vs"
    using unique_violations_set [of "[]" vs] by (auto simp: bounded_unique dest: in_set_takeD)
  assume "length (fst (boundViolations vs n)) < MaxViolationRecords"
  then have "take MaxViolationRecords (unique_violations [] vs) = unique_violations [] vs"
    by (simp add: bounded_unique)
  then show "set (fst (boundViolations vs n)) = set vs" by (simp add: bounded_unique unique_violations_set)
qed

lemma bounded_omitted: "snd (snd (boundViolations vs n)) = n + (length vs - length (fst (boundViolations vs n)))"
proof -
  have "unique_violations [] vs = vs" if "length vs \<le> 1" using that by (cases vs; cases "tl vs") auto
  moreover have "length (unique_violations [] vs) \<le> length vs" by (rule unique_violations_length)
  ultimately show ?thesis by (auto simp: boundViolations_def Let_def min_def)
qed

lemma sortViolations_set [simp]: "set (sortViolations vs) = set vs" "sortViolations vs = [] \<longleftrightarrow> vs = []"
proof -
  show "set (sortViolations vs) = set vs" by (simp add: sortViolations_def)
  then show "sortViolations vs = [] \<longleftrightarrow> vs = []" by (metis set_empty)
qed

text \<open>
  The contract of a check that reports what is wrong with an item: it reports nothing exactly for the items that
  satisfy a specification. Checks of lists and bounded reports inherit the contract.
\<close>

locale validator =
  fixes report :: "'a \<Rightarrow> violation list" and meets :: "'a \<Rightarrow> bool"
  assumes clean: "report x = [] \<longleftrightarrow> meets x"
begin

lemma clean_list: "concat (map report xs) = [] \<longleftrightarrow> (\<forall>x \<in> set xs. meets x)"
  by (simp add: clean)

lemma clean_mapped: "concat (map (\<lambda>y. report (f y)) ys) = [] \<longleftrightarrow> (\<forall>y \<in> set ys. meets (f y))"
  by (simp add: clean)

lemma clean_selected: "concat (map (\<lambda>y. if omit y then [] else report (f y)) ys) = [] \<longleftrightarrow> (\<forall>y \<in> set ys. omit y \<or> meets (f y))"
proof -
  have "(if b then [] else report x) = [] \<longleftrightarrow> b \<or> meets x" for b x by (simp add: clean)
  then show ?thesis unfolding concat_eq_Nil_conv set_map ball_simps(9) by (simp only:)
qed

lemma clean_bounded: "fst (boundViolations (sortViolations (report x)) n) = [] \<longleftrightarrow> meets x"
  by (simp add: bounded_empty clean)

end

end
