(* ===== verification/Plan_Match.thy ===== *)
theory Plan_Match
  imports Plan_Model Dep_Meaning
begin

text \<open>
  Matching of packages against atoms and dependency trees, \<^verbatim>\<open>src/internal/planvalidate/validate.go\<close>:
  \<^verbatim>\<open>parseCPV\<close>, \<^verbatim>\<open>matches\<close>, \<^verbatim>\<open>useDependenciesMatch\<close>, the package index \<^verbatim>\<open>packageState\<close>, \<^verbatim>\<open>validateNode\<close> and
  \<^verbatim>\<open>requiredUseSatisfied\<close>. A validator that appends to a list of violations returns what it appends.
\<close>

subsection \<open>Packages and atoms\<close>

definition parseCPV :: "string \<Rightarrow> (string, atom) result" where
  "parseCPV cpv =
     (case Parse cpv of
        Inl e \<Rightarrow> Inl (''invalid CPV '' @ go_quote cpv @ '': '' @ atom_error_text e)
      | Inr a \<Rightarrow>
          if a_version a = None then Inl (''invalid CPV '' @ go_quote cpv @ '': version is required'') else Inr a)"

definition cpFromPackage :: "string \<Rightarrow> string" where
  "cpFromPackage cpv = (case parseCPV cpv of Inl e \<Rightarrow> [] | Inr a \<Rightarrow> CP a)"

definition LastIndex :: "string \<Rightarrow> string \<Rightarrow> nat option" where
  \<comment> \<open>\<^verbatim>\<open>strings.LastIndex\<close>\<close>
  "LastIndex s p = find (\<lambda>i. HasPrefix (drop i s) p) (rev [0..<length s + 1])"

definition versionWithoutRevision :: "string \<Rightarrow> string" where
  "versionWithoutRevision raw =
     (case LastIndex raw ''-r'' of
        None \<Rightarrow> raw
      | Some i \<Rightarrow> if list_all is_digit (drop (i + 2) raw) then take i raw else raw)"

definition version_op_matches :: "op \<Rightarrow> version \<Rightarrow> version \<Rightarrow> bool" where
  \<comment> \<open>the switch on the operator of \<^verbatim>\<open>matches\<close>: candidate version, constraint version\<close>
  "version_op_matches p v w =
     (let compared = Compare (Some v) (Some w) in
      case p of
        OpEq \<Rightarrow> compared = 0
      | OpLess \<Rightarrow> compared < 0
      | OpLessEq \<Rightarrow> compared \<le> 0
      | OpGt \<Rightarrow> compared > 0
      | OpGtEq \<Rightarrow> compared \<ge> 0
      | OpTilde \<Rightarrow> versionWithoutRevision (v_raw v) = versionWithoutRevision (v_raw w)
      | OpEqGlob \<Rightarrow> HasPrefix (v_raw v) (TrimSuffix (v_raw w) ''*'')
      | OpNone \<Rightarrow> False)"

definition matches :: "atom \<Rightarrow> package \<Rightarrow> atom \<Rightarrow> bool" where
  "matches candidate pkg constraint \<longleftrightarrow>
     CP candidate = CP constraint \<and>
     (a_repo constraint = [] \<or> pk_repository pkg = a_repo constraint) \<and>
     (a_slot constraint = [] \<or> pk_slot pkg = a_slot constraint) \<and>
     (a_subslot constraint = [] \<or> pk_subslot pkg = a_subslot constraint) \<and>
     (case a_version constraint of
        None \<Rightarrow> True
      | Some w \<Rightarrow>
          (case a_version candidate of
             None \<Rightarrow> False
           | Some v \<Rightarrow> version_op_matches (a_op constraint) v w))"

definition use_value :: "bool gomap option \<Rightarrow> string \<Rightarrow> bool" where
  \<comment> \<open>\<^verbatim>\<open>use[flag]\<close>, false for an absent flag\<close>
  "use_value m flag = (case map_of (entries m) flag of None \<Rightarrow> False | Some b \<Rightarrow> b)"

definition target_flag :: "package \<Rightarrow> use_flag \<Rightarrow> bool option" where
  \<comment> \<open>the effective value of a flag in the target, \<open>None\<close> where the flag is undeclared and has no default\<close>
  "target_flag target r =
     (let declared =
        (if map_of (entries (pk_iuse target)) (u_name r) \<noteq> None then True
         else if pk_iuse target \<noteq> None then False
         else map_of (entries (pk_use target)) (u_name r) \<noteq> None)
      in if declared then Some (use_value (pk_use target) (u_name r)) else u_default r)"

definition useDependencyMatches :: "package \<Rightarrow> use_flag \<Rightarrow> package option \<Rightarrow> bool" where
  \<comment> \<open>one iteration of the loop of \<^verbatim>\<open>useDependenciesMatch\<close>\<close>
  "useDependencyMatches target r owner =
     (let owner_value = (\<lambda>o'. use_value (pk_use o') (u_name r)) in
      if u_conditional r \<and> owner = None then False
      else if u_conditional r \<and> (u_negated r \<longleftrightarrow> owner_value (the owner)) then True
      else case target_flag target r of
          None \<Rightarrow> False
        | Some enabled \<Rightarrow>
            if u_equal r then
              (case owner of None \<Rightarrow> False | Some o' \<Rightarrow> enabled = (if u_negated r then \<not> owner_value o' else owner_value o'))
            else if u_conditional r then enabled
            else enabled = u_enabled r)"

definition useDependenciesMatch :: "package \<Rightarrow> use_flag list \<Rightarrow> package option \<Rightarrow> bool" where
  "useDependenciesMatch target requirements owner = list_all (\<lambda>r. useDependencyMatches target r owner) requirements"

subsection \<open>The package index\<close>

type_synonym package_state = "package list gomap" \<comment> \<open>\<^verbatim>\<open>byCP\<close>\<close>

definition packages_of :: "package_state \<Rightarrow> string \<Rightarrow> package list" where
  "packages_of st cp = (case map_of st cp of None \<Rightarrow> [] | Some ps \<Rightarrow> ps)"

definition newPackageState :: "package list \<Rightarrow> package_state" where
  "newPackageState packages =
     foldl (\<lambda>st pkg. let cp = cpFromPackage (pk_cpv pkg)
                     in if cp \<noteq> [] then map_put cp (packages_of st cp @ [pkg]) st else st) [] packages"

definition package_matches :: "package \<Rightarrow> atom \<Rightarrow> package option \<Rightarrow> bool" where
  "package_matches pkg constraint owner =
     (case parseCPV (pk_cpv pkg) of
        Inl e \<Rightarrow> False
      | Inr candidate \<Rightarrow> matches candidate pkg constraint \<and> useDependenciesMatch pkg (a_use_flags constraint) owner)"

definition state_matches :: "package_state \<Rightarrow> atom \<Rightarrow> package option \<Rightarrow> bool" where
  \<comment> \<open>the method \<^verbatim>\<open>packageState.matches\<close>\<close>
  "state_matches st constraint owner =
     list_ex (\<lambda>pkg. package_matches pkg constraint owner) (packages_of st (CP constraint))"

definition stateMatches :: "package list \<Rightarrow> atom \<Rightarrow> package option \<Rightarrow> bool" where
  "stateMatches packages constraint owner = state_matches (newPackageState packages) constraint owner"

subsection \<open>Dependency trees and REQUIRED\_USE\<close>

definition unsupportedAtomSemantics :: "atom \<Rightarrow> string" where
  "unsupportedAtomSemantics constraint = []"

definition validateBlock :: "string \<Rightarrow> package \<Rightarrow> package_state \<Rightarrow> bool \<times> violation list" where
  "validateBlock raw owner packages =
     (case ParsePackageAtom (TrimLeft raw ''!'') of
        Inl e \<Rightarrow> (False, [violation_of ''invalid-blocker-atom'' (pk_cpv owner) raw (pk_cpv owner) (atom_error_text e)])
      | Inr constraint \<Rightarrow>
          if unsupportedAtomSemantics constraint \<noteq> [] then
            (False, [violation_of ''unsupported-atom-semantics'' (pk_cpv owner) raw (pk_cpv owner) (unsupportedAtomSemantics constraint)])
          else if \<not> state_matches packages constraint (Some owner) then (True, [])
          else (False, [violation_of ''blocker-violation'' (pk_cpv owner) raw (pk_cpv owner) ''blocked package remains in final state'']))"

definition validateAtomNode :: "string \<Rightarrow> package \<Rightarrow> package_state \<Rightarrow> bool \<times> violation list" where
  \<comment> \<open>the case of an \<^verbatim>\<open>AtomDep\<close>\<close>
  "validateAtomNode raw owner packages =
     (case ParsePackageAtom raw of
        Inl e \<Rightarrow> (False, [violation_of ''invalid-dependency-atom'' (pk_cpv owner) raw (pk_cpv owner) (atom_error_text e)])
      | Inr constraint \<Rightarrow>
          if unsupportedAtomSemantics constraint \<noteq> [] then
            (False, [violation_of ''unsupported-atom-semantics'' (pk_cpv owner) raw (pk_cpv owner) (unsupportedAtomSemantics constraint)])
          else if state_matches packages constraint (Some owner) then (True, [])
          else (False, [violation_of ''unsatisfied-dependency'' (pk_cpv owner) raw (pk_cpv owner) ''final state does not satisfy dependency'']))"

definition unsupported_node :: "dep_node \<Rightarrow> package \<Rightarrow> bool \<times> violation list" where
  "unsupported_node n owner =
     (False, [violation_of ''unsupported-dependency-expression'' (pk_cpv owner) (node_string n) (pk_cpv owner)
        ''validator does not yet implement this dependency expression''])"

definition all_children :: "(bool \<times> violation list) list \<Rightarrow> bool \<times> violation list" where
  "all_children rs = (list_all fst rs, concat (map snd rs))"

fun validateNode :: "dep_node \<Rightarrow> package \<Rightarrow> package_state \<Rightarrow> bool \<times> violation list" where
  "validateNode (AtomDep a) owner packages = validateAtomNode a owner packages"
| "validateNode (Block a) owner packages = validateBlock (node_string (Block a)) owner packages"
| "validateNode (WeakBlock a) owner packages = validateBlock (node_string (WeakBlock a)) owner packages"
| "validateNode (AllOfGroup ns implicit) owner packages =
     all_children (map (\<lambda>n. validateNode n owner packages) ns)"
| "validateNode (AnyOfGroup ns) owner packages =
     (if list_ex (\<lambda>r. fst r) (map (\<lambda>n. validateNode n owner packages) ns) then (True, [])
      else (False, [violation_of ''unsatisfied-any-of'' (pk_cpv owner) (node_string (AnyOfGroup ns)) (pk_cpv owner)
        ''no dependency alternative is satisfied'']))"
| "validateNode (UseConditional flag ns) owner packages =
     (let enabled = use_value (pk_use owner) (TrimPrefix flag ''!'')
      in if (if HasPrefix flag ''!'' then enabled else \<not> enabled) then (True, [])
         else all_children (map (\<lambda>n. validateNode n owner packages) ns))"
| "validateNode (XorOfGroup ns) owner packages = unsupported_node (XorOfGroup ns) owner"
| "validateNode (AtMostOneOfGroup ns) owner packages = unsupported_node (AtMostOneOfGroup ns) owner"

fun requiredUseSatisfied :: "dep_node \<Rightarrow> bool gomap option \<Rightarrow> bool" where
  "requiredUseSatisfied (AtomDep a) use = use_value use a"
| "requiredUseSatisfied (Block a) use = (\<not> use_value use a)"
| "requiredUseSatisfied (AllOfGroup ns implicit) use = list_all (\<lambda>n. requiredUseSatisfied n use) ns"
| "requiredUseSatisfied (AnyOfGroup ns) use = list_ex (\<lambda>n. requiredUseSatisfied n use) ns"
| "requiredUseSatisfied (XorOfGroup ns) use = (length (filter (\<lambda>n. requiredUseSatisfied n use) ns) = 1)"
| "requiredUseSatisfied (AtMostOneOfGroup ns) use = (length (filter (\<lambda>n. requiredUseSatisfied n use) ns) \<le> 1)"
| "requiredUseSatisfied (UseConditional flag ns) use =
     (let active = use_value use (TrimPrefix flag ''!'')
      in if (if HasPrefix flag ''!'' then active else \<not> active) then True
         else list_all (\<lambda>n. requiredUseSatisfied n use) ns)"
| "requiredUseSatisfied (WeakBlock a) use = False"

definition validatePackageRequiredUse :: "package \<Rightarrow> violation list" where
  "validatePackageRequiredUse pkg =
     (if TrimSpace (pk_required_use pkg) = [] then []
      else case dep_Parse (pk_required_use pkg) of
          Inl e \<Rightarrow> [violation_of ''invalid-required-use'' (pk_cpv pkg) (pk_required_use pkg) (pk_cpv pkg) (dep_error_text e)]
        | Inr None \<Rightarrow> [] \<comment> \<open>only for a blank expression\<close>
        | Inr (Some n) \<Rightarrow>
            if requiredUseSatisfied n (pk_use pkg) then []
            else [violation_of ''required-use-violation'' (pk_cpv pkg) (pk_required_use pkg) (pk_cpv pkg)
              ''selected USE state does not satisfy REQUIRED_USE''])"

end
