(* ===== verification/Plan_Semantics.thy ===== *)
theory Plan_Semantics
  imports Plan_Match Depstring_Roundtrip
begin

text \<open>
  What the matching functions of the validator decide: the index by category/package answers like a
  search through all packages, \<^verbatim>\<open>validateNode\<close> decides the meaning of a dependency tree over a set of packages and
  reports a violation exactly when it does not hold, and \<^verbatim>\<open>requiredUseSatisfied\<close> decides REQUIRED USE expressions.
\<close>

subsection \<open>The package index\<close>

text \<open>
  The contract of an index of packages by a key: looking up a key returns the packages with that key, in
  order. A client that only looks at packages with the right key may search the index
  instead of the whole list.
\<close>

locale package_index =
  fixes index :: "'p list \<Rightarrow> 'i" and look :: "'i \<Rightarrow> 'k \<Rightarrow> 'p list" and key :: "'p \<Rightarrow> 'k option"
  assumes look_index: "look (index ps) k = filter (\<lambda>p. key p = Some k) ps"
begin

lemma search:
  assumes "\<And>p. P p \<Longrightarrow> key p = Some k"
  shows "list_ex P (look (index ps) k) \<longleftrightarrow> (\<exists>p \<in> set ps. P p)"
  using assms by (auto simp: look_index list_ex_iff)

lemma look_same_set: "set ps = set qs \<Longrightarrow> set (look (index ps) k) = set (look (index qs) k)"
  by (simp add: look_index)

end

definition package_key :: "package \<Rightarrow> string option" where
  "package_key p = (case parseCPV (pk_cpv p) of Inl e \<Rightarrow> None | Inr a \<Rightarrow> Some (CP a))"

lemma CP_nonempty [simp]: "CP a \<noteq> []"
  by (simp add: CP_def)

lemma cpFromPackage_key: "cpFromPackage (pk_cpv p) = (case package_key p of None \<Rightarrow> [] | Some cp \<Rightarrow> cp)"
  by (simp add: cpFromPackage_def package_key_def split: sum.split)

lemma package_key_nonempty: "package_key p \<noteq> Some []"
  by (auto simp: package_key_def split: sum.splits)

lemma packages_of_step:
  "packages_of (foldl (\<lambda>st pkg. let cp = cpFromPackage (pk_cpv pkg)
       in if cp \<noteq> [] then map_put cp (packages_of st cp @ [pkg]) st else st) st ps) cp =
   packages_of st cp @ filter (\<lambda>p. package_key p = Some cp) ps"
proof (induction ps arbitrary: st)
  case (Cons p ps)
  then show ?case using package_key_nonempty [of p]
    by (auto simp: Let_def cpFromPackage_key packages_of_def split: option.splits)
qed simp

interpretation by_cp: package_index newPackageState packages_of package_key
  by unfold_locales (simp add: newPackageState_def packages_of_step, simp add: packages_of_def)

lemma package_matches_key: "package_matches p c owner \<Longrightarrow> package_key p = Some (CP c)"
  by (auto simp: package_matches_def package_key_def matches_def split: sum.splits)

lemma state_matches_new: "state_matches (newPackageState ps) c owner \<longleftrightarrow> (\<exists>p \<in> set ps. package_matches p c owner)"
  unfolding state_matches_def by (rule by_cp.search) (rule package_matches_key)

subsection \<open>Dependency trees\<close>

definition dep_value :: "package \<Rightarrow> package_state \<Rightarrow> bool \<Rightarrow> bool \<Rightarrow> string \<Rightarrow> bool" where
  \<comment> \<open>an atom holds if a package of the state matches it, a blocker if none does\<close>
  "dep_value owner st block weak a \<longleftrightarrow>
     (if block \<or> weak
      then (\<exists>c. ParsePackageAtom (TrimLeft a ''!'') = Inr c \<and> \<not> state_matches st c (Some owner))
      else (\<exists>c. ParsePackageAtom a = Inr c \<and> state_matches st c (Some owner)))"

lemma validateAtomNode_value:
  "fst (validateAtomNode a owner st) \<longleftrightarrow> dep_value owner st False False a"
  "snd (validateAtomNode a owner st) = [] \<longleftrightarrow> fst (validateAtomNode a owner st)"
  by (auto simp: validateAtomNode_def dep_value_def unsupportedAtomSemantics_def split: sum.split)

lemma validateBlock_value:
  "fst (validateBlock (CHR ''!'' # a) owner st) \<longleftrightarrow> dep_value owner st True weak a"
  "fst (validateBlock (CHR ''!'' # CHR ''!'' # a) owner st) \<longleftrightarrow> dep_value owner st block True a"
  "snd (validateBlock raw owner st) = [] \<longleftrightarrow> fst (validateBlock raw owner st)"
  by (auto simp: validateBlock_def dep_value_def unsupportedAtomSemantics_def TrimLeft_def split: sum.split)

lemma flag_enabled_trim: "flag_enabled (use_value u) flag \<longleftrightarrow>
   (if HasPrefix flag ''!'' then \<not> use_value u (TrimPrefix flag ''!'') else use_value u (TrimPrefix flag ''!''))"
  by (simp add: flag_enabled_def TrimPrefix_def)

lemma validateNode_reports: "snd (validateNode n owner st) = [] \<longleftrightarrow> fst (validateNode n owner st)"
proof (induction n)
  have children: "snd (all_children (map f ns)) = [] \<longleftrightarrow> fst (all_children (map f ns))"
    if "\<And>n. n \<in> set ns \<Longrightarrow> snd (f n) = [] \<longleftrightarrow> fst (f n)" for f :: "dep_node \<Rightarrow> bool \<times> violation list" and ns
    using that by (induction ns) (auto simp: all_children_def)
  {
    case (AllOfGroup ns implicit)
    then show ?case using children [of ns "\<lambda>n. validateNode n owner st"] by simp
  next
    case (UseConditional flag ns)
    then show ?case using children [of ns "\<lambda>n. validateNode n owner st"] by (simp add: Let_def)
  }
qed (simp_all add: validateAtomNode_value validateBlock_value unsupported_node_def)

lemma validateNode_holds:
  "dep_allowed eapi n \<Longrightarrow>
   fst (validateNode n owner st) \<longleftrightarrow> tree_holds (use_value (pk_use owner)) (dep_value owner st) n"
proof (induction n)
  case (AllOfGroup ns implicit)
  then show ?case by (auto simp: all_children_def list_all_iff)
next
  case (AnyOfGroup ns)
  then show ?case by (auto simp: list_ex_iff)
next
  case (UseConditional flag ns)
  then show ?case by (auto simp: all_children_def list_all_iff flag_enabled_trim Let_def)
qed (simp_all add: validateAtomNode_value validateBlock_value)

lemma TrimSpace_hd: "TrimSpace s \<noteq> [] \<Longrightarrow> \<not> ascii_space (hd (TrimSpace s))"
proof -
  let ?d = "dropWhile ascii_space s"
  assume "TrimSpace s \<noteq> []"
  obtain t where t: "?d = TrimSpace s @ t"
    using takeWhile_dropWhile_id [of ascii_space "rev ?d"] unfolding TrimSpace_def by (metis rev_append rev_rev_ident)
  then have "?d \<noteq> []" "hd ?d = hd (TrimSpace s)" using \<open>TrimSpace s \<noteq> []\<close> by auto
  then show ?thesis using hd_dropWhile [of ascii_space s] by simp
qed

lemma TrimSpace_idem [simp]: "TrimSpace (TrimSpace s) = TrimSpace s"
  using TrimSpace_hd [of s] TrimSpace_last [of s] by (intro TrimSpace_id) blast

lemma dep_Parse_some:
  assumes "TrimSpace s \<noteq> []" "dep_Parse s = Inr n"
  shows "n \<noteq> None"
proof -
  let ?p = "\<lparr>p_input = TrimSpace s, p_pos = 0\<rparr>"
  have "\<not> isSpace (hd (TrimSpace s))" using TrimSpace_hd [OF assms(1)] by (auto simp: ascii_space_def isSpace_code)
  then have "skipWS ?p = ?p" "rest ?p \<noteq> []" using assms(1) by (auto simp: rest_def intro!: skipWS_id)
  then show ?thesis using assms by (auto simp: dep_Parse_def parseTop_def Let_def split: sum.splits)
qed

subsection \<open>REQUIRED USE\<close>

lemma requiredUse_holds:
  "requiredUseSatisfied n use \<longleftrightarrow>
   tree_holds (use_value use) (\<lambda>block weak flag. \<not> weak \<and> (block \<noteq> use_value use flag)) n"
proof (induction n)
  let ?V = "\<lambda>block weak flag. \<not> weak \<and> (block \<noteq> use_value use flag)"
  have count: "filter (\<lambda>n. requiredUseSatisfied n use) ns = filter (tree_holds (use_value use) ?V) ns"
    if "\<And>n. n \<in> set ns \<Longrightarrow> requiredUseSatisfied n use \<longleftrightarrow> tree_holds (use_value use) ?V n" for ns
    using that by (rule filter_cong [OF refl])
  {
    case (XorOfGroup ns) then show ?case using count [of ns] by simp
  next
    case (AtMostOneOfGroup ns) then show ?case using count [of ns] by simp
  next
    case (UseConditional flag ns)
    then show ?case by (auto simp: list_all_iff flag_enabled_trim Let_def)
  }
qed (auto simp: list_all_iff list_ex_iff)

lemma required_use_clean:
  "validatePackageRequiredUse pkg = [] \<longleftrightarrow>
   TrimSpace (pk_required_use pkg) = [] \<or>
   (\<exists>n. dep_Parse (pk_required_use pkg) = Inr (Some n) \<and> requiredUseSatisfied n (pk_use pkg))"
  using dep_Parse_some [of "pk_required_use pkg"]
  by (auto simp: validatePackageRequiredUse_def split: sum.splits option.splits)

end
