(* ===== verification/Plan_Apply.thy ===== *)
theory Plan_Apply
  imports Plan_Semantics
begin

text \<open>
  Applying a plan to the installed packages, \<^verbatim>\<open>src/internal/planvalidate/apply.go\<close>. The Go map \<^verbatim>\<open>current\<close> from
  package identities to packages is threaded through the actions; ranging over it visits the keys in
  order, which shows only in the choice of the conflict that a slot collision names.
\<close>

definition findCPV :: "package gomap \<Rightarrow> string \<Rightarrow> string \<times> nat" where
  "findCPV packages cpv =
     (let hits = filter (\<lambda>e. pk_cpv (snd e) = cpv) packages
      in (if hits = [] then [] else fst (last hits), length hits))"

definition sameSlotIdentity :: "package gomap \<Rightarrow> package \<Rightarrow> string \<Rightarrow> string" where
  "sameSlotIdentity packages candidate excluded =
     (case parseCPV (pk_cpv candidate) of
        Inl e \<Rightarrow> []
      | Inr c \<Rightarrow>
          (case find (\<lambda>(identity, pkg). identity \<noteq> excluded \<and>
                  (case parseCPV (pk_cpv pkg) of Inl e \<Rightarrow> False | Inr a \<Rightarrow> CP a = CP c \<and> pk_slot pkg = pk_slot candidate))
                packages of
             None \<Rightarrow> []
           | Some (identity, pkg) \<Rightarrow> packageIdentity pkg))"

definition applyInstallAction :: "package gomap \<Rightarrow> action_item \<Rightarrow> violation option \<times> package gomap" where
  "applyInstallAction current action =
     (let pkg = ac_package action;
          reject = (\<lambda>kind requirement cause message.
            (Some (violation_of kind (pk_cpv pkg) requirement cause message), current));
          (found, n) = findCPV current (ac_replaces action);
          replaced = (if ac_replaces action \<noteq> [] then found else []);
          identity = packageIdentity pkg;
          conflict = sameSlotIdentity current pkg replaced
      in if ac_replaces action \<noteq> [] \<and> n \<noteq> 1 then
           reject ''invalid-replacement-target'' (ac_replaces action) []
             (''replacement target matched '' @ show_nat n @ '' installed packages'')
         else if map_of current identity \<noteq> None \<and> identity \<noteq> replaced then
           reject ''already-installed'' [] [] ''install target already exists''
         else if conflict \<noteq> [] then
           reject ''slot-collision'' (pk_slot pkg) conflict ''plan leaves two package instances in the same slot''
         else (None, map_put identity (clonePackage pkg)
                 (if replaced \<noteq> [] then map_delete replaced current else current)))"

fun load_installed :: "package list \<Rightarrow> package gomap \<Rightarrow> package gomap \<times> violation list" where
  \<comment> \<open>the first loop of \<^verbatim>\<open>ApplyPlan\<close>\<close>
  "load_installed [] current = (current, [])"
| "load_installed (pkg # pkgs) current =
     (if map_of current (packageIdentity pkg) \<noteq> None then
        (case load_installed pkgs current of (m, vs) \<Rightarrow>
           (m, violation_of ''duplicate-installed-package'' (pk_cpv pkg) [] []
                 (''installed state contains duplicate '' @ packageIdentity pkg) # vs))
      else load_installed pkgs (map_put (packageIdentity pkg) (clonePackage pkg) current))"

definition action_key :: "action_item \<Rightarrow> string" where
  "action_key action = ac_kind action @ [nul] @ packageIdentity (ac_package action) @ [nul] @ ac_replaces action"

definition apply_action :: "package gomap \<Rightarrow> action_item \<Rightarrow> package gomap \<times> violation list" where
  \<comment> \<open>the switch on the kind of an action\<close>
  "apply_action current action =
     (let pkg = ac_package action; identity = packageIdentity pkg
      in if ac_kind action = ActionRemove then
           (if map_of current identity = None
            then (current, [violation_of ''missing-removal-target'' (pk_cpv pkg) [] [] ''remove target is not installed''])
            else (map_delete identity current, []))
         else if ac_kind action = ActionInstall then
           (case applyInstallAction current action of
              (None, m) \<Rightarrow> (m, []) | (Some issue, m) \<Rightarrow> (m, [issue]))
         else (current, [violation_of ''unknown-action'' (pk_cpv pkg) (ac_kind action) [] ''plan contains an unknown action kind'']))"

fun apply_actions :: "action_item list \<Rightarrow> string list \<Rightarrow> package gomap \<Rightarrow> package gomap \<times> violation list" where
  \<comment> \<open>the loop over the actions; the second argument is \<^verbatim>\<open>seenActions\<close>\<close>
  "apply_actions [] seen current = (current, [])"
| "apply_actions (action # actions) seen current =
     (if action_key action \<in> set seen then
        (case apply_actions actions seen current of (m, vs) \<Rightarrow>
           (m, violation_of ''duplicate-action'' (pk_cpv (ac_package action)) [] [] ''plan contains duplicate action'' # vs))
      else
        (case apply_action current action of (m, vs) \<Rightarrow>
           (case apply_actions actions (action_key action # seen) m of (m', vs') \<Rightarrow> (m', vs @ vs'))))"

definition ApplyPlan :: "package list \<Rightarrow> plan \<Rightarrow> application_result" where
  "ApplyPlan installed plan' =
     (case load_installed installed [] of (current, vs) \<Rightarrow>
        (case apply_actions (pl_actions plan') [] current of (final, vs') \<Rightarrow>
           (case boundViolations (sortViolations (vs @ vs')) 0 of (bounded, truncated, omitted) \<Rightarrow>
              \<lparr>ar_packages = canonicalState (map snd final), ar_violations = bounded,
               ar_truncated = truncated, ar_omitted = omitted\<rparr>)))"

lemma load_installed_fst [simp]:
  "fst (load_installed (p # ps) m) =
     (if map_of m (packageIdentity p) \<noteq> None then fst (load_installed ps m)
      else fst (load_installed ps (map_put (packageIdentity p) (clonePackage p) m)))"
  by (simp split: prod.split)

lemma apply_actions_fst [simp]:
  "fst (apply_actions (a # as) seen m) =
     (if action_key a \<in> set seen then fst (apply_actions as seen m)
      else fst (apply_actions as (action_key a # seen) (fst (apply_action m a))))"
  by (simp split: prod.split)

lemmas loop_simps [simp del] = load_installed.simps(2) apply_actions.simps(2)

subsection \<open>The state invariant\<close>

definition same_slot :: "package \<Rightarrow> package \<Rightarrow> bool" where
  \<comment> \<open>two packages with valid identities that claim the same slot of the same package\<close>
  "same_slot p q \<longleftrightarrow> package_key p \<noteq> None \<and> package_key p = package_key q \<and> pk_slot p = pk_slot q"

definition slots_unique :: "package list \<Rightarrow> bool" where
  "slots_unique ps \<longleftrightarrow> (\<forall>p \<in> set ps. \<forall>q \<in> set ps. same_slot p q \<longrightarrow> packageIdentity p = packageIdentity q)"

definition state_ok :: "package gomap \<Rightarrow> bool" where
  \<comment> \<open>keys in order and equal to the identities of the packages\<close>
  "state_ok m \<longleftrightarrow> map_ok m \<and> (\<forall>(k, p) \<in> set m. k = packageIdentity p)"

lemma clone_fields [simp]:
  "pk_cpv (clonePackage p) = pk_cpv p" "pk_slot (clonePackage p) = pk_slot p"
  "packageIdentity (clonePackage p) = packageIdentity p" "package_key (clonePackage p) = package_key p"
  by (simp_all add: clonePackage_def packageIdentity_def package_key_def)

lemma map_put_set: "map_ok m \<Longrightarrow> set (map_put k v m) = insert (k, v) {e \<in> set m. fst e \<noteq> k}"
proof -
  assume ok: "map_ok m"
  have "(j, w) \<in> set (map_put k v m) \<longleftrightarrow> (j, w) \<in> insert (k, v) {e \<in> set m. fst e \<noteq> k}" for j w
    using map_ok_entry [OF map_put_ok [OF ok], of j w k v] map_ok_entry [OF ok, of j w] by auto
  then show ?thesis by auto
qed

lemma state_ok_put: "state_ok m \<Longrightarrow> k = packageIdentity p \<Longrightarrow> state_ok (map_put k p m)"
  by (auto simp: state_ok_def map_put_set go_map.put_ok)

lemma state_ok_delete: "state_ok m \<Longrightarrow> state_ok (map_delete k m)"
  by (auto simp: state_ok_def map_delete_ok) (auto simp: map_delete_def)

lemma load_installed_ok: "state_ok m \<Longrightarrow> state_ok (fst (load_installed ps m))"
  by (induction ps arbitrary: m) (simp_all add: state_ok_put)

lemma install_result:
  assumes "applyInstallAction m a = (r, m')"
  shows "(r \<noteq> None \<and> m' = m) \<or>
    (r = None \<and> (\<exists>replaced. m' = map_put (packageIdentity (ac_package a)) (clonePackage (ac_package a))
       (if replaced \<noteq> [] then map_delete replaced m else m) \<and>
     (ac_replaces a = [] \<longrightarrow> replaced = []) \<and>
     (ac_replaces a \<noteq> [] \<longrightarrow> (\<exists>p. filter (\<lambda>e. pk_cpv (snd e) = ac_replaces a) m = [(replaced, p)])) \<and>
     sameSlotIdentity m (ac_package a) replaced = []))"
proof -
  obtain found n where f: "findCPV m (ac_replaces a) = (found, n)" by fastforce
  let ?replaced = "if ac_replaces a \<noteq> [] then found else []"
  have one: "\<exists>p. filter (\<lambda>e. pk_cpv (snd e) = ac_replaces a) m = [(found, p)]" if "n = 1"
    using f that by (auto simp: findCPV_def Let_def length_Suc_conv split: if_splits)
  show ?thesis
  proof (cases r)
    case None
    then have "m' = map_put (packageIdentity (ac_package a)) (clonePackage (ac_package a))
        (if ?replaced \<noteq> [] then map_delete ?replaced m else m)"
      "ac_replaces a \<noteq> [] \<longrightarrow> n = 1" "sameSlotIdentity m (ac_package a) ?replaced = []"
      using assms f by (auto simp: applyInstallAction_def Let_def split: if_splits)
    then show ?thesis using None one by (intro disjI2 conjI exI [of _ ?replaced]) auto
  next
    case (Some v)
    then show ?thesis using assms f by (auto simp: applyInstallAction_def Let_def split: if_splits)
  qed
qed

lemma install_state_ok: "state_ok m \<Longrightarrow> applyInstallAction m a = (r, m') \<Longrightarrow> state_ok m'"
  using install_result [of m a r m'] by (auto simp: state_ok_put state_ok_delete)

lemma apply_action_ok: "state_ok m \<Longrightarrow> state_ok (fst (apply_action m a))"
  by (auto simp: apply_action_def Let_def state_ok_delete dest: install_state_ok split: prod.splits option.splits)

lemma apply_actions_ok: "state_ok m \<Longrightarrow> state_ok (fst (apply_actions as seen m))"
  by (induction as arbitrary: seen m) (simp_all add: apply_action_ok)

subsection \<open>Slots stay unique\<close>

lemma identity_nonempty [simp]: "packageIdentity p \<noteq> []"
  by (simp add: packageIdentity_def)

lemma sameSlot_none:
  assumes "sameSlotIdentity m c excluded = []" "(k, p) \<in> set m" "k \<noteq> excluded"
  shows "\<not> same_slot c p" "\<not> same_slot p c"
proof -
  have "\<not> (package_key c = package_key p \<and> package_key c \<noteq> None \<and> pk_slot p = pk_slot c)"
  proof
    assume a: "package_key c = package_key p \<and> package_key c \<noteq> None \<and> pk_slot p = pk_slot c"
    then obtain x y where xy: "parseCPV (pk_cpv c) = Inr x" "parseCPV (pk_cpv p) = Inr y" "CP y = CP x"
      by (auto simp: package_key_def split: sum.splits)
    let ?P = "\<lambda>(identity, pkg). identity \<noteq> excluded \<and>
        (case parseCPV (pk_cpv pkg) of Inl e \<Rightarrow> False | Inr a \<Rightarrow> CP a = CP x \<and> pk_slot pkg = pk_slot c)"
    have "find ?P m = None" using assms(1) xy(1) by (auto simp: sameSlotIdentity_def split: option.splits)
    then have "\<not> ?P (k, p)" using assms(2) by (auto simp: find_None_iff)
    then show False using assms(3) a xy by auto
  qed
  then show "\<not> same_slot c p" "\<not> same_slot p c" by (auto simp: same_slot_def)
qed

definition unique_map :: "package gomap \<Rightarrow> bool" where
  "unique_map m \<longleftrightarrow> (\<forall>e \<in> set m. \<forall>d \<in> set m. same_slot (snd e) (snd d) \<longrightarrow> fst e = fst d)"

lemma unique_mapD: "unique_map m \<Longrightarrow> e \<in> set m \<Longrightarrow> d \<in> set m \<Longrightarrow> same_slot (snd e) (snd d) \<Longrightarrow> fst e = fst d"
  unfolding unique_map_def by blast

lemma unique_map_subset: "unique_map m \<Longrightarrow> set m' \<subseteq> set m \<Longrightarrow> unique_map m'"
  unfolding unique_map_def by blast

lemma same_slot_clone [simp]: "same_slot (clonePackage p) q \<longleftrightarrow> same_slot p q" "same_slot p (clonePackage q) \<longleftrightarrow> same_slot p q"
  by (simp_all add: same_slot_def)

lemma unique_map_put:
  assumes "state_ok m" "unique_map m" "\<And>e. e \<in> set m \<Longrightarrow> fst e \<noteq> k \<Longrightarrow> \<not> same_slot p (snd e) \<and> \<not> same_slot (snd e) p"
  shows "unique_map (map_put k p m)"
proof -
  have put: "set (map_put k p m) = insert (k, p) {e \<in> set m. fst e \<noteq> k}"
    using assms(1) by (intro map_put_set) (simp add: state_ok_def)
  have "fst e = fst d" if mem: "e \<in> set (map_put k p m)" "d \<in> set (map_put k p m)" and same: "same_slot (snd e) (snd d)" for e d
  proof -
    consider "e = (k, p)" "d = (k, p)" | "e = (k, p)" "d \<in> set m" "fst d \<noteq> k" | "d = (k, p)" "e \<in> set m" "fst e \<noteq> k"
      | "e \<in> set m" "d \<in> set m"
      using mem unfolding put by blast
    then show ?thesis
    proof cases
      case 2 then show ?thesis using assms(3) [OF 2(2,3)] same by simp
    next
      case 3 then show ?thesis using assms(3) [OF 3(2,3)] same by simp
    next
      case 4 then show ?thesis using unique_mapD [OF assms(2)] same by blast
    qed simp
  qed
  then show ?thesis unfolding unique_map_def by blast
qed

lemma install_unique:
  assumes "state_ok m" "unique_map m" "applyInstallAction m a = (r, m')"
  shows "unique_map m'"
proof (cases "r = None")
  case False
  then show ?thesis using install_result [OF assms(3)] assms(2) by auto
next
  case True
  then obtain replaced where m': "m' = map_put (packageIdentity (ac_package a)) (clonePackage (ac_package a))
      (if replaced \<noteq> [] then map_delete replaced m else m)"
    and none: "sameSlotIdentity m (ac_package a) replaced = []"
    using install_result [OF assms(3)] by auto
  let ?m = "if replaced \<noteq> [] then map_delete replaced m else m"
  have sub: "set ?m \<subseteq> set m" by (auto simp: map_delete_def)
  have "\<not> same_slot (ac_package a) (snd e) \<and> \<not> same_slot (snd e) (ac_package a)" if "e \<in> set ?m" for e
  proof -
    have e: "e \<in> set m" using sub that by blast
    then have "fst e = packageIdentity (snd e)" using assms(1) unfolding state_ok_def by fastforce
    then have "fst e \<noteq> replaced" using that by (cases "replaced = []") (simp_all add: map_delete_def)
    then show ?thesis using sameSlot_none [OF none, of "fst e" "snd e"] e by simp
  qed
  moreover have "state_ok ?m" using assms(1) state_ok_delete by simp
  moreover have "unique_map ?m" using unique_map_subset [OF assms(2) sub] .
  ultimately show ?thesis unfolding m' by (intro unique_map_put) simp_all
qed

lemma apply_action_unique:
  assumes "state_ok m" "unique_map m"
  shows "unique_map (fst (apply_action m a))"
proof -
  obtain r m' where i: "applyInstallAction m a = (r, m')" by (cases "applyInstallAction m a")
  have "unique_map m'" using assms i by (rule install_unique)
  moreover have "unique_map (map_delete k m)" for k
    using assms(2) by (rule unique_map_subset) (auto simp: map_delete_def)
  ultimately show ?thesis using assms(2) i by (simp add: apply_action_def Let_def split: option.split)
qed

lemma apply_actions_unique: "state_ok m \<Longrightarrow> unique_map m \<Longrightarrow> unique_map (fst (apply_actions as seen m))"
  by (induction as arbitrary: seen m) (simp_all add: apply_action_unique apply_action_ok)

subsection \<open>Where the packages of the final state come from\<close>

lemma clone_idem [simp]: "clonePackage (clonePackage p) = clonePackage p"
  by (simp add: clonePackage_def copied_def)

lemma load_installed_entry:
  "e \<in> set (fst (load_installed ps m)) \<Longrightarrow> map_ok m \<Longrightarrow>
   e \<in> set m \<or> (\<exists>p \<in> set ps. e = (packageIdentity p, clonePackage p))"
proof (induction ps arbitrary: m)
  case (Cons p ps)
  show ?case
  proof (cases "map_of m (packageIdentity p) = None")
    case True
    let ?m = "map_put (packageIdentity p) (clonePackage p) m"
    have "set ?m \<subseteq> insert (packageIdentity p, clonePackage p) (set m)"
      using map_put_set [OF Cons.prems(2)] by blast
    moreover have "e \<in> set ?m \<or> (\<exists>p \<in> set ps. e = (packageIdentity p, clonePackage p))"
      using Cons.IH [OF _ map_put_ok [OF Cons.prems(2)]] Cons.prems(1) True by simp
    ultimately show ?thesis by (simp only: list.set) blast
  next
    case False
    then have "e \<in> set m \<or> (\<exists>p \<in> set ps. e = (packageIdentity p, clonePackage p))"
      using Cons.IH [OF _ Cons.prems(2)] Cons.prems(1) by simp
    then show ?thesis by (simp only: list.set) blast
  qed
qed simp

lemma load_installed_keeps:
  assumes "distinct (map packageIdentity ps)" "\<forall>p \<in> set ps. map_of m (packageIdentity p) = None" "q \<in> set ps"
  shows "map_of (fst (load_installed ps m)) (packageIdentity q) = Some (clonePackage q)"
proof -
  have old: "map_of (fst (load_installed ps m)) k = map_of m k" if "k \<notin> packageIdentity ` set ps" for ps k and m :: "package gomap"
    using that by (induction ps arbitrary: m) simp_all
  show ?thesis using assms
  proof (induction ps arbitrary: m)
    case (Cons p ps)
    have new: "map_of m (packageIdentity p) = None" using Cons.prems(2) by simp
    let ?m = "map_put (packageIdentity p) (clonePackage p) m"
    have step: "fst (load_installed (p # ps) m) = fst (load_installed ps ?m)" using new by simp
    have fresh: "packageIdentity p \<notin> packageIdentity ` set ps" using Cons.prems(1) by simp
    show ?case
    proof (cases "q \<in> set ps")
      case True
      have "map_of ?m (packageIdentity x) = None" if "x \<in> set ps" for x
        using Cons.prems(2) fresh that by (cases "packageIdentity x = packageIdentity p") (metis image_eqI, simp)
      then show ?thesis using Cons.IH [of ?m] Cons.prems(1) True step by (simp del: map_of_put)
    next
      case False
      then have "q = p" using Cons.prems(3) by simp
      then show ?thesis using old [OF fresh, of ?m] step by simp
    qed
  qed simp
qed

definition touches :: "action_item \<Rightarrow> package \<Rightarrow> bool" where
  \<comment> \<open>the action installs or removes this identity, or replaces this version\<close>
  "touches a p \<longleftrightarrow> packageIdentity (ac_package a) = packageIdentity p \<or> ac_replaces a = pk_cpv p \<and> ac_replaces a \<noteq> []"

lemma apply_action_keeps:
  assumes "state_ok m" "map_of m (packageIdentity p) = Some p" "\<not> touches a p"
  shows "map_of (fst (apply_action m a)) (packageIdentity p) = Some p"
proof -
  let ?k = "packageIdentity p"
  have other: "packageIdentity (ac_package a) \<noteq> ?k" using assms(3) by (auto simp: touches_def)
  obtain r m' where i: "applyInstallAction m a = (r, m')" by (cases "applyInstallAction m a")
  have "map_of m' ?k = Some p"
  proof (cases "r = None")
    case False
    then show ?thesis using install_result [OF i] assms(2) by auto
  next
    case True
    then obtain replaced where m': "m' = map_put (packageIdentity (ac_package a)) (clonePackage (ac_package a))
        (if replaced \<noteq> [] then map_delete replaced m else m)"
      and r: "ac_replaces a = [] \<longrightarrow> replaced = []"
        "ac_replaces a \<noteq> [] \<longrightarrow> (\<exists>q. filter (\<lambda>e. pk_cpv (snd e) = ac_replaces a) m = [(replaced, q)])"
      using install_result [OF i] by auto
    have "replaced \<noteq> ?k"
    proof
      assume eq: "replaced = ?k"
      then have ne: "ac_replaces a \<noteq> []" using r(1) by auto
      then obtain q where "filter (\<lambda>e. pk_cpv (snd e) = ac_replaces a) m = [(replaced, q)]" using r(2) by blast
      then have "(replaced, q) \<in> set (filter (\<lambda>e. pk_cpv (snd e) = ac_replaces a) m)" by simp
      then have q: "(?k, q) \<in> set m" "pk_cpv q = ac_replaces a" using eq by simp_all
      have "map_ok m" using assms(1) by (simp add: state_ok_def)
      then have "q = p" using q(1) assms(2) map_ok_entry by fastforce
      then show False using q(2) ne assms(3) by (simp add: touches_def)
    qed
    then show ?thesis unfolding m' using other assms(2) by simp
  qed
  then show ?thesis using i other assms(2) by (simp add: apply_action_def Let_def split: option.split)
qed

lemma apply_actions_keeps:
  "state_ok m \<Longrightarrow> map_of m (packageIdentity p) = Some p \<Longrightarrow> \<forall>a \<in> set as. \<not> touches a p \<Longrightarrow>
   map_of (fst (apply_actions as seen m)) (packageIdentity p) = Some p"
  by (induction as arbitrary: seen m) (simp_all add: apply_action_keeps apply_action_ok)

definition planned_package :: "action_item list \<Rightarrow> package \<Rightarrow> bool" where
  "planned_package as p \<longleftrightarrow> (\<exists>a \<in> set as. ac_kind a = ActionInstall \<and> p = clonePackage (ac_package a))"

lemma apply_action_origin:
  assumes "state_ok m" "e \<in> set (fst (apply_action m a))"
  shows "e \<in> set m \<or> planned_package [a] (snd e)"
proof -
  obtain r m' where i: "applyInstallAction m a = (r, m')" by (cases "applyInstallAction m a")
  have ok: "map_ok m" using assms(1) by (simp add: state_ok_def)
  have "e \<in> set m \<or> snd e = clonePackage (ac_package a)" if "e \<in> set m'"
  proof (cases "r = None")
    case False
    then show ?thesis using install_result [OF i] that by auto
  next
    case True
    then obtain replaced where m': "m' = map_put (packageIdentity (ac_package a)) (clonePackage (ac_package a))
        (if replaced \<noteq> [] then map_delete replaced m else m)" using install_result [OF i] by auto
    let ?m = "if replaced \<noteq> [] then map_delete replaced m else m"
    have "map_ok ?m" using ok by (simp add: map_delete_ok)
    then have "e = (packageIdentity (ac_package a), clonePackage (ac_package a)) \<or> e \<in> set ?m"
      using that unfolding m' by (simp only: map_put_set insert_iff mem_Collect_eq) blast
    then show ?thesis by (auto simp: map_delete_def split: if_splits)
  qed
  then show ?thesis using assms(2) i
    by (auto simp: apply_action_def Let_def planned_package_def map_delete_def split: if_splits option.splits)
qed

lemma apply_actions_origin:
  "state_ok m \<Longrightarrow> e \<in> set (fst (apply_actions as seen m)) \<Longrightarrow> e \<in> set m \<or> planned_package as (snd e)"
proof (induction as arbitrary: seen m)
  case (Cons a as)
  have mono: "planned_package [a] p \<or> planned_package as p \<Longrightarrow> planned_package (a # as) p" for p
    unfolding planned_package_def by (simp only: list.set) blast
  show ?case
  proof (cases "action_key a \<in> set seen")
    case True
    then have "e \<in> set m \<or> planned_package as (snd e)" using Cons.IH [OF Cons.prems(1), of seen] Cons.prems(2) by simp
    then show ?thesis using mono by blast
  next
    case False
    then have "e \<in> set (fst (apply_action m a)) \<or> planned_package as (snd e)"
      using Cons.IH [OF apply_action_ok [OF Cons.prems(1), of a]] Cons.prems(2) by simp
    then show ?thesis using apply_action_origin [OF Cons.prems(1), of e a] mono by blast
  qed
qed simp

subsection \<open>The final state\<close>

definition final_map :: "package list \<Rightarrow> plan \<Rightarrow> package gomap" where
  "final_map installed p = fst (apply_actions (pl_actions p) [] (fst (load_installed installed [])))"

definition apply_violations :: "package list \<Rightarrow> plan \<Rightarrow> violation list" where
  "apply_violations installed p =
     snd (load_installed installed []) @ snd (apply_actions (pl_actions p) [] (fst (load_installed installed [])))"

lemma ApplyPlan_parts:
  "ar_packages (ApplyPlan installed p) = canonicalState (map snd (final_map installed p))"
  "ar_violations (ApplyPlan installed p) = fst (boundViolations (sortViolations (apply_violations installed p)) 0)"
  "ar_omitted (ApplyPlan installed p) = snd (snd (boundViolations (sortViolations (apply_violations installed p)) 0))"
  by (simp_all add: ApplyPlan_def final_map_def apply_violations_def split: prod.split)

lemma empty_state_ok: "state_ok []"
  by (simp add: state_ok_def map_ok_def)

lemma final_map_ok: "state_ok (final_map installed p)"
  unfolding final_map_def by (intro apply_actions_ok load_installed_ok empty_state_ok)

lemma loaded_unique: "slots_unique installed \<Longrightarrow> unique_map (fst (load_installed installed []))"
proof -
  assume u: "slots_unique installed"
  have entry: "\<exists>p \<in> set installed. e = (packageIdentity p, clonePackage p)" if "e \<in> set (fst (load_installed installed []))" for e
    using load_installed_entry [OF that] by (simp add: map_ok_def)
  have "fst e = fst d" if mem: "e \<in> set (fst (load_installed installed []))" "d \<in> set (fst (load_installed installed []))"
      and same: "same_slot (snd e) (snd d)" for e d
  proof -
    obtain p q where p: "p \<in> set installed" "e = (packageIdentity p, clonePackage p)"
      and q: "q \<in> set installed" "d = (packageIdentity q, clonePackage q)" using entry mem by blast
    then have "same_slot p q" using same by simp
    then show ?thesis using u p q unfolding slots_unique_def by (metis fst_conv)
  qed
  then show ?thesis unfolding unique_map_def by blast
qed

lemma final_packages:
  assumes "q \<in> set (ar_packages (ApplyPlan installed p))"
  shows "\<exists>r. (packageIdentity q, r) \<in> set (final_map installed p) \<and> q = clonePackage r"
proof -
  obtain e where e: "e \<in> set (final_map installed p)" "q = clonePackage (snd e)"
    using assms by (auto simp: ApplyPlan_parts canonicalState_def)
  then have "fst e = packageIdentity (snd e)" using final_map_ok unfolding state_ok_def by fastforce
  then show ?thesis using e by (intro exI [of _ "snd e"]) (metis clone_fields(3) prod.collapse)
qed

lemma final_identities:
  "sorted (map packageIdentity (ar_packages (ApplyPlan installed p)))"
  "distinct (map packageIdentity (ar_packages (ApplyPlan installed p)))"
proof -
  let ?m = "final_map installed p"
  show "sorted (map packageIdentity (ar_packages (ApplyPlan installed p)))"
    by (simp add: ApplyPlan_parts canonicalState_def)
  let ?l = "map clonePackage (map snd ?m)"
  have "map packageIdentity ?l = map fst ?m"
    using final_map_ok [of installed p] unfolding state_ok_def by fastforce
  moreover have "distinct (map fst ?m)"
    using final_map_ok [of installed p] by (intro map_ok_distinct) (simp add: state_ok_def)
  ultimately have "distinct (map packageIdentity ?l)" by (simp only:)
  then have "distinct ?l" "inj_on packageIdentity (set ?l)" by (simp_all only: distinct_map)
  then show "distinct (map packageIdentity (ar_packages (ApplyPlan installed p)))"
    unfolding ApplyPlan_parts canonicalState_def distinct_map set_sort distinct_sort by blast
qed

subsection \<open>The abstract specification of an action\<close>

text \<open>
  An action on the installed state seen as a finite map from identities to packages. It is a partial
  function: an action that is not allowed has no result. The implementation must agree with it on the
  state, and report a violation exactly where it is undefined.
\<close>

definition replaced_keys :: "(string \<rightharpoonup> package) \<Rightarrow> action_item \<Rightarrow> string set" where
  "replaced_keys s a = {k. ac_replaces a \<noteq> [] \<and> (\<exists>p. s k = Some p \<and> pk_cpv p = ac_replaces a)}"

definition spec_action :: "(string \<rightharpoonup> package) \<Rightarrow> action_item \<Rightarrow> (string \<rightharpoonup> package) option" where
  "spec_action s a =
     (let pkg = ac_package a; identity = packageIdentity pkg; gone = replaced_keys s a
      in if ac_kind a = ActionRemove then
           (if identity \<in> dom s then Some (s(identity := None)) else None)
         else if ac_kind a \<noteq> ActionInstall then None
         else if ac_replaces a \<noteq> [] \<and> card gone \<noteq> 1 then None
         else if identity \<in> dom s - gone then None
         else if \<exists>k \<in> dom s - gone. same_slot pkg (the (s k)) then None
         else Some ((s |` (- gone))(identity \<mapsto> clonePackage pkg)))"

lemma hits_keys:
  assumes "map_ok m"
  shows "fst ` set (filter (\<lambda>e. pk_cpv (snd e) = cpv) m) = {k. \<exists>p. map_of m k = Some p \<and> pk_cpv p = cpv}"
    and "distinct (map fst (filter (\<lambda>e. pk_cpv (snd e) = cpv) m))"
proof -
  show "fst ` set (filter (\<lambda>e. pk_cpv (snd e) = cpv) m) = {k. \<exists>p. map_of m k = Some p \<and> pk_cpv p = cpv}"
    using map_ok_entry [OF assms] by (auto simp: image_iff)
  show "distinct (map fst (filter (\<lambda>e. pk_cpv (snd e) = cpv) m))"
    using map_ok_distinct [OF assms] by (rule distinct_map_filter)
qed

lemma findCPV_keys:
  assumes "map_ok m" "findCPV m (ac_replaces a) = (found, n)" "ac_replaces a \<noteq> []"
  shows "n = card (replaced_keys (map_of m) a)" "n = 1 \<Longrightarrow> replaced_keys (map_of m) a = {found}"
proof -
  let ?h = "filter (\<lambda>e. pk_cpv (snd e) = ac_replaces a) m"
  have keys: "set (map fst ?h) = replaced_keys (map_of m) a"
    using hits_keys(1) [OF assms(1), of "ac_replaces a"] assms(3) by (simp add: replaced_keys_def)
  have n: "n = length ?h" using assms(2) by (simp add: findCPV_def Let_def)
  then show "n = card (replaced_keys (map_of m) a)"
    using distinct_card [OF hits_keys(2) [OF assms(1)]] keys by (metis length_map)
  assume "n = 1"
  then obtain e where "?h = [e]" using n by (auto simp: length_Suc_conv)
  then show "replaced_keys (map_of m) a = {found}" using keys assms(2) by (auto simp: findCPV_def Let_def)
qed

lemma sameSlot_iff:
  assumes "map_ok m"
  shows "sameSlotIdentity m c excluded \<noteq> [] \<longleftrightarrow> (\<exists>k \<in> dom (map_of m) - {excluded}. same_slot c (the (map_of m k)))"
proof
  assume r: "sameSlotIdentity m c excluded \<noteq> []"
  then obtain x where x: "parseCPV (pk_cpv c) = Inr x" by (auto simp: sameSlotIdentity_def split: sum.splits)
  let ?P = "\<lambda>(identity, pkg). identity \<noteq> excluded \<and>
      (case parseCPV (pk_cpv pkg) of Inl e \<Rightarrow> False | Inr a \<Rightarrow> CP a = CP x \<and> pk_slot pkg = pk_slot c)"
  obtain k p where kp: "find ?P m = Some (k, p)" using r x by (auto simp: sameSlotIdentity_def split: option.splits)
  then have mem: "(k, p) \<in> set m" and P: "?P (k, p)" by (auto simp: find_Some_iff in_set_conv_nth)
  have "map_of m k = Some p" using mem map_ok_entry [OF assms] by blast
  moreover have "same_slot c p" using P x by (auto simp: same_slot_def package_key_def split: sum.splits)
  ultimately show "\<exists>k \<in> dom (map_of m) - {excluded}. same_slot c (the (map_of m k))"
    using P by (intro bexI [of _ k]) auto
next
  assume "\<exists>k \<in> dom (map_of m) - {excluded}. same_slot c (the (map_of m k))"
  then obtain k where k: "k \<in> dom (map_of m)" "k \<noteq> excluded" "same_slot c (the (map_of m k))" by blast
  then obtain p where "map_of m k = Some p" by blast
  then have kp: "map_of m k = Some p" "k \<noteq> excluded" "same_slot c p" using k by simp_all
  then have "(k, p) \<in> set m" using map_ok_entry [OF assms] by blast
  then show "sameSlotIdentity m c excluded \<noteq> []" using sameSlot_none(1) [of m c excluded k p] kp by blast
qed

lemma restrict_none: "s |` (- {}) = s" "s |` (- {k}) = s(k := None)"
  by (auto simp: restrict_map_def)

lemma install_refines:
  assumes "state_ok m" "ac_kind a = ActionInstall" "applyInstallAction m a = (r, m')"
  shows "(case spec_action (map_of m) a of None \<Rightarrow> r \<noteq> None \<and> map_of m' = map_of m | Some s \<Rightarrow> r = None \<and> map_of m' = s)"
proof -
  have ok: "map_ok m" using assms(1) by (simp add: state_ok_def)
  obtain found n where f: "findCPV m (ac_replaces a) = (found, n)" by (cases "findCPV m (ac_replaces a)")
  let ?gone = "replaced_keys (map_of m) a" and ?replaced = "if ac_replaces a \<noteq> [] then found else []"
  have kind: "ac_kind a \<noteq> ActionRemove" using assms(2) by (simp add: ActionInstall_def ActionRemove_def)
  have nokey: "map_of m [] = None"
  proof (rule ccontr)
    assume "map_of m [] \<noteq> None"
    then obtain p where "([], p) \<in> set m" using map_of_SomeD by fastforce
    then show False using assms(1) identity_nonempty [of p] unfolding state_ok_def by fastforce
  qed
  show ?thesis
  proof (cases "ac_replaces a \<noteq> [] \<and> n \<noteq> 1")
    case True
    then show ?thesis using assms(2,3) kind f findCPV_keys(1) [OF ok f]
      by (auto simp: applyInstallAction_def spec_action_def Let_def)
  next
    case False
    have gone: "?gone = (if ac_replaces a \<noteq> [] then {?replaced} else {})" "card ?gone = (if ac_replaces a \<noteq> [] then 1 else 0)"
      using False findCPV_keys(2) [OF ok f] by (auto simp: replaced_keys_def)
    have keys: "k \<in> dom (map_of m) - ?gone \<longleftrightarrow> k \<in> dom (map_of m) - {?replaced}" for k
      using gone(1) nokey by auto
    have del: "map_of (if ?replaced \<noteq> [] then map_delete ?replaced m else m) = map_of m |` (- ?gone)"
      using gone(1) nokey by (auto simp: restrict_none fun_upd_idem)
    have slot: "sameSlotIdentity m (ac_package a) ?replaced \<noteq> [] \<longleftrightarrow>
        (\<exists>k \<in> dom (map_of m) - ?gone. same_slot (ac_package a) (the (map_of m k)))"
      using sameSlot_iff [OF ok] keys by blast
    have installed: "map_of m (packageIdentity (ac_package a)) \<noteq> None \<and> packageIdentity (ac_package a) \<noteq> ?replaced \<longleftrightarrow>
        packageIdentity (ac_package a) \<in> dom (map_of m) - ?gone"
      using keys by auto
    show ?thesis
      using assms(2,3) kind f False gone(2) slot installed del
      unfolding applyInstallAction_def spec_action_def Let_def by (auto simp del: map_of_delete)
  qed
qed

lemma action_refines:
  assumes "state_ok m"
  shows "(case spec_action (map_of m) a of
       None \<Rightarrow> snd (apply_action m a) \<noteq> [] \<and> map_of (fst (apply_action m a)) = map_of m
     | Some s \<Rightarrow> snd (apply_action m a) = [] \<and> map_of (fst (apply_action m a)) = s)"
proof -
  obtain r m' where i: "applyInstallAction m a = (r, m')" by (cases "applyInstallAction m a")
  have kinds: "ActionInstall \<noteq> ActionRemove" by (simp add: ActionInstall_def ActionRemove_def)
  consider "ac_kind a = ActionRemove" | "ac_kind a = ActionInstall" | "ac_kind a \<noteq> ActionRemove" "ac_kind a \<noteq> ActionInstall"
    by blast
  then show ?thesis
  proof cases
    case 1
    then show ?thesis by (auto simp: spec_action_def apply_action_def Let_def)
  next
    case 2
    then show ?thesis using install_refines [OF assms 2 i] i kinds
      by (cases r) (auto simp: apply_action_def Let_def split: option.splits)
  next
    case 3
    then show ?thesis by (simp add: spec_action_def apply_action_def Let_def)
  qed
qed

lemma applied_slots_unique:
  assumes "slots_unique installed"
  shows "slots_unique (ar_packages (ApplyPlan installed p))"
proof -
  have "unique_map (final_map installed p)"
    unfolding final_map_def using loaded_unique [OF assms] load_installed_ok [OF empty_state_ok]
    by (intro apply_actions_unique)
  moreover have "same_slot (clonePackage r) (clonePackage s) \<longleftrightarrow> same_slot r s" for r s by simp
  ultimately have "packageIdentity q = packageIdentity q'"
    if "q \<in> set (ar_packages (ApplyPlan installed p))" "q' \<in> set (ar_packages (ApplyPlan installed p))" "same_slot q q'" for q q'
    using final_packages [OF that(1)] final_packages [OF that(2)] that(3) unique_mapD by (metis fst_conv snd_conv)
  then show ?thesis unfolding slots_unique_def by blast
qed

subsection \<open>Properties\<close>

text \<open>
  Claim C17: Applying a plan never puts two packages into one slot: if no two installed packages share category, package and
  slot, neither do any two packages of the resulting state, whatever the actions are, and the
  result lists every identity once, in order.
\<close>

theorem apply_plan_slots_unique:
  assumes "slots_unique installed"
  shows "slots_unique (ar_packages (ApplyPlan installed p)) \<and>
    distinct (map packageIdentity (ar_packages (ApplyPlan installed p))) \<and>
    sorted (map packageIdentity (ar_packages (ApplyPlan installed p)))"
  using applied_slots_unique [OF assms] final_identities by blast

theorem apply_plan_slots_unique_witness:
  "slots_unique (ar_packages (ApplyPlan
     [zero_package\<lparr>pk_cpv := ''a/b-1'', pk_slot := ''0''\<rparr>, zero_package\<lparr>pk_cpv := ''a/b-2'', pk_slot := ''2''\<rparr>]
     ((schema_plan 1)\<lparr>pl_actions := [zero_action\<lparr>ac_kind := ''install'',
        ac_package := zero_package\<lparr>pk_cpv := ''a/b-3'', pk_slot := ''2''\<rparr>, ac_replaces := ''a/b-2''\<rparr>]\<rparr>)))"
proof -
  have "slots_unique [zero_package\<lparr>pk_cpv := ''a/b-1'', pk_slot := ''0''\<rparr>, zero_package\<lparr>pk_cpv := ''a/b-2'', pk_slot := ''2''\<rparr>]"
    by (simp add: slots_unique_def same_slot_def zero_package_def)
  then show ?thesis using apply_plan_slots_unique by blast
qed

text \<open>
  \<^verbatim>\<open>ApplyPlan\<close> changes nothing the plan does not name. Every package of the result is a copy of an installed
  package or of the package of an install action; and an installed package that no action installs,
  removes or replaces is in the result.
\<close>

theorem apply_plan_frame:
  assumes "distinct (map packageIdentity installed)" "p \<in> set installed"
    "\<forall>a \<in> set (pl_actions plan'). \<not> touches a p" "q \<in> set (ar_packages (ApplyPlan installed plan'))"
  shows "clonePackage p \<in> set (ar_packages (ApplyPlan installed plan')) \<and>
    (q \<in> clonePackage ` set installed \<or> planned_package (pl_actions plan') q)"
proof
  let ?m = "fst (load_installed installed [])"
  have ok: "state_ok ?m" by (rule load_installed_ok [OF empty_state_ok])
  have "map_of ?m (packageIdentity p) = Some (clonePackage p)"
    using assms(1,2) by (intro load_installed_keeps) simp_all
  moreover have "\<forall>a \<in> set (pl_actions plan'). \<not> touches a (clonePackage p)" using assms(3) by (simp add: touches_def)
  ultimately have "map_of (final_map installed plan') (packageIdentity p) = Some (clonePackage p)"
    using apply_actions_keeps [OF ok, of "clonePackage p"] by (simp add: final_map_def)
  then have "(packageIdentity p, clonePackage p) \<in> set (final_map installed plan')" by (rule map_of_SomeD)
  then show "clonePackage p \<in> set (ar_packages (ApplyPlan installed plan'))"
    by (simp add: ApplyPlan_parts canonicalState_def image_comp) (metis clone_idem comp_apply image_eqI snd_conv)
next
  obtain r where r: "(packageIdentity q, r) \<in> set (final_map installed plan')" "q = clonePackage r"
    using final_packages [OF assms(4)] by blast
  have "(packageIdentity q, r) \<in> set (fst (load_installed installed [])) \<or> planned_package (pl_actions plan') r"
    using apply_actions_origin [OF load_installed_ok [OF empty_state_ok]] r(1) by (fastforce simp: final_map_def)
  then show "q \<in> clonePackage ` set installed \<or> planned_package (pl_actions plan') q"
  proof
    assume "(packageIdentity q, r) \<in> set (fst (load_installed installed []))"
    then obtain x where "x \<in> set installed" "r = clonePackage x"
      using load_installed_entry [of "(packageIdentity q, r)" installed "[]"] by (auto simp: map_ok_def)
    then show ?thesis using r(2) by simp
  next
    assume "planned_package (pl_actions plan') r"
    then show ?thesis using r(2) by (auto simp: planned_package_def)
  qed
qed

theorem apply_plan_frame_witness:
  "clonePackage (zero_package\<lparr>pk_cpv := ''a/b-1''\<rparr>) \<in>
     set (ar_packages (ApplyPlan [zero_package\<lparr>pk_cpv := ''a/b-1''\<rparr>] (schema_plan 1)))"
proof -
  let ?p = "zero_package\<lparr>pk_cpv := ''a/b-1''\<rparr>"
  have "ar_packages (ApplyPlan [?p] (schema_plan 1)) = [clonePackage ?p]"
    by (simp add: ApplyPlan_parts final_map_def schema_plan_def canonicalState_def)
  then show ?thesis using apply_plan_frame [of "[?p]" ?p "schema_plan 1" "clonePackage ?p"] by (simp add: schema_plan_def)
qed

text \<open>
  Claim C18: In every state a plan can reach, one more action refines its abstract specification on finite maps: where
  the specification allows the action the implementation reaches the specified state without a
  violation, and where it does not the state stays as it was and a violation is reported.
\<close>

theorem apply_action_refines_spec:
  "case spec_action (map_of (final_map installed p)) a of
     None \<Rightarrow> snd (apply_action (final_map installed p) a) \<noteq> [] \<and>
       map_of (fst (apply_action (final_map installed p) a)) = map_of (final_map installed p)
   | Some s \<Rightarrow> snd (apply_action (final_map installed p) a) = [] \<and>
       map_of (fst (apply_action (final_map installed p) a)) = s"
  by (rule action_refines [OF final_map_ok])

end
