(* ===== verification/Plan_Decisions.thy ===== *)
theory Plan_Decisions
  imports Plan_Semantics
begin

text \<open>
  The decision ledger of a plan, \<^verbatim>\<open>src/internal/planvalidate/decisions.go\<close>: every candidate considered, with its outcome
  and the action it led to. The size of a record is the length of its JSON encoding by \<^verbatim>\<open>json.Marshal\<close>, which is
  modelled byte by byte. The loop over the records is a recursion on them with the loop variables as a state.
\<close>

subsection \<open>JSON encoding of a record\<close>

definition hex_char :: "nat \<Rightarrow> char" where
  "hex_char n = (if n < 10 then char_of (48 + n) else char_of (87 + n))"

definition json_escape :: "char \<Rightarrow> string" where
  \<comment> \<open>a byte below 0x80; the HTML characters are escaped as well\<close>
  "json_escape c =
     (let b = code c in
      if b = 0x22 \<or> b = 0x5C then [CHR 0x5C, c]
      else if b = 8 then [CHR 0x5C, CHR ''b'']
      else if b = 12 then [CHR 0x5C, CHR ''f'']
      else if b = 10 then [CHR 0x5C, CHR ''n'']
      else if b = 13 then [CHR 0x5C, CHR ''r'']
      else if b = 9 then [CHR 0x5C, CHR ''t'']
      else if b < 0x20 \<or> c \<in> {CHR ''<'', CHR ''>'', CHR ''&''} then
        [CHR 0x5C, CHR ''u'', CHR ''0'', CHR ''0'', hex_char (b div 16), hex_char (b mod 16)]
      else [c])"

definition continuation :: "nat \<Rightarrow> nat \<Rightarrow> string \<Rightarrow> nat \<Rightarrow> bool" where
  \<comment> \<open>the byte at index \<open>i\<close> exists and is in the range\<close>
  "continuation lo hi s i \<longleftrightarrow> i < length s \<and> lo \<le> code (s ! i) \<and> code (s ! i) \<le> hi"

definition rune_size :: "string \<Rightarrow> nat" where
  \<comment> \<open>the size of the UTF-8 sequence at the start of a text whose first byte is at least 0x80, and 0 if it is invalid\<close>
  "rune_size s =
     (let b = code (hd s); second = (\<lambda>lo hi. continuation lo hi s 1); tail = continuation 0x80 0xBF s in
      if 0xC2 \<le> b \<and> b \<le> 0xDF \<and> second 0x80 0xBF then 2
      else if (b = 0xE0 \<and> second 0xA0 0xBF \<or> b = 0xED \<and> second 0x80 0x9F \<or>
               0xE1 \<le> b \<and> b \<le> 0xEF \<and> b \<noteq> 0xED \<and> second 0x80 0xBF) \<and> tail 2 then 3
      else if (b = 0xF0 \<and> second 0x90 0xBF \<or> b = 0xF4 \<and> second 0x80 0x8F \<or>
               0xF1 \<le> b \<and> b \<le> 0xF3 \<and> second 0x80 0xBF) \<and> tail 2 \<and> tail 3 then 4
      else 0)"

definition json_rune :: "string \<Rightarrow> string" where
  \<comment> \<open>the encoding of a valid sequence: U+2028 and U+2029 are escaped\<close>
  "json_rune r =
     (if map code r = [0xE2, 0x80, 0xA8] then CHR 0x5C # ''u2028''
      else if map code r = [0xE2, 0x80, 0xA9] then CHR 0x5C # ''u2029''
      else r)"

function json_text :: "string \<Rightarrow> string" where
  "json_text [] = []"
| "json_text (c # cs) =
     (if code c < 0x80 then json_escape c @ json_text cs
      else if rune_size (c # cs) = 0 then (CHR 0x5C # ''ufffd'') @ json_text cs
      else json_rune (take (rune_size (c # cs)) (c # cs)) @ json_text (drop (rune_size (c # cs) - 1) cs))"
  by pat_completeness auto
termination by (relation "measure length") auto

definition json_string :: "string \<Rightarrow> string" where
  "json_string s = CHR 0x22 # json_text s @ [CHR 0x22]"

definition json_strings :: "string list option \<Rightarrow> string" where
  \<comment> \<open>a nil slice is null\<close>
  "json_strings xs = (case xs of None \<Rightarrow> ''null'' | Some ss \<Rightarrow> ''['' @ join_with '','' (map json_string ss) @ '']'')"

definition json_member :: "string \<Rightarrow> string \<Rightarrow> string" where
  "json_member name encoded = json_string name @ '':'' @ encoded"

definition json_record :: "decision_record \<Rightarrow> string" where
  \<comment> \<open>the fields in the order of the struct, an empty field with \<^verbatim>\<open>omitempty\<close> left out\<close>
  "json_record r =
     (let optional = (\<lambda>name s. if s = [] then [] else [json_member name (json_string s)]) in
      ''{'' @ join_with '',''
        ([json_member ''id'' (json_string (dr_id r)), json_member ''outcome'' (json_string (dr_outcome r)),
          json_member ''state'' (json_string (dr_state r)), json_member ''cpv'' (json_string (dr_cpv r)),
          json_member ''slot'' (json_string (dr_slot r))] @
         optional ''subslot'' (dr_subslot r) @ optional ''repository'' (dr_repository r) @ optional ''action_id'' (dr_action_id r) @
         [json_member ''reasons'' (json_strings (dr_reasons r))] @
         (if dr_requirements r = [] then [] else [json_member ''requirements'' (json_strings (Some (dr_requirements r)))])) @ ''}'')"

subsection \<open>The checks\<close>

definition MaxDecisionRecords :: int where "MaxDecisionRecords = 4096"

definition MaxDecisionBytes :: int where "MaxDecisionBytes = 1048576"

definition decisionRank :: "string \<Rightarrow> int" where
  "decisionRank outcome =
     (if outcome = ''selected'' then 0 else if outcome = ''retained'' then 1
      else if outcome = ''rejected'' then 2 else if outcome = ''skipped'' then 3 else -1)"

definition actions_by_id :: "action_item list \<Rightarrow> action_item gomap" where
  \<comment> \<open>a later action replaces an earlier one with the same identity\<close>
  "actions_by_id actions = foldl (\<lambda>m a. if ac_id a \<noteq> [] then map_put (ac_id a) a m else m) [] actions"

record ledger_state =
  ls_seen :: "string list"
  ls_linked :: "string list"
  ls_bytes :: nat
  ls_rank :: int
  ls_id :: string

definition link_violations :: "action_item gomap \<Rightarrow> decision_record \<Rightarrow> violation list" where
  \<comment> \<open>the link between a record and its action\<close>
  "link_violations ids r =
     (if dr_outcome r = ''selected'' then
        (case map_of ids (dr_action_id r) of
           None \<Rightarrow> [violation_of ''selected-decision-without-action'' (dr_cpv r) (dr_action_id r) []
             ''selected decision does not link to an executable action'']
         | Some a \<Rightarrow>
             if pk_cpv (ac_package a) \<noteq> dr_cpv r \<or> pk_slot (ac_package a) \<noteq> dr_slot r \<or>
                pk_repository (ac_package a) \<noteq> dr_repository r
             then [violation_of ''decision-action-mismatch'' (dr_cpv r) (dr_action_id r) []
               ''selected decision identity differs from its executable action'']
             else [])
      else if dr_action_id r \<noteq> [] then
        [violation_of ''nonselected-decision-with-action'' (dr_cpv r) (dr_action_id r) []
          ''non-selected decision links to an executable action'']
      else [])"

definition record_violations :: "action_item gomap \<Rightarrow> ledger_state \<Rightarrow> decision_record \<Rightarrow> violation list" where
  "record_violations ids st r =
     (if dr_id r = [] then [violation_of ''missing-decision-id'' (dr_cpv r) [] [] ''decision record has no stable identity'']
      else if dr_id r \<in> set (ls_seen st) then
        [violation_of ''duplicate-decision-id'' (dr_cpv r) (dr_id r) [] ''decision ledger contains duplicate candidate identity'']
      else []) @
     (if decisionRank (dr_outcome r) < 0
      then [violation_of ''invalid-decision-outcome'' (dr_cpv r) (dr_outcome r) [] ''decision outcome is unsupported''] else []) @
     (if ls_rank st > decisionRank (dr_outcome r) \<or> ls_rank st = decisionRank (dr_outcome r) \<and> ls_id st > dr_id r
      then [violation_of ''noncanonical-decision-order'' (dr_cpv r) (dr_id r) [] ''decision records are not canonically ordered''] else []) @
     (if dr_state r \<noteq> ''available'' \<and> dr_state r \<noteq> ''installed''
      then [violation_of ''invalid-decision-state'' (dr_cpv r) (dr_state r) [] ''decision candidate state is unsupported''] else []) @
     (if entries (dr_reasons r) = [] \<or> \<not> sorted (entries (dr_reasons r))
      then [violation_of ''invalid-decision-reasons'' (dr_cpv r) (dr_id r) [] ''decision reasons must be nonempty and sorted''] else []) @
     (if \<not> sorted (dr_requirements r)
      then [violation_of ''invalid-decision-requirements'' (dr_cpv r) (dr_id r) [] ''decision requirements must be sorted''] else []) @
     link_violations ids r"

definition record_next :: "action_item gomap \<Rightarrow> ledger_state \<Rightarrow> decision_record \<Rightarrow> ledger_state" where
  "record_next ids st r =
     \<lparr>ls_seen = dr_id r # ls_seen st,
      ls_linked = (if dr_outcome r = ''selected'' \<and> link_violations ids r = [] then dr_action_id r # ls_linked st else ls_linked st),
      ls_bytes = ls_bytes st + length (json_record r),
      ls_rank = decisionRank (dr_outcome r), ls_id = dr_id r\<rparr>"

primrec validate_records :: "action_item gomap \<Rightarrow> ledger_state \<Rightarrow> decision_record list \<Rightarrow> violation list \<times> ledger_state" where
  "validate_records ids st [] = ([], st)"
| "validate_records ids st (r # rs) =
     (case validate_records ids (record_next ids st r) rs of (vs, st') \<Rightarrow> (record_violations ids st r @ vs, st'))"

definition empty_ledger_state :: ledger_state where
  "empty_ledger_state = \<lparr>ls_seen = [], ls_linked = [], ls_bytes = 0, ls_rank = -1, ls_id = []\<rparr>"

definition validateDecisionLedger :: "plan \<Rightarrow> violation list" where
  "validateDecisionLedger p =
     (let ids = actions_by_id (pl_actions p); ledger = pl_decisions p in
      case validate_records ids empty_ledger_state (dl_records ledger) of (vs, st) \<Rightarrow>
        vs @
        map (\<lambda>(i, a). violation_of ''action-without-selected-decision'' (pk_cpv (ac_package a)) i []
              ''executable action has no selected decision record'')
          (filter (\<lambda>(i, a). i \<notin> set (ls_linked st)) ids) @
        (if int (length (dl_records ledger)) > MaxDecisionRecords \<or> int (ls_bytes st) > MaxDecisionBytes
         then [violation_of ''unbounded-decision-ledger'' []
           (show_nat (length (dl_records ledger)) @ '' records/'' @ show_nat (ls_bytes st) @ '' bytes'') []
           ''decision ledger exceeds its independent bounds''] else []) @
        (if dl_encoded_bytes ledger \<noteq> int (ls_bytes st)
         then [violation_of ''decision-byte-count-mismatch'' [] (Itoa (dl_encoded_bytes ledger)) []
           ''decision ledger encoded byte count is not reproducible''] else []) @
        (if dl_truncated ledger \<noteq> (dl_omitted_records ledger > 0) \<or> dl_omitted_records ledger < 0
         then [violation_of ''invalid-decision-truncation'' [] (Itoa (dl_omitted_records ledger)) []
           ''decision truncation metadata is inconsistent''] else []))"

subsection \<open>A specification of ledgers\<close>

definition decision_le :: "int \<times> string \<Rightarrow> int \<times> string \<Rightarrow> bool" where
  "decision_le x y \<longleftrightarrow> fst x < fst y \<or> fst x = fst y \<and> snd x \<le> snd y"

definition decision_key :: "decision_record \<Rightarrow> int \<times> string" where
  "decision_key r = (decisionRank (dr_outcome r), dr_id r)"

definition names_package :: "decision_record \<Rightarrow> package \<Rightarrow> bool" where
  "names_package r p \<longleftrightarrow> pk_cpv p = dr_cpv r \<and> pk_slot p = dr_slot r \<and> pk_repository p = dr_repository r"

definition link_ok :: "action_item gomap \<Rightarrow> decision_record \<Rightarrow> bool" where
  "link_ok ids r \<longleftrightarrow>
     (if dr_outcome r = ''selected'' then (\<exists>a. map_of ids (dr_action_id r) = Some a \<and> names_package r (ac_package a))
      else dr_action_id r = [])"

definition record_ok :: "action_item gomap \<Rightarrow> decision_record \<Rightarrow> bool" where
  "record_ok ids r \<longleftrightarrow>
     dr_id r \<noteq> [] \<and> dr_outcome r \<in> {''selected'', ''retained'', ''rejected'', ''skipped''} \<and>
     dr_state r \<in> {''available'', ''installed''} \<and>
     entries (dr_reasons r) \<noteq> [] \<and> sorted (entries (dr_reasons r)) \<and> sorted (dr_requirements r) \<and> link_ok ids r"

definition ledger_bytes :: "decision_record list \<Rightarrow> nat" where
  "ledger_bytes rs = sum_list (map (\<lambda>r. length (json_record r)) rs)"

definition ledger_ok :: "plan \<Rightarrow> bool" where
  "ledger_ok p \<longleftrightarrow>
     (\<forall>r \<in> set (dl_records (pl_decisions p)). record_ok (actions_by_id (pl_actions p)) r) \<and>
     distinct (map dr_id (dl_records (pl_decisions p))) \<and>
     sorted_wrt decision_le (map decision_key (dl_records (pl_decisions p))) \<and>
     (\<forall>a \<in> set (pl_actions p). ac_id a \<noteq> [] \<longrightarrow>
        (\<exists>r \<in> set (dl_records (pl_decisions p)). dr_outcome r = ''selected'' \<and> dr_action_id r = ac_id a)) \<and>
     int (length (dl_records (pl_decisions p))) \<le> MaxDecisionRecords \<and>
     int (ledger_bytes (dl_records (pl_decisions p))) \<le> MaxDecisionBytes \<and>
     dl_encoded_bytes (pl_decisions p) = int (ledger_bytes (dl_records (pl_decisions p))) \<and>
     0 \<le> dl_omitted_records (pl_decisions p) \<and>
     (dl_truncated (pl_decisions p) \<longleftrightarrow> 0 < dl_omitted_records (pl_decisions p))"

lemma transp_decision_le: "transp decision_le"
  by (rule transpI) (auto simp: decision_le_def)

lemma decisionRank_negative: "decisionRank outcome < 0 \<longleftrightarrow> outcome \<notin> {''selected'', ''retained'', ''rejected'', ''skipped''}"
  by (simp add: decisionRank_def)

lemma link_clean: "link_violations ids r = [] \<longleftrightarrow> link_ok ids r"
  by (auto simp: link_violations_def link_ok_def names_package_def split: option.splits)

lemma record_clean:
  "record_violations ids st r = [] \<longleftrightarrow>
   record_ok ids r \<and> dr_id r \<notin> set (ls_seen st) \<and> decision_le (ls_rank st, ls_id st) (decision_key r)"
proof -
  have "\<not> (ls_rank st > k \<or> ls_rank st = k \<and> ls_id st > i) \<longleftrightarrow> decision_le (ls_rank st, ls_id st) (k, i)" for k i
    by (auto simp: decision_le_def)
  moreover have "(if b then [v] else []) = [] \<longleftrightarrow> \<not> b" "(if b then [v] else if c then [w] else []) = [] \<longleftrightarrow> \<not> b \<and> \<not> c"
    for b c and v w :: violation by simp_all
  ultimately show ?thesis
    unfolding record_violations_def record_ok_def decision_key_def append_is_Nil_conv link_clean decisionRank_negative
    by (simp only:) blast
qed

lemma validate_records_clean:
  "fst (validate_records ids st rs) = [] \<longleftrightarrow>
   (\<forall>r \<in> set rs. record_ok ids r) \<and> distinct (map dr_id rs) \<and> dr_id ` set rs \<inter> set (ls_seen st) = {} \<and>
   sorted_wrt decision_le ((ls_rank st, ls_id st) # map decision_key rs)"
proof (induction rs arbitrary: st)
  case (Cons r rs)
  have key: "(ls_rank (record_next ids st r), ls_id (record_next ids st r)) = decision_key r"
    by (simp add: record_next_def decision_key_def)
  have seen: "ls_seen (record_next ids st r) = dr_id r # ls_seen st" by (simp add: record_next_def)
  have "fst (validate_records ids st (r # rs)) = [] \<longleftrightarrow>
      record_violations ids st r = [] \<and> fst (validate_records ids (record_next ids st r) rs) = []"
    by (simp add: case_prod_beta)
  also have "\<dots> \<longleftrightarrow> record_ok ids r \<and> dr_id r \<notin> set (ls_seen st) \<and> decision_le (ls_rank st, ls_id st) (decision_key r) \<and>
      (\<forall>r \<in> set rs. record_ok ids r) \<and> distinct (map dr_id rs) \<and> dr_id ` set rs \<inter> set (dr_id r # ls_seen st) = {} \<and>
      sorted_wrt decision_le (decision_key r # map decision_key rs)"
    unfolding record_clean Cons.IH key seen by blast
  also have "\<dots> \<longleftrightarrow> (\<forall>r \<in> set (r # rs). record_ok ids r) \<and> distinct (map dr_id (r # rs)) \<and>
      dr_id ` set (r # rs) \<inter> set (ls_seen st) = {} \<and>
      sorted_wrt decision_le ((ls_rank st, ls_id st) # map decision_key (r # rs))"
    unfolding list.map sorted_wrt2 [OF transp_decision_le] by auto
  finally show ?case .
qed simp

lemma validate_records_bytes: "ls_bytes (snd (validate_records ids st rs)) = ls_bytes st + ledger_bytes rs"
  by (induction rs arbitrary: st) (simp_all add: case_prod_beta ledger_bytes_def record_next_def)

lemma validate_records_linked:
  "set (ls_linked (snd (validate_records ids st rs))) =
   set (ls_linked st) \<union> dr_action_id ` {r \<in> set rs. dr_outcome r = ''selected'' \<and> link_ok ids r}"
  by (induction rs arbitrary: st) (auto simp: case_prod_beta record_next_def link_clean)

lemma actions_by_id_of:
  "map_of (actions_by_id actions) i = (if i = [] then None else find (\<lambda>a. ac_id a = i) (rev actions))"
  unfolding actions_by_id_def by (induction actions rule: rev_induct) auto

lemma actions_by_id_keys: "fst ` set (actions_by_id actions) = ac_id ` {a \<in> set actions. ac_id a \<noteq> []}"
  unfolding actions_by_id_def by (induction actions rule: rev_induct) auto

lemma ledger_clean: "validateDecisionLedger p = [] \<longleftrightarrow> ledger_ok p"
proof -
  let ?ids = "actions_by_id (pl_actions p)" and ?rs = "dl_records (pl_decisions p)"
  let ?st = "snd (validate_records ?ids empty_ledger_state ?rs)"
  have start: "sorted_wrt decision_le ((-1, []) # map decision_key ?rs) \<longleftrightarrow> sorted_wrt decision_le (map decision_key ?rs)"
    if "\<forall>r \<in> set ?rs. record_ok ?ids r"
  proof -
    have "0 \<le> decisionRank (dr_outcome r)" if "r \<in> set ?rs" for r
      using decisionRank_negative [of "dr_outcome r"] \<open>\<forall>r \<in> set ?rs. record_ok ?ids r\<close> that
      unfolding record_ok_def by (metis linorder_not_less)
    then have "decision_le (-1, []) k" if "k \<in> set (map decision_key ?rs)" for k
      using that by (fastforce simp: decision_le_def decision_key_def)
    then show ?thesis by simp
  qed
  have records: "fst (validate_records ?ids empty_ledger_state ?rs) = [] \<longleftrightarrow>
      (\<forall>r \<in> set ?rs. record_ok ?ids r) \<and> distinct (map dr_id ?rs) \<and> sorted_wrt decision_le (map decision_key ?rs)"
    unfolding validate_records_clean using start by (auto simp: empty_ledger_state_def)
  have linked: "filter (\<lambda>(i, a). i \<notin> set (ls_linked ?st)) ?ids = [] \<longleftrightarrow>
      (\<forall>a \<in> set (pl_actions p). ac_id a \<noteq> [] \<longrightarrow> (\<exists>r \<in> set ?rs. dr_outcome r = ''selected'' \<and> dr_action_id r = ac_id a))"
    if ok: "\<forall>r \<in> set ?rs. record_ok ?ids r"
  proof -
    have "set (ls_linked ?st) = dr_action_id ` {r \<in> set ?rs. dr_outcome r = ''selected''}"
      using ok by (auto simp: validate_records_linked empty_ledger_state_def record_ok_def)
    then have "filter (\<lambda>(i, a). i \<notin> set (ls_linked ?st)) ?ids = [] \<longleftrightarrow>
        (\<forall>i \<in> fst ` set ?ids. \<exists>r \<in> set ?rs. dr_outcome r = ''selected'' \<and> dr_action_id r = i)"
      by (simp add: filter_empty_conv case_prod_beta image_iff conj_commute eq_commute [of "fst _"] Bex_def)
    then show ?thesis by (simp add: actions_by_id_keys) blast
  qed
  have bytes: "ls_bytes ?st = ledger_bytes ?rs" by (simp add: validate_records_bytes empty_ledger_state_def)
  show ?thesis unfolding validateDecisionLedger_def Let_def case_prod_beta [of _ "validate_records _ _ _"]
      append_is_Nil_conv map_is_Nil_conv records bytes ledger_ok_def
    using linked by (auto split: if_splits)
qed

interpretation ledger_check: validator validateDecisionLedger ledger_ok
  by unfold_locales (rule ledger_clean)

text \<open>
  \<^verbatim>\<open>validateDecisionLedger\<close> reports nothing exactly for the ledgers that satisfy the specification: well-formed
  records with distinct identities in canonical order, a selected record for every action with an identity and only
  for actions on the package it names, at most 4096 records and 1 MiB of JSON, the recorded byte count reproduced and truncation
  metadata consistent.
\<close>

theorem decision_ledger_exact: "validateDecisionLedger p = [] \<longleftrightarrow> ledger_ok p"
  by (rule ledger_check.clean)

end
