(* ===== verification/Plan_Order.thy ===== *)
theory Plan_Order
  imports Plan_Apply Plan_Decisions
begin

text \<open>
  The checks of the actions of a plan in \<^verbatim>\<open>src/internal/planvalidate/validate.go\<close>: that installed packages are the ones the
  fixture offers (\<^verbatim>\<open>validateActionAuthority\<close>), that prerequisites precede the actions that need them
  (\<^verbatim>\<open>validateActionOrder\<close>), that the requested targets are met (\<^verbatim>\<open>validateTargets\<close>), and that every install action is justified by
  the request, a decision, a repaired dependency or as a prerequisite of a justified action
  (\<^verbatim>\<open>validateActionJustification\<close>). The recursion \<^verbatim>\<open>visit\<close> over prerequisites carries fuel; one more than the number of
  prerequisites of the plan is enough, because every call marks another one.
\<close>

subsection \<open>Authority\<close>

definition authority_violations :: "package list \<Rightarrow> package \<Rightarrow> violation list" where
  "authority_violations available pkg =
     (if pk_merge_type pkg \<notin> {[], ''source'', ''binary''}
      then [violation_of ''unsupported-merge-type'' (pk_cpv pkg) (pk_merge_type pkg) []
        ''install action has an unsupported merge type''] else []) @
     (case find (\<lambda>candidate. packageIdentity candidate = packageIdentity pkg) available of
        None \<Rightarrow> [violation_of ''unavailable-package'' (pk_cpv pkg) (packageIdentity pkg) []
          ''install target is absent from frozen available state'']
      | Some candidate \<Rightarrow>
          (if candidate \<noteq> pkg
           then [violation_of ''non-authoritative-package-metadata'' (pk_cpv pkg) (packageIdentity pkg) []
             ''plan package metadata differs from frozen available metadata''] else []) @
          (if pk_authority candidate \<noteq> AuthorityMD5Cache \<and> pk_authority candidate \<noteq> AuthorityEvaluated
           then [violation_of ''non-authoritative-package-source'' (pk_cpv pkg) (pk_authority candidate) []
             ''install target lacks authoritative evaluated repository metadata''] else []))"

definition validateActionAuthority :: "package list \<Rightarrow> action_item list \<Rightarrow> violation list" where
  "validateActionAuthority available actions =
     concat (map (\<lambda>a. if ac_kind a \<noteq> ActionInstall then [] else authority_violations available (ac_package a)) actions)"

definition authoritative :: "package list \<Rightarrow> package \<Rightarrow> bool" where
  \<comment> \<open>the package is the first available one with its identity, and its metadata was evaluated\<close>
  "authoritative available pkg \<longleftrightarrow>
     find (\<lambda>candidate. packageIdentity candidate = packageIdentity pkg) available = Some pkg \<and>
     pk_authority pkg \<in> {AuthorityMD5Cache, AuthorityEvaluated} \<and> pk_merge_type pkg \<in> {[], ''source'', ''binary''}"

lemma authority_clean: "authority_violations available pkg = [] \<longleftrightarrow> authoritative available pkg"
proof -
  have opt: "(if b then [v] else []) = [] \<longleftrightarrow> \<not> b" for b and v :: violation by simp
  show ?thesis
  proof (cases "find (\<lambda>candidate. packageIdentity candidate = packageIdentity pkg) available")
    case None
    then show ?thesis by (simp add: authority_violations_def authoritative_def)
  next
    case (Some c)
    have "authority_violations available pkg = [] \<longleftrightarrow>
        pk_merge_type pkg \<in> {[], ''source'', ''binary''} \<and> c = pkg \<and>
        \<not> (pk_authority c \<noteq> AuthorityMD5Cache \<and> pk_authority c \<noteq> AuthorityEvaluated)"
      unfolding authority_violations_def Some option.case append_is_Nil_conv opt not_not ..
    then show ?thesis unfolding authoritative_def Some by (simp only: option.inject) blast
  qed
qed

interpretation authority_check: validator "authority_violations available" "authoritative available" for available
  by unfold_locales (rule authority_clean)

lemma authorities_clean:
  "validateActionAuthority available actions = [] \<longleftrightarrow>
   (\<forall>a \<in> set actions. ac_kind a \<noteq> ActionInstall \<or> authoritative available (ac_package a))"
  unfolding validateActionAuthority_def by (rule authority_check.clean_selected)

subsection \<open>Order\<close>

primrec order_positions :: "nat \<Rightarrow> nat gomap \<Rightarrow> action_item list \<Rightarrow> nat gomap \<times> violation list" where
  \<comment> \<open>the first loop: the position of the first action with each identity\<close>
  "order_positions index positions [] = (positions, [])"
| "order_positions index positions (a # actions) =
     (if ac_id a = [] then
        (case order_positions (index + 1) positions actions of (ps, vs) \<Rightarrow>
           (ps, (if ac_prerequisites a \<noteq> []
             then [violation_of ''missing-action-id'' (pk_cpv (ac_package a)) [] [] ''action with prerequisites has no stable identity'']
             else []) @ vs))
      else if map_of positions (ac_id a) \<noteq> None then
        (case order_positions (index + 1) positions actions of (ps, vs) \<Rightarrow>
           (ps, violation_of ''duplicate-action-id'' (pk_cpv (ac_package a)) (ac_id a) [] ''plan contains duplicate action identity'' # vs))
      else order_positions (index + 1) (map_put (ac_id a) index positions) actions)"

definition prerequisite_violations :: "nat gomap \<Rightarrow> nat \<Rightarrow> action_item \<Rightarrow> violation list" where
  \<comment> \<open>one iteration of the second loop\<close>
  "prerequisite_violations positions index a =
     concat (map (\<lambda>prerequisite. case map_of positions prerequisite of
         None \<Rightarrow> [violation_of ''missing-prerequisite-action'' (pk_cpv (ac_package a)) prerequisite (ac_id a)
           ''prerequisite is absent from plan'']
       | Some position \<Rightarrow>
           if position \<ge> index
           then [violation_of ''transaction-order-violation'' (pk_cpv (ac_package a)) prerequisite (ac_id a)
             ''prerequisite does not precede dependent action'']
           else []) (ac_prerequisites a))"

definition validateActionOrder :: "action_item list \<Rightarrow> violation list" where
  "validateActionOrder actions =
     (case order_positions 0 [] actions of (positions, vs) \<Rightarrow>
        vs @ concat (map (\<lambda>(index, a). prerequisite_violations positions index a) (enumerate 0 actions)))"

definition action_ids :: "action_item list \<Rightarrow> string list" where
  "action_ids actions = filter (\<lambda>i. i \<noteq> []) (map ac_id actions)"

definition order_ok :: "action_item list \<Rightarrow> bool" where
  \<comment> \<open>identities are unique, an action with prerequisites has one, and every prerequisite names an earlier action\<close>
  "order_ok actions \<longleftrightarrow>
     distinct (action_ids actions) \<and>
     (\<forall>a \<in> set actions. ac_id a = [] \<longrightarrow> ac_prerequisites a = []) \<and>
     (\<forall>i < length actions. \<forall>p \<in> set (ac_prerequisites (actions ! i)). p \<in> set (action_ids (take i actions)))"

lemma order_positions_clean:
  "snd (order_positions index positions actions) = [] \<longleftrightarrow>
   distinct (action_ids actions) \<and> (\<forall>i \<in> set (action_ids actions). map_of positions i = None) \<and>
   (\<forall>a \<in> set actions. ac_id a = [] \<longrightarrow> ac_prerequisites a = [])"
proof (induction actions arbitrary: index positions)
  case (Cons a actions)
  show ?case
  proof (cases "ac_id a = [] \<or> map_of positions (ac_id a) \<noteq> None")
    case True
    then show ?thesis by (auto simp: case_prod_beta Cons.IH action_ids_def)
  next
    case False
    then have "snd (order_positions index positions (a # actions)) = [] \<longleftrightarrow>
        snd (order_positions (index + 1) (map_put (ac_id a) index positions) actions) = []" by simp
    moreover have "action_ids (a # actions) = ac_id a # action_ids actions" using False by (simp add: action_ids_def)
    ultimately show ?thesis unfolding Cons.IH using False by auto
  qed
qed (simp add: action_ids_def)

lemma order_positions_first:
  assumes "\<And>k x. map_of positions k = Some x \<Longrightarrow> k \<noteq> [] \<and> x < index"
  shows "(\<exists>x < index. map_of (fst (order_positions index positions actions)) k = Some x) \<longleftrightarrow> k \<in> dom (map_of positions)"
proof -
  have keeps: "map_of (fst (order_positions i ps as)) k = Some x \<longleftrightarrow> map_of ps k = Some x"
    if "x < i" for i ps as x
    using that by (induction as arbitrary: i ps) (auto simp: case_prod_beta)
  show ?thesis using keeps assms by blast
qed

lemma order_positions_before:
  assumes "\<And>k x. map_of positions k = Some x \<Longrightarrow> k \<noteq> [] \<and> x < index" "n \<le> length actions"
  shows "(\<exists>x < index + n. map_of (fst (order_positions index positions actions)) k = Some x) \<longleftrightarrow>
    k \<in> dom (map_of positions) \<or> k \<in> set (action_ids (take n actions))"
  using assms
proof (induction actions arbitrary: index positions n)
  case Nil
  then show ?case by (auto simp: action_ids_def)
next
  case (Cons a actions)
  have before: "map_of positions i = Some x \<Longrightarrow> i \<noteq> [] \<and> x < index + 1" for i x
    using Cons.prems(1) [of i x] by simp
  show ?case
  proof (cases n)
    case 0
    let ?ps = "fst (order_positions index positions (a # actions))"
    have "(\<exists>x < index. map_of ?ps k = Some x) \<longleftrightarrow> k \<in> dom (map_of positions)"
      by (rule order_positions_first [OF Cons.prems(1)])
    then show ?thesis using 0 by (simp add: action_ids_def)
  next
    case (Suc m)
    then have m: "m \<le> length actions" using Cons.prems(2) by simp
    show ?thesis
    proof (cases "ac_id a = [] \<or> map_of positions (ac_id a) \<noteq> None")
      case True
      then have "fst (order_positions index positions (a # actions)) = fst (order_positions (index + 1) positions actions)"
        by (auto simp: case_prod_beta)
      then show ?thesis using Cons.IH [OF before m] Suc True by (auto simp: action_ids_def)
    next
      case False
      have "map_of (map_put (ac_id a) index positions) i = Some x \<Longrightarrow> i \<noteq> [] \<and> x < index + 1" for i x
        using before False by (cases "i = ac_id a") auto
      note IH = Cons.IH [OF this m]
      have "fst (order_positions index positions (a # actions)) =
          fst (order_positions (index + 1) (map_put (ac_id a) index positions) actions)" using False by simp
      moreover have "dom (map_of (map_put (ac_id a) index positions)) = insert (ac_id a) (dom (map_of positions))" by simp
      moreover have "set (action_ids (take n (a # actions))) = insert (ac_id a) (set (action_ids (take m actions)))"
        using False Suc by (simp add: action_ids_def)
      ultimately show ?thesis using IH Suc by (simp del: map_of_put dom_fun_upd) blast
    qed
  qed
qed


lemma prerequisites_clean:
  assumes "i < length actions"
  shows "prerequisite_violations (fst (order_positions 0 [] actions)) i a = [] \<longleftrightarrow>
    (\<forall>p \<in> set (ac_prerequisites a). p \<in> set (action_ids (take i actions)))"
proof -
  let ?ps = "fst (order_positions 0 [] actions)"
  have step: "(case r of None \<Rightarrow> [v] | Some position \<Rightarrow> if i \<le> position then [w] else []) = [] \<longleftrightarrow> (\<exists>x < i. r = Some x)"
    for r and v w :: violation by (auto split: option.split)
  have "(\<exists>x < i. map_of ?ps p = Some x) \<longleftrightarrow> p \<in> set (action_ids (take i actions))" for p
    using order_positions_before [of "[]" 0 i actions p] assms by simp
  then show ?thesis unfolding prerequisite_violations_def concat_eq_Nil_conv set_map ball_simps(9) step by blast
qed

lemma order_clean: "validateActionOrder actions = [] \<longleftrightarrow> order_ok actions"
proof -
  have "concat (map (\<lambda>(i, a). prerequisite_violations (fst (order_positions 0 [] actions)) i a) (enumerate 0 actions)) = [] \<longleftrightarrow>
      (\<forall>i < length actions. prerequisite_violations (fst (order_positions 0 [] actions)) i (actions ! i) = [])"
    by (simp add: concat_eq_Nil_conv all_set_conv_all_nth nth_enumerate_eq)
  then show ?thesis
    using order_positions_clean [of 0 "[]" actions] prerequisites_clean [of _ actions]
    by (auto simp: validateActionOrder_def case_prod_beta order_ok_def)
qed

interpretation order_check: validator validateActionOrder order_ok
  by unfold_locales (rule order_clean)

subsection \<open>Targets\<close>

definition target_violations :: "bool \<Rightarrow> package_state \<Rightarrow> string \<Rightarrow> violation list" where
  \<comment> \<open>one iteration of the loops over the targets, to be present or to be removed\<close>
  "target_violations present packages target =
     (case ParsePackageAtom target of
        Inl e \<Rightarrow> [violation_of ''invalid-request-target'' [] target [] (atom_error_text e)]
      | Inr constraint \<Rightarrow>
          if unsupportedAtomSemantics constraint \<noteq> [] then
            [violation_of ''unsupported-atom-semantics'' [] target [] (unsupportedAtomSemantics constraint)]
          else if present then
            (if \<not> state_matches packages constraint None
             then [violation_of ''unsatisfied-request-target'' [] target [] ''requested target is absent from final state''] else [])
          else
            (if state_matches packages constraint None
             then [violation_of ''retained-removal-target'' [] target [] ''removed target remains in final state''] else []))"

definition validateTargets :: "request \<Rightarrow> package_state \<Rightarrow> violation list" where
  "validateTargets rq packages =
     (if rq_operation rq = ''install'' \<or> rq_operation rq = ''update'' then concat (map (target_violations True packages) (rq_targets rq))
      else if rq_operation rq = ''remove'' then concat (map (target_violations False packages) (rq_targets rq))
      else [violation_of ''unsupported-operation'' [] (rq_operation rq) [] ''request operation is unsupported''])"

definition target_met :: "bool \<Rightarrow> package list \<Rightarrow> string \<Rightarrow> bool" where
  \<comment> \<open>a package of the state matches the target, or none does\<close>
  "target_met present ps target \<longleftrightarrow>
     (\<exists>c. ParsePackageAtom target = Inr c \<and> present = (\<exists>p \<in> set ps. package_matches p c None))"

definition targets_met :: "request \<Rightarrow> package list \<Rightarrow> bool" where
  "targets_met rq ps \<longleftrightarrow>
     rq_operation rq \<in> {''install'', ''update'', ''remove''} \<and>
     (\<forall>target \<in> set (rq_targets rq). target_met (rq_operation rq \<noteq> ''remove'') ps target)"

lemma target_clean: "target_violations present (newPackageState ps) target = [] \<longleftrightarrow> target_met present ps target"
  by (auto simp: target_violations_def target_met_def unsupportedAtomSemantics_def state_matches_new split: sum.split)

interpretation target_check: validator "target_violations present (newPackageState ps)" "target_met present ps" for present ps
  by unfold_locales (rule target_clean)

lemma targets_clean: "validateTargets rq (newPackageState ps) = [] \<longleftrightarrow> targets_met rq ps"
  unfolding validateTargets_def targets_met_def target_check.clean_list [symmetric] by auto


subsection \<open>Justification\<close>

definition dependency_text :: "package \<Rightarrow> string \<Rightarrow> string" where
  \<comment> \<open>\<^verbatim>\<open>strings.TrimSpace(pkg.Dependencies[class])\<close>\<close>
  "dependency_text pkg cls = TrimSpace (case map_of (entries (pk_dependencies pkg)) cls of None \<Rightarrow> [] | Some e \<Rightarrow> e)"

definition class_satisfied :: "package \<Rightarrow> package_state \<Rightarrow> string \<Rightarrow> bool" where
  \<comment> \<open>one iteration of \<^verbatim>\<open>runtimeDependenciesSatisfied\<close>\<close>
  "class_satisfied pkg st cls =
     (if dependency_text pkg cls = [] then True
      else case dep_Parse (dependency_text pkg cls) of
          Inl e \<Rightarrow> False
        | Inr node \<Rightarrow>
            (case ValidatePackageDependenciesEAPI node (pk_eapi pkg) of
               Some e \<Rightarrow> False
             | None \<Rightarrow> (case node of None \<Rightarrow> False | Some n \<Rightarrow> fst (validateNode n pkg st))))"

definition runtimeDependenciesSatisfied :: "package \<Rightarrow> package list \<Rightarrow> bool" where
  "runtimeDependenciesSatisfied pkg root =
     list_all (class_satisfied pkg (newPackageState root)) [''RDEPEND'', ''PDEPEND'']"

definition actionRepairsRuntimeDependency :: "package list \<Rightarrow> package list \<Rightarrow> action_item \<Rightarrow> bool" where
  "actionRepairsRuntimeDependency installed finalRoot a =
     (if ac_replaces a = [] then False
      else case find (\<lambda>p. pk_cpv p = ac_replaces a \<and> pk_slot p = pk_slot (ac_package a)) installed of
          None \<Rightarrow> False
        | Some replaced \<Rightarrow>
            if cpFromPackage (pk_cpv replaced) \<noteq> cpFromPackage (pk_cpv (ac_package a)) then False
            else \<not> runtimeDependenciesSatisfied replaced finalRoot \<and>
              runtimeDependenciesSatisfied (ac_package a) finalRoot)"

definition requirementsJustifyAction :: "action_item \<Rightarrow> string list \<Rightarrow> bool" where
  "requirementsJustifyAction a requirements =
     list_ex (\<lambda>raw. case ParsePackageAtom raw of Inl e \<Rightarrow> False | Inr c \<Rightarrow> stateMatches [ac_package a] c None) requirements"

definition actionMatchesRequest :: "action_item \<Rightarrow> request \<Rightarrow> bool" where
  "actionMatchesRequest a rq =
     list_ex (\<lambda>target. case ParsePackageAtom target of Inl e \<Rightarrow> False | Inr c \<Rightarrow> stateMatches [ac_package a] c None) (rq_targets rq)"

definition decision_requirements :: "decision_record list \<Rightarrow> string list gomap" where
  "decision_requirements records =
     foldl (\<lambda>m r. if dr_outcome r = ''selected'' then map_put (dr_action_id r) (dr_requirements r) m else m) [] records"

definition requirements_of :: "string list gomap \<Rightarrow> string \<Rightarrow> string list" where
  "requirements_of m i = (case map_of m i of None \<Rightarrow> [] | Some rs \<Rightarrow> rs)"

definition directly_required :: "fixture \<Rightarrow> plan \<Rightarrow> package list \<Rightarrow> action_item \<Rightarrow> bool" where
  "directly_required fx p finalRoot a \<longleftrightarrow>
     ac_kind a = ActionInstall \<and>
     (actionMatchesRequest a (fx_request fx) \<or>
      requirementsJustifyAction a (requirements_of (decision_requirements (dl_records (pl_decisions p))) (ac_id a)) \<or>
      actionRepairsRuntimeDependency (fx_installed fx) finalRoot a)"

definition prerequisites_of :: "action_item gomap \<Rightarrow> string \<Rightarrow> string list" where
  "prerequisites_of byID i = (case map_of byID i of None \<Rightarrow> [] | Some a \<Rightarrow> ac_prerequisites a)"

primrec visit :: "nat \<Rightarrow> action_item gomap \<Rightarrow> string \<Rightarrow> string list \<Rightarrow> string list" where
  \<comment> \<open>the closure \<^verbatim>\<open>visit\<close> on the set \<^verbatim>\<open>required\<close>\<close>
  "visit 0 byID i required = required"
| "visit (Suc fuel) byID i required =
     fold (\<lambda>p req. if p \<in> set req then req else visit fuel byID p (p # req)) (prerequisites_of byID i) required"

definition required_actions :: "fixture \<Rightarrow> plan \<Rightarrow> package list \<Rightarrow> string list" where
  "required_actions fx p finalRoot =
     (let byID = actions_by_id (pl_actions p);
          direct = map ac_id (filter (directly_required fx p finalRoot) (pl_actions p));
          fuel = length (concat (map ac_prerequisites (pl_actions p))) + 1
      in fold (visit fuel byID) direct direct)"

definition validateActionJustification :: "fixture \<Rightarrow> plan \<Rightarrow> package list \<Rightarrow> violation list" where
  "validateActionJustification fx p finalRoot =
     concat (map (\<lambda>a. if ac_kind a = ActionInstall \<and> ac_id a \<noteq> [] \<and> ac_id a \<notin> set (required_actions fx p finalRoot)
        then [violation_of ''unjustified-action'' (pk_cpv (ac_package a)) [] []
          ''install action is not justified by a request or a dependency requirement''] else []) (pl_actions p))"

text \<open>
  The contract of a depth-first search that marks nodes before it descends: with fuel for the nodes
  that can still be marked, starting it at every root marks exactly the nodes reachable from the roots. It is
  interpreted on the closure \<^verbatim>\<open>visit\<close>.
\<close>

locale marking_search =
  fixes succs :: "'a \<Rightarrow> 'a list" and search :: "nat \<Rightarrow> 'a \<Rightarrow> 'a list \<Rightarrow> 'a list"
  assumes search_0: "search 0 x R = R"
    and search_Suc: "search (Suc n) x R = fold (\<lambda>y R. if y \<in> set R then R else search n y (y # R)) (succs x) R"
begin

definition edges :: "('a \<times> 'a) set" where
  "edges = {(x, y). y \<in> set (succs x)}"

definition done_from :: "'a set \<Rightarrow> 'a set \<Rightarrow> bool" where
  \<comment> \<open>the marks grew from \<open>R\<close> to \<open>S\<close>, and the successors of every new mark are marked\<close>
  "done_from R S \<longleftrightarrow> R \<subseteq> S \<and> (\<forall>y \<in> S - R. set (succs y) \<subseteq> S)"

lemma done_trans: "done_from R S \<Longrightarrow> done_from S T \<Longrightarrow> done_from R T"
  unfolding done_from_def by blast

lemma done_next:
  assumes "done_from R S" "A \<subseteq> S" "done_from S T" "B \<subseteq> T"
  shows "done_from R T \<and> A \<union> B \<subseteq> T"
  using assms done_trans [OF assms(1,3)] by (auto simp: done_from_def)

lemma search_sound: "y \<in> set (search n x R) \<Longrightarrow> y \<in> set R \<or> (x, y) \<in> edges\<^sup>+"
proof (induction n arbitrary: x R y)
  case (Suc n)
  have "y \<in> set (fold (\<lambda>y R. if y \<in> set R then R else search n y (y # R)) ys R) \<Longrightarrow> set ys \<subseteq> set (succs x) \<Longrightarrow>
      y \<in> set R \<or> (x, y) \<in> edges\<^sup>+" for ys
  proof (induction ys arbitrary: R)
    case (Cons p ys)
    have p: "(x, p) \<in> edges" using Cons.prems(2) by (simp add: edges_def)
    show ?case
    proof (cases "p \<in> set R")
      case True
      then show ?thesis using Cons by simp
    next
      case False
      then have "y \<in> set (search n p (p # R)) \<or> (x, y) \<in> edges\<^sup>+" using Cons by simp
      then show ?thesis using Suc.IH [of y p "p # R"] p by (auto intro: trancl_into_trancl2)
    qed
  qed simp
  then show ?case using Suc.prems by (simp add: search_Suc)
qed (simp add: search_0)

lemma search_complete:
  assumes "finite U" "\<And>x. set (succs x) \<subseteq> U"
  shows "card (U - set R) < n \<Longrightarrow> done_from (set R) (set (search n x R)) \<and> set (succs x) \<subseteq> set (search n x R)"
proof (induction n arbitrary: x R)
  case (Suc n)
  let ?step = "\<lambda>y R. if y \<in> set R then R else search n y (y # R)"
  have "set ys \<subseteq> U \<Longrightarrow> card (U - set R) < Suc n \<Longrightarrow>
      done_from (set R) (set (fold ?step ys R)) \<and> set ys \<subseteq> set (fold ?step ys R)" for ys
  proof (induction ys arbitrary: R)
    case Nil
    then show ?case by (simp add: done_from_def)
  next
    case (Cons p ys)
    have here: "done_from (set R) (set (?step p R)) \<and> p \<in> set (?step p R)"
    proof (cases "p \<in> set R")
      case False
      then have "card (U - set (p # R)) < card (U - set R)"
        using Cons.prems(1) assms(1) by (intro psubset_card_mono) auto
      then have "done_from (set (p # R)) (set (search n p (p # R))) \<and> set (succs p) \<subseteq> set (search n p (p # R))"
        using Suc.IH [of "p # R" p] Cons.prems(2) by linarith
      then show ?thesis using False by (auto simp: done_from_def)
    qed (simp add: done_from_def)
    then have "card (U - set (?step p R)) \<le> card (U - set R)"
      using assms(1) by (intro card_mono) (auto simp: done_from_def)
    then have later: "done_from (set (?step p R)) (set (fold ?step ys (?step p R)))" "set ys \<subseteq> set (fold ?step ys (?step p R))"
      using Cons.IH [of "?step p R"] Cons.prems by simp_all
    have fold: "fold ?step (p # ys) R = fold ?step ys (?step p R)" by simp
    have sets: "set (p # ys) = {p} \<union> set ys" "{p} \<subseteq> set (?step p R)" using here by simp_all
    show ?case unfolding fold sets(1) using here by (intro done_next [OF _ sets(2) later]) (rule conjunct1)
  qed
  then show ?case using assms(2) Suc.prems by (simp add: search_Suc)
qed simp

lemma fold_search_complete:
  assumes "finite U" "\<And>x. set (succs x) \<subseteq> U"
  shows "card (U - set R) < n \<Longrightarrow>
    done_from (set R) (set (fold (search n) xs R)) \<and> (\<Union>x \<in> set xs. set (succs x)) \<subseteq> set (fold (search n) xs R)"
proof (induction xs arbitrary: R)
  case Nil
  then show ?case by (simp add: done_from_def)
next
  case (Cons x xs)
  have here: "done_from (set R) (set (search n x R)) \<and> set (succs x) \<subseteq> set (search n x R)"
    using search_complete [OF assms Cons.prems] .
  then have "card (U - set (search n x R)) \<le> card (U - set R)" using assms(1) by (intro card_mono) (auto simp: done_from_def)
  then have later: "done_from (set (search n x R)) (set (fold (search n) xs (search n x R)))"
      "(\<Union>y \<in> set xs. set (succs y)) \<subseteq> set (fold (search n) xs (search n x R))"
    using Cons.IH [of "search n x R"] Cons.prems by simp_all
  show ?case using done_next [OF _ _ later, of "set R" "set (succs x)"] here by simp
qed

lemma fold_search_sound: "y \<in> set (fold (search n) xs R) \<Longrightarrow> y \<in> set R \<or> (\<exists>x \<in> set xs. (x, y) \<in> edges\<^sup>+)"
proof (induction xs arbitrary: R)
  case (Cons x xs)
  then show ?case using search_sound [of y n x R] by auto
qed simp

lemma search_reachable:
  assumes "finite U" "\<And>x. set (succs x) \<subseteq> U" "card (U - set roots) < n"
  shows "set (fold (search n) roots roots) = edges\<^sup>* `` set roots"
proof
  let ?S = "set (fold (search n) roots roots)"
  show "?S \<subseteq> edges\<^sup>* `` set roots" using fold_search_sound [of _ n roots roots] by (auto dest: trancl_into_rtrancl)
  have closed: "set roots \<subseteq> ?S" "\<And>y. y \<in> ?S \<Longrightarrow> set (succs y) \<subseteq> ?S"
    using fold_search_complete [OF assms(1,2), of roots n roots] assms(3) by (auto simp: done_from_def)
  have "y \<in> ?S" if "(x, y) \<in> edges\<^sup>*" "x \<in> set roots" for x y
    using that by (induction rule: rtrancl_induct) (use closed in \<open>auto simp: edges_def\<close>)
  then show "edges\<^sup>* `` set roots \<subseteq> ?S" by auto
qed

end

interpretation prerequisite_search: marking_search "prerequisites_of byID" "\<lambda>n. visit n byID" for byID
  by unfold_locales simp_all

definition prerequisite_edges :: "action_item list \<Rightarrow> (string \<times> string) set" where
  \<comment> \<open>from the identity of an action to its prerequisites; the last action with an identity counts\<close>
  "prerequisite_edges actions =
     {(i, q). i \<noteq> [] \<and> (\<exists>a. find (\<lambda>a. ac_id a = i) (rev actions) = Some a \<and> q \<in> set (ac_prerequisites a))}"

definition justified :: "fixture \<Rightarrow> plan \<Rightarrow> package list \<Rightarrow> string \<Rightarrow> bool" where
  \<comment> \<open>reachable over prerequisites from an action that is required itself\<close>
  "justified fx p finalRoot i \<longleftrightarrow>
     (\<exists>d \<in> set (pl_actions p). directly_required fx p finalRoot d \<and> (ac_id d, i) \<in> (prerequisite_edges (pl_actions p))\<^sup>*)"

lemma prerequisite_member:
  "q \<in> set (prerequisites_of (actions_by_id actions) i) \<longleftrightarrow>
   i \<noteq> [] \<and> (\<exists>a. find (\<lambda>a. ac_id a = i) (rev actions) = Some a \<and> q \<in> set (ac_prerequisites a))"
  by (cases "find (\<lambda>a. ac_id a = i) (rev actions)") (simp_all add: prerequisites_of_def actions_by_id_of)

lemma edges_are_prerequisites: "prerequisite_search.edges (actions_by_id actions) = prerequisite_edges actions"
  unfolding prerequisite_search.edges_def prerequisite_edges_def prerequisite_member ..

lemma prerequisites_in_plan: "set (prerequisites_of (actions_by_id actions) i) \<subseteq> set (concat (map ac_prerequisites actions))"
proof
  fix q assume "q \<in> set (prerequisites_of (actions_by_id actions) i)"
  then obtain a where "find (\<lambda>a. ac_id a = i) (rev actions) = Some a" "q \<in> set (ac_prerequisites a)"
    unfolding prerequisite_member by blast
  moreover from this have "a \<in> set actions" by (metis find_Some_iff nth_mem set_rev)
  ultimately show "q \<in> set (concat (map ac_prerequisites actions))" by auto
qed

lemma required_reachable: "i \<in> set (required_actions fx p finalRoot) \<longleftrightarrow> justified fx p finalRoot i"
proof -
  let ?U = "set (concat (map ac_prerequisites (pl_actions p)))"
  let ?direct = "map ac_id (filter (directly_required fx p finalRoot) (pl_actions p))"
  have "card (?U - set ?direct) \<le> card ?U" by (rule card_mono) auto
  also have "\<dots> \<le> length (concat (map ac_prerequisites (pl_actions p)))" by (rule card_length)
  finally have "set (required_actions fx p finalRoot) = (prerequisite_edges (pl_actions p))\<^sup>* `` set ?direct"
    unfolding required_actions_def Let_def edges_are_prerequisites [symmetric]
    by (intro prerequisite_search.search_reachable [of ?U]) (use prerequisites_in_plan in simp_all)
  then show ?thesis by (auto simp: justified_def)
qed

lemma justification_clean:
  "validateActionJustification fx p finalRoot = [] \<longleftrightarrow>
   (\<forall>a \<in> set (pl_actions p). ac_kind a \<noteq> ActionInstall \<or> ac_id a = [] \<or> justified fx p finalRoot (ac_id a))"
proof -
  have opt: "(if b then [v] else []) = [] \<longleftrightarrow> \<not> b" for b and v :: violation by simp
  show ?thesis unfolding validateActionJustification_def concat_eq_Nil_conv set_map ball_simps(9) opt required_reachable by blast
qed

lemma action_ids_split:
  assumes "n < length actions" "ac_id (actions ! n) \<noteq> []" "distinct (action_ids actions)"
  shows "ac_id (actions ! n) \<notin> set (action_ids (take n actions))"
proof -
  have "action_ids (xs @ a # ys) = action_ids xs @ ac_id a # action_ids ys" if "ac_id a \<noteq> []" for xs ys a
    using that by (simp add: action_ids_def)
  moreover have "distinct (action_ids (take n actions @ actions ! n # drop (Suc n) actions))"
    using assms(3) by (simp only: id_take_nth_drop [OF assms(1), symmetric])
  ultimately show ?thesis using assms(2) by simp
qed

lemma order_acyclic:
  assumes "order_ok actions"
  shows "acyclic (prerequisite_edges actions)"
proof -
  define f where "f k = the (map_of (fst (order_positions 0 [] actions)) k)" for k
  have position: "k \<in> set (action_ids (take n actions)) \<longleftrightarrow> (\<exists>x < n. map_of (fst (order_positions 0 [] actions)) k = Some x)"
    if "n \<le> length actions" for n k using order_positions_before [of "[]" 0 n actions k] that by simp
  have "f q < f i" if edge: "(i, q) \<in> prerequisite_edges actions" for i q
  proof -
    obtain a where a: "find (\<lambda>a. ac_id a = i) (rev actions) = Some a" "q \<in> set (ac_prerequisites a)" and i: "i \<noteq> []"
      using edge by (auto simp: prerequisite_edges_def)
    then have "a \<in> set actions" "ac_id a = i" by (auto simp: find_Some_iff) (metis length_rev nth_mem set_rev)
    then obtain n where n: "n < length actions" "actions ! n = a" by (auto simp: in_set_conv_nth)
    have "q \<in> set (action_ids (take n actions))" using assms n a(2) unfolding order_ok_def by blast
    then have "f q < n" using position [of n q] n by (auto simp: f_def)
    moreover have "i \<in> set (action_ids actions)" using \<open>a \<in> set actions\<close> \<open>ac_id a = i\<close> i by (auto simp: action_ids_def)
    then have "\<exists>x. map_of (fst (order_positions 0 [] actions)) i = Some x" using position [of "length actions" i] by auto
    moreover have "i \<notin> set (action_ids (take n actions))"
      using action_ids_split [of n actions] n i \<open>ac_id a = i\<close> assms by (simp add: order_ok_def)
    ultimately show ?thesis using position [of n i] n by (auto simp: f_def)
  qed
  then have "(prerequisite_edges actions)\<inverse> \<subseteq> measure f" by auto
  then show ?thesis using acyclic_converse wf_acyclic wf_measure wf_subset by metis
qed

text \<open>
  Claim C32: \<^verbatim>\<open>validateActionOrder\<close> reports nothing exactly when action identities are unique, an action with
  prerequisites has one, and every prerequisite names an action earlier in the list; then the prerequisites have no
  cycle, and executing the actions in their order meets every prerequisite before it is needed.
\<close>

theorem action_order_exact:
  "(validateActionOrder actions = [] \<longleftrightarrow> order_ok actions) \<and>
   (validateActionOrder actions = [] \<longrightarrow> acyclic (prerequisite_edges actions))"
  using order_check.clean order_acyclic by blast

theorem action_order_exact_witness:
  "acyclic (prerequisite_edges [zero_action\<lparr>ac_id := ''x''\<rparr>, zero_action\<lparr>ac_id := ''y'', ac_prerequisites := [''x'']\<rparr>])"
proof -
  have "validateActionOrder [zero_action\<lparr>ac_id := ''x''\<rparr>, zero_action\<lparr>ac_id := ''y'', ac_prerequisites := [''x'']\<rparr>] = []" by code_simp
  then show ?thesis using action_order_exact by blast
qed

text \<open>
  Claim C22: \<^verbatim>\<open>validateActionJustification\<close> reports exactly the install actions with an identity that are not reachable,
  over prerequisites, from an action the request, a selected decision or a repaired runtime dependency
  requires. The traversal ends and finds all of them, also where prerequisites form cycles.
\<close>

theorem justification_is_reachability:
  "set (required_actions fx p finalRoot) = {i. justified fx p finalRoot i} \<and>
   (validateActionJustification fx p finalRoot = [] \<longleftrightarrow>
    (\<forall>a \<in> set (pl_actions p). ac_kind a \<noteq> ActionInstall \<or> ac_id a = [] \<or> justified fx p finalRoot (ac_id a)))"
  using required_reachable justification_clean by blast

theorem justification_is_reachability_witness:
  "\<not> justified \<lparr>fx_schema = 1, fx_request = \<lparr>rq_build_only = False, rq_operation = ''install'', rq_targets = [''a/c''],
        rq_original_targets = [], rq_partial_mode = []\<rparr>, fx_installed = [], fx_available = [], fx_domains = [],
        fx_domains_alias_to_root = True,
        fx_policy = \<lparr>po_accepted_keywords = [], po_accepted_licenses = [], po_supported_eapis = [], po_license_groups = []\<rparr>\<rparr>
     ((schema_plan 1)\<lparr>pl_actions := [zero_action\<lparr>ac_id := ''x'', ac_kind := ''install'', ac_package := zero_package\<lparr>pk_cpv := ''a/b-1''\<rparr>\<rparr>]\<rparr>)
     [] ''x''"
proof -
  let ?fx = "\<lparr>fx_schema = 1, fx_request = \<lparr>rq_build_only = False, rq_operation = ''install'', rq_targets = [''a/c''],
        rq_original_targets = [], rq_partial_mode = []\<rparr>, fx_installed = [], fx_available = [], fx_domains = [],
        fx_domains_alias_to_root = True,
        fx_policy = \<lparr>po_accepted_keywords = [], po_accepted_licenses = [], po_supported_eapis = [], po_license_groups = []\<rparr>\<rparr>"
  let ?p = "(schema_plan 1)\<lparr>pl_actions := [zero_action\<lparr>ac_id := ''x'', ac_kind := ''install'', ac_package := zero_package\<lparr>pk_cpv := ''a/b-1''\<rparr>\<rparr>]\<rparr>"
  have "''x'' \<notin> set (required_actions ?fx ?p [])" by code_simp
  then show ?thesis using justification_is_reachability [of ?fx ?p "[]"] by blast
qed

end
