(* ===== verification/Plan_Policy.thy ===== *)
theory Plan_Policy
  imports Plan_Semantics
begin

text \<open>
  Keyword, license, EAPI and mask policy for install actions, \<^verbatim>\<open>src/internal/planvalidate/policy.go\<close>. The
  expansion of license groups carries fuel for the nesting depth; one more than the number of groups is enough,
  because every level makes another group active.
\<close>

subsection \<open>Incremental lists\<close>

definition applyPolicyChange :: "string list \<Rightarrow> string \<Rightarrow> string list" where
  \<comment> \<open>one iteration of the loop\<close>
  "applyPolicyChange items change =
     (if change = ''-*'' then []
      else if HasPrefix change ''-'' then filter (\<lambda>item. item \<noteq> TrimPrefix change ''-'') items
      else if change \<in> set items then items
      else items @ [change])"

definition applyPolicyChanges :: "string list \<Rightarrow> string list \<Rightarrow> string list" where
  "applyPolicyChanges initial changes = foldl applyPolicyChange initial changes"

definition keywordAccepted :: "string list \<Rightarrow> string list \<Rightarrow> bool" where
  "keywordAccepted keywords accepted =
     (let acceptAll = ''**'' \<in> set accepted;
          acceptStable = ''*'' \<in> set accepted;
          acceptUnstable = ''~*'' \<in> set accepted;
          allowed = filter (\<lambda>item. item \<notin> {''**'', ''*'', ''~*''}) accepted
      in list_ex (\<lambda>keyword. \<not> HasPrefix keyword ''-'' \<and>
            (acceptAll \<or> keyword \<in> set allowed \<or>
             (if HasPrefix keyword ''~'' then acceptUnstable else acceptStable))) keywords)"

subsection \<open>Licenses\<close>

definition license_name :: "string \<Rightarrow> string" where
  "license_name change = TrimPrefix change ''-''"

definition license_group :: "string \<Rightarrow> string" where
  "license_group change = TrimPrefix (license_name change) ''@''"

definition signed_member :: "string \<Rightarrow> string \<Rightarrow> string" where
  \<comment> \<open>a member of a negated group is negated unless it already is\<close>
  "signed_member change member =
     (if HasPrefix change ''-'' \<and> \<not> HasPrefix member ''-'' then CHR ''-'' # member else member)"

primrec expand :: "nat \<Rightarrow> string list gomap \<Rightarrow> string list \<Rightarrow> string \<Rightarrow> string list" where
  \<comment> \<open>the closure \<^verbatim>\<open>expand\<close>: the changes it appends, with the groups that are active\<close>
  "expand 0 groups active change = [change]"
| "expand (Suc fuel) groups active change =
     (case map_of groups (license_group change) of
        None \<Rightarrow> [change]
      | Some members \<Rightarrow>
          if \<not> HasPrefix (license_name change) ''@'' \<or> license_group change \<in> set active then [change]
          else concat (map (\<lambda>member. expand fuel groups (license_group change # active) (signed_member change member)) members))"

definition expandLicenseGroups :: "string list \<Rightarrow> string list gomap \<Rightarrow> string list" where
  "expandLicenseGroups changes groups = concat (map (expand (length groups + 1) groups []) changes)"

definition accept_all_key :: string where
  "accept_all_key = [nul, CHR ''*'']"

definition license_step :: "bool gomap \<times> bool \<Rightarrow> string \<Rightarrow> bool gomap \<times> bool" where
  \<comment> \<open>one iteration over the changes: the map \<^verbatim>\<open>accepted\<close> and \<^verbatim>\<open>acceptAll\<close>\<close>
  "license_step st change =
     (case st of (accepted, acceptAll) \<Rightarrow>
        if change = ''*'' then (accepted, True)
        else if change = ''-*'' then ([], False)
        else if HasPrefix change ''-'' then (map_put (TrimPrefix change ''-'') False accepted, acceptAll)
        else (map_put change True accepted, acceptAll))"

definition acceptedLicenseSet :: "string list \<Rightarrow> bool gomap" where
  "acceptedLicenseSet changes =
     (case foldl license_step ([], False) changes of (accepted, acceptAll) \<Rightarrow> map_put accept_all_key acceptAll accepted)"

definition license_accepted :: "bool gomap \<Rightarrow> string \<Rightarrow> bool" where
  \<comment> \<open>the case of an \<^verbatim>\<open>AtomDep\<close>\<close>
  "license_accepted accepted name =
     (case map_of accepted name of
        Some decision \<Rightarrow> decision
      | None \<Rightarrow> (case map_of accepted accept_all_key of Some b \<Rightarrow> b | None \<Rightarrow> False))"

fun licenseNodeAccepted :: "dep_node \<Rightarrow> bool gomap option \<Rightarrow> bool gomap \<Rightarrow> bool" where
  "licenseNodeAccepted (AtomDep a) use accepted = license_accepted accepted a"
| "licenseNodeAccepted (AllOfGroup ns implicit) use accepted = list_all (\<lambda>n. licenseNodeAccepted n use accepted) ns"
| "licenseNodeAccepted (AnyOfGroup ns) use accepted = list_ex (\<lambda>n. licenseNodeAccepted n use accepted) ns"
| "licenseNodeAccepted (UseConditional flag ns) use accepted =
     (let active = use_value use (TrimPrefix flag ''!'')
      in if (if HasPrefix flag ''!'' then active else \<not> active) then True
         else list_all (\<lambda>n. licenseNodeAccepted n use accepted) ns)"
| "licenseNodeAccepted n use accepted = False"

definition license_root_accepted :: "dep_node option \<Rightarrow> bool gomap option \<Rightarrow> bool gomap \<Rightarrow> bool" where
  \<comment> \<open>a nil tree is accepted\<close>
  "license_root_accepted node use accepted =
     (case node of None \<Rightarrow> True | Some n \<Rightarrow> licenseNodeAccepted n use accepted)"

subsection \<open>Install actions\<close>

definition accepted_keywords :: "policy \<Rightarrow> package \<Rightarrow> string list" where
  "accepted_keywords pol pkg =
     applyPolicyChanges
       ((if pp_base_keyword (pk_policy pkg) \<noteq> [] then [pp_base_keyword (pk_policy pkg)] else []) @ po_accepted_keywords pol)
       (entries (pp_keyword_changes (pk_policy pkg)))"

definition accepted_licenses :: "policy \<Rightarrow> package \<Rightarrow> string list" where
  "accepted_licenses pol pkg =
     expandLicenseGroups (po_accepted_licenses pol @ entries (pp_license_changes (pk_policy pkg))) (po_license_groups pol)"

definition license_violations :: "policy \<Rightarrow> package \<Rightarrow> violation list" where
  "license_violations pol pkg =
     (if po_accepted_licenses pol \<noteq> [] \<or> entries (pp_license_changes (pk_policy pkg)) \<noteq> [] then
        (case dep_Parse (pk_license pkg) of
           Inl e \<Rightarrow> [violation_of ''invalid-license-expression'' (pk_cpv pkg) (pk_license pkg) [] (dep_error_text e)]
         | Inr node \<Rightarrow>
             if license_root_accepted node (pk_use pkg) (acceptedLicenseSet (accepted_licenses pol pkg)) then []
             else [violation_of ''license-policy-violation'' (pk_cpv pkg) (pk_license pkg) []
               ''install target license is not accepted by frozen policy''])
      else [])"

definition package_policy_violations :: "policy \<Rightarrow> package \<Rightarrow> violation list" where
  "package_policy_violations pol pkg =
     (if pk_masked pkg
      then [violation_of ''masked-package'' (pk_cpv pkg) [] [] ''install target is masked by frozen policy''] else []) @
     (if po_supported_eapis pol \<noteq> [] \<and> pk_eapi pkg \<notin> set (po_supported_eapis pol)
      then [violation_of ''unsupported-eapi'' (pk_cpv pkg) (pk_eapi pkg) [] ''install target EAPI is not supported by frozen policy''] else []) @
     (if accepted_keywords pol pkg \<noteq> [] \<and> \<not> keywordAccepted (entries (pk_keywords pkg)) (accepted_keywords pol pkg)
      then [violation_of ''keyword-policy-violation'' (pk_cpv pkg) (join_with '' '' (entries (pk_keywords pkg))) []
        ''install target has no keyword accepted by frozen policy''] else []) @
     license_violations pol pkg"

definition validateActionPolicy :: "policy \<Rightarrow> action_item list \<Rightarrow> violation list" where
  "validateActionPolicy pol actions =
     concat (map (\<lambda>a. if ac_kind a \<noteq> ActionInstall then [] else package_policy_violations pol (ac_package a)) actions)"

subsection \<open>Lemmas\<close>

definition change_decides :: "string \<Rightarrow> bool \<Rightarrow> string \<Rightarrow> bool" where
  \<comment> \<open>what a change does to the membership of an item\<close>
  "change_decides x b change =
     (if change = ''-*'' \<or> change = CHR ''-'' # x then False else if change = x \<and> \<not> HasPrefix change ''-'' then True else b)"

lemma applyPolicyChange_member: "x \<in> set (applyPolicyChange items change) \<longleftrightarrow> change_decides x (x \<in> set items) change"
  by (auto simp: applyPolicyChange_def change_decides_def HasPrefix_iff TrimPrefix_def)

lemma applyPolicyChanges_member:
  "x \<in> set (applyPolicyChanges initial changes) \<longleftrightarrow> foldl (change_decides x) (x \<in> set initial) changes"
  unfolding applyPolicyChanges_def
  by (induction changes arbitrary: initial) (simp_all add: applyPolicyChange_member)

lemma applyPolicyChanges_distinct: "distinct initial \<Longrightarrow> distinct (applyPolicyChanges initial changes)"
  unfolding applyPolicyChanges_def
proof (induction changes arbitrary: initial)
  case (Cons c changes)
  have "distinct (applyPolicyChange initial c)" using Cons.prems by (simp add: applyPolicyChange_def)
  then show ?case using Cons.IH by simp
qed simp

lemma expand_fuel:
  "card (fst ` set groups - set active) < n \<Longrightarrow> card (fst ` set groups - set active) < m \<Longrightarrow>
   expand n groups active change = expand m groups active change"
proof (induction n arbitrary: m active change)
  case (Suc n)
  obtain m' where m: "m = Suc m'" using Suc.prems(2) by (cases m) auto
  show ?case
  proof (cases "map_of groups (license_group change) = None \<or> \<not> HasPrefix (license_name change) ''@'' \<or>
      license_group change \<in> set active")
    case True
    then show ?thesis using m by (auto split: option.splits)
  next
    case False
    then obtain members where members: "map_of groups (license_group change) = Some members"
      by (cases "map_of groups (license_group change)") auto
    let ?g = "license_group change"
    have "?g \<in> fst ` set groups - set active" using members False map_of_SomeD by force
    moreover have "fst ` set groups - set (?g # active) = (fst ` set groups - set active) - {?g}" by auto
    ultimately have "card (fst ` set groups - set (?g # active)) < card (fst ` set groups - set active)"
      by (metis List.finite_set card_Diff1_less finite_Diff finite_imageI)
    then have "card (fst ` set groups - set (?g # active)) < n" "card (fst ` set groups - set (?g # active)) < m'"
      using Suc.prems m by simp_all
    then have "expand n groups (?g # active) c = expand m' groups (?g # active) c" for c by (rule Suc.IH)
    then show ?thesis using members m by simp
  qed
qed simp

lemma expand_enough:
  assumes "length groups < n"
  shows "expand n groups [] change = expand (length groups + 1) groups [] change"
proof (rule expand_fuel)
  have "card (fst ` set groups - set []) \<le> length groups"
    by (metis Diff_empty card_length length_map list.set(1) list.set_map)
  then show "card (fst ` set groups - set []) < n" "card (fst ` set groups - set []) < length groups + 1"
    using assms by simp_all
qed

definition after_reset :: "string list \<Rightarrow> string list" where
  \<comment> \<open>the changes after the last reset\<close>
  "after_reset changes = rev (takeWhile (\<lambda>c. c \<noteq> ''-*'') (rev changes))"

definition names_license :: "string \<Rightarrow> string \<Rightarrow> bool" where
  \<comment> \<open>a change adds or removes a license; \<^verbatim>\<open>*\<close> and \<^verbatim>\<open>-*\<close> name none\<close>
  "names_license name c \<longleftrightarrow> c \<notin> {''*'', ''-*''} \<and> (c = CHR ''-'' # name \<or> c = name \<and> \<not> HasPrefix c ''-'')"

definition license_decision :: "string list \<Rightarrow> string \<Rightarrow> bool" where
  \<comment> \<open>the last change since the reset that names the license decides, and without one whether all are accepted;
    the key under which the code keeps the latter is no license\<close>
  "license_decision changes name =
     (case if name = accept_all_key then None else find (names_license name) (rev (after_reset changes)) of
        Some c \<Rightarrow> \<not> HasPrefix c ''-''
      | None \<Rightarrow> ''*'' \<in> set (after_reset changes))"

lemma after_reset_snoc: "after_reset (cs @ [c]) = (if c = ''-*'' then [] else after_reset cs @ [c])"
  by (simp add: after_reset_def)

lemma license_steps:
  "foldl license_step ([], False) changes = (accepted, acceptAll) \<Longrightarrow>
    acceptAll = (''*'' \<in> set (after_reset changes)) \<and>
    map_of accepted name = map_option (\<lambda>c. \<not> HasPrefix c ''-'') (find (names_license name) (rev (after_reset changes)))"
proof (induction changes arbitrary: accepted acceptAll rule: rev_induct)
  case Nil
  then show ?case by (simp add: after_reset_def)
next
  case (snoc c changes)
  obtain acc all where st: "foldl license_step ([], False) changes = (acc, all)" by fastforce
  note IH = snoc.IH [OF st]
  have step: "license_step (acc, all) c = (accepted, acceptAll)" using snoc.prems st by simp
  consider "c = ''*''" | "c = ''-*''" | t where "c = CHR ''-'' # t" "c \<noteq> ''-*''" | "c \<noteq> ''*''" "\<not> HasPrefix c ''-''"
    by (cases c) (auto simp: HasPrefix_iff)
  then show ?case
  proof cases
    case 1
    then show ?thesis using step IH by (auto simp: license_step_def after_reset_snoc names_license_def)
  next
    case 2
    then show ?thesis using step by (auto simp: license_step_def after_reset_snoc)
  next
    case 3
    then have "accepted = map_put t False acc" "acceptAll = all" using step by (auto simp: license_step_def TrimPrefix_def)
    then show ?thesis using 3 IH by (auto simp: after_reset_snoc names_license_def)
  next
    case 4
    then have c: "c \<noteq> ''-*''" "c \<noteq> CHR ''-'' # x" for x by auto
    then have "accepted = map_put c True acc" "acceptAll = all"
      using step 4 by (auto simp: license_step_def)
    then show ?thesis using 4 c IH by (auto simp: after_reset_snoc names_license_def)
  qed
qed

lemma acceptedLicenseSet_decides: "license_accepted (acceptedLicenseSet changes) name \<longleftrightarrow> license_decision changes name"
proof -
  obtain acc all where st: "foldl license_step ([], False) changes = (acc, all)" by fastforce
  then show ?thesis using license_steps [OF st]
    by (auto simp: license_accepted_def acceptedLicenseSet_def license_decision_def split: option.splits)
qed

subsection \<open>What the policy accepts\<close>

fun license_choices :: "(string \<Rightarrow> bool) \<Rightarrow> dep_node \<Rightarrow> string list list" where
  \<comment> \<open>the combinations of licenses under which a package may be used: all parts of a conjunction, one part of an alternative, and
    nothing for a disabled conditional; no combination satisfies any other kind of group\<close>
  "license_choices enabled (AtomDep a) = [[a]]"
| "license_choices enabled (AllOfGroup ns implicit) = map concat (product_lists (map (license_choices enabled) ns))"
| "license_choices enabled (AnyOfGroup ns) = concat (map (license_choices enabled) ns)"
| "license_choices enabled (UseConditional flag ns) =
     (if flag_enabled enabled flag then map concat (product_lists (map (license_choices enabled) ns)) else [[]])"
| "license_choices enabled n = []"

definition keyword_in_effect :: "policy \<Rightarrow> package \<Rightarrow> string \<Rightarrow> bool" where
  \<comment> \<open>the base keyword and the global list, overridden by the changes for the package in their order\<close>
  "keyword_in_effect pol pkg k =
     foldl (change_decides k)
       (k \<in> set (po_accepted_keywords pol) \<or> (k = pp_base_keyword (pk_policy pkg) \<and> k \<noteq> []))
       (entries (pp_keyword_changes (pk_policy pkg)))"

definition keyword_allowed :: "policy \<Rightarrow> package \<Rightarrow> bool" where
  "keyword_allowed pol pkg \<longleftrightarrow>
     (\<forall>k. \<not> keyword_in_effect pol pkg k) \<or>
     (\<exists>k \<in> set (entries (pk_keywords pkg)). \<not> HasPrefix k ''-'' \<and>
        (keyword_in_effect pol pkg ''**'' \<or>
         (k \<notin> {''*'', ''~*''} \<and> keyword_in_effect pol pkg k) \<or>
         keyword_in_effect pol pkg (if HasPrefix k ''~'' then ''~*'' else ''*'')))"

definition license_allowed :: "policy \<Rightarrow> package \<Rightarrow> bool" where
  "license_allowed pol pkg \<longleftrightarrow>
     (po_accepted_licenses pol = [] \<and> entries (pp_license_changes (pk_policy pkg)) = []) \<or>
     (case dep_Parse (pk_license pkg) of
        Inl e \<Rightarrow> False
      | Inr None \<Rightarrow> True
      | Inr (Some n) \<Rightarrow> \<exists>names \<in> set (license_choices (use_value (pk_use pkg)) n). list_all (license_decision (accepted_licenses pol pkg)) names)"

definition policy_allows :: "policy \<Rightarrow> package \<Rightarrow> bool" where
  "policy_allows pol pkg \<longleftrightarrow>
     \<not> pk_masked pkg \<and> (po_supported_eapis pol = [] \<or> pk_eapi pkg \<in> set (po_supported_eapis pol)) \<and>
     keyword_allowed pol pkg \<and> license_allowed pol pkg"

lemma accepted_keywords_member: "k \<in> set (accepted_keywords pol pkg) \<longleftrightarrow> keyword_in_effect pol pkg k"
  unfolding accepted_keywords_def applyPolicyChanges_member keyword_in_effect_def
  by (rule arg_cong [where f = "\<lambda>b. foldl (change_decides k) b (entries (pp_keyword_changes (pk_policy pkg)))"]) auto

lemma keywordAccepted_member:
  "keywordAccepted keywords accepted \<longleftrightarrow>
     (\<exists>k \<in> set keywords. \<not> HasPrefix k ''-'' \<and>
        (''**'' \<in> set accepted \<or> (k \<notin> {''*'', ''~*''} \<and> k \<in> set accepted) \<or>
         (if HasPrefix k ''~'' then ''~*'' else ''*'') \<in> set accepted))"
  by (auto simp: keywordAccepted_def Let_def list_ex_iff)

lemma keyword_clean:
  "accepted_keywords pol pkg = [] \<or> keywordAccepted (entries (pk_keywords pkg)) (accepted_keywords pol pkg) \<longleftrightarrow>
   keyword_allowed pol pkg"
proof -
  have "accepted_keywords pol pkg = [] \<longleftrightarrow> (\<forall>k. \<not> keyword_in_effect pol pkg k)"
    by (metis accepted_keywords_member list.set_intros(1) list.exhaust empty_iff list.set(1))
  then show ?thesis unfolding keyword_allowed_def keywordAccepted_member accepted_keywords_member by simp
qed

lemma all_choices:
  assumes "\<And>n. n \<in> set ns \<Longrightarrow> P n \<longleftrightarrow> (\<exists>names \<in> set (f n). list_all Q names)"
  shows "list_all P ns \<longleftrightarrow> (\<exists>names \<in> set (map concat (product_lists (map f ns))). list_all Q names)"
  using assms
proof (induction ns)
  case (Cons n ns)
  have "(\<exists>names \<in> set (map concat (product_lists (map f (n # ns)))). list_all Q names) \<longleftrightarrow>
      (\<exists>a \<in> set (f n). list_all Q a) \<and> (\<exists>names \<in> set (map concat (product_lists (map f ns))). list_all Q names)"
    by (auto simp: list_all_iff)
  then show ?case using Cons by simp
qed simp

lemma license_node_choices:
  "licenseNodeAccepted n use accepted \<longleftrightarrow> (\<exists>names \<in> set (license_choices (use_value use) n). list_all (license_accepted accepted) names)"
proof (induction n)
  case (AllOfGroup ns implicit)
  then show ?case using all_choices [of ns "\<lambda>n. licenseNodeAccepted n use accepted" "license_choices (use_value use)"] by simp
next
  case (UseConditional flag ns)
  then show ?case using all_choices [of ns "\<lambda>n. licenseNodeAccepted n use accepted" "license_choices (use_value use)"]
    by (simp add: flag_enabled_trim Let_def)
qed (auto simp: list_ex_iff)

lemma license_clean: "license_violations pol pkg = [] \<longleftrightarrow> license_allowed pol pkg"
  by (auto simp: license_violations_def license_allowed_def license_root_accepted_def license_node_choices acceptedLicenseSet_decides list_all_iff
      split: sum.split option.split)

lemma package_policy_clean: "package_policy_violations pol pkg = [] \<longleftrightarrow> policy_allows pol pkg"
  using keyword_clean [of pol pkg] license_clean [of pol pkg]
  by (simp add: package_policy_violations_def policy_allows_def) blast

interpretation policy_check: validator "package_policy_violations pol" "policy_allows pol" for pol
  by unfold_locales (rule package_policy_clean)

lemma policy_clean:
  "validateActionPolicy pol actions = [] \<longleftrightarrow>
   (\<forall>a \<in> set actions. ac_kind a \<noteq> ActionInstall \<or> policy_allows pol (ac_package a))"
  unfolding validateActionPolicy_def by (rule policy_check.clean_selected)



text \<open>
  The expansion of license groups ends on every group table, cyclic ones included: recursion deeper
  than the number of groups changes nothing, because a group that is being expanded stands for itself.
\<close>

theorem license_expansion_terminates:
  assumes "length groups < n"
  shows "concat (map (expand n groups []) changes) = expandLicenseGroups changes groups"
proof -
  have "expand n groups [] = expand (length groups + 1) groups []" using expand_enough [OF assms] by blast
  then show ?thesis by (simp only: expandLicenseGroups_def)
qed

theorem license_expansion_terminates_witness:
  "expandLicenseGroups [''-@A''] [(''A'', [''@B'', ''MIT'']), (''B'', [''@A'', ''GPL-2''])] = [''-@A'', ''-GPL-2'', ''-MIT'']"
  using license_expansion_terminates [of "[(''A'', [''@B'', ''MIT'']), (''B'', [''@A'', ''GPL-2''])]" 3 "[''-@A'']", symmetric]
  by (simp add: numeral_3_eq_3 license_group_def license_name_def signed_member_def TrimPrefix_def)

end
