(* ===== verification/Plan_Validate.thy ===== *)
theory Plan_Validate
  imports Plan_Order Plan_Policy
begin

text \<open>
  Validation of a plan, \<^verbatim>\<open>src/internal/planvalidate/validate.go\<close> and \<^verbatim>\<open>build_only.go\<close>: \<^verbatim>\<open>ValidateFinalState\<close> checks the state a plan leads to,
  \<^verbatim>\<open>validateBuildOnly\<close> plans that only build archives, and \<^verbatim>\<open>ValidatePlanImpact\<close> compares a plan with the installed state it
  starts from.
\<close>

subsection \<open>Package dependencies\<close>

definition DomainSysroot :: string where "DomainSysroot = ''sysroot''"

definition DomainBroot :: string where "DomainBroot = ''broot''"

definition supportedDependencyClasses :: "string list" where
  "supportedDependencyClasses = [''DEPEND'', ''RDEPEND'', ''BDEPEND'', ''IDEPEND'', ''PDEPEND'']"

definition mergeTimeDependency :: "string \<Rightarrow> bool" where
  "mergeTimeDependency cls \<longleftrightarrow> cls = ''DEPEND'' \<or> cls = ''BDEPEND'' \<or> cls = ''IDEPEND''"

definition dependencyDomainState :: "fixture \<Rightarrow> string \<Rightarrow> string \<Rightarrow> package_state \<Rightarrow> package_state option" where
  "dependencyDomainState fx cls rawEAPI finalRoot =
     (if cls = ''RDEPEND'' \<or> cls = ''PDEPEND'' then Some finalRoot
      else if cls = ''DEPEND'' then
        (if fx_domains_alias_to_root fx then Some finalRoot
         else map_option newPackageState (map_of (fx_domains fx)
           (case Atoi rawEAPI of Some eapi \<Rightarrow> if eapi < 7 then DomainBroot else DomainSysroot | None \<Rightarrow> DomainSysroot)))
      else if cls = ''BDEPEND'' \<or> cls = ''IDEPEND'' then
        (if fx_domains_alias_to_root fx then Some finalRoot
         else map_option newPackageState (map_of (fx_domains fx) DomainBroot))
      else None)"

definition class_violations :: "fixture \<Rightarrow> package \<Rightarrow> bool \<Rightarrow> package_state \<Rightarrow> string \<Rightarrow> violation list" where
  \<comment> \<open>one iteration over the dependency classes\<close>
  "class_violations fx pkg installing finalRoot cls =
     (let expression = dependency_text pkg cls in
      if \<not> installing \<and> mergeTimeDependency cls then []
      else if pk_merge_type pkg = ''binary'' \<and> (cls = ''DEPEND'' \<or> cls = ''BDEPEND'') then []
      else if expression = [] then []
      else if cls \<notin> set supportedDependencyClasses then
        [violation_of ''unsupported-dependency-class'' (pk_cpv pkg) cls (pk_cpv pkg) ''validator does not yet implement this dependency class'']
      else case dependencyDomainState fx cls (pk_eapi pkg) finalRoot of
          None \<Rightarrow> [violation_of ''missing-dependency-domain'' (pk_cpv pkg) cls (pk_cpv pkg)
            ''fixture does not provide the required independent dependency domain'']
        | Some domain \<Rightarrow>
            (case dep_Parse expression of
               Inl e \<Rightarrow> [violation_of ''invalid-dependency-expression'' (pk_cpv pkg) expression (pk_cpv pkg) (dep_error_text e)]
             | Inr node \<Rightarrow>
                 (case ValidatePackageDependenciesEAPI node (pk_eapi pkg) of
                    Some e \<Rightarrow> [violation_of ''invalid-dependency-expression'' (pk_cpv pkg) expression (pk_cpv pkg) (dep_valid_error_text e)]
                  | None \<Rightarrow>
                      (case node of
                         None \<Rightarrow> [] \<comment> \<open>only for a blank expression\<close>
                       | Some n \<Rightarrow> map (\<lambda>v. v\<lparr>vi_class := cls\<rparr>) (snd (validateNode n pkg domain))))))"

definition dependency_classes :: "package \<Rightarrow> string list" where
  "dependency_classes pkg = sort (map fst (entries (pk_dependencies pkg)))"

definition validatePackageDependencies :: "fixture \<Rightarrow> package \<Rightarrow> bool \<Rightarrow> package_state \<Rightarrow> violation list" where
  "validatePackageDependencies fx pkg installing finalRoot =
     (if rq_partial_mode (fx_request fx) = ''nodeps'' then []
      else concat (map (class_violations fx pkg installing finalRoot) (dependency_classes pkg)))"

subsection \<open>The final state\<close>

definition bounded_result :: "violation list \<Rightarrow> nat \<Rightarrow> validation_result" where
  \<comment> \<open>sort, bound and wrap the violations; what was omitted before counts\<close>
  "bounded_result vs alreadyOmitted =
     (case boundViolations (sortViolations vs) alreadyOmitted of (bounded, truncated, omitted) \<Rightarrow>
        \<lparr>vr_valid = (bounded = [] \<and> omitted = 0), vr_violations = bounded, vr_truncated = truncated,
         vr_omitted = omitted, vr_pre_existing = 0\<rparr>)"

definition schema_violations :: "fixture \<Rightarrow> plan \<Rightarrow> violation list" where
  "schema_violations fx p =
     (if fx_schema fx \<noteq> SchemaVersion
      then [violation_of ''unsupported-fixture-schema'' [] (Itoa (fx_schema fx)) [] ''fixture schema is unsupported''] else []) @
     (if pl_schema p \<noteq> SchemaVersion
      then [violation_of ''unsupported-plan-schema'' [] (Itoa (pl_schema p)) [] ''plan schema is unsupported''] else []) @
     (if rq_partial_mode (fx_request fx) \<notin> {[], ''nodeps'', ''onlydeps''}
      then [violation_of ''unsupported-partial-mode'' [] (rq_partial_mode (fx_request fx)) [] ''request partial-plan mode is unsupported'']
      else [])"

definition action_violations :: "fixture \<Rightarrow> plan \<Rightarrow> violation list" where
  \<comment> \<open>the four checks of the actions and the ledger\<close>
  "action_violations fx p =
     validateActionAuthority (fx_available fx) (pl_actions p) @ validateActionPolicy (fx_policy fx) (pl_actions p) @
     validateActionOrder (pl_actions p) @ validateDecisionLedger p"

definition installs :: "plan \<Rightarrow> package \<Rightarrow> bool" where
  \<comment> \<open>the map \<^verbatim>\<open>installing\<close>\<close>
  "installs p pkg \<longleftrightarrow>
     list_ex (\<lambda>a. ac_kind a = ActionInstall \<and> packageIdentity (ac_package a) = packageIdentity pkg) (pl_actions p)"

definition package_violations :: "fixture \<Rightarrow> package \<Rightarrow> bool \<Rightarrow> package_state \<Rightarrow> violation list" where
  \<comment> \<open>the loop body over the packages of the final state\<close>
  "package_violations fx pkg installing finalRoot =
     (case parseCPV (pk_cpv pkg) of
        Inl e \<Rightarrow> [violation_of ''invalid-package-identity'' (pk_cpv pkg) [] [] e]
      | Inr a \<Rightarrow> validatePackageDependencies fx pkg installing finalRoot @ validatePackageRequiredUse pkg)"

definition request_violations :: "fixture \<Rightarrow> plan \<Rightarrow> package list \<Rightarrow> violation list" where
  "request_violations fx p packages =
     (if rq_partial_mode (fx_request fx) \<noteq> ''onlydeps''
      then validateTargets (fx_request fx) (newPackageState packages) @ validateActionJustification fx p packages else [])"

definition planned_state :: "fixture \<Rightarrow> plan \<Rightarrow> package list" where
  "planned_state fx p = ar_packages (ApplyPlan (fx_installed fx) p)"

definition final_violations :: "fixture \<Rightarrow> plan \<Rightarrow> violation list" where
  \<comment> \<open>all violations of \<^verbatim>\<open>ValidateFinalState\<close>, before they are sorted and bounded\<close>
  "final_violations fx p =
     (let packages = planned_state fx p; finalRoot = newPackageState packages in
      ar_violations (ApplyPlan (fx_installed fx) p) @ schema_violations fx p @ action_violations fx p @
      concat (map (\<lambda>pkg. package_violations fx pkg (installs p pkg) finalRoot) packages) @
      request_violations fx p packages)"

definition validate_installed_state :: "fixture \<Rightarrow> plan \<Rightarrow> validation_result" where
  \<comment> \<open>\<^verbatim>\<open>ValidateFinalState\<close> past its first test\<close>
  "validate_installed_state fx p =
     bounded_result (final_violations fx p) (ar_omitted (ApplyPlan (fx_installed fx) p))"

subsection \<open>Plans that only build\<close>

definition build_owner :: "package \<Rightarrow> package" where
  \<comment> \<open>the package with the dependencies that matter for building it\<close>
  "build_owner owner =
     owner\<lparr>pk_dependencies := Some (filter (\<lambda>(cls, e). cls = ''DEPEND'' \<or> cls = ''BDEPEND'' \<or>
       cls \<notin> set supportedDependencyClasses) (entries (pk_dependencies owner)))\<rparr>"

definition build_violations :: "fixture \<Rightarrow> action_item \<Rightarrow> violation list" where
  \<comment> \<open>one iteration over the actions\<close>
  "build_violations fx a =
     (let owner = ac_package a in
      if ac_kind a \<noteq> ActionInstall \<or> pk_merge_type owner = ''binary'' then
        [violation_of ''unsupported-build-action'' (pk_cpv owner) (ac_kind a) [] ''build-only plans require source build actions'']
      else case parseCPV (pk_cpv owner) of
          Inl e \<Rightarrow> [violation_of ''invalid-package-identity'' (pk_cpv owner) [] [] e]
        | Inr _ \<Rightarrow>
            validatePackageDependencies fx (build_owner owner) True (newPackageState (fx_installed fx)) @
            validatePackageRequiredUse (build_owner owner))"

definition is_build :: "action_item \<Rightarrow> bool" where
  \<comment> \<open>the action reaches \<^verbatim>\<open>outputs = append(outputs, owner)\<close>\<close>
  "is_build a \<longleftrightarrow> ac_kind a = ActionInstall \<and> pk_merge_type (ac_package a) \<noteq> ''binary'' \<and>
     (case parseCPV (pk_cpv (ac_package a)) of Inl e \<Rightarrow> False | Inr _ \<Rightarrow> True)"

definition build_outputs :: "fixture \<Rightarrow> plan \<Rightarrow> package list" where
  "build_outputs fx p = fx_installed fx @ map ac_package (filter is_build (pl_actions p))"

definition build_baseline :: "fixture \<Rightarrow> fixture" where
  "build_baseline fx =
     fx\<lparr>fx_request := (fx_request fx)\<lparr>rq_build_only := False, rq_targets := [], rq_original_targets := [],
       rq_operation := ''install''\<rparr>\<rparr>"

definition build_action_violations :: "fixture \<Rightarrow> plan \<Rightarrow> violation list" where
  \<comment> \<open>what \<^verbatim>\<open>validateBuildOnly\<close> appends after the baseline\<close>
  "build_action_violations fx p =
     action_violations fx p @ concat (map (build_violations fx) (pl_actions p)) @ request_violations fx p (build_outputs fx p)"

definition validateBuildOnly :: "fixture \<Rightarrow> plan \<Rightarrow> validation_result" where
  "validateBuildOnly fx p =
     (let baseline = validate_installed_state (build_baseline fx) (schema_plan (pl_schema p)) in
      bounded_result
        (vr_violations baseline @ map (\<lambda>v. v\<lparr>vi_message := ''build action: '' @ vi_message v\<rparr>) (build_action_violations fx p))
        (vr_omitted baseline))"

definition ValidateFinalState :: "fixture \<Rightarrow> plan \<Rightarrow> validation_result" where
  "ValidateFinalState fx p =
     (if rq_build_only (fx_request fx) then validateBuildOnly fx p else validate_installed_state fx p)"

subsection \<open>The impact of a plan\<close>

definition nonWaivableViolation :: "string \<Rightarrow> bool" where
  "nonWaivableViolation kind \<longleftrightarrow>
     kind \<in> {''unsupported-fixture-schema'', ''unsupported-plan-schema'', ''invalid-request-target'', ''unsupported-atom-semantics'',
       ''unsatisfied-request-target'', ''retained-removal-target'', ''unsupported-operation''} \<or>
     HasPrefix kind ''duplicate-'' \<or> HasPrefix kind ''missing-removal'' \<or> HasPrefix kind ''invalid-replacement'' \<or>
     kind = ''already-installed'' \<or> kind = ''slot-collision'' \<or> kind = ''unknown-action''"

definition inconclusive :: validation_result where
  "inconclusive =
     \<lparr>vr_valid = False,
      vr_violations = [violation_of ''comparison-inconclusive'' [] [] [] ''validation impact exceeds the bounded unique diagnostic comparison''],
      vr_truncated = True, vr_omitted = 0, vr_pre_existing = 0\<rparr>"

definition impact_result :: "violation list \<Rightarrow> nat \<Rightarrow> validation_result" where
  \<comment> \<open>the end of both impact functions: valid when nothing was introduced\<close>
  "impact_result introduced preExisting =
     (case boundViolations (sortViolations introduced) 0 of (bounded, truncated, omitted) \<Rightarrow>
        \<lparr>vr_valid = (bounded = []), vr_violations = bounded, vr_truncated = truncated, vr_omitted = omitted,
         vr_pre_existing = preExisting\<rparr>)"

definition baselineStatePackages :: "fixture \<Rightarrow> package list" where
  "baselineStatePackages fx = canonicalState (fx_installed fx)"

definition validateNoActionImpact :: "fixture \<Rightarrow> plan \<Rightarrow> validation_result \<Rightarrow> validation_result" where
  "validateNoActionImpact fx p baseline =
     (if length (vr_violations baseline) = MaxViolationRecords then inconclusive
      else impact_result
        (filter (\<lambda>v. nonWaivableViolation (vi_kind v)) (vr_violations baseline) @ validateDecisionLedger p @
         (if rq_partial_mode (fx_request fx) \<noteq> ''onlydeps''
          then validateTargets (fx_request fx) (newPackageState (baselineStatePackages fx)) else []))
        (length (vr_violations baseline)))"

definition impact_baseline :: "fixture \<Rightarrow> fixture" where
  "impact_baseline fx =
     fx\<lparr>fx_request := \<lparr>rq_build_only = False, rq_operation = ''install'', rq_targets = [], rq_original_targets = [],
       rq_partial_mode = rq_partial_mode (fx_request fx)\<rparr>\<rparr>"

definition waived :: "fixture \<Rightarrow> plan \<Rightarrow> violation list \<Rightarrow> violation \<Rightarrow> bool" where
  "waived fx p preExisting v \<longleftrightarrow>
     (rq_build_only (fx_request fx) \<or>
      \<not> list_ex (\<lambda>a. ac_kind a = ActionInstall \<and> pk_cpv (ac_package a) = vi_package v) (pl_actions p)) \<and>
     \<not> nonWaivableViolation (vi_kind v) \<and> v \<in> set preExisting"

definition compare_impact :: "fixture \<Rightarrow> plan \<Rightarrow> validation_result \<Rightarrow> validation_result \<Rightarrow> validation_result" where
  \<comment> \<open>the rest of \<^verbatim>\<open>ValidatePlanImpact\<close> for a plan with actions\<close>
  "compare_impact fx p baseline planned =
     (if length (vr_violations baseline) = MaxViolationRecords \<or> length (vr_violations planned) = MaxViolationRecords then inconclusive
      else impact_result (filter (\<lambda>v. \<not> waived fx p (vr_violations baseline) v) (vr_violations planned))
        (length (filter (waived fx p (vr_violations baseline)) (vr_violations planned))))"

definition ValidatePlanImpact :: "fixture \<Rightarrow> plan \<Rightarrow> validation_result" where
  "ValidatePlanImpact fx p =
     (let baseline = ValidateFinalState (impact_baseline fx) (schema_plan (pl_schema p)) in
      if pl_actions p = [] then validateNoActionImpact fx p baseline
      else compare_impact fx p baseline (ValidateFinalState fx p))"

subsection \<open>A specification of valid states\<close>

definition dependency_domain :: "fixture \<Rightarrow> string \<Rightarrow> string \<Rightarrow> package list \<Rightarrow> package list option" where
  \<comment> \<open>the packages a dependency class is resolved in\<close>
  "dependency_domain fx cls rawEAPI root =
     (if cls \<in> {''RDEPEND'', ''PDEPEND''} then Some root
      else if cls \<in> {''DEPEND'', ''BDEPEND'', ''IDEPEND''} then
        (if fx_domains_alias_to_root fx then Some root
         else map_of (fx_domains fx)
           (if cls = ''DEPEND'' \<and> (\<forall>eapi. Atoi rawEAPI = Some eapi \<longrightarrow> 7 \<le> eapi) then DomainSysroot else DomainBroot))
      else None)"

definition package_value :: "package \<Rightarrow> package list \<Rightarrow> bool \<Rightarrow> bool \<Rightarrow> string \<Rightarrow> bool" where
  \<comment> \<open>an atom holds if some package matches it, a blocker if none does\<close>
  "package_value owner ps block weak a \<longleftrightarrow>
     (\<exists>c. ParsePackageAtom (if block \<or> weak then TrimLeft a ''!'' else a) = Inr c \<and>
       (\<exists>p \<in> set ps. package_matches p c (Some owner)) = (\<not> block \<and> \<not> weak))"

definition dependency_met :: "fixture \<Rightarrow> package \<Rightarrow> package list \<Rightarrow> string \<Rightarrow> bool" where
  \<comment> \<open>the expression of the class parses, the EAPI allows it and it holds in the domain of the class\<close>
  "dependency_met fx pkg root cls \<longleftrightarrow>
     (\<exists>ps n. dependency_domain fx cls (pk_eapi pkg) root = Some ps \<and>
        dep_Parse (dependency_text pkg cls) = Inr (Some n) \<and> dep_allowed (Atoi (pk_eapi pkg)) n \<and>
        tree_holds (use_value (pk_use pkg)) (package_value pkg ps) n)"

definition dependency_due :: "package \<Rightarrow> bool \<Rightarrow> string \<Rightarrow> bool" where
  \<comment> \<open>build and merge tools matter only for packages being installed, build tools only for source packages\<close>
  "dependency_due pkg installing cls \<longleftrightarrow>
     cls \<in> set (map fst (entries (pk_dependencies pkg))) \<and> dependency_text pkg cls \<noteq> [] \<and>
     (installing \<or> cls \<notin> {''DEPEND'', ''BDEPEND'', ''IDEPEND''}) \<and>
     (pk_merge_type pkg = ''binary'' \<longrightarrow> cls \<notin> {''DEPEND'', ''BDEPEND''})"

definition required_use_met :: "package \<Rightarrow> bool" where
  "required_use_met pkg \<longleftrightarrow>
     TrimSpace (pk_required_use pkg) = [] \<or>
     (\<exists>n. dep_Parse (pk_required_use pkg) = Inr (Some n) \<and>
        tree_holds (use_value (pk_use pkg)) (\<lambda>block weak flag. \<not> weak \<and> (block \<noteq> use_value (pk_use pkg) flag)) n)"

definition package_valid :: "fixture \<Rightarrow> package \<Rightarrow> bool \<Rightarrow> package list \<Rightarrow> bool" where
  "package_valid fx pkg installing root \<longleftrightarrow>
     (\<exists>a. parseCPV (pk_cpv pkg) = Inr a) \<and>
     (rq_partial_mode (fx_request fx) = ''nodeps'' \<or> (\<forall>cls. dependency_due pkg installing cls \<longrightarrow> dependency_met fx pkg root cls)) \<and>
     required_use_met pkg"

lemma domain_state:
  "dependencyDomainState fx cls rawEAPI (newPackageState root) = map_option newPackageState (dependency_domain fx cls rawEAPI root)"
  by (auto simp: dependencyDomainState_def dependency_domain_def split: option.split)

lemma domain_supported: "dependency_domain fx cls rawEAPI root = Some ps \<Longrightarrow> cls \<in> set supportedDependencyClasses"
  by (auto simp: dependency_domain_def supportedDependencyClasses_def split: if_splits)

lemma dep_value_packages: "dep_value owner (newPackageState ps) = package_value owner ps"
  by (intro ext) (auto simp: dep_value_def package_value_def state_matches_new)

lemma node_clean:
  assumes "dep_allowed eapi n"
  shows "map f (snd (validateNode n owner (newPackageState ps))) = [] \<longleftrightarrow>
    tree_holds (use_value (pk_use owner)) (package_value owner ps) n"
  using validateNode_holds [OF assms, of owner "newPackageState ps"] validateNode_reports by (simp add: dep_value_packages)

lemma text_parses:
  assumes "dependency_text pkg cls \<noteq> []"
  shows "dep_Parse (dependency_text pkg cls) \<noteq> Inr None"
  using dep_Parse_some [of "dependency_text pkg cls" None] assms by (auto simp: dependency_text_def)

lemma expression_clean:
  assumes "dependency_text pkg cls \<noteq> []"
  shows "(case dep_Parse (dependency_text pkg cls) of
       Inl e \<Rightarrow> [v e]
     | Inr node \<Rightarrow> (case ValidatePackageDependenciesEAPI node (pk_eapi pkg) of
          Some e \<Rightarrow> [w e]
        | None \<Rightarrow> (case node of None \<Rightarrow> []
            | Some n \<Rightarrow> map f (snd (validateNode n pkg (newPackageState ps)))))) = [] \<longleftrightarrow>
     (\<exists>n. dep_Parse (dependency_text pkg cls) = Inr (Some n) \<and> dep_allowed (Atoi (pk_eapi pkg)) n \<and>
        tree_holds (use_value (pk_use pkg)) (package_value pkg ps) n)"
proof (cases "dep_Parse (dependency_text pkg cls)")
  case (Inr node)
  then obtain n where node: "node = Some n" using text_parses [OF assms] by (cases node) auto
  have "ValidatePackageDependenciesEAPI (Some n) (pk_eapi pkg) = None \<longleftrightarrow> dep_allowed (Atoi (pk_eapi pkg)) n"
    by (simp add: ValidatePackageDependenciesEAPI_def validateDep_None)
  then show ?thesis using node_clean Inr node by (cases "ValidatePackageDependenciesEAPI (Some n) (pk_eapi pkg)") simp_all
qed simp

lemma class_clean:
  assumes "cls \<in> set (map fst (entries (pk_dependencies pkg)))"
  shows "class_violations fx pkg installing (newPackageState root) cls = [] \<longleftrightarrow>
    (dependency_due pkg installing cls \<longrightarrow> dependency_met fx pkg root cls)"
proof (cases "dependency_due pkg installing cls")
  case False
  have "\<not> installing \<and> mergeTimeDependency cls \<or> pk_merge_type pkg = ''binary'' \<and> (cls = ''DEPEND'' \<or> cls = ''BDEPEND'') \<or>
      dependency_text pkg cls = []"
    using False assms unfolding dependency_due_def mergeTimeDependency_def by blast
  then have "class_violations fx pkg installing (newPackageState root) cls = []"
    unfolding class_violations_def Let_def by presburger
  then show ?thesis using False by simp
next
  case True
  then have due: "\<not> (\<not> installing \<and> mergeTimeDependency cls)" "dependency_text pkg cls \<noteq> []"
      "\<not> (pk_merge_type pkg = ''binary'' \<and> (cls = ''DEPEND'' \<or> cls = ''BDEPEND''))"
    by (auto simp: dependency_due_def mergeTimeDependency_def)
  note skip = due(1) [THEN if_not_P] due(3) [THEN if_not_P] due(2) [THEN if_not_P]
  show ?thesis
  proof (cases "dependency_domain fx cls (pk_eapi pkg) root")
    case None
    then show ?thesis using True by (simp add: class_violations_def Let_def skip domain_state dependency_met_def)
  next
    case (Some ps)
    then show ?thesis using True domain_supported [OF Some] expression_clean [OF due(2)]
      by (simp add: class_violations_def Let_def skip domain_state dependency_met_def)
  qed
qed

lemma dependencies_clean:
  "validatePackageDependencies fx pkg installing (newPackageState root) = [] \<longleftrightarrow>
   rq_partial_mode (fx_request fx) = ''nodeps'' \<or> (\<forall>cls. dependency_due pkg installing cls \<longrightarrow> dependency_met fx pkg root cls)"
proof -
  have "concat (map (class_violations fx pkg installing (newPackageState root)) (dependency_classes pkg)) = [] \<longleftrightarrow>
      (\<forall>cls \<in> set (map fst (entries (pk_dependencies pkg))). dependency_due pkg installing cls \<longrightarrow> dependency_met fx pkg root cls)"
    unfolding concat_eq_Nil_conv set_map [of "class_violations fx pkg installing (newPackageState root)"] ball_simps(9)
      dependency_classes_def set_sort using class_clean by blast
  then show ?thesis unfolding validatePackageDependencies_def using dependency_due_def by auto
qed

lemma required_use_met_clean: "validatePackageRequiredUse pkg = [] \<longleftrightarrow> required_use_met pkg"
  unfolding required_use_clean required_use_met_def requiredUse_holds ..

lemma package_clean:
  "package_violations fx pkg installing (newPackageState root) = [] \<longleftrightarrow> package_valid fx pkg installing root"
  by (cases "parseCPV (pk_cpv pkg)")
    (simp_all add: package_violations_def package_valid_def dependencies_clean required_use_met_clean)

interpretation package_check: validator "\<lambda>(pkg, installing). package_violations fx pkg installing (newPackageState root)"
    "\<lambda>(pkg, installing). package_valid fx pkg installing root" for fx root
  by unfold_locales (simp add: case_prod_beta package_clean)

definition actions_valid :: "fixture \<Rightarrow> plan \<Rightarrow> bool" where
  "actions_valid fx p \<longleftrightarrow>
     (\<forall>a \<in> set (pl_actions p). ac_kind a \<noteq> ActionInstall \<or>
        authoritative (fx_available fx) (ac_package a) \<and> policy_allows (fx_policy fx) (ac_package a)) \<and>
     order_ok (pl_actions p) \<and> ledger_ok p"

definition request_valid :: "fixture \<Rightarrow> plan \<Rightarrow> package list \<Rightarrow> bool" where
  "request_valid fx p packages \<longleftrightarrow>
     rq_partial_mode (fx_request fx) = ''onlydeps'' \<or>
     targets_met (fx_request fx) packages \<and>
     (\<forall>a \<in> set (pl_actions p). ac_kind a \<noteq> ActionInstall \<or> ac_id a = [] \<or> justified fx p packages (ac_id a))"

definition schemas_valid :: "fixture \<Rightarrow> plan \<Rightarrow> bool" where
  "schemas_valid fx p \<longleftrightarrow>
     fx_schema fx = 1 \<and> pl_schema p = 1 \<and> rq_partial_mode (fx_request fx) \<in> {[], ''nodeps'', ''onlydeps''}"

definition plan_valid :: "fixture \<Rightarrow> plan \<Rightarrow> bool" where
  "plan_valid fx p \<longleftrightarrow>
     ar_violations (ApplyPlan (fx_installed fx) p) = [] \<and> schemas_valid fx p \<and> actions_valid fx p \<and>
     (\<forall>pkg \<in> set (planned_state fx p). package_valid fx pkg (installs p pkg) (planned_state fx p)) \<and>
     request_valid fx p (planned_state fx p)"

lemma actions_clean: "action_violations fx p = [] \<longleftrightarrow> actions_valid fx p"
  unfolding action_violations_def actions_valid_def append_is_Nil_conv authorities_clean policy_clean order_clean ledger_clean
  by blast

lemma request_clean: "request_violations fx p packages = [] \<longleftrightarrow> request_valid fx p packages"
  by (simp add: request_violations_def request_valid_def targets_clean justification_clean)

lemma schema_clean: "schema_violations fx p = [] \<longleftrightarrow> schemas_valid fx p"
  by (simp add: schema_violations_def schemas_valid_def SchemaVersion_def)

lemma final_clean: "final_violations fx p = [] \<longleftrightarrow> plan_valid fx p"
proof -
  have "concat (map (\<lambda>pkg. package_violations fx pkg (f pkg) (newPackageState root)) pkgs) = [] \<longleftrightarrow>
      (\<forall>pkg \<in> set pkgs. package_valid fx pkg (f pkg) root)" for f root pkgs
    using package_check.clean_mapped [of fx root "\<lambda>pkg. (pkg, f pkg)" pkgs] by simp
  then show ?thesis unfolding final_violations_def Let_def append_is_Nil_conv plan_valid_def actions_clean request_clean schema_clean
    by (simp only:)
qed

lemma bounded_result_valid: "vr_valid (bounded_result vs n) \<longleftrightarrow> vs = [] \<and> n = 0"
proof -
  have "fst (boundViolations (sortViolations vs) n) = [] \<longleftrightarrow> vs = []" by (simp add: bounded_empty)
  moreover have "snd (snd (boundViolations (sortViolations [] ) n)) = n" by (simp add: bounded_omitted sortViolations_def)
  ultimately show ?thesis by (auto simp: bounded_result_def case_prod_beta)
qed

lemma applied_omitted: "ar_violations (ApplyPlan installed p) = [] \<Longrightarrow> ar_omitted (ApplyPlan installed p) = 0"
  by (simp add: ApplyPlan_parts bounded_omitted bounded_empty) (simp add: sortViolations_def)

lemma validate_installed_exact: "vr_valid (validate_installed_state fx p) \<longleftrightarrow> plan_valid fx p"
  using applied_omitted [of "fx_installed fx" p] final_clean [of fx p]
  by (auto simp: validate_installed_state_def bounded_result_valid plan_valid_def)


definition build_valid :: "fixture \<Rightarrow> action_item \<Rightarrow> bool" where
  "build_valid fx a \<longleftrightarrow>
     ac_kind a = ActionInstall \<and> pk_merge_type (ac_package a) \<noteq> ''binary'' \<and>
     package_valid fx (build_owner (ac_package a)) True (fx_installed fx)"

lemma build_clean: "build_violations fx a = [] \<longleftrightarrow> build_valid fx a"
  by (cases "parseCPV (pk_cpv (ac_package a))")
    (simp_all add: build_violations_def Let_def build_valid_def package_valid_def dependencies_clean required_use_met_clean build_owner_def)

interpretation build_check: validator "build_violations fx" "build_valid fx" for fx
  by unfold_locales (rule build_clean)

lemma bounded_result_parts:
  "vr_violations (bounded_result vs n) = fst (boundViolations (sortViolations vs) n)"
  "vr_omitted (bounded_result vs n) = snd (snd (boundViolations (sortViolations vs) n))"
  "vr_valid (bounded_result vs n) \<longleftrightarrow> vr_violations (bounded_result vs n) = [] \<and> vr_omitted (bounded_result vs n) = 0"
  by (simp_all add: bounded_result_def split: prod.split)

lemma bounded_result_set:
  "set (vr_violations (bounded_result vs n)) \<subseteq> set vs"
  "length (vr_violations (bounded_result vs n)) \<noteq> MaxViolationRecords \<Longrightarrow> set (vr_violations (bounded_result vs n)) = set vs"
  "length (vr_violations (bounded_result vs n)) \<le> MaxViolationRecords"
  "distinct (vr_violations (bounded_result vs n))"
proof -
  let ?vs = "sortViolations vs"
  show "set (vr_violations (bounded_result vs n)) \<subseteq> set vs" using bounded_set(1) [of ?vs n] by (simp add: bounded_result_parts)
  show len: "length (vr_violations (bounded_result vs n)) \<le> MaxViolationRecords" by (simp add: bounded_result_parts bounded_unique)
  show "distinct (vr_violations (bounded_result vs n))"
    by (simp add: bounded_result_parts bounded_unique distinct_take unique_violations_distinct)
  assume "length (vr_violations (bounded_result vs n)) \<noteq> MaxViolationRecords"
  then show "set (vr_violations (bounded_result vs n)) = set vs"
    using bounded_set(2) [of ?vs n] len by (simp add: bounded_result_parts)
qed

lemma impact_result_valid: "vr_valid (impact_result vs n) \<longleftrightarrow> vs = []"
  using bounded_empty [of "sortViolations vs" 0] by (simp add: impact_result_def case_prod_beta)

definition build_only_valid :: "fixture \<Rightarrow> plan \<Rightarrow> bool" where
  "build_only_valid fx p \<longleftrightarrow>
     plan_valid (build_baseline fx) (schema_plan (pl_schema p)) \<and> actions_valid fx p \<and>
     (\<forall>a \<in> set (pl_actions p). build_valid fx a) \<and> request_valid fx p (build_outputs fx p)"

lemma build_only_exact: "vr_valid (validateBuildOnly fx p) \<longleftrightarrow> build_only_valid fx p"
proof -
  let ?baseline = "validate_installed_state (build_baseline fx) (schema_plan (pl_schema p))"
  have "vr_violations ?baseline = [] \<and> vr_omitted ?baseline = 0 \<longleftrightarrow> plan_valid (build_baseline fx) (schema_plan (pl_schema p))"
    unfolding validate_installed_exact [symmetric] validate_installed_state_def bounded_result_parts(3) ..
  then show ?thesis
    unfolding validateBuildOnly_def Let_def bounded_result_valid append_is_Nil_conv map_is_Nil_conv build_action_violations_def
      build_only_valid_def actions_clean request_clean build_check.clean_list by blast
qed

text \<open>
  Claim C6: \<^verbatim>\<open>ValidateFinalState\<close> accepts a plan exactly when it meets its specification: the plan applies without a
  violation, its actions install authoritative packages the policy allows in an order that respects their
  prerequisites, the ledger is sound, every package of the resulting state has its due dependencies met and its
  REQUIRED USE satisfied, and the requested targets are met by justified actions. A plan that only builds is
  accepted when the installed state is valid and every build has its tools among the installed packages.
\<close>

theorem plan_validation_exact:
  "vr_valid (ValidateFinalState fx p) \<longleftrightarrow>
   (if rq_build_only (fx_request fx) then build_only_valid fx p else plan_valid fx p)"
  by (simp add: ValidateFinalState_def build_only_exact validate_installed_exact)

text \<open>
  A validation report is bounded and consistent: at most 256 distinct violations, the truncation flag set exactly
  when some were omitted, and the plan valid exactly when there is nothing to report.
\<close>

theorem validation_report_bounded:
  "length (vr_violations (ValidateFinalState fx p)) \<le> 256 \<and> distinct (vr_violations (ValidateFinalState fx p)) \<and>
   (vr_truncated (ValidateFinalState fx p) \<longleftrightarrow> vr_omitted (ValidateFinalState fx p) \<noteq> 0) \<and>
   (vr_valid (ValidateFinalState fx p) \<longleftrightarrow>
     vr_violations (ValidateFinalState fx p) = [] \<and> vr_omitted (ValidateFinalState fx p) = 0)"
proof -
  have "\<exists>vs n. ValidateFinalState fx p = bounded_result vs n"
    unfolding ValidateFinalState_def validateBuildOnly_def validate_installed_state_def Let_def
    by (cases "rq_build_only (fx_request fx)") (simp_all only: if_True if_False, blast+)
  then obtain vs n where r: "ValidateFinalState fx p = bounded_result vs n" by blast
  have "vr_truncated (bounded_result vs n) \<longleftrightarrow> vr_omitted (bounded_result vs n) \<noteq> 0"
    unfolding bounded_result_def boundViolations_def Let_def prod.case validation_result.simps ..
  then show ?thesis unfolding r using bounded_result_set(3,4) bounded_result_parts(3) by (simp add: MaxViolationRecords_def)
qed

end
