(* ===== verification/Plan_Impact.thy ===== *)
theory Plan_Impact
  imports Plan_Validate
begin

text \<open>
  What \<^verbatim>\<open>ValidatePlanImpact\<close> guarantees. A plan is compared with the state it starts from; violations already there are
  waived. The kinds of violation a state without a plan can show are disjoint from those of the actions, the ledger
  and the request, so that nothing a plan introduces there can be waived.
\<close>

subsection \<open>Kinds of violations\<close>

lemma violation_of_fields [simp]:
  "vi_kind (violation_of k pkg r b m) = k" "vi_package (violation_of k pkg r b m) = pkg"
  by (simp_all add: violation_of_def)

definition state_kinds :: "string list" where
  \<comment> \<open>the kinds of violation of an installed state\<close>
  "state_kinds =
     [''duplicate-installed-package'', ''unsupported-fixture-schema'', ''unsupported-plan-schema'', ''unsupported-partial-mode'',
      ''invalid-package-identity'', ''unsupported-dependency-class'', ''missing-dependency-domain'', ''invalid-dependency-expression'',
      ''invalid-dependency-atom'', ''unsupported-atom-semantics'', ''unsatisfied-dependency'', ''invalid-blocker-atom'',
      ''blocker-violation'', ''unsatisfied-any-of'', ''unsupported-dependency-expression'', ''invalid-required-use'',
      ''required-use-violation'']"

definition waivable_kind :: "string \<Rightarrow> bool" where
  "waivable_kind k \<longleftrightarrow> k \<in> set state_kinds \<and> \<not> nonWaivableViolation k"

lemma node_kinds: "v \<in> set (snd (validateNode n owner st)) \<Longrightarrow> vi_kind v \<in> set state_kinds \<and> vi_package v = pk_cpv owner"
proof (induction n)
  case (AllOfGroup ns implicit)
  then show ?case by (auto simp: all_children_def)
next
  case (UseConditional flag ns)
  then show ?case by (auto simp: all_children_def Let_def split: if_splits)
qed (auto simp: validateAtomNode_def validateBlock_def unsupported_node_def state_kinds_def split: sum.splits if_splits)

lemma class_kinds:
  "v \<in> set (class_violations fx pkg installing st cls) \<Longrightarrow> vi_kind v \<in> set state_kinds \<and> vi_package v = pk_cpv pkg"
proof -
  assume v: "v \<in> set (class_violations fx pkg installing st cls)"
  have "vi_kind v \<in> {''unsupported-dependency-class'', ''missing-dependency-domain'', ''invalid-dependency-expression''} \<and>
      vi_package v = pk_cpv pkg \<or>
      (\<exists>n domain w. w \<in> set (snd (validateNode n pkg domain)) \<and> v = w\<lparr>vi_class := cls\<rparr>)"
    using v unfolding class_violations_def Let_def
    by (auto split: if_splits option.splits sum.splits)
  then show ?thesis
  proof
    assume "\<exists>n domain w. w \<in> set (snd (validateNode n pkg domain)) \<and> v = w\<lparr>vi_class := cls\<rparr>"
    then show ?thesis using node_kinds by force
  qed (auto simp: state_kinds_def)
qed

lemma package_kinds:
  assumes "v \<in> set (package_violations fx pkg installing st)"
  shows "vi_kind v \<in> set state_kinds \<and> vi_package v = pk_cpv pkg"
proof -
  have "vi_kind v \<in> set state_kinds \<and> vi_package v = pk_cpv pkg" if "v \<in> set (validatePackageRequiredUse pkg)"
    using that by (auto simp: validatePackageRequiredUse_def state_kinds_def split: if_splits sum.splits option.splits)
  moreover have "vi_kind v \<in> set state_kinds \<and> vi_package v = pk_cpv pkg" if "v \<in> set (validatePackageDependencies fx pkg installing st)"
    using that class_kinds [of v] by (auto simp: validatePackageDependencies_def split: if_splits)
  ultimately show ?thesis using assms
    by (auto simp: package_violations_def state_kinds_def split: sum.splits)
qed

lemma load_kinds: "v \<in> set (snd (load_installed ps m)) \<Longrightarrow> vi_kind v = ''duplicate-installed-package''"
  by (induction ps arbitrary: m) (auto simp: load_installed.simps case_prod_beta split: if_splits)

lemma action_kinds:
  assumes "v \<in> set (snd (apply_action m a))"
  shows "nonWaivableViolation (vi_kind v)"
  using assms
  by (auto simp: apply_action_def applyInstallAction_def nonWaivableViolation_def Let_def split: if_splits prod.splits option.splits)

lemma actions_kinds: "v \<in> set (snd (apply_actions actions seen m)) \<Longrightarrow> nonWaivableViolation (vi_kind v)"
proof (induction actions arbitrary: seen m)
  case (Cons a actions)
  have dup: "nonWaivableViolation ''duplicate-action''" by (simp add: nonWaivableViolation_def)
  have "v \<in> set (snd (apply_action m a)) \<or> vi_kind v = ''duplicate-action'' \<or> (\<exists>seen m. v \<in> set (snd (apply_actions actions seen m)))"
    using Cons.prems unfolding apply_actions.simps case_prod_beta
    by (cases "action_key a \<in> set seen") (auto split: if_splits)
  then show ?case using action_kinds Cons.IH dup by (elim disjE exE) simp_all
qed (simp add: apply_actions.simps)

lemma apply_kinds: "v \<in> set (ar_violations (ApplyPlan installed p)) \<Longrightarrow> nonWaivableViolation (vi_kind v)"
proof -
  assume "v \<in> set (ar_violations (ApplyPlan installed p))"
  then have "v \<in> set (apply_violations installed p)" using bounded_set(1) unfolding ApplyPlan_parts by fastforce
  moreover have "nonWaivableViolation ''duplicate-installed-package''" by (simp add: nonWaivableViolation_def)
  ultimately show ?thesis unfolding apply_violations_def set_append Un_iff using load_kinds actions_kinds by fastforce
qed

text \<open>What a plan can be blamed for is never of a kind an installed state shows by itself and that is waivable.\<close>

lemma concat_members: "v \<in> set (concat (map f xs)) \<Longrightarrow> (\<And>x. v \<in> set (f x) \<Longrightarrow> P v) \<Longrightarrow> P v"
  by auto

lemma authority_kinds: "v \<in> set (validateActionAuthority available actions) \<Longrightarrow> vi_kind v \<notin> set state_kinds"
  unfolding validateActionAuthority_def
  by (erule concat_members) (auto simp: authority_violations_def state_kinds_def split: if_splits option.splits)

lemma policy_kinds: "v \<in> set (validateActionPolicy pol actions) \<Longrightarrow> vi_kind v \<notin> set state_kinds"
  unfolding validateActionPolicy_def
  by (erule concat_members)
    (auto simp: package_policy_violations_def license_violations_def state_kinds_def split: if_splits sum.splits)

lemma positions_kinds: "v \<in> set (snd (order_positions i m actions)) \<Longrightarrow> vi_kind v \<notin> set state_kinds"
proof (induction actions arbitrary: i m)
  case (Cons a actions)
  have "''missing-action-id'' \<notin> set state_kinds" "''duplicate-action-id'' \<notin> set state_kinds" by (simp_all add: state_kinds_def)
  then show ?case using Cons by (auto simp: case_prod_beta split: if_splits)
qed simp

lemma order_kinds: "v \<in> set (validateActionOrder actions) \<Longrightarrow> vi_kind v \<notin> set state_kinds"
proof -
  assume v: "v \<in> set (validateActionOrder actions)"
  have "vi_kind v \<notin> set state_kinds" if "v \<in> set (prerequisite_violations m i a)" for m i a
    using that by (auto simp: prerequisite_violations_def state_kinds_def split: if_splits option.splits)
  then show ?thesis using v positions_kinds [of v 0 "[]" actions] by (auto simp: validateActionOrder_def case_prod_beta)
qed

lemma record_kinds: "v \<in> set (record_violations ids st r) \<Longrightarrow> vi_kind v \<notin> set state_kinds"
  unfolding record_violations_def link_violations_def set_append Un_iff
  by (elim disjE) (auto simp: state_kinds_def split: if_splits option.splits)

lemma records_kinds: "v \<in> set (fst (validate_records ids st rs)) \<Longrightarrow> vi_kind v \<notin> set state_kinds"
proof (induction rs arbitrary: st)
  case (Cons r rs)
  then show ?case using record_kinds [of v ids st r] by (auto simp: case_prod_beta)
qed simp

lemma ledger_kinds: "v \<in> set (validateDecisionLedger p) \<Longrightarrow> vi_kind v \<notin> set state_kinds"
  unfolding validateDecisionLedger_def Let_def case_prod_beta [of _ "validate_records _ _ _"] set_append Un_iff
proof (elim disjE)
  assume "v \<in> set (fst (validate_records (actions_by_id (pl_actions p)) empty_ledger_state (dl_records (pl_decisions p))))"
  then show ?thesis by (rule records_kinds)
qed (auto simp: state_kinds_def split: if_splits)

lemma action_violations_kinds: "v \<in> set (action_violations fx p) \<Longrightarrow> vi_kind v \<notin> set state_kinds"
  unfolding action_violations_def set_append Un_iff
  using authority_kinds policy_kinds order_kinds ledger_kinds by blast

lemma request_kinds: "v \<in> set (request_violations fx p ps) \<Longrightarrow> vi_kind v \<notin> set state_kinds \<or> nonWaivableViolation (vi_kind v)"
proof -
  assume v: "v \<in> set (request_violations fx p ps)"
  have "nonWaivableViolation (vi_kind v)" if "v \<in> set (target_violations present st target)" for present st target
    using that by (auto simp: target_violations_def nonWaivableViolation_def split: if_splits sum.splits)
  then have "nonWaivableViolation (vi_kind v)" if "v \<in> set (validateTargets rq st)" for rq st
    using that by (auto simp: validateTargets_def nonWaivableViolation_def split: if_splits)
  moreover have "vi_kind v \<notin> set state_kinds" if "v \<in> set (validateActionJustification fx p ps)"
    using that by (auto simp: validateActionJustification_def state_kinds_def split: if_splits)
  ultimately show ?thesis using v by (auto simp: request_violations_def split: if_splits)
qed

subsection \<open>Impact\<close>

definition sample_fixture :: "request \<Rightarrow> package list \<Rightarrow> package list \<Rightarrow> fixture" where
  \<comment> \<open>a fixture without policy and with one root, for examples\<close>
  "sample_fixture rq installed available =
     \<lparr>fx_schema = 1, fx_request = rq, fx_installed = installed, fx_available = available, fx_domains = [],
      fx_domains_alias_to_root = True,
      fx_policy = \<lparr>po_accepted_keywords = [], po_accepted_licenses = [], po_supported_eapis = [], po_license_groups = []\<rparr>\<rparr>"

definition simple_request :: "string \<Rightarrow> string list \<Rightarrow> string \<Rightarrow> request" where
  "simple_request operation targets mode =
     \<lparr>rq_build_only = False, rq_operation = operation, rq_targets = targets, rq_original_targets = [], rq_partial_mode = mode\<rparr>"

lemma schema_plan_clean: "action_violations fx (schema_plan n) = []"
proof -
  have "order_ok []" by (simp add: order_ok_def action_ids_def)
  moreover have "ledger_ok (schema_plan n)"
    by (simp add: ledger_ok_def schema_plan_def zero_ledger_def actions_by_id_def ledger_bytes_def
        MaxDecisionRecords_def MaxDecisionBytes_def)
  ultimately show ?thesis unfolding actions_clean actions_valid_def by (simp add: schema_plan_def)
qed

lemma baseline_request_clean: "request_violations (impact_baseline fx) (schema_plan n) ps = []"
  by (simp add: request_violations_def validateTargets_def validateActionJustification_def impact_baseline_def schema_plan_def)

lemma baseline_kinds:
  assumes "v \<in> set (final_violations (impact_baseline fx) (schema_plan n))"
  shows "vi_kind v \<in> set state_kinds"
proof -
  have applied: "vi_kind v = ''duplicate-installed-package''" if "v \<in> set (ar_violations (ApplyPlan installed (schema_plan n)))" for installed
  proof -
    have "v \<in> set (apply_violations installed (schema_plan n))" using that bounded_set(1) unfolding ApplyPlan_parts by fastforce
    then show ?thesis using load_kinds by (simp add: apply_violations_def schema_plan_def apply_actions.simps)
  qed
  have schema: "vi_kind v \<in> set state_kinds" if "v \<in> set (schema_violations fx' p)" for fx' p
    using that unfolding schema_violations_def set_append Un_iff
    by (elim disjE) (auto simp: state_kinds_def split: if_splits)
  have "''duplicate-installed-package'' \<in> set state_kinds" by (simp add: state_kinds_def)
  then show ?thesis using assms applied schema package_kinds
    unfolding final_violations_def Let_def schema_plan_clean baseline_request_clean by fastforce
qed

lemma build_baseline_same: "build_baseline fx = impact_baseline fx"
  by (simp add: build_baseline_def impact_baseline_def)

lemma baseline_report:
  "ValidateFinalState (impact_baseline fx) (schema_plan n) = validate_installed_state (impact_baseline fx) (schema_plan n)"
  by (simp add: ValidateFinalState_def impact_baseline_def)

lemma impact_accepted:
  assumes "pl_actions p \<noteq> []" "vr_valid (ValidatePlanImpact fx p)"
  defines "b \<equiv> ValidateFinalState (impact_baseline fx) (schema_plan (pl_schema p))" and "r \<equiv> ValidateFinalState fx p"
  shows "length (vr_violations b) \<noteq> MaxViolationRecords" "length (vr_violations r) \<noteq> MaxViolationRecords"
    "\<forall>v \<in> set (vr_violations r). waived fx p (vr_violations b) v"
proof -
  have valid: "vr_valid (compare_impact fx p b r)" using assms(1,2) by (simp add: ValidatePlanImpact_def Let_def b_def r_def)
  then show "length (vr_violations b) \<noteq> MaxViolationRecords" "length (vr_violations r) \<noteq> MaxViolationRecords"
    "\<forall>v \<in> set (vr_violations r). waived fx p (vr_violations b) v"
    by (auto simp: compare_impact_def inconclusive_def impact_result_valid filter_empty_conv split: if_splits)
qed

lemma baseline_set:
  assumes "length (vr_violations (ValidateFinalState (impact_baseline fx) (schema_plan n))) \<noteq> MaxViolationRecords"
  shows "set (vr_violations (ValidateFinalState (impact_baseline fx) (schema_plan n))) = set (final_violations (impact_baseline fx) (schema_plan n))"
  using assms bounded_result_set(2) unfolding baseline_report by (simp add: validate_installed_state_def)

lemma impact_waives:
  assumes "pl_actions p \<noteq> []" "\<not> rq_build_only (fx_request fx)" "vr_valid (ValidatePlanImpact fx p)" "v \<in> set (final_violations fx p)"
  shows "waived fx p (final_violations (impact_baseline fx) (schema_plan (pl_schema p))) v"
proof -
  note all = impact_accepted [OF assms(1,3)]
  have "ValidateFinalState fx p = validate_installed_state fx p" using assms(2) by (simp add: ValidateFinalState_def)
  then have "set (vr_violations (ValidateFinalState fx p)) = set (final_violations fx p)"
    using all(2) bounded_result_set(2) by (simp add: validate_installed_state_def)
  then show ?thesis using all(3) baseline_set [OF all(1)] assms(4) by (simp add: waived_def)
qed

lemma no_members: "(\<And>v. v \<in> set vs \<Longrightarrow> False) \<Longrightarrow> vs = []"
  by (cases vs) auto

lemma impact_waivable:
  assumes "pl_actions p \<noteq> []" "\<not> rq_build_only (fx_request fx)" "vr_valid (ValidatePlanImpact fx p)" "v \<in> set (final_violations fx p)"
  shows "vi_kind v \<in> set state_kinds" "\<not> nonWaivableViolation (vi_kind v)"
  using impact_waives [OF assms] baseline_kinds unfolding waived_def by blast+

text \<open>
  The mark that \<^verbatim>\<open>validateBuildOnly\<close> puts before the messages of a build keeps them apart from those of the installed state.
\<close>

definition unmarked :: "string \<Rightarrow> bool" where
  "unmarked message \<longleftrightarrow> \<not> HasPrefix message ''build action: ''"

lemma violation_of_message [simp]: "vi_message (violation_of k pkg r b m) = m"
  by (simp add: violation_of_def)

lemma atom_messages: "ParsePackageAtom raw = Inl e \<Longrightarrow> unmarked (atom_error_text e)"
  by (auto simp: ParsePackageAtom_def Parse_def unmarked_def HasPrefix_def split: sum.splits option.splits if_splits)

lemma dep_messages: "unmarked (dep_error_text e)"
  by (cases e) (simp_all add: unmarked_def HasPrefix_def)

lemma dep_atom_messages: "validateDepAtom eapi raw = Some e \<Longrightarrow> unmarked (dep_valid_error_text e)"
  using atom_messages by (auto simp: validateDepAtom_def unmarked_def HasPrefix_def split: sum.splits option.splits if_splits)

lemma first_error_member: "first_error es = Some e \<Longrightarrow> Some e \<in> set es"
proof -
  assume "first_error es = Some e"
  then obtain xs where "filter (\<lambda>e. e \<noteq> None) es = Some e # xs" unfolding first_error_def by (auto split: list.splits)
  then have "Some e \<in> set (filter (\<lambda>e. e \<noteq> None) es)" by (simp only: list.set_intros(1))
  then show ?thesis by simp
qed

lemma group_error: "first_error (map f ns) = Some e \<Longrightarrow> \<exists>n \<in> set ns. f n = Some e"
  by (fastforce dest: first_error_member)

lemma group_messages [simp]:
  "unmarked (dep_valid_error_text EmptyGroup)" "unmarked (dep_valid_error_text EmptyAnyOf)" "unmarked (dep_valid_error_text EmptyConditional)"
  "unmarked (dep_valid_error_text XorInPackageDeps)" "unmarked (dep_valid_error_text AtMostOneInPackageDeps)"
  "unmarked (dep_valid_error_text StrongBlockNeedsEAPI2)"
  by (simp_all add: unmarked_def HasPrefix_def)

lemma dep_valid_messages: "validateDep eapi n = Some e \<Longrightarrow> unmarked (dep_valid_error_text e)"
proof (induction n)
  case (AllOfGroup ns implicit)
  then show ?case using group_error [of "validateDep eapi" ns e] by (auto split: if_splits simp del: dep_valid_error_text.simps)
next
  case (AnyOfGroup ns)
  then show ?case using group_error [of "validateDep eapi" ns e] by (auto split: if_splits simp del: dep_valid_error_text.simps)
next
  case (UseConditional flag ns)
  then show ?case using group_error [of "validateDep eapi" ns e] by (auto split: if_splits simp del: dep_valid_error_text.simps)
qed (auto split: if_splits option.splits dest: dep_atom_messages simp del: dep_valid_error_text.simps)

lemma node_messages: "v \<in> set (snd (validateNode n owner st)) \<Longrightarrow> unmarked (vi_message v)"
proof (induction n)
  case (AllOfGroup ns implicit)
  then show ?case by (auto simp: all_children_def)
next
  case (UseConditional flag ns)
  then show ?case by (auto simp: all_children_def Let_def split: if_splits)
qed (auto simp: validateAtomNode_def validateBlock_def unsupported_node_def unsupportedAtomSemantics_def unmarked_def HasPrefix_def
    dest!: atom_messages split: sum.splits if_splits)

lemma eapi_messages: "ValidatePackageDependenciesEAPI node raw = Some e \<Longrightarrow> unmarked (dep_valid_error_text e)"
  by (auto simp: ValidatePackageDependenciesEAPI_def dest: dep_valid_messages split: option.splits)

lemma class_messages: "v \<in> set (class_violations fx pkg installing st cls) \<Longrightarrow> unmarked (vi_message v)"
proof -
  have texts: "unmarked ''validator does not yet implement this dependency class''"
    "unmarked ''fixture does not provide the required independent dependency domain''" by (simp_all add: unmarked_def HasPrefix_def)
  assume "v \<in> set (class_violations fx pkg installing st cls)"
  then show ?thesis unfolding class_violations_def Let_def
    by (auto simp: texts dep_messages dest: node_messages eapi_messages split: if_splits option.splits sum.splits)
qed

lemma package_messages:
  assumes "v \<in> set (package_violations fx pkg installing st)"
  shows "unmarked (vi_message v)"
proof -
  have "unmarked (vi_message v)" if "v \<in> set (validatePackageRequiredUse pkg)"
    using that dep_messages by (auto simp: validatePackageRequiredUse_def unmarked_def HasPrefix_def split: if_splits sum.splits option.splits)
  moreover have "unmarked (vi_message v)" if "v \<in> set (validatePackageDependencies fx pkg installing st)"
    using that class_messages [of v] by (auto simp: validatePackageDependencies_def split: if_splits)
  moreover have "unmarked e" if "parseCPV (pk_cpv pkg) = Inl e" for e
    using that by (auto simp: parseCPV_def unmarked_def HasPrefix_def split: sum.splits if_splits)
  ultimately show ?thesis using assms by (auto simp: package_violations_def split: sum.splits)
qed

lemma load_messages: "v \<in> set (snd (load_installed ps m)) \<Longrightarrow> unmarked (vi_message v)"
  by (induction ps arbitrary: m) (auto simp: load_installed.simps case_prod_beta unmarked_def HasPrefix_def split: if_splits)

lemma baseline_messages:
  assumes "v \<in> set (final_violations (impact_baseline fx) (schema_plan n))"
  shows "unmarked (vi_message v)"
proof -
  have applied: "unmarked (vi_message v)" if "v \<in> set (ar_violations (ApplyPlan installed (schema_plan n)))" for installed
  proof -
    have "v \<in> set (apply_violations installed (schema_plan n))" using that bounded_set(1) unfolding ApplyPlan_parts by fastforce
    then show ?thesis using load_messages by (simp add: apply_violations_def schema_plan_def apply_actions.simps)
  qed
  have schema: "unmarked (vi_message v)" if "v \<in> set (schema_violations fx' p)" for fx' p
    using that unfolding schema_violations_def set_append Un_iff
    by (elim disjE) (auto simp: unmarked_def HasPrefix_def split: if_splits)
  show ?thesis using assms applied schema package_messages
    unfolding final_violations_def Let_def schema_plan_clean baseline_request_clean by fastforce
qed

lemma build_impact:
  assumes "pl_actions p \<noteq> []" "rq_build_only (fx_request fx)" "vr_valid (ValidatePlanImpact fx p)"
  shows "build_action_violations fx p = []"
proof (rule no_members)
  let ?b = "ValidateFinalState (impact_baseline fx) (schema_plan (pl_schema p))"
  fix v assume v: "v \<in> set (build_action_violations fx p)"
  let ?w = "v\<lparr>vi_message := ''build action: '' @ vi_message v\<rparr>"
  note all = impact_accepted [OF assms(1,3)]
  have "set (vr_violations (ValidateFinalState fx p)) =
      set (vr_violations ?b @ map (\<lambda>v. v\<lparr>vi_message := ''build action: '' @ vi_message v\<rparr>) (build_action_violations fx p))"
    using all(2) bounded_result_set(2) assms(2)
    unfolding ValidateFinalState_def validateBuildOnly_def Let_def build_baseline_same by (simp add: impact_baseline_def)
  then have "?w \<in> set (vr_violations (ValidateFinalState fx p))" using v by auto
  then have "?w \<in> set (vr_violations ?b)" using all(3) by (auto simp: waived_def)
  then have "unmarked (vi_message ?w)" using baseline_set [OF all(1)] baseline_messages by blast
  then show False by (simp add: unmarked_def HasPrefix_def)
qed

text \<open>
  Claim C12: A plan with actions that \<^verbatim>\<open>ValidatePlanImpact\<close> accepts installs only authoritative packages the policy allows in a sound order
  with a sound ledger. A plan that merges applies without a violation and meets the request; every package of the resulting state that
  shares its CPV with an installed one is valid, and whatever else is wrong was wrong before the plan, identically. Of a plan that only builds every
  build is valid against the installed packages, also where the same defect is installed already, and the request is met by the installed packages and the builds.
\<close>

theorem impact_accepts_only_old_defects:
  assumes "pl_actions p \<noteq> []" "vr_valid (ValidatePlanImpact fx p)"
  shows "actions_valid fx p \<and>
    (if rq_build_only (fx_request fx) then (\<forall>a \<in> set (pl_actions p). build_valid fx a) \<and> request_valid fx p (build_outputs fx p)
     else ar_violations (ApplyPlan (fx_installed fx) p) = [] \<and> request_valid fx p (planned_state fx p) \<and>
       (\<forall>pkg \<in> set (planned_state fx p). (\<exists>a \<in> set (pl_actions p). ac_kind a = ActionInstall \<and> pk_cpv (ac_package a) = pk_cpv pkg) \<longrightarrow>
          package_valid fx pkg (installs p pkg) (planned_state fx p)) \<and>
       set (final_violations fx p) \<subseteq> set (final_violations (impact_baseline fx) (schema_plan (pl_schema p))))"
proof (cases "rq_build_only (fx_request fx)")
  case True
  then show ?thesis using build_impact [OF assms(1) True assms(2)]
    unfolding build_action_violations_def append_is_Nil_conv actions_clean request_clean build_check.clean_list by simp
next
  case False
  note waivable = impact_waivable [OF assms(1) False assms(2)] and waives = impact_waives [OF assms(1) False assms(2)]
  let ?root = "planned_state fx p"
  have parts: "set (final_violations fx p) = set (ar_violations (ApplyPlan (fx_installed fx) p)) \<union> set (schema_violations fx p) \<union>
      set (action_violations fx p) \<union>
      (\<Union>pkg \<in> set ?root. set (package_violations fx pkg (installs p pkg) (newPackageState ?root))) \<union>
      set (request_violations fx p ?root)"
    unfolding final_violations_def Let_def by (simp only: set_append set_concat set_map image_image Un_assoc)
  have "ar_violations (ApplyPlan (fx_installed fx) p) = []"
    using waivable(2) apply_kinds unfolding parts by (intro no_members) blast
  moreover have "action_violations fx p = []"
    using waivable(1) action_violations_kinds unfolding parts by (intro no_members) blast
  moreover have "request_violations fx p ?root = []"
    using waivable request_kinds unfolding parts by (intro no_members) blast
  moreover have "package_valid fx pkg (installs p pkg) ?root"
    if pkg: "pkg \<in> set ?root" "\<exists>a \<in> set (pl_actions p). ac_kind a = ActionInstall \<and> pk_cpv (ac_package a) = pk_cpv pkg" for pkg
  proof -
    have False if v: "v \<in> set (package_violations fx pkg (installs p pkg) (newPackageState ?root))" for v
    proof -
      have "v \<in> set (final_violations fx p)" using v pkg(1) unfolding parts by blast
      moreover have "vi_package v = pk_cpv pkg" using package_kinds [OF v] by simp
      ultimately show False using waives [of v] pkg(2) False by (auto simp: waived_def list_ex_iff)
    qed
    then have "package_violations fx pkg (installs p pkg) (newPackageState ?root) = []" by (rule no_members)
    then show ?thesis unfolding package_clean .
  qed
  moreover have "set (final_violations fx p) \<subseteq> set (final_violations (impact_baseline fx) (schema_plan (pl_schema p)))"
    using waives by (auto simp: waived_def)
  ultimately show ?thesis unfolding actions_clean request_clean using False by simp
qed

definition broken_package :: package where
  \<comment> \<open>an installed package with a missing dependency\<close>
  "broken_package = zero_package\<lparr>pk_cpv := ''a/old-1'', pk_slot := ''0'', pk_eapi := ''8'', pk_dependencies := Some [(''RDEPEND'', ''a/gone'')]\<rparr>"

definition new_package :: package where
  "new_package = zero_package\<lparr>pk_cpv := ''a/new-1'', pk_slot := ''0'', pk_eapi := ''8'', pk_authority := AuthorityMD5Cache\<rparr>"

definition defect_fixture :: fixture where
  "defect_fixture = sample_fixture (simple_request ''install'' [''a/new''] []) [broken_package] [new_package]"

definition defect_plan :: plan where
  \<comment> \<open>installs the new package beside the broken one\<close>
  "defect_plan = (schema_plan 1)\<lparr>pl_actions := [zero_action\<lparr>ac_kind := ''install'', ac_package := new_package\<rparr>]\<rparr>"

theorem impact_accepts_only_old_defects_witness:
  "final_violations defect_fixture defect_plan \<noteq> [] \<and>
   set (final_violations defect_fixture defect_plan) \<subseteq> set (final_violations (impact_baseline defect_fixture) (schema_plan 1)) \<and>
   ar_violations (ApplyPlan (fx_installed defect_fixture) defect_plan) = []"
proof -
  have "vr_valid (ValidatePlanImpact defect_fixture defect_plan)" by code_simp
  moreover have "pl_actions defect_plan \<noteq> []" "\<not> rq_build_only (fx_request defect_fixture)" "pl_schema defect_plan = 1"
    by (simp_all add: defect_fixture_def defect_plan_def sample_fixture_def simple_request_def schema_plan_def)
  moreover have "final_violations defect_fixture defect_plan \<noteq> []" by code_simp
  ultimately show ?thesis using impact_accepts_only_old_defects [of defect_plan defect_fixture] by simp
qed

text \<open>
  \<^verbatim>\<open>ValidatePlanImpact\<close> waives an unsupported partial mode, which is a defect of the request: the comparison
  keeps the mode, so the installed state shows the same violation. \<^verbatim>\<open>ValidateFinalState\<close> rejects the same request.
\<close>

theorem unsupported_partial_mode_waived:
  "vr_valid (ValidatePlanImpact (sample_fixture (simple_request ''install'' [] ''bogus'') [] []) (schema_plan 1)) \<and>
   \<not> vr_valid (ValidateFinalState (sample_fixture (simple_request ''install'' [] ''bogus'') [] []) (schema_plan 1))"
  by code_simp

subsection \<open>The shortcut for plans without actions\<close>

lemma load_all:
  "snd (load_installed ps m) = [] \<Longrightarrow> map_ok m \<Longrightarrow>
   snd ` set (fst (load_installed ps m)) = snd ` set m \<union> clonePackage ` set ps"
proof (induction ps arbitrary: m)
  case (Cons p ps)
  show ?case
  proof (cases "map_of m (packageIdentity p)")
    case None
    then have "{e \<in> set m. fst e \<noteq> packageIdentity p} = set m" by (force simp: map_of_eq_None_iff)
    then have "snd ` set (map_put (packageIdentity p) (clonePackage p) m) = insert (clonePackage p) (snd ` set m)"
      using map_put_set [OF Cons.prems(2)] by simp
    then show ?thesis using Cons None by (simp add: load_installed.simps map_put_ok)
  qed (use Cons.prems in \<open>simp add: load_installed.simps case_prod_beta\<close>)
qed (simp add: load_installed.simps)

lemma no_action_state:
  assumes "pl_actions p = []" "\<forall>v \<in> set (ar_violations (ApplyPlan installed p)). \<not> nonWaivableViolation (vi_kind v)"
  shows "set (ar_packages (ApplyPlan installed p)) = set (canonicalState installed)"
proof -
  have "ar_violations (ApplyPlan installed p) = []" using assms(2) apply_kinds by (intro no_members) blast
  then have "apply_violations installed p = []" by (simp add: ApplyPlan_parts bounded_empty)
  then have clean: "snd (load_installed installed []) = []" by (simp add: apply_violations_def)
  have "map snd (final_map installed p) = map snd (fst (load_installed installed []))"
    using assms(1) by (simp add: final_map_def apply_actions.simps)
  then have "set (map snd (final_map installed p)) = clonePackage ` set installed"
    using load_all [OF clean] by (simp add: map_ok_def)
  then have "clonePackage ` set (map snd (final_map installed p)) = clonePackage ` set installed"
    by (simp only: image_image clone_idem)
  then show ?thesis unfolding ApplyPlan_parts canonicalState_def set_sort set_map .
qed

lemma same_targets: "set ps = set qs \<Longrightarrow> targets_met rq ps = targets_met rq qs"
  unfolding targets_met_def target_met_def by simp

lemma no_action_parts:
  assumes "pl_actions p = []"
  shows "set (final_violations fx p) =
    set (final_violations (impact_baseline fx) (schema_plan (pl_schema p))) \<union> set (validateDecisionLedger p) \<union>
    set (request_violations fx p (planned_state fx p))"
proof -
  let ?b = "impact_baseline fx" and ?q = "schema_plan (pl_schema p)"
  have applied: "ApplyPlan (fx_installed fx) p = ApplyPlan (fx_installed ?b) ?q"
    using assms by (simp add: ApplyPlan_def impact_baseline_def schema_plan_def)
  then have planned: "planned_state fx p = planned_state ?b ?q" by (simp add: planned_state_def)
  have schema: "schema_violations fx p = schema_violations ?b ?q"
    by (simp add: schema_violations_def impact_baseline_def schema_plan_def)
  have package: "package_violations fx pkg (installs p pkg) st = package_violations ?b pkg (installs ?q pkg) st" for pkg st
  proof -
    have "installs p pkg = installs ?q pkg" using assms by (simp add: installs_def schema_plan_def)
    moreover have "dependencyDomainState ?b = dependencyDomainState fx"
      by (intro ext) (simp add: dependencyDomainState_def impact_baseline_def)
    then have "class_violations fx pkg = class_violations ?b pkg" by (intro ext) (simp only: class_violations_def)
    moreover have "rq_partial_mode (fx_request ?b) = rq_partial_mode (fx_request fx)" by (simp add: impact_baseline_def)
    ultimately show ?thesis by (simp only: package_violations_def validatePackageDependencies_def)
  qed
  have actions: "action_violations fx p = validateDecisionLedger p"
    using assms by (simp add: action_violations_def validateActionAuthority_def validateActionPolicy_def validateActionOrder_def)
  show ?thesis
    unfolding final_violations_def Let_def schema_plan_clean baseline_request_clean applied planned schema package actions
    by (simp only: set_append list.set) blast
qed

lemma clone_matches: "package_matches (clonePackage p) c owner = package_matches p c owner"
  by (simp add: package_matches_def matches_def useDependenciesMatch_def useDependencyMatches_def target_flag_def clonePackage_def
      split: sum.split)

lemma canonical_targets: "targets_met rq (canonicalState ps) = targets_met rq ps"
  unfolding targets_met_def target_met_def canonicalState_def by (simp add: clone_matches)

lemma old_only:
  assumes "\<forall>v \<in> L. v \<notin> B" "\<forall>v \<in> R. v \<in> B \<longrightarrow> N v"
  shows "(\<forall>v \<in> B \<union> L \<union> R. \<not> N v \<and> v \<in> B) \<longleftrightarrow> (\<forall>v \<in> B. \<not> N v) \<and> L = {} \<and> R = {}"
  using assms by blast

text \<open>
  What the full comparison sees of a plan without actions: the violations of the installed state, and those of the ledger and of the
  request, which are marked when the plan only builds.
\<close>

definition no_action_state_of :: "fixture \<Rightarrow> plan \<Rightarrow> package list" where
  "no_action_state_of fx p = (if rq_build_only (fx_request fx) then fx_installed fx else planned_state fx p)"

definition marked :: "fixture \<Rightarrow> violation \<Rightarrow> violation" where
  "marked fx v = (if rq_build_only (fx_request fx) then v\<lparr>vi_message := ''build action: '' @ vi_message v\<rparr> else v)"

lemma marked_kind [simp]: "vi_kind (marked fx v) = vi_kind v"
  by (simp add: marked_def)

lemma no_action_report:
  assumes none: "pl_actions p = []"
    and b: "length (vr_violations (ValidateFinalState (impact_baseline fx) (schema_plan (pl_schema p)))) \<noteq> MaxViolationRecords"
  defines "B \<equiv> set (final_violations (impact_baseline fx) (schema_plan (pl_schema p)))"
  obtains vs n where "ValidateFinalState fx p = bounded_result vs n"
    "set vs = B \<union> marked fx ` set (validateDecisionLedger p) \<union> marked fx ` set (request_violations fx p (no_action_state_of fx p))"
proof (cases "rq_build_only (fx_request fx)")
  case True
  have outputs: "build_outputs fx p = fx_installed fx" "concat (map (build_violations fx) (pl_actions p)) = []" using none by (simp_all add: build_outputs_def)
  have actions: "action_violations fx p = validateDecisionLedger p"
    using none by (simp add: action_violations_def validateActionAuthority_def validateActionPolicy_def validateActionOrder_def)
  let ?b = "ValidateFinalState (impact_baseline fx) (schema_plan (pl_schema p))"
  have marks: "marked fx = (\<lambda>v. v\<lparr>vi_message := ''build action: '' @ vi_message v\<rparr>)" using True by (intro ext) (simp add: marked_def)
  have "ValidateFinalState fx p = bounded_result (vr_violations ?b @ map (marked fx) (validateDecisionLedger p @ request_violations fx p (fx_installed fx))) (vr_omitted ?b)"
    unfolding marks using True by (simp add: ValidateFinalState_def validateBuildOnly_def Let_def build_baseline_same build_action_violations_def actions outputs
        impact_baseline_def)
  then show thesis by (rule that) (use True baseline_set [OF b] in \<open>auto simp: B_def no_action_state_of_def\<close>)
next
  case False
  show thesis
    by (rule that [of "final_violations fx p"])
      (use False no_action_parts [OF none, of fx] in \<open>auto simp: ValidateFinalState_def validate_installed_state_def B_def no_action_state_of_def marked_def\<close>)
qed

lemma no_action_targets:
  assumes "pl_actions p = []" "\<forall>v \<in> set (final_violations (impact_baseline fx) (schema_plan (pl_schema p))). \<not> nonWaivableViolation (vi_kind v)"
  shows "request_violations fx p (no_action_state_of fx p) = [] \<longleftrightarrow>
    (rq_partial_mode (fx_request fx) \<noteq> ''onlydeps'' \<longrightarrow> validateTargets (fx_request fx) (newPackageState (baselineStatePackages fx)) = [])"
proof -
  have "set (planned_state fx p) = set (baselineStatePackages fx)"
  proof -
    have "ApplyPlan (fx_installed fx) p = ApplyPlan (fx_installed (impact_baseline fx)) (schema_plan (pl_schema p))"
      using assms(1) by (simp add: ApplyPlan_def impact_baseline_def schema_plan_def)
    then have "set (ar_violations (ApplyPlan (fx_installed fx) p)) \<subseteq> set (final_violations (impact_baseline fx) (schema_plan (pl_schema p)))"
      unfolding final_violations_def Let_def set_append by (simp only:) blast
    then show ?thesis
      using no_action_state [OF assms(1)] assms(2) unfolding planned_state_def baselineStatePackages_def by blast
  qed
  then have planned: "targets_met (fx_request fx) (planned_state fx p) = targets_met (fx_request fx) (baselineStatePackages fx)" by (rule same_targets)
  have "targets_met (fx_request fx) (no_action_state_of fx p) = targets_met (fx_request fx) (baselineStatePackages fx)"
  proof (cases "rq_build_only (fx_request fx)")
    case True
    then show ?thesis by (simp add: no_action_state_of_def baselineStatePackages_def canonical_targets)
  qed (simp add: no_action_state_of_def planned)
  then show ?thesis using assms(1) by (auto simp: request_violations_def validateActionJustification_def targets_clean)
qed

lemma shortcut_valid:
  assumes "pl_actions p = []"
    and "length (vr_violations (ValidateFinalState (impact_baseline fx) (schema_plan (pl_schema p)))) \<noteq> MaxViolationRecords"
  shows "vr_valid (ValidatePlanImpact fx p) \<longleftrightarrow>
    (\<forall>v \<in> set (final_violations (impact_baseline fx) (schema_plan (pl_schema p))). \<not> nonWaivableViolation (vi_kind v)) \<and>
    validateDecisionLedger p = [] \<and> request_violations fx p (no_action_state_of fx p) = []"
  using assms no_action_targets [OF assms(1), of fx] unfolding baseline_set [OF assms(2), symmetric]
  by (auto simp: ValidatePlanImpact_def Let_def validateNoActionImpact_def impact_result_valid filter_empty_conv)

lemma comparison_waives:
  fixes fx p
  defines "B \<equiv> set (final_violations (impact_baseline fx) (schema_plan (pl_schema p)))"
  assumes vs: "set vs = B \<union> marked fx ` set (validateDecisionLedger p) \<union> marked fx ` set (request_violations fx p (no_action_state_of fx p))"
  shows "(\<forall>v \<in> set vs. \<not> nonWaivableViolation (vi_kind v) \<and> v \<in> B) \<longleftrightarrow>
    (\<forall>v \<in> B. \<not> nonWaivableViolation (vi_kind v)) \<and> validateDecisionLedger p = [] \<and> request_violations fx p (no_action_state_of fx p) = []"
proof -
  have "\<forall>v \<in> marked fx ` set (validateDecisionLedger p). v \<notin> B"
    using ledger_kinds baseline_kinds marked_kind unfolding B_def by (metis imageE)
  moreover have "\<forall>v \<in> marked fx ` set (request_violations fx p (no_action_state_of fx p)). v \<in> B \<longrightarrow> nonWaivableViolation (vi_kind v)"
    using request_kinds baseline_kinds marked_kind unfolding B_def by (metis imageE)
  ultimately show ?thesis unfolding vs using old_only [of "marked fx ` set (validateDecisionLedger p)" B _ "\<lambda>v. nonWaivableViolation (vi_kind v)"] by simp
qed

text \<open>
  Claim C28: For a plan without actions \<^verbatim>\<open>ValidatePlanImpact\<close> does not validate the unchanged state a second time. The shortcut accepts exactly the
  plans the full comparison accepts, for requests that merge and for those that only build, and also where a report
  reaches the record limit.
\<close>

theorem no_action_shortcut_equivalent:
  assumes "pl_actions p = []"
  shows "vr_valid (ValidatePlanImpact fx p) \<longleftrightarrow>
    vr_valid (compare_impact fx p (ValidateFinalState (impact_baseline fx) (schema_plan (pl_schema p))) (ValidateFinalState fx p))"
proof (cases "length (vr_violations (ValidateFinalState (impact_baseline fx) (schema_plan (pl_schema p)))) = MaxViolationRecords")
  case True
  then show ?thesis using assms by (simp add: ValidatePlanImpact_def Let_def validateNoActionImpact_def compare_impact_def inconclusive_def)
next
  case False
  let ?b = "ValidateFinalState (impact_baseline fx) (schema_plan (pl_schema p))" and ?r = "ValidateFinalState fx p"
  let ?B = "set (final_violations (impact_baseline fx) (schema_plan (pl_schema p)))"
  obtain vs n where r: "?r = bounded_result vs n"
    and vs: "set vs = ?B \<union> marked fx ` set (validateDecisionLedger p) \<union> marked fx ` set (request_violations fx p (no_action_state_of fx p))"
    by (rule no_action_report [OF assms False])
  note b = baseline_set [OF False] and short = shortcut_valid [OF assms False] and waives = comparison_waives [OF vs]
  have full: "vr_valid (compare_impact fx p ?b ?r) \<longleftrightarrow> length (vr_violations ?r) \<noteq> MaxViolationRecords \<and>
      (\<forall>v \<in> set (vr_violations ?r). \<not> nonWaivableViolation (vi_kind v) \<and> v \<in> ?B)"
    using False b assms by (simp add: compare_impact_def inconclusive_def impact_result_valid filter_empty_conv waived_def)
  show ?thesis
  proof
    assume "vr_valid (ValidatePlanImpact fx p)"
    then have all: "\<forall>v \<in> set vs. \<not> nonWaivableViolation (vi_kind v) \<and> v \<in> ?B" using short waives by blast
    then have sub: "set (vr_violations ?r) \<subseteq> set (vr_violations ?b)" using bounded_result_set(1) [of vs n] b r by auto
    then have "length (vr_violations ?r) \<le> length (vr_violations ?b)"
      using card_mono [OF _ sub] bounded_result_set(4) unfolding r baseline_report validate_installed_state_def by (simp add: distinct_card)
    moreover have "length (vr_violations ?b) < MaxViolationRecords"
      using False bounded_result_set(3) unfolding baseline_report validate_installed_state_def by (simp add: le_neq_implies_less)
    ultimately show "vr_valid (compare_impact fx p ?b ?r)" using full all bounded_result_set(1) [of vs n] r by auto
  next
    assume valid: "vr_valid (compare_impact fx p ?b ?r)"
    then have "set (vr_violations ?r) = set vs" using full bounded_result_set(2) r by simp
    then show "vr_valid (ValidatePlanImpact fx p)" using valid full short waives by simp
  qed
qed

theorem no_action_shortcut_equivalent_witness:
  "vr_valid (ValidatePlanImpact (sample_fixture (simple_request ''install'' [''a/old''] []) [broken_package] []) (schema_plan 1)) \<longleftrightarrow>
   vr_valid (compare_impact (sample_fixture (simple_request ''install'' [''a/old''] []) [broken_package] []) (schema_plan 1)
     (ValidateFinalState (impact_baseline (sample_fixture (simple_request ''install'' [''a/old''] []) [broken_package] [])) (schema_plan 1))
     (ValidateFinalState (sample_fixture (simple_request ''install'' [''a/old''] []) [broken_package] []) (schema_plan 1)))"
  using no_action_shortcut_equivalent [of "schema_plan 1" "sample_fixture (simple_request ''install'' [''a/old''] []) [broken_package] []"]
  by (simp add: schema_plan_def)

end
