(* ===== verification/Plan_Committed.thy ===== *)
theory Plan_Committed
  imports Plan_Validate Atom_Roundtrip
begin

text \<open>
  The state a plan leaves on disk, \<^verbatim>\<open>src/internal/planvalidate/committed.go\<close>: \<^verbatim>\<open>PredictCommittedState\<close> binds the slot operators
  of built packages to the provider they were built against, and \<^verbatim>\<open>ValidateCommittedState\<close> compares the prediction with
  the state observed. The binding of a tree, which the source does in place, returns the new tree.
  \<^verbatim>\<open>sort.Slice\<close> is modelled by the insertion sort it uses for up to twelve elements; which of several equal best
  providers comes first never matters, since a tie is an error.
\<close>

subsection \<open>Binding slot operators\<close>

fun insert_before :: "('a \<Rightarrow> 'a \<Rightarrow> bool) \<Rightarrow> 'a \<Rightarrow> 'a list \<Rightarrow> 'a list" where
  \<comment> \<open>move an element from the end towards the front while it is less than its neighbour; the list is reversed\<close>
  "insert_before lt x [] = [x]"
| "insert_before lt x (y # ys) = (if lt x y then y # insert_before lt x ys else x # y # ys)"

definition sort_slice :: "('a \<Rightarrow> 'a \<Rightarrow> bool) \<Rightarrow> 'a list \<Rightarrow> 'a list" where
  "sort_slice lt xs = rev (foldl (\<lambda>sorted x. insert_before lt x sorted) [] xs)"

definition provider_versions :: "package \<Rightarrow> package \<Rightarrow> (version \<times> version) option" where
  \<comment> \<open>the versions of two providers, if both CPVs parse\<close>
  "provider_versions p q =
     (case parseCPV (pk_cpv p) of
        Inl e \<Rightarrow> None
      | Inr a \<Rightarrow>
          (case parseCPV (pk_cpv q) of
             Inl e \<Rightarrow> None
           | Inr b \<Rightarrow>
               (case a_version a of
                  None \<Rightarrow> None
                | Some v \<Rightarrow> (case a_version b of None \<Rightarrow> None | Some w \<Rightarrow> Some (v, w)))))"

definition better_provider :: "package \<Rightarrow> package \<Rightarrow> bool" where
  "better_provider p q =
     (case provider_versions p q of
        None \<Rightarrow> pk_cpv p < pk_cpv q
      | Some (v, w) \<Rightarrow> Compare (Some v) (Some w) > 0)"

definition tied_providers :: "package \<Rightarrow> package \<Rightarrow> bool" where
  "tied_providers p q =
     (case provider_versions p q of None \<Rightarrow> True | Some (v, w) \<Rightarrow> Compare (Some v) (Some w) = 0)"

definition bind_constraint :: "atom \<Rightarrow> package \<Rightarrow> atom" where
  "bind_constraint constraint p =
     constraint\<lparr>a_slot := pk_slot p, a_subslot := (if pk_subslot p = [] then pk_slot p else pk_subslot p)\<rparr>"

definition bind_atom :: "string \<Rightarrow> package \<Rightarrow> package list \<Rightarrow> (string, string) result" where
  \<comment> \<open>the case of an \<^verbatim>\<open>AtomDep\<close>: the text of the bound atom\<close>
  "bind_atom raw owner packages =
     (case ParsePackageAtom raw of
        Inl e \<Rightarrow> if pk_authority owner = AuthorityVDB then Inr raw else Inl (atom_error_text e)
      | Inr constraint \<Rightarrow>
          if a_slot_op constraint \<noteq> SlotOpEq \<or> a_subslot constraint \<noteq> [] then Inr raw
          else (case sort_slice better_provider (filter (\<lambda>p. stateMatches [p] constraint (Some owner)) packages) of
              [] \<Rightarrow> Inr raw
            | [p] \<Rightarrow> Inr (atom_string (bind_constraint constraint p))
            | p # q # others \<Rightarrow>
                if tied_providers p q then
                  (if pk_authority owner = AuthorityVDB then Inr raw
                   else Inl (''built slot operator '' @ raw @ '' has no unique best final provider''))
                else Inr (atom_string (bind_constraint constraint p))))"

primrec collect :: "('e, 'a) result list \<Rightarrow> ('e, 'a list) result" where
  \<comment> \<open>a loop that returns at the first error\<close>
  "collect [] = Inr []"
| "collect (r # rs) =
     (case r of Inl e \<Rightarrow> Inl e | Inr x \<Rightarrow> (case collect rs of Inl e \<Rightarrow> Inl e | Inr xs \<Rightarrow> Inr (x # xs)))"

definition map_result :: "('a \<Rightarrow> 'b) \<Rightarrow> ('e, 'a) result \<Rightarrow> ('e, 'b) result" where
  "map_result f r = (case r of Inl e \<Rightarrow> Inl e | Inr x \<Rightarrow> Inr (f x))"

fun bindBuiltSlotOperators :: "dep_node \<Rightarrow> package \<Rightarrow> package list \<Rightarrow> (string, dep_node) result" where
  "bindBuiltSlotOperators (AtomDep a) owner packages = map_result AtomDep (bind_atom a owner packages)"
| "bindBuiltSlotOperators (AllOfGroup ns implicit) owner packages =
     map_result (\<lambda>ms. AllOfGroup ms implicit) (collect (map (\<lambda>n. bindBuiltSlotOperators n owner packages) ns))"
| "bindBuiltSlotOperators (AnyOfGroup ns) owner packages =
     map_result AnyOfGroup (collect (map (\<lambda>n. bindBuiltSlotOperators n owner packages) ns))"
| "bindBuiltSlotOperators (UseConditional flag ns) owner packages =
     map_result (UseConditional flag) (collect (map (\<lambda>n. bindBuiltSlotOperators n owner packages) ns))"
| "bindBuiltSlotOperators n owner packages = Inr n"

definition bind_expression :: "package \<Rightarrow> package list \<Rightarrow> string \<Rightarrow> (string, string) result" where
  \<comment> \<open>parse, bind and render a dependency expression that is not blank\<close>
  "bind_expression pkg packages raw =
     (case dep_Parse raw of
        Inl e \<Rightarrow> Inl (dep_error_text e)
      | Inr None \<Rightarrow> Inr raw \<comment> \<open>only for a blank expression\<close>
      | Inr (Some n) \<Rightarrow> map_result node_string (bindBuiltSlotOperators n pkg packages))"

primrec bind_classes :: "package \<Rightarrow> package list \<Rightarrow> string list \<Rightarrow> string gomap option \<Rightarrow> (string, string gomap option) result" where
  \<comment> \<open>the loop over the dependency classes\<close>
  "bind_classes pkg packages [] deps = Inr deps"
| "bind_classes pkg packages (cls # classes) deps =
     (if dependency_text (pkg\<lparr>pk_dependencies := deps\<rparr>) cls = [] then bind_classes pkg packages classes deps
      else case bind_expression pkg packages (dependency_text (pkg\<lparr>pk_dependencies := deps\<rparr>) cls) of
          Inl e \<Rightarrow> Inl (pk_cpv pkg @ '' '' @ cls @ '': '' @ e)
        | Inr bound \<Rightarrow> bind_classes pkg packages classes (Some (map_put cls bound (entries deps))))"

definition predict_package :: "package list \<Rightarrow> package \<Rightarrow> (string, package) result" where
  "predict_package packages pkg =
     (if pk_authority pkg = AuthorityVDB \<or> pk_merge_type pkg = ''binary'' then Inr pkg
      else map_result (\<lambda>deps. pkg\<lparr>pk_dependencies := deps\<rparr>)
        (bind_classes pkg packages [''DEPEND'', ''RDEPEND'', ''BDEPEND'', ''IDEPEND'', ''PDEPEND''] (pk_dependencies pkg)))"

definition PredictCommittedState :: "package list \<Rightarrow> (string, package list) result" where
  "PredictCommittedState planned =
     collect (map (predict_package (canonicalState planned)) (canonicalState planned))"

subsection \<open>Comparison with the observed state\<close>

definition state_key :: "package \<Rightarrow> string" where
  "state_key pkg = cpFromPackage (pk_cpv pkg) @ '':'' @ pk_slot pkg"

primrec index_loop :: "package list \<Rightarrow> package gomap \<Rightarrow> (string, package gomap) result" where
  "index_loop [] m = Inr m"
| "index_loop (pkg # pkgs) m =
     (if state_key pkg = '':'' @ pk_slot pkg then Inl (''invalid CPV '' @ go_quote (pk_cpv pkg))
      else if map_of m (state_key pkg) \<noteq> None then Inl (''duplicate package identity '' @ state_key pkg)
      else index_loop pkgs (map_put (state_key pkg) pkg m))"

definition committedStateIndex :: "package list \<Rightarrow> (string, package gomap) result" where
  "committedStateIndex pkgs = index_loop pkgs []"

definition normalizedDependencies :: "string gomap option \<Rightarrow> string gomap option" where
  "normalizedDependencies source =
     copied (Some (filter (\<lambda>(cls, e). e \<noteq> []) (map (\<lambda>(cls, e). (cls, TrimSpace e)) (entries source))))"

definition normalizedEffectiveUse :: "package \<Rightarrow> bool gomap option" where
  "normalizedEffectiveUse pkg = copied (Some (map (\<lambda>(flag, b). (flag, use_value (pk_use pkg) flag)) (entries (pk_iuse pkg))))"

definition compare_entry :: "string \<Rightarrow> package option \<Rightarrow> package option \<Rightarrow> violation list" where
  \<comment> \<open>the switch of the comparison loop\<close>
  "compare_entry key expected observed =
     (case expected of
        None \<Rightarrow> (case observed of None \<Rightarrow> [] \<comment> \<open>no such key\<close>
          | Some o' \<Rightarrow> [violation_of ''unexpected-actual-package'' (pk_cpv o') key [] ''package was not predicted''])
      | Some e \<Rightarrow>
          (case observed of
             None \<Rightarrow> [violation_of ''missing-actual-package'' (pk_cpv e) key [] ''predicted package was not committed'']
           | Some o' \<Rightarrow>
               if pk_cpv e \<noteq> pk_cpv o' \<or> pk_subslot e \<noteq> pk_subslot o' \<or> pk_repository e \<noteq> pk_repository o' then
                 [violation_of ''actual-package-identity-mismatch'' (pk_cpv o') key (pk_cpv e) ''committed identity differs from prediction'']
               else if normalizedEffectiveUse e \<noteq> normalizedEffectiveUse o' then
                 [violation_of ''actual-use-mismatch'' (pk_cpv o') key (pk_cpv e) ''committed USE differs from prediction'']
               else if normalizedDependencies (pk_dependencies e) \<noteq> normalizedDependencies (pk_dependencies o') then
                 [violation_of ''actual-dependency-mismatch'' (pk_cpv o') key (pk_cpv e) ''committed dependency bindings differ from prediction'']
               else []))"

definition index_entries :: "(string, package gomap) result \<Rightarrow> package gomap" where
  "index_entries r = (case r of Inl e \<Rightarrow> [] | Inr m \<Rightarrow> m)"

definition index_violations :: "string \<Rightarrow> (string, package gomap) result \<Rightarrow> violation list" where
  "index_violations kind r = (case r of Inl e \<Rightarrow> [violation_of kind [] [] [] e] | Inr m \<Rightarrow> [])"

definition committed_violations :: "package list \<Rightarrow> package list \<Rightarrow> violation list" where
  "committed_violations predicted actual =
     (let left = committedStateIndex predicted; right = committedStateIndex actual;
          l = index_entries left; r = index_entries right
      in index_violations ''invalid-predicted-state'' left @ index_violations ''invalid-actual-state'' right @
         concat (map (\<lambda>key. compare_entry key (map_of l key) (map_of r key)) (sort (remdups (map fst l @ map fst r)))))"

definition ValidateCommittedState :: "package list \<Rightarrow> package list \<Rightarrow> validation_result" where
  "ValidateCommittedState predicted actual = impact_result (committed_violations predicted actual) 0"

subsection \<open>The best provider\<close>

lemma insert_before_insort:
  "(\<And>y. y \<in> set ys \<Longrightarrow> lt x y \<longleftrightarrow> k y < k x) \<Longrightarrow> insert_before lt x ys = insort_key k x ys"
  for k :: "'a \<Rightarrow> 'k::linorder"
  by (induction lt x ys rule: insert_before.induct) (auto simp: not_less)

lemma sort_slice_keyed:
  fixes k :: "'a \<Rightarrow> 'k::linorder"
  assumes "\<And>x y. x \<in> set xs \<Longrightarrow> y \<in> set xs \<Longrightarrow> lt x y \<longleftrightarrow> k y < k x"
  shows "set (sort_slice lt xs) = set xs \<and> sorted (map k (rev (sort_slice lt xs)))"
proof -
  have "set (foldl (\<lambda>sorted x. insert_before lt x sorted) [] xs) = set xs \<and>
      sorted (map k (foldl (\<lambda>sorted x. insert_before lt x sorted) [] xs))"
    using assms
  proof (induction xs rule: rev_induct)
    case (snoc x xs)
    let ?f = "foldl (\<lambda>sorted x. insert_before lt x sorted) [] xs"
    have IH: "set ?f = set xs" "sorted (map k ?f)" using snoc by simp_all
    then have "insert_before lt x ?f = insort_key k x ?f" using snoc.prems by (intro insert_before_insort) simp
    then show ?case using IH by (simp add: set_insort_key sorted_insort_key)
  qed simp
  then show ?thesis by (simp add: sort_slice_def)
qed

definition package_version :: "package \<Rightarrow> version option" where
  "package_version p = (case parseCPV (pk_cpv p) of Inl e \<Rightarrow> None | Inr a \<Rightarrow> a_version a)"

definition newer :: "package \<Rightarrow> package \<Rightarrow> bool" where
  "newer p q \<longleftrightarrow> Compare (package_version p) (package_version q) > 0"

definition plain_version :: "package \<Rightarrow> bool" where
  \<comment> \<open>the version has at most one suffix, so that versions are totally ordered\<close>
  "plain_version p \<longleftrightarrow> (\<forall>v \<in> set_option (package_version p). at_most_one_suffix v)"

definition version_key where
  "version_key p = pms_key (the (package_version p))"

lemma matching_version:
  assumes "package_matches p c owner"
  obtains v where "package_version p = Some v" "version_ok v"
proof -
  obtain a where a: "parseCPV (pk_cpv p) = Inr a" using assms by (auto simp: package_matches_def split: sum.splits)
  then have "Parse (pk_cpv p) = Inr a" "a_version a \<noteq> None" by (auto simp: parseCPV_def split: sum.splits if_splits)
  then obtain v where v: "a_version a = Some v" "wf_atom a" using Parse_wf by auto
  then have "parseVersionString (v_raw v) = Inr v" by (simp add: wf_atom_def wf_version_part_def)
  then show thesis using that [of v] a v(1) parsed_version_ok by (simp add: package_version_def)
qed

lemma provider_order:
  assumes "package_matches p c owner" "package_matches q c owner" "plain_version p" "plain_version q"
  shows "better_provider p q \<longleftrightarrow> version_key q < version_key p"
    and "tied_providers p q \<longleftrightarrow> version_key q = version_key p"
    and "newer p q \<longleftrightarrow> version_key q < version_key p"
proof -
  obtain v where v: "package_version p = Some v" "version_ok v" using matching_version [OF assms(1)] .
  obtain w where w: "package_version q = Some w" "version_ok w" using matching_version [OF assms(2)] .
  have "at_most_one_suffix v" "at_most_one_suffix w" using assms(3,4) v(1) w(1) by (simp_all add: plain_version_def)
  then have cmp: "compare_version v w = cmp (pms_key v) (pms_key w)" using single_suffix_order.by_key v(2) w(2) by blast
  have "provider_versions p q = Some (v, w)"
    using v(1) w(1) by (auto simp: provider_versions_def package_version_def split: sum.splits)
  then show "better_provider p q \<longleftrightarrow> version_key q < version_key p" "tied_providers p q \<longleftrightarrow> version_key q = version_key p"
    "newer p q \<longleftrightarrow> version_key q < version_key p"
    using v(1) w(1) cmp by (auto simp: better_provider_def tied_providers_def newer_def version_key_def cmp_def)
qed

definition unbound :: "string \<Rightarrow> package \<Rightarrow> (string, string) result" where
  \<comment> \<open>the result without a unique newest match: an installed package keeps the text, any other is an error\<close>
  "unbound raw owner = (if pk_authority owner = AuthorityVDB then Inr raw
     else Inl (''built slot operator '' @ raw @ '' has no unique best final provider''))"

lemma sort_slice_distinct: "distinct xs \<Longrightarrow> distinct (sort_slice lt xs)"
proof -
  have set: "set (insert_before lt x ys) = insert x (set ys)" for x ys by (induction ys) auto
  have insert: "distinct (insert_before lt x ys) \<longleftrightarrow> distinct (x # ys)" for x ys by (induction ys) (auto simp: set)
  have "distinct (foldl (\<lambda>sorted x. insert_before lt x sorted) ys xs) \<longleftrightarrow> distinct (ys @ xs)" for ys
    by (induction xs arbitrary: ys) (auto simp: insert set)
  then show "distinct xs \<Longrightarrow> distinct (sort_slice lt xs)" by (simp add: sort_slice_def)
qed

lemma bind_atom_cases:
  assumes "ParsePackageAtom raw = Inr c" "a_slot_op c = SlotOpEq" "a_subslot c = []" "distinct packages"
    "\<exists>p \<in> set packages. package_matches p c (Some owner)" "\<forall>p \<in> set packages. package_matches p c (Some owner) \<longrightarrow> plain_version p"
  shows "(\<exists>p \<in> set packages. package_matches p c (Some owner) \<and> bind_atom raw owner packages = Inr (atom_string (bind_constraint c p)) \<and>
      (\<forall>q \<in> set packages. package_matches q c (Some owner) \<longrightarrow> q \<noteq> p \<longrightarrow> newer p q)) \<or>
    bind_atom raw owner packages = unbound raw owner \<and>
      (\<forall>p \<in> set packages. package_matches p c (Some owner) \<longrightarrow> (\<exists>q \<in> set packages. package_matches q c (Some owner) \<and> q \<noteq> p \<and> \<not> newer p q))"
proof -
  let ?ms = "filter (\<lambda>p. stateMatches [p] c (Some owner)) packages"
  let ?sorted = "sort_slice better_provider ?ms"
  have ms: "q \<in> set ?ms \<longleftrightarrow> q \<in> set packages \<and> package_matches q c (Some owner)" for q
    by (simp add: stateMatches_def state_matches_new)
  have order: "better_provider p q \<longleftrightarrow> version_key q < version_key p" "tied_providers p q \<longleftrightarrow> version_key q = version_key p"
      "newer p q \<longleftrightarrow> version_key q < version_key p" if "p \<in> set ?ms" "q \<in> set ?ms" for p q
    using provider_order [of p c "Some owner" q] that ms assms(6) by blast+
  have "distinct ?ms" using assms(4) by simp
  then have sorted: "set ?sorted = set ?ms" "sorted (map version_key (rev ?sorted))" "distinct ?sorted"
    using sort_slice_keyed [of ?ms better_provider version_key] order(1) sort_slice_distinct by blast+
  have "?sorted \<noteq> []" using sorted(1) ms assms(5) by (metis empty_iff empty_set)
  then obtain p ps where p: "?sorted = p # ps" by (cases ?sorted) auto
  have bound: "bind_atom raw owner packages = (case ps of [] \<Rightarrow> Inr (atom_string (bind_constraint c p))
      | q # others \<Rightarrow> if tied_providers p q then unbound raw owner else Inr (atom_string (bind_constraint c p)))"
    using assms(1-3) by (simp add: bind_atom_def p unbound_def split: list.split)
  have in_ms: "p \<in> set ?ms" "set ps \<subseteq> set ?ms" "\<And>q. q \<in> set ?ms \<Longrightarrow> q = p \<or> q \<in> set ps" "p \<notin> set ps" using sorted(1,3) p by auto
  have top: "version_key q \<le> version_key p" if "q \<in> set ?ms" for q
    using in_ms(3) [OF that] sorted(2) p by (auto simp: sorted_append)
  show ?thesis
  proof (cases "\<exists>r others. ps = r # others \<and> tied_providers p r")
    case True
    then obtain r others where r: "ps = r # others" "tied_providers p r" by blast
    then have "r \<in> set ?ms" "r \<noteq> p" "version_key r = version_key p" using in_ms order(2) [of p r] by auto
    then have tie: "\<exists>q. q \<in> set ?ms \<and> q \<noteq> x \<and> \<not> newer x q" if x: "x \<in> set ?ms" for x
      using order(3) [OF x] top [OF x] in_ms(1) by (cases "x = p") (auto simp: not_less)
    have "bind_atom raw owner packages = unbound raw owner" using bound r by simp
    then show ?thesis using tie unfolding ms by (intro disjI2) blast
  next
    case False
    have "newer p q" if q: "q \<in> set ?ms" "q \<noteq> p" for q
    proof -
      obtain r others where r: "ps = r # others" "q \<in> set (r # others)" using in_ms(3) [OF q(1)] q(2) by (cases ps) auto
      then have "version_key r \<noteq> version_key p" using False order(2) [of p r] in_ms by auto
      moreover have "version_key q \<le> version_key r \<and> version_key r \<le> version_key p" using sorted(2) p r by (auto simp: sorted_append)
      ultimately show ?thesis using order(3) [OF in_ms(1) q(1)] by (meson le_less_trans le_neq_trans)
    qed
    then show ?thesis using bound False in_ms(1) ms by (intro disjI1 bexI [of _ p]) (auto split: list.split)
  qed
qed

lemma bound_reads_back:
  assumes "ParsePackageAtom raw = Inr c" "a_slot_op c = SlotOpEq" "wf_slot_text (pk_slot p)"
    "pk_subslot p = [] \<or> wf_slot_text (pk_subslot p)"
  shows "ParsePackageAtom (atom_string (bind_constraint c p)) = Inr (bind_constraint c p)"
proof (rule package_atom_text.of_to_text)
  have "wf_package_atom c" using assms(1) by (rule package_atom_text.of_text_wf)
  then show "wf_package_atom (bind_constraint c p)"
    using assms(2-4) by (auto simp: wf_package_atom_def wf_atom_def wf_version_part_def wf_slot_part_def has_suffix_part_def
        bind_constraint_def wf_slot_text_def split: option.splits)
qed

lemma bound_matches:
  assumes "package_matches p c owner" "pk_subslot p \<noteq> []"
  shows "package_matches p (bind_constraint c p) owner"
  using assms by (auto simp: package_matches_def matches_def bind_constraint_def CP_def split: sum.splits option.splits)

text \<open>
  Claim C23: An atom with the slot operator \<^verbatim>\<open>:=\<close> and no subslot, which some of the distinct packages of the state match, all with well formed
  slots and versions of at most one suffix (for which versions are totally ordered). If one match is newer than all others, the atom is bound to it: the new text
  parses to the same constraint with the slot and subslot of that package, which still matches it if it has a subslot. Otherwise no match is
  newer than all others, and binding fails, or leaves the text of an installed package as it is.
\<close>

theorem slot_operator_binds_newest:
  assumes "ParsePackageAtom raw = Inr c" "a_slot_op c = SlotOpEq" "a_subslot c = []" "distinct packages"
    "\<exists>p \<in> set packages. package_matches p c (Some owner)"
    "\<forall>p \<in> set packages. package_matches p c (Some owner) \<longrightarrow>
       plain_version p \<and> wf_slot_text (pk_slot p) \<and> (pk_subslot p = [] \<or> wf_slot_text (pk_subslot p))"
  shows "(\<exists>p t. p \<in> set packages \<and> package_matches p c (Some owner) \<and>
      (\<forall>q \<in> set packages. package_matches q c (Some owner) \<longrightarrow> q \<noteq> p \<longrightarrow> newer p q) \<and>
      bind_atom raw owner packages = Inr t \<and> ParsePackageAtom t = Inr (bind_constraint c p) \<and>
      (pk_subslot p \<noteq> [] \<longrightarrow> package_matches p (bind_constraint c p) (Some owner))) \<or>
    bind_atom raw owner packages = unbound raw owner \<and>
      (\<forall>p \<in> set packages. package_matches p c (Some owner) \<longrightarrow> (\<exists>q \<in> set packages. package_matches q c (Some owner) \<and> q \<noteq> p \<and> \<not> newer p q))"
proof -
  have bound: "ParsePackageAtom (atom_string (bind_constraint c p)) = Inr (bind_constraint c p) \<and>
      (pk_subslot p \<noteq> [] \<longrightarrow> package_matches p (bind_constraint c p) (Some owner))"
    if "p \<in> set packages" "package_matches p c (Some owner)" for p
    using that bound_reads_back [OF assms(1,2), of p] bound_matches [OF that(2)] assms(6) by blast
  have "\<forall>p \<in> set packages. package_matches p c (Some owner) \<longrightarrow> plain_version p" using assms(6) by blast
  from bind_atom_cases [OF assms(1-5) this] show ?thesis
  proof
    assume "\<exists>p \<in> set packages. package_matches p c (Some owner) \<and> bind_atom raw owner packages = Inr (atom_string (bind_constraint c p)) \<and>
      (\<forall>q \<in> set packages. package_matches q c (Some owner) \<longrightarrow> q \<noteq> p \<longrightarrow> newer p q)"
    then obtain p where p: "p \<in> set packages" "package_matches p c (Some owner)" "bind_atom raw owner packages = Inr (atom_string (bind_constraint c p))"
      "\<forall>q \<in> set packages. package_matches q c (Some owner) \<longrightarrow> q \<noteq> p \<longrightarrow> newer p q" by blast
    then show ?thesis using bound [OF p(1,2)] by (intro disjI1 exI [of _ p] exI [of _ "atom_string (bind_constraint c p)"]) simp
  qed blast
qed

theorem slot_operator_binds_newest_witness:
  "let old = zero_package\<lparr>pk_cpv := ''a/b-1'', pk_slot := ''0''\<rparr>; new = zero_package\<lparr>pk_cpv := ''a/b-2'', pk_slot := ''1'', pk_subslot := ''3''\<rparr>;
       c = projr (ParsePackageAtom ''a/b:='')
   in bind_atom ''a/b:='' zero_package [old, new] = Inr ''a/b:1/3='' \<and> newer new old \<and>
      ParsePackageAtom ''a/b:1/3='' = Inr (bind_constraint c new) \<and> package_matches new (bind_constraint c new) (Some zero_package)"
proof -
  let ?old = "zero_package\<lparr>pk_cpv := ''a/b-1'', pk_slot := ''0''\<rparr>" and ?new = "zero_package\<lparr>pk_cpv := ''a/b-2'', pk_slot := ''1'', pk_subslot := ''3''\<rparr>"
  let ?c = "projr (ParsePackageAtom ''a/b:='')"
  have atom: "ParsePackageAtom ''a/b:='' = Inr ?c" "a_slot_op ?c = SlotOpEq" "a_subslot ?c = []" by code_simp+
  have bound: "bind_atom ''a/b:='' zero_package [?old, ?new] = Inr ''a/b:1/3=''" by code_simp
  have m: "package_matches ?old ?c (Some zero_package)" "package_matches ?new ?c (Some zero_package)" by code_simp+
  have ok: "plain_version ?old" "plain_version ?new" "wf_slot_text (pk_slot ?old)" "wf_slot_text (pk_slot ?new)" "pk_subslot ?old = []" "wf_slot_text (pk_subslot ?new)"
    by code_simp+
  have order: "newer ?new ?old" "\<not> newer ?old ?new" by code_simp+
  have diff: "?old \<noteq> ?new" "pk_subslot ?new \<noteq> []" by (simp_all add: zero_package_def)
  have fails: "unbound ''a/b:='' zero_package \<noteq> Inr ''a/b:1/3=''" by code_simp
  show ?thesis
    using slot_operator_binds_newest [OF atom, of "[?old, ?new]" zero_package] bound m ok order diff fails unfolding Let_def by auto
qed

text \<open>
  A provider without a subslot is bound as if its subslot were its slot, but matching
  compares the recorded subslot: a state whose dependencies hold is predicted to become one in which the same dependency
  fails.
\<close>

theorem empty_subslot_binding_breaks_dependency:
  "let provider = zero_package\<lparr>pk_cpv := ''a/b-1'', pk_slot := ''0''\<rparr>;
       consumer = zero_package\<lparr>pk_cpv := ''a/c-1'', pk_slot := ''0'', pk_eapi := ''8'', pk_dependencies := Some [(''RDEPEND'', ''a/b:='')]\<rparr>;
       consumer' = consumer\<lparr>pk_dependencies := Some [(''RDEPEND'', ''a/b:0/0='')]\<rparr>
   in runtimeDependenciesSatisfied consumer [provider, consumer] \<and>
      PredictCommittedState [provider, consumer] = Inr [provider, consumer'] \<and>
      \<not> runtimeDependenciesSatisfied consumer' [provider, consumer']"
  unfolding Let_def by (intro conjI; code_simp)

subsection \<open>Agreement of states\<close>

definition indexable :: "package list \<Rightarrow> bool" where
  \<comment> \<open>every CPV parses, and no two packages share package and slot\<close>
  "indexable ps \<longleftrightarrow> (\<forall>p \<in> set ps. package_key p \<noteq> None) \<and> distinct (map state_key ps)"

definition same_commit :: "package \<Rightarrow> package \<Rightarrow> bool" where
  "same_commit p q \<longleftrightarrow>
     pk_cpv p = pk_cpv q \<and> pk_subslot p = pk_subslot q \<and> pk_repository p = pk_repository q \<and>
     normalizedEffectiveUse p = normalizedEffectiveUse q \<and>
     normalizedDependencies (pk_dependencies p) = normalizedDependencies (pk_dependencies q)"

lemma index_loop_ok:
  "(\<exists>r. index_loop ps m = Inr r) \<longleftrightarrow> indexable ps \<and> (\<forall>p \<in> set ps. map_of m (state_key p) = None)"
proof (induction ps arbitrary: m)
  case (Cons p ps)
  have key: "state_key p = '':'' @ pk_slot p \<longleftrightarrow> package_key p = None"
    using package_key_nonempty [of p] by (auto simp: state_key_def cpFromPackage_key split: option.splits)
  show ?case
  proof (cases "package_key p = None \<or> map_of m (state_key p) \<noteq> None")
    case True
    then show ?thesis using key by (auto simp: indexable_def)
  next
    case False
    then have "(\<exists>r. index_loop (p # ps) m = Inr r) \<longleftrightarrow>
        indexable ps \<and> (\<forall>q \<in> set ps. map_of (map_put (state_key p) p m) (state_key q) = None)"
      using key Cons.IH [of "map_put (state_key p) p m"] by (auto simp del: map_of_put)
    also have "\<dots> \<longleftrightarrow> indexable (p # ps) \<and> (\<forall>q \<in> set (p # ps). map_of m (state_key q) = None)"
    proof -
      have "map_of (map_put (state_key p) p m) (state_key q) = None \<longleftrightarrow> map_of m (state_key q) = None \<and> state_key q \<noteq> state_key p" for q
        by auto
      moreover have "state_key p \<notin> set (map state_key ps) \<longleftrightarrow> (\<forall>q \<in> set ps. state_key q \<noteq> state_key p)"
        by (simp add: image_iff eq_commute Ball_def)
      moreover have "package_key p \<noteq> None" "map_of m (state_key p) = None" using False by simp_all
      ultimately show ?thesis
        by (simp only: indexable_def list.map distinct.simps list.set ball_simps ball_conj_distrib simp_thms conj_ac)
    qed
    finally show ?thesis .
  qed
qed (simp add: indexable_def)

lemma index_loop_entries:
  assumes "index_loop ps m = Inr r"
  shows "map_of r k = Some p \<longleftrightarrow> p \<in> set ps \<and> state_key p = k \<or> map_of m k = Some p"
  using assms
proof (induction ps arbitrary: m)
  case (Cons q ps)
  have rest: "map_of m (state_key q) = None" "index_loop ps (map_put (state_key q) q m) = Inr r"
    using Cons.prems by (auto split: if_splits)
  then have "state_key x \<noteq> state_key q" if "x \<in> set ps" for x
    using index_loop_ok [of ps "map_put (state_key q) q m"] that by auto
  then show ?case using Cons.IH [OF rest(2)] rest(1) by auto
qed simp

lemma compare_entry_clean:
  "compare_entry k e q = [] \<longleftrightarrow> rel_option same_commit e q"
  by (cases e; cases q) (auto simp: compare_entry_def same_commit_def)

lemma committed_pointwise:
  assumes "\<And>k p. map_of l k = Some p \<longleftrightarrow> p \<in> P \<and> state_key p = k" "\<And>k p. map_of r k = Some p \<longleftrightarrow> p \<in> A \<and> state_key p = k"
  shows "(\<forall>k. rel_option same_commit (map_of l k) (map_of r k)) \<longleftrightarrow>
     (\<forall>p \<in> P. \<exists>q \<in> A. state_key q = state_key p \<and> same_commit p q) \<and>
     (\<forall>q \<in> A. \<exists>p \<in> P. state_key q = state_key p \<and> same_commit p q)"
proof (intro iffI conjI ballI allI)
  fix p assume all: "\<forall>k. rel_option same_commit (map_of l k) (map_of r k)" and p: "p \<in> P"
  then have "map_of l (state_key p) = Some p" using assms(1) by simp
  then obtain q where "map_of r (state_key p) = Some q" "same_commit p q" using all by (metis option_rel_Some1)
  then show "\<exists>q \<in> A. state_key q = state_key p \<and> same_commit p q" using assms(2) by auto
next
  fix q assume all: "\<forall>k. rel_option same_commit (map_of l k) (map_of r k)" and q: "q \<in> A"
  then have "map_of r (state_key q) = Some q" using assms(2) by simp
  then obtain p where "map_of l (state_key q) = Some p" "same_commit p q" using all by (metis option_rel_Some2)
  then show "\<exists>p \<in> P. state_key q = state_key p \<and> same_commit p q" using assms(1) by metis
next
  fix k assume match: "(\<forall>p \<in> P. \<exists>q \<in> A. state_key q = state_key p \<and> same_commit p q) \<and>
     (\<forall>q \<in> A. \<exists>p \<in> P. state_key q = state_key p \<and> same_commit p q)"
  show "rel_option same_commit (map_of l k) (map_of r k)"
  proof (cases "map_of l k")
    case None
    have "map_of r k = None"
    proof (cases "map_of r k")
      case (Some q)
      then have q: "q \<in> A" "state_key q = k" using assms(2) by simp_all
      then obtain p where p: "p \<in> P" "state_key q = state_key p" using match by blast
      then have "map_of l k = Some p" using assms(1) q(2) by simp
      then show ?thesis using None by simp
    qed simp
    then show ?thesis using None by simp
  next
    case (Some p)
    then have "p \<in> P" "state_key p = k" using assms(1) by simp_all
    then obtain q where q: "q \<in> A" "state_key q = k" "same_commit p q" using match by blast
    then have "map_of r k = Some q" using assms(2) by simp
    then show ?thesis using Some q(3) by simp
  qed
qed

lemma committed_clean:
  "committed_violations predicted actual = [] \<longleftrightarrow>
   indexable predicted \<and> indexable actual \<and>
   (\<forall>p \<in> set predicted. \<exists>q \<in> set actual. state_key q = state_key p \<and> same_commit p q) \<and>
   (\<forall>q \<in> set actual. \<exists>p \<in> set predicted. state_key q = state_key p \<and> same_commit p q)"
proof (cases "indexable predicted \<and> indexable actual")
  case False
  then have "\<not> ((\<exists>l. committedStateIndex predicted = Inr l) \<and> (\<exists>r. committedStateIndex actual = Inr r))"
    unfolding committedStateIndex_def index_loop_ok by simp
  then have "committed_violations predicted actual \<noteq> []"
    by (auto simp: committed_violations_def Let_def index_violations_def split: sum.splits)
  then show ?thesis using False by blast
next
  case True
  then obtain l r where l: "index_loop predicted [] = Inr l" and r: "index_loop actual [] = Inr r"
    using index_loop_ok [of predicted "[]"] index_loop_ok [of actual "[]"] by auto
  have entries: "map_of l k = Some p \<longleftrightarrow> p \<in> set predicted \<and> state_key p = k" "map_of r k = Some p \<longleftrightarrow> p \<in> set actual \<and> state_key p = k"
    for k p using index_loop_entries [OF l] index_loop_entries [OF r] by simp_all
  have "committed_violations predicted actual = [] \<longleftrightarrow>
      (\<forall>k \<in> fst ` set l \<union> fst ` set r. rel_option same_commit (map_of l k) (map_of r k))"
    using l r by (simp add: committed_violations_def Let_def committedStateIndex_def index_entries_def index_violations_def
        compare_entry_clean)
  also have "\<dots> \<longleftrightarrow> (\<forall>k. rel_option same_commit (map_of l k) (map_of r k))"
    by (metis Un_iff dom_map_of_conv_image_fst domIff option.rel_intros(1))
  also have "\<dots> \<longleftrightarrow>
     (\<forall>p \<in> set predicted. \<exists>q \<in> set actual. state_key q = state_key p \<and> same_commit p q) \<and>
     (\<forall>q \<in> set actual. \<exists>p \<in> set predicted. state_key q = state_key p \<and> same_commit p q)"
    using committed_pointwise [OF entries] .
  finally show ?thesis using True by blast
qed

text \<open>
  Claim C29: \<^verbatim>\<open>ValidateCommittedState\<close> accepts exactly when both states can be indexed by package and slot and correspond one
  to one: same package and slot, with the same CPV, subslot, repository, effective USE and normalised dependencies. In
  particular a prediction that can be indexed agrees with itself.
\<close>

theorem committed_state_exact:
  "vr_valid (ValidateCommittedState predicted actual) \<longleftrightarrow>
   indexable predicted \<and> indexable actual \<and>
   (\<forall>p \<in> set predicted. \<exists>q \<in> set actual. state_key q = state_key p \<and> same_commit p q) \<and>
   (\<forall>q \<in> set actual. \<exists>p \<in> set predicted. state_key q = state_key p \<and> same_commit p q)"
  unfolding ValidateCommittedState_def impact_result_valid by (rule committed_clean)

theorem committed_state_exact_witness:
  "vr_valid (ValidateCommittedState [zero_package\<lparr>pk_cpv := ''a/b-1''\<rparr>] [zero_package\<lparr>pk_cpv := ''a/b-1'', pk_masked := True\<rparr>])"
proof -
  have "package_key (zero_package\<lparr>pk_cpv := ''a/b-1''\<rparr>) \<noteq> None"
    "package_key (zero_package\<lparr>pk_cpv := ''a/b-1'', pk_masked := True\<rparr>) \<noteq> None" by code_simp+
  moreover have "state_key (zero_package\<lparr>pk_cpv := ''a/b-1'', pk_masked := True\<rparr>) = state_key (zero_package\<lparr>pk_cpv := ''a/b-1''\<rparr>)"
    by (simp add: state_key_def)
  moreover have "same_commit (zero_package\<lparr>pk_cpv := ''a/b-1''\<rparr>) (zero_package\<lparr>pk_cpv := ''a/b-1'', pk_masked := True\<rparr>)"
    by (simp add: same_commit_def normalizedEffectiveUse_def)
  ultimately show ?thesis unfolding committed_state_exact by (simp add: indexable_def)
qed

end
