(* ===== verification/Resolve_Match.thy ===== *)
theory Resolve_Match
  imports Plan_Committed
begin

text \<open>
  The resolver's own matching and policy tests, \<^verbatim>\<open>src/internal/resolve/resolve.go\<close>: \<^verbatim>\<open>atomMatches\<close> with the operators \<^verbatim>\<open>~\<close> and \<^verbatim>\<open>=*\<close>, USE
  dependencies relative to the parent package, the choice among matching versions, REQUIRED USE and licenses. The validator
  was written independently of them; where the two agree is proved, and where they do not is shown on examples. A
  pointer that may be nil is an option; a version carries the fields these functions read.
\<close>

subsection \<open>Versions\<close>

record version_info =
  vi_version :: "version option"
  vi_slot :: string
  vi_subslot :: string
  vi_use_flags :: "bool gomap option"
  vi_iuse :: string
  vi_installed_use_flags :: "bool gomap option"
  vi_installed_iuse_flags :: "bool gomap option"
  vi_installed :: bool
  vi_available :: bool
  vi_depend :: string
  vi_rdepend :: string
  vi_bdepend :: string
  vi_idepend :: string
  vi_pdepend :: string
  vi_installed_depend :: string
  vi_installed_rdepend :: string
  vi_installed_bdepend :: string
  vi_installed_idepend :: string
  vi_installed_pdepend :: string
  vi_installed_required_use :: string
  vi_metadata_known :: bool
  vi_installed_eapi :: string
  vi_keywords :: string
  vi_required_use :: string
  vi_license :: string
  vi_repository :: string
  vi_repository_priority :: int
  vi_eapi :: string

definition zero_version_info :: version_info where
  \<comment> \<open>the zero value \<^verbatim>\<open>VersionInfo{}\<close>\<close>
  "zero_version_info =
     \<lparr>vi_version = None, vi_slot = [], vi_subslot = [], vi_use_flags = None, vi_iuse = [], vi_installed_use_flags = None,
      vi_installed_iuse_flags = None, vi_installed = False, vi_available = False, vi_depend = [], vi_rdepend = [], vi_bdepend = [],
      vi_idepend = [], vi_pdepend = [], vi_installed_depend = [], vi_installed_rdepend = [], vi_installed_bdepend = [],
      vi_installed_idepend = [], vi_installed_pdepend = [], vi_installed_required_use = [], vi_metadata_known = False,
      vi_installed_eapi = [], vi_keywords = [], vi_required_use = [], vi_license = [],
      vi_repository = [], vi_repository_priority = 0, vi_eapi = []\<rparr>"

definition isASCIIDigit :: "char \<Rightarrow> bool" where
  "isASCIIDigit c \<longleftrightarrow> 48 \<le> code c \<and> code c \<le> 57"

definition normalizeGlobVersion :: "string \<Rightarrow> string" where
  "normalizeGlobVersion raw =
     (let base = dropWhile (\<lambda>c. c = CHR ''0'') (TrimSuffix raw ''*'');
          base' = (if base = [] \<or> \<not> isASCIIDigit (hd base) then CHR ''0'' # base else base)
      in if HasSuffix raw ''*'' then base' @ ''*'' else base')"

definition globMatch :: "version option \<Rightarrow> version option \<Rightarrow> bool" where
  "globMatch v c =
     (case (v, c) of
        (Some v', Some c') \<Rightarrow>
          (let candidate = normalizeGlobVersion (v_raw v'); prefix = TrimSuffix (normalizeGlobVersion (v_raw c')) ''*'' in
           if prefix = [] \<or> \<not> HasPrefix candidate prefix then False
           else if length candidate = length prefix then True
           else (let next = candidate ! length prefix; last' = last prefix
                 in next \<in> {CHR ''.'', CHR ''_'', CHR ''-''} \<or> isASCIIDigit last' \<noteq> isASCIIDigit next))
      | _ \<Rightarrow> False)"

definition tildeMatch :: "version option \<Rightarrow> version option \<Rightarrow> bool" where
  "tildeMatch v c =
     (case (v, c) of
        (Some v', Some c') \<Rightarrow> Compare (Some (v'\<lparr>v_revision := -1\<rparr>)) (Some (c'\<lparr>v_revision := -1\<rparr>)) = 0
      | _ \<Rightarrow> False)"

definition operator_matches :: "op \<Rightarrow> version option \<Rightarrow> version \<Rightarrow> bool" where
  \<comment> \<open>the version check of \<^verbatim>\<open>atomMatches\<close>, for a package version that may be missing\<close>
  "operator_matches p v w =
     (if v = None then False
      else let cmp' = Compare v (Some w) in
        case p of
          OpNone \<Rightarrow> True
        | OpEq \<Rightarrow> cmp' = 0
        | OpGtEq \<Rightarrow> cmp' \<ge> 0
        | OpGt \<Rightarrow> cmp' > 0
        | OpLessEq \<Rightarrow> cmp' \<le> 0
        | OpLess \<Rightarrow> cmp' < 0
        | OpTilde \<Rightarrow> tildeMatch v (Some w)
        | OpEqGlob \<Rightarrow> globMatch v (Some w))"

subsection \<open>Atoms\<close>

definition use_flag_matches :: "bool gomap option \<Rightarrow> use_flag \<Rightarrow> bool" where
  \<comment> \<open>one iteration over the USE constraints\<close>
  "use_flag_matches useFlags f =
     (case (case map_of (entries useFlags) (u_name f) of Some e \<Rightarrow> Some e | None \<Rightarrow> u_default f) of
        None \<Rightarrow> False
      | Some enabled \<Rightarrow> enabled = u_enabled f)"

definition atomMatches ::
  "atom option \<Rightarrow> atom option \<Rightarrow> string \<Rightarrow> string \<Rightarrow> bool gomap option \<Rightarrow> version option \<Rightarrow> bool" where
  "atomMatches installed constraint slot subslot useFlags pkgVersion =
     (case (installed, constraint) of
        (Some i, Some c) \<Rightarrow>
          a_category i = a_category c \<and> a_package i = a_package c \<and>
          (case a_version c of
             None \<Rightarrow> True
           | Some w \<Rightarrow> if v_raw w \<noteq> [] then operator_matches (a_op c) pkgVersion w else True) \<and>
          (if a_slot c \<noteq> [] \<and> a_slot_op c \<noteq> SlotOpStar then slot = a_slot c else True) \<and>
          (if a_subslot c \<noteq> [] then (if subslot = [] then slot else subslot) = a_subslot c else True) \<and>
          list_all (use_flag_matches useFlags) (a_use_flags c)
      | _ \<Rightarrow> False)"

definition versionAtomMatches :: "atom option \<Rightarrow> atom option \<Rightarrow> version_info option \<Rightarrow> bool gomap option \<Rightarrow> bool" where
  "versionAtomMatches packageAtom constraint vi useFlags =
     (case (vi, constraint) of
        (Some v, Some c) \<Rightarrow>
          (if a_repo c \<noteq> [] \<and> vi_repository v \<noteq> a_repo c then False
           else atomMatches packageAtom constraint (vi_slot v) (vi_subslot v) useFlags (vi_version v))
      | _ \<Rightarrow> False)"

definition VersionMatchesConstraint :: "atom option \<Rightarrow> atom option \<Rightarrow> version_info option \<Rightarrow> bool" where
  "VersionMatchesConstraint packageAtom constraint vi =
     (case vi of None \<Rightarrow> False | Some v \<Rightarrow> versionAtomMatches packageAtom constraint vi (vi_use_flags v))"

definition resolve_conditional :: "bool gomap option \<Rightarrow> use_flag \<Rightarrow> use_flag option" where
  \<comment> \<open>the first test of the loop; \<open>None\<close> drops the flag\<close>
  "resolve_conditional parentUse flag =
     (if u_conditional flag then
        (let parentEnabled = use_value parentUse (u_name flag) in
         if (if u_negated flag then \<not> parentEnabled else parentEnabled)
         then Some (flag\<lparr>u_enabled := \<not> u_negated flag, u_conditional := False, u_negated := False\<rparr>)
         else None)
      else Some flag)"

definition resolve_equal :: "bool gomap option \<Rightarrow> use_flag \<Rightarrow> use_flag" where
  "resolve_equal parentUse flag =
     (if u_equal flag then
        flag\<lparr>u_enabled := (if u_negated flag then \<not> use_value parentUse (u_name flag) else use_value parentUse (u_name flag)),
          u_equal := False, u_negated := False\<rparr>
      else flag)"

definition resolveUseDependencies :: "atom option \<Rightarrow> bool gomap option \<Rightarrow> atom option" where
  "resolveUseDependencies input parentUse =
     map_option (\<lambda>a. a\<lparr>a_use_flags := List.map_filter (\<lambda>f. map_option (resolve_equal parentUse) (resolve_conditional parentUse f))
       (a_use_flags a)\<rparr>) input"

subsection \<open>Choice of a version\<close>

definition betterRepositoryCandidate :: "version_info option \<Rightarrow> version_info option \<Rightarrow> bool" where
  "betterRepositoryCandidate candidate current =
     (case candidate of
        None \<Rightarrow> False
      | Some c \<Rightarrow>
          (case current of
             None \<Rightarrow> True
           | Some d \<Rightarrow>
               if vi_repository_priority c \<noteq> vi_repository_priority d
               then vi_repository_priority c > vi_repository_priority d
               else vi_repository c < vi_repository d))"

definition betterVersionCandidate :: "version_info option \<Rightarrow> version_info option \<Rightarrow> bool" where
  "betterVersionCandidate candidate current =
     (case candidate of
        None \<Rightarrow> False
      | Some c \<Rightarrow>
          (case current of
             None \<Rightarrow> True
           | Some d \<Rightarrow>
               if vi_version d = None then True
               else if vi_version c = None then False
               else if Compare (vi_version c) (vi_version d) \<noteq> 0 then Compare (vi_version c) (vi_version d) > 0
               else betterRepositoryCandidate candidate current))"

definition FindMatchingVersion :: "atom option \<Rightarrow> version_info option list \<Rightarrow> atom option \<Rightarrow> version_info option" where
  \<comment> \<open>the method on the versions of a node, in the order they are ranged over\<close>
  "FindMatchingVersion nodeAtom versions constraint =
     foldl (\<lambda>best vi. case vi of
         None \<Rightarrow> best
       | Some v \<Rightarrow>
           if \<not> versionAtomMatches nodeAtom constraint vi (vi_use_flags v) then best
           else if betterVersionCandidate vi best then vi else best) None versions"

definition bestVersionAtom :: "atom option \<Rightarrow> version_info \<Rightarrow> atom option" where
  "bestVersionAtom base vi =
     map_option (\<lambda>b. empty_atom\<lparr>a_category := a_category b, a_package := a_package b, a_slot := vi_slot vi,
       a_subslot := vi_subslot vi, a_version := vi_version vi\<rparr>) base"

definition versionedConstraintAtom :: "atom option \<Rightarrow> version_info \<Rightarrow> atom option" where
  "versionedConstraintAtom constraint vi =
     map_option (\<lambda>c. c\<lparr>a_op := OpEq, a_version := vi_version vi, a_slot := vi_slot vi, a_subslot := vi_subslot vi\<rparr>) constraint"

subsection \<open>Changes of USE flags\<close>

definition installedFlags :: "version_info option \<Rightarrow> bool gomap option" where
  "installedFlags version =
     (case version of
        None \<Rightarrow> None
      | Some v \<Rightarrow> if vi_installed_use_flags v \<noteq> None then vi_installed_use_flags v else vi_use_flags v)"

definition useFlagsChanged :: "bool gomap option \<Rightarrow> bool gomap option \<Rightarrow> bool" where
  "useFlagsChanged old new \<longleftrightarrow>
     length (entries old) \<noteq> length (entries new) \<or>
     list_ex (\<lambda>(k, v). map_of (entries new) k \<noteq> Some v) (entries old)"

definition flag_domain_changed ::
  "bool gomap option \<Rightarrow> bool gomap option \<Rightarrow> bool gomap option \<Rightarrow> bool gomap option \<Rightarrow> bool" where
  \<comment> \<open>one of the two loops of \<^verbatim>\<open>newUseChanged\<close>: over a domain, against the other domain\<close>
  "flag_domain_changed domain other oldFlags candidateFlags =
     list_ex (\<lambda>(flag, _). map_of (entries other) flag = None \<or> use_value oldFlags flag \<noteq> use_value candidateFlags flag) (entries domain)"

definition newUseChanged :: "version_info option \<Rightarrow> version_info option \<Rightarrow> bool gomap option \<Rightarrow> bool" where
  "newUseChanged installed candidate candidateFlags =
     (case (installed, candidate) of
        (Some i, Some c) \<Rightarrow>
          (let oldDomain = (if vi_installed_iuse_flags i = None then installedFlags installed else vi_installed_iuse_flags i);
               newDomain = vi_use_flags c;
               oldFlags = installedFlags installed
           in flag_domain_changed oldDomain newDomain oldFlags candidateFlags \<or>
              flag_domain_changed newDomain oldDomain oldFlags candidateFlags)
      | _ \<Rightarrow> useFlagsChanged (installedFlags installed) candidateFlags)"

definition effectiveUseChanged :: "bool gomap option \<Rightarrow> bool gomap option \<Rightarrow> bool" where
  "effectiveUseChanged old new \<longleftrightarrow>
     list_ex (\<lambda>(flag, enabled). enabled \<and> \<not> use_value new flag) (entries old) \<or>
     list_ex (\<lambda>(flag, enabled). enabled \<and> \<not> use_value old flag) (entries new)"

subsection \<open>REQUIRED USE\<close>

definition em_dash :: string where
  "em_dash = [CHR 0xE2, CHR 0x80, CHR 0x94]"

definition first_failure :: "string option list \<Rightarrow> string option" where
  \<comment> \<open>a loop that returns the first error\<close>
  "first_failure rs = (case find (\<lambda>r. r \<noteq> None) rs of None \<Rightarrow> None | Some r \<Rightarrow> r)"

definition satisfied_count :: "string option list \<Rightarrow> nat" where
  "satisfied_count rs = length (filter (\<lambda>r. r = None) rs)"

fun checkRequiredUseNode :: "dep_node \<Rightarrow> bool gomap option \<Rightarrow> string option" where
  "checkRequiredUseNode (AtomDep flag) use =
     (case map_of (entries use) flag of
        None \<Rightarrow> Some (''resolve: this package requires the USE flag '' @ go_quote flag @ '' to be enabled'')
      | Some enabled \<Rightarrow>
          if \<not> enabled then Some (''resolve: this package requires the USE flag '' @ go_quote flag @
            '' to be enabled, but it is currently disabled'') else None)"
| "checkRequiredUseNode (Block flag) use =
     (if use_value use flag then Some (''resolve: this package requires the USE flag '' @ go_quote flag @
        '' to be disabled, but it is currently enabled'') else None)"
| "checkRequiredUseNode (AllOfGroup ns implicit) use = first_failure (map (\<lambda>n. checkRequiredUseNode n use) ns)"
| "checkRequiredUseNode (AnyOfGroup ns) use =
     (if list_ex (\<lambda>r. r = None) (map (\<lambda>n. checkRequiredUseNode n use) ns) then None
      else Some (''resolve: none of the alternative dependencies could be satisfied '' @ em_dash @ '' at least one must be installed''))"
| "checkRequiredUseNode (XorOfGroup ns) use =
     (let satisfied = satisfied_count (map (\<lambda>n. checkRequiredUseNode n use) ns) in
      if satisfied \<noteq> 1 then Some (''resolve: exactly one of the alternative dependencies must be selected, but '' @
        show_nat satisfied @ '' were found'') else None)"
| "checkRequiredUseNode (AtMostOneOfGroup ns) use =
     (let satisfied = satisfied_count (map (\<lambda>n. checkRequiredUseNode n use) ns) in
      if satisfied > 1 then Some (''resolve: at most one of the alternative USE requirements may be selected, but '' @
        show_nat satisfied @ '' were found'') else None)"
| "checkRequiredUseNode (UseConditional flag ns) use =
     (let negate = HasPrefix flag ''!'';
          enabled = use_value use (if negate then tl flag else flag)
      in if (if negate then enabled else \<not> enabled) then None
         else first_failure (map (\<lambda>n. checkRequiredUseNode n use) ns))"
| "checkRequiredUseNode (WeakBlock flag) use = None"

definition CheckRequiredUse :: "string \<Rightarrow> bool gomap option \<Rightarrow> string option" where
  "CheckRequiredUse requiredUse use =
     (if requiredUse = [] then None
      else case dep_Parse requiredUse of
          Inl e \<Rightarrow> Some (''resolve: invalid REQUIRED_USE constraint in package: '' @ dep_error_text e)
        | Inr None \<Rightarrow> None
        | Inr (Some n) \<Rightarrow> checkRequiredUseNode n use)"

subsection \<open>Licenses\<close>

record license_state =
  la_all :: bool
  la_eula :: bool
  la_explicit :: "bool gomap"

definition accept_change :: "license_state \<Rightarrow> string \<Rightarrow> license_state" where
  \<comment> \<open>one iteration over ACCEPT LICENSE\<close>
  "accept_change st change =
     (if change = ''*'' then st\<lparr>la_all := True\<rparr>
      else if change = ''-*'' then \<lparr>la_all = False, la_eula = False, la_explicit = []\<rparr>
      else if change = ''@EULA'' then st\<lparr>la_eula := True\<rparr>
      else if change = ''-@EULA'' then st\<lparr>la_eula := False\<rparr>
      else if HasPrefix change ''-'' then st\<lparr>la_explicit := map_put (TrimPrefix change ''-'') False (la_explicit st)\<rparr>
      else st\<lparr>la_explicit := map_put change True (la_explicit st)\<rparr>)"

definition accept_state :: "string list \<Rightarrow> license_state" where
  "accept_state changes = foldl accept_change \<lparr>la_all = False, la_eula = False, la_explicit = []\<rparr> changes"

definition to_upper :: "char \<Rightarrow> char" where
  "to_upper c = (if is_lower c then char_of (code c - 32) else c)"

definition contains_text :: "string \<Rightarrow> string \<Rightarrow> bool" where
  \<comment> \<open>\<^verbatim>\<open>strings.Contains\<close>\<close>
  "contains_text s t \<longleftrightarrow> list_ex (\<lambda>i. HasPrefix (drop i s) t) [0..<length s + 1]"

definition is_eula :: "string \<Rightarrow> bool" where
  "is_eula candidate \<longleftrightarrow> contains_text (map to_upper candidate) ''EULA''"

fun split_fields :: "string \<Rightarrow> string \<Rightarrow> string list" where
  "split_fields acc [] = (if acc = [] then [] else [rev acc])"
| "split_fields acc (c # s) =
     (if ascii_space c then (if acc = [] then split_fields [] s else rev acc # split_fields [] s)
      else split_fields (c # acc) s)"

definition Fields :: "string \<Rightarrow> string list" where
  \<comment> \<open>\<^verbatim>\<open>strings.Fields\<close>\<close>
  "Fields s = split_fields [] s"

definition candidate_accepted :: "license_state \<Rightarrow> string \<Rightarrow> bool" where
  \<comment> \<open>one iteration over the words of the license\<close>
  "candidate_accepted st candidate =
     (case map_of (la_explicit st) candidate of
        Some accepted \<Rightarrow> accepted
      | None \<Rightarrow> if is_eula candidate then la_eula st else la_all st)"

definition LicenseAccepted :: "string \<Rightarrow> string list \<Rightarrow> bool" where
  "LicenseAccepted license acceptLicenses =
     (if acceptLicenses = [] then True
      else list_ex (candidate_accepted (accept_state acceptLicenses)) (Fields license))"

fun license_node_accepted :: "dep_node \<Rightarrow> string list \<Rightarrow> bool gomap option \<Rightarrow> bool" where
  \<comment> \<open>the closure \<^verbatim>\<open>accepted\<close>\<close>
  "license_node_accepted (AtomDep a) changes use = LicenseAccepted a changes"
| "license_node_accepted (AllOfGroup ns implicit) changes use = list_all (\<lambda>n. license_node_accepted n changes use) ns"
| "license_node_accepted (AnyOfGroup ns) changes use = list_ex (\<lambda>n. license_node_accepted n changes use) ns"
| "license_node_accepted (UseConditional flag ns) changes use =
     (let enabled = use_value use (TrimPrefix flag ''!'')
      in if (if HasPrefix flag ''!'' then enabled else \<not> enabled) then True
         else list_all (\<lambda>n. license_node_accepted n changes use) ns)"
| "license_node_accepted n changes use = False"

definition LicenseExpressionAccepted :: "string \<Rightarrow> string list \<Rightarrow> bool gomap option \<Rightarrow> bool" where
  "LicenseExpressionAccepted expression acceptLicenses use =
     (if TrimSpace expression = [] then True
      else case dep_Parse expression of
          Inl e \<Rightarrow> False
        | Inr None \<Rightarrow> False \<comment> \<open>only for a blank expression\<close>
        | Inr (Some n) \<Rightarrow> license_node_accepted n acceptLicenses use)"

subsection \<open>Keywords\<close>

definition applyKeywordChange :: "string list \<Rightarrow> string \<Rightarrow> string list" where
  "applyKeywordChange st change =
     (if change = ''-*'' then []
      else let st' = filter (\<lambda>current. current \<noteq> TrimPrefix change ''-'') st
           in if HasPrefix change ''-'' then st' else st' @ [change])"

definition applyKeywordChanges :: "string list \<Rightarrow> string list \<Rightarrow> string list" where
  "applyKeywordChanges previous changes = foldl applyKeywordChange previous changes"

definition keywordSetAccepts :: "string \<Rightarrow> string list \<Rightarrow> string \<Rightarrow> bool" where
  "keywordSetAccepts keywords accepted arch =
     list_ex (\<lambda>allow. allow = ''**'' \<or>
       list_ex (\<lambda>keyword. \<not> HasPrefix keyword ''-'' \<and>
         (allow = keyword \<or> allow = ''*'' \<and> \<not> HasPrefix keyword ''~'' \<or> allow = ''~*'' \<and> HasPrefix keyword ''~'' \<or>
          allow = arch \<and> keyword = arch)) (Fields keywords)) accepted"

subsection \<open>Agreement with the validator\<close>

definition declared_flags :: "package \<Rightarrow> bool gomap option" where
  \<comment> \<open>the effective USE flags of a package, over its IUSE where that is recorded\<close>
  "declared_flags p =
     (case pk_iuse p of None \<Rightarrow> pk_use p | Some iuse \<Rightarrow> Some (map (\<lambda>(flag, b). (flag, use_value (pk_use p) flag)) iuse))"

definition package_info :: "package \<Rightarrow> version_info" where
  \<comment> \<open>a package of a plan as the resolver sees it\<close>
  "package_info p =
     zero_version_info\<lparr>vi_version := package_version p, vi_slot := pk_slot p, vi_subslot := pk_subslot p,
       vi_use_flags := declared_flags p, vi_repository := pk_repository p\<rparr>"

lemma package_info_fields [simp]:
  "vi_version (package_info p) = package_version p" "vi_slot (package_info p) = pk_slot p"
  "vi_subslot (package_info p) = pk_subslot p" "vi_use_flags (package_info p) = declared_flags p"
  "vi_repository (package_info p) = pk_repository p"
  by (simp_all add: package_info_def)

definition package_atom :: "package \<Rightarrow> atom option" where
  "package_atom p = (case parseCPV (pk_cpv p) of Inl e \<Rightarrow> None | Inr a \<Rightarrow> Some a)"

definition agreed_atom :: "atom \<Rightarrow> bool" where
  \<comment> \<open>no wildcard, no tilde and no negated conditional USE dependency\<close>
  "agreed_atom c \<longleftrightarrow> a_op c \<notin> {OpTilde, OpEqGlob} \<and> (\<forall>f \<in> set (a_use_flags c). \<not> (u_conditional f \<and> u_negated f))"

lemma declared_flag:
  "map_of (entries (declared_flags p)) name =
     (if map_of (entries (pk_iuse p)) name \<noteq> None \<or> pk_iuse p = None \<and> map_of (entries (pk_use p)) name \<noteq> None
      then Some (use_value (pk_use p) name) else None)"
proof (cases "pk_iuse p")
  case None
  then show ?thesis by (simp add: declared_flags_def use_value_def split: option.split)
next
  case (Some iuse)
  have "map_of (map (\<lambda>(flag, b). (flag, g flag)) xs) name = (if map_of xs name \<noteq> None then Some (g name) else None)"
    for g :: "string \<Rightarrow> bool" and xs :: "bool gomap" by (induction xs) auto
  then show ?thesis using Some by (simp add: declared_flags_def)
qed

lemma target_flag_info:
  "target_flag p f = (case map_of (entries (declared_flags p)) (u_name f) of Some e \<Rightarrow> Some e | None \<Rightarrow> u_default f)"
  by (auto simp: target_flag_def declared_flag Let_def)

lemma use_flag_agrees:
  assumes "\<not> (u_conditional f \<and> u_negated f)"
  shows "useDependencyMatches p f (Some owner) \<longleftrightarrow>
    (case map_option (resolve_equal (pk_use owner)) (resolve_conditional (pk_use owner) f) of
       None \<Rightarrow> True | Some g \<Rightarrow> use_flag_matches (declared_flags p) g)"
proof (cases "u_conditional f")
  case False
  then show ?thesis
    by (cases "target_flag p f")
      (auto simp: useDependencyMatches_def resolve_conditional_def resolve_equal_def use_flag_matches_def target_flag_info Let_def
        split: option.splits)
next
  case True
  then have "\<not> u_negated f" using assms by blast
  then show ?thesis using True
    by (cases "target_flag p f")
      (auto simp: useDependencyMatches_def resolve_conditional_def resolve_equal_def use_flag_matches_def target_flag_info Let_def
        split: option.splits)
qed

lemma use_flags_agree:
  assumes "\<forall>f \<in> set fs. \<not> (u_conditional f \<and> u_negated f)"
  shows "useDependenciesMatch p fs (Some owner) \<longleftrightarrow>
    list_all (use_flag_matches (declared_flags p))
      (List.map_filter (\<lambda>f. map_option (resolve_equal (pk_use owner)) (resolve_conditional (pk_use owner) f)) fs)"
  using assms
  by (induction fs) (auto simp: useDependenciesMatch_def use_flag_agrees map_filter_simps split: option.splits)

lemma CP_parts:
  assumes "wf_atom a" "wf_atom c"
  shows "CP a = CP c \<longleftrightarrow> a_category a = a_category c \<and> a_package a = a_package c"
proof
  assume eq: "CP a = CP c"
  have slash: "takeWhile (\<lambda>x. x \<noteq> CHR ''/'') (CP b) = a_category b" if "wf_atom b" for b
  proof -
    have "\<not> isCategoryChar (CHR ''/'')" by code_simp
    moreover have "list_all isCategoryChar (a_category b)" using that by (simp add: wf_atom_def wf_name_def)
    ultimately have "\<forall>x \<in> set (a_category b). x \<noteq> CHR ''/''" by (auto simp: list_all_iff)
    then show ?thesis by (simp add: CP_def takeWhile_append2)
  qed
  have "a_category a = a_category c" using slash [OF assms(1)] slash [OF assms(2)] eq by simp
  then show "a_category a = a_category c \<and> a_package a = a_package c" using eq by (simp add: CP_def)
qed (simp add: CP_def)

lemma operator_agrees:
  assumes "p \<notin> {OpTilde, OpEqGlob, OpNone}"
  shows "operator_matches p (Some v) w \<longleftrightarrow> version_op_matches p v w"
  using assms by (cases p) (simp_all add: operator_matches_def version_op_matches_def Let_def)

lemma matches_agree:
  assumes "wf_package_atom c" "agreed_atom c" "a_subslot c = [] \<or> pk_subslot p \<noteq> []" "parseCPV (pk_cpv p) = Inr a"
  shows "matches a p c \<longleftrightarrow>
    (a_repo c = [] \<or> pk_repository p = a_repo c) \<and> a_category a = a_category c \<and> a_package a = a_package c \<and>
    (case a_version c of None \<Rightarrow> True | Some w \<Rightarrow> if v_raw w \<noteq> [] then operator_matches (a_op c) (a_version a) w else True) \<and>
    (if a_slot c \<noteq> [] \<and> a_slot_op c \<noteq> SlotOpStar then pk_slot p = a_slot c else True) \<and>
    (if a_subslot c \<noteq> [] then (if pk_subslot p = [] then pk_slot p else pk_subslot p) = a_subslot c else True)"
proof -
  have a: "wf_atom a" "a_version a \<noteq> None"
    using assms(4) Parse_wf by (auto simp: parseCPV_def split: sum.splits if_splits)
  have c: "wf_atom c" "a_version c \<noteq> None \<Longrightarrow> a_op c \<notin> {OpTilde, OpEqGlob, OpNone}" "a_slot c \<noteq> [] \<Longrightarrow> a_slot_op c \<noteq> SlotOpStar"
    "\<And>w. a_version c = Some w \<Longrightarrow> v_raw w \<noteq> []"
    using assms(1,2) by (auto simp: wf_package_atom_def agreed_atom_def wf_atom_def wf_slot_part_def wf_version_part_def)
  obtain v where v: "a_version a = Some v" using a(2) by blast
  have ver: "(case a_version c of None \<Rightarrow> True | Some w \<Rightarrow> (case a_version a of None \<Rightarrow> False | Some v \<Rightarrow> version_op_matches (a_op c) v w)) \<longleftrightarrow>
      (case a_version c of None \<Rightarrow> True | Some w \<Rightarrow> if v_raw w \<noteq> [] then operator_matches (a_op c) (a_version a) w else True)"
  proof (cases "a_version c")
    case (Some w)
    then show ?thesis using operator_agrees [OF c(2), of v w] c(4) v by simp
  qed simp
  show ?thesis unfolding matches_def ver CP_parts [OF a(1) c(1)] using assms(3) c(3) by auto
qed

text \<open>
  Claim C33: Where an atom uses neither \<^verbatim>\<open>~\<close> nor \<^verbatim>\<open>=*\<close> nor a negated conditional USE dependency, and subslots are recorded, the
  resolver's matching and the validator's agree on every package: version operator, slot, subslot, repository, and USE
  dependencies with defaults, conditionals and equalities relative to the parent.
\<close>

theorem resolver_match_agrees:
  assumes "ParsePackageAtom raw = Inr c" "agreed_atom c" "a_subslot c = [] \<or> pk_subslot p \<noteq> []"
  shows "package_matches p c (Some owner) \<longleftrightarrow>
    VersionMatchesConstraint (package_atom p) (resolveUseDependencies (Some c) (pk_use owner)) (Some (package_info p))"
proof (cases "parseCPV (pk_cpv p)")
  case (Inl e)
  then show ?thesis
    by (simp add: package_matches_def package_atom_def VersionMatchesConstraint_def versionAtomMatches_def atomMatches_def
        resolveUseDependencies_def)
next
  case (Inr a)
  have wf: "wf_package_atom c" using assms(1) by (rule package_atom_text.of_text_wf)
  have use: "\<forall>f \<in> set (a_use_flags c). \<not> (u_conditional f \<and> u_negated f)" using assms(2) by (simp add: agreed_atom_def)
  have version: "package_version p = a_version a" using Inr by (simp add: package_version_def)
  have "VersionMatchesConstraint (package_atom p) (resolveUseDependencies (Some c) (pk_use owner)) (Some (package_info p)) \<longleftrightarrow>
      ((a_repo c = [] \<or> pk_repository p = a_repo c) \<and> a_category a = a_category c \<and> a_package a = a_package c \<and>
       (case a_version c of None \<Rightarrow> True | Some w \<Rightarrow> if v_raw w \<noteq> [] then operator_matches (a_op c) (a_version a) w else True) \<and>
       (if a_slot c \<noteq> [] \<and> a_slot_op c \<noteq> SlotOpStar then pk_slot p = a_slot c else True) \<and>
       (if a_subslot c \<noteq> [] then (if pk_subslot p = [] then pk_slot p else pk_subslot p) = a_subslot c else True)) \<and>
      list_all (use_flag_matches (declared_flags p))
        (List.map_filter (\<lambda>f. map_option (resolve_equal (pk_use owner)) (resolve_conditional (pk_use owner) f)) (a_use_flags c))"
  proof -
    have guard: "(if b \<and> b' then False else P) \<longleftrightarrow> (\<not> b \<or> \<not> b') \<and> P" for b b' P by auto
    have fields: "a_op (c\<lparr>a_use_flags := fs\<rparr>) = a_op c" "a_category (c\<lparr>a_use_flags := fs\<rparr>) = a_category c"
      "a_package (c\<lparr>a_use_flags := fs\<rparr>) = a_package c" "a_version (c\<lparr>a_use_flags := fs\<rparr>) = a_version c"
      "a_slot (c\<lparr>a_use_flags := fs\<rparr>) = a_slot c" "a_subslot (c\<lparr>a_use_flags := fs\<rparr>) = a_subslot c"
      "a_slot_op (c\<lparr>a_use_flags := fs\<rparr>) = a_slot_op c" "a_repo (c\<lparr>a_use_flags := fs\<rparr>) = a_repo c"
      "a_use_flags (c\<lparr>a_use_flags := fs\<rparr>) = fs" for fs by simp_all
    show ?thesis
      unfolding package_atom_def Inr sum.case VersionMatchesConstraint_def versionAtomMatches_def atomMatches_def
        resolveUseDependencies_def option.map option.case prod.case fields package_info_fields version guard not_not
      by (simp only: conj_assoc)
  qed
  then show ?thesis
    unfolding package_matches_def Inr sum.case matches_agree [OF wf assms(2,3) Inr] use_flags_agree [OF use] by (simp only:)
qed

theorem resolver_match_agrees_witness:
  "VersionMatchesConstraint (package_atom (zero_package\<lparr>pk_cpv := ''a/b-2'', pk_slot := ''0'', pk_use := Some [(''x'', True)]\<rparr>))
     (resolveUseDependencies (Some (projr (ParsePackageAtom ''>=a/b-1:0[x]''))) None)
     (Some (package_info (zero_package\<lparr>pk_cpv := ''a/b-2'', pk_slot := ''0'', pk_use := Some [(''x'', True)]\<rparr>)))"
proof -
  let ?p = "zero_package\<lparr>pk_cpv := ''a/b-2'', pk_slot := ''0'', pk_use := Some [(''x'', True)]\<rparr>"
  let ?c = "projr (ParsePackageAtom ''>=a/b-1:0[x]'')"
  have "ParsePackageAtom ''>=a/b-1:0[x]'' = Inr ?c" "agreed_atom ?c" "a_subslot ?c = []" "package_matches ?p ?c (Some zero_package)"
    by code_simp+
  moreover have "pk_use zero_package = None" by (simp add: zero_package_def)
  ultimately show ?thesis using resolver_match_agrees [of "''>=a/b-1:0[x]''" ?c ?p zero_package] by simp
qed

text \<open>
  Resolver and validator disagree on four points. For \<^verbatim>\<open>[!x?]\<close> and a parent without \<^verbatim>\<open>x\<close> the resolver requires the flag to be
  off in the dependency, as the package manager specification says, and the validator requires it to be on. The wildcard \<^verbatim>\<open>=a/b-1*\<close> is a
  plain prefix for the validator and matches \<^verbatim>\<open>10\<close>. A missing subslot counts as the slot for the resolver only. And \<^verbatim>\<open>~\<close> compares
  versions in the resolver and texts in the validator.
\<close>

theorem resolver_validator_disagree:
  "\<not> package_matches (zero_package\<lparr>pk_cpv := ''a/b-1'', pk_use := Some [(''x'', False)]\<rparr>)
       (projr (ParsePackageAtom ''a/b[!x?]'')) (Some zero_package) \<and>
   VersionMatchesConstraint (package_atom (zero_package\<lparr>pk_cpv := ''a/b-1'', pk_use := Some [(''x'', False)]\<rparr>))
       (resolveUseDependencies (Some (projr (ParsePackageAtom ''a/b[!x?]''))) None)
       (Some (package_info (zero_package\<lparr>pk_cpv := ''a/b-1'', pk_use := Some [(''x'', False)]\<rparr>))) \<and>
   package_matches (zero_package\<lparr>pk_cpv := ''a/b-10''\<rparr>) (projr (ParsePackageAtom ''=a/b-1*'')) None \<and>
   \<not> VersionMatchesConstraint (package_atom (zero_package\<lparr>pk_cpv := ''a/b-10''\<rparr>))
       (Some (projr (ParsePackageAtom ''=a/b-1*''))) (Some (package_info (zero_package\<lparr>pk_cpv := ''a/b-10''\<rparr>))) \<and>
   \<not> package_matches (zero_package\<lparr>pk_cpv := ''a/b-1'', pk_slot := ''0''\<rparr>) (projr (ParsePackageAtom ''a/b:0/0'')) None \<and>
   VersionMatchesConstraint (package_atom (zero_package\<lparr>pk_cpv := ''a/b-1'', pk_slot := ''0''\<rparr>))
       (Some (projr (ParsePackageAtom ''a/b:0/0''))) (Some (package_info (zero_package\<lparr>pk_cpv := ''a/b-1'', pk_slot := ''0''\<rparr>))) \<and>
   \<not> package_matches (zero_package\<lparr>pk_cpv := ''a/b-01''\<rparr>) (projr (ParsePackageAtom ''~a/b-1'')) None \<and>
   VersionMatchesConstraint (package_atom (zero_package\<lparr>pk_cpv := ''a/b-01''\<rparr>))
       (Some (projr (ParsePackageAtom ''~a/b-1''))) (Some (package_info (zero_package\<lparr>pk_cpv := ''a/b-01''\<rparr>)))"
  by (intro conjI; code_simp)

subsection \<open>Agreement on REQUIRED USE and licenses\<close>

fun without_strong_block :: "dep_node \<Rightarrow> bool" where
  "without_strong_block (WeakBlock a) \<longleftrightarrow> False"
| "without_strong_block (AllOfGroup ns implicit) \<longleftrightarrow> (\<forall>n \<in> set ns. without_strong_block n)"
| "without_strong_block (AnyOfGroup ns) \<longleftrightarrow> (\<forall>n \<in> set ns. without_strong_block n)"
| "without_strong_block (XorOfGroup ns) \<longleftrightarrow> (\<forall>n \<in> set ns. without_strong_block n)"
| "without_strong_block (AtMostOneOfGroup ns) \<longleftrightarrow> (\<forall>n \<in> set ns. without_strong_block n)"
| "without_strong_block (UseConditional flag ns) \<longleftrightarrow> (\<forall>n \<in> set ns. without_strong_block n)"
| "without_strong_block n \<longleftrightarrow> True"

lemma first_failure_None: "first_failure rs = None \<longleftrightarrow> (\<forall>r \<in> set rs. r = None)"
  by (induction rs) (auto simp: first_failure_def)

lemma satisfied_count_filter: "satisfied_count (map f ns) = length (filter (\<lambda>n. f n = None) ns)"
  by (induction ns) (simp_all add: satisfied_count_def)

lemma checkRequiredUseNode_agrees:
  "without_strong_block n \<Longrightarrow> checkRequiredUseNode n use = None \<longleftrightarrow> requiredUseSatisfied n use"
proof (induction n)
  have count: "satisfied_count (map (\<lambda>n. checkRequiredUseNode n use) ns) = length (filter (\<lambda>n. requiredUseSatisfied n use) ns)"
    if "\<And>n. n \<in> set ns \<Longrightarrow> checkRequiredUseNode n use = None \<longleftrightarrow> requiredUseSatisfied n use" for ns
    unfolding satisfied_count_filter using that by (metis (mono_tags, lifting) filter_cong)
  {
    case (AtomDep a)
    then show ?case by (simp add: use_value_def split: option.split)
  next
    case (AllOfGroup ns implicit)
    then show ?case by (simp add: first_failure_None list_all_iff)
  next
    case (AnyOfGroup ns)
    have "list_ex (\<lambda>r. r = None) (map f ns) \<longleftrightarrow> (\<exists>n \<in> set ns. f n = None)" for f :: "dep_node \<Rightarrow> string option"
      by (induction ns) auto
    then show ?case using AnyOfGroup by (simp add: list_ex_iff [of "\<lambda>n. requiredUseSatisfied n use"])
  next
    case (XorOfGroup ns)
    then show ?case using count [of ns] by (simp add: Let_def)
  next
    case (AtMostOneOfGroup ns)
    then show ?case using count [of ns] by (simp add: Let_def)
  next
    case (UseConditional flag ns)
    have "TrimPrefix flag ''!'' = (if HasPrefix flag ''!'' then tl flag else flag)"
      by (simp add: TrimPrefix_def drop_Suc)
    then show ?case using UseConditional by (simp add: Let_def first_failure_None list_all_iff)
  }
qed simp_all

text \<open>
  The resolver and the validator agree on REQUIRED USE: \<^verbatim>\<open>CheckRequiredUse\<close> returns no error exactly when
  \<^verbatim>\<open>validatePackageRequiredUse\<close> reports nothing, for every expression without the strong blocker \<^verbatim>\<open>!!\<close>, which has no meaning for USE flags.
\<close>

theorem required_use_checkers_agree:
  assumes "\<And>n. dep_Parse (pk_required_use p) = Inr (Some n) \<Longrightarrow> without_strong_block n"
  shows "CheckRequiredUse (pk_required_use p) (pk_use p) = None \<longleftrightarrow> validatePackageRequiredUse p = []"
proof (cases "TrimSpace (pk_required_use p) = []")
  case True
  then have "dep_Parse (pk_required_use p) = Inr None" by (simp add: dep_Parse_def)
  then show ?thesis using True by (simp add: CheckRequiredUse_def validatePackageRequiredUse_def)
next
  case False
  then have "pk_required_use p \<noteq> []" by (auto simp: TrimSpace_def)
  moreover have "dep_Parse (pk_required_use p) \<noteq> Inr None" using dep_Parse_some [OF False] by blast
  ultimately show ?thesis using False assms checkRequiredUseNode_agrees
    by (simp add: CheckRequiredUse_def validatePackageRequiredUse_def split: sum.split option.split)
qed

theorem required_use_checkers_agree_witness:
  "CheckRequiredUse ''|| ( x !y )'' (Some [(''y'', False)]) = None"
proof -
  let ?p = "zero_package\<lparr>pk_required_use := ''|| ( x !y )'', pk_use := Some [(''y'', False)]\<rparr>"
  have "dep_Parse ''|| ( x !y )'' = Inr (Some (AllOfGroup [AnyOfGroup [AtomDep ''x'', Block ''y'']] True))" by code_simp
  moreover have "validatePackageRequiredUse ?p = []" by code_simp
  ultimately show ?thesis using required_use_checkers_agree [of ?p] by simp
qed

fun plain_licenses :: "dep_node \<Rightarrow> bool" where
  \<comment> \<open>license names are single words, are no EULA, and do not clash with the validator's key for \<^verbatim>\<open>*\<close>\<close>
  "plain_licenses (AtomDep a) \<longleftrightarrow> Fields a = [a] \<and> \<not> is_eula a \<and> a \<noteq> accept_all_key"
| "plain_licenses (AllOfGroup ns implicit) \<longleftrightarrow> (\<forall>n \<in> set ns. plain_licenses n)"
| "plain_licenses (AnyOfGroup ns) \<longleftrightarrow> (\<forall>n \<in> set ns. plain_licenses n)"
| "plain_licenses (UseConditional flag ns) \<longleftrightarrow> (\<forall>n \<in> set ns. plain_licenses n)"
| "plain_licenses n \<longleftrightarrow> True"

lemma accept_state_steps:
  assumes "''@EULA'' \<notin> set changes" "''-@EULA'' \<notin> set changes"
  shows "foldl license_step ([], False) changes = (la_explicit (accept_state changes), la_all (accept_state changes))"
  using assms
proof (induction changes rule: rev_induct)
  case Nil
  then show ?case by (simp add: accept_state_def)
next
  case (snoc c changes)
  have "c \<noteq> ''@EULA''" "c \<noteq> ''-@EULA''" using snoc.prems by auto
  then show ?case using snoc by (simp add: accept_state_def accept_change_def license_step_def)
qed

lemma license_node_agrees:
  assumes "changes \<noteq> []" "''@EULA'' \<notin> set changes" "''-@EULA'' \<notin> set changes"
  shows "plain_licenses n \<Longrightarrow> license_node_accepted n changes use \<longleftrightarrow> licenseNodeAccepted n use (acceptedLicenseSet changes)"
proof (induction n)
  case (AtomDep a)
  then show ?case using assms(1) accept_state_steps [OF assms(2,3)]
    by (simp add: LicenseAccepted_def candidate_accepted_def license_accepted_def acceptedLicenseSet_def split: option.split)
qed (simp_all add: list_all_iff list_ex_iff Let_def)

text \<open>
  The resolver and the validator accept the same license expressions, as long as no EULA is involved and groups
  are expanded: \<^verbatim>\<open>LicenseExpressionAccepted\<close> and \<^verbatim>\<open>licenseNodeAccepted\<close> agree on every tree. They differ on EULAs: the resolver does not let \<^verbatim>\<open>*\<close> accept a
  license whose name contains EULA, although it documents \<^verbatim>\<open>*\<close> as accepting all licenses.
\<close>

theorem license_checkers_agree:
  assumes "changes \<noteq> []" "''@EULA'' \<notin> set changes" "''-@EULA'' \<notin> set changes" "dep_Parse expression = Inr (Some n)" "plain_licenses n"
  shows "(LicenseExpressionAccepted expression changes use \<longleftrightarrow> licenseNodeAccepted n use (acceptedLicenseSet changes)) \<and>
    \<not> LicenseExpressionAccepted ''X-EULA'' [''*''] use \<and> licenseNodeAccepted (AtomDep ''X-EULA'') use (acceptedLicenseSet [''*''])"
proof (intro conjI)
  have "TrimSpace expression \<noteq> []" using assms(4) by (auto simp: dep_Parse_def)
  then show "LicenseExpressionAccepted expression changes use \<longleftrightarrow> licenseNodeAccepted n use (acceptedLicenseSet changes)"
    using license_node_agrees [OF assms(1-3,5)] assms(4) by (simp add: LicenseExpressionAccepted_def)
  have "dep_Parse ''X-EULA'' = Inr (Some (AllOfGroup [AtomDep ''X-EULA''] True))" "TrimSpace ''X-EULA'' \<noteq> []"
    "\<not> LicenseAccepted ''X-EULA'' [''*'']" by code_simp+
  then show "\<not> LicenseExpressionAccepted ''X-EULA'' [''*''] use" by (simp add: LicenseExpressionAccepted_def)
  show "licenseNodeAccepted (AtomDep ''X-EULA'') use (acceptedLicenseSet [''*''])"
    by (simp add: license_accepted_def acceptedLicenseSet_def license_step_def accept_all_key_def)
qed

theorem license_checkers_agree_witness:
  "LicenseExpressionAccepted ''|| ( MIT GPL-2 )'' [''-MIT'', ''GPL-2''] None"
proof -
  let ?n = "AllOfGroup [AnyOfGroup [AtomDep ''MIT'', AtomDep ''GPL-2'']] True"
  have "dep_Parse ''|| ( MIT GPL-2 )'' = Inr (Some ?n)" by code_simp
  moreover have "plain_licenses ?n" by code_simp
  moreover have "licenseNodeAccepted ?n None (acceptedLicenseSet [''-MIT'', ''GPL-2''])" by code_simp
  ultimately show ?thesis using license_checkers_agree [of "[''-MIT'', ''GPL-2'']" "''|| ( MIT GPL-2 )''" ?n None] by simp
qed

subsection \<open>The best matching version\<close>

definition candidate_beats :: "version_info \<Rightarrow> version_info \<Rightarrow> bool" where
  "candidate_beats c d \<longleftrightarrow> betterVersionCandidate (Some c) (Some d)"

definition comparable :: "version_info \<Rightarrow> bool" where
  \<comment> \<open>a parsed version with at most one suffix\<close>
  "comparable c \<longleftrightarrow> (\<exists>raw v. vi_version c = Some v \<and> ParseVersion raw = Inr v \<and> at_most_one_suffix v)"

definition candidate_rank where
  "candidate_rank c = (pms_key (the (vi_version c)), vi_repository_priority c)"

lemma lexicographic_less: "(a, b) < (a', b') \<longleftrightarrow> a < a' \<or> a = a' \<and> b < b'" for a a' :: "'x::linorder" and b b' :: "'y::linorder"
  by (auto simp: less_prod_def)

lemma candidate_beats_rank:
  assumes "comparable c" "comparable d"
  shows "candidate_beats c d \<longleftrightarrow>
    candidate_rank d < candidate_rank c \<or> candidate_rank d = candidate_rank c \<and> vi_repository c < vi_repository d"
proof -
  obtain v where v: "vi_version c = Some v" "version_ok v" "at_most_one_suffix v"
    using assms(1) ParseVersion_ok by (auto simp: comparable_def)
  obtain w where w: "vi_version d = Some w" "version_ok w" "at_most_one_suffix w"
    using assms(2) ParseVersion_ok by (auto simp: comparable_def)
  have "compare_version v w = cmp (pms_key v) (pms_key w)" using single_suffix_order.by_key v w by blast
  then have "candidate_beats c d \<longleftrightarrow> pms_key w < pms_key v \<or> pms_key v = pms_key w \<and>
      (if vi_repository_priority c \<noteq> vi_repository_priority d then vi_repository_priority c > vi_repository_priority d
       else vi_repository c < vi_repository d)"
    using v(1) w(1) by (auto simp: candidate_beats_def betterVersionCandidate_def betterRepositoryCandidate_def cmp_def)
  then show ?thesis using v(1) w(1) unfolding candidate_rank_def lexicographic_less by (auto simp: less_le)
qed

lemma candidate_beats_trans:
  assumes "comparable b" "comparable c" "comparable d" "candidate_beats b c" "candidate_beats c d"
  shows "candidate_beats b d"
  using assms by (auto simp: candidate_beats_rank)

lemma candidate_beats_asym:
  assumes "comparable c" "comparable d" "candidate_beats c d"
  shows "\<not> candidate_beats d c"
  using assms by (auto simp: candidate_beats_rank)

definition matching_candidates :: "atom option \<Rightarrow> version_info option list \<Rightarrow> atom option \<Rightarrow> version_info set" where
  "matching_candidates nodeAtom versions constraint =
     {v. Some v \<in> set versions \<and> versionAtomMatches nodeAtom constraint (Some v) (vi_use_flags v)}"

definition distinguished :: "version_info set \<Rightarrow> bool" where
  \<comment> \<open>comparable candidates, no two of which tie in version, priority and repository\<close>
  "distinguished S \<longleftrightarrow> (\<forall>c \<in> S. comparable c) \<and>
     (\<forall>c \<in> S. \<forall>d \<in> S. candidate_rank c = candidate_rank d \<and> vi_repository c = vi_repository d \<longrightarrow> c = d)"

definition best_of :: "version_info set \<Rightarrow> version_info option \<Rightarrow> bool" where
  "best_of S r \<longleftrightarrow> (case r of None \<Rightarrow> S = {} | Some b \<Rightarrow> b \<in> S \<and> (\<forall>x \<in> S. x = b \<or> candidate_beats b x))"

lemma beats_total:
  assumes "distinguished S" "c \<in> S" "d \<in> S" "c \<noteq> d" "\<not> candidate_beats c d"
  shows "candidate_beats d c"
proof -
  have c: "comparable c" "comparable d" using assms(1-3) by (simp_all add: distinguished_def)
  have "\<not> candidate_rank d < candidate_rank c" and tie: "candidate_rank d = candidate_rank c \<Longrightarrow> \<not> vi_repository c < vi_repository d"
    using assms(5) candidate_beats_rank [OF c] by blast+
  moreover have "candidate_rank d = candidate_rank c \<Longrightarrow> vi_repository c \<noteq> vi_repository d"
    using assms(1-4) by (auto simp: distinguished_def)
  ultimately show ?thesis unfolding candidate_beats_rank [OF c(2,1)] by (meson linorder_neqE)
qed

lemma best_unique:
  assumes "distinguished S" "best_of S r" "best_of S r'"
  shows "r = r'"
proof (cases r)
  case None
  then show ?thesis using assms(2,3) by (cases r') (auto simp: best_of_def)
next
  case (Some b)
  then obtain b' where b': "r' = Some b'" using assms(2,3) by (cases r') (auto simp: best_of_def)
  have "b = b'"
  proof (rule ccontr)
    assume "b \<noteq> b'"
    then have "candidate_beats b b'" "candidate_beats b' b" "comparable b" "comparable b'"
      using assms Some b' by (auto simp: best_of_def distinguished_def)
    then show False using candidate_beats_asym by blast
  qed
  then show ?thesis using Some b' by simp
qed

lemma distinguished_mono: "distinguished T \<Longrightarrow> S \<subseteq> T \<Longrightarrow> distinguished S"
  unfolding distinguished_def by blast

lemma best_insert:
  assumes "distinguished (insert v S)" "b \<in> S" "\<forall>y \<in> S. y = b \<or> candidate_beats b y"
  shows "best_of (insert v S) (if candidate_beats v b then Some v else Some b)"
proof (cases "candidate_beats v b")
  case True
  have "candidate_beats v y" if "y \<in> S" for y
  proof (cases "y = b")
    case False
    then have "candidate_beats b y" using assms(3) that by blast
    moreover have "comparable v" "comparable b" "comparable y" using assms(1,2) that unfolding distinguished_def by blast+
    ultimately show ?thesis using candidate_beats_trans True by blast
  qed (use True in simp)
  then show ?thesis using True by (simp add: best_of_def)
next
  case False
  then have "v = b \<or> candidate_beats b v" using beats_total [OF assms(1), of v b] assms(2) by blast
  then show ?thesis using False assms(2,3) by (simp add: best_of_def)
qed

lemma find_best:
  "distinguished (matching_candidates a vs c) \<Longrightarrow> best_of (matching_candidates a vs c) (FindMatchingVersion a vs c)"
proof (induction vs rule: rev_induct)
  case Nil
  then show ?case by (simp add: best_of_def matching_candidates_def FindMatchingVersion_def)
next
  case (snoc x vs)
  let ?S = "matching_candidates a vs c" and ?r = "FindMatchingVersion a vs c"
  show ?case
  proof (cases "\<exists>v. x = Some v \<and> versionAtomMatches a c x (vi_use_flags v)")
    case False
    then have "matching_candidates a (vs @ [x]) c = ?S" by (auto simp: matching_candidates_def)
    moreover have "FindMatchingVersion a (vs @ [x]) c = ?r"
      using False by (auto simp: FindMatchingVersion_def split: option.split)
    ultimately show ?thesis using snoc by simp
  next
    case True
    then obtain v where v: "x = Some v" "versionAtomMatches a c (Some v) (vi_use_flags v)" by blast
    have S: "matching_candidates a (vs @ [x]) c = insert v ?S" using v by (auto simp: matching_candidates_def)
    have dist: "distinguished (insert v ?S)" using snoc.prems S by simp
    then have "distinguished ?S" by (rule distinguished_mono) blast
    then have best: "best_of ?S ?r" by (rule snoc.IH)
    have step: "FindMatchingVersion a (vs @ [x]) c = (if betterVersionCandidate (Some v) ?r then Some v else ?r)"
      using v by (simp add: FindMatchingVersion_def)
    show ?thesis
    proof (cases ?r)
      case None
      then show ?thesis using best step S by (simp add: best_of_def betterVersionCandidate_def)
    next
      case (Some b)
      then have b: "b \<in> ?S" "\<forall>y \<in> ?S. y = b \<or> candidate_beats b y" using best by (simp_all add: best_of_def)
      have "best_of (insert v ?S) (if candidate_beats v b then Some v else Some b)" by (rule best_insert [OF dist b])
      then show ?thesis unfolding step S Some candidate_beats_def .
    qed
  qed
qed

text \<open>
  \<^verbatim>\<open>FindMatchingVersion\<close> ranges over a map, whose order Go leaves open, and its result does not depend on that order: it
  is the one matching version that beats all others by version, then repository priority, then repository name, and there
  is a result whenever a version matches.
\<close>

theorem best_version_order_independent:
  assumes "set vs = set ws" "distinguished (matching_candidates a vs c)"
  shows "FindMatchingVersion a vs c = FindMatchingVersion a ws c \<and>
    best_of (matching_candidates a vs c) (FindMatchingVersion a vs c)"
proof -
  have same: "matching_candidates a ws c = matching_candidates a vs c" using assms(1) by (simp add: matching_candidates_def)
  have "best_of (matching_candidates a vs c) (FindMatchingVersion a ws c)"
    using find_best [of a ws c] assms(2) unfolding same by blast
  then show ?thesis using best_unique [OF assms(2)] find_best [OF assms(2)] by blast
qed

theorem best_version_order_independent_witness:
  "let v = \<lambda>r. (package_info zero_package)\<lparr>vi_version := Some (projr (ParseVersion r))\<rparr>; a = Some (empty_atom\<lparr>a_category := ''a'', a_package := ''b''\<rparr>)
   in FindMatchingVersion a [Some (v ''1''), None, Some (v ''2'')] a = FindMatchingVersion a [Some (v ''2''), Some (v ''1''), None] a"
proof -
  define v where "v r = (package_info zero_package)\<lparr>vi_version := Some (projr (ParseVersion r))\<rparr>" for r
  define a where "a = Some (empty_atom\<lparr>a_category := ''a'', a_package := ''b''\<rparr>)"
  have parse: "ParseVersion ''1'' = Inr (projr (ParseVersion ''1''))" "ParseVersion ''2'' = Inr (projr (ParseVersion ''2''))"
    "at_most_one_suffix (projr (ParseVersion ''1''))" "at_most_one_suffix (projr (ParseVersion ''2''))"
    "pms_key (projr (ParseVersion ''1'')) \<noteq> pms_key (projr (ParseVersion ''2''))" by code_simp+
  have "comparable (v ''1'')" "comparable (v ''2'')" using parse by (auto simp: comparable_def v_def)
  moreover have "candidate_rank (v ''1'') \<noteq> candidate_rank (v ''2'')" using parse(5) by (simp add: candidate_rank_def v_def)
  moreover have "matching_candidates a [Some (v ''1''), None, Some (v ''2'')] a \<subseteq> {v ''1'', v ''2''}"
    by (auto simp: matching_candidates_def)
  moreover have "distinguished {v ''1'', v ''2''}" using calculation(1-3) by (simp add: distinguished_def)
  ultimately have "distinguished (matching_candidates a [Some (v ''1''), None, Some (v ''2'')] a)"
    using distinguished_mono by blast
  then have "FindMatchingVersion a [Some (v ''1''), None, Some (v ''2'')] a = FindMatchingVersion a [Some (v ''2''), Some (v ''1''), None] a"
    using best_version_order_independent [of "[Some (v ''1''), None, Some (v ''2'')]" "[Some (v ''2''), Some (v ''1''), None]" a a]
    by (simp add: insert_commute)
  then show ?thesis by (simp add: v_def a_def)
qed

end
