(* ===== verification/Portage_Policy.thy ===== *)
theory Portage_Policy
  imports Resolve_Match Depstring_Roundtrip
begin

text \<open>
  The configuration policy of \<^verbatim>\<open>src/internal/portage/portage.go\<close>: incremental lists, the effective USE flags of a package version
  from the layers of the configuration, masked and forced flags, package masks, keywords and licenses. The
  matching of a rule with a package is done by the library \<^verbatim>\<open>gentooling\<close>, which is not part of the repository: it is the
  argument \<open>gm\<close> of the definitions, a function of the rule, the package version, its slot, its subslot and its repository, False
  where the library reports an error.
\<close>

subsection \<open>Configuration\<close>

record package_use_rule =
  pr_atom :: string
  pr_flags :: "string list"

record package_mask_rule =
  mr_atom :: string
  mr_source :: string
  mr_reason :: string

record mask_status =
  ms_masked :: bool
  ms_atom :: string
  ms_source :: string
  ms_reason :: string

record portage_config =
  pc_make_conf :: "string gomap"
  pc_use :: "string list"
  pc_user_use :: "string list"
  pc_command_use :: "string list"
  pc_accept_keywords :: "string list"
  pc_package_use :: "string list gomap"
  pc_package_use_rules :: "package_use_rule list"
  pc_package_accept_keywords :: "string gomap"
  pc_package_accept_keyword_rules :: "package_use_rule list"
  pc_package_license :: "string gomap"
  pc_package_license_rules :: "package_use_rule list"
  pc_package_mask :: "string list"
  pc_package_mask_rules :: "package_mask_rule list"
  pc_package_unmask :: "string list"
  pc_use_force :: "string list"
  pc_use_mask :: "string list"
  pc_use_stable_force :: "string list"
  pc_use_stable_mask :: "string list"
  pc_package_use_force :: "string list gomap"
  pc_package_use_mask :: "string list gomap"
  pc_package_use_force_rules :: "package_use_rule list"
  pc_package_use_mask_rules :: "package_use_rule list"
  pc_package_use_stable_force_rules :: "package_use_rule list"
  pc_package_use_stable_mask_rules :: "package_use_rule list"
  pc_use_expand :: "string list"
  pc_use_expand_implicit :: "string list"

type_synonym atom_matcher = "string \<Rightarrow> string \<Rightarrow> string \<Rightarrow> string \<Rightarrow> string \<Rightarrow> bool"

definition Cut :: "string \<Rightarrow> char \<Rightarrow> (string \<times> string) option" where
  \<comment> \<open>\<^verbatim>\<open>strings.Cut\<close> for a one-byte separator; \<open>None\<close> when it is not found\<close>
  "Cut s c = (if c \<in> set s then Some (takeWhile (\<lambda>d. d \<noteq> c) s, tl (dropWhile (\<lambda>d. d \<noteq> c) s)) else None)"

definition PackageAtomMatches :: "atom_matcher \<Rightarrow> string \<Rightarrow> string \<Rightarrow> string \<Rightarrow> string \<Rightarrow> bool" where
  "PackageAtomMatches gm rawRule cpv slot repo =
     (if rawRule = ''*/*'' then True
      else case Cut slot CHR ''/'' of
          None \<Rightarrow> gm rawRule cpv slot [] repo
        | Some (before, after) \<Rightarrow> gm rawRule cpv before after repo)"

subsection \<open>Words and incremental values\<close>

datatype quote = Unquoted | InSingle | InDouble

fun sh_words :: "quote \<Rightarrow> string \<Rightarrow> string \<Rightarrow> string list" where
  \<comment> \<open>the loop of \<^verbatim>\<open>splitShWords\<close>; the word so far is kept in reverse\<close>
  "sh_words q current [] = (if current = [] then [] else [rev current])"
| "sh_words q current (ch # s) =
     (case q of
        InSingle \<Rightarrow> if ch = CHR 0x27 then sh_words Unquoted current s else sh_words q (ch # current) s
      | InDouble \<Rightarrow> if ch = CHR 0x22 then sh_words Unquoted current s else sh_words q (ch # current) s
      | Unquoted \<Rightarrow>
          if ch = CHR 0x27 then sh_words InSingle current s
          else if ch = CHR 0x22 then sh_words InDouble current s
          else if ch \<in> {CHR '' '', CHR 0x09, CHR 0x0A, CHR 0x0D} then
            (if current = [] then sh_words q [] s else rev current # sh_words q [] s)
          else sh_words q (ch # current) s)"

definition splitShWords :: "string \<Rightarrow> string list" where
  "splitShWords s = sh_words Unquoted [] (TrimSpace s)"

definition applyOrderedChange :: "string list \<Rightarrow> string \<Rightarrow> string list" where
  "applyOrderedChange items change =
     (if change = ''-*'' then []
      else let filtered = filter (\<lambda>current. current \<noteq> TrimPrefix change ''-'') items
           in if HasPrefix change ''-'' then filtered else filtered @ [change])"

definition applyOrderedChanges :: "string list \<Rightarrow> string list \<Rightarrow> string list" where
  "applyOrderedChanges previous changes = foldl applyOrderedChange previous changes"

definition applyAtomChange :: "string list \<Rightarrow> string \<Rightarrow> string list" where
  "applyAtomChange items change =
     (if HasPrefix change ''-'' then filter (\<lambda>existing. existing \<noteq> TrimPrefix change ''-'') items else items @ [change])"

definition applyAtomChanges :: "string list \<Rightarrow> string list \<Rightarrow> string list" where
  "applyAtomChanges previous changes = foldl applyAtomChange previous changes"

definition applyPackageMaskRuleChange :: "package_mask_rule list \<Rightarrow> package_mask_rule \<Rightarrow> package_mask_rule list" where
  "applyPackageMaskRuleChange items change =
     (if HasPrefix (mr_atom change) ''-'' then filter (\<lambda>current. mr_atom current \<noteq> TrimPrefix (mr_atom change) ''-'') items
      else items @ [change])"

definition applyPackageMaskRuleChanges :: "package_mask_rule list \<Rightarrow> package_mask_rule list \<Rightarrow> package_mask_rule list" where
  "applyPackageMaskRuleChanges previous changes = foldl applyPackageMaskRuleChange previous changes"

definition ordered_put :: "string \<Rightarrow> 'v \<Rightarrow> string list \<times> 'v gomap \<Rightarrow> string list \<times> 'v gomap" where
  \<comment> \<open>a map that remembers the order in which its keys first came: append the key if it is new, then store\<close>
  "ordered_put name v st =
     (case st of (order, values) \<Rightarrow> (if map_of values name = None then order @ [name] else order, map_put name v values))"

definition merge_token :: "string list \<times> string gomap \<Rightarrow> string \<Rightarrow> string list \<times> string gomap" where
  \<comment> \<open>one iteration of the closure \<^verbatim>\<open>apply\<close> of \<^verbatim>\<open>mergeIncremental\<close>: \<^verbatim>\<open>order\<close> and \<^verbatim>\<open>values\<close>\<close>
  "merge_token st token =
     (if token = ''-*'' then ([], [])
      else let name = TrimPrefix token ''-'' in if name = [] then st else ordered_put name token st)"

definition merge_result :: "string list \<times> string gomap \<Rightarrow> string list" where
  "merge_result st = (case st of (order, values) \<Rightarrow> map (\<lambda>name. case map_of values name of None \<Rightarrow> [] | Some t \<Rightarrow> t) order)"

definition mergeIncremental :: "string \<Rightarrow> string \<Rightarrow> string" where
  "mergeIncremental previous next =
     join_with '' '' (merge_result (foldl merge_token (foldl merge_token ([], []) (splitShWords previous)) (splitShWords next)))"

definition dropNegativeTokens :: "string \<Rightarrow> string" where
  "dropNegativeTokens s = join_with '' '' (applyOrderedChanges [] (splitShWords s))"

definition to_lower :: "char \<Rightarrow> char" where
  "to_lower c = (if is_upper c then char_of (code c + 32) else c)"

definition ToLower :: "string \<Rightarrow> string" where
  \<comment> \<open>\<^verbatim>\<open>strings.ToLower\<close> on ASCII\<close>
  "ToLower s = map to_lower s"

definition expand_flag :: "string \<Rightarrow> string \<Rightarrow> string list" where
  \<comment> \<open>one value of a USE expand group\<close>
  "expand_flag prefix entry =
     (let name = TrimPrefix entry ''-'' in
      if name = [] then [] else if HasPrefix entry ''-'' then [CHR ''-'' # prefix @ name] else [prefix @ name])"

definition appendUseExpand :: "string list \<Rightarrow> string list \<Rightarrow> string gomap \<Rightarrow> string list" where
  "appendUseExpand use groups values =
     splitShWords (mergeIncremental [] (join_with '' '' (use @
       concat (map (\<lambda>group. concat (map (expand_flag (ToLower group @ ''_''))
         (splitShWords (case map_of values group of None \<Rightarrow> [] | Some v \<Rightarrow> v)))) groups))))"

definition removeUseExpandFlags :: "string list \<Rightarrow> string list \<Rightarrow> string list" where
  "removeUseExpandFlags use groups =
     (let prefixes = map (\<lambda>group. ToLower (TrimSpace group) @ ''_'') (filter (\<lambda>group. TrimSpace group \<noteq> []) groups)
      in filter (\<lambda>flag. \<not> list_ex (\<lambda>prefix. HasPrefix (ToLower (TrimPrefix flag ''-'')) prefix) prefixes) use)"

subsection \<open>Global USE flags\<close>

definition set_flag :: "string list \<times> bool gomap \<Rightarrow> string \<Rightarrow> bool \<Rightarrow> string list \<times> bool gomap" where
  "set_flag st raw enabled =
     (let name = TrimPrefix raw ''-'' in if name = [] then st else ordered_put name enabled st)"

definition global_state :: "string list \<Rightarrow> string list \<Rightarrow> string list \<Rightarrow> string list \<times> bool gomap" where
  "global_state use force masks =
     foldl (\<lambda>st raw. set_flag st raw False)
       (foldl (\<lambda>st raw. set_flag st raw True)
         (foldl (\<lambda>st raw. set_flag st raw (\<not> HasPrefix raw ''-'')) ([], []) use) force) masks"

definition applyEffectiveGlobalUse :: "string list \<Rightarrow> string list \<Rightarrow> string list \<Rightarrow> string list" where
  "applyEffectiveGlobalUse use force masks =
     (case global_state use force masks of (order, state) \<Rightarrow>
        map (\<lambda>name. if map_of state name = Some True then name else CHR ''-'' # name) order)"

subsection \<open>USE flags of a package\<close>

definition packagePolicyChangesFor :: "atom_matcher \<Rightarrow> package_use_rule list \<Rightarrow> string \<Rightarrow> string \<Rightarrow> string \<Rightarrow> string list" where
  "packagePolicyChangesFor gm rules cpv slot repo =
     concat (map pr_flags (filter (\<lambda>rule. PackageAtomMatches gm (pr_atom rule) cpv slot repo) rules))"

definition policy_flag_step :: "string list \<Rightarrow> string \<Rightarrow> string list" where
  "policy_flag_step items change =
     (let name = TrimPrefix change ''-'' in
      if name = [] then items
      else let filtered = filter (\<lambda>current. current \<noteq> name) items
           in if HasPrefix change ''-'' then filtered else filtered @ [name])"

definition packagePolicyFlagsFor :: "atom_matcher \<Rightarrow> package_use_rule list \<Rightarrow> string \<Rightarrow> string \<Rightarrow> string \<Rightarrow> string list" where
  "packagePolicyFlagsFor gm rules cpv slot repo = foldl policy_flag_step [] (packagePolicyChangesFor gm rules cpv slot repo)"

definition slice_at :: "string list gomap \<Rightarrow> string \<Rightarrow> string list" where
  \<comment> \<open>a lookup in a map of slices\<close>
  "slice_at m k = (case map_of m k of None \<Rightarrow> [] | Some xs \<Rightarrow> xs)"

text \<open>The flag policy of a profile, as \<^verbatim>\<open>gentooling\<close> reads it and \<^verbatim>\<open>Load\<close> takes it over: one list of rules becomes both the rules and the map.\<close>

record profile_info =
  pi_use_force :: "string list"
  pi_use_mask :: "string list"
  pi_use_stable_force :: "string list"
  pi_use_stable_mask :: "string list"
  pi_package_use_force :: "package_use_rule list"
  pi_package_use_mask :: "package_use_rule list"
  pi_package_use_stable_force :: "package_use_rule list"
  pi_package_use_stable_mask :: "package_use_rule list"
  pi_package_use :: "package_use_rule list"

definition profilePackageRules :: "package_use_rule list \<Rightarrow> package_use_rule list" where
  "profilePackageRules input = map (\<lambda>rule. \<lparr>pr_atom = pr_atom rule, pr_flags = pr_flags rule\<rparr>) input"

definition profileRuleMap :: "package_use_rule list \<Rightarrow> string list gomap" where
  "profileRuleMap input =
     foldl (\<lambda>m rule. map_put (pr_atom rule) (applyOrderedChanges (slice_at m (pr_atom rule)) (pr_flags rule)) m) [] input"

definition load_profile_policy :: "profile_info \<Rightarrow> portage_config \<Rightarrow> portage_config" where
  \<comment> \<open>the part of \<^verbatim>\<open>Load\<close> that fills in the flag policy\<close>
  "load_profile_policy info cfg =
     cfg\<lparr>pc_use_force := pi_use_force info, pc_use_mask := pi_use_mask info,
       pc_use_stable_force := pi_use_stable_force info, pc_use_stable_mask := pi_use_stable_mask info,
       pc_package_use_force := profileRuleMap (pi_package_use_force info), pc_package_use_mask := profileRuleMap (pi_package_use_mask info),
       pc_package_use_force_rules := profilePackageRules (pi_package_use_force info),
       pc_package_use_mask_rules := profilePackageRules (pi_package_use_mask info),
       pc_package_use_stable_force_rules := profilePackageRules (pi_package_use_stable_force info),
       pc_package_use_stable_mask_rules := profilePackageRules (pi_package_use_stable_mask info),
       pc_package_use_rules := profilePackageRules (pi_package_use info) @ pc_package_use_rules cfg\<rparr>"

definition candidate_cp :: "string \<Rightarrow> string" where
  "candidate_cp cpv = (case Parse cpv of Inl e \<Rightarrow> cpv | Inr a \<Rightarrow> CP a)"

definition PackageUseFor :: "atom_matcher \<Rightarrow> portage_config \<Rightarrow> string \<Rightarrow> string \<Rightarrow> string \<Rightarrow> string list" where
  "PackageUseFor gm cfg cpv slot repo =
     (if pc_package_use_rules cfg = [] then slice_at (pc_package_use cfg) (candidate_cp cpv)
      else packagePolicyChangesFor gm (pc_package_use_rules cfg) cpv slot repo)"

definition apply_changes :: "bool gomap \<Rightarrow> string list \<Rightarrow> bool gomap" where
  \<comment> \<open>the closure \<^verbatim>\<open>applyChanges\<close>\<close>
  "apply_changes m changes =
     foldl (\<lambda>m change. let name = TrimPrefix change ''-'' in
       if name = [] then m else map_put name (\<not> HasPrefix change ''-'') m) m changes"

definition apply_policy :: "bool \<Rightarrow> bool gomap \<Rightarrow> string list \<Rightarrow> bool gomap" where
  \<comment> \<open>the closure \<^verbatim>\<open>applyPolicy\<close>\<close>
  "apply_policy enabled m changes =
     foldl (\<lambda>m change. let name = TrimPrefix change ''-'' in if name = [] then m else map_put name enabled m) m changes"

definition policy_list ::
  "atom_matcher \<Rightarrow> string list \<Rightarrow> string list \<Rightarrow> package_use_rule list \<Rightarrow> string list gomap \<Rightarrow> package_use_rule list \<Rightarrow>
   string \<Rightarrow> string \<Rightarrow> string \<Rightarrow> bool \<Rightarrow> string list" where
  \<comment> \<open>the list \<^verbatim>\<open>force\<close> or \<^verbatim>\<open>mask\<close>: the global list, the stable list, the rules of the package or else the map, the stable rules\<close>
  "policy_list gm base stable_base rules table stable_rules cpv slot repo is_stable =
     (let l1 = (if is_stable then applyOrderedChanges base stable_base else base);
          changes = packagePolicyChangesFor gm rules cpv slot repo;
          changes' = (if changes = [] then slice_at table (candidate_cp cpv) else changes);
          l2 = applyOrderedChanges l1 changes'
      in if is_stable then applyOrderedChanges l2 (packagePolicyChangesFor gm stable_rules cpv slot repo) else l2)"

definition force_list :: "atom_matcher \<Rightarrow> portage_config \<Rightarrow> string \<Rightarrow> string \<Rightarrow> string \<Rightarrow> bool \<Rightarrow> string list" where
  "force_list gm cfg = policy_list gm (pc_use_force cfg) (pc_use_stable_force cfg) (pc_package_use_force_rules cfg)
     (pc_package_use_force cfg) (pc_package_use_stable_force_rules cfg)"

definition mask_list :: "atom_matcher \<Rightarrow> portage_config \<Rightarrow> string \<Rightarrow> string \<Rightarrow> string \<Rightarrow> bool \<Rightarrow> string list" where
  "mask_list gm cfg = policy_list gm (pc_use_mask cfg) (pc_use_stable_mask cfg) (pc_package_use_mask_rules cfg)
     (pc_package_use_mask cfg) (pc_package_use_stable_mask_rules cfg)"

definition EffectiveUseForStability :: "atom_matcher \<Rightarrow> portage_config option \<Rightarrow> string \<Rightarrow> string \<Rightarrow> string \<Rightarrow> bool \<Rightarrow> bool gomap" where
  "EffectiveUseForStability gm config cpv slot repo is_stable =
     (case config of
        None \<Rightarrow> []
      | Some cfg \<Rightarrow>
          apply_policy False
            (apply_policy True
              (apply_changes (apply_changes [] (pc_use cfg)) (PackageUseFor gm cfg cpv slot repo))
              (force_list gm cfg cpv slot repo is_stable))
            (mask_list gm cfg cpv slot repo is_stable))"

definition flag_decision :: "string \<Rightarrow> bool \<Rightarrow> string \<Rightarrow> bool" where
  "flag_decision flag b change = (if TrimPrefix change ''-'' = flag then \<not> HasPrefix change ''-'' else b)"

definition UseMaskedFor :: "atom_matcher \<Rightarrow> portage_config \<Rightarrow> string \<Rightarrow> string \<Rightarrow> string \<Rightarrow> string \<Rightarrow> bool \<Rightarrow> bool" where
  "UseMaskedFor gm cfg cpv slot repo flag is_stable =
     foldl (flag_decision flag) False
       (pc_use_mask cfg @ (if is_stable then pc_use_stable_mask cfg else []) @
        packagePolicyChangesFor gm (pc_package_use_mask_rules cfg) cpv slot repo @
        (if is_stable then packagePolicyChangesFor gm (pc_package_use_stable_mask_rules cfg) cpv slot repo else []))"

definition UseForcedFor :: "atom_matcher \<Rightarrow> portage_config \<Rightarrow> string \<Rightarrow> string \<Rightarrow> string \<Rightarrow> string \<Rightarrow> bool \<Rightarrow> bool" where
  "UseForcedFor gm cfg cpv slot repo flag is_stable =
     foldl (flag_decision flag) False
       (pc_use_force cfg @ (if is_stable then pc_use_stable_force cfg else []) @
        packagePolicyChangesFor gm (pc_package_use_force_rules cfg) cpv slot repo @
        (if is_stable then packagePolicyChangesFor gm (pc_package_use_stable_force_rules cfg) cpv slot repo else []))"

definition mentions :: "string \<Rightarrow> string list \<Rightarrow> bool" where
  "mentions flag changes \<longleftrightarrow> list_ex (\<lambda>change. TrimPrefix change ''-'' = flag) changes"

definition ExplicitUseOverride ::
  "atom_matcher \<Rightarrow> portage_config option \<Rightarrow> string \<Rightarrow> string \<Rightarrow> string \<Rightarrow> string \<Rightarrow> bool \<Rightarrow> bool" where
  "ExplicitUseOverride gm config cpv slot repo flag is_stable =
     (case config of
        None \<Rightarrow> False
      | Some cfg \<Rightarrow>
          if flag = [] then False
          else if mentions flag (pc_user_use cfg) \<or> mentions flag (pc_command_use cfg) \<or>
              mentions flag (PackageUseFor gm cfg cpv slot repo) \<or> mentions flag (pc_use_force cfg) \<or> mentions flag (pc_use_mask cfg)
          then True
          else if is_stable \<and> (mentions flag (pc_use_stable_force cfg) \<or> mentions flag (pc_use_stable_mask cfg)) then True
          else mentions flag (packagePolicyChangesFor gm (pc_package_use_force_rules cfg) cpv slot repo) \<or>
            mentions flag (packagePolicyChangesFor gm (pc_package_use_mask_rules cfg) cpv slot repo) \<or>
            is_stable \<and> (mentions flag (packagePolicyChangesFor gm (pc_package_use_stable_force_rules cfg) cpv slot repo) \<or>
              mentions flag (packagePolicyChangesFor gm (pc_package_use_stable_mask_rules cfg) cpv slot repo)))"

subsection \<open>Masks, keywords and licenses of a package\<close>

definition no_mask :: mask_status where
  "no_mask = \<lparr>ms_masked = False, ms_atom = [], ms_source = [], ms_reason = []\<rparr>"

definition mask_by_rule :: "(string \<Rightarrow> bool) \<Rightarrow> mask_status \<Rightarrow> package_mask_rule \<Rightarrow> mask_status" where
  "mask_by_rule applies st rule =
     (if applies (mr_atom rule)
      then \<lparr>ms_masked = True, ms_atom = mr_atom rule, ms_source = mr_source rule, ms_reason = mr_reason rule\<rparr> else st)"

definition mask_by_entry :: "(string \<Rightarrow> bool) \<Rightarrow> mask_status \<Rightarrow> string \<Rightarrow> mask_status" where
  "mask_by_entry applies st entry =
     (if applies entry \<and> ms_atom st \<noteq> entry
      then \<lparr>ms_masked = True, ms_atom = entry, ms_source = ''package.mask'', ms_reason = []\<rparr> else st)"

definition unmask_by_entry :: "(string \<Rightarrow> bool) \<Rightarrow> mask_status \<Rightarrow> string \<Rightarrow> mask_status" where
  "unmask_by_entry applies st entry =
     (if applies entry then \<lparr>ms_masked = False, ms_atom = entry, ms_source = ''package.unmask'', ms_reason = []\<rparr> else st)"

definition PackageMaskStatus :: "atom_matcher \<Rightarrow> portage_config option \<Rightarrow> string \<Rightarrow> string \<Rightarrow> string \<Rightarrow> mask_status" where
  "PackageMaskStatus gm config cpv slot repo =
     (case config of
        None \<Rightarrow> no_mask
      | Some cfg \<Rightarrow>
          (let applies = (\<lambda>rule. PackageAtomMatches gm rule cpv slot repo) in
           foldl (unmask_by_entry applies)
             (foldl (mask_by_entry applies) (foldl (mask_by_rule applies) no_mask (pc_package_mask_rules cfg)) (pc_package_mask cfg))
             (pc_package_unmask cfg)))"

definition PackageAcceptKeywordsFor :: "atom_matcher \<Rightarrow> portage_config option \<Rightarrow> string \<Rightarrow> string \<Rightarrow> string \<Rightarrow> string \<Rightarrow> string list" where
  "PackageAcceptKeywordsFor gm config cpv slot repo arch =
     (case config of
        None \<Rightarrow> []
      | Some cfg \<Rightarrow>
          (let or_testing = (\<lambda>keywords. if keywords = [] then [CHR ''~'' # arch] else keywords) in
           if pc_package_accept_keyword_rules cfg = []
           then concat (map (\<lambda>(rule, keywords). if PackageAtomMatches gm rule cpv slot repo then or_testing (splitShWords keywords) else [])
             (pc_package_accept_keywords cfg))
           else concat (map (\<lambda>rule. if PackageAtomMatches gm (pr_atom rule) cpv slot repo then or_testing (pr_flags rule) else [])
             (pc_package_accept_keyword_rules cfg))))"

definition EffectiveAcceptedKeywordsFor :: "atom_matcher \<Rightarrow> portage_config option \<Rightarrow> string \<Rightarrow> string \<Rightarrow> string \<Rightarrow> string \<Rightarrow> string list" where
  "EffectiveAcceptedKeywordsFor gm config cpv slot repo arch =
     (case config of
        None \<Rightarrow> []
      | Some cfg \<Rightarrow> applyOrderedChanges (applyOrderedChanges [arch] (pc_accept_keywords cfg))
          (PackageAcceptKeywordsFor gm config cpv slot repo arch))"

type_synonym visibility_test =
  "(string \<times> bool) list \<Rightarrow> (string \<times> string list) list \<Rightarrow> string \<Rightarrow> string \<Rightarrow> string \<Rightarrow> string \<Rightarrow> string \<Rightarrow> string list \<Rightarrow> bool"

definition KeywordAcceptedFor ::
  "visibility_test \<Rightarrow> portage_config option \<Rightarrow> string \<Rightarrow> string \<Rightarrow> string \<Rightarrow> string \<Rightarrow> string \<Rightarrow> bool" where
  \<comment> \<open>\<open>visible\<close> is \<^verbatim>\<open>gentooling\<close>'s test of a candidate it can parse, on the keyword changes, the package rules and ARCH\<close>
  "KeywordAcceptedFor visible config cpv slot repo keywords arch =
     (case config of
        None \<Rightarrow> True
      | Some cfg \<Rightarrow>
          (let (candidateSlot, candidateSubslot) = (case Cut slot CHR ''/'' of None \<Rightarrow> (slot, []) | Some parts \<Rightarrow> parts);
               accepted = map (\<lambda>raw. (TrimPrefix raw ''-'', \<not> HasPrefix raw ''-'')) (pc_accept_keywords cfg);
               rules = (if pc_package_accept_keyword_rules cfg = []
                 then map (\<lambda>(name, keywords). (name, splitShWords keywords)) (pc_package_accept_keywords cfg)
                 else map (\<lambda>rule. (pr_atom rule, pr_flags rule)) (pc_package_accept_keyword_rules cfg))
           in visible accepted rules arch cpv candidateSlot candidateSubslot repo (Fields keywords)))"

definition PackageLicensesFor :: "atom_matcher \<Rightarrow> portage_config option \<Rightarrow> string \<Rightarrow> string \<Rightarrow> string \<Rightarrow> string list" where
  "PackageLicensesFor gm config cpv slot repo =
     (case config of
        None \<Rightarrow> []
      | Some cfg \<Rightarrow>
          if pc_package_license_rules cfg = []
          then concat (map (\<lambda>(rule, licenses). if PackageAtomMatches gm rule cpv slot repo then splitShWords licenses else [])
            (pc_package_license cfg))
          else packagePolicyChangesFor gm (pc_package_license_rules cfg) cpv slot repo)"

primrec portage_expand :: "nat \<Rightarrow> string list gomap \<Rightarrow> string list \<Rightarrow> string \<Rightarrow> string list" where
  \<comment> \<open>the closure \<^verbatim>\<open>expand\<close> of \<^verbatim>\<open>ExpandLicenseGroups\<close>\<close>
  "portage_expand 0 groups stack entry = [entry]"
| "portage_expand (Suc fuel) groups stack entry =
     (let name = TrimPrefix entry ''-'' in
      if \<not> HasPrefix name ''@'' then [entry]
      else let group = TrimPrefix name ''@'' in
        case map_of groups group of
          None \<Rightarrow> [entry]
        | Some members \<Rightarrow>
            if group \<in> set stack then [entry]
            else concat (map (\<lambda>member. portage_expand fuel groups (group # stack)
              (if HasPrefix entry ''-'' \<and> \<not> HasPrefix member ''-'' then CHR ''-'' # member else member)) members))"

definition ExpandLicenseGroups :: "string list \<Rightarrow> string list gomap \<Rightarrow> string list" where
  "ExpandLicenseGroups values groups = concat (map (portage_expand (length groups + 1) groups []) values)"

subsection \<open>The layers of the USE flags\<close>

lemma trim_minus: "TrimPrefix c ''-'' = x \<longleftrightarrow> c = CHR ''-'' # x \<or> c = x \<and> \<not> HasPrefix c ''-''"
  by (cases c) (auto simp: TrimPrefix_def)

lemma applyOrderedChange_member: "x \<in> set (applyOrderedChange items change) \<longleftrightarrow> change_decides x (x \<in> set items) change"
  by (auto simp: applyOrderedChange_def change_decides_def HasPrefix_iff TrimPrefix_def Let_def)

lemma applyOrderedChanges_member:
  "x \<in> set (applyOrderedChanges previous changes) \<longleftrightarrow> foldl (change_decides x) (x \<in> set previous) changes"
  unfolding applyOrderedChanges_def
  by (induction changes arbitrary: previous) (simp_all add: applyOrderedChange_member)

lemma applyOrderedChanges_append:
  "applyOrderedChanges (applyOrderedChanges previous xs) ys = applyOrderedChanges previous (xs @ ys)"
  by (simp add: applyOrderedChanges_def)

definition last_setting :: "string \<Rightarrow> string list \<Rightarrow> bool option" where
  \<comment> \<open>what the last change that names a flag makes of it\<close>
  "last_setting flag changes =
     (let cs = filter (\<lambda>c. TrimPrefix c ''-'' = flag) changes in if cs = [] then None else Some (\<not> HasPrefix (last cs) ''-''))"

lemma last_setting_snoc:
  "last_setting flag (changes @ [c]) =
     (if TrimPrefix c ''-'' = flag then Some (\<not> HasPrefix c ''-'') else last_setting flag changes)"
  by (simp add: last_setting_def)

lemma apply_changes_lookup:
  assumes "flag \<noteq> []"
  shows "map_of (apply_changes m changes) flag = (case last_setting flag changes of None \<Rightarrow> map_of m flag | Some b \<Rightarrow> Some b)"
proof (induction changes rule: rev_induct)
  case Nil
  then show ?case by (simp add: apply_changes_def last_setting_def)
next
  case (snoc c changes)
  have "apply_changes m (changes @ [c]) =
    (if TrimPrefix c ''-'' = [] then apply_changes m changes
     else map_put (TrimPrefix c ''-'') (\<not> HasPrefix c ''-'') (apply_changes m changes))"
    by (simp add: apply_changes_def Let_def)
  then show ?case using snoc assms by (simp add: last_setting_snoc)
qed

lemma apply_policy_lookup:
  assumes "flag \<noteq> []"
  shows "map_of (apply_policy enabled m changes) flag = (if mentions flag changes then Some enabled else map_of m flag)"
  using assms by (induction changes arbitrary: m) (auto simp: apply_policy_def mentions_def Let_def)

lemma effective_use_lookup:
  assumes "flag \<noteq> []"
  shows "map_of (EffectiveUseForStability gm (Some cfg) cpv slot repo st) flag =
    (if mentions flag (mask_list gm cfg cpv slot repo st) then Some False
     else if mentions flag (force_list gm cfg cpv slot repo st) then Some True
     else last_setting flag (pc_use cfg @ PackageUseFor gm cfg cpv slot repo))"
proof -
  have "apply_changes (apply_changes [] xs) ys = apply_changes [] (xs @ ys)" for xs ys by (simp add: apply_changes_def)
  then show ?thesis
    using assms by (simp add: EffectiveUseForStability_def apply_policy_lookup apply_changes_lookup split: option.splits)
qed

definition positive :: "string list \<Rightarrow> bool" where
  \<comment> \<open>a list that has been reduced: no removals left\<close>
  "positive changes \<longleftrightarrow> list_all (\<lambda>c. \<not> HasPrefix c ''-'') changes"

definition reset_free :: "string list \<Rightarrow> bool" where
  "reset_free changes \<longleftrightarrow> ''-*'' \<notin> set changes"

lemma positive_applyOrderedChanges: "positive previous \<Longrightarrow> positive (applyOrderedChanges previous changes)"
  unfolding applyOrderedChanges_def
proof (induction changes arbitrary: previous)
  case (Cons c changes)
  have "positive (applyOrderedChange previous c)"
    using Cons.prems by (auto simp: positive_def applyOrderedChange_def list_all_iff Let_def)
  then show ?case using Cons.IH by simp
qed simp

lemma mentions_positive: "positive changes \<Longrightarrow> mentions flag changes \<longleftrightarrow> flag \<in> set changes"
  by (auto simp: positive_def mentions_def list_all_iff list_ex_iff trim_minus)

lemma decision_change: "change \<noteq> ''-*'' \<Longrightarrow> change_decides flag b change = flag_decision flag b change"
  by (auto simp: change_decides_def flag_decision_def trim_minus)

lemma decision_changes: "reset_free changes \<Longrightarrow> foldl (change_decides flag) b changes = foldl (flag_decision flag) b changes"
proof (induction changes arbitrary: b)
  case (Cons c changes)
  then have "change_decides flag b c = flag_decision flag b c" by (intro decision_change) (auto simp: reset_free_def)
  then show ?case using Cons by (simp add: reset_free_def)
qed simp

lemma decision_positive: "positive base \<Longrightarrow> foldl (change_decides flag) b base \<longleftrightarrow> b \<or> flag \<in> set base"
proof (induction base arbitrary: b)
  case (Cons c base)
  then have "change_decides flag b c \<longleftrightarrow> b \<or> c = flag" by (auto simp: positive_def change_decides_def)
  then show ?case using Cons by (auto simp: positive_def)
qed simp

lemma policy_list_member:
  assumes "positive base" "packagePolicyChangesFor gm rules cpv slot repo = [] \<Longrightarrow> slice_at table (candidate_cp cpv) = []"
  shows "mentions flag (policy_list gm base stable_base rules table stable_rules cpv slot repo st) \<longleftrightarrow>
    foldl (change_decides flag) False (base @ (if st then stable_base else []) @ packagePolicyChangesFor gm rules cpv slot repo @
      (if st then packagePolicyChangesFor gm stable_rules cpv slot repo else []))"
proof -
  let ?changes = "(if st then stable_base else []) @ packagePolicyChangesFor gm rules cpv slot repo @
    (if st then packagePolicyChangesFor gm stable_rules cpv slot repo else [])"
  have "policy_list gm base stable_base rules table stable_rules cpv slot repo st = applyOrderedChanges base ?changes"
    using assms(2) by (simp add: policy_list_def Let_def applyOrderedChanges_append)
  then show ?thesis
    using mentions_positive [OF positive_applyOrderedChanges [OF assms(1)], of flag ?changes] decision_positive [OF assms(1), of flag False]
    by (simp add: applyOrderedChanges_member)
qed

lemma profile_rules [simp]: "profilePackageRules rules = rules"
proof -
  have "(\<lambda>rule. \<lparr>pr_atom = pr_atom rule, pr_flags = pr_flags rule\<rparr>) = id" by (rule ext) simp
  then show ?thesis by (simp add: profilePackageRules_def)
qed

lemma rule_map_empty:
  assumes "\<And>rule. rule \<in> set rules \<Longrightarrow> pr_atom rule = name \<Longrightarrow> pr_flags rule = []"
  shows "slice_at (profileRuleMap rules) name = []"
proof -
  have "slice_at m name = [] \<Longrightarrow>
      slice_at (foldl (\<lambda>m rule. map_put (pr_atom rule) (applyOrderedChanges (slice_at m (pr_atom rule)) (pr_flags rule)) m) m rules) name = []" for m
    using assms
  proof (induction rules arbitrary: m)
    case (Cons rule rules)
    have "slice_at (map_put (pr_atom rule) (applyOrderedChanges (slice_at m (pr_atom rule)) (pr_flags rule)) m) name = []"
      using Cons.prems by (auto simp: slice_at_def applyOrderedChanges_def)
    then show ?case using Cons by simp
  qed simp
  then show ?thesis by (simp add: profileRuleMap_def slice_at_def)
qed

lemma table_follows_rules:
  assumes "PackageAtomMatches gm (candidate_cp cpv) cpv slot repo" "packagePolicyChangesFor gm rules cpv slot repo = []"
  shows "slice_at (profileRuleMap rules) (candidate_cp cpv) = []"
  by (rule rule_map_empty) (use assms in \<open>auto simp: packagePolicyChangesFor_def\<close>)

definition policy_changes ::
  "atom_matcher \<Rightarrow> string list \<Rightarrow> string list \<Rightarrow> package_use_rule list \<Rightarrow> package_use_rule list \<Rightarrow> string \<Rightarrow> string \<Rightarrow> string \<Rightarrow> bool \<Rightarrow> string list" where
  \<comment> \<open>the layers of a flag policy in their order: global, stable, the rules of the package and its stable rules\<close>
  "policy_changes gm base stable_base rules stable_rules cpv slot repo is_stable =
     base @ (if is_stable then stable_base else []) @ packagePolicyChangesFor gm rules cpv slot repo @
     (if is_stable then packagePolicyChangesFor gm stable_rules cpv slot repo else [])"

definition mask_changes :: "atom_matcher \<Rightarrow> profile_info \<Rightarrow> string \<Rightarrow> string \<Rightarrow> string \<Rightarrow> bool \<Rightarrow> string list" where
  "mask_changes gm info = policy_changes gm (pi_use_mask info) (pi_use_stable_mask info) (pi_package_use_mask info) (pi_package_use_stable_mask info)"

definition force_changes :: "atom_matcher \<Rightarrow> profile_info \<Rightarrow> string \<Rightarrow> string \<Rightarrow> string \<Rightarrow> bool \<Rightarrow> string list" where
  "force_changes gm info = policy_changes gm (pi_use_force info) (pi_use_stable_force info) (pi_package_use_force info) (pi_package_use_stable_force info)"

definition in_effect :: "string \<Rightarrow> string list \<Rightarrow> bool" where
  \<comment> \<open>a flag is in force after a list of changes: \<^verbatim>\<open>-*\<close> removes all flags, \<^verbatim>\<open>-f\<close> one, and \<^verbatim>\<open>f\<close> adds it\<close>
  "in_effect flag changes = foldl (change_decides flag) False changes"

lemma loaded_lists:
  assumes "positive (pi_use_mask info)" "positive (pi_use_force info)" "PackageAtomMatches gm (candidate_cp cpv) cpv slot repo"
  shows "mentions flag (mask_list gm (load_profile_policy info cfg) cpv slot repo st) \<longleftrightarrow> in_effect flag (mask_changes gm info cpv slot repo st)"
    and "mentions flag (force_list gm (load_profile_policy info cfg) cpv slot repo st) \<longleftrightarrow> in_effect flag (force_changes gm info cpv slot repo st)"
proof -
  note layers = policy_list_member [OF _ table_follows_rules [OF assms(3)]]
  show "mentions flag (mask_list gm (load_profile_policy info cfg) cpv slot repo st) \<longleftrightarrow> in_effect flag (mask_changes gm info cpv slot repo st)"
    using layers [OF assms(1)] unfolding mask_list_def in_effect_def mask_changes_def policy_changes_def load_profile_policy_def by simp
  show "mentions flag (force_list gm (load_profile_policy info cfg) cpv slot repo st) \<longleftrightarrow> in_effect flag (force_changes gm info cpv slot repo st)"
    using layers [OF assms(2)] unfolding force_list_def in_effect_def force_changes_def policy_changes_def load_profile_policy_def by simp
qed

lemma loaded_reports:
  "reset_free (mask_changes gm info cpv slot repo st) \<Longrightarrow>
     UseMaskedFor gm (load_profile_policy info cfg) cpv slot repo flag st \<longleftrightarrow> in_effect flag (mask_changes gm info cpv slot repo st)"
  "reset_free (force_changes gm info cpv slot repo st) \<Longrightarrow>
     UseForcedFor gm (load_profile_policy info cfg) cpv slot repo flag st \<longleftrightarrow> in_effect flag (force_changes gm info cpv slot repo st)"
  using decision_changes [of "mask_changes gm info cpv slot repo st" flag False] decision_changes [of "force_changes gm info cpv slot repo st" flag False]
  by (simp_all add: UseMaskedFor_def UseForcedFor_def in_effect_def mask_changes_def force_changes_def policy_changes_def load_profile_policy_def)

text \<open>
  Claim C20: The effective USE flags of a package version under the flag policy of a loaded profile, whose global mask and force lists \<^verbatim>\<open>gentooling\<close> has reduced to flags
  and whose rules for a plain package name match its versions. A flag is off if the mask layers (global, stable, those of the package, its stable ones) leave it masked, else
  on if the force layers leave it forced, and else what the last change of the global USE and then the package's own changes make of it, or absent if none names it; in a layer
  \<^verbatim>\<open>-*\<close> drops what was masked or forced so far. Where no layer has \<^verbatim>\<open>-*\<close>, this is what \<^verbatim>\<open>UseMaskedFor\<close> and \<^verbatim>\<open>UseForcedFor\<close> report.
\<close>

theorem effective_use_policy:
  fixes base :: portage_config
  assumes "flag \<noteq> []" "positive (pi_use_mask info)" "positive (pi_use_force info)" "PackageAtomMatches gm (candidate_cp cpv) cpv slot repo"
  defines "cfg \<equiv> load_profile_policy info base"
  shows "map_of (EffectiveUseForStability gm (Some cfg) cpv slot repo st) flag =
      (if in_effect flag (mask_changes gm info cpv slot repo st) then Some False
       else if in_effect flag (force_changes gm info cpv slot repo st) then Some True
       else last_setting flag (pc_use cfg @ PackageUseFor gm cfg cpv slot repo)) \<and>
    (reset_free (mask_changes gm info cpv slot repo st) \<longrightarrow>
       UseMaskedFor gm cfg cpv slot repo flag st = in_effect flag (mask_changes gm info cpv slot repo st)) \<and>
    (reset_free (force_changes gm info cpv slot repo st) \<longrightarrow>
       UseForcedFor gm cfg cpv slot repo flag st = in_effect flag (force_changes gm info cpv slot repo st))"
  using loaded_reports [of gm info cpv slot repo st base flag] loaded_lists [OF assms(2-4), of flag base st]
  by (simp add: effective_use_lookup [OF assms(1)] cfg_def)

definition empty_config :: portage_config where
  "empty_config =
     \<lparr>pc_make_conf = [], pc_use = [], pc_user_use = [], pc_command_use = [], pc_accept_keywords = [], pc_package_use = [],
      pc_package_use_rules = [], pc_package_accept_keywords = [], pc_package_accept_keyword_rules = [], pc_package_license = [],
      pc_package_license_rules = [], pc_package_mask = [], pc_package_mask_rules = [], pc_package_unmask = [], pc_use_force = [],
      pc_use_mask = [], pc_use_stable_force = [], pc_use_stable_mask = [], pc_package_use_force = [], pc_package_use_mask = [],
      pc_package_use_force_rules = [], pc_package_use_mask_rules = [], pc_package_use_stable_force_rules = [],
      pc_package_use_stable_mask_rules = [], pc_use_expand = [], pc_use_expand_implicit = []\<rparr>"

definition empty_profile :: profile_info where
  "empty_profile =
     \<lparr>pi_use_force = [], pi_use_mask = [], pi_use_stable_force = [], pi_use_stable_mask = [], pi_package_use_force = [], pi_package_use_mask = [],
      pi_package_use_stable_force = [], pi_package_use_stable_mask = [], pi_package_use = []\<rparr>"

definition prefix_matcher :: atom_matcher where
  "prefix_matcher rule cpv slot subslot repo = HasPrefix cpv rule"

definition example_profile :: profile_info where
  \<comment> \<open>two forced flags, one of which a plain rule masks for a package\<close>
  "example_profile = empty_profile\<lparr>pi_use_force := [''y'', ''z''], pi_package_use_mask := [\<lparr>pr_atom = ''a/b'', pr_flags = [''z'']\<rparr>]\<rparr>"

theorem effective_use_policy_witness:
  "let cfg = load_profile_policy example_profile (empty_config\<lparr>pc_use := [''x'', ''-y'']\<rparr>);
       use = EffectiveUseForStability prefix_matcher (Some cfg) ''a/b-1'' ''0'' [] False
   in map_of (pc_package_use_mask cfg) ''a/b'' = Some [''z''] \<and> map_of use ''x'' = Some True \<and> map_of use ''y'' = Some True \<and>
      map_of use ''z'' = Some False \<and> UseMaskedFor prefix_matcher cfg ''a/b-1'' ''0'' [] ''z'' False"
proof -
  let ?base = "empty_config\<lparr>pc_use := [''x'', ''-y'']\<rparr>"
  have hyps: "positive (pi_use_mask example_profile)" "positive (pi_use_force example_profile)"
    "PackageAtomMatches prefix_matcher (candidate_cp ''a/b-1'') ''a/b-1'' ''0'' []" by code_simp+
  have changes: "mask_changes prefix_matcher example_profile ''a/b-1'' ''0'' [] False = [''z'']"
    "force_changes prefix_matcher example_profile ''a/b-1'' ''0'' [] False = [''y'', ''z'']" by code_simp+
  have decided: "in_effect ''z'' [''z'']" "\<not> in_effect ''y'' [''z'']" "in_effect ''y'' [''y'', ''z'']" "\<not> in_effect ''x'' [''z'']" "\<not> in_effect ''x'' [''y'', ''z'']"
    "reset_free [''z'']" by code_simp+
  have last: "last_setting ''x'' (pc_use (load_profile_policy example_profile ?base) @
      PackageUseFor prefix_matcher (load_profile_policy example_profile ?base) ''a/b-1'' ''0'' []) = Some True"
    and table: "map_of (pc_package_use_mask (load_profile_policy example_profile ?base)) ''a/b'' = Some [''z'']" by code_simp+
  note use = effective_use_policy [OF _ hyps, of _ ?base False]
  show ?thesis using use [of "''x''"] use [of "''y''"] use [of "''z''"] by (simp add: Let_def changes decided last table)
qed

text \<open>
  The reports and the effective flags disagree after a reset: a package rule \<^verbatim>\<open>-*\<close> lifts a mask, so that the flag is
  on, but \<^verbatim>\<open>UseMaskedFor\<close> still reports it as masked.
\<close>

lemma reset_not_reported:
  "let cfg = load_profile_policy (empty_profile\<lparr>pi_use_mask := [''x''], pi_package_use_mask := [\<lparr>pr_atom = ''a/b'', pr_flags = [''-*'']\<rparr>]\<rparr>)
         (empty_config\<lparr>pc_use := [''x'']\<rparr>)
   in map_of (EffectiveUseForStability prefix_matcher (Some cfg) ''a/b-1'' ''0'' [] False) ''x'' = Some True \<and>
      UseMaskedFor prefix_matcher cfg ''a/b-1'' ''0'' [] ''x'' False"
  by code_simp

subsection \<open>License groups\<close>

lemma portage_expand_eq: "portage_expand n groups stack entry = expand n groups stack entry"
proof (induction n arbitrary: stack entry)
  case (Suc n)
  have "(if HasPrefix entry ''-'' \<and> \<not> HasPrefix member ''-'' then CHR ''-'' # member else member) = signed_member entry member" for member
    by (simp add: signed_member_def)
  then show ?case by (simp add: Suc Let_def license_name_def license_group_def split: option.split)
qed simp

text \<open>
  The configuration and the plan validator, which were written independently, expand license groups in the same way,
  nested, negated, unknown and cyclic groups included.
\<close>

theorem license_group_expansions_agree: "ExpandLicenseGroups values groups = expandLicenseGroups values groups"
  unfolding ExpandLicenseGroups_def expandLicenseGroups_def portage_expand_eq ..

subsection \<open>Incremental values\<close>

definition table_ok :: "string list \<times> 'v gomap \<Rightarrow> bool" where
  "table_ok st \<longleftrightarrow> distinct (fst st) \<and> (\<forall>name. name \<in> set (fst st) \<longleftrightarrow> map_of (snd st) name \<noteq> None)"

lemma table_ok_empty [simp]: "table_ok ([], [])"
  by (simp add: table_ok_def)

lemma table_ok_put: "table_ok st \<Longrightarrow> table_ok (ordered_put name v st)"
  by (cases st) (auto simp: table_ok_def ordered_put_def)

lemma ordered_put_lookup [simp]: "map_of (snd (ordered_put name v st)) = (map_of (snd st))(name \<mapsto> v)"
  by (cases st) (simp add: ordered_put_def)

text \<open>Global USE flags: a mask wins over a forced flag, which wins over the last setting.\<close>

lemma set_flag_ok: "table_ok st \<Longrightarrow> table_ok (set_flag st raw b)"
  by (simp add: set_flag_def Let_def table_ok_put)

lemma set_flag_lookup:
  "map_of (snd (set_flag st raw b)) flag = (if flag \<noteq> [] \<and> TrimPrefix raw ''-'' = flag then Some b else map_of (snd st) flag)"
  by (auto simp: set_flag_def Let_def)

lemma set_flags_lookup:
  assumes "flag \<noteq> []"
  shows "map_of (snd (foldl (\<lambda>st raw. set_flag st raw b) st changes)) flag =
    (if mentions flag changes then Some b else map_of (snd st) flag)"
  using assms by (induction changes arbitrary: st) (auto simp: mentions_def set_flag_lookup)

lemma set_use_lookup:
  assumes "flag \<noteq> []"
  shows "map_of (snd (foldl (\<lambda>st raw. set_flag st raw (\<not> HasPrefix raw ''-'')) st changes)) flag =
    (case last_setting flag changes of None \<Rightarrow> map_of (snd st) flag | Some b \<Rightarrow> Some b)"
proof (induction changes rule: rev_induct)
  case (snoc c changes)
  then show ?case using assms by (simp add: set_flag_lookup last_setting_snoc)
qed (simp add: last_setting_def)

lemma global_state_ok: "table_ok (global_state use force masks)"
proof -
  have "table_ok st \<Longrightarrow> table_ok (foldl (\<lambda>st raw. set_flag st raw (f raw)) st changes)" for f changes and st :: "string list \<times> bool gomap"
    by (induction changes arbitrary: st) (simp_all add: set_flag_ok)
  then show ?thesis by (simp add: global_state_def)
qed

lemma global_state_nonempty: "[] \<notin> set (fst (global_state use force masks))"
proof -
  have "map_of (snd (foldl (\<lambda>st raw. set_flag st raw (f raw)) st changes)) [] = map_of (snd st) []" for f changes and st :: "string list \<times> bool gomap"
    by (induction changes arbitrary: st) (simp_all add: set_flag_lookup)
  then have "map_of (snd (global_state use force masks)) [] = None" by (simp add: global_state_def)
  then show ?thesis using global_state_ok [of use force masks] by (simp add: table_ok_def)
qed

definition global_setting :: "string list \<Rightarrow> string list \<Rightarrow> string list \<Rightarrow> string \<Rightarrow> bool option" where
  "global_setting use force masks flag =
     (if mentions flag masks then Some False else if mentions flag force then Some True else last_setting flag use)"

lemma global_state_lookup:
  "flag \<noteq> [] \<Longrightarrow> map_of (snd (global_state use force masks)) flag = global_setting use force masks flag"
  by (simp add: global_state_def set_flags_lookup set_use_lookup global_setting_def split: option.split)

text \<open>
  \<^verbatim>\<open>applyEffectiveGlobalUse\<close> lists every flag that USE, the forced or the masked flags name exactly once, as off if it is
  masked, else as on if it is forced, else as its last setting in USE says.
\<close>

theorem global_use_exact:
  "\<exists>order. distinct order \<and> (\<forall>flag. flag \<in> set order \<longleftrightarrow> flag \<noteq> [] \<and> global_setting use force masks flag \<noteq> None) \<and>
     applyEffectiveGlobalUse use force masks =
       map (\<lambda>flag. if global_setting use force masks flag = Some True then flag else CHR ''-'' # flag) order"
proof -
  let ?st = "global_state use force masks"
  have ok: "table_ok ?st" and nonempty: "[] \<notin> set (fst ?st)" by (rule global_state_ok) (rule global_state_nonempty)
  have "\<forall>flag. flag \<in> set (fst ?st) \<longleftrightarrow> flag \<noteq> [] \<and> global_setting use force masks flag \<noteq> None"
    using ok nonempty global_state_lookup [of _ use force masks] unfolding table_ok_def by metis
  moreover have "applyEffectiveGlobalUse use force masks =
      map (\<lambda>flag. if global_setting use force masks flag = Some True then flag else CHR ''-'' # flag) (fst ?st)"
  proof -
    have "applyEffectiveGlobalUse use force masks =
        map (\<lambda>flag. if map_of (snd ?st) flag = Some True then flag else CHR ''-'' # flag) (fst ?st)"
      by (simp add: applyEffectiveGlobalUse_def split_beta)
    moreover have "map_of (snd ?st) flag = global_setting use force masks flag" if "flag \<in> set (fst ?st)" for flag
      using that nonempty by (intro global_state_lookup) auto
    ultimately show ?thesis by simp
  qed
  ultimately show ?thesis using ok by (auto simp: table_ok_def)
qed

text \<open>Incremental variables: of the tokens after the last reset, the last one for each name remains.\<close>

definition live_tokens :: "string list \<Rightarrow> string list" where
  "live_tokens tokens = filter (\<lambda>t. TrimPrefix t ''-'' \<noteq> []) (after_reset tokens)"

definition last_token :: "string list \<Rightarrow> string \<Rightarrow> string option" where
  "last_token tokens name =
     (let ts = filter (\<lambda>t. TrimPrefix t ''-'' = name) (live_tokens tokens) in if ts = [] then None else Some (last ts))"

lemma last_token_snoc:
  "last_token (ts @ [t]) name =
     (if t = ''-*'' then None else if TrimPrefix t ''-'' = name \<and> name \<noteq> [] then Some t else last_token ts name)"
  by (auto simp: last_token_def live_tokens_def after_reset_snoc Let_def)

lemma merge_tokens:
  "table_ok (foldl merge_token ([], []) ts) \<and> map_of (snd (foldl merge_token ([], []) ts)) = last_token ts"
proof (induction ts rule: rev_induct)
  case Nil
  show ?case by (auto simp: last_token_def live_tokens_def after_reset_def)
next
  case (snoc t ts)
  then show ?case by (auto simp: merge_token_def Let_def table_ok_put last_token_snoc)
qed

lemma merge_result_eq:
  "\<exists>order. distinct order \<and> (\<forall>name. name \<in> set order \<longleftrightarrow> last_token ts name \<noteq> None) \<and>
     merge_result (foldl merge_token ([], []) ts) = map (\<lambda>name. the (last_token ts name)) order"
proof -
  let ?st = "foldl merge_token ([], []) ts"
  have "merge_result ?st = map (\<lambda>name. case last_token ts name of None \<Rightarrow> [] | Some t \<Rightarrow> t) (fst ?st)"
    using merge_tokens [of ts] by (simp add: merge_result_def split_beta)
  moreover have "\<forall>name \<in> set (fst ?st). last_token ts name \<noteq> None" using merge_tokens [of ts] by (simp add: table_ok_def)
  ultimately have "merge_result ?st = map (\<lambda>name. the (last_token ts name)) (fst ?st)" by auto
  then show ?thesis using merge_tokens [of ts] by (intro exI [of _ "fst ?st"]) (simp add: table_ok_def)
qed

text \<open>Words without quotes survive joining and splitting.\<close>

definition plain_char :: "char \<Rightarrow> bool" where
  "plain_char c \<longleftrightarrow> c \<noteq> CHR 0x27 \<and> c \<noteq> CHR 0x22 \<and> c \<noteq> CHR 0x0B \<and> c \<noteq> CHR 0x0C"

definition plain_word :: "string \<Rightarrow> bool" where
  "plain_word w \<longleftrightarrow> w \<noteq> [] \<and> (\<forall>c \<in> set w. plain_char c \<and> \<not> ascii_space c)"

lemma ascii_space_cases:
  "ascii_space c \<longleftrightarrow> c \<in> {CHR '' '', CHR 0x09, CHR 0x0A, CHR 0x0B, CHR 0x0C, CHR 0x0D}"
proof -
  have "c \<in> {CHR '' '', CHR 0x09, CHR 0x0A, CHR 0x0B, CHR 0x0C, CHR 0x0D} \<longleftrightarrow> code c \<in> code ` {CHR '' '', CHR 0x09, CHR 0x0A, CHR 0x0B, CHR 0x0C, CHR 0x0D}"
    by (auto simp: image_iff)
  also have "code ` {CHR '' '', CHR 0x09, CHR 0x0A, CHR 0x0B, CHR 0x0C, CHR 0x0D} = {32, 9, 10, 11, 12, 13}"
    by (simp add: code_def)
  finally show ?thesis by (auto simp: ascii_space_def)
qed

lemma sh_words_plain:
  assumes "\<forall>c \<in> set w. plain_char c \<and> \<not> ascii_space c"
  shows "sh_words Unquoted acc (w @ s) = sh_words Unquoted (rev w @ acc) s"
  using assms
proof (induction w arbitrary: acc)
  case (Cons c w)
  then have "c \<noteq> CHR 0x27" "c \<noteq> CHR 0x22" "c \<notin> {CHR '' '', CHR 0x09, CHR 0x0A, CHR 0x0D}"
    by (auto simp: plain_char_def ascii_space_cases)
  then show ?case using Cons by simp
qed simp

lemma sh_words_join: "list_all plain_word ws \<Longrightarrow> sh_words Unquoted [] (join_with '' '' ws) = ws"
proof (induction ws rule: induct_list012)
  case (2 w)
  then show ?case using sh_words_plain [of w "[]" "[]"] by (simp add: plain_word_def)
next
  case (3 w v ws)
  then have "sh_words Unquoted [] (w @ '' '' @ join_with '' '' (v # ws)) = w # sh_words Unquoted [] (join_with '' '' (v # ws))"
    using sh_words_plain [of w "[]" "'' '' @ join_with '' '' (v # ws)"] by (simp add: plain_word_def)
  then show ?case using 3 by simp
qed simp

lemma join_plain_ends:
  assumes "list_all plain_word ws" "ws \<noteq> []"
  shows "join_with '' '' ws \<noteq> [] \<and> hd (join_with '' '' ws) = hd (hd ws) \<and> last (join_with '' '' ws) = last (last ws)"
  using assms by (induction ws rule: induct_list012) (auto simp: plain_word_def)

lemma splitShWords_join:
  assumes "list_all plain_word ws"
  shows "splitShWords (join_with '' '' ws) = ws"
proof -
  have "TrimSpace (join_with '' '' ws) = join_with '' '' ws"
  proof (cases "ws = []")
    case False
    then have "plain_word (hd ws)" "plain_word (last ws)" using assms by (auto simp: list_all_iff)
    then have "\<not> ascii_space (hd (hd ws))" "\<not> ascii_space (last (last ws))" by (auto simp: plain_word_def)
    then show ?thesis using join_plain_ends [OF assms False] by (intro TrimSpace_id) simp
  qed (simp add: TrimSpace_def)
  then show ?thesis using sh_words_join [OF assms] by (simp add: splitShWords_def)
qed

lemma sh_words_are_plain:
  assumes "\<forall>c \<in> set s. plain_char c" "\<forall>c \<in> set acc. plain_char c \<and> \<not> ascii_space c"
  shows "list_all plain_word (sh_words Unquoted acc s)"
  using assms
proof (induction s arbitrary: acc)
  case Nil
  then show ?case by (simp add: plain_word_def)
next
  case (Cons c s)
  have c: "c \<noteq> CHR 0x27" "c \<noteq> CHR 0x22" "plain_char c" using Cons.prems(1) by (auto simp: plain_char_def)
  show ?case
  proof (cases "ascii_space c")
    case True
    then have "c \<in> {CHR '' '', CHR 0x09, CHR 0x0A, CHR 0x0D}" using c(3) by (auto simp: ascii_space_cases plain_char_def)
    then have "sh_words Unquoted acc (c # s) = (if acc = [] then [] else [rev acc]) @ sh_words Unquoted [] s" by auto
    moreover have "list_all plain_word (sh_words Unquoted [] s)" using Cons by simp
    moreover have "acc \<noteq> [] \<Longrightarrow> plain_word (rev acc)" using Cons.prems(2) by (simp add: plain_word_def)
    ultimately show ?thesis by simp
  next
    case False
    then have "c \<notin> {CHR '' '', CHR 0x09, CHR 0x0A, CHR 0x0D}" by (auto simp: ascii_space_cases)
    then show ?thesis using Cons.IH [of "c # acc"] Cons.prems c False by simp
  qed
qed

lemma splitShWords_plain: "\<forall>c \<in> set s. plain_char c \<Longrightarrow> list_all plain_word (splitShWords s)"
  unfolding splitShWords_def using TrimSpace_set [of s] by (intro sh_words_are_plain) auto

lemma last_token_in: "last_token ts name = Some t \<Longrightarrow> t \<in> set ts \<and> TrimPrefix t ''-'' = name"
proof -
  assume a: "last_token ts name = Some t"
  let ?us = "filter (\<lambda>t. TrimPrefix t ''-'' = name) (live_tokens ts)"
  have "?us \<noteq> []" "last ?us = t" using a by (auto simp: last_token_def Let_def split: if_splits)
  then have "t \<in> set ?us" using last_in_set by blast
  moreover have "set (after_reset ts) \<subseteq> set ts" using set_takeWhileD unfolding after_reset_def by fastforce
  ultimately show ?thesis by (auto simp: live_tokens_def)
qed

text \<open>
  Claim C31: Merging an incremental variable, such as USE or FEATURES, keeps for every name that occurs after the last reset
  \<^verbatim>\<open>-*\<close> exactly one word, the last one that sets or removes the name, whatever was in force before, and joins these words with blanks. If neither value
  has a quote, a vertical tab or a form feed, the words of the result are the same when it is read back; a quoted word with a blank is read back as several
  (\<open>quoted_word_splits\<close>).
\<close>

theorem merge_incremental_exact:
  defines "tokens \<equiv> \<lambda>previous next'. splitShWords previous @ splitShWords next'"
  shows "\<exists>names. distinct names \<and> (\<forall>name. name \<in> set names \<longleftrightarrow> last_token (tokens previous next') name \<noteq> None) \<and>
    mergeIncremental previous next' = join_with '' '' (map (\<lambda>name. the (last_token (tokens previous next') name)) names) \<and>
    ((\<forall>c \<in> set (previous @ next'). plain_char c) \<longrightarrow>
       splitShWords (mergeIncremental previous next') = map (\<lambda>name. the (last_token (tokens previous next') name)) names)"
proof -
  let ?ts = "tokens previous next'"
  obtain names where names: "distinct names" "\<forall>name. name \<in> set names \<longleftrightarrow> last_token ?ts name \<noteq> None"
    "merge_result (foldl merge_token ([], []) ?ts) = map (\<lambda>name. the (last_token ?ts name)) names"
    using merge_result_eq [of ?ts] by blast
  have merged: "mergeIncremental previous next' = join_with '' '' (map (\<lambda>name. the (last_token ?ts name)) names)"
    using names(3) by (simp add: mergeIncremental_def tokens_def)
  have "list_all plain_word (map (\<lambda>name. the (last_token ?ts name)) names)" if "\<forall>c \<in> set (previous @ next'). plain_char c"
  proof (unfold list_all_iff, intro ballI)
    have plain: "list_all plain_word ?ts" using that splitShWords_plain by (simp add: tokens_def)
    fix t assume "t \<in> set (map (\<lambda>name. the (last_token ?ts name)) names)"
    then obtain name where "last_token ?ts name = Some t" using names(2) by force
    then show "plain_word t" using last_token_in plain by (auto simp: list_all_iff)
  qed
  then show ?thesis using names merged splitShWords_join by auto
qed

theorem merge_incremental_exact_witness:
  "\<exists>names. distinct names \<and>
     (\<forall>name. name \<in> set names \<longleftrightarrow> last_token (splitShWords ''a b'' @ splitShWords ''-a c'') name \<noteq> None) \<and>
     splitShWords (mergeIncremental ''a b'' ''-a c'') =
       map (\<lambda>name. the (last_token (splitShWords ''a b'' @ splitShWords ''-a c'') name)) names"
proof -
  have "\<forall>c \<in> set (''a b'' @ ''-a c''). plain_char c" by (simp add: plain_char_def)
  then show ?thesis using merge_incremental_exact [of "''a b''" "''-a c''"] by blast
qed

lemma quoted_word_splits:
  "splitShWords (CHR 0x27 # ''a b'' @ [CHR 0x27]) = [''a b'']"
  "splitShWords (mergeIncremental [] (CHR 0x27 # ''a b'' @ [CHR 0x27])) = [''a'', ''b'']"
  by code_simp+

end
