(* ===== verification/Resolve_Graph.thy ===== *)
theory Resolve_Graph
  imports Portage_Policy
begin

text \<open>
  The data of the resolver, \<^verbatim>\<open>src/internal/resolve/resolve.go\<close>: package nodes, edges, the dependency graph, actions and the state
  of a resolution, and the queries on them that do not change the state: installed and best versions, the USE flags of a candidate,
  and the dependency edges of a version from its metadata.

  A map is an association list in the order in which it is ranged over, which Go leaves open: theorems are
  stated for every order. Nodes are named by their package atom. The graph stores no nil node and no nil version
  (\<^verbatim>\<open>AddPackage\<close> and \<^verbatim>\<open>AddVersionFromRepository\<close> are its only writers), so the tests for nil on them have no counterpart. The
  caches of the resolver (\<^verbatim>\<open>baseUseByVersion\<close>, \<^verbatim>\<open>versionKeyCache\<close>) hold values computed from data that does not change and are left
  out. The matcher and the visibility test of the library \<^verbatim>\<open>gentooling\<close> and \<^verbatim>\<open>runtime.GOARCH\<close> are fields of the state.
\<close>

subsection \<open>Graph\<close>

datatype dep_type = DepTypeBuild | DepTypeRuntime | DepTypeDepend | DepTypePost | DepTypeInstall

fun dep_type_number :: "dep_type \<Rightarrow> nat" where
  "dep_type_number DepTypeBuild = 1"
| "dep_type_number DepTypeRuntime = 2"
| "dep_type_number DepTypeDepend = 3"
| "dep_type_number DepTypePost = 4"
| "dep_type_number DepTypeInstall = 5"

definition DomainBROOT :: string where "DomainBROOT = ''BROOT''"

definition DomainSYSROOT :: string where "DomainSYSROOT = ''SYSROOT''"

definition DomainROOT :: string where "DomainROOT = ''ROOT''"

definition dependencyDomain :: "dep_type \<Rightarrow> string" where
  "dependencyDomain t =
     (if t \<in> {DepTypeBuild, DepTypeInstall} then DomainBROOT else if t = DepTypeDepend then DomainSYSROOT else DomainROOT)"

definition dependencyDomainForEAPI :: "dep_type \<Rightarrow> string \<Rightarrow> string" where
  "dependencyDomainForEAPI t rawEAPI =
     (if t \<noteq> DepTypeDepend then dependencyDomain t
      else case Atoi rawEAPI of None \<Rightarrow> DomainSYSROOT | Some eapi \<Rightarrow> if eapi < 7 then DomainBROOT else DomainSYSROOT)"

record dep_atom =
  da_atom :: "atom option"
  da_use_cond :: string
  da_block :: bool
  da_strong_block :: bool

record dep_edge =
  de_to :: "atom option" \<comment> \<open>the package atom of the node \<^verbatim>\<open>To\<close>\<close>
  de_type :: dep_type
  de_domain :: string
  de_eapi :: string
  de_dep_atom :: "atom option"
  de_use_cond :: string
  de_block :: bool
  de_strong_block :: bool
  de_any_of :: "dep_atom list"
  de_any_of_groups :: "dep_atom list list"
  de_use_flags :: "bool gomap option"

record pkg_node =
  pn_atom :: atom
  pn_installed :: bool
  pn_versions :: "version_info gomap"
  pn_deps :: "dep_edge list"

record dep_graph =
  dg_packages :: "pkg_node gomap"
  dg_providers :: "string gomap"
  dg_providers_of :: "string list gomap"

record pkg_action =
  pa_atom :: "atom option"
  pa_action :: string
  pa_reason :: string
  pa_slot :: string
  pa_subslot :: string
  pa_repository :: string
  pa_repository_path :: string
  pa_src_uri :: string
  pa_restrict :: string
  pa_iuse :: string
  pa_use_flags :: "bool gomap option"
  pa_installed_version :: string
  pa_installed_slot :: string
  pa_installed_subslot :: string
  pa_installed_repository :: string
  pa_installed_use_flags :: "bool gomap option"
  pa_installed_iuse_flags :: "bool gomap option"
  pa_use_expand :: "string list"
  pa_use_expand_hidden :: "string list"
  pa_use_expand_implicit :: "string list"
  pa_forced_use_flags :: "bool gomap option"
  pa_masked_use_flags :: "bool gomap option"
  pa_merge_type :: string
  pa_binary_path :: string
  pa_unsorted :: bool
  pa_domain :: string
  pa_prerequisites :: "string list"
  pa_rebuild_after_cp :: string
  pa_removal_before :: "string list"

definition zero_pkg_action :: pkg_action where
  \<comment> \<open>the zero value \<^verbatim>\<open>PkgAction{}\<close>\<close>
  "zero_pkg_action =
     \<lparr>pa_atom = None, pa_action = [], pa_reason = [], pa_slot = [], pa_subslot = [], pa_repository = [], pa_repository_path = [],
      pa_src_uri = [], pa_restrict = [], pa_iuse = [], pa_use_flags = None, pa_installed_version = [], pa_installed_slot = [],
      pa_installed_subslot = [], pa_installed_repository = [], pa_installed_use_flags = None, pa_installed_iuse_flags = None,
      pa_use_expand = [], pa_use_expand_hidden = [], pa_use_expand_implicit = [], pa_forced_use_flags = None,
      pa_masked_use_flags = None, pa_merge_type = [], pa_binary_path = [], pa_unsorted = False, pa_domain = [], pa_prerequisites = [],
      pa_rebuild_after_cp = [], pa_removal_before = []\<rparr>"

definition normalizedActionDomain :: "string \<Rightarrow> string" where
  "normalizedActionDomain domain = (if domain = [] then DomainROOT else domain)"

definition versionRepositoryKey :: "string \<Rightarrow> string \<Rightarrow> string" where
  "versionRepositoryKey version repository = (if repository = [] then version else version @ [nul] @ repository)"

definition versionActionKey :: "string \<Rightarrow> version_info \<Rightarrow> string" where
  "versionActionKey cp vi =
     (case vi_version vi of None \<Rightarrow> cp | Some v \<Rightarrow> cp @ ''-'' @ versionRepositoryKey (v_raw v) (vi_repository vi))"

definition domainActionKey :: "string \<Rightarrow> string \<Rightarrow> string" where
  "domainActionKey key domain = (if domain = [] \<or> domain = DomainROOT then key else domain @ [nul] @ key)"

definition actionVersionKey :: "pkg_action \<Rightarrow> string" where
  "actionVersionKey action =
     (case pa_atom action of
        None \<Rightarrow> []
      | Some a \<Rightarrow> (case a_version a of
            None \<Rightarrow> []
          | Some v \<Rightarrow> domainActionKey (CP a @ ''-'' @ versionRepositoryKey (v_raw v) (pa_repository action)) (pa_domain action)))"

definition ActionIdentity :: "pkg_action \<Rightarrow> string" where
  "ActionIdentity action =
     join_with ''|'' [normalizedActionDomain (pa_domain action),
       (case pa_atom action of None \<Rightarrow> ''<nil>'' | Some a \<Rightarrow> atom_string a), pa_slot action, pa_subslot action, pa_repository action]"

definition policySlot :: "version_info \<Rightarrow> string" where
  "policySlot vi = (if vi_subslot vi = [] then vi_slot vi else vi_slot vi @ ''/'' @ vi_subslot vi)"

definition versionKey :: "pkg_node \<Rightarrow> version_info \<Rightarrow> string" where
  "versionKey node vi =
     CP (pn_atom node) @ ''|'' @ vi_slot vi @ (case vi_version vi of None \<Rightarrow> [] | Some v \<Rightarrow> ''|'' @ v_raw v) @ ''|'' @ vi_repository vi"

subsection \<open>Versions of a node\<close>

definition newer_installed :: "version_info option \<Rightarrow> version_info \<Rightarrow> version_info option" where
  \<comment> \<open>one iteration of the searches for the newest installed version\<close>
  "newer_installed best vi =
     (case best of
        None \<Rightarrow> Some vi
      | Some b \<Rightarrow> if vi_version vi \<noteq> None \<and> (vi_version b = None \<or> Compare (vi_version vi) (vi_version b) > 0) then Some vi else best)"

definition GetInstalledVersion :: "pkg_node \<Rightarrow> version_info option" where
  "GetInstalledVersion n = foldl newer_installed None (filter vi_installed (map snd (pn_versions n)))"

definition GetInstalledVersionForSlot :: "pkg_node \<Rightarrow> string \<Rightarrow> version_info option" where
  "GetInstalledVersionForSlot n slot =
     foldl newer_installed None (filter (\<lambda>vi. vi_installed vi \<and> vi_slot vi = slot) (map snd (pn_versions n)))"

definition matchingInstalledVersion :: "pkg_node option \<Rightarrow> atom option \<Rightarrow> version_info option" where
  "matchingInstalledVersion node constraint =
     (case node of
        None \<Rightarrow> None
      | Some n \<Rightarrow> foldl newer_installed None
          (filter (\<lambda>vi. vi_installed vi \<and> versionAtomMatches (Some (pn_atom n)) constraint (Some vi) (installedFlags (Some vi)))
            (map snd (pn_versions n))))"

definition GetBestVersion :: "pkg_node \<Rightarrow> version_info option" where
  "GetBestVersion n =
     foldl (\<lambda>best vi. if betterVersionCandidate (Some vi) best then Some vi else best) None
       (filter vi_available (map snd (pn_versions n)))"

definition GetVersion :: "pkg_node \<Rightarrow> string \<Rightarrow> version_info option" where
  "GetVersion n vStr =
     foldl (\<lambda>best vi. if betterRepositoryCandidate (Some vi) best then Some vi else best) None
       (filter (\<lambda>vi. case vi_version vi of None \<Rightarrow> False | Some v \<Rightarrow> v_raw v = vStr) (map snd (pn_versions n)))"

definition GetVersionFromRepository :: "pkg_node \<Rightarrow> string \<Rightarrow> string \<Rightarrow> version_info option" where
  "GetVersionFromRepository n vStr repository = map_of (pn_versions n) (versionRepositoryKey vStr repository)"

definition conditionsEnabled :: "bool gomap option \<Rightarrow> string \<Rightarrow> bool" where
  "conditionsEnabled flags condition =
     list_all (\<lambda>raw. let raw' = TrimSpace raw in
       raw' = [] \<or> (let enabled = use_value flags (TrimPrefix raw' ''!'') in if HasPrefix raw' ''!'' then \<not> enabled else enabled))
       (split_on CHR '','' condition)"

subsection \<open>State\<close>

text \<open>Of the options, of a conflict and of the resolver the records have the fields that the modelled functions read or write.\<close>

record resolve_config =
  rc_deep :: bool
  rc_build_pkg_only :: bool
  rc_only_deps_with_rdeps :: string
  rc_only_deps_with_ideps :: string
  rc_root_deps :: string
  rc_dynamic_deps :: bool
  rc_with_bdeps :: string
  rc_with_bdeps_auto :: bool
  rc_use_pkg :: bool
  rc_use_pkg_only :: bool
  rc_get_bin_pkg :: bool
  rc_get_bin_pkg_only :: bool
  rc_installed_by_domain :: "dep_graph gomap"
  rc_exclude :: "string list"

record conflict_requirement =
  cr_atom :: string
  cr_reason :: string

record conflict_detail =
  cd_kind :: string
  cd_package :: string
  cd_slot :: string
  cd_message :: string

record warning_diagnostic =
  wd_summary :: string
  wd_message :: string
  wd_source :: string
  wd_start :: int
  wd_end :: int
  wd_annotation :: string
  wd_blocker :: string
  wd_blocker_cpv :: string

record backtrack_decision =
  bd_kind :: string
  bd_key :: string
  bd_from :: string
  bd_to :: string

record replay_decision =
  rd_kind :: string
  rd_dep_key :: string
  rd_chosen :: int
  rd_order :: "int list"
  rd_labels :: "(int \<times> string) list"

text \<open>An entry of an undo log, \<^verbatim>\<open>value\<close> and \<^verbatim>\<open>exists\<close> in the source, is the old value or \<open>None\<close> where there was none.\<close>

record resolver_transaction =
  tx_install :: "pkg_action option gomap"
  tx_uninstall :: "pkg_action option gomap"
  tx_seen_deps :: "bool option gomap"
  tx_selected_cps :: "bool option gomap"
  tx_constraints :: "atom list option gomap"
  tx_constraint_causes :: "conflict_requirement list option gomap"
  tx_use_overrides :: "bool gomap option gomap"
  tx_use_change_seen :: "bool option gomap"
  tx_action_owners :: "bool gomap option gomap"
  tx_conflicts_len :: nat
  tx_warnings_len :: nat
  tx_replay_choices_len :: nat
  tx_pending_constraint :: "atom option"
  tx_pending_reason :: string
  tx_conflict_details_len :: nat
  tx_backtrack_remaining :: int
  tx_decision_history_len :: nat

record resolver =
  rv_gm :: atom_matcher
  rv_visible :: visibility_test
  rv_goarch :: string
  rv_graph :: dep_graph
  rv_config :: resolve_config
  rv_portage_config :: "portage_config option"
  rv_only_deps_targets :: "bool gomap"
  rv_root_action_keys :: "bool gomap"
  rv_dependency_path :: "string list"
  rv_charged_decisions :: "bool gomap"
  rv_to_install :: "pkg_action gomap"
  rv_to_uninstall :: "pkg_action gomap"
  rv_seen_deps :: "bool gomap"
  rv_selected_cps :: "bool gomap"
  rv_constraints :: "atom list gomap"
  rv_constraint_causes :: "conflict_requirement list gomap"
  rv_use_overrides :: "bool gomap gomap"
  rv_use_change_seen :: "bool gomap"
  rv_action_owners :: "bool gomap gomap"
  rv_conflicts :: "string list"
  rv_warnings :: "string list"
  rv_warning_diagnostics :: "warning_diagnostic list"
  rv_replay_choices :: "replay_decision list"
  rv_pending_constraint :: "atom option"
  rv_pending_reason :: string
  rv_conflict_details :: "conflict_detail list"
  rv_backtrack_remaining :: int
  rv_decision_history :: "backtrack_decision list"
  rv_use_override_generation :: nat
  rv_undo_log_operations :: nat
  rv_transactions :: "resolver_transaction list"

definition effectiveDomain :: "resolver \<Rightarrow> string \<Rightarrow> string" where
  "effectiveDomain r domain =
     (let d = normalizedActionDomain domain
      in if d \<noteq> DomainROOT \<and> map_of (rc_installed_by_domain (rv_config r)) d = None then DomainROOT else d)"

definition packageVersionScheduledInDomain :: "resolver \<Rightarrow> pkg_node \<Rightarrow> version_info \<Rightarrow> string \<Rightarrow> bool" where
  "packageVersionScheduledInDomain r node vi domain =
     (vi_version vi \<noteq> None \<and>
      (case map_of (rv_to_install r) (domainActionKey (versionActionKey (CP (pn_atom node)) vi) domain) of
         None \<Rightarrow> False
       | Some action \<Rightarrow> (case pa_atom action of
             None \<Rightarrow> False
           | Some a \<Rightarrow> CP a = CP (pn_atom node) \<and> (pa_slot action = [] \<or> pa_slot action = vi_slot vi))))"

definition packageVersionScheduled :: "resolver \<Rightarrow> pkg_node \<Rightarrow> version_info \<Rightarrow> bool" where
  "packageVersionScheduled r node vi = list_ex (packageVersionScheduledInDomain r node vi) [DomainROOT, DomainSYSROOT, DomainBROOT]"

definition mergeTypeForVersion :: "resolver \<Rightarrow> pkg_node \<Rightarrow> version_info \<Rightarrow> string" where
  "mergeTypeForVersion r node vi =
     (case map_of (rv_to_install r) (versionActionKey (CP (pn_atom node)) vi) of None \<Rightarrow> [] | Some action \<Rightarrow> pa_merge_type action)"

definition effectiveBdepsMode :: "resolver \<Rightarrow> string" where
  "effectiveBdepsMode r =
     (let c = rv_config r;
          mode = (if rc_with_bdeps c = [] \<and> rc_with_bdeps_auto c then ''auto'' else rc_with_bdeps c)
      in if mode = ''auto''
         then (if rc_use_pkg c \<or> rc_use_pkg_only c \<or> rc_get_bin_pkg c \<or> rc_get_bin_pkg_only c then ''n'' else ''y'')
         else mode)"

subsection \<open>USE flags of a candidate\<close>

definition gentooRuntimeArch :: "string \<Rightarrow> string" where
  "gentooRuntimeArch goarch = (if goarch = ''386'' then ''x86'' else goarch)"

definition normalizedImplicitUsePrefixes :: "portage_config option \<Rightarrow> string list" where
  "normalizedImplicitUsePrefixes config =
     (case config of
        None \<Rightarrow> []
      | Some cfg \<Rightarrow> filter (\<lambda>prefix. prefix \<noteq> ''_'') (map (\<lambda>variable. ToLower (TrimSpace variable) @ ''_'') (pc_use_expand_implicit cfg)))"

definition implicitUseExpandFlag :: "resolver \<Rightarrow> string \<Rightarrow> bool" where
  "implicitUseExpandFlag r flag =
     list_ex (\<lambda>prefix. HasPrefix flag prefix \<and> length flag > length prefix) (normalizedImplicitUsePrefixes (rv_portage_config r))"

definition put_all :: "('v gomap) \<Rightarrow> 'v gomap \<Rightarrow> 'v gomap" where
  \<comment> \<open>store every entry of the second map in the first\<close>
  "put_all m entries' = foldl (\<lambda>m (k, v). map_put k v m) m entries'"

definition base_use_flags :: "resolver \<Rightarrow> pkg_node \<Rightarrow> version_info \<Rightarrow> bool gomap" where
  \<comment> \<open>the part of \<^verbatim>\<open>candidateUseFlags\<close> that is cached\<close>
  "base_use_flags r node vi =
     (case rv_portage_config r of
        None \<Rightarrow> entries (vi_use_flags vi)
      | Some cfg \<Rightarrow>
          (let cpv = CP (pn_atom node) @ (case vi_version vi of None \<Rightarrow> [] | Some v \<Rightarrow> ''-'' @ v_raw v);
               configured = (case map_of (pc_make_conf cfg) ''ARCH'' of None \<Rightarrow> [] | Some a \<Rightarrow> a);
               arch = (if configured = [] then gentooRuntimeArch (rv_goarch r) else configured);
               is_stable = (arch \<in> set (Fields (vi_keywords vi)));
               effective = EffectiveUseForStability (rv_gm r) (Some cfg) cpv (policySlot vi) (vi_repository vi) is_stable
           in put_all (entries (vi_use_flags vi))
                (filter (\<lambda>(name, enabled). vi_use_flags vi = None \<or> map_of (entries (vi_use_flags vi)) name \<noteq> None \<or> name = arch \<or>
                   implicitUseExpandFlag r name) effective)))"

definition candidateUseFlags :: "resolver \<Rightarrow> pkg_node \<Rightarrow> version_info \<Rightarrow> bool gomap" where
  "candidateUseFlags r node vi =
     (let base = base_use_flags r node vi in
      case map_of (rv_use_overrides r) (versionKey node vi) of
        None \<Rightarrow> base
      | Some overrides \<Rightarrow> put_all base overrides)"

subsection \<open>Dependencies of a version\<close>

type_synonym raw_dependency = "string \<times> dep_type"

definition validateUseDependencyEAPI :: "atom \<Rightarrow> string \<Rightarrow> string option" where
  "validateUseDependencyEAPI dependency rawEAPI =
     (if a_use_flags dependency = [] \<or> rawEAPI = [] then None
      else case Atoi rawEAPI of
          None \<Rightarrow> None
        | Some eapi \<Rightarrow>
            if eapi < 2 then Some (''USE dependencies require EAPI 2 or newer (package uses EAPI '' @ Itoa eapi @ '')'')
            else if eapi < 4 \<and> list_ex (\<lambda>flag. u_default flag \<noteq> None) (a_use_flags dependency)
            then Some (''USE dependency defaults require EAPI 4 or newer (package uses EAPI '' @ Itoa eapi @ '')'')
            else None)"

definition repository_dependencies :: "version_info \<Rightarrow> raw_dependency list" where
  "repository_dependencies vi =
     [(vi_depend vi, DepTypeDepend), (vi_rdepend vi, DepTypeRuntime), (vi_bdepend vi, DepTypeBuild), (vi_idepend vi, DepTypeInstall),
      (vi_pdepend vi, DepTypePost)]"

definition installed_dependencies :: "version_info \<Rightarrow> raw_dependency list" where
  "installed_dependencies vi =
     [(vi_installed_depend vi, DepTypeDepend), (vi_installed_rdepend vi, DepTypeRuntime), (vi_installed_bdepend vi, DepTypeBuild),
      (vi_installed_idepend vi, DepTypeInstall), (vi_installed_pdepend vi, DepTypePost)]"

definition no_text :: "raw_dependency list \<Rightarrow> bool" where
  "no_text deps \<longleftrightarrow> list_all (\<lambda>(raw, t). raw = []) deps"

definition eapi_classes :: "string \<Rightarrow> raw_dependency list \<Rightarrow> raw_dependency list" where
  \<comment> \<open>classes a later EAPI introduced are ignored\<close>
  "eapi_classes rawEAPI deps =
     (case Atoi rawEAPI of
        None \<Rightarrow> deps
      | Some eapi \<Rightarrow> filter (\<lambda>(raw, t). \<not> (t = DepTypeBuild \<and> eapi < 7 \<or> t = DepTypeInstall \<and> eapi < 8)) deps)"

definition root_deps_classes :: "string \<Rightarrow> string \<Rightarrow> raw_dependency list \<Rightarrow> raw_dependency list" where
  \<comment> \<open>the option \<^verbatim>\<open>--root-deps\<close>\<close>
  "root_deps_classes mode rawEAPI deps =
     (if mode = ''rdeps'' then
        (case Atoi rawEAPI of
           None \<Rightarrow> deps
         | Some eapi \<Rightarrow> if eapi < 7 then filter (\<lambda>(raw, t). t \<noteq> DepTypeDepend) deps else deps)
      else if mode = ''true'' then
        deps @ map (\<lambda>(raw, t). (raw, DepTypeRuntime)) (filter (\<lambda>(raw, t). t \<in> {DepTypeDepend, DepTypeBuild, DepTypeInstall}) deps)
      else deps)"

definition retained_class :: "string \<Rightarrow> dep_type \<Rightarrow> bool" where
  \<comment> \<open>the classes that count for a version that stays installed\<close>
  "retained_class bdepsMode t =
     (case t of DepTypeRuntime \<Rightarrow> True | DepTypePost \<Rightarrow> True | DepTypeDepend \<Rightarrow> bdepsMode \<noteq> ''n'' | DepTypeBuild \<Rightarrow> bdepsMode \<noteq> ''n''
      | DepTypeInstall \<Rightarrow> False)"

definition active_classes :: "resolver \<Rightarrow> pkg_node \<Rightarrow> version_info \<Rightarrow> string \<Rightarrow> raw_dependency list \<Rightarrow> raw_dependency list" where
  \<comment> \<open>the filters on the classes of \<^verbatim>\<open>dependenciesForVersionMetadata\<close>, in their order\<close>
  "active_classes r node vi chosenEAPI deps =
     (let c = rv_config r; scheduled = packageVersionScheduled r node vi; mergeType = mergeTypeForVersion r node vi;
          d1 = eapi_classes chosenEAPI deps;
          d2 = (if rc_build_pkg_only c \<and> \<not> rc_deep c \<and> mergeType \<noteq> ''binary''
                then filter (\<lambda>(raw, t). t \<in> {DepTypeDepend, DepTypeBuild}) d1 else d1);
          d3 = (if map_of (rv_only_deps_targets r) (CP (pn_atom node)) = Some True \<and> rc_only_deps_with_rdeps c = ''n''
                then filter (\<lambda>(raw, t). \<not> (t \<in> {DepTypeRuntime, DepTypePost} \<or> t = DepTypeInstall \<and> rc_only_deps_with_ideps c \<noteq> ''y'')) d2
                else d2);
          d4 = root_deps_classes (ToLower (rc_root_deps c)) chosenEAPI d3
      in if vi_installed vi \<and> \<not> scheduled then filter (\<lambda>(raw, t). retained_class (effectiveBdepsMode r) t) d4
         else if mergeType = ''binary'' \<and> effectiveBdepsMode r \<noteq> ''y''
         then filter (\<lambda>(raw, t). t \<notin> {DepTypeDepend, DepTypeBuild}) d4
         else d4)"

definition option_atom :: "atom_meta \<Rightarrow> atom \<Rightarrow> dep_atom" where
  "option_atom m a =
     \<lparr>da_atom = Some a, da_use_cond = TrimPrefix (TrimPrefix (m_condition m) (m_any_condition m)) '','',
      da_block = (m_block m \<or> m_weak m), da_strong_block = m_weak m\<rparr>"

definition option_groups :: "(atom_meta \<times> atom) list \<Rightarrow> nat \<Rightarrow> dep_atom list list" where
  \<comment> \<open>\<^verbatim>\<open>AnyOfGroups\<close> of one group, by the number of the alternative\<close>
  "option_groups metas i =
     (let ms = filter (\<lambda>(m, a). m_any_id m = i) metas
      in map (\<lambda>opt. map (\<lambda>(m, a). option_atom m a) (filter (\<lambda>(m, a). m_any_option m = opt) ms))
           (sort (remdups (map (\<lambda>(m, a). m_any_option m) ms))))"

definition first_of_group :: "(atom_meta \<times> atom) list \<Rightarrow> nat \<Rightarrow> bool" where
  \<comment> \<open>whether the atom at this position opens its any-of group\<close>
  "first_of_group metas i \<longleftrightarrow> (\<forall>j < i. m_any_id (fst (metas ! j)) \<noteq> m_any_id (fst (metas ! i)))"

definition plain_edge :: "pkg_node gomap \<Rightarrow> dep_type \<Rightarrow> string \<Rightarrow> bool gomap option \<Rightarrow> atom_meta \<Rightarrow> atom \<Rightarrow> dep_edge" where
  "plain_edge packages t chosenEAPI flags m a =
     \<lparr>de_to = map_option pn_atom (map_of packages (CP a)), de_type = t, de_domain = dependencyDomainForEAPI t chosenEAPI,
      de_eapi = chosenEAPI, de_dep_atom = Some a, de_use_cond = m_condition m, de_block = (m_block m \<or> m_weak m),
      de_strong_block = m_weak m, de_any_of = [], de_any_of_groups = [], de_use_flags = flags\<rparr>"

definition group_edge :: "dep_type \<Rightarrow> string \<Rightarrow> bool gomap option \<Rightarrow> (atom_meta \<times> atom) list \<Rightarrow> atom_meta \<Rightarrow> dep_edge" where
  "group_edge t chosenEAPI flags metas m =
     \<lparr>de_to = None, de_type = t, de_domain = dependencyDomainForEAPI t chosenEAPI, de_eapi = chosenEAPI, de_dep_atom = None,
      de_use_cond = m_any_condition m, de_block = False, de_strong_block = False,
      de_any_of = map (\<lambda>(m', a). option_atom m' a) (filter (\<lambda>(m', a). m_any_id m' = m_any_id m) metas),
      de_any_of_groups = option_groups metas (m_any_id m), de_use_flags = flags\<rparr>"

definition class_edges :: "pkg_node gomap \<Rightarrow> dep_type \<Rightarrow> string \<Rightarrow> bool gomap option \<Rightarrow> (atom_meta \<times> atom) list \<Rightarrow> dep_edge list" where
  \<comment> \<open>the edges of one class: an any-of group stands where its first atom does\<close>
  "class_edges packages t chosenEAPI flags metas =
     concat (map (\<lambda>i. case metas ! i of (m, a) \<Rightarrow>
       if m_any_id m = 0 then [plain_edge packages t chosenEAPI flags m a]
       else if first_of_group metas i then [group_edge t chosenEAPI flags metas m] else []) [0..<length metas])"

definition parse_meta :: "pkg_node \<Rightarrow> string \<Rightarrow> atom_meta \<Rightarrow> (string, atom_meta \<times> atom) result" where
  "parse_meta node chosenEAPI m =
     (case Parse (m_atom m) of
        Inl e \<Rightarrow> Inl (atom_error_text e)
      | Inr a \<Rightarrow> (case validateUseDependencyEAPI a chosenEAPI of
            None \<Rightarrow> Inr (m, a)
          | Some e \<Rightarrow> Inl (CP (pn_atom node) @ '' dependency '' @ m_atom m @ '': '' @ e)))"

definition edges_of_class :: "resolver \<Rightarrow> pkg_node \<Rightarrow> string \<Rightarrow> bool gomap option \<Rightarrow> raw_dependency \<Rightarrow> (string, dep_edge list) result" where
  \<comment> \<open>one iteration of the last loop\<close>
  "edges_of_class r node chosenEAPI flags d =
     (case d of (raw, t) \<Rightarrow>
        if raw = [] then Inr []
        else case dep_Parse raw of
            Inl e \<Rightarrow> Inl (dep_error_text e)
          | Inr root \<Rightarrow>
              (case ValidatePackageDependenciesEAPI root chosenEAPI of
                 Some e \<Rightarrow> Inl (CP (pn_atom node) @ '' dependency class '' @ show_nat (dep_type_number t) @ '': '' @ dep_valid_error_text e)
               | None \<Rightarrow>
                   map_result (class_edges (dg_packages (rv_graph r)) t chosenEAPI flags)
                     (collect (map (parse_meta node chosenEAPI) (CollectMeta root)))))"

definition dependenciesForVersionMetadata :: "resolver \<Rightarrow> pkg_node \<Rightarrow> version_info \<Rightarrow> bool \<Rightarrow> (string, dep_edge list) result" where
  "dependenciesForVersionMetadata r node vi forceInstalledMetadata =
     (if \<not> vi_metadata_known vi \<and> no_text (repository_dependencies vi) \<and> no_text (installed_dependencies vi) then Inr (pn_deps node)
      else
        (let scheduled = packageVersionScheduled r node vi;
             useInstalled = (forceInstalledMetadata \<or>
               vi_installed vi \<and> \<not> scheduled \<and> (\<not> rc_dynamic_deps (rv_config r) \<or> \<not> vi_available vi));
             flags = (if useInstalled then installedFlags (Some vi) else Some (candidateUseFlags r node vi));
             fromInstalled = (useInstalled \<and> \<not> no_text (installed_dependencies vi));
             deps = (if fromInstalled then installed_dependencies vi else repository_dependencies vi);
             chosenEAPI = (if fromInstalled \<and> vi_installed_eapi vi \<noteq> [] then vi_installed_eapi vi else vi_eapi vi)
         in map_result concat (collect (map (edges_of_class r node chosenEAPI flags) (active_classes r node vi chosenEAPI deps)))))"

definition dependenciesForVersion :: "resolver \<Rightarrow> pkg_node \<Rightarrow> version_info \<Rightarrow> (string, dep_edge list) result" where
  "dependenciesForVersion r node vi = dependenciesForVersionMetadata r node vi False"

subsection \<open>An empty state\<close>

definition zero_config :: resolve_config where
  \<comment> \<open>the zero value of the options\<close>
  "zero_config =
     \<lparr>rc_deep = False, rc_build_pkg_only = False, rc_only_deps_with_rdeps = [], rc_only_deps_with_ideps = [], rc_root_deps = [],
      rc_dynamic_deps = False, rc_with_bdeps = [], rc_with_bdeps_auto = False, rc_use_pkg = False, rc_use_pkg_only = False,
      rc_get_bin_pkg = False, rc_get_bin_pkg_only = False, rc_installed_by_domain = [], rc_exclude = []\<rparr>"

definition empty_resolver :: "pkg_node gomap \<Rightarrow> resolver" where
  \<comment> \<open>a resolver over a graph with nothing decided; no rule of the configuration matches\<close>
  "empty_resolver packages =
     \<lparr>rv_gm = (\<lambda>rule cpv slot subslot repo. False), rv_visible = (\<lambda>accepted rules arch cpv slot subslot repo keywords. False), rv_goarch = ''amd64'',
      rv_graph = \<lparr>dg_packages = packages, dg_providers = [], dg_providers_of = []\<rparr>, rv_config = zero_config,
      rv_portage_config = None, rv_only_deps_targets = [], rv_root_action_keys = [], rv_dependency_path = [],
      rv_charged_decisions = [], rv_to_install = [], rv_to_uninstall = [], rv_seen_deps = [], rv_selected_cps = [],
      rv_constraints = [], rv_constraint_causes = [], rv_use_overrides = [], rv_use_change_seen = [], rv_action_owners = [],
      rv_conflicts = [], rv_warnings = [], rv_warning_diagnostics = [], rv_replay_choices = [], rv_pending_constraint = None, rv_pending_reason = [],
      rv_conflict_details = [], rv_backtrack_remaining = 0, rv_decision_history = [], rv_use_override_generation = 0,
      rv_undo_log_operations = 0, rv_transactions = []\<rparr>"

subsection \<open>What an EAPI allows\<close>

text \<open>The table of features of \<^verbatim>\<open>src/internal/resolve/eapi_contract_test.go\<close>, and what an atom of a dependency uses of it.\<close>

datatype eapi_feature = SlotDependencies | UseDependencies | StrongBlockers | UseDefaults | SlotOperators | RepositoryQualifiers

fun introduced_in :: "eapi_feature \<Rightarrow> int" where
  \<comment> \<open>the first EAPI with a feature; no EAPI up to 9 has repository qualifiers\<close>
  "introduced_in SlotDependencies = 1"
| "introduced_in UseDependencies = 2"
| "introduced_in StrongBlockers = 2"
| "introduced_in UseDefaults = 4"
| "introduced_in SlotOperators = 5"
| "introduced_in RepositoryQualifiers = 10"

fun uses_feature :: "bool \<Rightarrow> atom \<Rightarrow> eapi_feature \<Rightarrow> bool" where
  "uses_feature strong a SlotDependencies \<longleftrightarrow> a_slot a \<noteq> []"
| "uses_feature strong a UseDependencies \<longleftrightarrow> a_use_flags a \<noteq> []"
| "uses_feature strong a StrongBlockers \<longleftrightarrow> strong"
| "uses_feature strong a UseDefaults \<longleftrightarrow> (\<exists>flag \<in> set (a_use_flags a). u_default flag \<noteq> None)"
| "uses_feature strong a SlotOperators \<longleftrightarrow> a_slot_op a \<noteq> SlotOpNone"
| "uses_feature strong a RepositoryQualifiers \<longleftrightarrow> a_repo a \<noteq> []"

fun occurrences :: "dep_node \<Rightarrow> (bool \<times> string) list" where
  \<comment> \<open>the atoms of a tree, and whether each is a strong blocker\<close>
  "occurrences (AtomDep a) = [(False, a)]"
| "occurrences (Block a) = [(False, a)]"
| "occurrences (WeakBlock a) = [(True, a)]"
| "occurrences (AllOfGroup ns implicit) = concat (map occurrences ns)"
| "occurrences (AnyOfGroup ns) = concat (map occurrences ns)"
| "occurrences (XorOfGroup ns) = concat (map occurrences ns)"
| "occurrences (AtMostOneOfGroup ns) = concat (map occurrences ns)"
| "occurrences (UseConditional flag ns) = concat (map occurrences ns)"

fun groups_of :: "dep_node \<Rightarrow> dep_node list" where
  \<comment> \<open>a tree and all trees below it\<close>
  "groups_of (AllOfGroup ns implicit) = AllOfGroup ns implicit # concat (map groups_of ns)"
| "groups_of (AnyOfGroup ns) = AnyOfGroup ns # concat (map groups_of ns)"
| "groups_of (XorOfGroup ns) = XorOfGroup ns # concat (map groups_of ns)"
| "groups_of (AtMostOneOfGroup ns) = AtMostOneOfGroup ns # concat (map groups_of ns)"
| "groups_of (UseConditional flag ns) = UseConditional flag ns # concat (map groups_of ns)"
| "groups_of n = []"

fun package_group :: "dep_node \<Rightarrow> bool" where
  \<comment> \<open>the groups of package dependencies: no exactly-one and at-most-one, none written with nothing in it\<close>
  "package_group (AllOfGroup ns implicit) \<longleftrightarrow> implicit \<or> ns \<noteq> []"
| "package_group (AnyOfGroup ns) \<longleftrightarrow> ns \<noteq> []"
| "package_group (UseConditional flag ns) \<longleftrightarrow> ns \<noteq> []"
| "package_group n \<longleftrightarrow> False"

definition atom_text_allowed :: "string \<Rightarrow> bool \<Rightarrow> string \<Rightarrow> bool" where
  \<comment> \<open>the text is a package atom, and uses only features of the EAPI; an EAPI that is no number has all\<close>
  "atom_text_allowed eapi strong t \<longleftrightarrow>
     (\<exists>a. ParsePackageAtom t = Inr a \<and> (\<forall>f e. uses_feature strong a f \<longrightarrow> Atoi eapi = Some e \<longrightarrow> introduced_in f \<le> e))"

definition dependency_allowed :: "string \<Rightarrow> string \<Rightarrow> bool" where
  "dependency_allowed eapi raw \<longleftrightarrow>
     raw = [] \<or> (\<exists>root. dep_Parse raw = Inr root \<and>
       (\<forall>n. root = Some n \<longrightarrow> list_all package_group (groups_of n) \<and> (\<forall>(strong, t) \<in> set (occurrences n). atom_text_allowed eapi strong t)))"

definition chosen_metadata :: "resolver \<Rightarrow> pkg_node \<Rightarrow> version_info \<Rightarrow> bool \<Rightarrow> raw_dependency list \<times> string" where
  \<comment> \<open>the dependencies and the EAPI of a version: as recorded at its installation if these are asked for and present, else as in the repository\<close>
  "chosen_metadata r node vi forceInstalledMetadata =
     (let installed = (forceInstalledMetadata \<or>
            vi_installed vi \<and> \<not> packageVersionScheduled r node vi \<and> (\<not> rc_dynamic_deps (rv_config r) \<or> \<not> vi_available vi)) \<and>
          \<not> no_text (installed_dependencies vi)
      in if installed then (installed_dependencies vi, if vi_installed_eapi vi \<noteq> [] then vi_installed_eapi vi else vi_eapi vi)
         else (repository_dependencies vi, vi_eapi vi))"

lemma collect_ok: "(\<exists>ys. collect rs = Inr ys) \<longleftrightarrow> (\<forall>r \<in> set rs. \<exists>y. r = Inr y)"
  by (induction rs) (auto split: sum.splits)

lemma map_result_ok: "(\<exists>y. map_result f r = Inr y) \<longleftrightarrow> (\<exists>x. r = Inr x)"
  by (cases r) (auto simp: map_result_def)

lemma occurrences_atoms: "map snd (occurrences n) = node_atoms n"
  by (induction n) (auto simp: map_concat intro!: arg_cong [where f = concat])

lemma dep_allowed_occurrences:
  "dep_allowed e n \<longleftrightarrow> list_all package_group (groups_of n) \<and>
     (\<forall>(strong, t) \<in> set (occurrences n). (strong \<longrightarrow> (\<forall>k \<in> set_option e. 2 \<le> k)) \<and> atom_allowed e t)"
proof -
  define Q where "Q x \<longleftrightarrow> (fst x \<longrightarrow> (\<forall>k \<in> set_option e. 2 \<le> k)) \<and> atom_allowed e (snd x)" for x
  have leaf: "Q (strong, t) \<longleftrightarrow> (strong \<longrightarrow> (\<forall>k \<in> set_option e. 2 \<le> k)) \<and> atom_allowed e t" for strong t by (simp add: Q_def)
  have "dep_allowed e n \<longleftrightarrow> (\<forall>m \<in> set (groups_of n). package_group m) \<and> (\<forall>x \<in> set (occurrences n). Q x)"
    by (induction n) (simp_all add: leaf, blast+)
  then show ?thesis by (simp add: Q_def list_all_iff case_prod_beta)
qed

lemma parse_meta_ok: "(\<exists>y. parse_meta node eapi m = Inr y) \<longleftrightarrow> (\<exists>a. Parse (m_atom m) = Inr a \<and> validateUseDependencyEAPI a eapi = None)"
  by (cases "Parse (m_atom m)") (auto simp: parse_meta_def split: option.splits)

lemma use_dependency_ok:
  "validateUseDependencyEAPI a eapi = None \<longleftrightarrow> (\<forall>f e. f \<in> {UseDependencies, UseDefaults} \<longrightarrow> uses_feature b a f \<longrightarrow> Atoi eapi = Some e \<longrightarrow> introduced_in f \<le> e)"
proof -
  have "Atoi [] = None" by code_simp
  then show ?thesis by (cases "Atoi eapi") (auto simp: validateUseDependencyEAPI_def list_ex_iff)
qed

lemma atom_text_allowed_iff:
  "atom_text_allowed eapi strong t \<longleftrightarrow> (strong \<longrightarrow> (\<forall>k \<in> set_option (Atoi eapi). 2 \<le> k)) \<and> atom_allowed (Atoi eapi) t \<and>
     (\<exists>a. Parse t = Inr a \<and> validateUseDependencyEAPI a eapi = None)"
proof (cases "ParsePackageAtom t")
  case (Inr a)
  have all: "(\<forall>f. P f) \<longleftrightarrow> P SlotDependencies \<and> P UseDependencies \<and> P StrongBlockers \<and> P UseDefaults \<and> P SlotOperators \<and> P RepositoryQualifiers" for P
    by (metis eapi_feature.exhaust)
  have "Parse t = Inr a" using Inr by (auto simp: ParsePackageAtom_def split: sum.splits if_splits)
  then show ?thesis using Inr use_dependency_ok [of a eapi strong]
    by (cases "Atoi eapi") (auto simp: atom_text_allowed_def atom_allowed_def all)
qed (simp add: atom_text_allowed_def atom_allowed_def)

lemma edges_of_class_ok: "(\<exists>edges. edges_of_class r node eapi flags (raw, t) = Inr edges) \<longleftrightarrow> dependency_allowed eapi raw"
proof (cases "raw = [] \<or> (\<exists>e. dep_Parse raw = Inl e)")
  case True
  then show ?thesis by (auto simp: edges_of_class_def dependency_allowed_def)
next
  case False
  then obtain root where root: "dep_Parse raw = Inr root" "raw \<noteq> []" by (cases "dep_Parse raw") auto
  have metas: "(\<exists>ys. collect (map (parse_meta node eapi) (CollectMeta root)) = Inr ys) \<longleftrightarrow>
      (\<forall>m \<in> set (CollectMeta root). \<exists>a. Parse (m_atom m) = Inr a \<and> validateUseDependencyEAPI a eapi = None)"
    by (simp only: collect_ok set_map ball_simps parse_meta_ok)
  show ?thesis
  proof (cases root)
    case None
    then show ?thesis using root by (simp add: edges_of_class_def dependency_allowed_def ValidatePackageDependenciesEAPI_def CollectMeta_def map_result_def)
  next
    case (Some n)
    have "m_atom ` set (CollectMeta root) = snd ` set (occurrences n)"
      using visit_atoms(1) [of n top_context "(0, \<lambda>_. 0)"] Some by (metis CollectMeta_def occurrences_atoms option.simps(5) set_map)
    then have "(\<forall>t \<in> m_atom ` set (CollectMeta root). P t) \<longleftrightarrow> (\<forall>t \<in> snd ` set (occurrences n). P t)" for P by (simp only:)
    then have checks: "(\<forall>m \<in> set (CollectMeta root). P (m_atom m)) \<longleftrightarrow> (\<forall>(strong, t) \<in> set (occurrences n). P t)" for P
      by (simp add: case_prod_beta)
    have "(\<exists>edges. edges_of_class r node eapi flags (raw, t) = Inr edges) \<longleftrightarrow>
        ValidatePackageDependenciesEAPI root eapi = None \<and> (\<exists>ys. collect (map (parse_meta node eapi) (CollectMeta root)) = Inr ys)"
      using root by (simp add: edges_of_class_def map_result_ok split: option.split)
    also have "\<dots> \<longleftrightarrow> dep_allowed (Atoi eapi) n \<and>
        (\<forall>(strong, t) \<in> set (occurrences n). \<exists>a. Parse t = Inr a \<and> validateUseDependencyEAPI a eapi = None)"
      unfolding metas checks [of "\<lambda>t. \<exists>a. Parse t = Inr a \<and> validateUseDependencyEAPI a eapi = None"] by (simp only: Some eapi_validation_exact)
    also have "\<dots> \<longleftrightarrow> list_all package_group (groups_of n) \<and> (\<forall>(strong, t) \<in> set (occurrences n). atom_text_allowed eapi strong t)"
      unfolding dep_allowed_occurrences atom_text_allowed_iff case_prod_beta by blast
    finally show ?thesis using root Some by (simp add: dependency_allowed_def)
  qed
qed

text \<open>
  Claim C39: The resolver obtains the dependency edges of a version with metadata exactly when every dependency class that is in force for it is empty or parses to a
  tree of package dependencies without empty or exclusive groups, each atom of which is a package atom and uses only what the EAPI of the version offers: slots from
  EAPI 1, USE dependencies and strong blockers from 2, USE defaults from 4, slot operators from 5, and no repository qualifier up to 9. An EAPI that is not a number lifts
  these limits. A version without any metadata has the edges of its node.
\<close>

theorem eapi_contract_exact:
  "(\<exists>edges. dependenciesForVersionMetadata r node vi force = Inr edges) \<longleftrightarrow>
     \<not> vi_metadata_known vi \<and> no_text (repository_dependencies vi) \<and> no_text (installed_dependencies vi) \<or>
     (case chosen_metadata r node vi force of (deps, eapi) \<Rightarrow> \<forall>d \<in> set (active_classes r node vi eapi deps). dependency_allowed eapi (fst d))"
proof (cases "\<not> vi_metadata_known vi \<and> no_text (repository_dependencies vi) \<and> no_text (installed_dependencies vi)")
  case True
  then show ?thesis by (simp add: dependenciesForVersionMetadata_def)
next
  case False
  obtain deps eapi where chosen: "chosen_metadata r node vi force = (deps, eapi)" by force
  then obtain flags where "dependenciesForVersionMetadata r node vi force =
      map_result concat (collect (map (edges_of_class r node eapi flags) (active_classes r node vi eapi deps)))"
    using False unfolding dependenciesForVersionMetadata_def chosen_metadata_def Let_def by (auto split: if_splits)
  then have "(\<exists>edges. dependenciesForVersionMetadata r node vi force = Inr edges) \<longleftrightarrow>
      (\<forall>d \<in> set (active_classes r node vi eapi deps). \<exists>edges. edges_of_class r node eapi flags d = Inr edges)"
    by (simp only: map_result_ok collect_ok set_map ball_simps)
  also have "\<dots> \<longleftrightarrow> (\<forall>d \<in> set (active_classes r node vi eapi deps). dependency_allowed eapi (fst d))"
    using edges_of_class_ok [of r node eapi flags] by (metis prod.collapse)
  finally show ?thesis using False chosen by (simp only: case_prod_conv simp_thms)
qed

definition consumer_node :: pkg_node where
  "consumer_node = \<lparr>pn_atom = empty_atom, pn_installed = False, pn_versions = [], pn_deps = []\<rparr>"

definition consumer :: "string \<Rightarrow> string \<Rightarrow> version_info" where
  "consumer eapi t = zero_version_info\<lparr>vi_metadata_known := True, vi_eapi := eapi, vi_rdepend := t\<rparr>"

definition consumer_edges :: "string \<Rightarrow> string \<Rightarrow> (string, dep_edge list) result" where
  "consumer_edges eapi t = dependenciesForVersionMetadata (empty_resolver []) consumer_node (consumer eapi t) False"

theorem eapi_contract_exact_witness:
  "\<not> isl (consumer_edges ''2'' ''a/b[x] !!c/d'') \<and> dependency_allowed ''2'' ''a/b[x] !!c/d'' \<and>
   isl (consumer_edges ''1'' ''a/b[x]'') \<and> \<not> dependency_allowed ''1'' ''a/b[x]''"
proof -
  have edges: "\<not> isl (consumer_edges ''2'' ''a/b[x] !!c/d'')" "isl (consumer_edges ''1'' ''a/b[x]'')" by code_simp+
  have empty_text: "dependency_allowed eapi []" for eapi by (simp add: dependency_allowed_def)
  have known: "vi_metadata_known (consumer eapi t)" for eapi t by (simp add: consumer_def)
  have classes: "chosen_metadata (empty_resolver []) consumer_node (consumer eapi t) False = (repository_dependencies (consumer eapi t), eapi)" for eapi t
    by (simp add: chosen_metadata_def consumer_def zero_version_info_def no_text_def installed_dependencies_def)
  have "map fst (active_classes (empty_resolver []) consumer_node (consumer ''2'' ''a/b[x] !!c/d'') ''2'' (repository_dependencies (consumer ''2'' ''a/b[x] !!c/d''))) =
      [[], ''a/b[x] !!c/d'', []]"
    "map fst (active_classes (empty_resolver []) consumer_node (consumer ''1'' ''a/b[x]'') ''1'' (repository_dependencies (consumer ''1'' ''a/b[x]''))) =
      [[], ''a/b[x]'', []]" by code_simp+
  note active = arg_cong [OF this(1), of set, unfolded set_map] arg_cong [OF this(2), of set, unfolded set_map]
  have ok: "\<not> isl (consumer_edges eapi t) \<longleftrightarrow>
      (\<forall>x \<in> fst ` set (active_classes (empty_resolver []) consumer_node (consumer eapi t) eapi (repository_dependencies (consumer eapi t))). dependency_allowed eapi x)" for eapi t
  proof -
    have "\<not> isl (consumer_edges eapi t) \<longleftrightarrow> (\<exists>edges. consumer_edges eapi t = Inr edges)" by (cases "consumer_edges eapi t") auto
    then show ?thesis using eapi_contract_exact [of "empty_resolver []" consumer_node "consumer eapi t" False] known classes by (simp add: consumer_edges_def)
  qed
  show ?thesis using ok [of "''2''" "''a/b[x] !!c/d''"] ok [of "''1''" "''a/b[x]''"] edges unfolding active by (simp add: empty_text)
qed

text \<open>
  The plan validator checks the dependencies of a package with \<^verbatim>\<open>ValidatePackageDependenciesEAPI\<close> alone, which does not look at USE dependencies: it accepts in EAPI 0
  what the resolver rejects.
\<close>

lemma early_use_dependency_validated:
  "ValidatePackageDependenciesEAPI (projr (dep_Parse ''a/b[x]'')) ''0'' = None \<and> isl (consumer_edges ''0'' ''a/b[x]'')"
  by (intro conjI; code_simp)

end
