(* ===== verification/Resolve_Scc.thy ===== *)
theory Resolve_Scc
  imports Prelude
begin

text \<open>
  \<^verbatim>\<open>stronglyConnectedPlanComponents\<close> of \<^verbatim>\<open>src/internal/resolve/resolve.go\<close>: Tarjan's algorithm on the graph of planned actions, with the
  arrays of the source. The slice \<^verbatim>\<open>stack\<close> is kept with its top first. \<^verbatim>\<open>visit\<close> carries fuel; as every call marks a new
  node, the number of nodes is enough. The result is shown to be the partition into strongly connected components, numbered
  against the direction of the edges.
\<close>

subsection \<open>The algorithm\<close>

type_synonym int_map = "(nat \<times> nat list) list"

definition out_at :: "int_map \<Rightarrow> nat \<Rightarrow> nat list" where
  \<comment> \<open>\<^verbatim>\<open>out[node]\<close>, the nil slice for a missing key\<close>
  "out_at out i = (case map_of out i of None \<Rightarrow> [] | Some js \<Rightarrow> js)"

record scc_state =
  sc_indices :: "int list"
  sc_lowLink :: "int list"
  sc_onStack :: "bool list"
  sc_stack :: "nat list"
  sc_nextIndex :: int
  sc_componentOf :: "nat list"
  sc_components :: "nat list list"

definition enter_node :: "nat \<Rightarrow> scc_state \<Rightarrow> scc_state" where
  \<comment> \<open>the first lines of \<^verbatim>\<open>visit\<close>\<close>
  "enter_node node st =
     st\<lparr>sc_indices := (sc_indices st)[node := sc_nextIndex st], sc_lowLink := (sc_lowLink st)[node := sc_nextIndex st],
        sc_nextIndex := sc_nextIndex st + 1, sc_stack := node # sc_stack st, sc_onStack := (sc_onStack st)[node := True]\<rparr>"

definition lower_link :: "nat \<Rightarrow> int \<Rightarrow> scc_state \<Rightarrow> scc_state" where
  "lower_link node low st =
     (if low < sc_lowLink st ! node then st\<lparr>sc_lowLink := (sc_lowLink st)[node := low]\<rparr> else st)"

definition successor_step :: "(nat \<Rightarrow> scc_state \<Rightarrow> scc_state) \<Rightarrow> nat \<Rightarrow> scc_state \<Rightarrow> nat \<Rightarrow> scc_state" where
  \<comment> \<open>one iteration over \<^verbatim>\<open>out[node]\<close>\<close>
  "successor_step visit_next node st next =
     (if sc_indices st ! next = -1 then (let st' = visit_next next st in lower_link node (sc_lowLink st' ! next) st')
      else if sc_onStack st ! next then lower_link node (sc_indices st ! next) st
      else st)"

fun pop_members :: "nat \<Rightarrow> nat \<Rightarrow> nat list \<Rightarrow> nat list \<Rightarrow> scc_state \<Rightarrow> scc_state" where
  \<comment> \<open>the loop that empties the stack down to the root; the arguments are the root, the number of the component, the stack and
    the members so far\<close>
  "pop_members node component [] members st = st" \<comment> \<open>not reached: the root is on the stack\<close>
| "pop_members node component (member # rest) members st =
     (let st' = st\<lparr>sc_stack := rest, sc_onStack := (sc_onStack st)[member := False],
            sc_componentOf := (sc_componentOf st)[member := component]\<rparr>;
          members' = members @ [member]
      in if member = node then st'\<lparr>sc_components := sc_components st @ [members']\<rparr>
         else pop_members node component rest members' st')"

primrec scc_visit :: "nat \<Rightarrow> int_map \<Rightarrow> nat \<Rightarrow> scc_state \<Rightarrow> scc_state" where
  "scc_visit 0 out node st = st"
| "scc_visit (Suc fuel) out node st =
     (let st' = foldl (successor_step (scc_visit fuel out) node) (enter_node node st) (out_at out node)
      in if sc_lowLink st' ! node \<noteq> sc_indices st' ! node then st'
         else pop_members node (length (sc_components st')) (sc_stack st') [] st')"

definition scc_start :: "nat \<Rightarrow> scc_state" where
  "scc_start count =
     \<lparr>sc_indices = replicate count (-1), sc_lowLink = replicate count 0, sc_onStack = replicate count False, sc_stack = [],
      sc_nextIndex = 0, sc_componentOf = replicate count 0, sc_components = []\<rparr>"

definition scc_run :: "int_map \<Rightarrow> nat \<Rightarrow> scc_state" where
  "scc_run out count =
     foldl (\<lambda>st node. if sc_indices st ! node = -1 then scc_visit count out node st else st) (scc_start count) [0..<count]"

definition stronglyConnectedPlanComponents :: "int_map \<Rightarrow> nat \<Rightarrow> nat list \<times> nat list list" where
  "stronglyConnectedPlanComponents out count = (let st = scc_run out count in (sc_componentOf st, sc_components st))"

lemma sorted_wrt_distinct: "sorted_wrt P xs \<Longrightarrow> (\<And>x. \<not> P x x) \<Longrightarrow> distinct xs"
  by (induction xs) auto

subsection \<open>The loop that pops a component\<close>

lemma pop_members_result:
  assumes "node \<notin> set s" "distinct s"
    and "set s \<subseteq> {..<length (sc_onStack st)}" "set s \<subseteq> {..<length (sc_componentOf st)}"
    and "node < length (sc_onStack st)" "node < length (sc_componentOf st)"
  shows "let st' = pop_members node c (s @ node # rest) members st in
    sc_indices st' = sc_indices st \<and> sc_lowLink st' = sc_lowLink st \<and> sc_nextIndex st' = sc_nextIndex st \<and>
    sc_stack st' = rest \<and> sc_components st' = sc_components st @ [members @ s @ [node]] \<and>
    length (sc_onStack st') = length (sc_onStack st) \<and> length (sc_componentOf st') = length (sc_componentOf st) \<and>
    (\<forall>v < length (sc_onStack st). sc_onStack st' ! v \<longleftrightarrow> sc_onStack st ! v \<and> v \<notin> insert node (set s)) \<and>
    (\<forall>v < length (sc_componentOf st). sc_componentOf st' ! v = (if v \<in> insert node (set s) then c else sc_componentOf st ! v))"
  using assms
proof (induction s arbitrary: members st)
  case Nil
  then show ?case by (auto simp: Let_def nth_list_update)
next
  case (Cons a s)
  let ?st = "st\<lparr>sc_stack := s @ node # rest, sc_onStack := (sc_onStack st)[a := False],
    sc_componentOf := (sc_componentOf st)[a := c]\<rparr>"
  have "a \<noteq> node" using Cons.prems by auto
  then have step: "pop_members node c ((a # s) @ node # rest) members st = pop_members node c (s @ node # rest) (members @ [a]) ?st"
    by simp
  show ?case using Cons.IH [of ?st "members @ [a]"] Cons.prems unfolding step by (auto simp: Let_def nth_list_update)
qed

lemma pop_members_frame [simp]:
  "sc_indices (pop_members node c stack members st) = sc_indices st"
  "sc_lowLink (pop_members node c stack members st) = sc_lowLink st"
  "sc_nextIndex (pop_members node c stack members st) = sc_nextIndex st"
  by (induction node c stack members st rule: pop_members.induct) (auto simp: Let_def)

subsection \<open>Correctness of the search\<close>

definition plan_edges :: "int_map \<Rightarrow> nat \<Rightarrow> (nat \<times> nat) set" where
  "plan_edges out n = {(i, j). i < n \<and> j \<in> set (out_at out i)}"

definition strongly_connected :: "int_map \<Rightarrow> nat \<Rightarrow> nat \<Rightarrow> nat set" where
  \<comment> \<open>the strongly connected component of a node\<close>
  "strongly_connected out n v = {w. (v, w) \<in> (plan_edges out n)\<^sup>* \<and> (w, v) \<in> (plan_edges out n)\<^sup>*}"

definition targets_in_range :: "int_map \<Rightarrow> nat \<Rightarrow> bool" where
  "targets_in_range out n \<longleftrightarrow> (\<forall>i < n. \<forall>j \<in> set (out_at out i). j < n)"

text \<open>
  A graph over the nodes \<open>{..<n}\<close>. The invariant of the search has a part for the arrays, one for the stack, one for the
  finished components and one for the gray nodes, those with a call of \<^verbatim>\<open>visit\<close> in progress.
\<close>

locale plan_graph =
  fixes out :: int_map and n :: nat
  assumes range: "targets_in_range out n"
begin

abbreviation edges :: "(nat \<times> nat) set" where
  "edges \<equiv> plan_edges out n"

abbreviation connected :: "nat \<Rightarrow> nat set" where
  "connected \<equiv> strongly_connected out n"

definition visited :: "scc_state \<Rightarrow> nat set" where
  "visited st = {v. v < n \<and> sc_indices st ! v \<noteq> -1}"

definition finished :: "scc_state \<Rightarrow> nat set" where
  "finished st = set (concat (sc_components st))"

definition arrays_ok :: "scc_state \<Rightarrow> bool" where
  "arrays_ok st \<longleftrightarrow> length (sc_indices st) = n \<and> length (sc_lowLink st) = n \<and> length (sc_onStack st) = n \<and>
     length (sc_componentOf st) = n \<and> 0 \<le> sc_nextIndex st \<and>
     (\<forall>v \<in> visited st. 0 \<le> sc_indices st ! v \<and> sc_indices st ! v < sc_nextIndex st)"

definition stack_ok :: "scc_state \<Rightarrow> bool" where
  "stack_ok st \<longleftrightarrow> set (sc_stack st) \<subseteq> visited st \<and>
     sorted_wrt (\<lambda>a b. sc_indices st ! b < sc_indices st ! a) (sc_stack st) \<and>
     (\<forall>v < n. sc_onStack st ! v \<longleftrightarrow> v \<in> set (sc_stack st)) \<and>
     (\<forall>a \<in> set (sc_stack st). \<forall>b \<in> set (sc_stack st). sc_indices st ! a \<le> sc_indices st ! b \<longrightarrow> (a, b) \<in> edges\<^sup>*)"

definition finished_ok :: "scc_state \<Rightarrow> bool" where
  "finished_ok st \<longleftrightarrow> finished st = visited st - set (sc_stack st) \<and> distinct (concat (sc_components st)) \<and>
     (\<forall>i < length (sc_components st). \<forall>v \<in> set (sc_components st ! i). sc_componentOf st ! v = i) \<and>
     (\<forall>C \<in> set (sc_components st). C \<noteq> [] \<and> (\<forall>v \<in> set C. set C = connected v)) \<and>
     (\<forall>v \<in> finished st. \<forall>w \<in> set (out_at out v). w \<in> finished st \<and> sc_componentOf st ! w \<le> sc_componentOf st ! v)"

definition gray_ok :: "nat set \<Rightarrow> scc_state \<Rightarrow> bool" where
  "gray_ok gray st \<longleftrightarrow> gray \<subseteq> set (sc_stack st) \<and> (\<forall>v \<in> visited st - gray. set (out_at out v) \<subseteq> visited st) \<and>
     (\<forall>v \<in> set (sc_stack st). \<exists>w \<in> gray. sc_indices st ! w \<le> sc_indices st ! v \<and> (v, w) \<in> edges\<^sup>*)"

definition scc_inv :: "nat set \<Rightarrow> scc_state \<Rightarrow> bool" where
  "scc_inv gray st \<longleftrightarrow> arrays_ok st \<and> stack_ok st \<and> finished_ok st \<and> gray_ok gray st"

definition grows :: "nat set \<Rightarrow> scc_state \<Rightarrow> scc_state \<Rightarrow> bool" where
  \<comment> \<open>what a part of the search leaves as it was; the nodes in \<open>open'\<close> may get a smaller link\<close>
  "grows open' st st' \<longleftrightarrow> visited st \<subseteq> visited st' \<and>
     (\<forall>v \<in> visited st. sc_indices st' ! v = sc_indices st ! v) \<and>
     (\<forall>v \<in> visited st - open'. sc_lowLink st' ! v = sc_lowLink st ! v) \<and>
     (\<exists>s. sc_stack st' = s @ sc_stack st \<and> set s \<inter> visited st = {}) \<and> sc_nextIndex st \<le> sc_nextIndex st'"

lemma in_range: "i < n \<Longrightarrow> j \<in> set (out_at out i) \<Longrightarrow> j < n"
  using range by (simp add: targets_in_range_def)

lemma edge_reach: "i < n \<Longrightarrow> j \<in> set (out_at out i) \<Longrightarrow> (i, j) \<in> edges\<^sup>*"
  by (auto simp: plan_edges_def)

lemma grows_refl: "grows X st st"
  by (auto simp: grows_def)

lemma grows_trans: "grows X st st' \<Longrightarrow> grows X st' st'' \<Longrightarrow> grows X st st''"
  unfolding grows_def by (elim conjE exE) (intro conjI, auto)

lemma grows_weaken: "grows {} st st' \<Longrightarrow> grows X st st'"
  by (simp add: grows_def)

lemma visited_lower [simp]: "visited (lower_link node low st) = visited st"
  by (simp add: lower_link_def visited_def)

lemma finished_lower [simp]: "finished (lower_link node low st) = finished st"
  by (simp add: lower_link_def finished_def)

lemma lower_frame [simp]:
  "sc_indices (lower_link node low st) = sc_indices st" "sc_stack (lower_link node low st) = sc_stack st"
  "sc_onStack (lower_link node low st) = sc_onStack st" "sc_nextIndex (lower_link node low st) = sc_nextIndex st"
  "sc_componentOf (lower_link node low st) = sc_componentOf st" "sc_components (lower_link node low st) = sc_components st"
  "length (sc_lowLink (lower_link node low st)) = length (sc_lowLink st)"
  by (simp_all add: lower_link_def)

lemma lower_value: "node < length (sc_lowLink st) \<Longrightarrow> sc_lowLink (lower_link node low st) ! node = min low (sc_lowLink st ! node)"
  by (auto simp: lower_link_def)

lemma lower_other: "v \<noteq> node \<Longrightarrow> sc_lowLink (lower_link node low st) ! v = sc_lowLink st ! v"
  by (auto simp: lower_link_def)

lemma inv_lower [simp]: "scc_inv gray (lower_link node low st) \<longleftrightarrow> scc_inv gray st"
  by (simp add: scc_inv_def arrays_ok_def stack_ok_def finished_ok_def gray_ok_def)

lemma grows_lower: "grows {node} st st' \<Longrightarrow> grows {node} st (lower_link node low st')"
  by (simp add: grows_def lower_other)

lemma finishedD:
  assumes "finished_ok st"
  shows "finished st = visited st - set (sc_stack st)" "distinct (concat (sc_components st))"
    and "i < length (sc_components st) \<Longrightarrow> v \<in> set (sc_components st ! i) \<Longrightarrow> sc_componentOf st ! v = i"
    and "C \<in> set (sc_components st) \<Longrightarrow> C \<noteq> []" "C \<in> set (sc_components st) \<Longrightarrow> v \<in> set C \<Longrightarrow> set C = connected v"
    and "v \<in> finished st \<Longrightarrow> w \<in> set (out_at out v) \<Longrightarrow> w \<in> finished st"
    and "v \<in> finished st \<Longrightarrow> w \<in> set (out_at out v) \<Longrightarrow> sc_componentOf st ! w \<le> sc_componentOf st ! v"
  using assms unfolding finished_ok_def by blast+

lemma stackD:
  assumes "stack_ok st"
  shows "set (sc_stack st) \<subseteq> visited st" "sorted_wrt (\<lambda>a b. sc_indices st ! b < sc_indices st ! a) (sc_stack st)"
    and "v < n \<Longrightarrow> sc_onStack st ! v \<longleftrightarrow> v \<in> set (sc_stack st)"
    and "a \<in> set (sc_stack st) \<Longrightarrow> b \<in> set (sc_stack st) \<Longrightarrow> sc_indices st ! a \<le> sc_indices st ! b \<Longrightarrow> (a, b) \<in> edges\<^sup>*"
  using assms unfolding stack_ok_def by blast+

lemma grayD:
  assumes "gray_ok gray st"
  shows "gray \<subseteq> set (sc_stack st)" "v \<in> visited st \<Longrightarrow> v \<notin> gray \<Longrightarrow> set (out_at out v) \<subseteq> visited st"
    and "v \<in> set (sc_stack st) \<Longrightarrow> \<exists>w \<in> gray. sc_indices st ! w \<le> sc_indices st ! v \<and> (v, w) \<in> edges\<^sup>*"
  using assms unfolding gray_ok_def by blast+

text \<open>Entering a node.\<close>

lemma enter_inv:
  assumes inv: "scc_inv gray st" and node: "node < n" "sc_indices st ! node = -1" and path: "\<And>w. w \<in> gray \<Longrightarrow> (w, node) \<in> edges\<^sup>*"
  shows "scc_inv (insert node gray) (enter_node node st)" and "visited (enter_node node st) = insert node (visited st)"
    and "grows {} st (enter_node node st)"
proof -
  let ?st = "enter_node node st"
  have arrays: "arrays_ok st" and stack: "stack_ok st" and fin: "finished_ok st" and gray: "gray_ok gray st"
    using inv by (simp_all add: scc_inv_def)
  have len: "length (sc_indices st) = n" "length (sc_lowLink st) = n" "length (sc_onStack st) = n" "length (sc_componentOf st) = n"
    and next_ge: "0 \<le> sc_nextIndex st" using arrays by (simp_all add: arrays_ok_def)
  have new: "node \<notin> visited st" using node by (simp add: visited_def)
  have ix: "sc_indices ?st ! v = (if v = node then sc_nextIndex st else sc_indices st ! v)" for v
    using node len by (simp add: enter_node_def nth_list_update)
  show vis: "visited ?st = insert node (visited st)" using node next_ge ix by (auto simp: visited_def)
  have off: "node \<notin> set (sc_stack st)" using stack new by (auto simp: stack_ok_def)
  have old: "v \<in> set (sc_stack st) \<Longrightarrow> sc_indices st ! v < sc_nextIndex st" for v
    using stack arrays by (auto simp: stack_ok_def arrays_ok_def)
  show "grows {} st ?st"
  proof -
    have "sc_lowLink ?st ! v = sc_lowLink st ! v" if "v \<in> visited st" for v
      using that new by (cases "v = node") (simp_all add: enter_node_def)
    then show ?thesis unfolding grows_def vis using new ix by (auto simp: enter_node_def)
  qed
  have a: "arrays_ok ?st" using arrays ix unfolding arrays_ok_def vis by (auto simp: enter_node_def)
  have sorted: "sorted_wrt (\<lambda>a b. sc_indices ?st ! b < sc_indices ?st ! a) (sc_stack ?st)"
  proof -
    have "sorted_wrt (\<lambda>a b. sc_indices ?st ! b < sc_indices ?st ! a) (sc_stack st)"
    proof (rule sorted_wrt_mono_rel)
      show "sorted_wrt (\<lambda>a b. sc_indices st ! b < sc_indices st ! a) (sc_stack st)" using stack by (simp add: stack_ok_def)
      show "sc_indices ?st ! b < sc_indices ?st ! a"
        if "a \<in> set (sc_stack st)" "b \<in> set (sc_stack st)" "sc_indices st ! b < sc_indices st ! a" for a b
        using that off ix [of a] ix [of b] by auto
    qed
    then show ?thesis using old off ix by (auto simp: enter_node_def)
  qed
  have reach: "(v, node) \<in> edges\<^sup>*" if "v \<in> set (sc_stack st)" for v
  proof -
    have "\<exists>w \<in> gray. sc_indices st ! w \<le> sc_indices st ! v \<and> (v, w) \<in> edges\<^sup>*" using gray that by (simp add: gray_ok_def)
    then obtain w where w: "w \<in> gray" "(v, w) \<in> edges\<^sup>*" by auto
    show ?thesis by (rule rtrancl_trans [OF w(2) path [OF w(1)]])
  qed
  have ordered: "(a, b) \<in> edges\<^sup>*"
    if "a \<in> set (sc_stack ?st)" "b \<in> set (sc_stack ?st)" "sc_indices ?st ! a \<le> sc_indices ?st ! b" for a b
  proof (cases "b = node")
    case True
    then show ?thesis using that(1) reach by (auto simp: enter_node_def)
  next
    case False
    then have b: "b \<in> set (sc_stack st)" using that(2) by (simp add: enter_node_def)
    then have "a \<noteq> node" using that(3) ix False old [of b] by auto
    then show ?thesis using that b False ix stack by (auto simp: stack_ok_def enter_node_def)
  qed
  have on: "\<forall>v < n. sc_onStack ?st ! v \<longleftrightarrow> v \<in> set (sc_stack ?st)"
  proof (intro allI impI)
    fix v assume "v < n"
    then show "sc_onStack ?st ! v \<longleftrightarrow> v \<in> set (sc_stack ?st)"
      using stackD(3) [OF stack] len by (cases "v = node") (simp_all add: enter_node_def)
  qed
  have s: "stack_ok ?st"
    unfolding stack_ok_def vis using sorted ordered on stack by (auto simp: stack_ok_def enter_node_def)
  have f: "finished_ok ?st"
  proof -
    have feq: "finished ?st = finished st" by (simp add: finished_def enter_node_def)
    have veq: "visited ?st - set (sc_stack ?st) = visited st - set (sc_stack st)"
      unfolding vis using new by (auto simp: enter_node_def)
    have ceq: "sc_components ?st = sc_components st" "sc_componentOf ?st = sc_componentOf st" by (simp_all add: enter_node_def)
    show ?thesis using fin unfolding finished_ok_def feq veq ceq .
  qed
  have g: "gray_ok (insert node gray) ?st"
    unfolding gray_ok_def
  proof (intro conjI ballI)
    show "insert node gray \<subseteq> set (sc_stack ?st)" using gray by (auto simp: gray_ok_def enter_node_def)
    show "set (out_at out v) \<subseteq> visited ?st" if "v \<in> visited ?st - insert node gray" for v
      using that gray unfolding vis gray_ok_def by blast
    show "\<exists>w \<in> insert node gray. sc_indices ?st ! w \<le> sc_indices ?st ! v \<and> (v, w) \<in> edges\<^sup>*" if "v \<in> set (sc_stack ?st)" for v
    proof (cases "v = node")
      case False
      then have "v \<in> set (sc_stack st)" using that by (simp add: enter_node_def)
      then obtain w where w: "w \<in> gray" "sc_indices st ! w \<le> sc_indices st ! v" "(v, w) \<in> edges\<^sup>*"
        using gray unfolding gray_ok_def by blast
      moreover have "w \<noteq> node" using w(1) gray off unfolding gray_ok_def by blast
      ultimately show ?thesis using ix False by auto
    qed auto
  qed
  show "scc_inv (insert node gray) ?st" using a s f g by (simp add: scc_inv_def)
qed

text \<open>Leaving a node that is the root of its component: what is above it on the stack becomes a component.\<close>

lemma pop_inv:
  assumes inv: "scc_inv (insert node gray) st" and stack_eq: "sc_stack st = s @ node # rest" and gray: "gray \<subseteq> set rest"
    and covered: "set (out_at out node) \<subseteq> visited st"
    and root: "\<And>u w. u \<in> insert node (set s) \<Longrightarrow> w \<in> set rest \<Longrightarrow> w \<notin> set (out_at out u)"
  defines "st' \<equiv> pop_members node (length (sc_components st)) (sc_stack st) [] st"
  shows "scc_inv gray st'" and "sc_stack st' = rest"
proof -
  let ?C = "insert node (set s)"
  have arrays: "arrays_ok st" and stack: "stack_ok st" and fin: "finished_ok st" and gr: "gray_ok (insert node gray) st"
    using inv by (simp_all add: scc_inv_def)
  have len: "length (sc_indices st) = n" "length (sc_onStack st) = n" "length (sc_componentOf st) = n"
    using arrays by (simp_all add: arrays_ok_def)
  have sorted: "sorted_wrt (\<lambda>a b. sc_indices st ! b < sc_indices st ! a) (s @ node # rest)"
    using stack stack_eq by (simp add: stack_ok_def)
  have above: "sc_indices st ! node < sc_indices st ! v" if "v \<in> set s" for v
    using sorted that by (auto simp: sorted_wrt_append)
  have below: "sc_indices st ! w < sc_indices st ! v" if "v \<in> ?C" "w \<in> set rest" for v w
    using sorted that by (auto simp: sorted_wrt_append)
  have "distinct (s @ node # rest)"
    using sorted by (rule sorted_wrt_distinct) simp
  then have dist: "distinct s" "node \<notin> set s" "node \<notin> set rest" "set s \<inter> set rest = {}" by auto
  have nodes: "?C \<subseteq> visited st" "set rest \<subseteq> visited st" using stack stack_eq by (auto simp: stack_ok_def)
  then have range: "?C \<subseteq> {..<n}" by (auto simp: visited_def)
  have result: "sc_stack st' = rest" "sc_components st' = sc_components st @ [s @ [node]]"
    "sc_indices st' = sc_indices st" "sc_lowLink st' = sc_lowLink st" "sc_nextIndex st' = sc_nextIndex st"
    "length (sc_onStack st') = n" "length (sc_componentOf st') = n"
    and on: "\<And>v. v < n \<Longrightarrow> sc_onStack st' ! v \<longleftrightarrow> sc_onStack st ! v \<and> v \<notin> ?C"
    and cof: "\<And>v. v < n \<Longrightarrow> sc_componentOf st' ! v = (if v \<in> ?C then length (sc_components st) else sc_componentOf st ! v)"
    using pop_members_result [of node s st "length (sc_components st)" rest "[]"] dist range len
    unfolding st'_def stack_eq by (auto simp: Let_def)
  show "sc_stack st' = rest" by (rule result)
  have vis: "visited st' = visited st" by (simp add: visited_def result)
  have fin': "finished st' = finished st \<union> ?C" by (auto simp: finished_def result)
  have disj: "finished st \<inter> ?C = {}" using fin stack_eq by (auto simp: finished_ok_def)
  have succ: "w \<in> ?C \<union> finished st" if "u \<in> ?C" "w \<in> set (out_at out u)" for u w
  proof -
    have "u \<notin> gray" if "u \<in> set s" for u using gray dist that by auto
    then have "set (out_at out u) \<subseteq> visited st"
      using that(1) gr covered nodes(1) dist(2) unfolding gray_ok_def by (cases "u = node") auto
    then have "w \<in> visited st" using that(2) by blast
    then show ?thesis using root [OF that(1)] that(2) fin stack_eq by (auto simp: finished_ok_def)
  qed
  have closed: "w \<in> finished st" if "v \<in> finished st" "(v, w) \<in> edges\<^sup>*" for v w
    using that(2)
  proof (induction rule: rtrancl_induct)
    case (step y z)
    then have "z \<in> set (out_at out y)" by (simp add: plan_edges_def)
    then show ?case by (rule finishedD(6) [OF fin step.IH])
  qed (rule that(1))
  have reached: "w \<in> ?C \<union> finished st" if "v \<in> ?C" "(v, w) \<in> edges\<^sup>*" for v w
    using that(2,1)
  proof (induction rule: rtrancl_induct)
    case (step y z)
    then show ?case using succ closed [of y z] by (auto simp: plan_edges_def)
  qed (use that(1) in blast)
  have to_node: "(v, node) \<in> edges\<^sup>*" if "v \<in> ?C" for v
  proof -
    have "v \<in> set (sc_stack st)" using that stack_eq by auto
    then obtain w where w: "w \<in> insert node gray" "sc_indices st ! w \<le> sc_indices st ! v" "(v, w) \<in> edges\<^sup>*"
      using gr unfolding gray_ok_def by blast
    show ?thesis
    proof (cases "w = node")
      case False
      then have "w \<in> set rest" using w gray by auto
      then have "(w, node) \<in> edges\<^sup>*" using stack stack_eq below [of node w] unfolding stack_ok_def by auto
      then show ?thesis using w(3) by (meson rtrancl_trans)
    qed (use w in simp)
  qed
  have from_node: "(node, v) \<in> edges\<^sup>*" if "v \<in> ?C" for v
    using that stack stack_eq above [of v] unfolding stack_ok_def by auto
  have comp: "?C = connected v" if "v \<in> ?C" for v
  proof
    show "?C \<subseteq> connected v" using to_node from_node that unfolding strongly_connected_def by (auto intro: rtrancl_trans)
    show "connected v \<subseteq> ?C"
    proof
      fix w assume "w \<in> connected v"
      then have "(v, w) \<in> edges\<^sup>*" "(w, v) \<in> edges\<^sup>*" by (auto simp: strongly_connected_def)
      then show "w \<in> ?C" using reached [OF that] closed [of w v] that disj by auto
    qed
  qed
  have a: "arrays_ok st'" using arrays by (simp add: arrays_ok_def vis result)
  have s': "stack_ok st'"
    unfolding stack_ok_def vis result(1,3)
  proof (intro conjI)
    show "set rest \<subseteq> visited st" by (rule nodes)
    show "sorted_wrt (\<lambda>a b. sc_indices st ! b < sc_indices st ! a) rest" using sorted by (simp add: sorted_wrt_append)
    show "\<forall>v < n. sc_onStack st' ! v \<longleftrightarrow> v \<in> set rest"
      using on stack stack_eq dist unfolding stack_ok_def by auto
    show "\<forall>a \<in> set rest. \<forall>b \<in> set rest. sc_indices st ! a \<le> sc_indices st ! b \<longrightarrow> (a, b) \<in> edges\<^sup>*"
      using stack stack_eq unfolding stack_ok_def by auto
  qed
  have old_fin: "v < n \<and> sc_componentOf st' ! v = sc_componentOf st ! v" if "v \<in> finished st" for v
  proof -
    have "v \<in> visited st" using that finishedD(1) [OF fin] by blast
    then have "v < n" by (simp add: visited_def)
    moreover have "v \<notin> ?C" using that disj by blast
    ultimately show ?thesis using cof [of v] by simp
  qed
  have old_less: "sc_componentOf st ! v < length (sc_components st)" if "v \<in> finished st" for v
  proof -
    have "v \<in> finished st" by (rule that)
    then obtain C where "C \<in> set (sc_components st)" "v \<in> set C" by (auto simp: finished_def)
    then obtain i where "i < length (sc_components st)" "v \<in> set (sc_components st ! i)" by (auto simp: in_set_conv_nth)
    then show ?thesis using finishedD(3) [OF fin] by simp
  qed
  have f: "finished_ok st'"
    unfolding finished_ok_def
  proof (intro conjI)
    show "finished st' = visited st' - set (sc_stack st')"
      unfolding fin' vis result(1) finishedD(1) [OF fin] stack_eq using dist nodes by auto
    show "distinct (concat (sc_components st'))"
      using finishedD(2) [OF fin] disj dist by (auto simp: result finished_def)
    show "\<forall>i < length (sc_components st'). \<forall>v \<in> set (sc_components st' ! i). sc_componentOf st' ! v = i"
    proof (intro allI impI ballI)
      fix i v assume i: "i < length (sc_components st')" and v: "v \<in> set (sc_components st' ! i)"
      show "sc_componentOf st' ! v = i"
      proof (cases "i < length (sc_components st)")
        case True
        then have "v \<in> set (sc_components st ! i)" using v by (simp add: result nth_append)
        moreover have "v \<in> finished st" using True calculation nth_mem [OF True] unfolding finished_def by auto
        ultimately show ?thesis using finishedD(3) [OF fin True] old_fin by simp
      next
        case False
        then have "i = length (sc_components st)" using i by (simp add: result)
        then show ?thesis using v cof range by (auto simp: result)
      qed
    qed
    show "\<forall>C \<in> set (sc_components st'). C \<noteq> [] \<and> (\<forall>v \<in> set C. set C = connected v)"
    proof
      fix C assume "C \<in> set (sc_components st')"
      then consider "C \<in> set (sc_components st)" | "C = s @ [node]" by (auto simp: result)
      then show "C \<noteq> [] \<and> (\<forall>v \<in> set C. set C = connected v)"
      proof cases
        case 1
        then show ?thesis using finishedD(4,5) [OF fin] by blast
      next
        case 2
        then show ?thesis using comp by simp
      qed
    qed
    show "\<forall>v \<in> finished st'. \<forall>w \<in> set (out_at out v). w \<in> finished st' \<and> sc_componentOf st' ! w \<le> sc_componentOf st' ! v"
    proof (intro ballI)
      fix v w assume v: "v \<in> finished st'" and w: "w \<in> set (out_at out v)"
      show "w \<in> finished st' \<and> sc_componentOf st' ! w \<le> sc_componentOf st' ! v"
      proof (cases "v \<in> finished st")
        case True
        then show ?thesis using finishedD(6,7) [OF fin True w] old_fin unfolding fin' by simp
      next
        case False
        then have "v \<in> ?C" using v fin' by auto
        moreover from this have "w \<in> ?C \<union> finished st" by (rule succ [OF _ w])
        moreover have "sc_componentOf st' ! u = length (sc_components st)" if "u \<in> ?C" for u using that cof range by auto
        ultimately show ?thesis using fin' old_fin [of w] old_less [of w] by fastforce
      qed
    qed
  qed
  have g: "gray_ok gray st'"
    unfolding gray_ok_def vis result(1,3)
  proof (intro conjI ballI)
    show "gray \<subseteq> set rest" by (rule gray)
    show "set (out_at out v) \<subseteq> visited st" if "v \<in> visited st - gray" for v
      using that gr covered unfolding gray_ok_def by blast
    show "\<exists>w \<in> gray. sc_indices st ! w \<le> sc_indices st ! v \<and> (v, w) \<in> edges\<^sup>*" if "v \<in> set rest" for v
    proof -
      have "v \<in> set (sc_stack st)" using that stack_eq by simp
      from grayD(3) [OF gr this] obtain w where w: "w \<in> insert node gray" "sc_indices st ! w \<le> sc_indices st ! v" "(v, w) \<in> edges\<^sup>*"
        by blast
      then have "w \<noteq> node" using below [of node v] that by auto
      then show ?thesis using w by blast
    qed
  qed
  show "scc_inv gray st'" using a s' f g by (simp add: scc_inv_def)
qed

text \<open>
  The contract of a call of \<^verbatim>\<open>visit\<close> for a node that was not visited. Its link is below its index exactly when the node
  stays on the stack, and then it is the index of a node further down that it reaches; edges from what the call left on the
  stack to what was there before do not lead below the link.
\<close>

definition visit_ok :: "(nat \<Rightarrow> scc_state \<Rightarrow> scc_state) \<Rightarrow> nat set \<Rightarrow> scc_state \<Rightarrow> nat \<Rightarrow> bool" where
  "visit_ok v gray st node \<longleftrightarrow> (let st' = v node st in
     scc_inv gray st' \<and> grows {} st st' \<and> node \<in> visited st' \<and>
     (sc_stack st' = sc_stack st \<and> sc_nextIndex st \<le> sc_lowLink st' ! node \<or>
      (\<exists>y \<in> set (sc_stack st). sc_indices st ! y = sc_lowLink st' ! node \<and> (node, y) \<in> edges\<^sup>*)) \<and>
     (\<forall>s. sc_stack st' = s @ sc_stack st \<longrightarrow>
        (\<forall>u \<in> set s. \<forall>w \<in> set (sc_stack st) \<inter> set (out_at out u). sc_lowLink st' ! node \<le> sc_indices st ! w)))"

definition loop_ok :: "nat set \<Rightarrow> scc_state \<Rightarrow> nat \<Rightarrow> nat list \<Rightarrow> scc_state \<Rightarrow> bool" where
  \<comment> \<open>the state after the successors \<open>ws\<close> of \<open>node\<close>, whose call began in \<open>st\<close>\<close>
  "loop_ok gray st node ws st' \<longleftrightarrow>
     scc_inv (insert node gray) st' \<and> grows {node} (enter_node node st) st' \<and> set ws \<subseteq> visited st' \<and>
     (\<exists>y \<in> set (node # sc_stack st). sc_indices st' ! y = sc_lowLink st' ! node \<and> (node, y) \<in> edges\<^sup>*) \<and>
     (\<forall>w \<in> set (sc_stack st) \<inter> set ws. sc_lowLink st' ! node \<le> sc_indices st ! w) \<and>
     (\<forall>s. sc_stack st' = s @ node # sc_stack st \<longrightarrow>
        (\<forall>u \<in> set s. \<forall>w \<in> set (sc_stack st) \<inter> set (out_at out u). sc_lowLink st' ! node \<le> sc_indices st ! w))"

lemma loop_enter:
  assumes "scc_inv gray st" "node < n" "sc_indices st ! node = -1" "\<And>w. w \<in> gray \<Longrightarrow> (w, node) \<in> edges\<^sup>*"
  shows "loop_ok gray st node [] (enter_node node st)"
proof -
  have "length (sc_indices st) = n" "length (sc_lowLink st) = n" using assms(1) by (simp_all add: scc_inv_def arrays_ok_def)
  then show ?thesis
    using enter_inv [OF assms] assms(2) grows_refl by (simp add: loop_ok_def enter_node_def)
qed

lemma index_less:
  assumes "scc_inv gray st" "v \<in> visited st"
  shows "sc_indices st ! v < sc_nextIndex st" "v < n"
  using assms by (auto simp: scc_inv_def arrays_ok_def visited_def)

lemma grows_index: "grows X st st' \<Longrightarrow> v \<in> visited st \<Longrightarrow> sc_indices st' ! v = sc_indices st ! v"
  by (simp add: grows_def)

lemma loopD:
  assumes "loop_ok gray st node ws st'"
  shows "scc_inv (insert node gray) st'" "grows {node} (enter_node node st) st'" "set ws \<subseteq> visited st'"
    and "w \<in> set (sc_stack st) \<Longrightarrow> w \<in> set ws \<Longrightarrow> sc_lowLink st' ! node \<le> sc_indices st ! w"
    and "sc_stack st' = s @ node # sc_stack st \<Longrightarrow> u \<in> set s \<Longrightarrow> w \<in> set (sc_stack st) \<Longrightarrow> w \<in> set (out_at out u) \<Longrightarrow>
      sc_lowLink st' ! node \<le> sc_indices st ! w"
  using assms unfolding loop_ok_def by blast+

lemma loop_stack:
  assumes "loop_ok gray st node ws st'"
  obtains s where "sc_stack st' = s @ node # sc_stack st"
proof -
  have "\<exists>s. sc_stack st' = s @ sc_stack (enter_node node st)" using assms by (auto simp: loop_ok_def grows_def)
  then show thesis using that by (auto simp: enter_node_def)
qed

text \<open>One successor of a node.\<close>

definition visit_pre :: "nat set \<Rightarrow> scc_state \<Rightarrow> nat \<Rightarrow> bool" where
  "visit_pre gray st node \<longleftrightarrow> scc_inv gray st \<and> node < n \<and> sc_indices st ! node = -1 \<and> (\<forall>w \<in> gray. (w, node) \<in> edges\<^sup>*)"

lemma loop_facts:
  assumes pre: "visit_pre gray st node" and loop: "loop_ok gray st node ws st'"
  shows "u \<in> visited st \<Longrightarrow> sc_indices st' ! u = sc_indices st ! u" and "sc_indices st' ! node = sc_nextIndex st"
    and "node \<in> visited st'" and "set (sc_stack st) \<subseteq> visited st" and "visited st \<subseteq> visited st'"
    and "sc_lowLink st' ! node \<le> sc_indices st' ! node"
    and "w \<in> set (sc_stack st') \<Longrightarrow> sc_indices st' ! w < sc_indices st' ! node \<Longrightarrow> w \<in> set (sc_stack st)"
proof -
  have inv: "scc_inv gray st" and node: "node < n" "sc_indices st ! node = -1" using pre by (simp_all add: visit_pre_def)
  have path: "\<And>w. w \<in> gray \<Longrightarrow> (w, node) \<in> edges\<^sup>*" using pre by (simp add: visit_pre_def)
  note enter = enter_inv [OF inv node path]
  have grow: "grows {node} (enter_node node st) st'" and inv': "scc_inv (insert node gray) st'" using loop by (simp_all add: loop_ok_def)
  have vis: "visited st \<subseteq> visited (enter_node node st)" "node \<in> visited (enter_node node st)" using enter(2) by auto
  show ix: "sc_indices st' ! u = sc_indices st ! u" if "u \<in> visited st" for u
    using grows_index [OF grow, of u] grows_index [OF enter(3) that] vis that by auto
  have "length (sc_indices st) = n" using inv by (simp add: scc_inv_def arrays_ok_def)
  then show nx: "sc_indices st' ! node = sc_nextIndex st" using grows_index [OF grow vis(2)] node by (simp add: enter_node_def)
  have mono: "visited (enter_node node st) \<subseteq> visited st'" using grow by (simp add: grows_def)
  then show "node \<in> visited st'" "visited st \<subseteq> visited st'" using vis by auto
  show sub: "set (sc_stack st) \<subseteq> visited st" using inv stackD(1) by (simp add: scc_inv_def)
  obtain y where y: "y \<in> set (node # sc_stack st)" "sc_indices st' ! y = sc_lowLink st' ! node"
    using loop by (auto simp: loop_ok_def)
  show "sc_lowLink st' ! node \<le> sc_indices st' ! node"
  proof (cases "y = node")
    case False
    then have "y \<in> visited st" using y sub by auto
    then show ?thesis using y ix nx index_less [OF inv] by force
  qed (use y in simp)
  show "w \<in> set (sc_stack st)" if "w \<in> set (sc_stack st')" "sc_indices st' ! w < sc_indices st' ! node"
  proof -
    obtain s where s: "sc_stack st' = s @ node # sc_stack st" by (rule loop_stack [OF loop])
    have "sorted_wrt (\<lambda>a b. sc_indices st' ! b < sc_indices st' ! a) (s @ node # sc_stack st)"
      using inv' stackD(2) [of st'] s by (simp add: scc_inv_def)
    then have "w \<notin> set s" "w \<noteq> node" using that(2) by (auto simp: sorted_wrt_append)
    then show ?thesis using that(1) s by auto
  qed
qed

lemma loop_step_seen:
  assumes pre: "visit_pre gray st node" and loop: "loop_ok gray st node ws st'"
    and arc: "w \<in> set (out_at out node)" "sc_indices st' ! w \<noteq> -1"
  shows "loop_ok gray st node (ws @ [w]) (successor_step v node st' w)"
proof -
  note facts = loop_facts [OF pre loop]
  have inv': "scc_inv (insert node gray) st'" and grow: "grows {node} (enter_node node st) st'" using loop by (simp_all add: loop_ok_def)
  have node: "node < n" using pre by (simp add: visit_pre_def)
  have w: "w \<in> visited st'" "w < n" using arc in_range [OF node] by (auto simp: visited_def)
  have on: "sc_onStack st' ! w \<longleftrightarrow> w \<in> set (sc_stack st')" using inv' stackD(3) w(2) by (simp add: scc_inv_def)
  have len: "node < length (sc_lowLink st')" using inv' node by (simp add: scc_inv_def arrays_ok_def)
  obtain s where s: "sc_stack st' = s @ node # sc_stack st" by (rule loop_stack [OF loop])
  show ?thesis
  proof (cases "w \<in> set (sc_stack st')")
    case False
    then show ?thesis using loop w on s arc(2) by (auto simp: loop_ok_def successor_step_def)
  next
    case True
    let ?st = "lower_link node (sc_indices st' ! w) st'"
    have low: "sc_lowLink ?st ! node = min (sc_indices st' ! w) (sc_lowLink st' ! node)" by (rule lower_value [OF len])
    obtain y where y: "y \<in> set (node # sc_stack st)" "sc_indices st' ! y = sc_lowLink st' ! node" "(node, y) \<in> edges\<^sup>*"
      using loop by (auto simp: loop_ok_def)
    have link: "\<exists>y \<in> set (node # sc_stack st). sc_indices ?st ! y = sc_lowLink ?st ! node \<and> (node, y) \<in> edges\<^sup>*"
    proof (cases "sc_indices st' ! w < sc_lowLink st' ! node")
      case True
      then have "w \<in> set (sc_stack st)" using facts(6,7) \<open>w \<in> set (sc_stack st')\<close> by auto
      then show ?thesis using True low edge_reach [OF node arc(1)] by auto
    qed (use y low in auto)
    have stack: "sc_lowLink ?st ! node \<le> sc_indices st ! u" if "u \<in> set (sc_stack st)" "u \<in> set (ws @ [w])" for u
    proof (cases "u \<in> set ws")
      case True
      then show ?thesis using loopD(4) [OF loop that(1)] low by simp
    next
      case False
      then have "u = w" using that(2) by simp
      then show ?thesis using facts(1) [of w] facts(4) that(1) low by auto
    qed
    have "\<forall>s. sc_stack ?st = s @ node # sc_stack st \<longrightarrow>
        (\<forall>u \<in> set s. \<forall>w \<in> set (sc_stack st) \<inter> set (out_at out u). sc_lowLink ?st ! node \<le> sc_indices st ! w)"
      using loopD(5) [OF loop] low by (auto simp: min.coboundedI2)
    moreover have "set (ws @ [w]) \<subseteq> visited ?st" using loop w by (simp add: loop_ok_def)
    ultimately have "loop_ok gray st node (ws @ [w]) ?st"
      unfolding loop_ok_def using inv' grows_lower [OF grow] link stack by simp
    then show ?thesis using arc(2) on True by (simp add: successor_step_def)
  qed
qed

lemma loop_step_new:
  assumes pre: "visit_pre gray st node" and loop: "loop_ok gray st node ws st'"
    and arc: "w \<in> set (out_at out node)" "sc_indices st' ! w = -1" and call: "visit_ok v (insert node gray) st' w"
  shows "loop_ok gray st node (ws @ [w]) (successor_step v node st' w)"
proof -
  note facts = loop_facts [OF pre loop]
  have inv': "scc_inv (insert node gray) st'" and grow: "grows {node} (enter_node node st) st'" using loop by (simp_all add: loop_ok_def)
  have node: "node < n" using pre by (simp add: visit_pre_def)
  define st1 where "st1 = v w st'"
  let ?st = "lower_link node (sc_lowLink st1 ! w) st1"
  have inv1: "scc_inv (insert node gray) st1" and grow1: "grows {} st' st1" and w1: "w \<in> visited st1"
    and ret: "sc_stack st1 = sc_stack st' \<and> sc_nextIndex st' \<le> sc_lowLink st1 ! w \<or>
      (\<exists>y \<in> set (sc_stack st'). sc_indices st' ! y = sc_lowLink st1 ! w \<and> (w, y) \<in> edges\<^sup>*)"
    and esc: "\<And>s u x. sc_stack st1 = s @ sc_stack st' \<Longrightarrow> u \<in> set s \<Longrightarrow> x \<in> set (sc_stack st') \<Longrightarrow> x \<in> set (out_at out u) \<Longrightarrow>
      sc_lowLink st1 ! w \<le> sc_indices st' ! x"
    using call unfolding visit_ok_def st1_def Let_def by blast+
  have len: "node < length (sc_lowLink st1)" using inv1 node by (simp add: scc_inv_def arrays_ok_def)
  have ix: "sc_indices st1 ! u = sc_indices st' ! u" if "u \<in> visited st'" for u by (rule grows_index [OF grow1 that])
  have same: "sc_lowLink st1 ! node = sc_lowLink st' ! node" using grow1 facts(3) by (simp add: grows_def)
  have low: "sc_lowLink ?st ! node = min (sc_lowLink st1 ! w) (sc_lowLink st' ! node)" using lower_value [OF len] same by simp
  have grow2: "grows {node} (enter_node node st) st1"
    by (rule grows_trans [OF grow grows_weaken [OF grow1]])
  have link: "\<exists>y \<in> set (node # sc_stack st). sc_indices ?st ! y = sc_lowLink ?st ! node \<and> (node, y) \<in> edges\<^sup>*"
  proof (cases "sc_lowLink st1 ! w < sc_lowLink st' ! node")
    case True
    have "sc_lowLink st' ! node < sc_nextIndex st'" using facts(6) index_less(1) [OF inv' facts(3)] by simp
    then obtain y where y: "y \<in> set (sc_stack st')" "sc_indices st' ! y = sc_lowLink st1 ! w" "(w, y) \<in> edges\<^sup>*"
      using ret True by auto
    then have "y \<in> set (sc_stack st)" using facts(6,7) True by auto
    moreover have "(node, y) \<in> edges\<^sup>*" by (rule rtrancl_trans [OF edge_reach [OF node arc(1)] y(3)])
    ultimately show ?thesis using y ix [of y] facts(4,5) low True by auto
  next
    case False
    obtain y where y: "y \<in> set (node # sc_stack st)" "sc_indices st' ! y = sc_lowLink st' ! node" "(node, y) \<in> edges\<^sup>*"
      using loop by (auto simp: loop_ok_def)
    then have "y \<in> visited st'" using facts(3,4,5) by auto
    then show ?thesis using y ix low False by auto
  qed
  have fresh: "w \<notin> set (sc_stack st)" using facts(4,5) arc(2) by (auto simp: visited_def)
  have old: "sc_lowLink ?st ! node \<le> sc_indices st ! u" if "u \<in> set (sc_stack st)" "u \<in> set (ws @ [w])" for u
    using loopD(4) [OF loop that(1)] that fresh low by (auto simp: min.coboundedI2)
  have escape: "sc_lowLink ?st ! node \<le> sc_indices st ! x"
    if "sc_stack ?st = s @ node # sc_stack st" "u \<in> set s" "x \<in> set (sc_stack st)" "x \<in> set (out_at out u)" for s u x
  proof -
    obtain s0 where s0: "sc_stack st' = s0 @ node # sc_stack st" by (rule loop_stack [OF loop])
    have "\<exists>s2. sc_stack st1 = s2 @ sc_stack st'" using grow1 by (auto simp: grows_def)
    then obtain s2 where s2: "sc_stack st1 = s2 @ sc_stack st'" by blast
    then have "s = s2 @ s0" using that(1) s0 by simp
    then have "u \<in> set s2 \<union> set s0" using that(2) by simp
    then consider "u \<in> set s2" | "u \<in> set s0" by blast
    then show ?thesis
    proof cases
      case 1
      then have "sc_lowLink st1 ! w \<le> sc_indices st' ! x" using esc [OF s2 1] that(3,4) s0 by simp
      moreover have "sc_indices st' ! x = sc_indices st ! x" using facts(1,4) that(3) by blast
      ultimately show ?thesis using low by simp
    next
      case 2
      then have "sc_lowLink st' ! node \<le> sc_indices st ! x" using loop s0 that(3,4) by (auto simp: loop_ok_def)
      then show ?thesis using low by simp
    qed
  qed
  have "set (ws @ [w]) \<subseteq> visited ?st" using loop w1 grow1 by (auto simp: loop_ok_def grows_def)
  then have "loop_ok gray st node (ws @ [w]) ?st"
    unfolding loop_ok_def using inv1 grows_lower [OF grow2] link old escape by simp
  then show ?thesis using arc(2) by (simp add: successor_step_def st1_def Let_def)
qed

text \<open>A whole call.\<close>

lemma loop_all:
  assumes pre: "visit_pre gray st node" and sub: "set ws \<subseteq> set (out_at out node)"
    and call: "\<And>st' w. visit_pre (insert node gray) st' w \<Longrightarrow> insert node (visited st) \<subseteq> visited st' \<Longrightarrow> visit_ok v (insert node gray) st' w"
  shows "loop_ok gray st node ws (foldl (successor_step v node) (enter_node node st) ws)"
  using sub
proof (induction ws rule: rev_induct)
  case Nil
  show ?case using pre loop_enter by (simp add: visit_pre_def)
next
  case (snoc w ws)
  let ?st = "foldl (successor_step v node) (enter_node node st) ws"
  have loop: "loop_ok gray st node ws ?st" and w: "w \<in> set (out_at out node)" using snoc by auto
  note facts = loop_facts [OF pre loop]
  have node: "node < n" and path: "\<And>g. g \<in> gray \<Longrightarrow> (g, node) \<in> edges\<^sup>*" using pre by (auto simp: visit_pre_def)
  show ?case
  proof (cases "sc_indices ?st ! w = -1")
    case True
    have "(g, w) \<in> edges\<^sup>*" if "g \<in> insert node gray" for g
      using that path rtrancl_trans [OF _ edge_reach [OF node w]] by blast
    then have "visit_pre (insert node gray) ?st w"
      using loopD(1) [OF loop] True in_range [OF node w] by (simp add: visit_pre_def)
    then have "visit_ok v (insert node gray) ?st w" using call facts(3,5) by auto
    then show ?thesis using loop_step_new [OF pre loop w True] by simp
  next
    case False
    then show ?thesis using loop_step_seen [OF pre loop w] by simp
  qed
qed

lemma grows_enter:
  assumes pre: "visit_pre gray st node" and loop: "loop_ok gray st node ws st'"
  shows "grows {} st st'"
proof -
  have inv: "scc_inv gray st" and node: "node < n" "sc_indices st ! node = -1" and path: "\<And>w. w \<in> gray \<Longrightarrow> (w, node) \<in> edges\<^sup>*"
    using pre by (auto simp: visit_pre_def)
  note enter = enter_inv [OF inv node path]
  have new: "node \<notin> visited st" using node by (simp add: visited_def)
  have grow: "grows {node} (enter_node node st) st'" by (rule loopD(2) [OF loop])
  have low: "sc_lowLink st' ! v = sc_lowLink st ! v" if "v \<in> visited st" for v
  proof -
    have "v \<in> visited (enter_node node st) - {node}" using that new enter(2) by auto
    then show ?thesis using grow enter(3) that by (simp add: grows_def)
  qed
  obtain s where s: "sc_stack st' = s @ sc_stack (enter_node node st)" "set s \<inter> visited (enter_node node st) = {}"
    using grow by (auto simp: grows_def)
  have "sc_stack st' = (s @ [node]) @ sc_stack st" using s(1) by (simp add: enter_node_def)
  moreover have "set (s @ [node]) \<inter> visited st = {}" using s(2) new enter(2) by auto
  moreover have "sc_nextIndex st \<le> sc_nextIndex st'" using grow enter(3) by (auto simp: grows_def)
  ultimately show ?thesis
    unfolding grows_def using low loop_facts(1,5) [OF pre loop] by blast
qed

lemma visit_return_link:
  assumes pre: "visit_pre gray st node" and loop: "loop_ok gray st node (out_at out node) st'"
    and link: "sc_lowLink st' ! node \<noteq> sc_indices st' ! node"
  shows "scc_inv gray st'" and "\<exists>y \<in> set (sc_stack st). sc_indices st ! y = sc_lowLink st' ! node \<and> (node, y) \<in> edges\<^sup>*"
proof -
  note facts = loop_facts [OF pre loop]
  have inv': "scc_inv (insert node gray) st'" by (rule loopD(1) [OF loop])
  then have gr: "gray_ok (insert node gray) st'" by (simp add: scc_inv_def)
  obtain y where y: "y \<in> set (node # sc_stack st)" "sc_indices st' ! y = sc_lowLink st' ! node" "(node, y) \<in> edges\<^sup>*"
    using loop by (auto simp: loop_ok_def)
  then have y': "y \<in> set (sc_stack st)" using link by auto
  have less: "sc_indices st' ! y < sc_indices st' ! node" using y link facts(6) by simp
  show "\<exists>y \<in> set (sc_stack st). sc_indices st ! y = sc_lowLink st' ! node \<and> (node, y) \<in> edges\<^sup>*"
    using y y' facts(1,4) by (intro bexI [of _ y]) auto
  obtain s where s: "sc_stack st' = s @ node # sc_stack st" by (rule loop_stack [OF loop])
  have "y \<in> set (sc_stack st')" using y' s by simp
  from grayD(3) [OF gr this] obtain g where g: "g \<in> insert node gray" "sc_indices st' ! g \<le> sc_indices st' ! y" "(y, g) \<in> edges\<^sup>*"
    by blast
  then have g_old: "g \<in> gray" using less by auto
  have "gray_ok gray st'"
    unfolding gray_ok_def
  proof (intro conjI ballI)
    show "gray \<subseteq> set (sc_stack st')" using grayD(1) [OF gr] by simp
    show "set (out_at out v) \<subseteq> visited st'" if "v \<in> visited st' - gray" for v
      using that grayD(2) [OF gr, of v] loopD(3) [OF loop] by (cases "v = node") auto
    show "\<exists>w \<in> gray. sc_indices st' ! w \<le> sc_indices st' ! v \<and> (v, w) \<in> edges\<^sup>*" if "v \<in> set (sc_stack st')" for v
    proof -
      from grayD(3) [OF gr that] obtain w where w: "w \<in> insert node gray" "sc_indices st' ! w \<le> sc_indices st' ! v" "(v, w) \<in> edges\<^sup>*"
        by blast
      show ?thesis
      proof (cases "w \<in> gray")
        case False
        then have "w = node" using w(1) by simp
        then have "sc_indices st' ! g \<le> sc_indices st' ! v" "(v, node) \<in> edges\<^sup>*" using w g(2) less by simp_all
        moreover from this(2) have "(v, g) \<in> edges\<^sup>*" using rtrancl_trans [OF _ rtrancl_trans [OF y(3) g(3)]] by simp
        ultimately show ?thesis using g_old by blast
      qed (use w in blast)
    qed
  qed
  then show "scc_inv gray st'" using inv' by (simp add: scc_inv_def)
qed

lemma visit_return_root:
  assumes pre: "visit_pre gray st node" and loop: "loop_ok gray st node (out_at out node) st'"
    and root: "sc_lowLink st' ! node = sc_indices st' ! node"
  defines "st'' \<equiv> pop_members node (length (sc_components st')) (sc_stack st') [] st'"
  shows "scc_inv gray st''" and "sc_stack st'' = sc_stack st"
proof -
  note facts = loop_facts [OF pre loop]
  have inv: "scc_inv gray st" using pre by (simp add: visit_pre_def)
  obtain s where s: "sc_stack st' = s @ node # sc_stack st" by (rule loop_stack [OF loop])
  have no_arc: "w \<notin> set (out_at out u)" if "u \<in> insert node (set s)" "w \<in> set (sc_stack st)" for u w
  proof
    assume arc: "w \<in> set (out_at out u)"
    then have "sc_lowLink st' ! node \<le> sc_indices st ! w"
      using that loopD(4) [OF loop that(2)] loopD(5) [OF loop s _ that(2) arc] by auto
    moreover have "sc_indices st ! w < sc_nextIndex st" using index_less(1) [OF inv] facts(4) that(2) by auto
    ultimately show False using root facts(2) by simp
  qed
  have "gray \<subseteq> set (sc_stack st)" using inv grayD(1) by (simp add: scc_inv_def)
  then show "scc_inv gray st''" "sc_stack st'' = sc_stack st"
    using pop_inv [OF loopD(1) [OF loop] s _ loopD(3) [OF loop] no_arc] unfolding st''_def by auto
qed

lemma visit_correct:
  assumes "visit_pre gray st node" "card ({..<n} - visited st) \<le> fuel"
  shows "visit_ok (scc_visit fuel out) gray st node"
  using assms
proof (induction fuel arbitrary: gray st node)
  case 0
  have "node \<in> {..<n} - visited st" using 0(1) by (simp add: visit_pre_def visited_def)
  then show ?case using 0(2) by auto
next
  case (Suc fuel)
  note pre = Suc.prems(1)
  let ?st = "foldl (successor_step (scc_visit fuel out) node) (enter_node node st) (out_at out node)"
  have new: "node \<in> {..<n} - visited st" using pre by (simp add: visit_pre_def visited_def)
  have "visit_ok (scc_visit fuel out) (insert node gray) st' w"
    if "visit_pre (insert node gray) st' w" "insert node (visited st) \<subseteq> visited st'" for st' w
  proof (rule Suc.IH [OF that(1)])
    have "{..<n} - visited st' \<subset> {..<n} - visited st" using that(2) new by auto
    then have "card ({..<n} - visited st') < card ({..<n} - visited st)" by (intro psubset_card_mono) auto
    then show "card ({..<n} - visited st') \<le> fuel" using Suc.prems(2) by simp
  qed
  then have loop: "loop_ok gray st node (out_at out node) ?st" using loop_all [OF pre] by blast
  note facts = loop_facts [OF pre loop]
  have grow: "grows {} st ?st" by (rule grows_enter [OF pre loop])
  obtain s where s: "sc_stack ?st = s @ node # sc_stack st" by (rule loop_stack [OF loop])
  show ?case
  proof (cases "sc_lowLink ?st ! node = sc_indices ?st ! node")
    case True
    let ?st' = "pop_members node (length (sc_components ?st)) (sc_stack ?st) [] ?st"
    note root = visit_return_root [OF pre loop True]
    have "visited ?st' = visited ?st" by (simp add: visited_def)
    then have "grows {} st ?st'" "node \<in> visited ?st'" using grow facts(3) root(2) by (auto simp: grows_def)
    then show ?thesis using root True facts(2) by (simp add: visit_ok_def Let_def)
  next
    case False
    note link = visit_return_link [OF pre loop False]
    have "sc_lowLink ?st ! node \<le> sc_indices st ! w"
      if "sc_stack ?st = t @ sc_stack st" "u \<in> set t" "w \<in> set (sc_stack st)" "w \<in> set (out_at out u)" for t u w
    proof -
      have "t = s @ [node]" using that(1) s by simp
      then show ?thesis using that(2) loopD(4) [OF loop that(3)] loopD(5) [OF loop s _ that(3,4)] that(4) by auto
    qed
    then show ?thesis using link grow facts(3) False by (auto simp: visit_ok_def Let_def)
  qed
qed

text \<open>The loop over all nodes. No call is in progress between its iterations, so the stack is empty there.\<close>

lemma run_prefix:
  assumes "m \<le> n"
  shows "let st = foldl (\<lambda>st node. if sc_indices st ! node = -1 then scc_visit n out node st else st) (scc_start n) [0..<m]
    in scc_inv {} st \<and> {..<m} \<subseteq> visited st"
  using assms
proof (induction m)
  case 0
  have "visited (scc_start n) = {}" "finished (scc_start n) = {}" by (auto simp: visited_def finished_def scc_start_def)
  then show ?case
    by (simp add: scc_inv_def arrays_ok_def stack_ok_def finished_ok_def gray_ok_def) (simp add: scc_start_def)
next
  case (Suc m)
  let ?st = "foldl (\<lambda>st node. if sc_indices st ! node = -1 then scc_visit n out node st else st) (scc_start n) [0..<m]"
  have inv: "scc_inv {} ?st" and vis: "{..<m} \<subseteq> visited ?st" using Suc by (simp_all add: Let_def)
  show ?case
  proof (cases "sc_indices ?st ! m = -1")
    case True
    have "card ({..<n} - visited ?st) \<le> n" using card_mono [of "{..<n}" "{..<n} - visited ?st"] by auto
    then have "visit_ok (scc_visit n out) {} ?st m"
      using visit_correct [of "{}" ?st m n] inv True Suc.prems by (simp add: visit_pre_def)
    then show ?thesis using vis True by (auto simp: visit_ok_def grows_def Let_def less_Suc_eq)
  next
    case False
    then show ?thesis using inv vis Suc.prems by (auto simp: visited_def less_Suc_eq)
  qed
qed

lemma run_result:
  "scc_inv {} (scc_run out n)" "visited (scc_run out n) = {..<n}" "sc_stack (scc_run out n) = []"
proof -
  have run: "scc_inv {} (scc_run out n)" "{..<n} \<subseteq> visited (scc_run out n)"
    using run_prefix [of n] by (simp_all add: scc_run_def Let_def)
  then show "scc_inv {} (scc_run out n)" "visited (scc_run out n) = {..<n}" by (auto simp: visited_def)
  show "sc_stack (scc_run out n) = []" using run(1) by (cases "sc_stack (scc_run out n)") (auto simp: scc_inv_def gray_ok_def)
qed

lemma components_result:
  assumes "stronglyConnectedPlanComponents out n = (componentOf, components)"
  shows "length componentOf = n" "distinct (concat components)" "set (concat components) = {..<n}"
    and "i < length components \<Longrightarrow> components ! i \<noteq> []"
    and "i < length components \<Longrightarrow> v \<in> set (components ! i) \<Longrightarrow> componentOf ! v = i"
    and "i < length components \<Longrightarrow> v \<in> set (components ! i) \<Longrightarrow> set (components ! i) = strongly_connected out n v"
    and "i < n \<Longrightarrow> j \<in> set (out_at out i) \<Longrightarrow> componentOf ! j \<le> componentOf ! i"
proof -
  let ?st = "scc_run out n"
  have eq: "componentOf = sc_componentOf ?st" "components = sc_components ?st"
    using assms by (auto simp: stronglyConnectedPlanComponents_def Let_def)
  have inv: "finished_ok ?st" "arrays_ok ?st" using run_result(1) by (simp_all add: scc_inv_def)
  have fin: "finished ?st = {..<n}" using finishedD(1) [OF inv(1)] run_result by simp
  show "length componentOf = n" using inv(2) eq by (simp add: arrays_ok_def)
  show "distinct (concat components)" using finishedD(2) [OF inv(1)] eq by simp
  show "set (concat components) = {..<n}" using fin eq by (simp add: finished_def)
  show "components ! i \<noteq> []" if "i < length components"
    using finishedD(4) [OF inv(1), of "components ! i"] that eq by simp
  show "componentOf ! v = i" if "i < length components" "v \<in> set (components ! i)"
    using finishedD(3) [OF inv(1)] that eq by simp
  show "set (components ! i) = strongly_connected out n v" if "i < length components" "v \<in> set (components ! i)"
    using finishedD(5) [OF inv(1), of "components ! i" v] that eq by simp
  show "componentOf ! j \<le> componentOf ! i" if "i < n" "j \<in> set (out_at out i)"
    using finishedD(7) [OF inv(1), of i j] that eq fin by simp
qed

end

end
