(* ===== verification/Resolve_Kahn.thy ===== *)
theory Resolve_Kahn
  imports Resolve_Scc "HOL-Library.Multiset"
begin

text \<open>
  Kahn's algorithm as \<^verbatim>\<open>SortByDeps\<close> and \<^verbatim>\<open>sortPlannedActions\<close> of \<^verbatim>\<open>src/internal/resolve/resolve.go\<close> use it. The two differ in what they do with the queue
  after a push, which is the argument \<open>arrange\<close>: one leaves it, the other sorts it. The loop carries fuel and returns
  \<open>None\<close> when that runs out, which it does not when there is one unit for each node.
\<close>

subsection \<open>The loop\<close>

definition release :: "(nat list \<Rightarrow> nat list) \<Rightarrow> nat list \<times> int list \<Rightarrow> nat \<Rightarrow> nat list \<times> int list" where
  \<comment> \<open>one iteration over the successors of the node that left the queue: the queue and the in-degrees\<close>
  "release arrange st next =
     (case st of (queue, degree) \<Rightarrow>
        let degree' = degree[next := degree ! next - 1]
        in if degree' ! next = 0 then (arrange (queue @ [next]), degree') else (queue, degree'))"

primrec kahn_loop :: "nat \<Rightarrow> (nat list \<Rightarrow> nat list) \<Rightarrow> int_map \<Rightarrow> nat list \<times> int list \<Rightarrow> nat list option" where
  "kahn_loop 0 arrange out st = (if fst st = [] then Some [] else None)"
| "kahn_loop (Suc fuel) arrange out st =
     (case fst st of
        [] \<Rightarrow> Some []
      | node # queue \<Rightarrow>
          map_option (\<lambda>order. node # order)
            (kahn_loop fuel arrange out (foldl (release arrange) (queue, snd st) (out_at out node))))"

subsection \<open>Releasing successors\<close>

lemma release_fold:
  assumes perm: "\<And>q. mset (arrange q) = mset q"
    and pre: "distinct queue" "\<forall>v \<in> set queue. degree ! v = 0" "\<forall>v \<in> set xs. v < length degree"
      "\<forall>v. int (count_list xs v) \<le> degree ! v \<or> v \<notin> set xs"
  shows "let (queue', degree') = foldl (release arrange) (queue, degree) xs in
    length degree' = length degree \<and> (\<forall>v < length degree. degree' ! v = degree ! v - int (count_list xs v)) \<and>
    distinct queue' \<and> set queue' = set queue \<union> {v \<in> set xs. degree' ! v = 0}"
  using pre
proof (induction xs arbitrary: queue degree)
  case (Cons x xs)
  define degree1 where "degree1 = degree[x := degree ! x - 1]"
  define queue1 where "queue1 = (if degree1 ! x = 0 then arrange (queue @ [x]) else queue)"
  have x: "x < length degree" "int (count_list xs x) + 1 \<le> degree ! x" using Cons.prems by (auto split: if_splits)
  have new: "x \<notin> set queue" using Cons.prems(2) x by auto
  have d1: "degree1 ! v = (if v = x then degree ! x - 1 else degree ! v)" for v using x by (simp add: degree1_def nth_list_update)
  have set_arr: "set (arrange q) = set q" "distinct (arrange q) = distinct q" for q
    using perm [of q] mset_eq_setD mset_eq_imp_distinct_iff by blast+
  have step: "release arrange (queue, degree) x = (queue1, degree1)"
    by (simp add: release_def Let_def degree1_def queue1_def)
  have "distinct queue1" using Cons.prems(1) new by (simp add: queue1_def set_arr)
  moreover have "\<forall>v \<in> set queue1. degree1 ! v = 0" using Cons.prems(2) new d1 by (auto simp: queue1_def set_arr)
  moreover have "\<forall>v \<in> set xs. v < length degree1" using Cons.prems(3) by (simp add: degree1_def)
  moreover have "\<forall>v. int (count_list xs v) \<le> degree1 ! v \<or> v \<notin> set xs"
  proof
    fix v
    show "int (count_list xs v) \<le> degree1 ! v \<or> v \<notin> set xs"
      using Cons.prems(4) x(2) d1 [of v] by (cases "v = x") (auto split: if_splits)
  qed
  ultimately have IH: "let (queue', degree') = foldl (release arrange) (queue1, degree1) xs in
    length degree' = length degree1 \<and> (\<forall>v < length degree1. degree' ! v = degree1 ! v - int (count_list xs v)) \<and>
    distinct queue' \<and> set queue' = set queue1 \<union> {v \<in> set xs. degree' ! v = 0}"
    by (rule Cons.IH)
  obtain queue' degree' where fin: "foldl (release arrange) (queue1, degree1) xs = (queue', degree')" by force
  have len: "length degree1 = length degree" by (simp add: degree1_def)
  have deg: "degree' ! v = degree ! v - int (count_list (x # xs) v)" if "v < length degree" for v
    using IH fin that len d1 [of v] by simp
  have "{v \<in> set (x # xs). degree' ! v = 0} = {v \<in> set xs. degree' ! v = 0} \<union> (if degree1 ! x = 0 then {x} else {})"
  proof -
    have "degree' ! x = 0 \<longleftrightarrow> degree1 ! x = 0" if "x \<notin> set xs"
      using that deg [OF x(1)] d1 [of x] by (simp add: count_list_0_iff)
    moreover have "degree' ! x = 0" if "degree1 ! x = 0" using that x deg [OF x(1)] d1 [of x] by simp
    ultimately show ?thesis by auto
  qed
  then show ?case using IH fin len deg step by (auto simp: queue1_def set_arr)
qed simp

subsection \<open>The order of the nodes\<close>

lemma stuck_cycle:
  assumes "finite r" "left \<noteq> {}" "\<And>v. v \<in> left \<Longrightarrow> \<exists>u \<in> left. (u, v) \<in> r"
  shows "\<not> acyclic r"
proof
  assume "acyclic r"
  then have "wf r" by (rule finite_acyclic_wf [OF assms(1)])
  then obtain v where "v \<in> left" "\<forall>u. (u, v) \<in> r \<longrightarrow> u \<notin> left" using assms(2) by (metis wfE_min ex_in_conv)
  then show False using assms(3) by blast
qed

locale kahn_graph =
  fixes out :: int_map and m :: nat and arrange :: "nat list \<Rightarrow> nat list"
  assumes range: "targets_in_range out m" and perm: "mset (arrange queue) = mset queue"
begin

definition pending :: "nat set \<Rightarrow> nat \<Rightarrow> nat" where
  \<comment> \<open>the edges into a node from nodes that have not left the queue\<close>
  "pending emitted v = (\<Sum>u \<in> {..<m} - emitted. count_list (out_at out u) v)"

definition kahn_inv :: "nat set \<Rightarrow> nat list \<Rightarrow> int list \<Rightarrow> bool" where
  "kahn_inv emitted queue degree \<longleftrightarrow> emitted \<subseteq> {..<m} \<and> (\<forall>v \<in> emitted. pending emitted v = 0) \<and> length degree = m \<and>
     (\<forall>v < m. degree ! v = int (pending emitted v)) \<and> distinct queue \<and> set queue = {v. v < m \<and> v \<notin> emitted \<and> pending emitted v = 0}"

lemma pending_insert:
  assumes "node < m" "node \<notin> emitted"
  shows "pending emitted v = count_list (out_at out node) v + pending (insert node emitted) v"
proof -
  have eq: "{..<m} - emitted = insert node ({..<m} - insert node emitted)" using assms by auto
  show ?thesis unfolding pending_def by (subst eq) simp
qed

lemma pending_zero: "pending emitted v = 0 \<longleftrightarrow> (\<forall>u < m. v \<in> set (out_at out u) \<longrightarrow> u \<in> emitted)"
  by (auto simp: pending_def count_list_0_iff)

lemma kahnD:
  assumes "kahn_inv emitted queue degree"
  shows "emitted \<subseteq> {..<m}" "v \<in> emitted \<Longrightarrow> pending emitted v = 0" "length degree = m"
    and "v < m \<Longrightarrow> degree ! v = int (pending emitted v)" "distinct queue"
    and "v \<in> set queue \<longleftrightarrow> v < m \<and> v \<notin> emitted \<and> pending emitted v = 0"
  using assms by (simp_all add: kahn_inv_def)

lemma kahn_step:
  assumes inv: "kahn_inv emitted (node # queue) degree"
    and rel: "foldl (release arrange) (queue, degree) (out_at out node) = (queue', degree')"
  shows "kahn_inv (insert node emitted) queue' degree'"
proof -
  have node: "node < m" "node \<notin> emitted" "pending emitted node = 0" using kahnD(6) [OF inv, of node] by simp_all
  have dist: "distinct queue" "node \<notin> set queue" using kahnD(5) [OF inv] by simp_all
  note emitted = kahnD(1) [OF inv] and old = kahnD(2) [OF inv] and len = kahnD(3) [OF inv] and deg = kahnD(4) [OF inv]
  have queue: "v \<in> set queue \<longleftrightarrow> v \<noteq> node \<and> v < m \<and> v \<notin> emitted \<and> pending emitted v = 0" for v
    using kahnD(6) [OF inv, of v] dist(2) by auto
  note split = pending_insert [OF node(1,2)]
  have succ: "v \<in> set (out_at out node) \<Longrightarrow> v < m" for v using range node(1) by (simp add: targets_in_range_def)
  have pre: "\<forall>v \<in> set queue. degree ! v = 0" "\<forall>v \<in> set (out_at out node). v < length degree"
    "\<forall>v. int (count_list (out_at out node) v) \<le> degree ! v \<or> v \<notin> set (out_at out node)"
    using queue deg succ len split by auto
  have result: "length degree' = m" "\<forall>v < m. degree' ! v = degree ! v - int (count_list (out_at out node) v)" "distinct queue'"
    "set queue' = set queue \<union> {v \<in> set (out_at out node). degree' ! v = 0}"
    using release_fold [OF perm dist(1) pre] rel len by auto
  have deg': "degree' ! v = int (pending (insert node emitted) v)" if "v < m" for v
    using result(2) deg split [of v] that by simp
  have "set queue' = {v. v < m \<and> v \<notin> insert node emitted \<and> pending (insert node emitted) v = 0}"
  proof (intro set_eqI iffI)
    fix v assume v: "v \<in> set queue'"
    show "v \<in> {v. v < m \<and> v \<notin> insert node emitted \<and> pending (insert node emitted) v = 0}"
    proof (cases "v \<in> set queue")
      case True
      then show ?thesis using queue [of v] split [of v] by simp
    next
      case False
      then have arc: "v \<in> set (out_at out node)" "degree' ! v = 0" using v result(4) by auto
      then have "pending emitted v \<noteq> 0" using split [of v] by (simp add: count_list_0_iff)
      then have "v \<notin> emitted" "v \<noteq> node" using old node(3) by auto
      then show ?thesis using arc succ deg' by auto
    qed
  next
    fix v assume "v \<in> {v. v < m \<and> v \<notin> insert node emitted \<and> pending (insert node emitted) v = 0}"
    then show "v \<in> set queue'"
      using split [of v] queue [of v] result(4) deg' [of v] by (cases "v \<in> set (out_at out node)") (auto simp: count_list_0_iff)
  qed
  moreover have "\<forall>v \<in> insert node emitted. pending (insert node emitted) v = 0" using old node(3) split by auto
  ultimately show ?thesis using emitted node(1) result(1,3) deg' by (simp add: kahn_inv_def)
qed

definition ordered_by :: "nat set \<Rightarrow> nat list \<Rightarrow> bool" where
  \<comment> \<open>every node comes after all nodes with an edge to it\<close>
  "ordered_by before order \<longleftrightarrow>
     (\<forall>xs v ys. order = xs @ v # ys \<longrightarrow> (\<forall>u < m. v \<in> set (out_at out u) \<longrightarrow> u \<in> before \<union> set xs))"

lemma kahn_result:
  assumes "kahn_inv emitted queue degree" "card ({..<m} - emitted) \<le> fuel"
  shows "\<exists>order. kahn_loop fuel arrange out (queue, degree) = Some order \<and> distinct order \<and> set order \<subseteq> {..<m} - emitted \<and>
    ordered_by emitted order \<and>
    (\<forall>v < m. v \<notin> emitted \<union> set order \<longrightarrow> (\<exists>u < m. u \<notin> emitted \<union> set order \<and> v \<in> set (out_at out u)))"
  using assms
proof (induction fuel arbitrary: emitted queue degree)
  case 0
  then have "{..<m} - emitted = {}" by simp
  then have all: "\<forall>v < m. v \<in> emitted" by auto
  have "queue = []" using kahnD(6) [OF 0(1)] all by (cases queue) auto
  then show ?case using all by (simp add: ordered_by_def)
next
  case (Suc fuel)
  show ?case
  proof (cases queue)
    case Nil
    have "\<exists>u < m. u \<notin> emitted \<and> v \<in> set (out_at out u)" if "v < m" "v \<notin> emitted" for v
    proof -
      have "pending emitted v \<noteq> 0" using kahnD(6) [OF Suc.prems(1), of v] that Nil by auto
      then show ?thesis using pending_zero [of emitted v] by auto
    qed
    then show ?thesis using Nil by (simp add: ordered_by_def)
  next
    case (Cons node queue1)
    obtain queue' degree' where rel: "foldl (release arrange) (queue1, degree) (out_at out node) = (queue', degree')" by force
    have inv': "kahn_inv (insert node emitted) queue' degree'" using kahn_step Suc.prems(1) Cons rel by blast
    have node: "node < m" "node \<notin> emitted" "pending emitted node = 0"
      using kahnD(6) [OF Suc.prems(1), of node] Cons by simp_all
    have eq: "{..<m} - emitted = insert node ({..<m} - insert node emitted)" using node by auto
    have "card ({..<m} - emitted) = Suc (card ({..<m} - insert node emitted))" by (subst eq) simp
    then have "card ({..<m} - insert node emitted) \<le> fuel" using Suc.prems(2) by simp
    from Suc.IH [OF inv' this] obtain order where order: "kahn_loop fuel arrange out (queue', degree') = Some order" "distinct order"
      "set order \<subseteq> {..<m} - insert node emitted" "ordered_by (insert node emitted) order"
      "\<forall>v < m. v \<notin> insert node emitted \<union> set order \<longrightarrow> (\<exists>u < m. u \<notin> insert node emitted \<union> set order \<and> v \<in> set (out_at out u))"
      by blast
    have "ordered_by emitted (node # order)"
      unfolding ordered_by_def
    proof (intro allI impI)
      fix xs v ys u assume eq: "node # order = xs @ v # ys" and u: "u < m" "v \<in> set (out_at out u)"
      show "u \<in> emitted \<union> set xs"
      proof (cases xs)
        case Nil
        then show ?thesis using eq u node(3) pending_zero [of emitted node] by auto
      next
        case (Cons x xs')
        then have "u \<in> insert node emitted \<union> set xs'" using eq u order(4) unfolding ordered_by_def by auto
        then show ?thesis using Cons eq by auto
      qed
    qed
    then show ?thesis using order node Cons rel by (intro exI [of _ "node # order"]) auto
  qed
qed

lemma kahn_start:
  assumes "length degree = m" "\<forall>v < m. degree ! v = int (\<Sum>u < m. count_list (out_at out u) v)"
    and "mset queue = mset (filter (\<lambda>v. degree ! v = 0) [0..<m])"
  shows "kahn_inv {} queue degree"
proof -
  have deg: "degree ! v = int (pending {} v)" if "v < m" for v using assms(2) that by (simp add: pending_def)
  have "set queue = {v. v < m \<and> degree ! v = 0}" using mset_eq_setD [OF assms(3)] by auto
  also have "\<dots> = {v. v < m \<and> v \<notin> {} \<and> pending {} v = 0}" using deg by auto
  finally show ?thesis using mset_eq_imp_distinct_iff [OF assms(3)] assms(1) deg by (simp add: kahn_inv_def)
qed

lemma kahn_total:
  assumes inv: "kahn_inv {} queue degree" and rank: "\<And>u v. u < m \<Longrightarrow> v \<in> set (out_at out u) \<Longrightarrow> rank v < (rank u :: nat)"
  shows "\<exists>order. kahn_loop m arrange out (queue, degree) = Some order \<and> distinct order \<and> set order = {..<m} \<and> ordered_by {} order"
proof -
  obtain order where order: "kahn_loop m arrange out (queue, degree) = Some order" "distinct order" "set order \<subseteq> {..<m}"
    "ordered_by {} order" "\<forall>v < m. v \<notin> set order \<longrightarrow> (\<exists>u < m. u \<notin> set order \<and> v \<in> set (out_at out u))"
    using kahn_result [OF inv, of m] by auto
  have "{..<m} - set order = {}"
  proof (rule ccontr)
    assume nonempty: "{..<m} - set order \<noteq> {}"
    let ?rest = "{..<m} - set order"
    have "Max (rank ` ?rest) \<in> rank ` ?rest" using nonempty by (intro Max_in) auto
    then obtain v where v: "v \<in> ?rest" "rank v = Max (rank ` ?rest)" by auto
    then obtain u where u: "u \<in> ?rest" "v \<in> set (out_at out u)" using order(5) by auto
    then have "rank v < rank u" using rank by auto
    moreover have "rank u \<le> Max (rank ` ?rest)" using u(1) by (intro Max_ge) auto
    ultimately show False using v(2) by simp
  qed
  then show ?thesis using order by (intro exI [of _ order]) auto
qed

definition arcs :: "(nat \<times> nat) set" where
  "arcs = {(u, v). u < m \<and> v \<in> set (out_at out u)}"

lemma arcs_range: "(u, v) \<in> arcs \<Longrightarrow> u < m \<and> v < m"
  using range by (auto simp: arcs_def targets_in_range_def)

lemma arcs_finite: "finite arcs"
  by (rule finite_subset [of _ "{..<m} \<times> {..<m}"]) (auto dest: arcs_range)

lemma ordered_acyclic:
  assumes "set order = {..<m}" "ordered_by {} order"
  shows "acyclic arcs"
proof -
  define pos where "pos v = length (takeWhile (\<lambda>x. x \<noteq> v) order)" for v
  have "pos u < pos v" if arc: "(u, v) \<in> arcs" for u v
  proof -
    have "v \<in> set order" using arcs_range [OF arc] assms(1) by simp
    then obtain xs ys where split: "order = xs @ v # ys" "v \<notin> set xs" by (meson split_list_first)
    have "u \<in> set xs" using assms(2) split(1) arc unfolding ordered_by_def arcs_def by blast
    then obtain as bs where sub: "xs = as @ u # bs" "u \<notin> set as" by (meson split_list_first)
    have "takeWhile (\<lambda>x. x \<noteq> v) order = xs" unfolding split(1) using split(2) by (subst takeWhile_append2) auto
    moreover have "takeWhile (\<lambda>x. x \<noteq> u) order = as" unfolding split(1) sub(1) append_assoc using sub(2) by (subst takeWhile_append2) auto
    ultimately show ?thesis using sub(1) by (simp add: pos_def)
  qed
  then have "arcs \<subseteq> measure pos" by auto
  then show ?thesis using wf_acyclic wf_measure wf_subset by metis
qed

lemma kahn_exact:
  assumes "kahn_inv {} queue degree"
  obtains order where "kahn_loop m arrange out (queue, degree) = Some order" "distinct order" "set order \<subseteq> {..<m}" "ordered_by {} order"
    "length order = m \<longleftrightarrow> acyclic arcs"
proof -
  obtain order where order: "kahn_loop m arrange out (queue, degree) = Some order" "distinct order" "set order \<subseteq> {..<m}"
    "ordered_by {} order" "\<forall>v < m. v \<notin> set order \<longrightarrow> (\<exists>u < m. u \<notin> set order \<and> v \<in> set (out_at out u))"
    using kahn_result [OF assms, of m] by auto
  have "length order = m \<longleftrightarrow> set order = {..<m}" using order(2,3) by (metis card_lessThan card_subset_eq distinct_card finite_lessThan)
  also have "\<dots> \<longleftrightarrow> acyclic arcs"
  proof
    show "set order = {..<m} \<Longrightarrow> acyclic arcs" by (rule ordered_acyclic [OF _ order(4)])
  next
    assume acyclic: "acyclic arcs"
    have "{..<m} - set order = {}"
    proof (rule ccontr)
      assume left: "{..<m} - set order \<noteq> {}"
      have "\<not> acyclic arcs" by (rule stuck_cycle [OF arcs_finite left]) (use order(5) in \<open>auto simp: arcs_def\<close>)
      then show False using acyclic by simp
    qed
    then show "set order = {..<m}" using order(3) by auto
  qed
  finally show thesis using that order by blast
qed

end

end
