(* ===== verification/Resolve_Order.thy ===== *)
theory Resolve_Order
  imports Resolve_Graph Resolve_Kahn
begin

text \<open>
  The ordering of a transaction in \<^verbatim>\<open>src/internal/resolve/resolve.go\<close>: the graph of the planned actions from the metadata of the selected
  versions, the order of the actions by strongly connected components, the order inside a cycle by build dependencies, the
  prerequisites attached to the actions, the check of an order and the older sort by package edges. The sorted plan is shown to be a
  permutation in which every order edge that is not part of a cycle points forward and every prerequisite is an earlier action.
\<close>

subsection \<open>The order graph\<close>

fun out_put :: "nat \<Rightarrow> nat list \<Rightarrow> int_map \<Rightarrow> int_map" where
  "out_put k js [] = [(k, js)]"
| "out_put k js ((i, is) # out) = (if i = k then (k, js) # out else (i, is) # out_put k js out)"

definition add_arc :: "int_map \<Rightarrow> nat \<times> nat \<Rightarrow> int_map" where
  \<comment> \<open>the closure \<^verbatim>\<open>add\<close>; the map \<^verbatim>\<open>seen\<close> has the pairs that are already in \<^verbatim>\<open>out\<close>\<close>
  "add_arc out arc =
     (case arc of (before, after) \<Rightarrow>
        if before = after \<or> after \<in> set (out_at out before) then out else out_put before (out_at out before @ [after]) out)"

definition versionForAction :: "resolver \<Rightarrow> pkg_action \<Rightarrow> version_info option \<times> pkg_node option" where
  "versionForAction r action =
     (case pa_atom action of
        None \<Rightarrow> (None, None)
      | Some a \<Rightarrow> (case map_of (dg_packages (rv_graph r)) (CP a) of
            None \<Rightarrow> (None, None)
          | Some node \<Rightarrow>
              (find (\<lambda>vi. case (vi_version vi, a_version a) of
                   (Some v, Some w) \<Rightarrow> v_raw v = v_raw w \<and> (pa_slot action = [] \<or> vi_slot vi = pa_slot action) \<and>
                     (pa_repository action = [] \<or> vi_repository vi = pa_repository action)
                 | _ \<Rightarrow> False) (map snd (pn_versions node)), Some node)))"

definition action_edges :: "resolver \<Rightarrow> pkg_action \<Rightarrow> dep_edge list" where
  \<comment> \<open>the edges of the version of an action; none when it is unknown or its metadata is invalid\<close>
  "action_edges r action =
     (case versionForAction r action of
        (Some vi, Some node) \<Rightarrow> (case dependenciesForVersion r node vi of Inl e \<Rightarrow> [] | Inr edges \<Rightarrow> edges)
      | _ \<Rightarrow> [])"

definition parent_flags :: "pkg_action \<Rightarrow> dep_edge \<Rightarrow> bool gomap option" where
  "parent_flags action edge = (if de_use_flags edge = None then pa_use_flags action else de_use_flags edge)"

definition edge_dependencies :: "pkg_action \<Rightarrow> dep_edge \<Rightarrow> atom list" where
  \<comment> \<open>the atoms of an edge that is not a blocker and whose condition holds, with USE dependencies resolved\<close>
  "edge_dependencies action edge =
     (let flags = parent_flags action edge in
      if de_block edge \<or> de_use_cond edge \<noteq> [] \<and> \<not> conditionsEnabled flags (de_use_cond edge) then []
      else map (\<lambda>a. the (resolveUseDependencies (Some a) flags))
        (if de_any_of edge \<noteq> [] then
           List.map_filter (\<lambda>opt. if da_use_cond opt = [] \<or> conditionsEnabled flags (da_use_cond opt) then da_atom opt else None) (de_any_of edge)
         else (case de_dep_atom edge of None \<Rightarrow> [] | Some a \<Rightarrow> [a])))"

definition action_index :: "pkg_action list \<Rightarrow> string \<Rightarrow> nat list" where
  \<comment> \<open>the entry of the map \<^verbatim>\<open>index\<close> for a package\<close>
  "action_index actions cp =
     filter (\<lambda>i. case pa_atom (actions ! i) of None \<Rightarrow> False | Some a \<Rightarrow> CP a = cp) [0..<length actions]"

definition action_provides :: "atom \<Rightarrow> string \<Rightarrow> pkg_action \<Rightarrow> bool" where
  \<comment> \<open>the tests on one candidate of \<^verbatim>\<open>plannedDependencyIndices\<close>\<close>
  "action_provides dependency domain action =
     (case pa_atom action of
        None \<Rightarrow> False
      | Some a \<Rightarrow>
          (a_repo dependency = [] \<or> pa_repository action = a_repo dependency) \<and>
          normalizedActionDomain (pa_domain action) = normalizedActionDomain domain \<and>
          atomMatches (Some a) (Some dependency) (pa_slot action) (pa_subslot action) (pa_use_flags action) (a_version a))"

definition plannedDependencyIndices :: "pkg_action list \<Rightarrow> atom \<Rightarrow> string \<Rightarrow> nat list" where
  "plannedDependencyIndices actions dependency domain =
     filter (\<lambda>i. action_provides dependency domain (actions ! i)) (action_index actions (CP dependency))"

definition edge_targets :: "resolver \<Rightarrow> pkg_action list \<Rightarrow> pkg_action \<Rightarrow> dep_edge \<Rightarrow> nat list" where
  "edge_targets r actions action edge =
     concat (map (\<lambda>dependency. plannedDependencyIndices actions dependency (effectiveDomain r (de_domain edge)))
       (edge_dependencies action edge))"

definition dependency_arcs :: "resolver \<Rightarrow> pkg_action list \<Rightarrow> (dep_type \<Rightarrow> bool) \<Rightarrow> nat \<Rightarrow> (nat \<times> nat) list" where
  \<comment> \<open>the first loop: what one parent contributes\<close>
  "dependency_arcs r actions includeType parent =
     concat (map (\<lambda>edge. map (\<lambda>dep. if de_type edge = DepTypePost then (parent, dep) else (dep, parent))
         (edge_targets r actions (actions ! parent) edge))
       (filter (\<lambda>edge. includeType (de_type edge)) (action_edges r (actions ! parent))))"

definition rebuild_arcs :: "pkg_action list \<Rightarrow> nat \<Rightarrow> (nat \<times> nat) list" where
  \<comment> \<open>the second loop: a rebuild waits for the update of its provider\<close>
  "rebuild_arcs actions dependent =
     (let providerCP = pa_rebuild_after_cp (actions ! dependent)
      in if providerCP = [] then [] else map (\<lambda>provider. (provider, dependent)) (action_index actions providerCP))"

definition plannedOrderGraphFiltered :: "resolver \<Rightarrow> pkg_action list \<Rightarrow> (dep_type \<Rightarrow> bool) option \<Rightarrow> int_map" where
  "plannedOrderGraphFiltered r actions includeType =
     (let n = length actions in
      foldl add_arc [] (case includeType of
        None \<Rightarrow> concat (map (dependency_arcs r actions (\<lambda>t. True)) [0..<n]) @ concat (map (rebuild_arcs actions) [0..<n])
      | Some f \<Rightarrow> concat (map (dependency_arcs r actions f) [0..<n])))"

definition plannedOrderGraph :: "resolver \<Rightarrow> pkg_action list \<Rightarrow> int_map" where
  "plannedOrderGraph r actions = plannedOrderGraphFiltered r actions None"

subsection \<open>Sorting\<close>

lemma find_chosen: "(case find P (x # xs) of None \<Rightarrow> x | Some c \<Rightarrow> c) \<in> set (x # xs)"
  by (auto split: option.split simp: find_Some_iff)

function order_cycle :: "int_map \<Rightarrow> nat list \<Rightarrow> (nat \<Rightarrow> int) \<Rightarrow> nat list" where
  \<comment> \<open>the loop over \<^verbatim>\<open>remaining\<close>, which is kept in the order of the component\<close>
  "order_cycle buildOut [] inDegree = []"
| "order_cycle buildOut (member0 # others) inDegree =
     (let chosen = (case find (\<lambda>member. inDegree member = 0) (member0 # others) of None \<Rightarrow> member0 | Some c \<Rightarrow> c);
          remaining = filter (\<lambda>member. member \<noteq> chosen) (member0 # others)
      in chosen # order_cycle buildOut remaining
           (foldl (\<lambda>d after. if after \<in> set remaining then d(after := d after - 1) else d) inDegree (out_at buildOut chosen)))"
  by pat_completeness auto

termination
proof (relation "measure (\<lambda>(buildOut, remaining, inDegree). length remaining)")
  fix buildOut :: int_map and member0 :: nat and others :: "nat list" and inDegree :: "nat \<Rightarrow> int" and chosen remaining
  assume c: "chosen = (case find (\<lambda>member. inDegree member = 0) (member0 # others) of None \<Rightarrow> member0 | Some c \<Rightarrow> c)"
    and r: "remaining = filter (\<lambda>member. member \<noteq> chosen) (member0 # others)"
  have "length remaining < length (member0 # others)"
    unfolding r using find_chosen [of member0 "\<lambda>member. inDegree member = 0" others] by (intro length_filter_less) (auto simp: c)
  then show "((buildOut, remaining, foldl (\<lambda>d after. if after \<in> set remaining then d(after := d after - 1) else d) inDegree
      (out_at buildOut chosen)), buildOut, member0 # others, inDegree) \<in> measure (\<lambda>(buildOut, remaining, inDegree). length remaining)"
    by simp
qed simp

definition build_type :: "dep_type \<Rightarrow> bool" where
  "build_type t \<longleftrightarrow> t = DepTypeBuild \<or> t = DepTypeDepend"

definition build_degree :: "int_map \<Rightarrow> nat list \<Rightarrow> nat \<Rightarrow> int" where
  \<comment> \<open>\<^verbatim>\<open>inDegree\<close> over the members of a component\<close>
  "build_degree buildOut component after =
     (if after \<in> set component then int (length (filter (\<lambda>after'. after' = after) (concat (map (out_at buildOut) component)))) else 0)"

definition orderPlanCycleByBuildDependencies :: "resolver \<Rightarrow> pkg_action list \<Rightarrow> nat list \<Rightarrow> nat list" where
  "orderPlanCycleByBuildDependencies r actions component =
     (let members = sort component in
      if length members < 2 then members
      else let buildOut = plannedOrderGraphFiltered r actions (Some build_type)
        in order_cycle buildOut members (build_degree buildOut members))"

definition component_arc :: "nat list \<Rightarrow> int_map \<times> int list \<Rightarrow> nat \<times> nat \<Rightarrow> int_map \<times> int list" where
  \<comment> \<open>one arc of the component graph: \<^verbatim>\<open>componentOut\<close> and \<^verbatim>\<open>componentInDegree\<close>\<close>
  "component_arc componentOf st arc =
     (case st of (cout, degree) \<Rightarrow>
        let from = componentOf ! fst arc; to = componentOf ! snd arc
        in if from = to \<or> to \<in> set (out_at cout from) then (cout, degree)
           else (out_put from (out_at cout from @ [to]) cout, degree[to := degree ! to + 1]))"

definition graph_arcs :: "int_map \<Rightarrow> (nat \<times> nat) list" where
  \<comment> \<open>the arcs in the order of the two nested loops\<close>
  "graph_arcs out = concat (map (\<lambda>(before, afters). map (\<lambda>after. (before, after)) afters) out)"

definition component_graph :: "int_map \<Rightarrow> nat list \<Rightarrow> nat \<Rightarrow> int_map \<times> int list" where
  "component_graph out componentOf n = foldl (component_arc componentOf) ([], replicate n 0) (graph_arcs out)"

definition component_order :: "int_map \<Rightarrow> nat list \<Rightarrow> nat list list \<Rightarrow> nat list option" where
  \<comment> \<open>the components in the order in which they leave the queue\<close>
  "component_order out componentOf components =
     (case component_graph out componentOf (length components) of (cout, degree) \<Rightarrow>
        let arrange = sort_key (\<lambda>component. hd (components ! component))
        in kahn_loop (length components) arrange cout (arrange (filter (\<lambda>c. degree ! c = 0) [0..<length components]), degree))"

definition planned_order :: "resolver \<Rightarrow> pkg_action list \<Rightarrow> nat list" where
  \<comment> \<open>the indices of the sorted actions\<close>
  "planned_order r actions =
     (let out = plannedOrderGraph r actions in
      case stronglyConnectedPlanComponents out (length actions) of (componentOf, components) \<Rightarrow>
        let ordered = map (orderPlanCycleByBuildDependencies r actions) components
        in case component_order out componentOf ordered of
             None \<Rightarrow> [] \<comment> \<open>not reached: each component leaves the queue once\<close>
           | Some order \<Rightarrow> concat (map (\<lambda>c. ordered ! c) order))"

definition add_prerequisite :: "string list list \<Rightarrow> nat \<times> string \<Rightarrow> string list list" where
  "add_prerequisite st p =
     (case p of (after, identity) \<Rightarrow> if identity \<in> set (st ! after) then st else st[after := st ! after @ [identity]])"

definition chain_prerequisites :: "pkg_action list \<Rightarrow> nat list \<Rightarrow> (nat \<times> string) list" where
  \<comment> \<open>the members of a cycle run one after the other\<close>
  "chain_prerequisites actions component =
     map (\<lambda>position. (component ! position, ActionIdentity (actions ! (component ! (position - 1))))) [1..<length component]"

definition attachPlanPrerequisites :: "resolver \<Rightarrow> pkg_action list \<Rightarrow> pkg_action list" where
  "attachPlanPrerequisites r actions =
     (let cleared = map (\<lambda>a. a\<lparr>pa_prerequisites := []\<rparr>) actions; out = plannedOrderGraph r cleared in
      case stronglyConnectedPlanComponents out (length cleared) of (componentOf, components) \<Rightarrow>
        let sorted' = map sort components;
            first_of = (\<lambda>c. hd (sorted' ! c)); last_of = (\<lambda>c. last (sorted' ! c));
            cross = map (\<lambda>(before, after). (first_of (componentOf ! after), ActionIdentity (cleared ! last_of (componentOf ! before))))
              (filter (\<lambda>(before, after). componentOf ! before \<noteq> componentOf ! after) (graph_arcs out));
            prerequisites = foldl add_prerequisite (replicate (length cleared) [])
              (concat (map (chain_prerequisites cleared) sorted') @ cross)
        in map (\<lambda>(a, ps). a\<lparr>pa_prerequisites := sort ps\<rparr>) (zip cleared prerequisites))"

definition sortPlannedActions :: "resolver \<Rightarrow> pkg_action list \<Rightarrow> pkg_action list" where
  "sortPlannedActions r actions =
     (if length actions \<le> 1 then actions
      else attachPlanPrerequisites r (map (\<lambda>i. actions ! i) (planned_order r actions)))"

subsection \<open>Checking an order\<close>

definition misplaced :: "dep_edge \<Rightarrow> nat \<Rightarrow> nat \<Rightarrow> bool" where
  "misplaced edge parent dep \<longleftrightarrow> (if de_type edge = DepTypePost then dep < parent else dep > parent)"

definition edge_conflicts :: "resolver \<Rightarrow> pkg_action list \<Rightarrow> nat list \<Rightarrow> nat \<Rightarrow> dep_edge \<Rightarrow> string list" where
  "edge_conflicts r actions componentOf parent edge =
     concat (map (\<lambda>dependency. List.map_filter (\<lambda>dep.
         if componentOf ! dep \<noteq> componentOf ! parent \<and> misplaced edge parent dep
         then Some (''plan ordering: dependency class '' @ show_nat (dep_type_number (de_type edge)) @ '' package '' @ CP dependency @
           '' is scheduled on the wrong side of '' @
           (case snd (versionForAction r (actions ! parent)) of None \<Rightarrow> [] | Some node \<Rightarrow> CP (pn_atom node)))
         else None)
       (plannedDependencyIndices actions dependency (effectiveDomain r (de_domain edge)))) (edge_dependencies (actions ! parent) edge))"

definition validatePlanOrder :: "resolver \<Rightarrow> pkg_action list \<Rightarrow> resolver" where
  "validatePlanOrder r actions =
     (let componentOf = fst (stronglyConnectedPlanComponents (plannedOrderGraph r actions) (length actions))
      in r\<lparr>rv_conflicts := rv_conflicts r @
           concat (map (\<lambda>parent. concat (map (edge_conflicts r actions componentOf parent) (action_edges r (actions ! parent))))
             [0..<length actions])\<rparr>)"

subsection \<open>Arcs of the order graph\<close>

lemma out_at_put: "out_at (out_put k js out) i = (if i = k then js else out_at out i)"
  by (induction k js out rule: out_put.induct) (auto simp: out_at_def)

lemma out_put_keys: "distinct (map fst out) \<Longrightarrow> distinct (map fst (out_put k js out)) \<and> fst ` set (out_put k js out) = insert k (fst ` set out)"
  by (induction k js out rule: out_put.induct) auto

lemma add_arc_at: "j \<in> set (out_at (add_arc out (a, b)) i) \<longleftrightarrow> j \<in> set (out_at out i) \<or> i = a \<and> j = b \<and> a \<noteq> b"
  by (auto simp: add_arc_def out_at_put)

lemma add_arcs_at: "j \<in> set (out_at (foldl add_arc out arcs) i) \<longleftrightarrow> j \<in> set (out_at out i) \<or> (i, j) \<in> set arcs \<and> i \<noteq> j"
proof (induction arcs arbitrary: out)
  case (Cons arc arcs)
  then show ?case using add_arc_at by (cases arc) auto
qed simp

lemma add_arcs_keys: "distinct (map fst out) \<Longrightarrow> distinct (map fst (foldl add_arc out arcs))"
proof (induction arcs arbitrary: out)
  case (Cons arc arcs)
  have "distinct (map fst (add_arc out arc))" using Cons.prems out_put_keys by (auto simp: add_arc_def split: prod.split)
  then show ?case using Cons.IH by simp
qed simp

lemma graph_arcs_at:
  assumes "distinct (map fst out)"
  shows "(i, j) \<in> set (graph_arcs out) \<longleftrightarrow> j \<in> set (out_at out i)"
proof -
  have "(i, j) \<in> set (graph_arcs out) \<longleftrightarrow> (\<exists>js. (i, js) \<in> set out \<and> j \<in> set js)" by (auto simp: graph_arcs_def)
  also have "\<dots> \<longleftrightarrow> (\<exists>js. map_of out i = Some js \<and> j \<in> set js)" using map_of_eq_Some_iff [OF assms] by simp
  also have "\<dots> \<longleftrightarrow> j \<in> set (out_at out i)" by (cases "map_of out i") (simp_all add: out_at_def)
  finally show ?thesis .
qed

definition action_cp :: "pkg_action \<Rightarrow> string option" where
  "action_cp a = map_option CP (pa_atom a)"

definition edge_provider :: "resolver \<Rightarrow> pkg_action \<Rightarrow> dep_edge \<Rightarrow> pkg_action \<Rightarrow> bool" where
  \<comment> \<open>an action provides for a dependency of an edge of another\<close>
  "edge_provider r parent edge a \<longleftrightarrow>
     (\<exists>dep \<in> set (edge_dependencies parent edge). action_cp a = Some (CP dep) \<and> action_provides dep (effectiveDomain r (de_domain edge)) a)"

definition must_precede :: "resolver \<Rightarrow> pkg_action \<Rightarrow> pkg_action \<Rightarrow> bool" where
  \<comment> \<open>the order that the metadata asks for: providers first, except for post dependencies; a rebuild after its provider\<close>
  "must_precede r a b \<longleftrightarrow>
     (\<exists>edge \<in> set (action_edges r b). de_type edge \<noteq> DepTypePost \<and> edge_provider r b edge a) \<or>
     (\<exists>edge \<in> set (action_edges r a). de_type edge = DepTypePost \<and> edge_provider r a edge b) \<or>
     pa_rebuild_after_cp b \<noteq> [] \<and> action_cp a = Some (pa_rebuild_after_cp b)"

lemma action_index_mem: "i \<in> set (action_index actions cp) \<longleftrightarrow> i < length actions \<and> action_cp (actions ! i) = Some cp"
  by (auto simp: action_index_def action_cp_def split: option.split)

lemma edge_targets_mem:
  "i \<in> set (edge_targets r actions parent edge) \<longleftrightarrow> i < length actions \<and> edge_provider r parent edge (actions ! i)"
  by (auto simp: edge_targets_def plannedDependencyIndices_def action_index_mem edge_provider_def)

lemma dependency_arcs_mem:
  "(i, j) \<in> set (concat (map (dependency_arcs r actions (\<lambda>t. True)) [0..<length actions])) \<longleftrightarrow>
     i < length actions \<and> j < length actions \<and>
     ((\<exists>edge \<in> set (action_edges r (actions ! j)). de_type edge \<noteq> DepTypePost \<and> edge_provider r (actions ! j) edge (actions ! i)) \<or>
      (\<exists>edge \<in> set (action_edges r (actions ! i)). de_type edge = DepTypePost \<and> edge_provider r (actions ! i) edge (actions ! j)))"
proof -
  have "(i, j) \<in> set (dependency_arcs r actions (\<lambda>t. True) p) \<longleftrightarrow>
      p = j \<and> (\<exists>edge \<in> set (action_edges r (actions ! p)). de_type edge \<noteq> DepTypePost \<and> i \<in> set (edge_targets r actions (actions ! p) edge)) \<or>
      p = i \<and> (\<exists>edge \<in> set (action_edges r (actions ! p)). de_type edge = DepTypePost \<and> j \<in> set (edge_targets r actions (actions ! p) edge))"
    for p
    by (auto simp: dependency_arcs_def image_iff split: if_splits)
  then show ?thesis unfolding set_concat set_map UN_iff edge_targets_mem by auto
qed

lemma rebuild_arcs_mem:
  "(i, j) \<in> set (concat (map (rebuild_arcs actions) [0..<length actions])) \<longleftrightarrow>
     i < length actions \<and> j < length actions \<and> pa_rebuild_after_cp (actions ! j) \<noteq> [] \<and>
     action_cp (actions ! i) = Some (pa_rebuild_after_cp (actions ! j))"
proof -
  have "(i, j) \<in> set (rebuild_arcs actions p) \<longleftrightarrow>
      p = j \<and> pa_rebuild_after_cp (actions ! p) \<noteq> [] \<and> i \<in> set (action_index actions (pa_rebuild_after_cp (actions ! p)))" for p
    by (auto simp: rebuild_arcs_def Let_def)
  then show ?thesis unfolding set_concat set_map UN_iff action_index_mem by auto
qed

lemma order_graph_at:
  "j \<in> set (out_at (plannedOrderGraph r actions) i) \<longleftrightarrow>
     i \<noteq> j \<and> i < length actions \<and> j < length actions \<and> must_precede r (actions ! i) (actions ! j)"
  unfolding plannedOrderGraph_def plannedOrderGraphFiltered_def Let_def option.case add_arcs_at set_append Un_iff
    dependency_arcs_mem rebuild_arcs_mem must_precede_def
  by (auto simp: out_at_def)

lemma order_graph_keys: "distinct (map fst (plannedOrderGraph r actions))"
  unfolding plannedOrderGraph_def plannedOrderGraphFiltered_def Let_def by (rule add_arcs_keys) simp

lemma order_graph_range: "targets_in_range (plannedOrderGraph r actions) (length actions)"
  by (simp add: targets_in_range_def order_graph_at)

interpretation order_graph: plan_graph "plannedOrderGraph r actions" "length actions" for r actions
  by unfold_locales (rule order_graph_range)

lemma prerequisites_fields:
  "pa_atom (a\<lparr>pa_prerequisites := ps\<rparr>) = pa_atom a" "pa_slot (a\<lparr>pa_prerequisites := ps\<rparr>) = pa_slot a"
  "pa_subslot (a\<lparr>pa_prerequisites := ps\<rparr>) = pa_subslot a" "pa_repository (a\<lparr>pa_prerequisites := ps\<rparr>) = pa_repository a"
  "pa_use_flags (a\<lparr>pa_prerequisites := ps\<rparr>) = pa_use_flags a" "pa_domain (a\<lparr>pa_prerequisites := ps\<rparr>) = pa_domain a"
  "pa_rebuild_after_cp (a\<lparr>pa_prerequisites := ps\<rparr>) = pa_rebuild_after_cp a"
  by simp_all

lemma prerequisites_irrelevant:
  "versionForAction r (a\<lparr>pa_prerequisites := ps\<rparr>) = versionForAction r a"
  "action_edges r (a\<lparr>pa_prerequisites := ps\<rparr>) = action_edges r a"
  "edge_dependencies (a\<lparr>pa_prerequisites := ps\<rparr>) edge = edge_dependencies a edge"
  "action_provides dep domain (a\<lparr>pa_prerequisites := ps\<rparr>) = action_provides dep domain a"
  "action_cp (a\<lparr>pa_prerequisites := ps\<rparr>) = action_cp a"
  "ActionIdentity (a\<lparr>pa_prerequisites := ps\<rparr>) = ActionIdentity a"
  unfolding action_edges_def versionForAction_def edge_dependencies_def parent_flags_def action_provides_def action_cp_def
    ActionIdentity_def prerequisites_fields by (rule refl)+

lemma must_precede_prerequisites:
  "must_precede r (a\<lparr>pa_prerequisites := ps\<rparr>) (b\<lparr>pa_prerequisites := qs\<rparr>) = must_precede r a b"
  by (simp add: must_precede_def edge_provider_def prerequisites_irrelevant)

subsection \<open>The components and their order\<close>

lemma chosen_first: "distinct xs \<Longrightarrow> c \<in> set xs \<Longrightarrow> add_mset c (mset (filter (\<lambda>x. x \<noteq> c) xs)) = mset xs"
proof (induction xs)
  case (Cons x xs)
  show ?case
  proof (cases "x = c")
    case True
    then have "filter (\<lambda>y. y \<noteq> c) xs = xs" using Cons.prems by (intro filter_True) auto
    then show ?thesis using True by (simp del: mset_filter)
  next
    case False
    then have "add_mset c (mset (filter (\<lambda>x. x \<noteq> c) xs)) = mset xs" using Cons by auto
    then show ?thesis using False by (simp del: mset_filter add: add_mset_commute)
  qed
qed simp

lemma order_cycle_perm: "distinct members \<Longrightarrow> mset (order_cycle buildOut members inDegree) = mset members"
proof (induction buildOut members inDegree rule: order_cycle.induct)
  case (2 buildOut member0 others inDegree)
  define chosen where "chosen = (case find (\<lambda>member. inDegree member = 0) (member0 # others) of None \<Rightarrow> member0 | Some c \<Rightarrow> c)"
  define remaining where "remaining = filter (\<lambda>member. member \<noteq> chosen) (member0 # others)"
  have mem: "chosen \<in> set (member0 # others)" unfolding chosen_def by (rule find_chosen)
  have "distinct remaining" unfolding remaining_def using "2.prems" by (rule distinct_filter)
  then have "mset (order_cycle buildOut (member0 # others) inDegree) = add_mset chosen (mset remaining)"
    unfolding order_cycle.simps(2) Let_def chosen_def [symmetric] remaining_def [symmetric] mset.simps(2)
    by (rule arg_cong [OF "2.IH" [OF chosen_def remaining_def]])
  also have "\<dots> = mset (member0 # others)" unfolding remaining_def by (rule chosen_first [OF "2.prems" mem])
  finally show ?case .
qed simp

lemma order_plan_cycle_perm:
  "distinct component \<Longrightarrow> mset (orderPlanCycleByBuildDependencies r actions component) = mset component"
  by (simp add: orderPlanCycleByBuildDependencies_def Let_def order_cycle_perm)

lemma component_arcs:
  assumes "\<forall>arc \<in> set arcs. componentOf ! snd arc < n \<and> componentOf ! fst arc < n" "length degree = n"
    and "\<forall>v < n. degree ! v = int (\<Sum>u < n. count_list (out_at cout u) v)"
    and "foldl (component_arc componentOf) (cout, degree) arcs = (cout', degree')"
  shows "length degree' = n \<and> (\<forall>v < n. degree' ! v = int (\<Sum>u < n. count_list (out_at cout' u) v)) \<and>
    (\<forall>u v. v \<in> set (out_at cout' u) \<longleftrightarrow> v \<in> set (out_at cout u) \<or>
       (u \<noteq> v \<and> (\<exists>arc \<in> set arcs. componentOf ! fst arc = u \<and> componentOf ! snd arc = v)))"
  using assms
proof (induction arcs arbitrary: cout degree)
  case (Cons arc arcs)
  let ?from = "componentOf ! fst arc" and ?to = "componentOf ! snd arc"
  obtain cout1 degree1 where step: "component_arc componentOf (cout, degree) arc = (cout1, degree1)" by force
  have at: "v \<in> set (out_at cout1 u) \<longleftrightarrow> v \<in> set (out_at cout u) \<or> u \<noteq> v \<and> ?from = u \<and> ?to = v" for u v
    using step by (auto simp: component_arc_def Let_def out_at_put split: if_splits)
  have deg: "length degree1 = n \<and> (\<forall>v < n. degree1 ! v = int (\<Sum>u < n. count_list (out_at cout1 u) v))"
  proof (cases "?from = ?to \<or> ?to \<in> set (out_at cout ?from)")
    case True
    then show ?thesis using step Cons.prems by (simp add: component_arc_def Let_def)
  next
    case False
    then have eq: "cout1 = out_put ?from (out_at cout ?from @ [?to]) cout" "degree1 = degree[?to := degree ! ?to + 1]"
      using step by (auto simp: component_arc_def Let_def)
    have "?from < n" using Cons.prems(1) by simp
    have "(\<Sum>u < n. count_list (out_at cout1 u) v) = (\<Sum>u < n. count_list (out_at cout u) v) + (if v = ?to then 1 else 0)" for v
    proof -
      have "(\<Sum>u < n. count_list (out_at cout1 u) v) = (\<Sum>u < n. count_list (out_at cout u) v + (if u = ?from \<and> v = ?to then 1 else 0))"
        by (rule sum.cong) (auto simp: eq out_at_put)
      also have "\<dots> = (\<Sum>u < n. count_list (out_at cout u) v) + (\<Sum>u < n. if u = ?from \<and> v = ?to then 1 else 0)"
        by (simp add: sum.distrib)
      also have "(\<Sum>u < n. if u = ?from \<and> v = ?to then (1::nat) else 0) = (if v = ?to then 1 else 0)"
        using \<open>?from < n\<close> by (cases "v = ?to") simp_all
      finally show ?thesis .
    qed
    then show ?thesis using Cons.prems by (auto simp: eq nth_list_update)
  qed
  have "foldl (component_arc componentOf) (cout1, degree1) arcs = (cout', degree')" using Cons.prems(4) step by simp
  from Cons.IH [OF _ _ _ this] Cons.prems(1) deg show ?case using at by auto
qed simp

lemma concat_sorted_blocks:
  assumes "sorted_wrt (\<lambda>xs ys. \<forall>x \<in> set xs. \<forall>y \<in> set ys. P x y) xss" "\<And>xs. xs \<in> set xss \<Longrightarrow> sorted_wrt P xs"
  shows "sorted_wrt P (concat xss)"
  using assms by (induction xss) (auto simp: sorted_wrt_append)

lemma list_positions:
  assumes "distinct ord"
  obtains pos :: "'a \<Rightarrow> nat" where "\<And>i. i < length ord \<Longrightarrow> pos (ord ! i) = i"
proof -
  have "inj_on ((!) ord) {..<length ord}" using assms by (auto simp: inj_on_def nth_eq_iff_index_eq)
  then show thesis using that [of "inv_into {..<length ord} ((!) ord)"] inv_into_f_f by fastforce
qed

definition plan_components :: "resolver \<Rightarrow> pkg_action list \<Rightarrow> nat list \<times> nat list list" where
  "plan_components r actions = stronglyConnectedPlanComponents (plannedOrderGraph r actions) (length actions)"

definition component_of :: "resolver \<Rightarrow> pkg_action list \<Rightarrow> nat \<Rightarrow> nat" where
  "component_of r actions i = fst (plan_components r actions) ! i"

definition plan_component_graph :: "resolver \<Rightarrow> pkg_action list \<Rightarrow> int_map \<times> int list" where
  "plan_component_graph r actions =
     component_graph (plannedOrderGraph r actions) (fst (plan_components r actions)) (length (snd (plan_components r actions)))"

lemma plan_components_facts:
  fixes r actions
  defines "components \<equiv> snd (plan_components r actions)"
  shows "distinct (concat components)" "set (concat components) = {..<length actions}"
    and "c < length components \<Longrightarrow> components ! c \<noteq> []"
    and "c < length components \<Longrightarrow> v \<in> set (components ! c) \<Longrightarrow> component_of r actions v = c"
    and "c < length components \<Longrightarrow> v \<in> set (components ! c) \<Longrightarrow>
      set (components ! c) = strongly_connected (plannedOrderGraph r actions) (length actions) v"
    and "i < length actions \<Longrightarrow> j \<in> set (out_at (plannedOrderGraph r actions) i) \<Longrightarrow> component_of r actions j \<le> component_of r actions i"
proof -
  have "stronglyConnectedPlanComponents (plannedOrderGraph r actions) (length actions) = (fst (plan_components r actions), components)"
    by (simp add: plan_components_def components_def)
  note result = order_graph.components_result [OF this]
  show "distinct (concat components)" "set (concat components) = {..<length actions}"
    "c < length components \<Longrightarrow> components ! c \<noteq> []"
    "c < length components \<Longrightarrow> v \<in> set (components ! c) \<Longrightarrow> component_of r actions v = c"
    "c < length components \<Longrightarrow> v \<in> set (components ! c) \<Longrightarrow>
      set (components ! c) = strongly_connected (plannedOrderGraph r actions) (length actions) v"
    "i < length actions \<Longrightarrow> j \<in> set (out_at (plannedOrderGraph r actions) i) \<Longrightarrow> component_of r actions j \<le> component_of r actions i"
    using result by (simp_all add: component_of_def)
qed

lemma own_component:
  assumes "i < length actions"
  shows "component_of r actions i < length (snd (plan_components r actions))"
    and "i \<in> set (snd (plan_components r actions) ! component_of r actions i)"
proof -
  have "i \<in> set (concat (snd (plan_components r actions)))" using plan_components_facts(2) [of r actions] assms by simp
  then obtain C where "C \<in> set (snd (plan_components r actions))" "i \<in> set C" by auto
  then obtain c where c: "c < length (snd (plan_components r actions))" "i \<in> set (snd (plan_components r actions) ! c)"
    by (auto simp: in_set_conv_nth)
  then show "component_of r actions i < length (snd (plan_components r actions))"
    "i \<in> set (snd (plan_components r actions) ! component_of r actions i)"
    using plan_components_facts(4) [OF c] by simp_all
qed

lemma same_component:
  assumes "i < length actions"
  shows "j < length actions \<and> component_of r actions j = component_of r actions i \<longleftrightarrow>
    j \<in> strongly_connected (plannedOrderGraph r actions) (length actions) i"
proof -
  note own = own_component [OF assms, of r]
  have "j \<in> strongly_connected (plannedOrderGraph r actions) (length actions) i \<longleftrightarrow>
      j \<in> set (snd (plan_components r actions) ! component_of r actions i)"
    using plan_components_facts(5) [OF own] by simp
  also have "\<dots> \<longleftrightarrow> j < length actions \<and> component_of r actions j = component_of r actions i"
  proof
    assume j: "j \<in> set (snd (plan_components r actions) ! component_of r actions i)"
    then have "j \<in> set (concat (snd (plan_components r actions)))" using nth_mem [OF own(1)] by auto
    then have "j < length actions" unfolding plan_components_facts(2) by simp
    then show "j < length actions \<and> component_of r actions j = component_of r actions i"
      using plan_components_facts(4) [OF own(1) j] by simp
  next
    assume "j < length actions \<and> component_of r actions j = component_of r actions i"
    then show "j \<in> set (snd (plan_components r actions) ! component_of r actions i)" using own_component(2) [of j actions r] by auto
  qed
  finally show ?thesis by simp
qed

lemma component_graph_facts:
  fixes r actions
  defines "cout \<equiv> fst (plan_component_graph r actions)" and "degree \<equiv> snd (plan_component_graph r actions)"
    and "n \<equiv> length (snd (plan_components r actions))"
  shows "length degree = n" "\<forall>v < n. degree ! v = int (\<Sum>u < n. count_list (out_at cout u) v)"
    and "v \<in> set (out_at cout u) \<longleftrightarrow> u \<noteq> v \<and> (\<exists>i j. i < length actions \<and> j \<in> set (out_at (plannedOrderGraph r actions) i) \<and>
      component_of r actions i = u \<and> component_of r actions j = v)"
proof -
  let ?out = "plannedOrderGraph r actions"
  have arcs: "(i, j) \<in> set (graph_arcs ?out) \<longleftrightarrow> i < length actions \<and> j \<in> set (out_at ?out i)" for i j
    using graph_arcs_at [OF order_graph_keys, of i j r actions] order_graph_at [of j r actions i] by auto
  have in_range: "\<forall>arc \<in> set (graph_arcs ?out). fst (plan_components r actions) ! snd arc < n \<and> fst (plan_components r actions) ! fst arc < n"
  proof
    fix arc assume "arc \<in> set (graph_arcs ?out)"
    then have "fst arc < length actions" "snd arc < length actions"
      using arcs [of "fst arc" "snd arc"] order_graph_at [of "snd arc" r actions "fst arc"] by auto
    then show "fst (plan_components r actions) ! snd arc < n \<and> fst (plan_components r actions) ! fst arc < n"
      using own_component(1) [of _ actions r] by (simp add: component_of_def n_def)
  qed
  have "foldl (component_arc (fst (plan_components r actions))) ([], replicate n 0) (graph_arcs ?out) = (cout, degree)"
    by (simp add: cout_def degree_def n_def plan_component_graph_def component_graph_def)
  from component_arcs [OF in_range _ _ this]
  have result: "length degree = n \<and> (\<forall>v < n. degree ! v = int (\<Sum>u < n. count_list (out_at cout u) v)) \<and>
      (\<forall>u v. v \<in> set (out_at cout u) \<longleftrightarrow> v \<in> set (out_at [] u) \<or> (u \<noteq> v \<and> (\<exists>arc \<in> set (graph_arcs ?out).
        fst (plan_components r actions) ! fst arc = u \<and> fst (plan_components r actions) ! snd arc = v)))"
    by (simp add: out_at_def)
  then show "length degree = n" "\<forall>v < n. degree ! v = int (\<Sum>u < n. count_list (out_at cout u) v)" by simp_all
  have "v \<in> set (out_at cout u) \<longleftrightarrow> u \<noteq> v \<and> (\<exists>i j. (i, j) \<in> set (graph_arcs ?out) \<and> component_of r actions i = u \<and> component_of r actions j = v)"
  proof -
    have "v \<in> set (out_at cout u) \<longleftrightarrow> v \<in> set (out_at [] u) \<or> (u \<noteq> v \<and> (\<exists>arc \<in> set (graph_arcs ?out).
        fst (plan_components r actions) ! fst arc = u \<and> fst (plan_components r actions) ! snd arc = v))" using result by blast
    moreover have "out_at [] u = []" by (simp add: out_at_def)
    moreover have pairs: "(\<exists>arc \<in> S. P (fst arc) (snd arc)) \<longleftrightarrow> (\<exists>i j. (i, j) \<in> S \<and> P i j)" for S and P :: "nat \<Rightarrow> nat \<Rightarrow> bool" by force
    ultimately show ?thesis
      unfolding component_of_def
      using pairs [of "set (graph_arcs ?out)" "\<lambda>i j. fst (plan_components r actions) ! i = u \<and> fst (plan_components r actions) ! j = v"]
      by simp
  qed
  then show "v \<in> set (out_at cout u) \<longleftrightarrow> u \<noteq> v \<and> (\<exists>i j. i < length actions \<and> j \<in> set (out_at ?out i) \<and>
      component_of r actions i = u \<and> component_of r actions j = v)"
    using arcs by simp
qed

interpretation component_kahn: kahn_graph "fst (plan_component_graph r actions)" "length (snd (plan_components r actions))"
    "sort_key (key :: nat \<Rightarrow> nat)" for r actions key
proof unfold_locales
  show "targets_in_range (fst (plan_component_graph r actions)) (length (snd (plan_components r actions)))"
    unfolding targets_in_range_def
  proof (intro allI impI ballI)
    fix i j assume "j \<in> set (out_at (fst (plan_component_graph r actions)) i)"
    then obtain a b where "b \<in> set (out_at (plannedOrderGraph r actions) a)" "component_of r actions b = j"
      unfolding component_graph_facts(3) by blast
    then show "j < length (snd (plan_components r actions))"
      using own_component(1) [of b actions r] order_graph_at [of b r actions a] by simp
  qed
qed simp

lemma component_order_total:
  fixes key :: "nat \<Rightarrow> nat"
  shows "\<exists>order. kahn_loop (length (snd (plan_components r actions))) (sort_key key) (fst (plan_component_graph r actions))
      (sort_key key (filter (\<lambda>c. snd (plan_component_graph r actions) ! c = 0) [0..<length (snd (plan_components r actions))]),
       snd (plan_component_graph r actions)) = Some order \<and>
    distinct order \<and> set order = {..<length (snd (plan_components r actions))} \<and> component_kahn.ordered_by r actions {} order"
proof (rule component_kahn.kahn_total [where rank = "\<lambda>c. c"])
  show "component_kahn.kahn_inv r actions {}
      (sort_key key (filter (\<lambda>c. snd (plan_component_graph r actions) ! c = 0) [0..<length (snd (plan_components r actions))]))
      (snd (plan_component_graph r actions))"
    by (rule component_kahn.kahn_start [OF component_graph_facts(1,2)]) simp
  fix u v assume "v \<in> set (out_at (fst (plan_component_graph r actions)) u)"
  then obtain i j where "u \<noteq> v" and arc: "i < length actions" "j \<in> set (out_at (plannedOrderGraph r actions) i)"
    and ends: "component_of r actions i = u" "component_of r actions j = v"
    unfolding component_graph_facts(3) by blast
  then show "v < u" using plan_components_facts(6) [OF arc] by simp
qed

subsection \<open>The sorted plan\<close>

text \<open>
  A list of actions is in blocks when there is a numbering of its positions that never decreases, that gives two positions the
  same number exactly when they are in one cycle, and that no arc of the order graph decreases.
\<close>

definition in_blocks :: "resolver \<Rightarrow> pkg_action list \<Rightarrow> (nat \<Rightarrow> nat) \<Rightarrow> bool" where
  "in_blocks r actions block \<longleftrightarrow>
     (\<forall>p q. p \<le> q \<longrightarrow> q < length actions \<longrightarrow> block p \<le> block q) \<and>
     (\<forall>p < length actions. \<forall>q < length actions. component_of r actions p = component_of r actions q \<longleftrightarrow> block p = block q) \<and>
     (\<forall>p < length actions. \<forall>q < length actions. p \<noteq> q \<longrightarrow> must_precede r (actions ! p) (actions ! q) \<longrightarrow> block p \<le> block q)"

lemma mset_of_range: "distinct xs \<Longrightarrow> set xs = {..<n} \<Longrightarrow> mset xs = mset [0..<n]"
  by (simp add: mset_set_set [symmetric] atLeast0LessThan)

lemma planned_order_facts:
  fixes r actions
  defines "order \<equiv> planned_order r actions" and "n \<equiv> length actions"
  shows "mset order = mset [0..<n]"
    and "\<exists>pos :: nat \<Rightarrow> nat. inj_on pos {..<length (snd (plan_components r actions))} \<and>
      sorted_wrt (\<lambda>i j. pos (component_of r actions i) \<le> pos (component_of r actions j)) order \<and>
      (\<forall>i < n. \<forall>j \<in> set (out_at (plannedOrderGraph r actions) i). pos (component_of r actions i) \<le> pos (component_of r actions j))"
proof -
  let ?comps = "snd (plan_components r actions)" and ?out = "plannedOrderGraph r actions"
  let ?ordered = "map (orderPlanCycleByBuildDependencies r actions) ?comps"
  let ?key = "\<lambda>component. hd (?ordered ! component)"
  obtain ord where ord: "kahn_loop (length ?comps) (sort_key ?key) (fst (plan_component_graph r actions))
      (sort_key ?key (filter (\<lambda>c. snd (plan_component_graph r actions) ! c = 0) [0..<length ?comps]),
       snd (plan_component_graph r actions)) = Some ord"
    "distinct ord" "set ord = {..<length ?comps}" "component_kahn.ordered_by r actions {} ord"
    using component_order_total [of r actions ?key] by blast
  have "component_order ?out (fst (plan_components r actions)) ?ordered = Some ord"
    using ord(1) by (simp add: component_order_def plan_component_graph_def Let_def split_beta)
  then have order: "order = concat (map (\<lambda>c. ?ordered ! c) ord)"
    by (simp add: order_def planned_order_def plan_components_def [symmetric] Let_def split_beta)
  have dist: "distinct C" if "C \<in> set ?comps" for C
    using plan_components_facts(1) [of r actions] that by (auto simp: distinct_concat_iff)
  have block: "mset (?ordered ! c) = mset (?comps ! c)" if "c < length ?comps" for c
    using that dist by (simp add: order_plan_cycle_perm)
  have "mset order = (\<Sum>c \<leftarrow> ord. mset (?ordered ! c))" by (simp add: order mset_concat comp_def)
  also have "\<dots> = (\<Sum>c \<leftarrow> ord. mset (?comps ! c))" using block ord(3) by (intro arg_cong [where f = sum_list] map_cong) auto
  also have "\<dots> = (\<Sum>c \<leftarrow> [0..<length ?comps]. mset (?comps ! c))"
  proof -
    have "mset ord = mset [0..<length ?comps]" by (rule mset_of_range [OF ord(2,3)])
    then have "mset (map (\<lambda>c. mset (?comps ! c)) ord) = mset (map (\<lambda>c. mset (?comps ! c)) [0..<length ?comps])" by simp
    then show ?thesis by (metis sum_mset_sum_list)
  qed
  also have "\<dots> = mset (concat ?comps)"
    using arg_cong [OF map_nth [of ?comps], of "\<lambda>cs. sum_list (map mset cs)"] by (simp add: mset_concat comp_def)
  also have "\<dots> = mset [0..<n]"
    unfolding n_def by (rule mset_of_range [OF plan_components_facts(1,2)])
  finally show "mset order = mset [0..<n]" .
  obtain pos where pos: "\<And>i. i < length ord \<Longrightarrow> pos (ord ! i) = i" using list_positions [OF ord(2)] by blast
  have less: "sorted_wrt (\<lambda>c d. pos c < pos d) ord" using pos by (auto simp: sorted_wrt_iff_nth_less)
  have inj: "inj_on pos {..<length ?comps}"
    unfolding ord(3) [symmetric] by (metis (no_types, lifting) in_set_conv_nth inj_onI pos)
  have comp: "component_of r actions i = c" if "c < length ?comps" "i \<in> set (?ordered ! c)" for c i
    using plan_components_facts(4) [OF that(1)] that(2) mset_eq_setD [OF block [OF that(1)]] by simp
  have "sorted_wrt (\<lambda>i j. pos (component_of r actions i) \<le> pos (component_of r actions j)) order"
    unfolding order
  proof (rule concat_sorted_blocks)
    show "sorted_wrt (\<lambda>xs ys. \<forall>x \<in> set xs. \<forall>y \<in> set ys. pos (component_of r actions x) \<le> pos (component_of r actions y)) (map (\<lambda>c. ?ordered ! c) ord)"
      unfolding sorted_wrt_map
    proof (rule sorted_wrt_mono_rel [OF _ less])
      fix c d assume "c \<in> set ord" "d \<in> set ord" "pos c < pos d"
      then show "\<forall>x \<in> set (?ordered ! c). \<forall>y \<in> set (?ordered ! d). pos (component_of r actions x) \<le> pos (component_of r actions y)"
        using comp ord(3) by auto
    qed
    fix xs assume "xs \<in> set (map (\<lambda>c. ?ordered ! c) ord)"
    then obtain c where "c < length ?comps" "xs = ?ordered ! c" using ord(3) by auto
    then show "sorted_wrt (\<lambda>i j. pos (component_of r actions i) \<le> pos (component_of r actions j)) xs"
      using comp by (auto simp: sorted_wrt_iff_nth_less)
  qed
  moreover have "pos (component_of r actions i) \<le> pos (component_of r actions j)" if arc: "i < n" "j \<in> set (out_at ?out i)" for i j
  proof (cases "component_of r actions i = component_of r actions j")
    case False
    let ?u = "component_of r actions i" and ?v = "component_of r actions j"
    have "j < length actions" using arc(2) by (simp add: order_graph_at)
    then have "?v \<in> set ord" using own_component(1) ord(3) by auto
    then obtain xs ys where split: "ord = xs @ ?v # ys" by (meson split_list)
    have u: "?u < length ?comps" using own_component(1) arc(1) by (simp add: n_def)
    have "?v \<in> set (out_at (fst (plan_component_graph r actions)) ?u)"
      unfolding component_graph_facts(3) using arc False by (auto simp: n_def)
    then have "?u \<in> set xs" using ord(4) split u unfolding component_kahn.ordered_by_def by blast
    then show ?thesis using less split by (auto simp: sorted_wrt_append less_imp_le)
  qed simp
  ultimately show "\<exists>pos :: nat \<Rightarrow> nat. inj_on pos {..<length ?comps} \<and>
      sorted_wrt (\<lambda>i j. pos (component_of r actions i) \<le> pos (component_of r actions j)) order \<and>
      (\<forall>i < n. \<forall>j \<in> set (out_at ?out i). pos (component_of r actions i) \<le> pos (component_of r actions j))"
    using inj by blast
qed

lemma renumbered_reach:
  assumes "bij_betw f {..<n} {..<n :: nat}" "E \<subseteq> {..<n} \<times> {..<n}" "E' = {(p, q). p < n \<and> q < n \<and> (f p, f q) \<in> E}" "p < n" "q < n"
  shows "(p, q) \<in> E'\<^sup>* \<longleftrightarrow> (f p, f q) \<in> E\<^sup>*"
proof
  assume "(p, q) \<in> E'\<^sup>*"
  then show "(f p, f q) \<in> E\<^sup>*" by induction (auto simp: assms(3) intro: rtrancl_into_rtrancl)
next
  assume "(f p, f q) \<in> E\<^sup>*"
  then have "\<exists>q' < n. f q' = f q \<and> (p, q') \<in> E'\<^sup>*"
  proof induction
    case base
    then show ?case using assms(4) by blast
  next
    case (step y z)
    then obtain y' where y': "y' < n" "f y' = y" "(p, y') \<in> E'\<^sup>*" by blast
    have "z < n" using step(2) assms(2) by auto
    then obtain z' where z': "z' < n" "f z' = z" using bij_betw_imp_surj_on [OF assms(1)] by (metis imageE lessThan_iff)
    have "(y', z') \<in> E'" using step(2) y' z' by (simp add: assms(3))
    then have "(p, z') \<in> E'\<^sup>*" by (rule rtrancl_into_rtrancl [OF y'(3)])
    then show ?case using z' by blast
  qed
  then show "(p, q) \<in> E'\<^sup>*" using bij_betw_imp_inj_on [OF assms(1)] assms(5) by (auto simp: inj_on_def)
qed

lemma same_component_iff:
  "i < length actions \<Longrightarrow> j < length actions \<Longrightarrow> component_of r actions i = component_of r actions j \<longleftrightarrow>
     (i, j) \<in> (plan_edges (plannedOrderGraph r actions) (length actions))\<^sup>* \<and> (j, i) \<in> (plan_edges (plannedOrderGraph r actions) (length actions))\<^sup>*"
  using same_component [of i actions j r] by (auto simp: strongly_connected_def)

lemma plan_edges_precede:
  "(i, j) \<in> plan_edges (plannedOrderGraph r actions) (length actions) \<longleftrightarrow>
     i \<noteq> j \<and> i < length actions \<and> j < length actions \<and> must_precede r (actions ! i) (actions ! j)"
  using order_graph_at [of j r actions i] by (auto simp: plan_edges_def)

lemma reordered_components:
  assumes "mset perm = mset [0..<length actions]" "p < length actions" "q < length actions"
  defines "res \<equiv> map (\<lambda>i. actions ! i) perm"
  shows "component_of r res p = component_of r res q \<longleftrightarrow> component_of r actions (perm ! p) = component_of r actions (perm ! q)"
proof -
  let ?n = "length actions"
  have len: "length perm = ?n" using assms(1) by (metis mset_eq_length length_upt minus_nat.diff_0)
  have "distinct perm" "set perm = {..<?n}"
    using assms(1) by (metis distinct_upt mset_eq_imp_distinct_iff, metis assms(1) atLeast0LessThan atLeast_upt mset_eq_setD)
  then have bij: "bij_betw (\<lambda>p. perm ! p) {..<?n} {..<?n}" using len by (intro bij_betw_nth) auto
  have in_range: "perm ! p < ?n" if "p < ?n" for p using bij_betw_apply [OF bij, of p] that by simp
  have inj: "perm ! p \<noteq> perm ! q" if "p \<noteq> q" "p < ?n" "q < ?n" for p q
    using that \<open>distinct perm\<close> len by (simp add: nth_eq_iff_index_eq)
  have sub: "plan_edges (plannedOrderGraph r actions) ?n \<subseteq> {..<?n} \<times> {..<?n}" by (auto simp: plan_edges_precede)
  have "plan_edges (plannedOrderGraph r res) ?n = {(p, q). p < ?n \<and> q < ?n \<and> (perm ! p, perm ! q) \<in> plan_edges (plannedOrderGraph r actions) ?n}"
    using plan_edges_precede [of _ _ r res] plan_edges_precede [of _ _ r actions] in_range inj len
    by (auto simp: res_def)
  note reach = renumbered_reach [OF bij sub this]
  show ?thesis using same_component_iff [of p res q r] same_component_iff [of "perm ! p" actions "perm ! q" r]
      reach [of p q] reach [of q p] assms(2,3) in_range len by (simp add: res_def)
qed

lemma planned_order_blocks:
  defines "res \<equiv> \<lambda>r actions. map (\<lambda>i. actions ! i) (planned_order r actions)"
  shows "\<exists>block. in_blocks r (res r actions) block"
proof -
  let ?perm = "planned_order r actions" and ?n = "length actions"
  note perm = planned_order_facts(1) [of r actions]
  obtain pos :: "nat \<Rightarrow> nat" where pos: "inj_on pos {..<length (snd (plan_components r actions))}"
    "sorted_wrt (\<lambda>i j. pos (component_of r actions i) \<le> pos (component_of r actions j)) ?perm"
    "\<forall>i < ?n. \<forall>j \<in> set (out_at (plannedOrderGraph r actions) i). pos (component_of r actions i) \<le> pos (component_of r actions j)"
    using planned_order_facts(2) [of r actions] by blast
  have len: "length ?perm = ?n" using perm by (metis mset_eq_length length_upt minus_nat.diff_0)
  have in_range: "?perm ! p < ?n" if "p < ?n" for p using that len mset_eq_setD [OF perm] by (metis atLeastLessThan_iff nth_mem set_upt)
  let ?block = "\<lambda>p. pos (component_of r actions (?perm ! p))"
  have "?block p \<le> ?block q" if "p \<le> q" "q < ?n" for p q
    using pos(2) that len by (cases "p = q") (simp_all add: sorted_wrt_iff_nth_less)
  moreover have "component_of r (res r actions) p = component_of r (res r actions) q \<longleftrightarrow> ?block p = ?block q" if "p < ?n" "q < ?n" for p q
    using reordered_components [OF perm that, of r] inj_on_eq_iff [OF pos(1)] own_component(1) in_range that by (simp add: res_def)
  moreover have "?block p \<le> ?block q" if "p < ?n" "q < ?n" "p \<noteq> q" "must_precede r (res r actions ! p) (res r actions ! q)" for p q
  proof -
    have "?perm ! p \<noteq> ?perm ! q" using that(1-3) len perm by (metis distinct_upt mset_eq_imp_distinct_iff nth_eq_iff_index_eq)
    then have "?perm ! q \<in> set (out_at (plannedOrderGraph r actions) (?perm ! p))"
      using that in_range len by (simp add: order_graph_at res_def)
    then show ?thesis using pos(3) in_range [OF that(1)] by blast
  qed
  ultimately show ?thesis unfolding in_blocks_def using len by (intro exI [of _ ?block]) (simp add: res_def)
qed

abbreviation without_prerequisites :: "pkg_action \<Rightarrow> pkg_action" where
  "without_prerequisites a \<equiv> a\<lparr>pa_prerequisites := []\<rparr>"

lemma order_graph_cleared: "plannedOrderGraph r (map without_prerequisites actions) = plannedOrderGraph r actions"
proof -
  have index: "action_index (map without_prerequisites actions) cp = action_index actions cp" for cp
    unfolding action_index_def length_map by (rule filter_cong [OF refl]) simp
  have planned: "plannedDependencyIndices (map without_prerequisites actions) dep domain = plannedDependencyIndices actions dep domain" for dep domain
    unfolding plannedDependencyIndices_def index by (rule filter_cong [OF refl]) (simp add: action_index_mem prerequisites_irrelevant)
  have deps: "dependency_arcs r (map without_prerequisites actions) f p = dependency_arcs r actions f p" if "p < length actions" for f p
    using that by (simp add: dependency_arcs_def edge_targets_def planned prerequisites_irrelevant)
  have rebuilds: "rebuild_arcs (map without_prerequisites actions) p = rebuild_arcs actions p" if "p < length actions" for p
    using that by (simp add: rebuild_arcs_def index Let_def)
  have "map (dependency_arcs r (map without_prerequisites actions) (\<lambda>t. True)) [0..<length actions] =
      map (dependency_arcs r actions (\<lambda>t. True)) [0..<length actions]"
    "map (rebuild_arcs (map without_prerequisites actions)) [0..<length actions] = map (rebuild_arcs actions) [0..<length actions]"
    using deps rebuilds by simp_all
  then show ?thesis unfolding plannedOrderGraph_def plannedOrderGraphFiltered_def Let_def option.case length_map by (simp only:)
qed

lemma components_cleared: "component_of r (map without_prerequisites actions) = component_of r actions"
  "plan_components r (map without_prerequisites actions) = plan_components r actions"
  by (simp_all add: component_of_def [abs_def] plan_components_def order_graph_cleared)

lemma in_blocks_cleared: "in_blocks r (map without_prerequisites actions) block \<longleftrightarrow> in_blocks r actions block"
  by (simp add: in_blocks_def components_cleared must_precede_prerequisites)

subsection \<open>Prerequisites\<close>

lemma add_prerequisites_set:
  "length (foldl add_prerequisite st ps) = length st \<and>
   ((\<forall>p \<in> set ps. fst p < length st) \<longrightarrow> (\<forall>a < length st. set (foldl add_prerequisite st ps ! a) = set (st ! a) \<union> {identity. (a, identity) \<in> set ps}))"
proof (induction ps arbitrary: st)
  case (Cons p ps)
  obtain after identity where p: "p = (after, identity)" by force
  have len: "length (add_prerequisite st p) = length st" by (simp add: add_prerequisite_def p)
  have "set (add_prerequisite st p ! a) = set (st ! a) \<union> {identity. (a, identity) = p}" if "after < length st" "a < length st" for a
    using that by (auto simp: add_prerequisite_def p nth_list_update)
  then show ?case using Cons.IH [of "add_prerequisite st p"] len p by auto
qed simp

definition chain_arcs :: "nat list \<Rightarrow> (nat \<times> nat) set" where
  "chain_arcs component = {(component ! (k - 1), component ! k) | k. 0 < k \<and> k < length component}"

definition cross_arcs :: "resolver \<Rightarrow> pkg_action list \<Rightarrow> (nat \<times> nat) set" where
  "cross_arcs r actions = {(last (sort (snd (plan_components r actions) ! component_of r actions i)),
       hd (sort (snd (plan_components r actions) ! component_of r actions j))) | i j.
     (i, j) \<in> plan_edges (plannedOrderGraph r actions) (length actions) \<and> component_of r actions i \<noteq> component_of r actions j}"

definition prerequisite_arcs :: "resolver \<Rightarrow> pkg_action list \<Rightarrow> (nat \<times> nat) set" where
  "prerequisite_arcs r actions = (\<Union>component \<in> set (snd (plan_components r actions)). chain_arcs (sort component)) \<union> cross_arcs r actions"

lemma chain_prerequisites_set:
  "set (chain_prerequisites actions component) = {(j, ActionIdentity (actions ! i)) | i j. (i, j) \<in> chain_arcs component}"
  by (force simp: chain_prerequisites_def chain_arcs_def)

lemma chain_arcs_members: "(i, j) \<in> chain_arcs component \<Longrightarrow> i \<in> set component \<and> j \<in> set component"
  by (auto simp: chain_arcs_def)

lemma chain_arcs_less:
  assumes "(i, j) \<in> chain_arcs (sort component)" "distinct component"
  shows "i < j"
proof -
  obtain k where k: "i = sort component ! (k - 1)" "j = sort component ! k" "0 < k" "k < length component"
    using assms(1) by (auto simp: chain_arcs_def)
  have "sorted_wrt (<) (sort component)" using assms(2) by (simp add: strict_sorted_iff)
  then show ?thesis using k by (simp add: sorted_wrt_iff_nth_less)
qed

lemma chain_reaches:
  assumes "i \<in> set component" "j \<in> set component" "i < j"
  shows "(i, j) \<in> (chain_arcs (sort component))\<^sup>+"
proof -
  let ?xs = "sort component"
  have steps: "(?xs ! a, ?xs ! (a + Suc d)) \<in> (chain_arcs ?xs)\<^sup>+" if "a + Suc d < length ?xs" for a d
    using that
  proof (induction d)
    case 0
    have "(?xs ! (Suc a - 1), ?xs ! Suc a) \<in> chain_arcs ?xs" using 0 unfolding chain_arcs_def by (intro CollectI exI [of _ "Suc a"]) auto
    then show ?case by auto
  next
    case (Suc d)
    have "(?xs ! (a + Suc (Suc d) - 1), ?xs ! (a + Suc (Suc d))) \<in> chain_arcs ?xs"
      using Suc.prems unfolding chain_arcs_def by (intro CollectI exI [of _ "a + Suc (Suc d)"]) auto
    moreover have "(?xs ! a, ?xs ! (a + Suc d)) \<in> (chain_arcs ?xs)\<^sup>+" using Suc by simp
    ultimately show ?case by (simp add: trancl_into_trancl)
  qed
  obtain a b where ab: "a < length ?xs" "b < length ?xs" "?xs ! a = i" "?xs ! b = j"
    using assms(1,2) by (metis in_set_conv_nth set_sort)
  have "\<not> b \<le> a" using ab assms(3) sorted_nth_mono [OF sorted_sort, of b a component] by auto
  then have "a < b" by simp
  then show ?thesis using steps [of a "b - a - 1"] ab by simp
qed

lemma sorted_ends:
  assumes "component \<noteq> []"
  shows "last (sort component) \<in> set component" "hd (sort component) \<in> set component"
    and "i \<in> set component \<Longrightarrow> i \<le> last (sort component)" "i \<in> set component \<Longrightarrow> hd (sort component) \<le> i"
proof -
  have ne: "sort component \<noteq> []" using assms by (metis set_empty set_sort)
  show "last (sort component) \<in> set component" "hd (sort component) \<in> set component"
    using last_in_set [OF ne] hd_in_set [OF ne] by simp_all
  assume "i \<in> set component"
  then obtain a where a: "a < length (sort component)" "sort component ! a = i" by (metis in_set_conv_nth set_sort)
  then show "i \<le> last (sort component)" "hd (sort component) \<le> i"
    using sorted_nth_mono [OF sorted_sort, of a "length (sort component) - 1" component] sorted_nth_mono [OF sorted_sort, of 0 a component] ne
    by (simp_all add: last_conv_nth hd_conv_nth)
qed

lemma component_member:
  assumes "c < length (snd (plan_components r actions))" "x \<in> set (snd (plan_components r actions) ! c)"
  shows "x < length actions" "component_of r actions x = c"
proof -
  have "x \<in> set (concat (snd (plan_components r actions)))" using nth_mem [OF assms(1)] assms(2) by auto
  then show "x < length actions" unfolding plan_components_facts(2) by simp
  show "component_of r actions x = c" by (rule plan_components_facts(4) [OF assms])
qed

lemma prerequisite_arcs_forward:
  assumes "in_blocks r actions block" "(i, j) \<in> prerequisite_arcs r actions"
  shows "i < j \<and> j < length actions"
proof -
  let ?comps = "snd (plan_components r actions)"
  have dist: "distinct C" if "C \<in> set ?comps" for C
    using plan_components_facts(1) [of r actions] that by (auto simp: distinct_concat_iff)
  have member: "x < length actions" if "C \<in> set ?comps" "x \<in> set C" for C x
    using component_member(1) that by (metis in_set_conv_nth)
  consider (chain) C where "C \<in> set ?comps" "(i, j) \<in> chain_arcs (sort C)" | (cross) "(i, j) \<in> cross_arcs r actions"
    using assms(2) by (auto simp: prerequisite_arcs_def)
  then show ?thesis
  proof cases
    case chain
    then show ?thesis using chain_arcs_less [OF chain(2) dist] chain_arcs_members [OF chain(2)] member by simp
  next
    case cross
    then obtain a b where ab: "(a, b) \<in> plan_edges (plannedOrderGraph r actions) (length actions)"
      "component_of r actions a \<noteq> component_of r actions b"
      "i = last (sort (?comps ! component_of r actions a))" "j = hd (sort (?comps ! component_of r actions b))"
      by (auto simp: cross_arcs_def)
    have lt: "a < length actions" "b < length actions" "a \<noteq> b" "must_precede r (actions ! a) (actions ! b)"
      using ab(1) by (simp_all add: plan_edges_precede)
    note own = own_component [OF lt(1), of r] own_component [OF lt(2), of r]
    have "i \<in> set (?comps ! component_of r actions a)" "j \<in> set (?comps ! component_of r actions b)"
      using sorted_ends(1) [OF plan_components_facts(3) [OF own(1)]] sorted_ends(2) [OF plan_components_facts(3) [OF own(3)]] ab(3,4) by simp_all
    note ij = component_member [OF own(1) this(1)] component_member [OF own(3) this(2)]
    have "block a \<le> block b" "block a \<noteq> block b" using assms(1) lt ab(2) unfolding in_blocks_def by blast+
    moreover have "block i = block a" "block j = block b" using assms(1) ij lt unfolding in_blocks_def by blast+
    ultimately have "\<not> block j \<le> block i" by simp
    then show ?thesis using assms(1) ij unfolding in_blocks_def by (meson linorder_not_less)
  qed
qed

lemma prerequisite_arcs_cover:
  assumes "p < q" "q < length actions" "component_of r actions p = component_of r actions q \<or> must_precede r (actions ! p) (actions ! q)"
  shows "(p, q) \<in> (prerequisite_arcs r actions)\<^sup>+"
proof -
  let ?comps = "snd (plan_components r actions)"
  have chain: "(i, j) \<in> (prerequisite_arcs r actions)\<^sup>=  \<union> (prerequisite_arcs r actions)\<^sup>+"
    if "c < length ?comps" "i \<in> set (?comps ! c)" "j \<in> set (?comps ! c)" "i \<le> j" for c i j
  proof (cases "i = j")
    case False
    have "chain_arcs (sort (?comps ! c)) \<subseteq> prerequisite_arcs r actions" using nth_mem [OF that(1)] by (auto simp: prerequisite_arcs_def)
    then have "(chain_arcs (sort (?comps ! c)))\<^sup>+ \<subseteq> (prerequisite_arcs r actions)\<^sup>+" by (auto intro: trancl_mono)
    then show ?thesis using chain_reaches [OF that(2,3)] that(4) False by auto
  qed simp
  have p: "p < length actions" using assms by simp
  note own = own_component [OF p, of r] own_component [OF assms(2), of r]
  show ?thesis
  proof (cases "component_of r actions p = component_of r actions q")
    case True
    then show ?thesis using chain [OF own(1,2), of q] own assms(1) by auto
  next
    case False
    let ?last = "last (sort (?comps ! component_of r actions p))" and ?first = "hd (sort (?comps ! component_of r actions q))"
    have "(p, q) \<in> plan_edges (plannedOrderGraph r actions) (length actions)" using assms False p by (simp add: plan_edges_precede)
    then have "(?last, ?first) \<in> prerequisite_arcs r actions" using False by (auto simp: prerequisite_arcs_def cross_arcs_def)
    moreover note sorted_ends [OF plan_components_facts(3) [OF own(1)]] sorted_ends [OF plan_components_facts(3) [OF own(3)]]
    moreover have "(p, ?last) \<in> (prerequisite_arcs r actions)\<^sup>*" "(?first, q) \<in> (prerequisite_arcs r actions)\<^sup>*"
      using chain [OF own(1,2), of ?last] chain [OF own(3) _ own(4), of ?first] calculation own by (auto dest: trancl_into_rtrancl)
    ultimately show ?thesis by (meson rtrancl_into_trancl1 trancl_rtrancl_trancl)
  qed
qed

lemma prerequisite_arcs_range:
  assumes "(i, j) \<in> prerequisite_arcs r actions"
  shows "i < length actions" "j < length actions"
proof -
  let ?comps = "snd (plan_components r actions)"
  consider (chain) c where "c < length ?comps" "(i, j) \<in> chain_arcs (sort (?comps ! c))" | (cross) "(i, j) \<in> cross_arcs r actions"
    using assms unfolding prerequisite_arcs_def by (metis UN_E UnE in_set_conv_nth)
  then have "i < length actions \<and> j < length actions"
  proof cases
    case chain
    then show ?thesis using chain_arcs_members [OF chain(2)] component_member(1) [OF chain(1)] by simp
  next
    case cross
    then obtain a b where ab: "(a, b) \<in> plan_edges (plannedOrderGraph r actions) (length actions)"
      "i = last (sort (?comps ! component_of r actions a))" "j = hd (sort (?comps ! component_of r actions b))"
      by (auto simp: cross_arcs_def)
    have lt: "a < length actions" "b < length actions" using ab(1) by (simp_all add: plan_edges_precede)
    note own = own_component(1) [OF lt(1), of r] own_component(1) [OF lt(2), of r]
    show ?thesis
      using component_member(1) [OF own(1) sorted_ends(1) [OF plan_components_facts(3) [OF own(1)]]]
        component_member(1) [OF own(2) sorted_ends(2) [OF plan_components_facts(3) [OF own(2)]]] ab(2,3) by simp
  qed
  then show "i < length actions" "j < length actions" by simp_all
qed

definition prerequisite_pairs :: "resolver \<Rightarrow> pkg_action list \<Rightarrow> (nat \<times> string) list" where
  \<comment> \<open>the calls of the closure \<^verbatim>\<open>add\<close>, in order\<close>
  "prerequisite_pairs r actions =
     (let components = map sort (snd (plan_components r actions)); componentOf = fst (plan_components r actions) in
      concat (map (chain_prerequisites actions) components) @
      map (\<lambda>(before, after). (hd (components ! (componentOf ! after)), ActionIdentity (actions ! last (components ! (componentOf ! before)))))
        (filter (\<lambda>(before, after). componentOf ! before \<noteq> componentOf ! after) (graph_arcs (plannedOrderGraph r actions))))"

lemma prerequisite_pairs_set:
  "set (prerequisite_pairs r actions) = {(j, ActionIdentity (actions ! i)) | i j. (i, j) \<in> prerequisite_arcs r actions}"
proof -
  let ?comps = "snd (plan_components r actions)" and ?of = "fst (plan_components r actions)"
  let ?pair = "\<lambda>(i, j). (j, ActionIdentity (actions ! i))"
  have arcs: "(i, j) \<in> set (graph_arcs (plannedOrderGraph r actions)) \<longleftrightarrow> (i, j) \<in> plan_edges (plannedOrderGraph r actions) (length actions)" for i j
    using graph_arcs_at [OF order_graph_keys, of i j r actions] order_graph_at [of j r actions i] by (auto simp: plan_edges_def)
  have chains: "set (concat (map (chain_prerequisites actions) (map sort ?comps))) = ?pair ` (\<Union>C \<in> set ?comps. chain_arcs (sort C))"
    by (force simp: chain_prerequisites_set image_iff)
  have "set (map (\<lambda>(before, after). (hd (map sort ?comps ! (?of ! after)), ActionIdentity (actions ! last (map sort ?comps ! (?of ! before)))))
        (filter (\<lambda>(before, after). ?of ! before \<noteq> ?of ! after) (graph_arcs (plannedOrderGraph r actions)))) =
      (\<lambda>(a, b). (hd (map sort ?comps ! component_of r actions b), ActionIdentity (actions ! last (map sort ?comps ! component_of r actions a)))) `
        {(a, b). (a, b) \<in> plan_edges (plannedOrderGraph r actions) (length actions) \<and> component_of r actions a \<noteq> component_of r actions b}"
    unfolding set_map set_filter component_of_def [symmetric] by (rule image_cong) (auto simp: arcs)
  also have "\<dots> = (\<lambda>(a, b). ?pair (last (sort (?comps ! component_of r actions a)), hd (sort (?comps ! component_of r actions b)))) `
        {(a, b). (a, b) \<in> plan_edges (plannedOrderGraph r actions) (length actions) \<and> component_of r actions a \<noteq> component_of r actions b}"
    by (rule image_cong) (auto simp: plan_edges_precede own_component(1))
  also have "\<dots> = ?pair ` cross_arcs r actions"
  proof -
    have "(\<lambda>(a, b). h (f a, g b)) ` {(a, b). S a b} = h ` {(f a, g b) | a b. S a b}"
      for h :: "nat \<times> nat \<Rightarrow> nat \<times> string" and f g :: "nat \<Rightarrow> nat" and S by force
    then show ?thesis unfolding cross_arcs_def .
  qed
  finally have crosses: "set (map (\<lambda>(before, after). (hd (map sort ?comps ! (?of ! after)), ActionIdentity (actions ! last (map sort ?comps ! (?of ! before)))))
        (filter (\<lambda>(before, after). ?of ! before \<noteq> ?of ! after) (graph_arcs (plannedOrderGraph r actions)))) = ?pair ` cross_arcs r actions" .
  have "set (prerequisite_pairs r actions) = ?pair ` prerequisite_arcs r actions"
    unfolding prerequisite_pairs_def Let_def set_append chains crosses prerequisite_arcs_def by (simp add: image_Un)
  also have "\<dots> = {(j, ActionIdentity (actions ! i)) | i j. (i, j) \<in> prerequisite_arcs r actions}" by force
  finally show ?thesis .
qed

lemma attach_unfold:
  "attachPlanPrerequisites r actions =
     map (\<lambda>(a, ps). a\<lparr>pa_prerequisites := sort ps\<rparr>) (zip (map without_prerequisites actions)
       (foldl add_prerequisite (replicate (length actions) []) (prerequisite_pairs r (map without_prerequisites actions))))"
  by (simp add: attachPlanPrerequisites_def prerequisite_pairs_def plan_components_def Let_def split_beta)

lemma attach_facts:
  "length (attachPlanPrerequisites r actions) = length actions"
  "map without_prerequisites (attachPlanPrerequisites r actions) = map without_prerequisites actions"
  "j < length actions \<Longrightarrow> set (pa_prerequisites (attachPlanPrerequisites r actions ! j)) =
     {ActionIdentity (actions ! i) | i. (i, j) \<in> prerequisite_arcs r actions}"
proof -
  let ?cleared = "map without_prerequisites actions"
  let ?ps = "foldl add_prerequisite (replicate (length actions) []) (prerequisite_pairs r ?cleared)"
  note fold = add_prerequisites_set [of "replicate (length actions) []" "prerequisite_pairs r ?cleared"]
  have len: "length ?ps = length actions" using fold by simp
  then show "length (attachPlanPrerequisites r actions) = length actions" by (simp add: attach_unfold)
  show "map without_prerequisites (attachPlanPrerequisites r actions) = map without_prerequisites actions"
    using len by (intro nth_equalityI) (simp_all add: attach_unfold)
  have arcs: "prerequisite_arcs r ?cleared = prerequisite_arcs r actions"
    by (simp add: prerequisite_arcs_def cross_arcs_def components_cleared order_graph_cleared)
  assume j: "j < length actions"
  have "\<forall>p \<in> set (prerequisite_pairs r ?cleared). fst p < length actions"
    using prerequisite_arcs_range(2) by (auto simp: prerequisite_pairs_set arcs)
  then have "set (?ps ! j) = {identity. (j, identity) \<in> set (prerequisite_pairs r ?cleared)}" using fold j by simp
  also have "\<dots> = {ActionIdentity (actions ! i) | i. (i, j) \<in> prerequisite_arcs r actions}"
  proof -
    have "ActionIdentity (?cleared ! i) = ActionIdentity (actions ! i)" if "(i, j) \<in> prerequisite_arcs r actions" for i
      using prerequisite_arcs_range(1) [OF that] by (simp add: prerequisites_irrelevant)
    then have "{ActionIdentity (?cleared ! i) | i. (i, j) \<in> prerequisite_arcs r actions} =
        {ActionIdentity (actions ! i) | i. (i, j) \<in> prerequisite_arcs r actions}" by (intro Collect_cong) (metis (lifting))
    then show ?thesis unfolding prerequisite_pairs_set arcs by auto
  qed
  finally show "set (pa_prerequisites (attachPlanPrerequisites r actions ! j)) = {ActionIdentity (actions ! i) | i. (i, j) \<in> prerequisite_arcs r actions}"
    using j len by (simp add: attach_unfold)
qed

subsection \<open>The sorted plan\<close>

definition plan_arcs :: "resolver \<Rightarrow> pkg_action list \<Rightarrow> (nat \<times> nat) set" where
  \<comment> \<open>the order asked for between the positions of a plan\<close>
  "plan_arcs r plan = {(i, j). i \<noteq> j \<and> i < length plan \<and> j < length plan \<and> must_precede r (plan ! i) (plan ! j)}"

definition waits_for :: "pkg_action list \<Rightarrow> (nat \<times> nat) set" where
  \<comment> \<open>a position names the action at another position as a prerequisite\<close>
  "waits_for plan = {(i, j). i < length plan \<and> j < length plan \<and> ActionIdentity (plan ! i) \<in> set (pa_prerequisites (plan ! j))}"

lemma plan_arcs_edges: "plan_arcs r plan = plan_edges (plannedOrderGraph r plan) (length plan)"
  using plan_edges_precede by (auto simp: plan_arcs_def)

lemma sort_unfold:
  assumes "\<not> length actions \<le> 1"
  obtains plan where "sortPlannedActions r actions = attachPlanPrerequisites r plan"
    "mset plan = mset actions" "\<exists>block. in_blocks r plan block"
proof
  show "sortPlannedActions r actions = attachPlanPrerequisites r (map (\<lambda>i. actions ! i) (planned_order r actions))"
    using assms by (simp add: sortPlannedActions_def)
  have "mset (map (\<lambda>i. actions ! i) (planned_order r actions)) = mset (map (\<lambda>i. actions ! i) [0..<length actions])"
    unfolding mset_map planned_order_facts(1) ..
  then show "mset (map (\<lambda>i. actions ! i) (planned_order r actions)) = mset actions" by (simp only: map_nth)
  show "\<exists>block. in_blocks r (map (\<lambda>i. actions ! i) (planned_order r actions)) block" by (rule planned_order_blocks)
qed

lemma attached_view:
  assumes "length plan' = length plan" "map without_prerequisites plan' = map without_prerequisites plan"
  shows "in_blocks r plan' block \<longleftrightarrow> in_blocks r plan block" "plan_arcs r plan' = plan_arcs r plan"
    and "component_of r plan' = component_of r plan"
    and "i < length plan \<Longrightarrow> ActionIdentity (plan' ! i) = ActionIdentity (plan ! i)"
    and "plan_components r plan' = plan_components r plan"
proof -
  show "in_blocks r plan' block \<longleftrightarrow> in_blocks r plan block" "component_of r plan' = component_of r plan"
    "plan_components r plan' = plan_components r plan"
    using assms(2) in_blocks_cleared components_cleared by metis+
  have graph: "plannedOrderGraph r plan' = plannedOrderGraph r plan" using assms(2) order_graph_cleared by metis
  show "plan_arcs r plan' = plan_arcs r plan" unfolding plan_arcs_edges graph assms(1) ..
  assume "i < length plan"
  then show "ActionIdentity (plan' ! i) = ActionIdentity (plan ! i)"
    using arg_cong [OF assms(2), of "\<lambda>as. ActionIdentity (as ! i)"] assms(1) by (simp add: prerequisites_irrelevant)
qed

lemma sorted_plan_cleared: "mset (map without_prerequisites (sortPlannedActions r actions)) = mset (map without_prerequisites actions)"
proof (cases "length actions \<le> 1")
  case False
  then show ?thesis by (rule sort_unfold [of actions r]) (simp add: attach_facts(2))
qed (simp add: sortPlannedActions_def)

lemma sorted_plan_length: "length (sortPlannedActions r actions) = length actions"
  using sorted_plan_cleared [of r actions] by (metis length_map mset_eq_length)

lemma sorted_plan_blocks: "\<exists>block. in_blocks r (sortPlannedActions r actions) block"
proof (cases "length actions \<le> 1")
  case True
  then have "in_blocks r actions (\<lambda>p. 0)" by (auto simp: in_blocks_def le_Suc_eq)
  then show ?thesis using True by (auto simp: sortPlannedActions_def)
next
  case False
  then show ?thesis
    by (rule sort_unfold [of actions r]) (simp add: attached_view(1) [OF attach_facts(1,2)])
qed

lemma sorted_plan_arcs:
  assumes "(i, j) \<in> plan_arcs r (sortPlannedActions r actions)"
  shows "i < j \<or> (j, i) \<in> (plan_arcs r (sortPlannedActions r actions))\<^sup>+"
proof -
  let ?plan = "sortPlannedActions r actions"
  obtain block where block: "in_blocks r ?plan block" using sorted_plan_blocks by blast
  have ij: "i < length ?plan" "j < length ?plan" "i \<noteq> j" "must_precede r (?plan ! i) (?plan ! j)" using assms by (auto simp: plan_arcs_def)
  show ?thesis
  proof (cases "i < j")
    case False
    then have "block j \<le> block i" using block ij unfolding in_blocks_def by simp
    moreover have "block i \<le> block j" using block ij unfolding in_blocks_def by blast
    ultimately have "component_of r ?plan i = component_of r ?plan j" using block ij unfolding in_blocks_def by simp
    then have "(j, i) \<in> (plan_arcs r ?plan)\<^sup>*" using same_component_iff ij unfolding plan_arcs_edges by blast
    then show ?thesis using ij(3) by (simp add: rtrancl_eq_or_trancl)
  qed simp
qed

lemma sorted_plan_waits:
  fixes r actions
  assumes "\<not> length actions \<le> 1" "j < length actions"
  defines "plan \<equiv> sortPlannedActions r actions"
  shows "set (pa_prerequisites (plan ! j)) = {ActionIdentity (plan ! i) | i. (i, j) \<in> prerequisite_arcs r plan}"
    and "(i, j) \<in> prerequisite_arcs r plan \<Longrightarrow> i < j"
proof -
  obtain block where block: "in_blocks r plan block" using sorted_plan_blocks plan_def by blast
  show "i < j" if "(i, j) \<in> prerequisite_arcs r plan" using prerequisite_arcs_forward [OF block that] by simp
  obtain unattached where un: "plan = attachPlanPrerequisites r unattached" "mset unattached = mset actions"
    using sort_unfold [OF assms(1), of r] by (auto simp: plan_def)
  note view = attach_facts(1,2) [of r unattached, folded un(1)]
  have arcs: "prerequisite_arcs r plan = prerequisite_arcs r unattached"
    unfolding prerequisite_arcs_def cross_arcs_def attached_view(3) [OF view] attached_view(5) [OF view] plan_arcs_edges [symmetric]
      attached_view(2) [OF view] ..
  have j: "j < length unattached" using assms(2) un(2) by (metis mset_eq_length)
  have "ActionIdentity (unattached ! i) = ActionIdentity (plan ! i)" if "(i, j) \<in> prerequisite_arcs r unattached" for i
    using attached_view(4) [OF view] prerequisite_arcs_range(1) [OF that] by simp
  then have "{ActionIdentity (unattached ! i) | i. (i, j) \<in> prerequisite_arcs r unattached} =
      {ActionIdentity (plan ! i) | i. (i, j) \<in> prerequisite_arcs r unattached}" by (intro Collect_cong) (metis (lifting))
  then show "set (pa_prerequisites (plan ! j)) = {ActionIdentity (plan ! i) | i. (i, j) \<in> prerequisite_arcs r plan}"
    using attach_facts(3) [OF j, of r] unfolding arcs by (simp add: un(1))
qed

lemma sorted_plan_covers:
  assumes "\<not> length actions \<le> 1" "i < j" "(i, j) \<in> plan_arcs r (sortPlannedActions r actions)"
  shows "(i, j) \<in> (waits_for (sortPlannedActions r actions))\<^sup>+"
proof -
  let ?plan = "sortPlannedActions r actions"
  have "prerequisite_arcs r ?plan \<subseteq> waits_for ?plan"
  proof
    fix arc assume "arc \<in> prerequisite_arcs r ?plan"
    then obtain a b where ab: "arc = (a, b)" "(a, b) \<in> prerequisite_arcs r ?plan" by (cases arc) auto
    then show "arc \<in> waits_for ?plan"
      using prerequisite_arcs_range [OF ab(2)] sorted_plan_waits(1) [OF assms(1), of b r] by (auto simp: waits_for_def sorted_plan_length)
  qed
  moreover have "(i, j) \<in> (prerequisite_arcs r ?plan)\<^sup>+"
    using prerequisite_arcs_cover [OF assms(2)] assms(3) by (auto simp: plan_arcs_def)
  ultimately show ?thesis by (auto intro: trancl_mono)
qed

definition depends :: "resolver \<Rightarrow> pkg_action \<Rightarrow> pkg_action \<Rightarrow> bool" where
  \<comment> \<open>the part of \<^term>\<open>must_precede\<close> that comes from dependencies\<close>
  "depends r a b \<longleftrightarrow>
     (\<exists>edge \<in> set (action_edges r b). de_type edge \<noteq> DepTypePost \<and> edge_provider r b edge a) \<or>
     (\<exists>edge \<in> set (action_edges r a). de_type edge = DepTypePost \<and> edge_provider r a edge b)"

definition misplaced_pair :: "resolver \<Rightarrow> pkg_action list \<Rightarrow> nat \<Rightarrow> dep_edge \<Rightarrow> nat \<Rightarrow> bool" where
  "misplaced_pair r plan parent edge dep \<longleftrightarrow> dep < length plan \<and> edge_provider r (plan ! parent) edge (plan ! dep) \<and>
     component_of r plan dep \<noteq> component_of r plan parent \<and> misplaced edge parent dep"

lemma edge_conflicts_clean:
  "edge_conflicts r plan (fst (plan_components r plan)) parent edge = [] \<longleftrightarrow> \<not> (\<exists>dep. misplaced_pair r plan parent edge dep)"
proof -
  have filter: "List.map_filter (\<lambda>x. if P x then Some (f x) else None) xs = [] \<longleftrightarrow> (\<forall>x \<in> set xs. \<not> P x)" for P and f :: "nat \<Rightarrow> string" and xs
    by (induction xs) (simp_all add: List.map_filter_simps)
  have index: "i \<in> set (plannedDependencyIndices plan dep domain) \<longleftrightarrow>
      i < length plan \<and> action_cp (plan ! i) = Some (CP dep) \<and> action_provides dep domain (plan ! i)" for i dep domain
    by (auto simp: plannedDependencyIndices_def action_index_mem)
  show ?thesis
    unfolding edge_conflicts_def concat_eq_Nil_conv set_map ball_simps filter misplaced_pair_def edge_provider_def component_of_def
    using index by blast
qed

lemma order_conflicts_clean:
  "rv_conflicts (validatePlanOrder r plan) = rv_conflicts r \<longleftrightarrow>
   (\<forall>parent < length plan. \<forall>edge \<in> set (action_edges r (plan ! parent)). \<forall>dep. \<not> misplaced_pair r plan parent edge dep)"
proof -
  have "rv_conflicts (validatePlanOrder r plan) = rv_conflicts r \<longleftrightarrow>
      (\<forall>parent \<in> {0..<length plan}. \<forall>edge \<in> set (action_edges r (plan ! parent)).
        edge_conflicts r plan (fst (plan_components r plan)) parent edge = [])"
    by (simp add: validatePlanOrder_def plan_components_def Let_def)
  then show ?thesis unfolding edge_conflicts_clean by (metis atLeastLessThan_iff zero_le)
qed

lemma misplaced_pairs:
  "(\<exists>parent < length plan. \<exists>edge \<in> set (action_edges r (plan ! parent)). \<exists>dep. misplaced_pair r plan parent edge dep) \<longleftrightarrow>
   (\<exists>i < length plan. \<exists>j < length plan. j < i \<and> depends r (plan ! i) (plan ! j) \<and> component_of r plan i \<noteq> component_of r plan j)"
  (is "?L \<longleftrightarrow> ?R")
proof
  assume ?L
  then obtain parent edge dep where p: "parent < length plan" "edge \<in> set (action_edges r (plan ! parent))" "misplaced_pair r plan parent edge dep"
    by blast
  show ?R
  proof (cases "de_type edge = DepTypePost")
    case True
    then have "depends r (plan ! parent) (plan ! dep)" using p by (auto simp: depends_def misplaced_pair_def)
    then show ?thesis using p True unfolding misplaced_pair_def misplaced_def by (metis (full_types))
  next
    case False
    then have "depends r (plan ! dep) (plan ! parent)" using p by (auto simp: depends_def misplaced_pair_def)
    then show ?thesis using p False unfolding misplaced_pair_def misplaced_def by (metis (full_types))
  qed
next
  assume ?R
  then obtain i j where ij: "i < length plan" "j < length plan" "j < i" "depends r (plan ! i) (plan ! j)" "component_of r plan i \<noteq> component_of r plan j"
    by blast
  from ij(4) consider (plain) edge where "edge \<in> set (action_edges r (plan ! j))" "de_type edge \<noteq> DepTypePost" "edge_provider r (plan ! j) edge (plan ! i)"
    | (post) edge where "edge \<in> set (action_edges r (plan ! i))" "de_type edge = DepTypePost" "edge_provider r (plan ! i) edge (plan ! j)"
    by (auto simp: depends_def)
  then show ?L
  proof cases
    case plain
    then have "misplaced_pair r plan j edge i" using ij by (simp add: misplaced_pair_def misplaced_def)
    then show ?thesis using ij(2) plain(1) by blast
  next
    case post
    then have "misplaced_pair r plan i edge j" using ij by (simp add: misplaced_pair_def misplaced_def)
    then show ?thesis using ij(1) post(1) by blast
  qed
qed

lemma order_check:
  "rv_conflicts (validatePlanOrder r plan) = rv_conflicts r \<longleftrightarrow>
   \<not> (\<exists>i < length plan. \<exists>j < length plan. j < i \<and> depends r (plan ! i) (plan ! j) \<and> component_of r plan i \<noteq> component_of r plan j)"
  unfolding order_conflicts_clean misplaced_pairs [symmetric] by blast

subsection \<open>An example\<close>

definition atom_of :: "string \<Rightarrow> atom" where
  "atom_of text = projr (Parse text)"

definition example_node :: "string \<Rightarrow> string \<Rightarrow> string \<times> pkg_node" where
  \<comment> \<open>a package with one version 1 and a run-time dependency\<close>
  "example_node cp rdepend =
     (cp, \<lparr>pn_atom = atom_of cp, pn_installed = False,
        pn_versions = [(''1'', zero_version_info\<lparr>vi_version := a_version (atom_of (''='' @ cp @ ''-1'')), vi_slot := ''0'', vi_available := True,
          vi_rdepend := rdepend, vi_eapi := ''8'', vi_metadata_known := True\<rparr>)], pn_deps = []\<rparr>)"

definition example_action :: "string \<Rightarrow> pkg_action" where
  "example_action cp = zero_pkg_action\<lparr>pa_atom := Some (atom_of (''='' @ cp @ ''-1'')), pa_action := ''install'', pa_slot := ''0''\<rparr>"

definition example_resolver :: resolver where
  "example_resolver = empty_resolver [example_node ''a/app'' ''a/lib'', example_node ''a/lib'' []]"

definition example_plan :: "pkg_action list" where
  "example_plan = sortPlannedActions example_resolver [example_action ''a/app'', example_action ''a/lib'']"

lemma example_plan_value:
  "example_plan = [example_action ''a/lib'', (example_action ''a/app'')\<lparr>pa_prerequisites := [''ROOT|=a/lib-1|0||'']\<rparr>] \<and>
   must_precede example_resolver (example_action ''a/lib'') (example_action ''a/app'') \<and>
   map ActionIdentity [example_action ''a/lib'', example_action ''a/app''] = [''ROOT|=a/lib-1|0||'', ''ROOT|=a/app-1|0||'']"
  by code_simp

lemma example_plan_arc: "(0, 1) \<in> plan_arcs example_resolver example_plan" "length example_plan = 2"
proof -
  have second: "must_precede r a (b\<lparr>pa_prerequisites := ps\<rparr>) = must_precede r a b" for r a b ps
    by (simp add: must_precede_def edge_provider_def prerequisites_irrelevant)
  have plan: "example_plan = [example_action ''a/lib'', (example_action ''a/app'')\<lparr>pa_prerequisites := [''ROOT|=a/lib-1|0||'']\<rparr>]"
    "must_precede example_resolver (example_action ''a/lib'') (example_action ''a/app'')" using example_plan_value by simp_all
  show "(0, 1) \<in> plan_arcs example_resolver example_plan" "length example_plan = 2"
    unfolding plan(1) using plan(2) by (simp_all add: plan_arcs_def second)
qed

subsection \<open>Properties\<close>

text \<open>
  Claim C16: the components that Tarjan's algorithm returns for the order graph of a plan are its strongly connected components: they
  partition the actions, two actions are in one component exactly when each is reachable from the other, every action is numbered with
  its component, and no arc leads to a component with a larger number. The recursion always ends within its fuel.
\<close>

theorem plan_components_strong:
  assumes "stronglyConnectedPlanComponents (plannedOrderGraph r actions) (length actions) = (componentOf, components)"
  shows "distinct (concat components) \<and> set (concat components) = {..<length actions} \<and>
    (\<forall>c < length components. components ! c \<noteq> [] \<and> (\<forall>v \<in> set (components ! c). componentOf ! v = c \<and>
       set (components ! c) = {w. (v, w) \<in> (plan_arcs r actions)\<^sup>* \<and> (w, v) \<in> (plan_arcs r actions)\<^sup>*})) \<and>
    (\<forall>(i, j) \<in> plan_arcs r actions. componentOf ! j \<le> componentOf ! i)"
proof (intro conjI allI impI ballI)
  note result = order_graph.components_result [OF assms]
  show "distinct (concat components)" "set (concat components) = {..<length actions}" by (fact result)+
  show "components ! c \<noteq> []" if "c < length components" for c by (rule result(4) [OF that])
  fix c v assume "c < length components" "v \<in> set (components ! c)"
  then show "componentOf ! v = c" "set (components ! c) = {w. (v, w) \<in> (plan_arcs r actions)\<^sup>* \<and> (w, v) \<in> (plan_arcs r actions)\<^sup>*}"
    using result(5,6) by (simp_all add: plan_arcs_edges strongly_connected_def)
next
  note result = order_graph.components_result [OF assms]
  fix arc assume "arc \<in> plan_arcs r actions"
  then show "case arc of (i, j) \<Rightarrow> componentOf ! j \<le> componentOf ! i" using result(7) by (auto simp: plan_arcs_edges plan_edges_def)
qed

theorem plan_components_strong_witness:
  "\<exists>componentOf components. stronglyConnectedPlanComponents (plannedOrderGraph example_resolver example_plan) (length example_plan) = (componentOf, components) \<and>
     set (concat components) = {..<2} \<and> componentOf ! 1 \<le> componentOf ! 0"
proof -
  obtain componentOf components where eq:
    "stronglyConnectedPlanComponents (plannedOrderGraph example_resolver example_plan) (length example_plan) = (componentOf, components)" by force
  show ?thesis using plan_components_strong [OF eq] eq example_plan_arc by auto
qed

text \<open>
  Claim C2: sorting keeps the actions of the plan: up to the prerequisites, which it sets, the sorted plan is a permutation of the
  given one. Where an action must precede another by the metadata of the selected versions (a provider before its dependant, a dependant
  before its post dependency, a rebuild after its provider), it stands earlier, except inside a cycle, where the later one must also
  precede the earlier one.
\<close>

theorem sorted_plan_topological:
  "mset (map without_prerequisites (sortPlannedActions r actions)) = mset (map without_prerequisites actions) \<and>
   (\<forall>(i, j) \<in> plan_arcs r (sortPlannedActions r actions). i < j \<or> (j, i) \<in> (plan_arcs r (sortPlannedActions r actions))\<^sup>+)"
  using sorted_plan_cleared sorted_plan_arcs by blast

theorem sorted_plan_topological_witness:
  "(0, 1) \<in> plan_arcs example_resolver example_plan \<and> ((0::nat) < 1 \<or> (1, 0) \<in> (plan_arcs example_resolver example_plan)\<^sup>+)"
  using sorted_plan_topological [of example_resolver "[example_action ''a/app'', example_action ''a/lib'']"] example_plan_arc
  unfolding example_plan_def [symmetric] by auto

text \<open>
  Claim C11: the prerequisites of a sorted plan with at least two actions (a shorter one is left as it is) name exactly what has to finish first: every prerequisite of an action is
  the identity of an earlier action of the plan, and every action that stands later and depends on an earlier one waits for it,
  directly or through a chain of prerequisites.
\<close>

theorem sorted_plan_prerequisites:
  assumes "2 \<le> length actions"
  shows "(\<forall>j < length actions. \<forall>identity \<in> set (pa_prerequisites (sortPlannedActions r actions ! j)).
      \<exists>i < j. identity = ActionIdentity (sortPlannedActions r actions ! i)) \<and>
    (\<forall>(i, j) \<in> plan_arcs r (sortPlannedActions r actions). i < j \<longrightarrow> (i, j) \<in> (waits_for (sortPlannedActions r actions))\<^sup>+)"
proof (intro conjI allI impI ballI)
  have more: "\<not> length actions \<le> 1" using assms by simp
  fix j identity assume "j < length actions" "identity \<in> set (pa_prerequisites (sortPlannedActions r actions ! j))"
  then show "\<exists>i < j. identity = ActionIdentity (sortPlannedActions r actions ! i)" using sorted_plan_waits [OF more] by blast
next
  have more: "\<not> length actions \<le> 1" using assms by simp
  fix arc assume "arc \<in> plan_arcs r (sortPlannedActions r actions)"
  then show "case arc of (i, j) \<Rightarrow> i < j \<longrightarrow> (i, j) \<in> (waits_for (sortPlannedActions r actions))\<^sup>+"
    using sorted_plan_covers [OF more] by auto
qed

theorem sorted_plan_prerequisites_witness: "(0, 1) \<in> (waits_for example_plan)\<^sup>+"
  using sorted_plan_prerequisites [of "[example_action ''a/app'', example_action ''a/lib'']" example_resolver] example_plan_arc
  unfolding example_plan_def [symmetric] by auto

text \<open>
  The check of a plan's order is exact: it adds no conflict precisely when no action stands before one it depends on, or
  after one that is its post dependency, except for pairs on a cycle of the order graph.
\<close>

theorem order_check_exact:
  "rv_conflicts (validatePlanOrder r plan) = rv_conflicts r \<longleftrightarrow>
   (\<forall>i < length plan. \<forall>j < i. depends r (plan ! i) (plan ! j) \<longrightarrow> (j, i) \<in> (plan_arcs r plan)\<^sup>+)"
proof -
  have "component_of r plan i = component_of r plan j \<longleftrightarrow> (j, i) \<in> (plan_arcs r plan)\<^sup>+"
    if "i < length plan" "j < i" "depends r (plan ! i) (plan ! j)" for i j
  proof -
    have "(i, j) \<in> plan_arcs r plan" using that by (auto simp: plan_arcs_def must_precede_def depends_def)
    then show ?thesis using same_component_iff [of i plan j r] that unfolding plan_arcs_edges by (auto simp: rtrancl_eq_or_trancl)
  qed
  then show ?thesis unfolding order_check by (meson less_trans)
qed

theorem order_check_exact_witness:
  "rv_conflicts (validatePlanOrder example_resolver [example_action ''a/lib'', example_action ''a/app'']) = [] \<longleftrightarrow>
   \<not> depends example_resolver (example_action ''a/app'') (example_action ''a/lib'') \<or>
     (0, 1) \<in> (plan_arcs example_resolver [example_action ''a/lib'', example_action ''a/app''])\<^sup>+"
proof -
  have "rv_conflicts example_resolver = []" by (simp add: example_resolver_def empty_resolver_def)
  then show ?thesis
    using order_check_exact [of example_resolver "[example_action ''a/lib'', example_action ''a/app'']"] by (auto simp: less_Suc_eq)
qed

text \<open>The check adds no conflict to a plan that was sorted.\<close>

theorem sorted_plan_checked: "validatePlanOrder r (sortPlannedActions r actions) = r"
proof -
  let ?plan = "sortPlannedActions r actions"
  obtain block where block: "in_blocks r ?plan block" using sorted_plan_blocks by blast
  have "component_of r ?plan i = component_of r ?plan j" if ij: "i < length ?plan" "j < length ?plan" "j < i" "depends r (?plan ! i) (?plan ! j)" for i j
  proof -
    have "must_precede r (?plan ! i) (?plan ! j)" using ij(4) by (auto simp: must_precede_def depends_def)
    then have "block i \<le> block j" "block j \<le> block i" using block ij unfolding in_blocks_def by auto
    then show ?thesis using block ij unfolding in_blocks_def by simp
  qed
  then have "rv_conflicts (validatePlanOrder r ?plan) = rv_conflicts r" unfolding order_check by blast
  moreover have "validatePlanOrder r ?plan = r\<lparr>rv_conflicts := rv_conflicts (validatePlanOrder r ?plan)\<rparr>"
    by (simp add: validatePlanOrder_def Let_def)
  ultimately show ?thesis by simp
qed

end
