(* ===== verification/Executor.thy ===== *)
theory Executor
  imports Resolve_Order "HOL-Library.Word"
begin

text \<open>
  The executor, \<^verbatim>\<open>src/internal/executor\<close>: the prerequisite graph of a plan and its validation, the reserve of temporary space, the planning
  of blocker removals, and the scheduler \<^verbatim>\<open>executeConcurrent\<close>. The scheduler is a state machine driven by what its environment does: each
  query of the free space and each result that a worker sends is an event. The workers themselves (builds, merges, callbacks) are
  outside; a worker is the index of its action from its launch until its result arrives. Workers that are drained after
  an error have no further effect and are left out.
\<close>

subsection \<open>Labels and errors\<close>

datatype exec_error =
    DuplicateIdentity string
  | RepeatedPrerequisite string string
  | MissingPrerequisite string string
  | PrerequisiteCycle
  | NoReadyAction
  | Stalled nat nat
  | ActionFailed string string
  | SpaceUnknown string string
  | NoFreeSpace string
  | BelowFloor string "64 word" "64 word"
  | BuildOnlyRemoval
  | DuplicateRemoval string
  | RemovalPreflight string string
  | NoRequester string
  | MissingRequester string string

definition actionLabel :: "pkg_action \<Rightarrow> string" where
  "actionLabel action =
     (case pa_atom action of
        None \<Rightarrow> ''<nil>''
      | Some a \<Rightarrow> CP a @ (case a_version a of None \<Rightarrow> [] | Some v \<Rightarrow> if v_raw v \<noteq> [] then ''-'' @ v_raw v else []))"

subsection \<open>The prerequisite graph\<close>

primrec identity_positions :: "nat \<Rightarrow> nat gomap \<Rightarrow> pkg_action list \<Rightarrow> (exec_error, nat gomap) result" where
  \<comment> \<open>the first loop of \<^verbatim>\<open>actionPrerequisites\<close>\<close>
  "identity_positions index identities [] = Inr identities"
| "identity_positions index identities (action # actions) =
     (if map_of identities (ActionIdentity action) \<noteq> None then Inl (DuplicateIdentity (ActionIdentity action))
      else identity_positions (index + 1) (map_put (ActionIdentity action) index identities) actions)"

type_synonym prerequisite_graph = "int list \<times> int_map"

primrec count_prerequisites ::
  "nat gomap \<Rightarrow> nat \<Rightarrow> pkg_action \<Rightarrow> string list \<Rightarrow> string list \<Rightarrow> prerequisite_graph \<Rightarrow> (exec_error, prerequisite_graph) result" where
  \<comment> \<open>the loop over the prerequisites of one action, after the ones seen\<close>
  "count_prerequisites identities index action seen [] st = Inr st"
| "count_prerequisites identities index action seen (prerequisite # prerequisites) st =
     (if prerequisite \<in> set seen then Inl (RepeatedPrerequisite (actionLabel action) prerequisite)
      else case map_of identities prerequisite of
          None \<Rightarrow> Inl (MissingPrerequisite (actionLabel action) prerequisite)
        | Some before \<Rightarrow>
            count_prerequisites identities index action (prerequisite # seen) prerequisites
              ((fst st)[index := fst st ! index + 1], out_put before (out_at (snd st) before @ [index]) (snd st)))"

primrec count_actions :: "nat gomap \<Rightarrow> nat \<Rightarrow> pkg_action list \<Rightarrow> prerequisite_graph \<Rightarrow> (exec_error, prerequisite_graph) result" where
  "count_actions identities index [] st = Inr st"
| "count_actions identities index (action # actions) st =
     (case count_prerequisites identities index action [] (pa_prerequisites action) st of
        Inl e \<Rightarrow> Inl e
      | Inr st' \<Rightarrow> count_actions identities (index + 1) actions st')"

definition actionPrerequisites :: "pkg_action list \<Rightarrow> (exec_error, prerequisite_graph) result" where
  \<comment> \<open>\<^verbatim>\<open>remaining\<close> and \<^verbatim>\<open>dependents\<close>\<close>
  "actionPrerequisites actions =
     (case identity_positions 0 [] actions of
        Inl e \<Rightarrow> Inl e
      | Inr identities \<Rightarrow> count_actions identities 0 actions (replicate (length actions) 0, []))"

definition initially_ready :: "int list \<Rightarrow> nat list" where
  "initially_ready remaining = filter (\<lambda>index. remaining ! index = 0) [0..<length remaining]"

definition validateActionGraph :: "pkg_action list \<Rightarrow> exec_error option" where
  \<comment> \<open>the loop over \<^verbatim>\<open>ready\<close> is Kahn's; \<^verbatim>\<open>visited\<close> is the number of actions that leave the queue\<close>
  "validateActionGraph actions =
     (case actionPrerequisites actions of
        Inl e \<Rightarrow> Some e
      | Inr (remaining, dependents) \<Rightarrow>
          (case kahn_loop (length actions) (\<lambda>queue. queue) dependents (initially_ready remaining, remaining) of
             None \<Rightarrow> Some PrerequisiteCycle \<comment> \<open>not reached: the queue is empty after at most one visit of each action\<close>
           | Some order \<Rightarrow> if length order \<noteq> length actions then Some PrerequisiteCycle else None))"

subsection \<open>Temporary space\<close>

fun reserve_from :: "64 word \<Rightarrow> nat \<Rightarrow> nat \<Rightarrow> 64 word \<Rightarrow> 64 word" where
  \<comment> \<open>the loop of \<^verbatim>\<open>tmpdirRequiredBytes\<close>: the divisor and the number of iterations left\<close>
  "reserve_from base divisor 0 required = required"
| "reserve_from base divisor (Suc left) required = reserve_from base (divisor + 1) left (required + base div of_nat divisor)"

definition tmpdirRequiredBytes :: "int \<Rightarrow> nat \<Rightarrow> 64 word" where
  "tmpdirRequiredBytes gib running =
     (if gib \<le> 0 then 0 else let base = push_bit 30 (word_of_int gib) in reserve_from base 2 running base)"

definition minimumSerialTmpdirBytes :: "64 word" where
  "minimumSerialTmpdirBytes = push_bit 30 1"

record exec_config =
  xc_jobs :: nat
  xc_tmpdir_require_free_gb :: int
  xc_work_dir_base :: string

definition admitTmpdirJob :: "exec_config \<Rightarrow> (string, 64 word) result \<Rightarrow> nat \<Rightarrow> (exec_error, bool) result" where
  \<comment> \<open>the second argument is what \<^verbatim>\<open>cfg.FreeSpace\<close> returns; the callback \<^verbatim>\<open>OnSpaceWait\<close> has no effect on the schedule\<close>
  "admitTmpdirJob cfg free_space running =
     (let path = (if xc_work_dir_base cfg = [] then ''/var/tmp/arise'' else xc_work_dir_base cfg) in
      case free_space of
        Inl e \<Rightarrow> Inl (SpaceUnknown path e)
      | Inr available \<Rightarrow>
          if available = 0 then Inl (NoFreeSpace path)
          else
            let required = tmpdirRequiredBytes (xc_tmpdir_require_free_gb cfg) running;
                floor = min required minimumSerialTmpdirBytes
            in if running = 0 \<and> required > 0 \<and> available < floor then Inl (BelowFloor path available floor)
               else Inr (\<not> (running > 0 \<and> required > 0 \<and> available < required)))"

subsection \<open>Blocker removals\<close>

definition requested_by :: "pkg_action list \<Rightarrow> string \<Rightarrow> bool" where
  "requested_by install requester =
     list_ex (\<lambda>a. (case pa_atom a of None \<Rightarrow> False | Some b \<Rightarrow> CP b = requester) \<and> (pa_domain a = [] \<or> pa_domain a = DomainROOT)) install"

primrec plan_removals ::
  "bool \<Rightarrow> (pkg_action \<Rightarrow> string option) \<Rightarrow> pkg_action list \<Rightarrow> string list \<Rightarrow> pkg_action list \<Rightarrow> exec_error option" where
  "plan_removals build_only preflight install seen [] = None"
| "plan_removals build_only preflight install seen (removal # removals) =
     (if build_only then Some BuildOnlyRemoval
      else if ActionIdentity removal \<in> set seen then Some (DuplicateRemoval (actionLabel removal))
      else case preflight removal of
          Some e \<Rightarrow> Some (RemovalPreflight (actionLabel removal) e)
        | None \<Rightarrow>
            if pa_removal_before removal = [] then Some (NoRequester (actionLabel removal))
            else case find (\<lambda>requester. \<not> requested_by install requester) (pa_removal_before removal) of
                Some requester \<Rightarrow> Some (MissingRequester (actionLabel removal) requester)
              | None \<Rightarrow> plan_removals build_only preflight install (ActionIdentity removal # seen) removals)"

definition planBlockerRemovals :: "bool \<Rightarrow> (pkg_action \<Rightarrow> string option) \<Rightarrow> pkg_action list \<Rightarrow> pkg_action list \<Rightarrow> exec_error option" where
  \<comment> \<open>the error of \<^verbatim>\<open>planBlockerRemovals\<close>; \<^verbatim>\<open>preflightRemoval\<close> reads the file system and is an argument\<close>
  "planBlockerRemovals build_only preflight install uninstall = plan_removals build_only preflight install [] uninstall"

subsection \<open>The scheduler\<close>

datatype log_entry = Launched nat | Committed nat

record exec_state =
  ex_remaining :: "int list"
  ex_ready :: "nat list"
  ex_running :: "nat list"
  ex_completed :: nat
  ex_waiting :: bool \<comment> \<open>the admission loop was left because space is short\<close>
  ex_result :: "exec_error option option" \<comment> \<open>the value returned, once there is one\<close>
  ex_log :: "log_entry list" \<comment> \<open>launches and commits in their order\<close>

datatype exec_event = FreeSpace "(string, 64 word) result" | Outcome nat "string option"

definition admitting :: "exec_config \<Rightarrow> exec_state \<Rightarrow> bool" where
  \<comment> \<open>the condition of the admission loop\<close>
  "admitting cfg st \<longleftrightarrow> ex_ready st \<noteq> [] \<and> length (ex_running st) < xc_jobs cfg \<and> \<not> ex_waiting st"

definition settle :: "exec_config \<Rightarrow> nat \<Rightarrow> exec_state \<Rightarrow> exec_state" where
  \<comment> \<open>the tests between the loops: the end of the outer loop and the report of a stall\<close>
  "settle cfg planned st =
     (if ex_completed st \<ge> planned then st\<lparr>ex_result := Some None\<rparr>
      else if \<not> admitting cfg st \<and> ex_running st = [] then st\<lparr>ex_result := Some (Some (Stalled (ex_completed st) planned))\<rparr>
      else st)"

definition launch :: "exec_state \<Rightarrow> exec_state" where
  "launch st =
     (case ex_ready st of
        [] \<Rightarrow> st
      | index # ready \<Rightarrow> st\<lparr>ex_ready := ready, ex_running := ex_running st @ [index], ex_log := ex_log st @ [Launched index]\<rparr>)"

definition commit :: "int_map \<Rightarrow> nat \<Rightarrow> exec_state \<Rightarrow> exec_state" where
  \<comment> \<open>a result without an error: the dependants are released\<close>
  "commit dependents index st =
     (case foldl (release (\<lambda>queue. queue)) (ex_ready st, ex_remaining st) (out_at dependents index) of (ready, remaining) \<Rightarrow>
        st\<lparr>ex_ready := sort ready, ex_remaining := remaining, ex_running := remove1 index (ex_running st),
           ex_completed := ex_completed st + 1, ex_waiting := False, ex_log := ex_log st @ [Committed index]\<rparr>)"

definition exec_step :: "exec_config \<Rightarrow> pkg_action list \<Rightarrow> int_map \<Rightarrow> exec_event \<Rightarrow> exec_state \<Rightarrow> exec_state option" where
  \<comment> \<open>one event; \<open>None\<close> when the executor does not wait for it\<close>
  "exec_step cfg actions dependents event st =
     (if ex_result st \<noteq> None then None
      else case event of
          FreeSpace free_space \<Rightarrow>
            if \<not> admitting cfg st then None
            else Some (case admitTmpdirJob cfg free_space (length (ex_running st)) of
                Inl e \<Rightarrow> st\<lparr>ex_result := Some (Some e)\<rparr>
              | Inr admitted \<Rightarrow> settle cfg (length actions) (if admitted then launch st else st\<lparr>ex_waiting := True\<rparr>))
        | Outcome index failure \<Rightarrow>
            if admitting cfg st \<or> index \<notin> set (ex_running st) then None
            else Some (case failure of
                Some e \<Rightarrow> st\<lparr>ex_result := Some (Some (ActionFailed (actionLabel (actions ! index)) e))\<rparr>
              | None \<Rightarrow> settle cfg (length actions) (commit dependents index st)))"

definition exec_start :: "exec_config \<Rightarrow> pkg_action list \<Rightarrow> (exec_error, exec_state \<times> int_map) result" where
  \<comment> \<open>\<^verbatim>\<open>executeConcurrent\<close> up to its loop\<close>
  "exec_start cfg actions =
     (case actionPrerequisites actions of
        Inl e \<Rightarrow> Inl e
      | Inr (remaining, dependents) \<Rightarrow>
          let ready = initially_ready remaining in
          if ready = [] then Inl NoReadyAction
          else Inr (settle cfg (length actions) \<lparr>ex_remaining = remaining, ex_ready = sort ready, ex_running = [], ex_completed = 0,
            ex_waiting = False, ex_result = None, ex_log = []\<rparr>, dependents))"

inductive executes :: "exec_config \<Rightarrow> pkg_action list \<Rightarrow> int_map \<Rightarrow> exec_event list \<Rightarrow> exec_state \<Rightarrow> bool"
  for cfg actions dependents where
  start: "exec_start cfg actions = Inr (st, dependents) \<Longrightarrow> executes cfg actions dependents [] st"
| step: "executes cfg actions dependents events st \<Longrightarrow> exec_step cfg actions dependents event st = Some st' \<Longrightarrow>
    executes cfg actions dependents (events @ [event]) st'"

inductive_cases executes_cases: "executes cfg actions dependents events st"

subsection \<open>The prerequisite graph is exact\<close>

lemma identity_positions_total:
  "(\<exists>ids'. identity_positions index ids actions = Inr ids') \<longleftrightarrow>
     distinct (map ActionIdentity actions) \<and> (\<forall>a \<in> set actions. map_of ids (ActionIdentity a) = None)"
  by (induction actions arbitrary: index ids) (auto simp: image_iff)

lemma identity_positions_value:
  assumes "identity_positions index ids actions = Inr ids'"
  shows "(\<forall>i < length actions. map_of ids' (ActionIdentity (actions ! i)) = Some (index + i)) \<and>
    (\<forall>k. k \<notin> set (map ActionIdentity actions) \<longrightarrow> map_of ids' k = map_of ids k)"
  using assms
proof (induction actions arbitrary: index ids)
  case (Cons a actions)
  have rest: "identity_positions (index + 1) (map_put (ActionIdentity a) index ids) actions = Inr ids'"
    using Cons.prems by (simp split: if_splits)
  have "ActionIdentity a \<notin> set (map ActionIdentity actions)"
    using identity_positions_total [of "index + 1" "map_put (ActionIdentity a) index ids" actions] rest by fastforce
  then have first: "map_of ids' (ActionIdentity a) = Some index" using Cons.IH [OF rest] by simp
  show ?case
  proof (intro conjI allI impI)
    fix i assume i: "i < length (a # actions)"
    show "map_of ids' (ActionIdentity ((a # actions) ! i)) = Some (index + i)"
    proof (cases i)
      case 0
      then show ?thesis using first by simp
    next
      case (Suc k)
      then show ?thesis using Cons.IH [OF rest] i by simp
    qed
  next
    fix k assume "k \<notin> set (map ActionIdentity (a # actions))"
    then show "map_of ids' k = map_of ids k" using Cons.IH [OF rest] by simp
  qed
qed simp

definition counts_ok :: "nat \<Rightarrow> prerequisite_graph \<Rightarrow> bool" where
  \<comment> \<open>\<^verbatim>\<open>remaining\<close> counts the entries of \<^verbatim>\<open>dependents\<close>\<close>
  "counts_ok n st \<longleftrightarrow> length (fst st) = n \<and> (\<forall>v < n. fst st ! v = int (\<Sum>u < n. count_list (out_at (snd st) u) v))"

lemma counts_ok_add:
  assumes "counts_ok n st" "index < n" "before < n"
  shows "counts_ok n ((fst st)[index := fst st ! index + 1], out_put before (out_at (snd st) before @ [index]) (snd st))"
proof -
  have "(\<Sum>u < n. count_list (out_at (out_put before (out_at (snd st) before @ [index]) (snd st)) u) v) =
      (\<Sum>u < n. count_list (out_at (snd st) u) v) + (if v = index then 1 else 0)" for v
  proof -
    have "(\<Sum>u < n. count_list (out_at (out_put before (out_at (snd st) before @ [index]) (snd st)) u) v) =
        (\<Sum>u < n. count_list (out_at (snd st) u) v + (if u = before \<and> v = index then 1 else 0))"
      by (rule sum.cong) (auto simp: out_at_put)
    also have "\<dots> = (\<Sum>u < n. count_list (out_at (snd st) u) v) + (\<Sum>u < n. if u = before \<and> v = index then 1 else 0)"
      by (simp add: sum.distrib)
    also have "(\<Sum>u < n. if u = before \<and> v = index then (1::nat) else 0) = (if v = index then 1 else 0)"
      using assms(3) by (cases "v = index") simp_all
    finally show ?thesis .
  qed
  then show ?thesis using assms by (auto simp: counts_ok_def nth_list_update)
qed

lemma count_prerequisites_total:
  "(\<exists>st'. count_prerequisites ids index a seen ps st = Inr st') \<longleftrightarrow>
     distinct ps \<and> set ps \<inter> set seen = {} \<and> (\<forall>p \<in> set ps. map_of ids p \<noteq> None)"
  by (induction ps arbitrary: seen st) (auto split: option.split)

lemma count_prerequisites_value:
  assumes "count_prerequisites ids index a seen ps st = Inr st'" "counts_ok n st" "index < n"
    and "\<And>p b. p \<in> set ps \<Longrightarrow> map_of ids p = Some b \<Longrightarrow> b < n"
  shows "counts_ok n st' \<and> (\<forall>u v. v \<in> set (out_at (snd st') u) \<longleftrightarrow>
    v \<in> set (out_at (snd st) u) \<or> v = index \<and> (\<exists>p \<in> set ps. map_of ids p = Some u))"
  using assms
proof (induction ps arbitrary: seen st)
  case (Cons p ps)
  obtain before where before: "map_of ids p = Some before" using Cons.prems(1) by (auto split: if_splits option.splits)
  let ?st = "((fst st)[index := fst st ! index + 1], out_put before (out_at (snd st) before @ [index]) (snd st))"
  have rest: "count_prerequisites ids index a (p # seen) ps ?st = Inr st'" using Cons.prems(1) before by (auto split: if_splits)
  have "counts_ok n ?st" using counts_ok_add [OF Cons.prems(2,3)] Cons.prems(4) [of p] before by simp
  have IH: "counts_ok n st' \<and> (\<forall>u v. v \<in> set (out_at (snd st') u) \<longleftrightarrow>
      v \<in> set (out_at (snd ?st) u) \<or> v = index \<and> (\<exists>p \<in> set ps. map_of ids p = Some u))"
    using Cons.prems(4) by (intro Cons.IH [OF rest \<open>counts_ok n ?st\<close> Cons.prems(3)]) auto
  moreover have "v \<in> set (out_at (snd ?st) u) \<longleftrightarrow> v \<in> set (out_at (snd st) u) \<or> v = index \<and> before = u" for u v
    by (auto simp: out_at_put)
  ultimately show ?case using before by auto
qed simp

lemma count_actions_total:
  "(\<exists>st'. count_actions ids index actions st = Inr st') \<longleftrightarrow>
     (\<forall>a \<in> set actions. distinct (pa_prerequisites a) \<and> (\<forall>p \<in> set (pa_prerequisites a). map_of ids p \<noteq> None))"
proof (induction actions arbitrary: index st)
  case (Cons a actions)
  show ?case
  proof (cases "count_prerequisites ids index a [] (pa_prerequisites a) st")
    case (Inl e)
    then show ?thesis using count_prerequisites_total [of ids index a "[]" "pa_prerequisites a" st] by auto
  next
    case (Inr st1)
    then show ?thesis using count_prerequisites_total [of ids index a "[]" "pa_prerequisites a" st] Cons.IH by auto
  qed
qed simp

lemma count_actions_value:
  assumes "count_actions ids index actions st = Inr st'" "counts_ok n st" "index + length actions \<le> n"
    and "\<And>p b. map_of ids p = Some b \<Longrightarrow> b < n"
  shows "counts_ok n st' \<and> (\<forall>u v. v \<in> set (out_at (snd st') u) \<longleftrightarrow> v \<in> set (out_at (snd st) u) \<or>
    (\<exists>i < length actions. v = index + i \<and> (\<exists>p \<in> set (pa_prerequisites (actions ! i)). map_of ids p = Some u)))"
  using assms
proof (induction actions arbitrary: index st)
  case (Cons a actions)
  obtain st1 where st1: "count_prerequisites ids index a [] (pa_prerequisites a) st = Inr st1" "count_actions ids (index + 1) actions st1 = Inr st'"
    using Cons.prems(1) by (auto split: sum.splits)
  have step: "counts_ok n st1 \<and> (\<forall>u v. v \<in> set (out_at (snd st1) u) \<longleftrightarrow>
      v \<in> set (out_at (snd st) u) \<or> v = index \<and> (\<exists>p \<in> set (pa_prerequisites a). map_of ids p = Some u))"
    using count_prerequisites_value [OF st1(1) Cons.prems(2) _ Cons.prems(4)] Cons.prems(3) by simp
  have "counts_ok n st' \<and> (\<forall>u v. v \<in> set (out_at (snd st') u) \<longleftrightarrow> v \<in> set (out_at (snd st1) u) \<or>
      (\<exists>i < length actions. v = index + 1 + i \<and> (\<exists>p \<in> set (pa_prerequisites (actions ! i)). map_of ids p = Some u)))"
    using Cons.IH [OF st1(2) _ _ Cons.prems(4)] step Cons.prems(3) by simp
  moreover have "(\<exists>i < length (a # actions). v = index + i \<and> (\<exists>p \<in> set (pa_prerequisites ((a # actions) ! i)). map_of ids p = Some u)) \<longleftrightarrow>
      v = index \<and> (\<exists>p \<in> set (pa_prerequisites a). map_of ids p = Some u) \<or>
      (\<exists>i < length actions. v = index + 1 + i \<and> (\<exists>p \<in> set (pa_prerequisites (actions ! i)). map_of ids p = Some u))" for u v
    by (auto simp: Ex_less_Suc2)
  ultimately show ?case using step by auto
qed simp

definition well_named :: "pkg_action list \<Rightarrow> bool" where
  \<comment> \<open>identities are unique and the prerequisites of an action are different identities of the plan\<close>
  "well_named actions \<longleftrightarrow> distinct (map ActionIdentity actions) \<and>
     (\<forall>a \<in> set actions. distinct (pa_prerequisites a) \<and> set (pa_prerequisites a) \<subseteq> ActionIdentity ` set actions)"

lemma action_prerequisites_total: "(\<exists>st. actionPrerequisites actions = Inr st) \<longleftrightarrow> well_named actions"
proof (cases "identity_positions 0 [] actions")
  case (Inl e)
  then show ?thesis using identity_positions_total [of 0 "[]" actions] by (auto simp: actionPrerequisites_def well_named_def)
next
  case (Inr ids)
  note positions = identity_positions_value [OF Inr]
  have "map_of ids p \<noteq> None \<longleftrightarrow> p \<in> ActionIdentity ` set actions" for p
  proof
    assume "map_of ids p \<noteq> None"
    then show "p \<in> ActionIdentity ` set actions" using positions by fastforce
  next
    assume "p \<in> ActionIdentity ` set actions"
    then obtain i where "i < length actions" "p = ActionIdentity (actions ! i)" by (auto simp: in_set_conv_nth)
    then show "map_of ids p \<noteq> None" using positions by simp
  qed
  moreover have "distinct (map ActionIdentity actions)" using identity_positions_total [of 0 "[]" actions] Inr by auto
  ultimately show ?thesis
    using Inr count_actions_total [of ids 0 actions "(replicate (length actions) 0, [])"]
    by (auto simp: actionPrerequisites_def well_named_def)
qed

lemma action_prerequisites_graph:
  assumes "actionPrerequisites actions = Inr (remaining, dependents)"
  shows "counts_ok (length actions) (remaining, dependents)" "v \<in> set (out_at dependents u) \<longleftrightarrow> (u, v) \<in> waits_for actions"
proof -
  obtain ids where ids: "identity_positions 0 [] actions = Inr ids"
    "count_actions ids 0 actions (replicate (length actions) 0, []) = Inr (remaining, dependents)"
    using assms by (auto simp: actionPrerequisites_def split: sum.splits)
  note positions = identity_positions_value [OF ids(1)]
  have position: "map_of ids p = Some b \<longleftrightarrow> b < length actions \<and> p = ActionIdentity (actions ! b)" for p b
  proof
    assume p: "map_of ids p = Some b"
    then have "p \<in> set (map ActionIdentity actions)" using positions by fastforce
    then obtain i where "i < length actions" "p = ActionIdentity (actions ! i)" by (auto simp: in_set_conv_nth)
    then show "b < length actions \<and> p = ActionIdentity (actions ! b)" using positions p by simp
  next
    assume "b < length actions \<and> p = ActionIdentity (actions ! b)"
    then show "map_of ids p = Some b" using positions by simp
  qed
  have empty: "out_at [] u = []" for u by (simp add: out_at_def)
  have "counts_ok (length actions) (replicate (length actions) 0, [])" by (simp add: counts_ok_def empty)
  from count_actions_value [OF ids(2) this] position
  have result: "counts_ok (length actions) (remaining, dependents) \<and> (\<forall>u v. v \<in> set (out_at dependents u) \<longleftrightarrow>
      (\<exists>i < length actions. v = i \<and> (\<exists>p \<in> set (pa_prerequisites (actions ! i)). map_of ids p = Some u)))"
    by (simp add: empty)
  then show "counts_ok (length actions) (remaining, dependents)" by simp
  show "v \<in> set (out_at dependents u) \<longleftrightarrow> (u, v) \<in> waits_for actions"
    using result position by (auto simp: waits_for_def)
qed

subsection \<open>Validation of the graph\<close>

definition dependents_of :: "pkg_action list \<Rightarrow> int_map" where
  "dependents_of actions = (case actionPrerequisites actions of Inl e \<Rightarrow> [] | Inr (remaining, dependents) \<Rightarrow> dependents)"

lemma dependents_waits: "v \<in> set (out_at (dependents_of actions) u) \<Longrightarrow> (u, v) \<in> waits_for actions"
  using action_prerequisites_graph(2) by (auto simp: dependents_of_def out_at_def split: sum.splits prod.splits)

interpretation exec_kahn: kahn_graph "dependents_of actions" "length actions" "\<lambda>queue. queue" for actions
  by unfold_locales (auto simp: targets_in_range_def waits_for_def dest: dependents_waits)

lemma dependents_exact:
  assumes "actionPrerequisites actions = Inr (remaining, dependents)"
  shows "dependents = dependents_of actions" "v \<in> set (out_at (dependents_of actions) u) \<longleftrightarrow> (u, v) \<in> waits_for actions"
  using assms action_prerequisites_graph(2) [OF assms] by (simp_all add: dependents_of_def)

lemma initial_kahn:
  assumes "actionPrerequisites actions = Inr (remaining, dependents)"
  shows "exec_kahn.kahn_inv actions {} (initially_ready remaining) remaining"
  using action_prerequisites_graph(1) [OF assms] dependents_exact(1) [OF assms]
  by (intro exec_kahn.kahn_start) (simp_all add: counts_ok_def initially_ready_def)

lemma waits_finite: "finite (waits_for actions)"
  by (rule finite_subset [of _ "{..<length actions} \<times> {..<length actions}"]) (auto simp: waits_for_def)

lemma graph_validated: "validateActionGraph actions = None \<longleftrightarrow> well_named actions \<and> acyclic (waits_for actions)"
proof (cases "actionPrerequisites actions")
  case (Inl e)
  then show ?thesis using action_prerequisites_total [of actions] by (auto simp: validateActionGraph_def)
next
  case (Inr st)
  obtain remaining dependents where eq: "actionPrerequisites actions = Inr (remaining, dependents)" using Inr by (cases st) auto
  have dep: "dependents = dependents_of actions" by (rule dependents_exact(1) [OF eq])
  have arcs: "exec_kahn.arcs actions = waits_for actions"
    using dependents_exact(2) [OF eq] by (auto simp: exec_kahn.arcs_def waits_for_def)
  obtain order where order: "kahn_loop (length actions) (\<lambda>queue. queue) dependents (initially_ready remaining, remaining) = Some order"
    "length order = length actions \<longleftrightarrow> acyclic (waits_for actions)"
    using exec_kahn.kahn_exact [OF initial_kahn [OF eq]] unfolding dep arcs by metis
  then have "validateActionGraph actions = None \<longleftrightarrow> acyclic (waits_for actions)" by (simp add: validateActionGraph_def eq order(1))
  then show ?thesis using action_prerequisites_total [of actions] eq by blast
qed

subsection \<open>Invariant of the scheduler\<close>

definition committed :: "exec_state \<Rightarrow> nat set" where
  "committed st = {i. Committed i \<in> set (ex_log st)}"

definition log_ok :: "pkg_action list \<Rightarrow> log_entry list \<Rightarrow> bool" where
  \<comment> \<open>at every launch the prerequisites of the action are committed, and a commit follows a launch\<close>
  "log_ok actions log \<longleftrightarrow>
     (\<forall>xs i ys. log = xs @ Launched i # ys \<longrightarrow> (\<forall>u. (u, i) \<in> waits_for actions \<longrightarrow> Committed u \<in> set xs)) \<and>
     (\<forall>xs i ys. log = xs @ Committed i # ys \<longrightarrow> Launched i \<in> set xs)"

definition exec_inv :: "exec_config \<Rightarrow> pkg_action list \<Rightarrow> exec_state \<Rightarrow> bool" where
  "exec_inv cfg actions st \<longleftrightarrow>
     exec_kahn.kahn_inv actions (committed st) (ex_running st @ ex_ready st) (ex_remaining st) \<and>
     ex_completed st = card (committed st) \<and> distinct (ex_log st) \<and>
     {i. Launched i \<in> set (ex_log st)} = committed st \<union> set (ex_running st) \<and> log_ok actions (ex_log st) \<and>
     length (ex_running st) \<le> xc_jobs cfg"

lemma kahn_inv_perm:
  "exec_kahn.kahn_inv actions emitted queue degree \<Longrightarrow> mset queue = mset queue' \<Longrightarrow> exec_kahn.kahn_inv actions emitted queue' degree"
  unfolding exec_kahn.kahn_inv_def using mset_eq_setD mset_eq_imp_distinct_iff by metis

lemma release_prefix:
  "foldl (release (\<lambda>queue. queue)) (q0 @ q, d) xs =
     (q0 @ fst (foldl (release (\<lambda>queue. queue)) (q, d) xs), snd (foldl (release (\<lambda>queue. queue)) (q, d) xs))"
proof (induction xs arbitrary: q d)
  case (Cons x xs)
  have "release (\<lambda>queue. queue) (q0 @ q, d) x = (q0 @ fst (release (\<lambda>queue. queue) (q, d) x), snd (release (\<lambda>queue. queue) (q, d) x))"
    by (simp add: release_def Let_def)
  then show ?case using Cons.IH [of "fst (release (\<lambda>queue. queue) (q, d) x)" "snd (release (\<lambda>queue. queue) (q, d) x)"] by simp
qed simp

lemma log_snoc:
  "log_ok actions (log @ [Committed i]) \<longleftrightarrow> log_ok actions log \<and> Launched i \<in> set log"
  "log_ok actions (log @ [Launched i]) \<longleftrightarrow> log_ok actions log \<and> (\<forall>u. (u, i) \<in> waits_for actions \<longrightarrow> Committed u \<in> set log)"
proof -
  have split: "log @ [e] = xs @ d # ys \<longleftrightarrow> (ys = [] \<and> xs = log \<and> e = d) \<or> (\<exists>ys'. ys = ys' @ [e] \<and> log = xs @ d # ys')"
    for e d :: log_entry and xs ys
    by (cases ys rule: rev_cases) auto
  show "log_ok actions (log @ [Committed i]) \<longleftrightarrow> log_ok actions log \<and> Launched i \<in> set log"
    "log_ok actions (log @ [Launched i]) \<longleftrightarrow> log_ok actions log \<and> (\<forall>u. (u, i) \<in> waits_for actions \<longrightarrow> Committed u \<in> set log)"
    unfolding log_ok_def split by auto
qed

lemma launch_inv:
  assumes inv: "exec_inv cfg actions st" and ready: "ex_ready st = index # ready" and jobs: "length (ex_running st) < xc_jobs cfg"
    and exact: "\<And>u v. (u, v) \<in> waits_for actions \<Longrightarrow> v \<in> set (out_at (dependents_of actions) u)"
  shows "exec_inv cfg actions (launch st)"
proof -
  note kahn = inv [unfolded exec_inv_def, THEN conjunct1]
  have com: "committed (launch st) = committed st" by (auto simp: committed_def launch_def ready)
  have "index \<in> set (ex_running st @ ex_ready st)" by (simp add: ready)
  then have idx: "index < length actions" "index \<notin> committed st" "exec_kahn.pending actions (committed st) index = 0"
    unfolding exec_kahn.kahnD(6) [OF kahn] by simp_all
  have "index \<notin> set (ex_running st)" using exec_kahn.kahnD(5) [OF kahn] ready by auto
  then have fresh: "Launched index \<notin> set (ex_log st)" using inv idx(2) unfolding exec_inv_def by blast
  have "Committed u \<in> set (ex_log st)" if "(u, index) \<in> waits_for actions" for u
    using exact [OF that] idx(3) that unfolding exec_kahn.pending_zero by (auto simp: waits_for_def committed_def)
  moreover have "exec_kahn.kahn_inv actions (committed st) (ex_running (launch st) @ ex_ready (launch st)) (ex_remaining (launch st))"
    using kahn_inv_perm [OF kahn, of "ex_running (launch st) @ ex_ready (launch st)"] by (simp add: launch_def ready)
  moreover have "{i. Launched i \<in> set (ex_log (launch st))} = insert index {i. Launched i \<in> set (ex_log st)}" by (auto simp: launch_def ready)
  ultimately show ?thesis
    using inv fresh jobs unfolding exec_inv_def com by (simp add: launch_def ready log_snoc)
qed

lemma commit_inv:
  assumes inv: "exec_inv cfg actions st" and running: "index \<in> set (ex_running st)"
  shows "exec_inv cfg actions (commit (dependents_of actions) index st)" "committed (commit (dependents_of actions) index st) = insert index (committed st)"
proof -
  note kahn = inv [unfolded exec_inv_def, THEN conjunct1]
  obtain ready remaining where rel: "foldl (release (\<lambda>queue. queue)) (ex_ready st, ex_remaining st) (out_at (dependents_of actions) index) = (ready, remaining)"
    by force
  let ?st = "commit (dependents_of actions) index st"
  have st: "ex_ready ?st = sort ready" "ex_remaining ?st = remaining" "ex_running ?st = remove1 index (ex_running st)"
    "ex_completed ?st = ex_completed st + 1" "ex_log ?st = ex_log st @ [Committed index]"
    by (simp_all add: commit_def rel)
  show com: "committed ?st = insert index (committed st)" by (auto simp: committed_def st)
  have dist: "distinct (ex_running st @ ex_ready st)" by (rule exec_kahn.kahnD(5) [OF kahn])
  have idx: "index < length actions" "index \<notin> committed st"
    using exec_kahn.kahnD(6) [OF kahn, of index] running by simp_all
  have "mset (ex_running st @ ex_ready st) = mset (index # remove1 index (ex_running st) @ ex_ready st)" using running by simp
  then have "exec_kahn.kahn_inv actions (committed st) (index # remove1 index (ex_running st) @ ex_ready st) (ex_remaining st)"
    by (rule kahn_inv_perm [OF kahn])
  then have "exec_kahn.kahn_inv actions (committed ?st) (remove1 index (ex_running st) @ ready) remaining"
    unfolding com by (rule exec_kahn.kahn_step) (simp add: release_prefix rel)
  then have "exec_kahn.kahn_inv actions (committed ?st) (ex_running ?st @ ex_ready ?st) (ex_remaining ?st)"
    unfolding st by (rule kahn_inv_perm) simp
  moreover have "finite (committed st)" using exec_kahn.kahnD(1) [OF kahn] finite_subset by blast
  moreover have "{i. Launched i \<in> set (ex_log ?st)} = committed ?st \<union> set (ex_running ?st)"
  proof -
    have "{i. Launched i \<in> set (ex_log st)} = committed st \<union> set (ex_running st)" using inv by (simp add: exec_inv_def)
    then show ?thesis using running dist unfolding com st by auto
  qed
  moreover have "distinct (ex_log ?st)" using inv idx(2) by (simp add: exec_inv_def st committed_def)
  moreover have "length (remove1 index (ex_running st)) \<le> xc_jobs cfg" using inv by (auto simp: exec_inv_def length_remove1)
  moreover have "Launched index \<in> set (ex_log st)" using inv running unfolding exec_inv_def by blast
  ultimately show "exec_inv cfg actions ?st"
    using inv idx(2) unfolding exec_inv_def com st by (simp add: log_snoc)
qed

lemma settle_fields [simp]:
  "ex_log (settle cfg n st) = ex_log st" "ex_running (settle cfg n st) = ex_running st" "ex_ready (settle cfg n st) = ex_ready st"
  "ex_remaining (settle cfg n st) = ex_remaining st" "ex_completed (settle cfg n st) = ex_completed st" "ex_waiting (settle cfg n st) = ex_waiting st"
  by (simp_all add: settle_def)

lemma exec_inv_cong:
  "ex_log st' = ex_log st \<Longrightarrow> ex_running st' = ex_running st \<Longrightarrow> ex_ready st' = ex_ready st \<Longrightarrow> ex_remaining st' = ex_remaining st \<Longrightarrow>
   ex_completed st' = ex_completed st \<Longrightarrow> exec_inv cfg actions st' = exec_inv cfg actions st"
  by (simp add: exec_inv_def committed_def)

definition result_ok :: "exec_config \<Rightarrow> nat \<Rightarrow> exec_state \<Rightarrow> bool" where
  \<comment> \<open>why the executor returned, and what it waits for when it did not\<close>
  "result_ok cfg n st \<longleftrightarrow> (ex_waiting st \<longrightarrow> ex_running st \<noteq> []) \<and>
     (case ex_result st of
        None \<Rightarrow> ex_completed st < n \<and> (admitting cfg st \<or> ex_running st \<noteq> [])
      | Some None \<Rightarrow> ex_completed st \<ge> n
      | Some (Some e) \<Rightarrow> ex_completed st < n \<and> (case e of Stalled c t \<Rightarrow> \<not> admitting cfg st \<and> ex_running st = [] | _ \<Rightarrow> True))"

lemma settle_result: "ex_result st = None \<Longrightarrow> (ex_waiting st \<longrightarrow> ex_running st \<noteq> []) \<Longrightarrow> result_ok cfg n (settle cfg n st)"
  by (auto simp: settle_def result_ok_def admitting_def)

lemma admit_errors: "admitTmpdirJob cfg obs running = Inl e \<Longrightarrow> e \<noteq> Stalled c t"
  by (auto simp: admitTmpdirJob_def Let_def split: sum.splits if_splits)

lemma admit_refused: "admitTmpdirJob cfg obs running = Inr False \<Longrightarrow> running > 0"
  by (auto simp: admitTmpdirJob_def Let_def split: sum.splits if_splits)

lemma result_error:
  "(ex_waiting st \<longrightarrow> ex_running st \<noteq> []) \<Longrightarrow> ex_completed st < n \<Longrightarrow> (\<And>c t. e \<noteq> Stalled c t) \<Longrightarrow> result_ok cfg n (st\<lparr>ex_result := Some (Some e)\<rparr>)"
  by (cases e) (auto simp: result_ok_def)

lemma step_inv:
  assumes inv: "exec_inv cfg actions st" and res: "result_ok cfg (length actions) st"
    and step: "exec_step cfg actions (dependents_of actions) event st = Some st'"
    and exact: "\<And>u v. (u, v) \<in> waits_for actions \<Longrightarrow> v \<in> set (out_at (dependents_of actions) u)"
  shows "exec_inv cfg actions st' \<and> result_ok cfg (length actions) st'"
proof -
  have open_state: "ex_result st = None" using step by (auto simp: exec_step_def split: if_splits)
  have waiting: "ex_waiting st \<longrightarrow> ex_running st \<noteq> []" and left: "ex_completed st < length actions"
    using res open_state by (simp_all add: result_ok_def)
  show ?thesis
  proof (cases event)
    case (FreeSpace obs)
    then have adm: "admitting cfg st" using step by (auto simp: exec_step_def split: if_splits)
    then obtain index ready where ready: "ex_ready st = index # ready" by (cases "ex_ready st") (auto simp: admitting_def)
    show ?thesis
    proof (cases "admitTmpdirJob cfg obs (length (ex_running st))")
      case (Inl e)
      then have "st' = st\<lparr>ex_result := Some (Some e)\<rparr>" using step FreeSpace open_state adm by (simp add: exec_step_def)
      then show ?thesis using inv result_error [OF waiting left] admit_errors [OF Inl] exec_inv_cong [of st' st] by simp
    next
      case (Inr admitted)
      let ?st = "if admitted then launch st else st\<lparr>ex_waiting := True\<rparr>"
      have st': "st' = settle cfg (length actions) ?st" using step FreeSpace open_state adm Inr by (simp add: exec_step_def)
      have jobs: "length (ex_running st) < xc_jobs cfg" using adm by (simp add: admitting_def)
      have "exec_inv cfg actions (launch st)" by (rule launch_inv [OF inv ready jobs exact])
      then have "exec_inv cfg actions ?st" using inv exec_inv_cong [of "st\<lparr>ex_waiting := True\<rparr>" st] by simp
      moreover have "ex_running st \<noteq> []" if "\<not> admitted" using admit_refused [of cfg obs] Inr that by force
      ultimately show ?thesis
        unfolding st' using open_state adm exec_inv_cong [of "settle cfg (length actions) ?st" ?st]
        by (auto intro!: settle_result simp: launch_def ready admitting_def)
    qed
  next
    case (Outcome index failure)
    then have run: "index \<in> set (ex_running st)" using step by (auto simp: exec_step_def split: if_splits)
    show ?thesis
    proof (cases failure)
      case (Some e)
      then have "st' = st\<lparr>ex_result := Some (Some (ActionFailed (actionLabel (actions ! index)) e))\<rparr>"
        using step Outcome open_state by (auto simp: exec_step_def split: if_splits)
      then show ?thesis using inv result_error [OF waiting left] exec_inv_cong [of st' st] by simp
    next
      case None
      let ?st = "commit (dependents_of actions) index st"
      have st': "st' = settle cfg (length actions) ?st" using step Outcome open_state None by (auto simp: exec_step_def split: if_splits)
      have "ex_result ?st = None" "\<not> ex_waiting ?st" using open_state by (simp_all add: commit_def split: prod.split)
      then show ?thesis
        unfolding st' using commit_inv(1) [OF inv run] exec_inv_cong [of "settle cfg (length actions) ?st" ?st] settle_result [of ?st] by simp
    qed
  qed
qed

lemma start_inv:
  assumes "exec_start cfg actions = Inr (st, dependents)"
  shows "dependents = dependents_of actions" "exec_inv cfg actions st" "result_ok cfg (length actions) st" "ex_log st = []"
    and "(u, v) \<in> waits_for actions \<Longrightarrow> v \<in> set (out_at (dependents_of actions) u)"
proof -
  obtain remaining where eq: "actionPrerequisites actions = Inr (remaining, dependents)"
    using assms by (auto simp: exec_start_def Let_def split: sum.splits if_splits)
  let ?st = "\<lparr>ex_remaining = remaining, ex_ready = sort (initially_ready remaining), ex_running = [], ex_completed = 0,
    ex_waiting = False, ex_result = None, ex_log = []\<rparr>"
  have st: "st = settle cfg (length actions) ?st" using assms eq by (auto simp: exec_start_def Let_def split: if_splits)
  show "dependents = dependents_of actions" by (rule dependents_exact(1) [OF eq])
  show "(u, v) \<in> waits_for actions \<Longrightarrow> v \<in> set (out_at (dependents_of actions) u)" by (simp add: dependents_exact(2) [OF eq])
  show "ex_log st = []" by (simp add: st)
  have "exec_kahn.kahn_inv actions {} (sort (initially_ready remaining)) remaining"
    by (rule kahn_inv_perm [OF initial_kahn [OF eq]]) simp
  then have "exec_inv cfg actions ?st" by (simp add: exec_inv_def committed_def log_ok_def)
  then show "exec_inv cfg actions st" unfolding st by (subst exec_inv_cong [of _ ?st]) simp_all
  show "result_ok cfg (length actions) st" unfolding st by (rule settle_result) simp_all
qed

lemma executes_inv:
  assumes "executes cfg actions dependents events st"
  shows "dependents = dependents_of actions \<and> exec_inv cfg actions st \<and> result_ok cfg (length actions) st \<and>
    (\<forall>u v. (u, v) \<in> waits_for actions \<longrightarrow> v \<in> set (out_at (dependents_of actions) u))"
  using assms
proof induction
  case (start st)
  then show ?case using start_inv [OF start] by blast
next
  case (step events st event st')
  then show ?case using step_inv [of cfg actions st event st'] by auto
qed

subsection \<open>Runs end\<close>

definition exec_measure :: "nat \<Rightarrow> exec_state \<Rightarrow> int" where
  \<comment> \<open>a bound on the events that are left\<close>
  "exec_measure n st = (if ex_result st = None then 1 else 0) + (if ex_waiting st then 0 else 1) + 3 * (int n - int (ex_completed st)) -
     int (length (ex_running st))"

lemma settle_measure: "exec_measure n (settle cfg n st) \<le> exec_measure n st"
  by (simp add: settle_def exec_measure_def)

lemma error_measure: "ex_result st = None \<Longrightarrow> exec_measure n (st\<lparr>ex_result := Some e\<rparr>) < exec_measure n st"
  by (simp add: exec_measure_def)

lemma step_measure:
  assumes "exec_step cfg actions dependents event st = Some st'"
  shows "exec_measure (length actions) st' < exec_measure (length actions) st"
proof -
  have open_state: "ex_result st = None" using assms by (auto simp: exec_step_def split: if_splits)
  show ?thesis
  proof (cases event)
    case (FreeSpace obs)
    then have adm: "admitting cfg st" using assms by (auto simp: exec_step_def split: if_splits)
    then obtain index ready where ready: "ex_ready st = index # ready" by (cases "ex_ready st") (auto simp: admitting_def)
    let ?st = "\<lambda>admitted. if admitted then launch st else st\<lparr>ex_waiting := True\<rparr>"
    have "exec_measure (length actions) (?st admitted) < exec_measure (length actions) st" for admitted
      using open_state adm by (simp add: exec_measure_def launch_def ready admitting_def)
    then have "exec_measure (length actions) (settle cfg (length actions) (?st admitted)) < exec_measure (length actions) st" for admitted
      using settle_measure [of "length actions" cfg "?st admitted"] by (meson le_less_trans)
    then show ?thesis
      using assms FreeSpace open_state adm error_measure [OF open_state, of "length actions"]
      by (cases "admitTmpdirJob cfg obs (length (ex_running st))") (auto simp: exec_step_def)
  next
    case (Outcome index failure)
    then have run: "index \<in> set (ex_running st)" using assms by (auto simp: exec_step_def split: if_splits)
    then have "length (ex_running st) > 0" by auto
    then have "exec_measure (length actions) (commit dependents index st) < exec_measure (length actions) st"
      using open_state run by (auto simp: exec_measure_def commit_def length_remove1 split: prod.split)
    then have "exec_measure (length actions) (settle cfg (length actions) (commit dependents index st)) < exec_measure (length actions) st"
      using settle_measure by (meson le_less_trans)
    then show ?thesis
      using assms Outcome open_state error_measure [OF open_state, of "length actions"]
      by (cases failure) (auto simp: exec_step_def split: if_splits)
  qed
qed

lemma executes_bounded:
  assumes "executes cfg actions dependents events st"
  shows "int (length events) + exec_measure (length actions) st \<le> 3 * int (length actions) + 2"
  using assms
proof induction
  case (start st)
  have "ex_running st = []" "ex_completed st = 0"
    using start by (auto simp: exec_start_def Let_def split: sum.splits if_splits)
  then show ?case by (simp add: exec_measure_def)
next
  case (step events st event st')
  then show ?case using step_measure [OF step.hyps(2)] by simp
qed

lemma inv_measure:
  assumes "exec_inv cfg actions st"
  shows "0 \<le> exec_measure (length actions) st"
proof -
  note kahn = assms [unfolded exec_inv_def, THEN conjunct1]
  have dist: "distinct (ex_running st)" using exec_kahn.kahnD(5) [OF kahn] by simp
  have sub: "committed st \<union> set (ex_running st) \<subseteq> {..<length actions}" "committed st \<inter> set (ex_running st) = {}"
    using exec_kahn.kahnD(1) [OF kahn] exec_kahn.kahnD(6) [OF kahn] by auto
  have "card (committed st \<union> set (ex_running st)) \<le> card {..<length actions}" by (rule card_mono [OF _ sub(1)]) simp
  moreover have "card (committed st \<union> set (ex_running st)) = card (committed st) + length (ex_running st)"
    using sub finite_subset [OF sub(1)] dist by (subst card_Un_disjoint) (auto simp: distinct_card)
  moreover have "ex_completed st = card (committed st)" using assms by (simp add: exec_inv_def)
  ultimately show ?thesis by (simp add: exec_measure_def)
qed

lemma executes_length:
  assumes "executes cfg actions dependents events st"
  shows "length events \<le> 3 * length actions + 2"
proof -
  have "exec_inv cfg actions st" using executes_inv [OF assms] by simp
  then show ?thesis using executes_bounded [OF assms] inv_measure [of cfg actions st] by linarith
qed

lemma commits_all:
  assumes "exec_inv cfg actions st" "length actions \<le> ex_completed st"
  shows "committed st = {..<length actions}"
proof -
  note kahn = assms(1) [unfolded exec_inv_def, THEN conjunct1]
  have "card {..<length actions} \<le> card (committed st)" using assms by (simp add: exec_inv_def)
  then show ?thesis using exec_kahn.kahnD(1) [OF kahn] by (intro card_seteq) auto
qed

lemma returns_committed:
  assumes "exec_inv cfg actions st" "result_ok cfg (length actions) st"
  shows "ex_result st = Some None \<longleftrightarrow> {i. Committed i \<in> set (ex_log st)} = {..<length actions}"
proof
  assume "ex_result st = Some None"
  then show "{i. Committed i \<in> set (ex_log st)} = {..<length actions}"
    using commits_all [OF assms(1)] assms(2) by (simp add: result_ok_def committed_def)
next
  assume "{i. Committed i \<in> set (ex_log st)} = {..<length actions}"
  then have "ex_completed st = length actions" using assms(1) by (simp add: exec_inv_def committed_def)
  then show "ex_result st = Some None" using assms(2) by (auto simp: result_ok_def split: option.splits)
qed

lemma no_stall:
  assumes run: "executes cfg actions dependents events st" and acyclic: "acyclic (waits_for actions)" and jobs: "0 < xc_jobs cfg"
  shows "ex_result st \<noteq> Some (Some (Stalled c t))"
proof
  assume "ex_result st = Some (Some (Stalled c t))"
  then have stuck: "ex_completed st < length actions" "\<not> admitting cfg st" "ex_running st = []" "\<not> ex_waiting st"
    using executes_inv [OF run] by (auto simp: result_ok_def)
  then have empty: "ex_ready st = []" using jobs by (simp add: admitting_def)
  have inv: "exec_inv cfg actions st" using executes_inv [OF run] by simp
  note kahn = inv [unfolded exec_inv_def, THEN conjunct1]
  let ?left = "{..<length actions} - committed st"
  have "?left \<noteq> {}"
  proof
    assume "?left = {}"
    then have "committed st = {..<length actions}" using exec_kahn.kahnD(1) [OF kahn] by auto
    then show False using stuck(1) inv by (simp add: exec_inv_def)
  qed
  moreover have "\<exists>u \<in> ?left. (u, v) \<in> waits_for actions" if "v \<in> ?left" for v
  proof -
    have "exec_kahn.pending actions (committed st) v \<noteq> 0" using exec_kahn.kahnD(6) [OF kahn, of v] that stuck(3) empty by auto
    then show ?thesis unfolding exec_kahn.pending_zero using dependents_waits by blast
  qed
  ultimately have "\<not> acyclic (waits_for actions)" by (rule stuck_cycle [OF waits_finite])
  then show False using acyclic by simp
qed

lemma waits_committed:
  assumes run: "executes cfg actions dependents events st" and wait: "(i, j) \<in> (waits_for actions)\<^sup>+"
    and log: "ex_log st = xs @ Launched j # ys"
  shows "Committed i \<in> set xs"
proof -
  have ok: "log_ok actions (ex_log st)" using executes_inv [OF run] by (simp add: exec_inv_def)
  have "Committed i \<in> set xs" if "ex_log st = xs @ Launched j # ys" for xs ys
    using wait that
  proof (induction arbitrary: xs ys rule: trancl_induct)
    case (base y)
    then show ?case using ok unfolding log_ok_def by blast
  next
    case (step y z)
    then have "Committed y \<in> set xs" using ok unfolding log_ok_def by blast
    then obtain us vs where us: "xs = us @ Committed y # vs" by (meson split_list)
    then have "Launched y \<in> set us" using ok step.prems unfolding log_ok_def by (metis append.assoc append_Cons)
    then obtain ss ts where "us = ss @ Launched y # ts" by (meson split_list)
    then have "Committed i \<in> set ss" using step.IH [of ss "ts @ Committed y # vs @ Launched z # ys"] step.prems us by simp
    then show ?case using us \<open>us = ss @ Launched y # ts\<close> by simp
  qed
  then show ?thesis using log by blast
qed

lemma start_succeeds:
  assumes "validateActionGraph actions = None" "actions \<noteq> []"
  shows "\<exists>st. exec_start cfg actions = Inr (st, dependents_of actions)"
proof -
  have named: "well_named actions" and acyclic: "acyclic (waits_for actions)" using assms(1) by (simp_all add: graph_validated)
  obtain remaining dependents where eq: "actionPrerequisites actions = Inr (remaining, dependents)"
    using named action_prerequisites_total [of actions] by auto
  have "initially_ready remaining \<noteq> []"
  proof
    assume empty: "initially_ready remaining = []"
    note kahn = initial_kahn [OF eq, unfolded empty]
    have "\<exists>u \<in> {..<length actions}. (u, v) \<in> waits_for actions" if "v \<in> {..<length actions}" for v
    proof -
      have "exec_kahn.pending actions {} v \<noteq> 0" using exec_kahn.kahnD(6) [OF kahn, of v] that by auto
      then show ?thesis unfolding exec_kahn.pending_zero using dependents_waits by blast
    qed
    moreover have "{..<length actions} \<noteq> {}" using assms(2) by (simp add: lessThan_empty_iff)
    ultimately have "\<not> acyclic (waits_for actions)" by (intro stuck_cycle [OF waits_finite])
    then show False using acyclic by simp
  qed
  then show ?thesis using eq dependents_exact(1) [OF eq] by (simp add: exec_start_def Let_def)
qed

lemma error_caused:
  assumes "executes cfg actions dependents events st" "ex_result st = Some (Some e)" "\<And>c t. e \<noteq> Stalled c t"
  shows "events \<noteq> [] \<and> (case last events of
      Outcome index failure \<Rightarrow> (\<exists>message. failure = Some message \<and> e = ActionFailed (actionLabel (actions ! index)) message)
    | FreeSpace space \<Rightarrow> admitTmpdirJob cfg space (length (ex_running st)) = Inl e)"
  using assms
proof (cases rule: executes.cases)
  case start
  then show ?thesis using assms(2) assms(3) [of 0 "length actions"] by (auto simp: exec_start_def settle_def Let_def split: sum.splits if_splits)
next
  case (step events' st' event)
  have "ex_result st' = None" "e \<noteq> Stalled (ex_completed st) (length actions)" using step(3) assms(3) by (auto simp: exec_step_def split: if_splits)
  then show ?thesis using step(1,3) assms(2)
    by (cases event) (auto simp: exec_step_def settle_def launch_def commit_def split: if_splits sum.splits option.splits list.splits prod.splits)
qed

lemma open_state_steps:
  assumes run: "executes cfg actions dependents events st" and result: "ex_result st = None"
  shows "\<exists>event st'. exec_step cfg actions dependents event st = Some st'"
proof (cases "admitting cfg st")
  case True
  then have "exec_step cfg actions dependents (FreeSpace (Inl [])) st \<noteq> None" using result by (simp add: exec_step_def)
  then show ?thesis by blast
next
  case False
  then have "ex_running st \<noteq> []" using executes_inv [OF run] result by (simp add: result_ok_def)
  then have "exec_step cfg actions dependents (Outcome (hd (ex_running st)) None) st \<noteq> None" using result False by (simp add: exec_step_def)
  then show ?thesis by blast
qed

subsection \<open>Sorted plans\<close>

lemma add_prerequisites_distinct:
  "\<forall>a < length st. distinct (st ! a) \<Longrightarrow> \<forall>a < length st. distinct (foldl add_prerequisite st ps ! a)"
proof (induction ps arbitrary: st)
  case (Cons p ps)
  have "length (add_prerequisite st p) = length st" by (simp add: add_prerequisite_def split: prod.split)
  moreover have "\<forall>a < length st. distinct (add_prerequisite st p ! a)"
    using Cons.prems by (cases "fst p < length st") (auto simp: add_prerequisite_def nth_list_update split: prod.split)
  ultimately show ?case using Cons.IH [of "add_prerequisite st p"] by simp
qed simp

lemma attached_distinct: "a \<in> set (attachPlanPrerequisites r actions) \<Longrightarrow> distinct (pa_prerequisites a)"
proof -
  assume "a \<in> set (attachPlanPrerequisites r actions)"
  then obtain j where j: "j < length actions" "a = attachPlanPrerequisites r actions ! j" by (auto simp: in_set_conv_nth attach_facts(1))
  let ?ps = "prerequisite_pairs r (map without_prerequisites actions)"
  have "length (foldl add_prerequisite (replicate (length actions) []) ?ps) = length actions" using add_prerequisites_set by simp
  moreover have "distinct (foldl add_prerequisite (replicate (length actions) []) ?ps ! j)"
    using add_prerequisites_distinct [of "replicate (length actions) []" ?ps] j(1) by simp
  ultimately show ?thesis using j by (simp add: attach_unfold)
qed

lemma sorted_identities: "mset (map ActionIdentity (sortPlannedActions r actions)) = mset (map ActionIdentity actions)"
proof -
  have "map ActionIdentity xs = map ActionIdentity (map without_prerequisites xs)" for xs by (simp add: prerequisites_irrelevant)
  then show ?thesis using sorted_plan_cleared [of r actions] by (metis mset_map)
qed

lemma sorted_plan_executable:
  assumes "distinct (map ActionIdentity actions)" "2 \<le> length actions"
  shows "well_named (sortPlannedActions r actions)" "waits_for (sortPlannedActions r actions) \<subseteq> {(i, j). i < j}"
proof -
  let ?plan = "sortPlannedActions r actions"
  have more: "\<not> length actions \<le> 1" using assms(2) by simp
  have dist: "distinct (map ActionIdentity ?plan)" using sorted_identities assms(1) mset_eq_imp_distinct_iff by metis
  obtain unattached where un: "?plan = attachPlanPrerequisites r unattached" using sort_unfold [OF more, of r] by blast
  have names: "identity \<in> ActionIdentity ` set ?plan" if "a \<in> set ?plan" "identity \<in> set (pa_prerequisites a)" for a identity
  proof -
    have "\<exists>j < length ?plan. ?plan ! j = a" using that(1) by (simp only: in_set_conv_nth)
    then obtain j where j: "j < length actions" "a = ?plan ! j" unfolding sorted_plan_length by blast
    then have "identity \<in> {ActionIdentity (?plan ! i) | i. (i, j) \<in> prerequisite_arcs r ?plan}"
      using that(2) sorted_plan_waits(1) [OF more j(1), of r] by simp
    then obtain i where "(i, j) \<in> prerequisite_arcs r ?plan" "identity = ActionIdentity (?plan ! i)" by blast
    then show ?thesis using prerequisite_arcs_range(1) by (auto intro: imageI nth_mem)
  qed
  then show "well_named ?plan" using dist attached_distinct [of _ r unattached] unfolding well_named_def un by auto
  show "waits_for ?plan \<subseteq> {(i, j). i < j}"
  proof
    fix arc assume "arc \<in> waits_for ?plan"
    then obtain i j where ij: "arc = (i, j)" "i < length actions" "j < length actions" "ActionIdentity (?plan ! i) \<in> set (pa_prerequisites (?plan ! j))"
      by (auto simp: waits_for_def sorted_plan_length)
    then obtain k where k: "(k, j) \<in> prerequisite_arcs r ?plan" "ActionIdentity (?plan ! i) = ActionIdentity (?plan ! k)"
      using sorted_plan_waits(1) [OF more ij(3), of r] by auto
    have "k < length actions" using prerequisite_arcs_range(1) [OF k(1)] by (simp add: sorted_plan_length)
    then have "i = k" using k(2) dist ij(2) by (simp add: distinct_conv_nth sorted_plan_length) metis
    then show "arc \<in> {(i, j). i < j}" using sorted_plan_waits(2) [OF more ij(3)] k(1) ij(1) by blast
  qed
qed

lemma sorted_plan_acyclic:
  assumes "distinct (map ActionIdentity actions)" "2 \<le> length actions"
  shows "acyclic (waits_for (sortPlannedActions r actions))"
proof -
  have "waits_for (sortPlannedActions r actions) \<subseteq> measure (\<lambda>i. i)" using sorted_plan_executable(2) [OF assms, of r] by auto
  then show ?thesis using wf_acyclic wf_measure wf_subset by metis
qed

subsection \<open>Properties\<close>

definition example_config :: exec_config where
  "example_config = \<lparr>xc_jobs = 2, xc_tmpdir_require_free_gb = 1, xc_work_dir_base = []\<rparr>"

definition example_installs :: "pkg_action list" where
  "example_installs = [example_action ''a/lib'', (example_action ''a/app'')\<lparr>pa_prerequisites := [''ROOT|=a/lib-1|0||'']\<rparr>]"

fun run_events :: "exec_config \<Rightarrow> pkg_action list \<Rightarrow> int_map \<Rightarrow> exec_event list \<Rightarrow> exec_state \<Rightarrow> exec_state option" where
  "run_events cfg actions dependents [] st = Some st"
| "run_events cfg actions dependents (event # events) st =
     (case exec_step cfg actions dependents event st of None \<Rightarrow> None | Some st' \<Rightarrow> run_events cfg actions dependents events st')"

lemma run_executes:
  "executes cfg actions dependents before st \<Longrightarrow> run_events cfg actions dependents events st = Some st' \<Longrightarrow>
   executes cfg actions dependents (before @ events) st'"
proof (induction events arbitrary: before st)
  case (Cons event events)
  obtain st1 where st1: "exec_step cfg actions dependents event st = Some st1" "run_events cfg actions dependents events st1 = Some st'"
    using Cons.prems(2) by (auto split: option.splits)
  show ?case using Cons.IH [OF executes.step [OF Cons.prems(1) st1(1)] st1(2)] by simp
qed simp

definition example_events :: "exec_event list" where
  "example_events = [FreeSpace (Inr 2000000000), Outcome 0 None, FreeSpace (Inr 2000000000), Outcome 1 None]"

definition example_state :: "nat \<Rightarrow> exec_state option" where
  \<comment> \<open>the state after the first events\<close>
  "example_state n =
     (case exec_start example_config example_installs of
        Inl e \<Rightarrow> None | Inr (st, dependents) \<Rightarrow> run_events example_config example_installs dependents (take n example_events) st)"

lemma example_executes:
  assumes "example_state n = Some st"
  shows "executes example_config example_installs (dependents_of example_installs) (take n example_events) st"
proof -
  obtain st0 dependents where start: "exec_start example_config example_installs = Inr (st0, dependents)"
    "run_events example_config example_installs dependents (take n example_events) st0 = Some st"
    using assms unfolding example_state_def by (auto split: sum.splits prod.splits)
  have "executes example_config example_installs dependents ([] @ take n example_events) st"
    by (rule run_executes [OF executes.start [OF start(1)] start(2)])
  moreover have "dependents = dependents_of example_installs" by (rule start_inv(1) [OF start(1)])
  ultimately show ?thesis by simp
qed

lemma example_run: "map_option (\<lambda>st. (ex_log st, ex_result st)) (example_state 3) = Some ([Launched 0, Committed 0, Launched 1], None)"
  by code_simp

lemma example_end: "map_option ex_log (example_state 4) = Some [Launched 0, Committed 0, Launched 1, Committed 1]"
  by code_simp

lemma example_execution:
  obtains events st where "executes example_config example_installs (dependents_of example_installs) events st"
    "ex_log st = [Launched 0, Committed 0] @ Launched 1 # []" "ex_result st = None"
proof -
  obtain st where st: "example_state 3 = Some st" "ex_log st = [Launched 0, Committed 0, Launched 1]" "ex_result st = None"
    using example_run by auto
  then show thesis using that [OF example_executes [OF st(1)]] by simp
qed

lemma example_complete_run:
  obtains events st where "executes example_config example_installs (dependents_of example_installs) events st"
    "length events = 4" "ex_log st = [Launched 0, Committed 0, Launched 1, Committed 1]"
proof -
  obtain st where st: "example_state 4 = Some st" "ex_log st = [Launched 0, Committed 0, Launched 1, Committed 1]"
    using example_end by auto
  then show thesis using that [OF example_executes [OF st(1)]] by (simp add: example_events_def)
qed

lemma example_waits: "(0, 1) \<in> waits_for example_installs"
proof -
  have "ActionIdentity (example_action ''a/lib'') = ''ROOT|=a/lib-1|0||''" using example_plan_value by simp
  then show ?thesis by (simp add: waits_for_def example_installs_def)
qed

text \<open>
  Claim C27: the validation of the executor's graph is exact: it accepts a plan precisely when the identities of its actions are
  different, the prerequisites of each action are different identities of the plan, and no action waits for itself through a
  chain of prerequisites.
\<close>

theorem action_graph_exact:
  "validateActionGraph actions = None \<longleftrightarrow>
     distinct (map ActionIdentity actions) \<and>
     (\<forall>a \<in> set actions. distinct (pa_prerequisites a) \<and> set (pa_prerequisites a) \<subseteq> ActionIdentity ` set actions) \<and>
     acyclic (waits_for actions)"
  by (simp add: graph_validated well_named_def)

theorem action_graph_exact_witness:
  "validateActionGraph [example_action ''a/lib''\<lparr>pa_prerequisites := [''x'']\<rparr>] \<noteq> None"
proof -
  have "''x'' \<noteq> ActionIdentity a" for a
    by (cases "pa_domain a") (auto simp: ActionIdentity_def normalizedActionDomain_def DomainROOT_def)
  then show ?thesis using action_graph_exact [of "[example_action ''a/lib''\<lparr>pa_prerequisites := [''x'']\<rparr>]"] by auto
qed

text \<open>
  Claim C3: whatever order the workers finish in and however admission is delayed, an action is launched only after every action it waits
  for, directly or through others, has committed; no action is launched or committed twice, and never more workers run than there
  are jobs.
\<close>

theorem scheduler_respects_prerequisites:
  assumes "executes cfg actions dependents events st"
  shows "distinct (ex_log st) \<and> length (ex_running st) \<le> xc_jobs cfg \<and>
    (\<forall>xs j ys i. ex_log st = xs @ Launched j # ys \<longrightarrow> (i, j) \<in> (waits_for actions)\<^sup>+ \<longrightarrow> Committed i \<in> set xs)"
  using waits_committed [OF assms] executes_inv [OF assms] by (auto simp: exec_inv_def)

theorem scheduler_respects_prerequisites_witness:
  "\<exists>events st. executes example_config example_installs (dependents_of example_installs) events st \<and>
     ex_log st = [Launched 0, Committed 0] @ Launched 1 # [] \<and> Committed 0 \<in> set [Launched 0, Committed 0]"
proof -
  obtain events st where run: "executes example_config example_installs (dependents_of example_installs) events st"
    "ex_log st = [Launched 0, Committed 0] @ Launched 1 # []" using example_execution by blast
  moreover have "(0, 1) \<in> (waits_for example_installs)\<^sup>+" using example_waits by auto
  ultimately have "Committed 0 \<in> set [Launched 0, Committed 0]" using scheduler_respects_prerequisites [OF run(1)] by blast
  then show ?thesis using run by blast
qed

text \<open>
  Claim C8: a validated plan with actions starts, and with at least one job no run of the scheduler stalls and every run ends: it waits for at most
  three events per action and two more, and in every state in which it has not returned some event moves it on. It has returned without an
  error precisely when every action has committed, and an error is that of its last event: a worker that failed, or a refused admission.
\<close>

theorem scheduler_terminates:
  assumes "validateActionGraph actions = None" "actions \<noteq> []" "0 < xc_jobs cfg"
  shows "(\<exists>st. executes cfg actions (dependents_of actions) [] st) \<and>
    (\<forall>dependents events st. executes cfg actions dependents events st \<longrightarrow>
       length events \<le> 3 * length actions + 2 \<and> (\<nexists>c t. ex_result st = Some (Some (Stalled c t))) \<and>
       (ex_result st = None \<longrightarrow> (\<exists>event st'. exec_step cfg actions dependents event st = Some st')) \<and>
       (ex_result st = Some None \<longleftrightarrow> {i. Committed i \<in> set (ex_log st)} = {..<length actions}) \<and>
       (\<forall>e. ex_result st = Some (Some e) \<longrightarrow> events \<noteq> [] \<and> (case last events of
           Outcome index failure \<Rightarrow> (\<exists>message. failure = Some message \<and> e = ActionFailed (actionLabel (actions ! index)) message)
         | FreeSpace space \<Rightarrow> admitTmpdirJob cfg space (length (ex_running st)) = Inl e)))"
proof (intro conjI allI impI)
  show "\<exists>st. executes cfg actions (dependents_of actions) [] st" using start_succeeds [OF assms(1,2), of cfg] executes.start by blast
  fix dependents events st assume run: "executes cfg actions dependents events st"
  have inv: "exec_inv cfg actions st" "result_ok cfg (length actions) st" using executes_inv [OF run] by simp_all
  show "length events \<le> 3 * length actions + 2" by (rule executes_length [OF run])
  have stall: "ex_result st \<noteq> Some (Some (Stalled c t))" for c t using no_stall [OF run _ assms(3)] assms(1) by (simp add: graph_validated)
  then show "\<nexists>c t. ex_result st = Some (Some (Stalled c t))" by blast
  show "\<exists>event st'. exec_step cfg actions dependents event st = Some st'" if "ex_result st = None" by (rule open_state_steps [OF run that])
  show "ex_result st = Some None \<longleftrightarrow> {i. Committed i \<in> set (ex_log st)} = {..<length actions}" by (rule returns_committed [OF inv])
  fix e assume e: "ex_result st = Some (Some e)"
  show "events \<noteq> []" "case last events of
      Outcome index failure \<Rightarrow> (\<exists>message. failure = Some message \<and> e = ActionFailed (actionLabel (actions ! index)) message)
    | FreeSpace space \<Rightarrow> admitTmpdirJob cfg space (length (ex_running st)) = Inl e"
    using error_caused [OF run e] stall e by auto
qed

theorem scheduler_terminates_witness:
  "\<exists>events st. executes example_config example_installs (dependents_of example_installs) events st \<and> length events = 4 \<and>
     {i. Committed i \<in> set (ex_log st)} = {0, 1} \<and> ex_result st = Some None"
proof -
  have valid: "validateActionGraph example_installs = None" by code_simp
  have size: "length example_installs = 2" by (simp add: example_installs_def)
  obtain events st where run: "executes example_config example_installs (dependents_of example_installs) events st"
    "length events = 4" "ex_log st = [Launched 0, Committed 0, Launched 1, Committed 1]"
    by (rule example_complete_run)
  have two: "{..<2} = {0, 1 :: nat}" by auto
  have all: "{i. Committed i \<in> set (ex_log st)} = {..<2}" unfolding run(3) two by auto
  have jobs: "example_installs \<noteq> []" "0 < xc_jobs example_config" by (simp_all add: example_config_def example_installs_def)
  have "ex_result st = Some None \<longleftrightarrow> {i. Committed i \<in> set (ex_log st)} = {..<length example_installs}"
    using scheduler_terminates [OF valid jobs, THEN conjunct2, THEN spec, THEN spec, THEN spec, THEN mp, OF run(1)] by (elim conjE)
  then have "ex_result st = Some None" using all size by simp
  then show ?thesis using run(1,2) all two by metis
qed

text \<open>
  Claim C10: a plan of the resolver with at least two actions and different identities, once sorted, is accepted by the executor, and every execution follows
  the dependencies: an action is launched only after each earlier action that must precede it has committed.
\<close>

theorem sorted_plan_executes:
  assumes "distinct (map ActionIdentity actions)" "2 \<le> length actions"
  shows "validateActionGraph (sortPlannedActions r actions) = None \<and>
    (\<forall>cfg dependents events st xs j ys i. executes cfg (sortPlannedActions r actions) dependents events st \<longrightarrow>
       ex_log st = xs @ Launched j # ys \<longrightarrow> i < j \<longrightarrow> (i, j) \<in> plan_arcs r (sortPlannedActions r actions) \<longrightarrow> Committed i \<in> set xs)"
proof (intro conjI allI impI)
  show "validateActionGraph (sortPlannedActions r actions) = None"
    using sorted_plan_executable(1) [OF assms] sorted_plan_acyclic [OF assms] by (simp add: graph_validated)
  fix cfg dependents events st xs j ys i
  assume run: "executes cfg (sortPlannedActions r actions) dependents events st" "ex_log st = xs @ Launched j # ys"
    and arc: "i < j" "(i, j) \<in> plan_arcs r (sortPlannedActions r actions)"
  have "(i, j) \<in> (waits_for (sortPlannedActions r actions))\<^sup>+" using sorted_plan_covers [OF _ arc] assms(2) by simp
  then show "Committed i \<in> set xs" by (rule waits_committed [OF run(1) _ run(2)])
qed

theorem sorted_plan_executes_witness:
  "\<exists>events st. executes example_config example_plan (dependents_of example_plan) events st \<and>
     ex_log st = [Launched 0, Committed 0] @ Launched 1 # [] \<and> Committed 0 \<in> set [Launched 0, Committed 0]"
proof -
  let ?actions = "[example_action ''a/app'', example_action ''a/lib'']"
  have plan: "sortPlannedActions example_resolver ?actions = example_plan" "example_plan = example_installs"
    using example_plan_value unfolding example_installs_def by (simp_all add: example_plan_def [symmetric])
  have names: "distinct (map ActionIdentity ?actions)" "2 \<le> length ?actions" using example_plan_value by simp_all
  obtain events st where run: "executes example_config example_plan (dependents_of example_plan) events st"
    "ex_log st = [Launched 0, Committed 0] @ Launched 1 # []" using example_execution plan(2) by metis
  have "(0, 1) \<in> plan_arcs example_resolver example_plan" by (rule example_plan_arc)
  then have "Committed 0 \<in> set [Launched 0, Committed 0]"
    using sorted_plan_executes [OF names, of example_resolver, unfolded plan(1)] run by (metis zero_less_one)
  then show ?thesis using run by blast
qed

lemma reserve_value:
  "0 < d \<Longrightarrow> d + k \<le> 2 ^ 64 \<Longrightarrow> unat required + k * unat base < 2 ^ 64 \<Longrightarrow>
   unat (reserve_from base d k required) = unat required + (\<Sum>i < k. unat base div (d + i))"
proof (induction base d k required rule: reserve_from.induct)
  case (2 base d k required)
  have part: "unat (base div of_nat d) = unat base div d" using "2.prems" by (simp add: unat_div_distrib unat_of_nat)
  have le: "unat base div d \<le> unat base" by simp
  have "unat required + unat base div d < 2 ^ 64" using "2.prems"(3) add_mono [OF le_refl le, of "unat required"] by (simp del: div_le_dividend)
  then have "unat (required + base div of_nat d) = unat required + unat base div d"
    using part unat_add_lem [of required "base div of_nat d"] by simp
  moreover have "(\<Sum>i < Suc k. unat base div (d + i)) = unat base div d + (\<Sum>i < k. unat base div (d + 1 + i))"
    by (simp add: sum.lessThan_Suc_shift del: sum.lessThan_Suc)
  ultimately show ?case using "2.IH" "2.prems" le by (simp del: div_le_dividend)
qed simp

lemma base_value:
  assumes "0 < gib" "nat gib * 2 ^ 30 < 2 ^ 64"
  shows "unat (push_bit 30 (word_of_int gib) :: 64 word) = nat gib * 2 ^ 30"
proof -
  have "(word_of_int gib :: 64 word) = of_nat (nat gib)" using assms by simp
  then have "push_bit 30 (word_of_int gib :: 64 word) = of_nat (nat gib * 2 ^ 30)" by (simp add: push_bit_eq_mult)
  moreover have "unat (of_nat (nat gib * 2 ^ 30) :: 64 word) = nat gib * 2 ^ 30" unfolding unat_of_nat using assms(2) by simp
  ultimately show ?thesis by simp
qed

lemma admit_exact:
  "admitTmpdirJob cfg (Inr available) running = Inr True \<longleftrightarrow> available \<noteq> 0 \<and>
     (let required = tmpdirRequiredBytes (xc_tmpdir_require_free_gb cfg) running
      in if running = 0 then min required minimumSerialTmpdirBytes \<le> available else required \<le> available)"
proof -
  let ?required = "tmpdirRequiredBytes (xc_tmpdir_require_free_gb cfg) running"
  show ?thesis
    by (cases "running = 0"; cases "?required = 0") (auto simp: admitTmpdirJob_def Let_def not_less word_greater_zero_iff min_le_iff_disj)
qed

text \<open>
  As long as the sum fits into 64 bits, the reserve of temporary space asked for with a number of running jobs is the
  configured size, divided by one, two and so on up to the next job, summed up; a job is admitted precisely when
  some space is free and it covers the reserve, or, for the first job, the smaller of the reserve and one gigabyte.
\<close>

theorem tmpdir_reserve_exact:
  assumes "0 < gib" "nat gib * 2 ^ 30 * (running + 1) < 2 ^ 64"
  shows "unat (tmpdirRequiredBytes gib running) = (\<Sum>d \<in> {1..running + 1}. nat gib * 2 ^ 30 div d) \<and>
    (admitTmpdirJob \<lparr>xc_jobs = jobs, xc_tmpdir_require_free_gb = gib, xc_work_dir_base = path\<rparr> (Inr available) running = Inr True \<longleftrightarrow>
       available \<noteq> 0 \<and> unat available \<ge> (if running = 0 then min (nat gib * 2 ^ 30) (2 ^ 30) else \<Sum>d \<in> {1..running + 1}. nat gib * 2 ^ 30 div d))"
proof
  let ?base = "push_bit 30 (word_of_int gib) :: 64 word"
  have "nat gib * 2 ^ 30 * 1 \<le> nat gib * 2 ^ 30 * (running + 1)" by (rule mult_le_mono2) simp
  then have base: "unat ?base = nat gib * 2 ^ 30" using assms by (intro base_value) simp_all
  have "1 * (running + 1) \<le> nat gib * 2 ^ 30 * (running + 1)" using assms(1) by (intro mult_le_mono1) simp
  then have small: "running + 1 < 2 ^ 64" using assms(2) by simp
  have "unat (reserve_from ?base 2 running ?base) = unat ?base + (\<Sum>i < running. unat ?base div (2 + i))"
    using assms(2) small base by (intro reserve_value) (simp_all add: algebra_simps)
  also have "\<dots> = (\<Sum>d \<in> {1..running + 1}. nat gib * 2 ^ 30 div d)"
  proof -
    have "(\<Sum>d \<in> {1..running + 1}. f d) = f 1 + (\<Sum>i < running. f (2 + i))" for f :: "nat \<Rightarrow> nat"
      by (induction running) (simp_all add: algebra_simps)
    then show ?thesis by (simp add: base)
  qed
  finally show reserve: "unat (tmpdirRequiredBytes gib running) = (\<Sum>d \<in> {1..running + 1}. nat gib * 2 ^ 30 div d)"
    using assms(1) by (simp add: tmpdirRequiredBytes_def Let_def)
  let ?required = "tmpdirRequiredBytes gib running"
  have first: "unat (tmpdirRequiredBytes gib 0) = nat gib * 2 ^ 30" using assms(1) base by (simp add: tmpdirRequiredBytes_def)
  have floor: "unat minimumSerialTmpdirBytes = 2 ^ 30" by (simp add: minimumSerialTmpdirBytes_def)
  have least: "unat (min a b) = min (unat a) (unat b)" for a b :: "64 word" by (simp add: min_def word_le_nat_alt)
  have "admitTmpdirJob \<lparr>xc_jobs = jobs, xc_tmpdir_require_free_gb = gib, xc_work_dir_base = path\<rparr> (Inr available) running = Inr True \<longleftrightarrow>
      available \<noteq> 0 \<and> (if running = 0 then unat (min ?required minimumSerialTmpdirBytes) \<le> unat available else unat ?required \<le> unat available)"
    unfolding admit_exact word_le_nat_alt by simp
  also have "\<dots> \<longleftrightarrow> available \<noteq> 0 \<and> unat available \<ge> (if running = 0 then min (nat gib * 2 ^ 30) (2 ^ 30) else \<Sum>d \<in> {1..running + 1}. nat gib * 2 ^ 30 div d)"
    unfolding least floor using first reserve by auto
  finally show "admitTmpdirJob \<lparr>xc_jobs = jobs, xc_tmpdir_require_free_gb = gib, xc_work_dir_base = path\<rparr> (Inr available) running = Inr True \<longleftrightarrow>
      available \<noteq> 0 \<and> unat available \<ge> (if running = 0 then min (nat gib * 2 ^ 30) (2 ^ 30) else \<Sum>d \<in> {1..running + 1}. nat gib * 2 ^ 30 div d)" .
qed

theorem tmpdir_reserve_exact_witness: "unat (tmpdirRequiredBytes 18 1) = 28991029248"
proof -
  have "{1..1 + 1} = {1, 2 :: nat}" by auto
  then show ?thesis using tmpdir_reserve_exact [of 18 1] by simp
qed

lemma plan_removals_exact:
  "plan_removals build_only preflight install seen removals = None \<longleftrightarrow> removals = [] \<or>
     \<not> build_only \<and> distinct (map ActionIdentity removals) \<and>
     (\<forall>a \<in> set removals. ActionIdentity a \<notin> set seen \<and> preflight a = None \<and> pa_removal_before a \<noteq> [] \<and>
       (\<forall>requester \<in> set (pa_removal_before a). requested_by install requester))"
proof (induction removals arbitrary: seen)
  case (Cons a removals)
  have "plan_removals build_only preflight install seen (a # removals) = None \<longleftrightarrow>
      \<not> build_only \<and> ActionIdentity a \<notin> set seen \<and> preflight a = None \<and> pa_removal_before a \<noteq> [] \<and>
      (\<forall>requester \<in> set (pa_removal_before a). requested_by install requester) \<and>
      plan_removals build_only preflight install (ActionIdentity a # seen) removals = None"
    by (auto split: option.split simp: find_None_iff find_Some_iff)
  moreover have "(\<forall>b \<in> set removals. ActionIdentity b \<notin> set (ActionIdentity a # seen) \<and> P b) \<longleftrightarrow>
      ActionIdentity a \<notin> ActionIdentity ` set removals \<and> (\<forall>b \<in> set removals. ActionIdentity b \<notin> set seen \<and> P b)" for P
    by (auto simp: image_iff)
  ultimately show ?case unfolding Cons.IH [of "ActionIdentity a # seen"] by (cases "removals = []") (simp_all del: plan_removals.simps, blast)
qed simp

text \<open>
  The planning of blocker removals accepts a list of removals precisely when it is empty, or the run is not build-only, the
  identities are different, every removal passes its preflight, and every removal names a requester and only requesters
  that are installed into the root by the same plan.
\<close>

theorem blocker_removals_exact:
  "planBlockerRemovals build_only preflight install uninstall = None \<longleftrightarrow> uninstall = [] \<or>
     \<not> build_only \<and> distinct (map ActionIdentity uninstall) \<and>
     (\<forall>a \<in> set uninstall. preflight a = None \<and> pa_removal_before a \<noteq> [] \<and>
       (\<forall>requester \<in> set (pa_removal_before a). requested_by install requester))"
  unfolding planBlockerRemovals_def plan_removals_exact by auto

theorem blocker_removals_exact_witness:
  "planBlockerRemovals False (\<lambda>a. None) [example_action ''a/app''] [(example_action ''a/old'')\<lparr>pa_removal_before := [''a/app'']\<rparr>] = None"
proof -
  have "requested_by [example_action ''a/app''] ''a/app''" by code_simp
  then show ?thesis
    using blocker_removals_exact [of False "\<lambda>a. None" "[example_action ''a/app'']" "[(example_action ''a/old'')\<lparr>pa_removal_before := [''a/app'']\<rparr>]"]
    by simp
qed

end
