(* ===== verification/Merge_Forecast.thy ===== *)
theory Merge_Forecast
  imports Executor
begin

text \<open>
  The forecast of the duration of a plan, \<^verbatim>\<open>src/internal/mergehistory/forecast.go\<close>: tasks with prerequisites and expected durations are
  checked, their critical path is computed along a topological order, and a pool of workers is simulated. Durations are 64-bit
  integers whose sums saturate. The map \<^verbatim>\<open>completed\<close> is the list of the identities it maps to true.

  The loops carry fuel: the topological loop the number of tasks, the simulation one more than the number of tasks to finish. The
  theorems show that it suffices and that the error for a simulation without a ready task never occurs.
\<close>

subsection \<open>Tasks\<close>

record task =
  tk_id :: string
  tk_prerequisites :: "string list"
  tk_expected :: int
  tk_known :: bool

record forecast =
  fc_work :: int
  fc_critical_path :: int
  fc_elapsed :: int
  fc_known :: nat
  fc_total :: nat
  fc_overdue :: nat

datatype forecast_error =
    EmptyTask
  | DuplicateTask string
  | NegativeDuration string
  | NegativeElapsed
  | InvalidPrerequisite string
  | CyclicTasks
  | NoReadyTask

definition MaxDuration :: int where "MaxDuration = 9223372036854775807"

definition addDuration :: "int \<Rightarrow> int \<Rightarrow> int" where
  "addDuration left right = (if right > MaxDuration - left then MaxDuration else left + right)"

primrec task_indexes :: "nat \<Rightarrow> nat gomap \<Rightarrow> task list \<Rightarrow> (forecast_error, nat gomap) result" where
  \<comment> \<open>the first loop\<close>
  "task_indexes index indexes [] = Inr indexes"
| "task_indexes index indexes (task # tasks) =
     (if tk_id task = [] then Inl EmptyTask
      else if map_of indexes (tk_id task) \<noteq> None then Inl (DuplicateTask (tk_id task))
      else if tk_expected task < 0 then Inl (NegativeDuration (tk_id task))
      else task_indexes (index + 1) (map_put (tk_id task) index indexes) tasks)"

definition remaining_duration :: "int gomap \<Rightarrow> task \<Rightarrow> (forecast_error, int \<times> nat) result" where
  \<comment> \<open>what is left of a task that is not completed, and 1 if it is overdue\<close>
  "remaining_duration active task =
     (if \<not> tk_known task then Inr (0, 0)
      else case map_of active (tk_id task) of
          None \<Rightarrow> Inr (tk_expected task, 0)
        | Some elapsed \<Rightarrow>
            if elapsed < 0 then Inl NegativeElapsed
            else if elapsed \<ge> tk_expected task then Inr (0, 1)
            else Inr (tk_expected task - elapsed, 0))"

primrec task_prerequisites ::
  "nat gomap \<Rightarrow> nat \<Rightarrow> string list \<Rightarrow> string list \<Rightarrow> prerequisite_graph \<Rightarrow> (forecast_error, prerequisite_graph) result" where
  \<comment> \<open>the loop over the prerequisites of one task, after the ones seen\<close>
  "task_prerequisites indexes index seen [] st = Inr st"
| "task_prerequisites indexes index seen (p # ps) st =
     (case map_of indexes p of
        None \<Rightarrow> Inl (InvalidPrerequisite p)
      | Some before \<Rightarrow>
          if p \<in> set seen then Inl (InvalidPrerequisite p)
          else task_prerequisites indexes index (p # seen) ps
            ((fst st)[index := fst st ! index + 1], out_put before (out_at (snd st) before @ [index]) (snd st)))"

record load_state =
  lo_graph :: prerequisite_graph
  lo_durations :: "int list"
  lo_result :: forecast

definition load_duration :: "int gomap \<Rightarrow> string list \<Rightarrow> task \<Rightarrow> load_state \<Rightarrow> (forecast_error, load_state) result" where
  \<comment> \<open>the first half of an iteration of the second loop; the durations so far are appended to\<close>
  "load_duration active completed task st =
     (if tk_id task \<in> set completed then Inr (st\<lparr>lo_durations := lo_durations st @ [0]\<rparr>)
      else case remaining_duration active task of
          Inl e \<Rightarrow> Inl e
        | Inr (duration, overdue) \<Rightarrow>
            let f = lo_result st in
            Inr (st\<lparr>lo_durations := lo_durations st @ [duration],
              lo_result := f\<lparr>fc_total := fc_total f + 1, fc_known := fc_known f + (if tk_known task then 1 else 0),
                fc_overdue := fc_overdue f + overdue, fc_work := addDuration (fc_work f) duration\<rparr>\<rparr>))"

primrec load_tasks ::
  "nat gomap \<Rightarrow> int gomap \<Rightarrow> string list \<Rightarrow> nat \<Rightarrow> task list \<Rightarrow> load_state \<Rightarrow> (forecast_error, load_state) result" where
  \<comment> \<open>the second loop\<close>
  "load_tasks indexes active completed index [] st = Inr st"
| "load_tasks indexes active completed index (task # tasks) st =
     (case load_duration active completed task st of
        Inl e \<Rightarrow> Inl e
      | Inr st1 \<Rightarrow> (case task_prerequisites indexes index [] (tk_prerequisites task) (lo_graph st1) of
            Inl e \<Rightarrow> Inl e
          | Inr graph \<Rightarrow> load_tasks indexes active completed (index + 1) tasks (st1\<lparr>lo_graph := graph\<rparr>)))"

subsection \<open>The critical path\<close>

definition release_critical :: "nat \<Rightarrow> (nat list \<times> int list) \<times> int list \<Rightarrow> nat \<Rightarrow> (nat list \<times> int list) \<times> int list" where
  \<comment> \<open>one iteration over the dependents of a task: ready tasks, remaining prerequisites and critical times\<close>
  "release_critical i st after =
     (case st of (queue, critical) \<Rightarrow>
        (release (\<lambda>q. q) queue after, critical[after := max (critical ! after) (critical ! i)]))"

primrec critical_loop :: "nat \<Rightarrow> int_map \<Rightarrow> int list \<Rightarrow> (nat list \<times> int list) \<times> int list \<Rightarrow> int \<Rightarrow> (nat list \<times> int) option" where
  \<comment> \<open>the topological loop: the order and the critical path; \<open>None\<close> only without fuel\<close>
  "critical_loop 0 dependents durations st path = (if fst (fst st) = [] then Some ([], path) else None)"
| "critical_loop (Suc fuel) dependents durations st path =
     (case st of (([], remaining), critical) \<Rightarrow> Some ([], path)
      | ((i # ready, remaining), critical) \<Rightarrow>
          let critical' = critical[i := addDuration (critical ! i) (durations ! i)]
          in map_option (\<lambda>(order, result). (i # order, result))
               (critical_loop fuel dependents durations (foldl (release_critical i) ((ready, remaining), critical') (out_at dependents i))
                 (max path (critical' ! i))))"

subsection \<open>The simulation\<close>

record sim_state =
  sm_running :: "(nat \<times> int) list"
  sm_done :: "string list"
  sm_started :: "string list"
  sm_clock :: int
  sm_finished :: nat

primrec start_tasks :: "nat \<Rightarrow> int list \<Rightarrow> nat \<Rightarrow> task list \<Rightarrow> sim_state \<Rightarrow> sim_state" where
  \<comment> \<open>the loop that fills the free workers\<close>
  "start_tasks jobs durations index [] st = st"
| "start_tasks jobs durations index (task # tasks) st =
     (if length (sm_running st) \<ge> jobs then st
      else if tk_id task \<notin> set (sm_done st) \<and> tk_id task \<notin> set (sm_started st) \<and>
              list_all (\<lambda>p. p \<in> set (sm_done st)) (tk_prerequisites task)
      then start_tasks jobs durations (index + 1) tasks
        (st\<lparr>sm_running := sm_running st @ [(index, addDuration (sm_clock st) (durations ! index))],
            sm_started := tk_id task # sm_started st\<rparr>)
      else start_tasks jobs durations (index + 1) tasks st)"

definition finish_tasks :: "task list \<Rightarrow> sim_state \<Rightarrow> sim_state" where
  \<comment> \<open>the clock moves to the next end, and the tasks that end there are done\<close>
  "finish_tasks tasks st =
     (let running = sort_key snd (sm_running st); clock = snd (hd running);
          ended = takeWhile (\<lambda>r. snd r = clock) running
      in st\<lparr>sm_running := dropWhile (\<lambda>r. snd r = clock) running, sm_clock := clock,
            sm_done := map (\<lambda>r. tk_id (tasks ! fst r)) ended @ sm_done st, sm_finished := sm_finished st + length ended\<rparr>)"

primrec simulate :: "nat \<Rightarrow> nat \<Rightarrow> nat \<Rightarrow> int list \<Rightarrow> task list \<Rightarrow> sim_state \<Rightarrow> (forecast_error, int) result option" where
  "simulate 0 total_tasks jobs durations tasks st = None"
| "simulate (Suc fuel) total_tasks jobs durations tasks st =
     (if sm_finished st \<ge> total_tasks then Some (Inr (sm_clock st))
      else let st' = start_tasks jobs durations 0 tasks st
        in if sm_running st' = [] then Some (Inl NoReadyTask)
           else simulate fuel total_tasks jobs durations tasks (finish_tasks tasks st'))"

definition initial_running :: "int gomap \<Rightarrow> string list \<Rightarrow> int list \<Rightarrow> task list \<Rightarrow> (nat \<times> int) list" where
  \<comment> \<open>the active tasks keep their workers\<close>
  "initial_running active completed durations tasks =
     map (\<lambda>(i, task). (i, durations ! i))
       (filter (\<lambda>(i, task). map_of active (tk_id task) \<noteq> None \<and> tk_id task \<notin> set completed) (enumerate 0 tasks))"

definition initial_sim :: "int gomap \<Rightarrow> string list \<Rightarrow> int list \<Rightarrow> task list \<Rightarrow> sim_state" where
  "initial_sim active completed durations tasks =
     (let running = initial_running active completed durations tasks
      in \<lparr>sm_running = running, sm_done = completed, sm_started = map (\<lambda>r. tk_id (tasks ! fst r)) running, sm_clock = 0, sm_finished = 0\<rparr>)"

definition zero_forecast :: forecast where
  "zero_forecast = \<lparr>fc_work = 0, fc_critical_path = 0, fc_elapsed = 0, fc_known = 0, fc_total = 0, fc_overdue = 0\<rparr>"

definition ForecastPlan :: "task list \<Rightarrow> int \<Rightarrow> int gomap \<Rightarrow> string list \<Rightarrow> (forecast_error, forecast) result option" where
  \<comment> \<open>\<open>None\<close> only when a loop runs out of fuel\<close>
  "ForecastPlan tasks jobs active completed =
     (case task_indexes 0 [] tasks of
        Inl e \<Rightarrow> Some (Inl e)
      | Inr indexes \<Rightarrow>
          (case load_tasks indexes active completed 0 tasks
             \<lparr>lo_graph = (replicate (length tasks) 0, []), lo_durations = [], lo_result = zero_forecast\<rparr> of
             Inl e \<Rightarrow> Some (Inl e)
           | Inr st \<Rightarrow>
               let (remaining, dependents) = lo_graph st; durations = lo_durations st in
               case critical_loop (length tasks) dependents durations ((initially_ready remaining, remaining), replicate (length tasks) 0) 0 of
                 None \<Rightarrow> None
               | Some (order, path) \<Rightarrow>
                   if length order \<noteq> length tasks then Some (Inl CyclicTasks)
                   else
                     let result = (lo_result st)\<lparr>fc_critical_path := path\<rparr>; start = initial_sim active completed durations tasks;
                         workers = max (min (nat (max jobs 1)) (max (length tasks) 1)) (length (sm_running start))
                     in map_option (map_result (\<lambda>clock. result\<lparr>fc_elapsed := clock\<rparr>))
                          (simulate (fc_total result + 1) (fc_total result) workers durations tasks start)))"

subsection \<open>Loading\<close>

definition task_arcs :: "task list \<Rightarrow> (nat \<times> nat) set" where
  \<comment> \<open>the second task waits for the first\<close>
  "task_arcs tasks = {(i, j). i < length tasks \<and> j < length tasks \<and> tk_id (tasks ! i) \<in> set (tk_prerequisites (tasks ! j))}"

definition task_duration :: "int gomap \<Rightarrow> string list \<Rightarrow> task \<Rightarrow> int" where
  \<comment> \<open>the time a task still takes\<close>
  "task_duration active completed task =
     (if tk_id task \<in> set completed \<or> \<not> tk_known task then 0
      else case map_of active (tk_id task) of None \<Rightarrow> tk_expected task | Some elapsed \<Rightarrow> max 0 (tk_expected task - elapsed))"

definition elapsed_ok :: "int gomap \<Rightarrow> string list \<Rightarrow> task \<Rightarrow> bool" where
  "elapsed_ok active completed task \<longleftrightarrow>
     (tk_id task \<notin> set completed \<and> tk_known task \<longrightarrow> (\<forall>elapsed. map_of active (tk_id task) = Some elapsed \<longrightarrow> 0 \<le> elapsed))"

definition tasks_named :: "task list \<Rightarrow> bool" where
  "tasks_named tasks \<longleftrightarrow> distinct (map tk_id tasks) \<and> (\<forall>t \<in> set tasks. tk_id t \<noteq> [] \<and> 0 \<le> tk_expected t)"

definition prerequisites_known :: "task list \<Rightarrow> bool" where
  "prerequisites_known tasks \<longleftrightarrow>
     (\<forall>t \<in> set tasks. distinct (tk_prerequisites t) \<and> set (tk_prerequisites t) \<subseteq> tk_id ` set tasks)"

lemma task_indexes_total:
  "(\<exists>indexes'. task_indexes index indexes tasks = Inr indexes') \<longleftrightarrow>
     tasks_named tasks \<and> (\<forall>t \<in> set tasks. map_of indexes (tk_id t) = None)"
  by (induction tasks arbitrary: index indexes) (auto simp: tasks_named_def image_iff)

lemma task_indexes_value:
  assumes "task_indexes index indexes tasks = Inr indexes'"
  shows "map_of indexes' k = (if k \<in> tk_id ` set tasks then map_of (zip (map tk_id tasks) [index..<index + length tasks]) k else map_of indexes k)"
  using assms
proof (induction tasks arbitrary: index indexes)
  case (Cons t tasks)
  have rest: "task_indexes (index + 1) (map_put (tk_id t) index indexes) tasks = Inr indexes'"
    using Cons.prems by (simp split: if_splits)
  have "tk_id t \<notin> tk_id ` set tasks"
    using task_indexes_total [of "index + 1" "map_put (tk_id t) index indexes" tasks] rest by fastforce
  then show ?case using Cons.IH [OF rest] by (auto simp: upt_conv_Cons simp del: upt_Suc)
qed simp

lemma task_index:
  assumes "task_indexes 0 [] tasks = Inr indexes"
  shows "map_of indexes p = Some b \<longleftrightarrow> b < length tasks \<and> p = tk_id (tasks ! b)"
proof -
  have dist: "distinct (map tk_id tasks)" using task_indexes_total [of 0 "[]" tasks] assms by (auto simp: tasks_named_def)
  have "map_of indexes p = Some b \<longleftrightarrow> p \<in> tk_id ` set tasks \<and> (p, b) \<in> set (zip (map tk_id tasks) [0..<length tasks])"
    using task_indexes_value [OF assms, of p] dist by simp
  also have "\<dots> \<longleftrightarrow> b < length tasks \<and> p = tk_id (tasks ! b)" by (auto simp: set_zip intro!: exI [of _ b])
  finally show ?thesis .
qed

lemma task_prerequisites_total:
  "(\<exists>st'. task_prerequisites indexes index seen ps st = Inr st') \<longleftrightarrow>
     distinct ps \<and> set ps \<inter> set seen = {} \<and> (\<forall>p \<in> set ps. map_of indexes p \<noteq> None)"
  by (induction ps arbitrary: seen st) (auto split: option.split)

lemma task_prerequisites_value:
  assumes "task_prerequisites indexes index seen ps st = Inr st'" "counts_ok n st" "index < n"
    and "\<And>p b. map_of indexes p = Some b \<Longrightarrow> b < n"
  shows "counts_ok n st' \<and> (\<forall>u v. v \<in> set (out_at (snd st') u) \<longleftrightarrow>
    v \<in> set (out_at (snd st) u) \<or> v = index \<and> (\<exists>p \<in> set ps. map_of indexes p = Some u))"
  using assms(1,2)
proof (induction ps arbitrary: seen st)
  case (Cons p ps)
  obtain before where before: "map_of indexes p = Some before" using Cons.prems(1) by (auto split: if_splits option.splits)
  let ?st = "((fst st)[index := fst st ! index + 1], out_put before (out_at (snd st) before @ [index]) (snd st))"
  have rest: "task_prerequisites indexes index (p # seen) ps ?st = Inr st'" using Cons.prems(1) before by (auto split: if_splits)
  have "counts_ok n ?st" using counts_ok_add [OF Cons.prems(2) assms(3)] assms(4) before by simp
  then have IH: "counts_ok n st' \<and> (\<forall>u v. v \<in> set (out_at (snd st') u) \<longleftrightarrow>
      v \<in> set (out_at (snd ?st) u) \<or> v = index \<and> (\<exists>p \<in> set ps. map_of indexes p = Some u))"
    by (rule Cons.IH [OF rest])
  moreover have "v \<in> set (out_at (snd ?st) u) \<longleftrightarrow> v \<in> set (out_at (snd st) u) \<or> v = index \<and> before = u" for u v
    by (auto simp: out_at_put)
  ultimately show ?case using before by auto
qed simp

lemma load_duration_total: "(\<exists>st'. load_duration active completed task st = Inr st') \<longleftrightarrow> elapsed_ok active completed task"
  by (auto simp: load_duration_def remaining_duration_def elapsed_ok_def Let_def split: option.splits)

lemma load_duration_result:
  assumes "load_duration active completed task st = Inr st'"
  shows "lo_durations st' = lo_durations st @ [task_duration active completed task]" "lo_graph st' = lo_graph st"
    "fc_total (lo_result st') = fc_total (lo_result st) + (if tk_id task \<in> set completed then 0 else 1)"
    "fc_work (lo_result st') = (if tk_id task \<in> set completed then fc_work (lo_result st)
       else addDuration (fc_work (lo_result st)) (task_duration active completed task))"
  using assms by (auto simp: load_duration_def remaining_duration_def task_duration_def Let_def split: option.splits if_splits)

lemma load_tasks_total:
  "(\<exists>st'. load_tasks indexes active completed index tasks st = Inr st') \<longleftrightarrow>
     (\<forall>t \<in> set tasks. elapsed_ok active completed t \<and> distinct (tk_prerequisites t) \<and> (\<forall>p \<in> set (tk_prerequisites t). map_of indexes p \<noteq> None))"
proof (induction tasks arbitrary: index st)
  case (Cons t tasks)
  show ?case
  proof (cases "load_duration active completed t st")
    case (Inl e)
    then have "\<not> elapsed_ok active completed t" using load_duration_total [of active completed t st] by simp
    then show ?thesis using Inl by simp
  next
    case (Inr st1)
    have ok: "elapsed_ok active completed t" using load_duration_total [of active completed t st] Inr by blast
    show ?thesis
    proof (cases "task_prerequisites indexes index [] (tk_prerequisites t) (lo_graph st1)")
      case inl: (Inl e)
      then show ?thesis using Inr task_prerequisites_total [of indexes index "[]" "tk_prerequisites t" "lo_graph st1"] by auto
    next
      case inr: (Inr graph)
      then show ?thesis using Inr ok Cons.IH task_prerequisites_total [of indexes index "[]" "tk_prerequisites t" "lo_graph st1"] by auto
    qed
  qed
qed simp

definition work_of :: "int gomap \<Rightarrow> string list \<Rightarrow> task list \<Rightarrow> int \<Rightarrow> int" where
  \<comment> \<open>the saturating sum of the durations of tasks that are not completed\<close>
  "work_of active completed tasks work =
     foldl (\<lambda>work t. addDuration work (task_duration active completed t)) work (filter (\<lambda>t. tk_id t \<notin> set completed) tasks)"

lemma load_tasks_result:
  assumes "load_tasks indexes active completed index tasks st = Inr st'"
  shows "lo_durations st' = lo_durations st @ map (task_duration active completed) tasks"
    "fc_total (lo_result st') = fc_total (lo_result st) + length (filter (\<lambda>t. tk_id t \<notin> set completed) tasks)"
    "fc_work (lo_result st') = work_of active completed tasks (fc_work (lo_result st))"
proof -
  have "lo_durations st' = lo_durations st @ map (task_duration active completed) tasks \<and>
    fc_total (lo_result st') = fc_total (lo_result st) + length (filter (\<lambda>t. tk_id t \<notin> set completed) tasks) \<and>
    fc_work (lo_result st') = work_of active completed tasks (fc_work (lo_result st))"
    using assms
  proof (induction tasks arbitrary: index st)
    case (Cons t tasks)
    obtain st1 graph where st1: "load_duration active completed t st = Inr st1"
      "load_tasks indexes active completed (index + 1) tasks (st1\<lparr>lo_graph := graph\<rparr>) = Inr st'"
      using Cons.prems by (auto split: sum.splits)
    show ?case using Cons.IH [OF st1(2)] load_duration_result [OF st1(1)] by (auto simp: work_of_def)
  qed (simp add: work_of_def)
  then show "lo_durations st' = lo_durations st @ map (task_duration active completed) tasks"
    "fc_total (lo_result st') = fc_total (lo_result st) + length (filter (\<lambda>t. tk_id t \<notin> set completed) tasks)"
    "fc_work (lo_result st') = work_of active completed tasks (fc_work (lo_result st))" by blast+
qed

lemma load_tasks_graph:
  assumes "load_tasks indexes active completed index tasks st = Inr st'" "counts_ok n (lo_graph st)" "index + length tasks \<le> n"
    and "\<And>p b. map_of indexes p = Some b \<Longrightarrow> b < n"
  shows "counts_ok n (lo_graph st') \<and> (\<forall>u v. v \<in> set (out_at (snd (lo_graph st')) u) \<longleftrightarrow> v \<in> set (out_at (snd (lo_graph st)) u) \<or>
    (\<exists>i < length tasks. v = index + i \<and> (\<exists>p \<in> set (tk_prerequisites (tasks ! i)). map_of indexes p = Some u)))"
  using assms(1-3)
proof (induction tasks arbitrary: index st)
  case (Cons t tasks)
  obtain st1 graph where st1: "load_duration active completed t st = Inr st1"
    "task_prerequisites indexes index [] (tk_prerequisites t) (lo_graph st1) = Inr graph"
    "load_tasks indexes active completed (index + 1) tasks (st1\<lparr>lo_graph := graph\<rparr>) = Inr st'"
    using Cons.prems(1) by (auto split: sum.splits)
  have same: "lo_graph st1 = lo_graph st" by (rule load_duration_result(2) [OF st1(1)])
  have step: "counts_ok n graph \<and> (\<forall>u v. v \<in> set (out_at (snd graph) u) \<longleftrightarrow>
      v \<in> set (out_at (snd (lo_graph st)) u) \<or> v = index \<and> (\<exists>p \<in> set (tk_prerequisites t). map_of indexes p = Some u))"
    using task_prerequisites_value [OF st1(2) _ _ assms(4)] Cons.prems(2,3) unfolding same by simp
  have "counts_ok n (lo_graph st') \<and> (\<forall>u v. v \<in> set (out_at (snd (lo_graph st')) u) \<longleftrightarrow> v \<in> set (out_at (snd graph) u) \<or>
      (\<exists>i < length tasks. v = index + 1 + i \<and> (\<exists>p \<in> set (tk_prerequisites (tasks ! i)). map_of indexes p = Some u)))"
    using Cons.IH [OF st1(3)] step Cons.prems(3) by simp
  moreover have "(\<exists>i < length (t # tasks). v = index + i \<and> (\<exists>p \<in> set (tk_prerequisites ((t # tasks) ! i)). map_of indexes p = Some u)) \<longleftrightarrow>
      v = index \<and> (\<exists>p \<in> set (tk_prerequisites t). map_of indexes p = Some u) \<or>
      (\<exists>i < length tasks. v = index + 1 + i \<and> (\<exists>p \<in> set (tk_prerequisites (tasks ! i)). map_of indexes p = Some u))" for u v
    by (auto simp: Ex_less_Suc2)
  ultimately show ?case using step by auto
qed simp

definition load_start :: "task list \<Rightarrow> load_state" where
  "load_start tasks = \<lparr>lo_graph = (replicate (length tasks) 0, []), lo_durations = [], lo_result = zero_forecast\<rparr>"

lemma loaded_graph:
  assumes "task_indexes 0 [] tasks = Inr indexes" "load_tasks indexes active completed 0 tasks (load_start tasks) = Inr st"
  shows "counts_ok (length tasks) (lo_graph st)" "v \<in> set (out_at (snd (lo_graph st)) u) \<longleftrightarrow> (u, v) \<in> task_arcs tasks"
proof -
  have empty: "out_at [] u = []" for u by (simp add: out_at_def)
  have "counts_ok (length tasks) (lo_graph (load_start tasks))" by (simp add: counts_ok_def load_start_def empty)
  from load_tasks_graph [OF assms(2) this] task_index [OF assms(1)]
  have "counts_ok (length tasks) (lo_graph st) \<and> (\<forall>u v. v \<in> set (out_at (snd (lo_graph st)) u) \<longleftrightarrow>
      (\<exists>i < length tasks. v = i \<and> (\<exists>p \<in> set (tk_prerequisites (tasks ! i)). u < length tasks \<and> p = tk_id (tasks ! u))))"
    by (simp add: load_start_def empty)
  then show "counts_ok (length tasks) (lo_graph st)" "v \<in> set (out_at (snd (lo_graph st)) u) \<longleftrightarrow> (u, v) \<in> task_arcs tasks"
    by (auto simp: task_arcs_def)
qed

lemma loaded_total:
  "(\<exists>indexes st. task_indexes 0 [] tasks = Inr indexes \<and> load_tasks indexes active completed 0 tasks (load_start tasks) = Inr st) \<longleftrightarrow>
   tasks_named tasks \<and> prerequisites_known tasks \<and> (\<forall>t \<in> set tasks. elapsed_ok active completed t)"
proof (cases "task_indexes 0 [] tasks")
  case (Inl e)
  then show ?thesis using task_indexes_total [of 0 "[]" tasks] by auto
next
  case (Inr indexes)
  have "map_of indexes p \<noteq> None \<longleftrightarrow> p \<in> tk_id ` set tasks" for p
  proof -
    have "map_of indexes p \<noteq> None \<longleftrightarrow> (\<exists>b. map_of indexes p = Some b)" by auto
    also have "\<dots> \<longleftrightarrow> (\<exists>b < length tasks. p = tk_id (tasks ! b))" using task_index [OF Inr, of p] by auto
    finally show ?thesis by (auto simp: set_conv_nth)
  qed
  then have "(\<exists>st. load_tasks indexes active completed 0 tasks (load_start tasks) = Inr st) \<longleftrightarrow>
      prerequisites_known tasks \<and> (\<forall>t \<in> set tasks. elapsed_ok active completed t)"
    unfolding load_tasks_total prerequisites_known_def by blast
  moreover have "tasks_named tasks" using task_indexes_total [of 0 "[]" tasks] Inr by auto
  ultimately show ?thesis using Inr by auto
qed

subsection \<open>Critical times\<close>

lemma release_critical_fold:
  "foldl (release_critical i) (queue, critical) xs =
     (foldl (release (\<lambda>q. q)) queue xs, foldl (\<lambda>critical after. critical[after := max (critical ! after) (critical ! i)]) critical xs)"
  by (induction xs arbitrary: queue critical) (simp_all add: release_critical_def)

lemma raise_critical:
  fixes critical :: "int list"
  assumes "i \<notin> set xs"
  shows "length (foldl (\<lambda>critical after. critical[after := max (critical ! after) (critical ! i)]) critical xs) = length critical"
    "v < length critical \<Longrightarrow> foldl (\<lambda>critical after. critical[after := max (critical ! after) (critical ! i)]) critical xs ! v =
       (if v \<in> set xs then max (critical ! v) (critical ! i) else critical ! v)"
proof -
  have "length (foldl (\<lambda>critical after. critical[after := max (critical ! after) (critical ! i)]) critical xs) = length critical \<and>
    (\<forall>v < length critical. foldl (\<lambda>critical after. critical[after := max (critical ! after) (critical ! i)]) critical xs ! v =
       (if v \<in> set xs then max (critical ! v) (critical ! i) else critical ! v))"
    using assms
  proof (induction xs arbitrary: critical)
    case (Cons x xs)
    let ?c = "critical[x := max (critical ! x) (critical ! i)]"
    have i: "?c ! i = critical ! i" "i \<notin> set xs" using Cons.prems by auto
    have v: "?c ! v = (if v = x then max (critical ! x) (critical ! i) else critical ! v)" if "v < length critical" for v
      using that by (auto simp: nth_list_update)
    show ?case using Cons.IH [OF i(2), of ?c] i(1) v by (auto simp: max.assoc)
  qed simp
  then show "length (foldl (\<lambda>critical after. critical[after := max (critical ! after) (critical ! i)]) critical xs) = length critical"
    "v < length critical \<Longrightarrow> foldl (\<lambda>critical after. critical[after := max (critical ! after) (critical ! i)]) critical xs ! v =
       (if v \<in> set xs then max (critical ! v) (critical ! i) else critical ! v)" by blast+
qed

lemma critical_order:
  "map_option fst (critical_loop fuel dependents durations ((ready, remaining), critical) path) =
   kahn_loop fuel (\<lambda>q. q) dependents (ready, remaining)"
proof (induction fuel arbitrary: ready remaining critical path)
  case (Suc fuel)
  show ?case
  proof (cases ready)
    case (Cons i queue)
    obtain queue' remaining' where "foldl (release (\<lambda>q. q)) (queue, remaining) (out_at dependents i) = (queue', remaining')" by force
    moreover define c where "c = foldl (\<lambda>critical after. critical[after := max (critical ! after) (critical ! i)])
      (critical[i := addDuration (critical ! i) (durations ! i)]) (out_at dependents i)"
    moreover define p where "p = max path (critical[i := addDuration (critical ! i) (durations ! i)] ! i)"
    ultimately show ?thesis using Cons Suc.IH [of queue' remaining' c p, symmetric]
      by (cases "critical_loop fuel dependents durations ((queue', remaining'), c) p") (auto simp: release_critical_fold Let_def case_prod_beta)
  qed simp
qed simp

definition least_bound :: "int \<Rightarrow> int set \<Rightarrow> bool" where
  \<comment> \<open>the maximum of a set and zero\<close>
  "least_bound m xs \<longleftrightarrow> 0 \<le> m \<and> (\<forall>x \<in> xs. x \<le> m) \<and> (\<forall>b \<ge> 0. (\<forall>x \<in> xs. x \<le> b) \<longrightarrow> m \<le> b)"

definition critical_times :: "(nat \<times> nat) set \<Rightarrow> int list \<Rightarrow> nat set \<Rightarrow> int list \<Rightarrow> bool" where
  \<comment> \<open>the critical time of a task is the largest one of the tasks it waits for, and its own duration\<close>
  "critical_times arcs durations tasks critical \<longleftrightarrow>
     (\<forall>v \<in> tasks. \<exists>m. critical ! v = addDuration m (durations ! v) \<and> least_bound m ((\<lambda>u. critical ! u) ` {u. (u, v) \<in> arcs}))"

definition critical_inv :: "task list \<Rightarrow> int list \<Rightarrow> nat set \<Rightarrow> int list \<Rightarrow> int \<Rightarrow> bool" where
  "critical_inv tasks durations emitted critical path \<longleftrightarrow>
     length critical = length tasks \<and> critical_times (task_arcs tasks) durations emitted critical \<and>
     (\<forall>v \<in> emitted. \<forall>u. (u, v) \<in> task_arcs tasks \<longrightarrow> u \<in> emitted) \<and>
     (\<forall>v < length tasks. v \<notin> emitted \<longrightarrow> least_bound (critical ! v) ((\<lambda>u. critical ! u) ` {u \<in> emitted. (u, v) \<in> task_arcs tasks})) \<and>
     least_bound path ((\<lambda>u. critical ! u) ` emitted)"

lemma least_bound_insert: "least_bound m xs \<Longrightarrow> least_bound (max m x) (insert x xs)"
  by (auto simp: least_bound_def)

lemma critical_inv_step:
  assumes inv: "critical_inv tasks durations emitted critical path"
    and i: "i < length tasks" "i \<notin> emitted" "\<forall>u. (u, i) \<in> task_arcs tasks \<longrightarrow> u \<in> emitted" "emitted \<subseteq> {..<length tasks}"
    and xs: "set xs = {v. (i, v) \<in> task_arcs tasks}"
  defines "critical1 \<equiv> critical[i := addDuration (critical ! i) (durations ! i)]"
  shows "critical_inv tasks durations (insert i emitted)
    (foldl (\<lambda>critical after. critical[after := max (critical ! after) (critical ! i)]) critical1 xs) (max path (critical1 ! i))"
proof -
  let ?new = "foldl (\<lambda>critical after. critical[after := max (critical ! after) (critical ! i)]) critical1 xs"
  have len: "length critical = length tasks" using inv by (simp add: critical_inv_def)
  have fresh: "v \<notin> emitted" "v \<noteq> i" if "v \<in> set xs" for v
    using that xs i inv by (auto simp: critical_inv_def)
  have self: "i \<notin> set xs" using fresh(2) by blast
  have new: "length ?new = length tasks" "v < length tasks \<Longrightarrow> ?new ! v = (if v \<in> set xs then max (critical1 ! v) (critical1 ! i) else critical1 ! v)" for v
    using raise_critical [OF self, where critical = critical1] len by (simp_all add: critical1_def)
  have one: "critical1 ! v = (if v = i then addDuration (critical ! i) (durations ! i) else critical ! v)" if "v < length tasks" for v
    using that len by (simp add: critical1_def)
  have old: "?new ! v = critical ! v" if "v \<in> emitted" for v
  proof -
    have "v < length tasks" "v \<noteq> i" "v \<notin> set xs" using that i(2,4) fresh(1) [of v] by auto
    then show ?thesis using new(2) [of v] one [of v] by simp
  qed
  have node: "?new ! i = addDuration (critical ! i) (durations ! i)" using new(2) [of i] one [of i] i fresh(2) by auto
  have images: "(\<lambda>u. ?new ! u) ` A = (\<lambda>u. critical ! u) ` A" if "A \<subseteq> emitted" for A
    using that old by (intro image_cong) auto
  have "critical_times (task_arcs tasks) durations (insert i emitted) ?new"
    unfolding critical_times_def
  proof
    fix v assume v: "v \<in> insert i emitted"
    show "\<exists>m. ?new ! v = addDuration m (durations ! v) \<and> least_bound m ((\<lambda>u. ?new ! u) ` {u. (u, v) \<in> task_arcs tasks})"
    proof (cases "v = i")
      case True
      have "{u. (u, i) \<in> task_arcs tasks} = {u \<in> emitted. (u, i) \<in> task_arcs tasks}" using i(3) by auto
      then have "least_bound (critical ! i) ((\<lambda>u. ?new ! u) ` {u. (u, i) \<in> task_arcs tasks})"
        using inv i(1,2) images [of "{u \<in> emitted. (u, i) \<in> task_arcs tasks}"] by (simp add: critical_inv_def)
      then show ?thesis using True node by auto
    next
      case False
      then have "v \<in> emitted" using v by simp
      moreover have "{u. (u, v) \<in> task_arcs tasks} \<subseteq> emitted" using inv \<open>v \<in> emitted\<close> by (auto simp: critical_inv_def)
      ultimately show ?thesis using inv old [of v] images by (simp add: critical_inv_def critical_times_def)
    qed
  qed
  moreover have "least_bound (?new ! v) ((\<lambda>u. ?new ! u) ` {u \<in> insert i emitted. (u, v) \<in> task_arcs tasks})"
    if v: "v < length tasks" "v \<notin> insert i emitted" for v
  proof -
    let ?A = "{u \<in> emitted. (u, v) \<in> task_arcs tasks}"
    have base: "least_bound (critical ! v) ((\<lambda>u. ?new ! u) ` ?A)" using inv v images [of ?A] by (simp add: critical_inv_def)
    show ?thesis
    proof (cases "v \<in> set xs")
      case True
      then have "{u \<in> insert i emitted. (u, v) \<in> task_arcs tasks} = insert i ?A" using xs by auto
      moreover have "?new ! v = max (critical ! v) (?new ! i)" using True v new(2) [of v] one [of v] one [of i] node i(1) by auto
      ultimately show ?thesis using least_bound_insert [OF base, of "?new ! i"] by simp
    next
      case False
      then have "{u \<in> insert i emitted. (u, v) \<in> task_arcs tasks} = ?A" using xs by auto
      then show ?thesis using base False v new(2) [of v] one [of v] by simp
    qed
  qed
  moreover have "least_bound (max path (critical1 ! i)) ((\<lambda>u. ?new ! u) ` insert i emitted)"
  proof -
    have "least_bound path ((\<lambda>u. ?new ! u) ` emitted)" using inv images [of emitted] by (simp add: critical_inv_def)
    then show ?thesis using least_bound_insert [of path _ "?new ! i"] node one [of i] i(1) by simp
  qed
  ultimately show ?thesis using new(1) inv i(3) unfolding critical_inv_def by blast
qed

definition task_graph :: "task list \<Rightarrow> int gomap \<Rightarrow> string list \<Rightarrow> prerequisite_graph" where
  \<comment> \<open>the graph that loading builds\<close>
  "task_graph tasks active completed =
     (case task_indexes 0 [] tasks of
        Inl e \<Rightarrow> ([], [])
      | Inr indexes \<Rightarrow> (case load_tasks indexes active completed 0 tasks (load_start tasks) of Inl e \<Rightarrow> ([], []) | Inr st \<Rightarrow> lo_graph st))"

lemma task_graph_arcs: "v \<in> set (out_at (snd (task_graph tasks active completed)) u) \<Longrightarrow> (u, v) \<in> task_arcs tasks"
  using loaded_graph(2) by (auto simp: task_graph_def out_at_def split: sum.splits)

interpretation task_kahn: kahn_graph "snd (task_graph tasks active completed)" "length tasks" "\<lambda>queue. queue" for tasks active completed
  by unfold_locales (auto simp: targets_in_range_def task_arcs_def dest: task_graph_arcs)

lemma loaded_kahn:
  assumes "task_indexes 0 [] tasks = Inr indexes" "load_tasks indexes active completed 0 tasks (load_start tasks) = Inr st"
  shows "lo_graph st = task_graph tasks active completed" "task_kahn.arcs tasks active completed = task_arcs tasks"
    "task_kahn.kahn_inv tasks active completed {} (initially_ready (fst (lo_graph st))) (fst (lo_graph st))"
proof -
  show graph: "lo_graph st = task_graph tasks active completed" using assms by (simp add: task_graph_def)
  show "task_kahn.arcs tasks active completed = task_arcs tasks"
    using loaded_graph(2) [OF assms] unfolding graph task_kahn.arcs_def by (auto simp: task_arcs_def)
  show "task_kahn.kahn_inv tasks active completed {} (initially_ready (fst (lo_graph st))) (fst (lo_graph st))"
    using loaded_graph(1) [OF assms] unfolding graph
    by (intro task_kahn.kahn_start) (simp_all add: counts_ok_def initially_ready_def)
qed

lemma critical_loop_result:
  assumes "task_kahn.kahn_inv tasks active completed emitted ready remaining" "critical_inv tasks durations emitted critical path"
    "\<And>u v. v \<in> set (out_at (snd (task_graph tasks active completed)) u) \<longleftrightarrow> (u, v) \<in> task_arcs tasks"
    "critical_loop fuel (snd (task_graph tasks active completed)) durations ((ready, remaining), critical) path = Some (order, result)"
  shows "\<exists>critical'. critical_inv tasks durations (emitted \<union> set order) critical' result"
  using assms(1,2,4)
proof (induction fuel arbitrary: emitted ready remaining critical path order)
  case 0
  then show ?case by (auto split: if_splits)
next
  case (Suc fuel)
  let ?out = "snd (task_graph tasks active completed)"
  show ?case
  proof (cases ready)
    case Nil
    then show ?thesis using Suc.prems by auto
  next
    case (Cons i queue)
    define critical1 where "critical1 = critical[i := addDuration (critical ! i) (durations ! i)]"
    obtain queue' remaining' where rel: "foldl (release (\<lambda>q. q)) (queue, remaining) (out_at ?out i) = (queue', remaining')" by force
    define critical2 where "critical2 = foldl (\<lambda>critical after. critical[after := max (critical ! after) (critical ! i)]) critical1 (out_at ?out i)"
    obtain order' where order': "critical_loop fuel ?out durations ((queue', remaining'), critical2) (max path (critical1 ! i)) = Some (order', result)"
      "order = i # order'"
      using Suc.prems(3) Cons rel by (auto simp: release_critical_fold Let_def critical1_def critical2_def)
    have node: "i < length tasks" "i \<notin> emitted" "task_kahn.pending tasks active completed emitted i = 0"
      using task_kahn.kahnD(6) [OF Suc.prems(1), of i] Cons by simp_all
    have preds: "\<forall>u. (u, i) \<in> task_arcs tasks \<longrightarrow> u \<in> emitted"
      using node(3) assms(3) unfolding task_kahn.pending_zero by (auto simp: task_arcs_def)
    have "critical_inv tasks durations (insert i emitted) critical2 (max path (critical1 ! i))"
      unfolding critical1_def critical2_def
      using critical_inv_step [OF Suc.prems(2) node(1,2) preds task_kahn.kahnD(1) [OF Suc.prems(1)]] assms(3) by auto
    moreover have "task_kahn.kahn_inv tasks active completed (insert i emitted) queue' remaining'"
      using task_kahn.kahn_step Suc.prems(1) Cons rel by blast
    ultimately show ?thesis using Suc.IH order' by fastforce
  qed
qed

lemma critical_path:
  assumes "task_indexes 0 [] tasks = Inr indexes" "load_tasks indexes active completed 0 tasks (load_start tasks) = Inr st"
  obtains order path critical where
    "critical_loop (length tasks) (snd (lo_graph st)) durations ((initially_ready (fst (lo_graph st)), fst (lo_graph st)), replicate (length tasks) 0) 0 = Some (order, path)"
    "length order = length tasks \<longleftrightarrow> acyclic (task_arcs tasks)"
    "length order = length tasks \<Longrightarrow> critical_times (task_arcs tasks) durations {..<length tasks} critical \<and> least_bound path ((\<lambda>u. critical ! u) ` {..<length tasks})"
proof -
  note loaded = loaded_kahn [OF assms]
  let ?loop = "critical_loop (length tasks) (snd (lo_graph st)) durations ((initially_ready (fst (lo_graph st)), fst (lo_graph st)), replicate (length tasks) 0) 0"
  obtain order where order: "kahn_loop (length tasks) (\<lambda>q. q) (snd (lo_graph st)) (initially_ready (fst (lo_graph st)), fst (lo_graph st)) = Some order"
    "distinct order" "set order \<subseteq> {..<length tasks}" "length order = length tasks \<longleftrightarrow> acyclic (task_arcs tasks)"
    using task_kahn.kahn_exact [OF loaded(3)] unfolding loaded(1) loaded(2) by metis
  then obtain path where path: "?loop = Some (order, path)"
    using critical_order [of "length tasks" "snd (lo_graph st)" durations "initially_ready (fst (lo_graph st))" "fst (lo_graph st)" "replicate (length tasks) 0" 0]
    by (cases ?loop) auto
  have "critical_inv tasks durations {} (replicate (length tasks) 0) 0"
    by (simp add: critical_inv_def critical_times_def least_bound_def)
  then obtain critical where critical: "critical_inv tasks durations (set order) critical path"
    using critical_loop_result [OF loaded(3), of durations "replicate (length tasks) 0" 0 "length tasks" order path] path loaded_graph(2) [OF assms]
    unfolding loaded(1) by auto
  have "set order = {..<length tasks}" if "length order = length tasks"
    using order(2,3) that by (metis card_lessThan card_subset_eq distinct_card finite_lessThan)
  then show thesis using that [of order path critical] path order(4) critical by (auto simp: critical_inv_def)
qed

subsection \<open>Sums\<close>

lemma addDuration_min: "addDuration left right = min MaxDuration (left + right)"
  by (auto simp: addDuration_def)

lemma takeWhile_least:
  assumes "sorted (map f xs)" "\<forall>x \<in> set xs. (c :: int) \<le> f x"
  shows "takeWhile (\<lambda>x. f x = c) xs = filter (\<lambda>x. f x = c) xs" "dropWhile (\<lambda>x. f x = c) xs = filter (\<lambda>x. f x \<noteq> c) xs"
proof -
  have "takeWhile (\<lambda>x. f x = c) xs = filter (\<lambda>x. f x = c) xs \<and> dropWhile (\<lambda>x. f x = c) xs = filter (\<lambda>x. f x \<noteq> c) xs"
    using assms
  proof (induction xs)
    case (Cons x xs)
    show ?case
    proof (cases "f x = c")
      case True
      then show ?thesis using Cons by simp
    next
      case False
      then have "\<forall>y \<in> set xs. f y \<noteq> c" using Cons.prems by force
      then show ?thesis using False by (simp add: filter_empty_conv filter_id_conv)
    qed
  qed simp
  then show "takeWhile (\<lambda>x. f x = c) xs = filter (\<lambda>x. f x = c) xs" "dropWhile (\<lambda>x. f x = c) xs = filter (\<lambda>x. f x \<noteq> c) xs" by blast+
qed

subsection \<open>Invariant of the simulation\<close>

definition done_tasks :: "task list \<Rightarrow> string list \<Rightarrow> sim_state \<Rightarrow> nat set" where
  \<comment> \<open>the tasks that the simulation has finished\<close>
  "done_tasks tasks completed st = {i. i < length tasks \<and> tk_id (tasks ! i) \<in> set (sm_done st) \<and> tk_id (tasks ! i) \<notin> set completed}"

definition sim_inv :: "task list \<Rightarrow> string list \<Rightarrow> sim_state \<Rightarrow> bool" where
  "sim_inv tasks completed st \<longleftrightarrow>
     distinct (map fst (sm_running st)) \<and> set completed \<subseteq> set (sm_done st) \<and> 0 \<le> sm_clock st \<and> sm_clock st \<le> MaxDuration \<and>
     (\<forall>(i, e) \<in> set (sm_running st). i < length tasks \<and> tk_id (tasks ! i) \<notin> set (sm_done st) \<and> tk_id (tasks ! i) \<in> set (sm_started st) \<and>
        sm_clock st \<le> e \<and> e \<le> MaxDuration) \<and>
     (\<forall>i < length tasks. tk_id (tasks ! i) \<in> set (sm_started st) \<longrightarrow> tk_id (tasks ! i) \<in> set (sm_done st) \<or> i \<in> fst ` set (sm_running st)) \<and>
     sm_finished st = card (done_tasks tasks completed st)"

definition work_inv :: "task list \<Rightarrow> int list \<Rightarrow> string list \<Rightarrow> sim_state \<Rightarrow> bool" where
  \<comment> \<open>the work done so far covers the clock\<close>
  "work_inv tasks durations completed st \<longleftrightarrow>
     sm_clock st \<le> (\<Sum>i \<in> done_tasks tasks completed st. durations ! i) +
       sum_list (map (\<lambda>(i, e). durations ! i - e + sm_clock st) (sm_running st))"

definition critical_done :: "task list \<Rightarrow> int list \<Rightarrow> sim_state \<Rightarrow> bool" where
  \<comment> \<open>no task ends before its critical time\<close>
  "critical_done tasks critical st \<longleftrightarrow>
     (\<forall>i < length tasks. tk_id (tasks ! i) \<in> set (sm_done st) \<longrightarrow> critical ! i \<le> sm_clock st) \<and>
     (\<forall>(i, e) \<in> set (sm_running st). critical ! i \<le> e)"

definition lower_times :: "task list \<Rightarrow> int list \<Rightarrow> int list \<Rightarrow> bool" where
  "lower_times tasks durations critical \<longleftrightarrow>
     (\<forall>i < length tasks. \<forall>b \<ge> 0. (\<forall>u. (u, i) \<in> task_arcs tasks \<longrightarrow> critical ! u \<le> b) \<longrightarrow> critical ! i \<le> addDuration b (durations ! i))"

definition durations_ok :: "task list \<Rightarrow> int list \<Rightarrow> bool" where
  "durations_ok tasks durations \<longleftrightarrow> length durations = length tasks \<and> (\<forall>d \<in> set durations. 0 \<le> d \<and> d \<le> MaxDuration)"

lemma duration_range: "durations_ok tasks durations \<Longrightarrow> i < length tasks \<Longrightarrow> 0 \<le> durations ! i \<and> durations ! i \<le> MaxDuration"
  by (simp add: durations_ok_def)

lemma start_one:
  assumes inv: "sim_inv tasks completed st" "work_inv tasks durations completed st" "critical_done tasks critical st"
    and ok: "durations_ok tasks durations" "lower_times tasks durations critical" "distinct (map tk_id tasks)"
    and i: "i < length tasks" "tk_id (tasks ! i) \<notin> set (sm_done st)" "tk_id (tasks ! i) \<notin> set (sm_started st)"
      "list_all (\<lambda>p. p \<in> set (sm_done st)) (tk_prerequisites (tasks ! i))"
  defines "st' \<equiv> st\<lparr>sm_running := sm_running st @ [(i, addDuration (sm_clock st) (durations ! i))],
            sm_started := tk_id (tasks ! i) # sm_started st\<rparr>"
  shows "sim_inv tasks completed st' \<and> work_inv tasks durations completed st' \<and> critical_done tasks critical st'"
proof -
  note d = duration_range [OF ok(1) i(1)]
  have clock: "0 \<le> sm_clock st" "sm_clock st \<le> MaxDuration" using inv(1) by (simp_all add: sim_inv_def)
  have end_range: "sm_clock st \<le> addDuration (sm_clock st) (durations ! i)" "addDuration (sm_clock st) (durations ! i) \<le> sm_clock st + durations ! i"
    "addDuration (sm_clock st) (durations ! i) \<le> MaxDuration" using d clock by (auto simp: addDuration_min)
  have new: "i \<notin> fst ` set (sm_running st)" using inv(1) i(3) by (auto simp: sim_inv_def)
  have same: "tk_id (tasks ! k) = tk_id (tasks ! i) \<longleftrightarrow> k = i" if "k < length tasks" for k
    using ok(3) that i(1) by (simp add: distinct_conv_nth) metis
  have same_done: "done_tasks tasks completed st' = done_tasks tasks completed st" by (simp add: done_tasks_def st'_def)
  have "sim_inv tasks completed st'"
    using inv(1) i end_range new same unfolding sim_inv_def same_done by (auto simp: st'_def)
  moreover have "work_inv tasks durations completed st'"
    using inv(2) end_range(2) unfolding work_inv_def same_done by (simp add: st'_def)
  moreover have "critical ! i \<le> addDuration (sm_clock st) (durations ! i)"
  proof -
    have "critical ! u \<le> sm_clock st" if "(u, i) \<in> task_arcs tasks" for u
      using that i(4) inv(3) by (auto simp: task_arcs_def list_all_iff critical_done_def)
    then show ?thesis using ok(2) i(1) clock(1) by (auto simp: lower_times_def)
  qed
  then have "critical_done tasks critical st'" using inv(3) by (auto simp: critical_done_def st'_def)
  ultimately show ?thesis by blast
qed

definition forecast_inv :: "task list \<Rightarrow> int list \<Rightarrow> int list \<Rightarrow> string list \<Rightarrow> sim_state \<Rightarrow> bool" where
  "forecast_inv tasks durations critical completed st \<longleftrightarrow>
     sim_inv tasks completed st \<and> work_inv tasks durations completed st \<and> critical_done tasks critical st"

lemma start_tasks_inv:
  fixes jobs :: nat
  assumes ok: "durations_ok tasks durations" "lower_times tasks durations critical" "distinct (map tk_id tasks)"
    and inv: "forecast_inv tasks durations critical completed st" and part: "drop index tasks = suffix"
  defines "st' \<equiv> start_tasks jobs durations index suffix st"
  shows "forecast_inv tasks durations critical completed st' \<and> sm_done st' = sm_done st \<and> sm_finished st' = sm_finished st \<and>
    set (sm_started st) \<subseteq> set (sm_started st') \<and>
    (jobs \<le> length (sm_running st') \<or> (\<forall>t \<in> set suffix. tk_id t \<in> set (sm_done st) \<or> tk_id t \<in> set (sm_started st') \<or>
       \<not> set (tk_prerequisites t) \<subseteq> set (sm_done st)))"
  unfolding st'_def using inv part
proof (induction suffix arbitrary: index st)
  case (Cons t suffix)
  have "index < length tasks" using Cons.prems(2) by (metis drop_all list.distinct(1) not_le)
  then have t: "index < length tasks" "tasks ! index = t" "drop (index + 1) tasks = suffix"
    using Cons.prems(2) by (simp_all add: Cons_nth_drop_Suc [symmetric])
  let ?st = "st\<lparr>sm_running := sm_running st @ [(index, addDuration (sm_clock st) (durations ! index))], sm_started := tk_id t # sm_started st\<rparr>"
  show ?case
  proof (cases "length (sm_running st) \<ge> jobs")
    case True
    then show ?thesis using Cons.prems(1) by simp
  next
    case room: False
    show ?thesis
    proof (cases "tk_id t \<notin> set (sm_done st) \<and> tk_id t \<notin> set (sm_started st) \<and> list_all (\<lambda>p. p \<in> set (sm_done st)) (tk_prerequisites t)")
      case True
      then have "forecast_inv tasks durations critical completed ?st"
        using start_one [OF _ _ _ ok t(1), of completed st] Cons.prems(1) unfolding t(2) forecast_inv_def by simp
      then show ?thesis using Cons.IH [of ?st "index + 1"] t(3) True room by auto
    next
      case False
      then show ?thesis using Cons.IH [OF Cons.prems(1) t(3)] room by (auto simp: list_all_iff)
    qed
  qed
qed simp

subsection \<open>The end of tasks\<close>

lemma finish_split:
  assumes "sm_running st \<noteq> []"
  obtains clock ended stays where
    "finish_tasks tasks st = st\<lparr>sm_running := stays, sm_clock := clock,
       sm_done := map (\<lambda>r. tk_id (tasks ! fst r)) ended @ sm_done st, sm_finished := sm_finished st + length ended\<rparr>"
    "mset (sm_running st) = mset ended + mset stays" "ended \<noteq> []" "\<forall>r \<in> set ended. snd r = clock" "\<forall>r \<in> set stays. clock < snd r"
proof -
  let ?sorted = "sort_key snd (sm_running st)"
  obtain r rs where r: "?sorted = r # rs" using assms by (metis list.exhaust set_empty set_sort)
  have sorted: "sorted (map snd ?sorted)" by simp
  have least: "\<forall>x \<in> set ?sorted. snd r \<le> snd x" using sorted unfolding r by auto
  note split = takeWhile_least [OF sorted least]
  have "mset (sm_running st) = mset (filter (\<lambda>x. snd x = snd r) ?sorted) + mset (filter (\<lambda>x. snd x \<noteq> snd r) ?sorted)"
    by (metis mset_filter mset_sort multiset_partition)
  moreover have "\<forall>x \<in> set (filter (\<lambda>x. snd x \<noteq> snd r) ?sorted). snd r < snd x" using least by force
  moreover have "filter (\<lambda>x. snd x = snd r) ?sorted \<noteq> []" using r by simp
  moreover have "snd (hd ?sorted) = snd r" by (simp add: r)
  ultimately show thesis using split
    by (intro that [of "filter (\<lambda>x. snd x = snd r) ?sorted" "snd r" "filter (\<lambda>x. snd x \<noteq> snd r) ?sorted"]) (simp_all add: finish_tasks_def Let_def)
qed

lemma finish_work:
  fixes before clock :: int
  assumes "mset running = mset ended + mset stays" "ended \<noteq> []" "\<forall>r \<in> set ended. snd r = clock"
    and "distinct (map fst ended)" "finite A" "A \<inter> fst ` set ended = {}" "before \<le> clock"
    and "before \<le> (\<Sum>i \<in> A. durations ! i) + sum_list (map (\<lambda>(i, e). durations ! i - e + before) running)"
  shows "clock \<le> (\<Sum>i \<in> A \<union> fst ` set ended. durations ! i) + sum_list (map (\<lambda>(i, e). durations ! i - e + clock) stays)"
proof -
  let ?open = "\<lambda>t. \<lambda>(i, e). durations ! i - e + t"
  have "sum_list (map (?open before) running) = sum_list (map (?open before) ended) + sum_list (map (?open before) stays)"
    using arg_cong [OF assms(1), of "\<lambda>m. sum_mset (image_mset (?open before) m)"] by (simp flip: mset_map sum_mset_sum_list)
  moreover have shift: "sum_list (map (?open clock) xs) = sum_list (map (?open before) xs) + (clock - before) * int (length xs)" for xs
    by (induction xs) (auto simp: algebra_simps)
  moreover have "sum_list (map (?open clock) ended) = sum_list (map (\<lambda>r. durations ! fst r) ended)"
    using assms(3) by (intro arg_cong [of _ _ sum_list] map_cong) auto
  moreover have "(\<Sum>i \<in> A \<union> fst ` set ended. durations ! i) = (\<Sum>i \<in> A. durations ! i) + sum_list (map (\<lambda>r. durations ! fst r) ended)"
    using sum.union_disjoint [OF assms(5) _ assms(6), of "\<lambda>i. durations ! i"] sum_list_distinct_conv_sum_set [OF assms(4), of "\<lambda>i. durations ! i"]
    by (simp add: comp_def)
  moreover have "clock - before \<le> (clock - before) * int (length ended)"
    using assms(2,7) by (cases ended) (simp_all add: distrib_left)
  moreover have "0 \<le> (clock - before) * int (length stays)" using assms(7) by simp
  ultimately show ?thesis using assms(8) shift [of stays] shift [of ended] by linarith
qed

lemma finish_inv:
  assumes inv: "forecast_inv tasks durations critical completed st" and run: "sm_running st \<noteq> []" and dist: "distinct (map tk_id tasks)"
  shows "forecast_inv tasks durations critical completed (finish_tasks tasks st)" "sm_finished st < sm_finished (finish_tasks tasks st)"
proof -
  obtain clock ended stays where
    result: "finish_tasks tasks st = st\<lparr>sm_running := stays, sm_clock := clock,
       sm_done := map (\<lambda>r. tk_id (tasks ! fst r)) ended @ sm_done st, sm_finished := sm_finished st + length ended\<rparr>"
    and parts: "mset (sm_running st) = mset ended + mset stays" "ended \<noteq> []" "\<forall>r \<in> set ended. snd r = clock" "\<forall>r \<in> set stays. clock < snd r"
    by (rule finish_split [OF run])
  let ?st = "finish_tasks tasks st"
  show "sm_finished st < sm_finished ?st" using parts(2) by (simp add: result)
  have running: "set (sm_running st) = set ended \<union> set stays" by (metis parts(1) set_mset_mset set_mset_union)
  have "mset (map fst (sm_running st)) = mset (map fst (ended @ stays))" by (simp add: parts(1))
  then have keys: "distinct (map fst (ended @ stays))" using inv by (metis forecast_inv_def sim_inv_def mset_eq_imp_distinct_iff)
  have member: "fst r < length tasks" "tk_id (tasks ! fst r) \<notin> set (sm_done st)" "tk_id (tasks ! fst r) \<in> set (sm_started st)"
      "sm_clock st \<le> snd r" "snd r \<le> MaxDuration" "critical ! fst r \<le> snd r" if "r \<in> set ended \<union> set stays" for r
    using inv that unfolding running [symmetric] by (auto simp: forecast_inv_def sim_inv_def critical_done_def)
  have injective: "tk_id (tasks ! i) = tk_id (tasks ! j) \<longleftrightarrow> i = j" if "i < length tasks" "j < length tasks" for i j
    using dist that by (simp add: distinct_conv_nth) metis
  have gone: "tk_id (tasks ! i) \<in> set (sm_done ?st) \<longleftrightarrow> tk_id (tasks ! i) \<in> set (sm_done st) \<or> i \<in> fst ` set ended" if "i < length tasks" for i
    using injective [OF that] member(1) by (auto simp: result image_iff)
  have old: "done_tasks tasks completed st \<inter> fst ` set ended = {}" using member(2) by (auto simp: done_tasks_def)
  have base: "set completed \<subseteq> set (sm_done st)" "0 \<le> sm_clock st" "sm_finished st = card (done_tasks tasks completed st)"
    "\<And>i. i < length tasks \<Longrightarrow> tk_id (tasks ! i) \<in> set (sm_started st) \<Longrightarrow> tk_id (tasks ! i) \<in> set (sm_done st) \<or> i \<in> fst ` (set ended \<union> set stays)"
    using inv by (simp_all add: forecast_inv_def sim_inv_def running)
  have new: "done_tasks tasks completed ?st = done_tasks tasks completed st \<union> fst ` set ended"
    using gone member(1,2) base(1) by (auto simp: done_tasks_def) blast
  have fin: "finite (done_tasks tasks completed st)" by (simp add: done_tasks_def)
  have "card (done_tasks tasks completed ?st) = sm_finished ?st"
    unfolding new using card_Un_disjoint [OF fin _ old] distinct_card [of "map fst ended"] keys base(3) by (simp add: result)
  moreover have clock: "sm_clock st \<le> clock" "clock \<le> MaxDuration"
    using parts(2,3) member(4,5) by (metis UnI1 list.set_intros(1) neq_Nil_conv)+
  moreover have "r \<in> set stays \<Longrightarrow> tk_id (tasks ! fst r) \<notin> set (sm_done ?st)" for r
    using gone [of "fst r"] member(1,2) [of r] keys by force
  then have "\<forall>(i, e) \<in> set stays. i < length tasks \<and> tk_id (tasks ! i) \<notin> set (sm_done ?st) \<and> tk_id (tasks ! i) \<in> set (sm_started st) \<and>
      clock \<le> e \<and> e \<le> MaxDuration"
    using member(1,3,5) parts(4) by fastforce
  moreover have "tk_id (tasks ! i) \<in> set (sm_done ?st) \<or> i \<in> fst ` set stays" if "i < length tasks" "tk_id (tasks ! i) \<in> set (sm_started st)" for i
    using base(4) [OF that] gone [OF that(1)] by auto
  moreover have "set completed \<subseteq> set (sm_done ?st)" using base(1) by (auto simp: result)
  ultimately have "sim_inv tasks completed ?st"
    using base(2) keys unfolding sim_inv_def by (simp add: result)
  moreover have "work_inv tasks durations completed ?st"
    using inv finish_work [OF parts(1-3) _ fin old clock(1), of durations] keys unfolding forecast_inv_def work_inv_def new
    by (simp add: result)
  moreover have "critical_done tasks critical ?st"
  proof -
    have "critical ! i \<le> clock" if "i < length tasks" "tk_id (tasks ! i) \<in> set (sm_done ?st)" for i
    proof (cases "i \<in> fst ` set ended")
      case True
      then show ?thesis using member(6) parts(3) by fastforce
    next
      case False
      then show ?thesis using inv gone that clock(1) by (fastforce simp: forecast_inv_def critical_done_def)
    qed
    then show ?thesis using member(6) by (fastforce simp: critical_done_def result)
  qed
  ultimately show "forecast_inv tasks durations critical completed ?st" by (simp add: forecast_inv_def)
qed

subsection \<open>The whole simulation\<close>

definition open_tasks :: "task list \<Rightarrow> string list \<Rightarrow> nat set" where
  "open_tasks tasks completed = {i. i < length tasks \<and> tk_id (tasks ! i) \<notin> set completed}"

lemma done_open: "done_tasks tasks completed st \<subseteq> open_tasks tasks completed" "finite (open_tasks tasks completed)"
  by (auto simp: done_tasks_def open_tasks_def)

lemma all_finished:
  assumes inv: "forecast_inv tasks durations critical completed st" and all: "card (open_tasks tasks completed) \<le> sm_finished st"
  shows "0 \<le> sm_clock st \<and> sm_clock st \<le> MaxDuration \<and> sm_clock st \<le> (\<Sum>i \<in> open_tasks tasks completed. durations ! i) \<and>
    (\<forall>i < length tasks. critical ! i \<le> sm_clock st)"
proof -
  have every: "done_tasks tasks completed st = open_tasks tasks completed"
    using all inv done_open card_mono [OF done_open(2) done_open(1)] by (metis card_subset_eq forecast_inv_def le_antisym sim_inv_def)
  have sub: "set completed \<subseteq> set (sm_done st)" using inv by (simp add: forecast_inv_def sim_inv_def)
  have finished: "tk_id (tasks ! i) \<in> set (sm_done st)" if "i < length tasks" for i
    using that every sub by (cases "tk_id (tasks ! i) \<in> set completed") (auto simp: done_tasks_def open_tasks_def)
  then have "sm_running st = []" using inv by (cases "sm_running st") (auto simp: forecast_inv_def sim_inv_def)
  then show ?thesis using inv every finished by (auto simp: forecast_inv_def sim_inv_def work_inv_def critical_done_def)
qed

lemma something_runs:
  assumes known: "prerequisites_known tasks" and acyclic: "acyclic (task_arcs tasks)"
    and inv: "forecast_inv tasks durations critical completed st" and pending: "sm_finished st < card (open_tasks tasks completed)"
    and started: "\<forall>t \<in> set tasks. tk_id t \<in> set (sm_done st) \<or> tk_id t \<in> set (sm_started st) \<or> \<not> set (tk_prerequisites t) \<subseteq> set (sm_done st)"
  shows "sm_running st \<noteq> []"
proof
  assume none: "sm_running st = []"
  let ?left = "{i. i < length tasks \<and> tk_id (tasks ! i) \<notin> set (sm_done st)}"
  have sub: "set completed \<subseteq> set (sm_done st)" using inv by (simp add: forecast_inv_def sim_inv_def)
  have "?left \<noteq> {}"
  proof
    assume "?left = {}"
    then have "done_tasks tasks completed st = open_tasks tasks completed" by (auto simp: done_tasks_def open_tasks_def)
    then show False using pending inv by (simp add: forecast_inv_def sim_inv_def)
  qed
  moreover have "\<exists>u \<in> ?left. (u, i) \<in> task_arcs tasks" if i: "i \<in> ?left" for i
  proof -
    have "tk_id (tasks ! i) \<notin> set (sm_started st)" using i inv none by (auto simp: forecast_inv_def sim_inv_def)
    then obtain p where p: "p \<in> set (tk_prerequisites (tasks ! i))" "p \<notin> set (sm_done st)" using started i by fastforce
    have "p \<in> tk_id ` set tasks" using known i p(1) nth_mem [of i tasks] by (auto simp: prerequisites_known_def)
    then obtain u where "u < length tasks" "p = tk_id (tasks ! u)" by (auto simp: in_set_conv_nth)
    then show ?thesis using p i by (auto simp: task_arcs_def)
  qed
  moreover have "finite (task_arcs tasks)"
    by (rule finite_subset [of _ "{..<length tasks} \<times> {..<length tasks}"]) (auto simp: task_arcs_def)
  ultimately show False using stuck_cycle [of "task_arcs tasks" ?left] acyclic by blast
qed

lemma simulate_ends:
  assumes ok: "durations_ok tasks durations" "lower_times tasks durations critical" "distinct (map tk_id tasks)"
    and known: "prerequisites_known tasks" and acyclic: "acyclic (task_arcs tasks)" and jobs: "0 < jobs"
    and inv: "forecast_inv tasks durations critical completed st" and fuel: "card (open_tasks tasks completed) < sm_finished st + fuel"
  shows "\<exists>clock. simulate fuel (card (open_tasks tasks completed)) jobs durations tasks st = Some (Inr clock) \<and>
    0 \<le> clock \<and> clock \<le> MaxDuration \<and> clock \<le> (\<Sum>i \<in> open_tasks tasks completed. durations ! i) \<and> (\<forall>i < length tasks. critical ! i \<le> clock)"
  using inv fuel
proof (induction fuel arbitrary: st)
  case 0
  then have "sm_finished st \<le> card (open_tasks tasks completed)"
    using card_mono [OF done_open(2) done_open(1)] by (metis forecast_inv_def sim_inv_def)
  then show ?case using 0 by simp
next
  case (Suc fuel)
  show ?case
  proof (cases "card (open_tasks tasks completed) \<le> sm_finished st")
    case True
    then show ?thesis using all_finished [OF Suc.prems(1) True] by simp
  next
    case False
    let ?st = "start_tasks jobs durations 0 tasks st"
    note start = start_tasks_inv [OF ok Suc.prems(1), of 0 tasks jobs, simplified]
    have run: "sm_running ?st \<noteq> []"
    proof (cases "jobs \<le> length (sm_running ?st)")
      case True
      then show ?thesis using jobs by auto
    next
      case room: False
      show ?thesis using something_runs [OF known acyclic, of durations critical completed ?st] start room False by auto
    qed
    then show ?thesis
      using Suc.IH [of "finish_tasks tasks ?st"] finish_inv [of tasks durations critical completed ?st] start ok(3) Suc.prems(2) False by (simp add: Let_def)
  qed
qed

subsection \<open>The forecast\<close>

definition loaded_durations :: "int gomap \<Rightarrow> string list \<Rightarrow> task list \<Rightarrow> int list" where
  "loaded_durations active completed tasks = map (task_duration active completed) tasks"

definition settled :: "task list \<Rightarrow> int gomap \<Rightarrow> string list \<Rightarrow> bool" where
  \<comment> \<open>the prerequisites of the tasks that are completed or active are completed\<close>
  "settled tasks active completed \<longleftrightarrow>
     (\<forall>t \<in> set tasks. tk_id t \<in> set completed \<or> map_of active (tk_id t) \<noteq> None \<longrightarrow> set (tk_prerequisites t) \<subseteq> set completed)"

lemma open_sum: "(\<Sum>i \<in> open_tasks tasks completed. map f tasks ! i) = sum_list (map f (filter (\<lambda>t. tk_id t \<notin> set completed) tasks))"
  for f :: "task \<Rightarrow> int"
proof -
  have "sum_list (map f (filter (\<lambda>t. tk_id t \<notin> set completed) tasks)) =
      sum_list (map (\<lambda>t. if tk_id t \<notin> set completed then f t else 0) tasks)"
    by (induction tasks) auto
  also have "\<dots> = (\<Sum>i \<in> {0..<length tasks}. if tk_id (tasks ! i) \<notin> set completed then f (tasks ! i) else 0)"
    by (simp add: sum_list_sum_nth)
  also have "\<dots> = (\<Sum>i \<in> {i \<in> {0..<length tasks}. tk_id (tasks ! i) \<notin> set completed}. f (tasks ! i))"
    by (rule sum.inter_filter [symmetric]) simp
  also have "\<dots> = (\<Sum>i \<in> open_tasks tasks completed. map f tasks ! i)"
    by (rule sum.cong) (auto simp: open_tasks_def)
  finally show ?thesis by simp
qed

lemma saturating_sum:
  assumes "\<forall>d \<in> set ds. 0 \<le> d" "0 \<le> work" "work \<le> MaxDuration"
  shows "foldl addDuration work ds = min MaxDuration (work + sum_list ds)"
  using assms
proof (induction ds arbitrary: work)
  case (Cons d ds)
  then have "0 \<le> sum_list ds" by (simp add: sum_list_nonneg)
  then show ?case using Cons by (auto simp: addDuration_min min_def MaxDuration_def)
qed simp

lemma loaded_ranges:
  assumes "tasks_named tasks" "\<forall>t \<in> set tasks. elapsed_ok active completed t" "\<forall>t \<in> set tasks. tk_expected t \<le> MaxDuration"
  shows "durations_ok tasks (loaded_durations active completed tasks)"
    "work_of active completed tasks 0 = min MaxDuration (\<Sum>i \<in> open_tasks tasks completed. loaded_durations active completed tasks ! i)"
proof -
  have range: "0 \<le> task_duration active completed t \<and> task_duration active completed t \<le> MaxDuration" if "t \<in> set tasks" for t
    using assms that by (auto simp: task_duration_def tasks_named_def elapsed_ok_def MaxDuration_def split: option.split) fastforce
  then show "durations_ok tasks (loaded_durations active completed tasks)" by (simp add: durations_ok_def loaded_durations_def)
  have "work_of active completed tasks 0 =
      foldl addDuration 0 (map (task_duration active completed) (filter (\<lambda>t. tk_id t \<notin> set completed) tasks))"
    by (simp add: work_of_def foldl_map)
  also have "\<dots> = min MaxDuration (\<Sum>i \<in> open_tasks tasks completed. loaded_durations active completed tasks ! i)"
    using saturating_sum [of "map (task_duration active completed) (filter (\<lambda>t. tk_id t \<notin> set completed) tasks)" 0] range
    unfolding loaded_durations_def open_sum by (simp add: MaxDuration_def)
  finally show "work_of active completed tasks 0 = min MaxDuration (\<Sum>i \<in> open_tasks tasks completed. loaded_durations active completed tasks ! i)" .
qed

lemma initial_inv:
  assumes ok: "durations_ok tasks (loaded_durations active completed tasks)" and dist: "distinct (map tk_id tasks)"
    and "\<forall>i < length tasks. tk_id (tasks ! i) \<in> set completed \<longrightarrow> critical ! i \<le> 0"
      "\<forall>i < length tasks. map_of active (tk_id (tasks ! i)) \<noteq> None \<and> tk_id (tasks ! i) \<notin> set completed \<longrightarrow>
         critical ! i \<le> loaded_durations active completed tasks ! i"
  shows "forecast_inv tasks (loaded_durations active completed tasks) critical completed
    (initial_sim active completed (loaded_durations active completed tasks) tasks)"
proof -
  let ?d = "loaded_durations active completed tasks"
  let ?running = "initial_running active completed ?d tasks"
  have members: "(i, e) \<in> set ?running \<longleftrightarrow> i < length tasks \<and> e = ?d ! i \<and> map_of active (tk_id (tasks ! i)) \<noteq> None \<and>
      tk_id (tasks ! i) \<notin> set completed" for i e
    by (auto simp: initial_running_def in_set_enumerate_eq image_iff)
  have "map fst ?running = map fst (filter (\<lambda>(i, task). map_of active (tk_id task) \<noteq> None \<and> tk_id task \<notin> set completed) (enumerate 0 tasks))"
    by (simp add: initial_running_def case_prod_beta comp_def)
  then have keys: "distinct (map fst ?running)" by (simp add: distinct_map_filter)
  have idle: "done_tasks tasks completed (initial_sim active completed ?d tasks) = {}" by (auto simp: done_tasks_def initial_sim_def Let_def)
  have injective: "tk_id (tasks ! i) = tk_id (tasks ! j) \<longleftrightarrow> i = j" if "i < length tasks" "j < length tasks" for i j
    using dist that by (simp add: distinct_conv_nth) metis
  have "sim_inv tasks completed (initial_sim active completed ?d tasks)"
    unfolding sim_inv_def idle using keys members duration_range [OF ok] injective
    by (auto simp: initial_sim_def Let_def MaxDuration_def) (metis fst_conv image_eqI)+
  moreover have "map (\<lambda>(i, e). ?d ! i - e) ?running = map (\<lambda>r. 0) ?running" using members by auto
  then have "sum_list (map (\<lambda>(i, e). ?d ! i - e) ?running) = 0" by (metis sum_list_0)
  then have "work_inv tasks ?d completed (initial_sim active completed ?d tasks)"
    unfolding work_inv_def idle by (simp add: initial_sim_def Let_def)
  moreover have "critical_done tasks critical (initial_sim active completed ?d tasks)"
    using assms(3,4) members by (auto simp: critical_done_def initial_sim_def Let_def)
  ultimately show ?thesis by (simp add: forecast_inv_def)
qed

lemma lower_times_critical:
  assumes "critical_times (task_arcs tasks) durations {..<length tasks} critical"
  shows "lower_times tasks durations critical"
  unfolding lower_times_def
proof (intro allI impI)
  fix i b assume i: "i < length tasks" "0 \<le> (b :: int)" "\<forall>u. (u, i) \<in> task_arcs tasks \<longrightarrow> critical ! u \<le> b"
  obtain m where m: "critical ! i = addDuration m (durations ! i)" "least_bound m ((\<lambda>u. critical ! u) ` {u. (u, i) \<in> task_arcs tasks})"
    using assms i(1) by (auto simp: critical_times_def)
  have "m \<le> b" using m(2) i(2,3) by (auto simp: least_bound_def)
  then show "critical ! i \<le> addDuration b (durations ! i)" by (auto simp: m(1) addDuration_min)
qed

lemma settled_times:
  assumes times: "critical_times (task_arcs tasks) (loaded_durations active completed tasks) {..<length tasks} critical"
    and acyclic: "acyclic (task_arcs tasks)" and ok: "durations_ok tasks (loaded_durations active completed tasks)" and settled: "settled tasks active completed"
  shows "i < length tasks \<Longrightarrow> tk_id (tasks ! i) \<in> set completed \<Longrightarrow> critical ! i \<le> 0"
    "i < length tasks \<Longrightarrow> map_of active (tk_id (tasks ! i)) \<noteq> None \<Longrightarrow> critical ! i \<le> loaded_durations active completed tasks ! i"
proof -
  let ?d = "loaded_durations active completed tasks"
  have before: "u < length tasks \<and> tk_id (tasks ! u) \<in> set completed"
    if "(u, i) \<in> task_arcs tasks" "tk_id (tasks ! i) \<in> set completed \<or> map_of active (tk_id (tasks ! i)) \<noteq> None" for u i
    using that settled nth_mem [of i tasks] unfolding settled_def task_arcs_def by blast
  have base: "critical ! i \<le> addDuration 0 (?d ! i)" if "i < length tasks" "\<forall>u. (u, i) \<in> task_arcs tasks \<longrightarrow> critical ! u \<le> 0" for i
    using lower_times_critical [OF times] that by (simp add: lower_times_def)
  have "finite (task_arcs tasks)"
    by (rule finite_subset [of _ "{..<length tasks} \<times> {..<length tasks}"]) (auto simp: task_arcs_def)
  then have wf: "wf (task_arcs tasks)" using acyclic by (rule finite_acyclic_wf)
  have zero: "i < length tasks \<longrightarrow> tk_id (tasks ! i) \<in> set completed \<longrightarrow> critical ! i \<le> 0" for i
  proof (induction i rule: wf_induct_rule [OF wf])
    case (1 i)
    show ?case
    proof (intro impI)
      assume i: "i < length tasks" "tk_id (tasks ! i) \<in> set completed"
      then have "?d ! i = 0" by (simp add: loaded_durations_def task_duration_def)
      moreover have "\<forall>u. (u, i) \<in> task_arcs tasks \<longrightarrow> critical ! u \<le> 0" using 1 before i(2) by blast
      ultimately show "critical ! i \<le> 0" using base [OF i(1)] by (simp add: addDuration_def MaxDuration_def)
    qed
  qed
  show "i < length tasks \<Longrightarrow> tk_id (tasks ! i) \<in> set completed \<Longrightarrow> critical ! i \<le> 0" using zero by blast
  assume i: "i < length tasks" "map_of active (tk_id (tasks ! i)) \<noteq> None"
  then have "critical ! i \<le> addDuration 0 (?d ! i)" using base zero before by blast
  then show "critical ! i \<le> ?d ! i" by (simp add: addDuration_min)
qed

lemma forecast_runs:
  assumes tasks: "tasks_named tasks" "prerequisites_known tasks" "\<forall>t \<in> set tasks. elapsed_ok active completed t"
    "\<forall>t \<in> set tasks. tk_expected t \<le> MaxDuration"
  shows "\<not> acyclic (task_arcs tasks) \<Longrightarrow> ForecastPlan tasks jobs active completed = Some (Inl CyclicTasks)"
    "acyclic (task_arcs tasks) \<Longrightarrow> \<exists>f critical. ForecastPlan tasks jobs active completed = Some (Inr f) \<and>
      critical_times (task_arcs tasks) (loaded_durations active completed tasks) {..<length tasks} critical \<and>
      least_bound (fc_critical_path f) ((\<lambda>i. critical ! i) ` {..<length tasks}) \<and>
      fc_work f = min MaxDuration (\<Sum>i \<in> open_tasks tasks completed. loaded_durations active completed tasks ! i) \<and>
      0 \<le> fc_elapsed f \<and> fc_elapsed f \<le> fc_work f \<and> (settled tasks active completed \<longrightarrow> fc_critical_path f \<le> fc_elapsed f)"
proof -
  let ?d = "loaded_durations active completed tasks"
  obtain indexes st where load: "task_indexes 0 [] tasks = Inr indexes" "load_tasks indexes active completed 0 tasks (load_start tasks) = Inr st"
    using loaded_total [of tasks active completed] tasks by blast
  have loaded: "lo_durations st = ?d" "fc_total (lo_result st) = card (open_tasks tasks completed)" "fc_work (lo_result st) = work_of active completed tasks 0"
    using load_tasks_result [OF load(2)]
    by (simp_all add: load_start_def zero_forecast_def loaded_durations_def open_tasks_def length_filter_conv_card)
  note ok = loaded_ranges [OF tasks(1,3,4)]
  have dist: "distinct (map tk_id tasks)" using tasks(1) by (simp add: tasks_named_def)
  obtain order path critical where loop:
    "critical_loop (length tasks) (snd (lo_graph st)) ?d ((initially_ready (fst (lo_graph st)), fst (lo_graph st)), replicate (length tasks) 0) 0 = Some (order, path)"
    "length order = length tasks \<longleftrightarrow> acyclic (task_arcs tasks)"
    "length order = length tasks \<Longrightarrow> critical_times (task_arcs tasks) ?d {..<length tasks} critical \<and> least_bound path ((\<lambda>u. critical ! u) ` {..<length tasks})"
    using critical_path [OF load, of ?d] by blast
  note plan = ForecastPlan_def [of tasks jobs active completed, unfolded load(1) sum.case load_start_def [of tasks, symmetric] load(2) sum.case]
  show "\<not> acyclic (task_arcs tasks) \<Longrightarrow> ForecastPlan tasks jobs active completed = Some (Inl CyclicTasks)"
    using loop(1,2) by (simp add: plan case_prod_beta Let_def loaded)
  assume acyclic: "acyclic (task_arcs tasks)"
  define bound where "bound = (if settled tasks active completed then critical else replicate (length tasks) 0)"
  have times: "critical_times (task_arcs tasks) ?d {..<length tasks} critical" "least_bound path ((\<lambda>u. critical ! u) ` {..<length tasks})"
    using loop(2,3) acyclic by blast+
  have "lower_times tasks ?d (replicate (length tasks) 0)"
    using duration_range [OF ok(1)] by (auto simp: lower_times_def addDuration_min MaxDuration_def)
  then have lower: "lower_times tasks ?d bound" using lower_times_critical [OF times(1)] by (simp add: bound_def)
  have inv: "forecast_inv tasks ?d bound completed (initial_sim active completed ?d tasks)"
    by (rule initial_inv [OF ok(1) dist]) (use settled_times [OF times(1) acyclic ok(1)] duration_range [OF ok(1)] in \<open>auto simp: bound_def\<close>)
  define jobs' where "jobs' = max (min (nat (max jobs 1)) (max (length tasks) 1)) (length (sm_running (initial_sim active completed ?d tasks)))"
  have "0 < jobs'" by (simp add: jobs'_def)
  from simulate_ends [OF ok(1) lower dist tasks(2) acyclic this inv, of "card (open_tasks tasks completed) + 1"]
  obtain clock where clock: "simulate (card (open_tasks tasks completed) + 1) (card (open_tasks tasks completed)) jobs' ?d tasks
      (initial_sim active completed ?d tasks) = Some (Inr clock)" "0 \<le> clock" "clock \<le> MaxDuration"
    "clock \<le> (\<Sum>i \<in> open_tasks tasks completed. ?d ! i)" "\<forall>i < length tasks. bound ! i \<le> clock"
    by auto
  have result: "ForecastPlan tasks jobs active completed = Some (Inr ((lo_result st)\<lparr>fc_critical_path := path, fc_elapsed := clock\<rparr>))"
    using loop(1,2) acyclic clock(1) [unfolded jobs'_def]
    by (simp add: plan case_prod_beta Let_def loaded map_result_def del: simulate.simps One_nat_def)
  have "path \<le> clock" if "settled tasks active completed"
    using that clock(2,5) times(2) by (auto simp: bound_def least_bound_def)
  then show "\<exists>f critical. ForecastPlan tasks jobs active completed = Some (Inr f) \<and>
      critical_times (task_arcs tasks) ?d {..<length tasks} critical \<and>
      least_bound (fc_critical_path f) ((\<lambda>i. critical ! i) ` {..<length tasks}) \<and>
      fc_work f = min MaxDuration (\<Sum>i \<in> open_tasks tasks completed. ?d ! i) \<and>
      0 \<le> fc_elapsed f \<and> fc_elapsed f \<le> fc_work f \<and> (settled tasks active completed \<longrightarrow> fc_critical_path f \<le> fc_elapsed f)"
    using result times clock(2-4) ok(2) loaded(3) by (intro exI [of _ "(lo_result st)\<lparr>fc_critical_path := path, fc_elapsed := clock\<rparr>"] exI [of _ critical]) simp
qed

subsection \<open>Theorems\<close>

lemma load_errors:
  "task_indexes index indexes tasks \<noteq> Inl NoReadyTask" "load_tasks indexes active completed index tasks st \<noteq> Inl NoReadyTask"
proof -
  show "task_indexes index indexes tasks \<noteq> Inl NoReadyTask" by (induction tasks arbitrary: index indexes) simp_all
  have ps: "task_prerequisites indexes index seen ps g \<noteq> Inl NoReadyTask" for index seen ps g
    by (induction ps arbitrary: seen g) (simp_all split: option.split)
  have duration: "load_duration active completed t st \<noteq> Inl NoReadyTask" for t st
    by (simp add: load_duration_def remaining_duration_def Let_def split: option.split)
  show "load_tasks indexes active completed index tasks st \<noteq> Inl NoReadyTask"
    by (induction tasks arbitrary: index st) (auto split: sum.split dest: ps [THEN notE] duration [THEN notE])
qed

lemma forecast_rejects:
  assumes "\<not> (tasks_named tasks \<and> prerequisites_known tasks \<and> (\<forall>t \<in> set tasks. elapsed_ok active completed t))"
  shows "\<exists>e. ForecastPlan tasks jobs active completed = Some (Inl e) \<and> e \<noteq> NoReadyTask"
proof -
  have none: "\<nexists>indexes st. task_indexes 0 [] tasks = Inr indexes \<and> load_tasks indexes active completed 0 tasks (load_start tasks) = Inr st"
    using assms loaded_total by blast
  show ?thesis
  proof (cases "task_indexes 0 [] tasks")
    case (Inl e)
    then show ?thesis using load_errors(1) [of 0 "[]" tasks] by (auto simp: ForecastPlan_def)
  next
    case (Inr indexes)
    then obtain e where "load_tasks indexes active completed 0 tasks (load_start tasks) = Inl e" using none by (metis sum.exhaust)
    then show ?thesis using Inr load_errors(2) [of indexes active completed 0 tasks "load_start tasks"]
      by (auto simp: ForecastPlan_def load_start_def)
  qed
qed

text \<open>
  Claim C40: \<^const>\<open>ForecastPlan\<close> returns on every list of tasks whose expected durations fit in 64 bits, for every number of jobs and all
  maps of active and completed tasks. It returns a forecast exactly when the identities of the tasks are nonempty and pairwise different,
  no duration is negative, every prerequisite is the identity of a task and is listed once, no elapsed time that is read is negative
  and the tasks do not wait for each other in a cycle. The error for a simulation without a ready task is never returned.
\<close>

theorem forecast_exact:
  assumes "\<forall>t \<in> set tasks. tk_expected t \<le> MaxDuration"
  shows "\<exists>result. ForecastPlan tasks jobs active completed = Some result \<and> result \<noteq> Inl NoReadyTask \<and>
    ((\<exists>f. result = Inr f) \<longleftrightarrow>
      tasks_named tasks \<and> prerequisites_known tasks \<and> (\<forall>t \<in> set tasks. elapsed_ok active completed t) \<and> acyclic (task_arcs tasks))"
proof (cases "tasks_named tasks \<and> prerequisites_known tasks \<and> (\<forall>t \<in> set tasks. elapsed_ok active completed t)")
  case True
  then show ?thesis using forecast_runs [of tasks active completed jobs] assms by (cases "acyclic (task_arcs tasks)") auto
next
  case False
  from forecast_rejects [OF this, of jobs] show ?thesis using False by auto
qed

definition example_tasks :: "task list" where
  "example_tasks =
     [\<lparr>tk_id = ''a'', tk_prerequisites = [], tk_expected = 7, tk_known = True\<rparr>,
      \<lparr>tk_id = ''b'', tk_prerequisites = [''a''], tk_expected = 5, tk_known = True\<rparr>,
      \<lparr>tk_id = ''c'', tk_prerequisites = [''a''], tk_expected = 4, tk_known = True\<rparr>,
      \<lparr>tk_id = ''d'', tk_prerequisites = [''b'', ''c''], tk_expected = 2, tk_known = False\<rparr>]"

lemma example_forecasts:
  "ForecastPlan example_tasks 2 [(''a'', 3)] [] =
     Some (Inr \<lparr>fc_work = 13, fc_critical_path = 9, fc_elapsed = 9, fc_known = 3, fc_total = 4, fc_overdue = 0\<rparr>)"
  "ForecastPlan example_tasks 1 [(''b'', 8)] [''a''] =
     Some (Inr \<lparr>fc_work = 4, fc_critical_path = 4, fc_elapsed = 4, fc_known = 2, fc_total = 3, fc_overdue = 1\<rparr>)"
  by code_simp+

theorem forecast_exact_witness:
  "list_all (\<lambda>t. tk_expected t \<le> MaxDuration) example_tasks \<and> acyclic (task_arcs example_tasks)"
proof
  show range: "list_all (\<lambda>t. tk_expected t \<le> MaxDuration) example_tasks" by (simp add: example_tasks_def MaxDuration_def)
  show "acyclic (task_arcs example_tasks)"
    using forecast_exact [OF range [unfolded list_all_iff], of 2 "[(''a'', 3)]" "[]"] example_forecasts(1) by auto
qed

text \<open>
  Claim C26: when \<^const>\<open>ForecastPlan\<close> returns a forecast, its work is the sum of the remaining durations of the tasks that are not completed,
  saturated at the largest duration, its critical path is the largest critical time of a task, where the critical time of a task is the
  largest one of its prerequisites and its own remaining duration, and the elapsed time is at most the work. When the prerequisites of
  every task that is completed or active are completed, the elapsed time is also at least the critical path.
\<close>

theorem forecast_bounds:
  assumes "\<forall>t \<in> set tasks. tk_expected t \<le> MaxDuration" "ForecastPlan tasks jobs active completed = Some (Inr f)"
  shows "fc_work f = min MaxDuration (sum_list (map (task_duration active completed) (filter (\<lambda>t. tk_id t \<notin> set completed) tasks))) \<and>
    (\<exists>critical. critical_times (task_arcs tasks) (map (task_duration active completed) tasks) {..<length tasks} critical \<and>
       least_bound (fc_critical_path f) ((\<lambda>i. critical ! i) ` {..<length tasks})) \<and>
    0 \<le> fc_elapsed f \<and> fc_elapsed f \<le> fc_work f \<and>
    (settled tasks active completed \<longrightarrow> fc_critical_path f \<le> fc_elapsed f)"
proof -
  have ok: "tasks_named tasks" "prerequisites_known tasks" "\<forall>t \<in> set tasks. elapsed_ok active completed t"
    using forecast_rejects [of tasks active completed jobs] assms(2) by auto
  have "acyclic (task_arcs tasks)" using forecast_runs(1) [OF ok assms(1), of jobs] assms(2) by auto
  from forecast_runs(2) [OF ok assms(1) this, of jobs] show ?thesis using assms(2) by (auto simp: loaded_durations_def open_sum)
qed

theorem forecast_bounds_witness:
  "\<exists>f. ForecastPlan example_tasks 2 [(''a'', 3)] [] = Some (Inr f) \<and> settled example_tasks [(''a'', 3)] [] \<and>
     fc_critical_path f \<le> fc_elapsed f \<and> fc_elapsed f \<le> fc_work f \<and>
     fc_work f = min MaxDuration (sum_list (map (task_duration [(''a'', 3)] []) example_tasks))"
proof -
  have range: "\<forall>t \<in> set example_tasks. tk_expected t \<le> MaxDuration" by (simp add: example_tasks_def MaxDuration_def)
  have settled: "settled example_tasks [(''a'', 3)] []" by (simp add: settled_def example_tasks_def)
  show ?thesis using forecast_bounds [OF range example_forecasts(1)] settled example_forecasts(1) by auto
qed

end
