(* ===== verification/Resolve_Ledger.thy ===== *)
theory Resolve_Ledger
  imports Resolve_Graph Plan_Order "HOL-Library.Multiset"
begin

text \<open>
  The decision ledger that the resolver writes, \<^verbatim>\<open>src/internal/resolve/decision_ledger.go\<close>, with the policy tests it calls in
  \<^verbatim>\<open>resolve.go\<close>: a selected record for every action, and for every other candidate under a constraint whether it was
  retained, rejected or skipped and why. \<^verbatim>\<open>CandidateDecision\<close> has the fields and the JSON names of the validator's
  \<^verbatim>\<open>DecisionRecord\<close>, and \<^verbatim>\<open>DecisionLedger\<close> those of the validator's: the records of \<open>Plan_Model\<close> model both. The list of reasons
  is never nil here.
\<close>

subsection \<open>Policy tests\<close>

definition versionedCP :: "string \<Rightarrow> version_info option \<Rightarrow> string" where
  "versionedCP cp version = (case Option.bind version vi_version of None \<Rightarrow> cp | Some v \<Rightarrow> cp @ ''-'' @ v_raw v)"

definition versionExcluded :: "resolver \<Rightarrow> pkg_node \<Rightarrow> version_info \<Rightarrow> bool" where
  "versionExcluded r node vi =
     list_ex (\<lambda>excluded. PackageAtomMatches (rv_gm r) excluded (versionedCP (CP (pn_atom node)) (Some vi)) (policySlot vi) (vi_repository vi))
       (rc_exclude (rv_config r))"

definition versionMaskStatus :: "resolver \<Rightarrow> pkg_node \<Rightarrow> version_info \<Rightarrow> mask_status" where
  "versionMaskStatus r node vi =
     (case (rv_portage_config r, vi_version vi) of
        (Some cfg, Some v) \<Rightarrow> PackageMaskStatus (rv_gm r) (Some cfg) (CP (pn_atom node) @ ''-'' @ v_raw v) (policySlot vi) (vi_repository vi)
      | _ \<Rightarrow> no_mask)"

definition config_arch :: "resolver \<Rightarrow> portage_config \<Rightarrow> string" where
  "config_arch r cfg =
     (let arch = (case map_of (pc_make_conf cfg) ''ARCH'' of None \<Rightarrow> [] | Some a \<Rightarrow> a)
      in if arch = [] then gentooRuntimeArch (rv_goarch r) else arch)"

definition resolver_keywordAccepted :: "resolver \<Rightarrow> string \<Rightarrow> bool" where
  "resolver_keywordAccepted r keywords =
     (case rv_portage_config r of
        None \<Rightarrow> True
      | Some cfg \<Rightarrow>
          (if keywords = [] then False
           else if ''**'' \<in> set (pc_accept_keywords cfg) then True
           else let arch = config_arch r cfg in
             list_ex (\<lambda>kw. \<not> HasPrefix kw ''-'' \<and>
                 (kw = arch \<or> list_ex (\<lambda>ak. ak = kw \<or> HasPrefix ak ''~'' \<and> tl ak = kw) (pc_accept_keywords cfg)))
               (Fields keywords)))"

definition versionKeywordAccepted :: "resolver \<Rightarrow> pkg_node \<Rightarrow> version_info \<Rightarrow> bool" where
  "versionKeywordAccepted r node vi =
     (case (rv_portage_config r, vi_version vi) of
        (Some cfg, Some v) \<Rightarrow>
          KeywordAcceptedFor (rv_visible r) (Some cfg) (CP (pn_atom node) @ ''-'' @ v_raw v) (policySlot vi) (vi_repository vi)
            (vi_keywords vi) (config_arch r cfg)
      | _ \<Rightarrow> resolver_keywordAccepted r (vi_keywords vi))"

subsection \<open>Records\<close>

definition DecisionSelected :: string where "DecisionSelected = ''selected''"

definition DecisionRetained :: string where "DecisionRetained = ''retained''"

definition DecisionRejected :: string where "DecisionRejected = ''rejected''"

definition DecisionSkipped :: string where "DecisionSkipped = ''skipped''"

definition nonemptySortedUnique :: "string list \<Rightarrow> string list" where
  "nonemptySortedUnique values =
     sort (foldl (\<lambda>result raw. let v = TrimSpace raw in if v \<noteq> [] \<and> v \<notin> set result then result @ [v] else result) [] values)"

definition candidateDecisionKey :: "string \<Rightarrow> string \<Rightarrow> string \<Rightarrow> string \<Rightarrow> string" where
  "candidateDecisionKey cpv slot repository state = join_with ''|'' [cpv, slot, repository, state]"

definition candidatePackageKey :: "string \<Rightarrow> string \<Rightarrow> string \<Rightarrow> string" where
  "candidatePackageKey cpv slot repository = join_with ''|'' [cpv, slot, repository]"

definition decisionOutcomeRank :: "string \<Rightarrow> int" where
  "decisionOutcomeRank outcome =
     (if outcome = DecisionSelected then 0 else if outcome = DecisionRetained then 1
      else if outcome = DecisionRejected then 2 else if outcome = DecisionSkipped then 3 else 4)"

definition selectedReplacesSlot :: "pkg_action list \<Rightarrow> string \<Rightarrow> string \<Rightarrow> bool" where
  "selectedReplacesSlot actions cp slot =
     list_ex (\<lambda>action. (case pa_atom action of None \<Rightarrow> False | Some a \<Rightarrow> CP a = cp) \<and> pa_slot action = slot) actions"

definition constraint_texts :: "resolver \<Rightarrow> string \<Rightarrow> string list" where
  \<comment> \<open>the texts of the constraints under a key, a nil atom apart: the model of the constraints has none\<close>
  "constraint_texts r key = (case map_of (rv_constraints r) key of None \<Rightarrow> [] | Some cs \<Rightarrow> map atom_string cs)"

definition requirementsForCandidate :: "resolver \<Rightarrow> string \<Rightarrow> string \<Rightarrow> string list" where
  "requirementsForCandidate r cp slot = nonemptySortedUnique (constraint_texts r (cp @ ''|'' @ slot))"

definition keywordRejectionReason :: "resolver \<Rightarrow> pkg_node \<Rightarrow> version_info \<Rightarrow> string" where
  "keywordRejectionReason r node version =
     (let reason = ''keywords not accepted: candidate KEYWORDS='' @ go_quote (TrimSpace (vi_keywords version)) in
      case (rv_portage_config r, vi_version version) of
        (Some cfg, Some v) \<Rightarrow>
          reason @ ''; effective ACCEPT_KEYWORDS='' @
          go_quote (join_with '' '' (EffectiveAcceptedKeywordsFor (rv_gm r) (Some cfg) (CP (pn_atom node) @ ''-'' @ v_raw v)
            (policySlot version) (vi_repository version) (config_arch r cfg)))
      | _ \<Rightarrow> reason)"

definition candidateDecisionOutcome :: "resolver \<Rightarrow> pkg_node \<Rightarrow> version_info \<Rightarrow> string list \<Rightarrow> bool \<Rightarrow> string list \<times> string" where
  "candidateDecisionOutcome r node version requirements selectedInSlot =
     (let status = versionMaskStatus r node version in
      if map_of (rv_only_deps_targets r) (CP (pn_atom node)) = Some True
      then ([''omitted by onlydeps partial-plan mode''], DecisionSkipped)
      else if \<not> vi_installed version \<and> versionExcluded r node version then ([''excluded by --exclude''], DecisionRejected)
      else if ms_masked status then ([''masked by '' @ ms_source status @ '' atom '' @ ms_atom status], DecisionRejected)
      else if \<not> vi_installed version \<and> \<not> versionKeywordAccepted r node version
      then ([keywordRejectionReason r node version], DecisionRejected)
      else case find (\<lambda>raw. case Parse raw of
               Inl e \<Rightarrow> True
             | Inr constraint \<Rightarrow> \<not> versionAtomMatches (Some (pn_atom node)) (Some constraint) (Some version)
                 (Some (candidateUseFlags r node version))) requirements of
          Some raw \<Rightarrow> ([''does not satisfy committed requirement '' @ raw], DecisionRejected)
        | None \<Rightarrow> (if \<not> selectedInSlot then ([''viable candidate was not committed to the plan''], DecisionSkipped)
                   else ([''lower committed preference''], DecisionSkipped)))"

definition keep_record :: "decision_ledger \<Rightarrow> decision_record \<Rightarrow> decision_ledger" where
  \<comment> \<open>one iteration of \<^verbatim>\<open>boundDecisionLedger\<close>\<close>
  "keep_record ledger record =
     (let size = int (length (json_record record)) in
      if int (length (dl_records ledger)) = MaxDecisionRecords \<or> dl_encoded_bytes ledger + size > MaxDecisionBytes
      then ledger\<lparr>dl_truncated := True, dl_omitted_records := dl_omitted_records ledger + 1\<rparr>
      else ledger\<lparr>dl_records := dl_records ledger @ [record], dl_encoded_bytes := dl_encoded_bytes ledger + size\<rparr>)"

definition boundDecisionLedger :: "decision_record list \<Rightarrow> decision_ledger" where
  "boundDecisionLedger records = foldl keep_record zero_ledger records"

subsection \<open>The ledger\<close>

definition action_record :: "string \<Rightarrow> string list \<Rightarrow> pkg_action \<Rightarrow> atom \<Rightarrow> decision_record" where
  \<comment> \<open>the selected record of an install or removal\<close>
  "action_record state requirements action a =
     \<lparr>dr_id = candidateDecisionKey (CPV a) (pa_slot action) (pa_repository action) state, dr_outcome = DecisionSelected,
      dr_state = state, dr_cpv = CPV a, dr_slot = pa_slot action, dr_subslot = pa_subslot action,
      dr_repository = pa_repository action, dr_action_id = ActionIdentity action,
      dr_reasons = Some (nonemptySortedUnique [pa_reason action]), dr_requirements = requirements\<rparr>"

definition selected_records :: "resolver \<Rightarrow> pkg_action list \<Rightarrow> pkg_action list \<Rightarrow> decision_record list" where
  \<comment> \<open>the records of the two loops over the actions, in their order\<close>
  "selected_records r planned removals =
     concat (map (\<lambda>action. case pa_atom action of
         None \<Rightarrow> []
       | Some a \<Rightarrow> [action_record ''available'' (requirementsForCandidate r (CP a) (pa_slot action)) action a]) planned) @
     concat (map (\<lambda>action. case pa_atom action of None \<Rightarrow> [] | Some a \<Rightarrow> [action_record ''installed'' [] action a]) removals)"

definition put_record :: "decision_record gomap \<Rightarrow> decision_record \<Rightarrow> decision_record gomap" where
  "put_record records record = map_put (dr_id record) record records"

definition action_package_key :: "pkg_action \<Rightarrow> string option" where
  "action_package_key action =
     map_option (\<lambda>a. candidatePackageKey (CPV a) (pa_slot action) (pa_repository action)) (pa_atom action)"

definition candidate_keys :: "resolver \<Rightarrow> string list" where
  \<comment> \<open>the keys of the constraints and the slots of packages that block an update\<close>
  "candidate_keys r =
     sort (remdups (map fst (rv_constraints r) @
       concat (map (\<lambda>diagnostic. case map_of (dg_packages (rv_graph r)) (wd_blocker diagnostic) of
           None \<Rightarrow> []
         | Some node \<Rightarrow> map (\<lambda>version. wd_blocker diagnostic @ ''|'' @ vi_slot version)
             (filter (\<lambda>version. vi_slot version \<noteq> []) (map snd (pn_versions node))))
         (rv_warning_diagnostics r))))"

definition candidate_record ::
  "resolver \<Rightarrow> pkg_action list \<Rightarrow> string list \<Rightarrow> pkg_node \<Rightarrow> string \<Rightarrow> string list \<Rightarrow> version_info \<Rightarrow> string \<Rightarrow> decision_record" where
  \<comment> \<open>the record of a candidate that was not selected; \<open>removedKeys\<close> are the keys of the removals\<close>
  "candidate_record r planned removedKeys node cp requirements version cpv =
     (let state = (if vi_installed version then ''installed'' else ''available'');
          replaces = selectedReplacesSlot planned cp (vi_slot version);
          retained = vi_installed version \<and>
            candidateDecisionKey cpv (vi_slot version) (vi_repository version) ''installed'' \<notin> set removedKeys \<and> \<not> replaces;
          (reasons, outcome) = (if retained then ([''retained in final state''], DecisionRetained)
            else candidateDecisionOutcome r node version requirements replaces)
      in \<lparr>dr_id = candidateDecisionKey cpv (vi_slot version) (vi_repository version) state, dr_outcome = outcome, dr_state = state,
          dr_cpv = cpv, dr_slot = vi_slot version, dr_subslot = vi_subslot version, dr_repository = vi_repository version,
          dr_action_id = [], dr_reasons = Some (nonemptySortedUnique reasons), dr_requirements = requirements\<rparr>)"

definition add_candidate ::
  "resolver \<Rightarrow> pkg_action list \<Rightarrow> pkg_action list \<Rightarrow> pkg_node \<Rightarrow> string \<Rightarrow> string \<Rightarrow> string list \<Rightarrow>
   decision_record gomap \<Rightarrow> version_info \<Rightarrow> decision_record gomap" where
  \<comment> \<open>one iteration of the loop over the versions of a node\<close>
  "add_candidate r planned removals node cp slot requirements records version =
     (case vi_version version of
        None \<Rightarrow> records
      | Some v \<Rightarrow>
          let cpv = cp @ ''-'' @ v_raw v;
              removedKeys = map dr_id (concat (map (\<lambda>action. case pa_atom action of
                  None \<Rightarrow> [] | Some a \<Rightarrow> [action_record ''installed'' [] action a]) removals));
              record = candidate_record r planned removedKeys node cp requirements version cpv
          in if vi_slot version \<noteq> slot \<or> \<not> vi_available version \<and> \<not> vi_installed version then records
             else if Some (candidatePackageKey cpv (vi_slot version) (vi_repository version)) \<in> set (map action_package_key planned) then records
             else if map_of records (dr_id record) \<noteq> None then records
             else put_record records record)"

definition add_candidates :: "resolver \<Rightarrow> pkg_action list \<Rightarrow> pkg_action list \<Rightarrow> decision_record gomap \<Rightarrow> string \<Rightarrow> decision_record gomap" where
  \<comment> \<open>one iteration of the loop over the keys\<close>
  "add_candidates r planned removals records constraintKey =
     (case Cut constraintKey CHR ''|'' of
        None \<Rightarrow> records
      | Some (cp, slot) \<Rightarrow> (case map_of (dg_packages (rv_graph r)) cp of
            None \<Rightarrow> records
          | Some node \<Rightarrow> foldl (add_candidate r planned removals node cp slot (nonemptySortedUnique (constraint_texts r constraintKey)))
              records (map snd (pn_versions node))))"

definition buildDecisionLedger :: "resolver \<Rightarrow> pkg_action list \<Rightarrow> pkg_action list \<Rightarrow> decision_ledger" where
  "buildDecisionLedger r planned removals =
     (let records = foldl (add_candidates r planned removals) (foldl put_record [] (selected_records r planned removals)) (candidate_keys r)
      in boundDecisionLedger (sort_key (\<lambda>record. (decisionOutcomeRank (dr_outcome record), dr_id record)) (map snd records)))"

subsection \<open>Lists of reasons\<close>

lemma TrimSpace_empty: "TrimSpace s = [] \<longleftrightarrow> list_all ascii_space s"
proof -
  have "TrimSpace s = [] \<longleftrightarrow> (\<forall>c \<in> set (dropWhile ascii_space s). ascii_space c)" by (simp add: TrimSpace_def)
  also have "\<dots> \<longleftrightarrow> dropWhile ascii_space s = []"
    by (metis dropWhile_eq_Nil_conv hd_dropWhile list.set_sel(1) set_dropWhileD)
  finally show ?thesis by (simp add: list_all_iff)
qed

lemma unique_step:
  "set (foldl (\<lambda>result raw. let v = TrimSpace raw in if v \<noteq> [] \<and> v \<notin> set result then result @ [v] else result) acc values) =
   set acc \<union> {v \<in> TrimSpace ` set values. v \<noteq> []}"
  by (induction "values" arbitrary: acc) (auto simp: Let_def)

lemma nonemptySortedUnique_set [simp]: "set (nonemptySortedUnique values) = {v \<in> TrimSpace ` set values. v \<noteq> []}"
  by (simp add: nonemptySortedUnique_def unique_step)

lemma nonemptySortedUnique_sorted [simp]: "sorted (nonemptySortedUnique values)"
  by (simp add: nonemptySortedUnique_def)

lemma nonemptySortedUnique_nonempty: "nonemptySortedUnique values \<noteq> [] \<longleftrightarrow> (\<exists>v \<in> set values. \<not> list_all ascii_space v)"
proof -
  have "nonemptySortedUnique values \<noteq> [] \<longleftrightarrow> set (nonemptySortedUnique values) \<noteq> {}" by (simp only: set_empty)
  then show ?thesis unfolding nonemptySortedUnique_set by (auto simp: TrimSpace_empty)
qed

lemma outcome_reasons:
  assumes "candidateDecisionOutcome r node version requirements replaces = (reasons, outcome)"
  shows "outcome \<in> {DecisionRejected, DecisionSkipped}" "nonemptySortedUnique reasons \<noteq> []"
proof -
  have "outcome \<in> {DecisionRejected, DecisionSkipped} \<and> (\<exists>v \<in> set reasons. \<not> list_all ascii_space v)"
    using assms unfolding candidateDecisionOutcome_def Let_def
    by (auto simp: keywordRejectionReason_def Let_def ascii_space_def code_def split: if_splits option.splits prod.splits)
  then show "outcome \<in> {DecisionRejected, DecisionSkipped}" "nonemptySortedUnique reasons \<noteq> []"
    by (simp_all add: nonemptySortedUnique_nonempty)
qed

subsection \<open>Bounding\<close>

definition ledger_bounded :: "decision_ledger \<Rightarrow> bool" where
  "ledger_bounded ledger \<longleftrightarrow>
     int (length (dl_records ledger)) \<le> MaxDecisionRecords \<and> dl_encoded_bytes ledger \<le> MaxDecisionBytes \<and>
     dl_encoded_bytes ledger = int (ledger_bytes (dl_records ledger)) \<and> 0 \<le> dl_omitted_records ledger \<and>
     (dl_truncated ledger \<longleftrightarrow> 0 < dl_omitted_records ledger)"

lemma keep_record_bounded: "ledger_bounded ledger \<Longrightarrow> ledger_bounded (keep_record ledger record)"
  by (auto simp: ledger_bounded_def keep_record_def Let_def ledger_bytes_def)

lemma bound_bounded: "ledger_bounded (boundDecisionLedger records)"
proof -
  have "ledger_bounded ledger \<Longrightarrow> ledger_bounded (foldl keep_record ledger records)" for ledger
    by (induction records arbitrary: ledger) (simp_all add: keep_record_bounded)
  moreover have "ledger_bounded zero_ledger"
    by (simp add: ledger_bounded_def zero_ledger_def MaxDecisionRecords_def MaxDecisionBytes_def ledger_bytes_def)
  ultimately show ?thesis by (simp add: boundDecisionLedger_def)
qed

lemma keep_records_part:
  "sorted_wrt P (dl_records ledger @ records) \<Longrightarrow> sorted_wrt P (dl_records (foldl keep_record ledger records))"
  "set (dl_records (foldl keep_record ledger records)) \<subseteq> set (dl_records ledger) \<union> set records"
proof (induction records arbitrary: ledger)
  case (Cons entry records)
  {
    case 1
    then show ?case using Cons.IH(1) [of "keep_record ledger entry"]
      by (auto simp: keep_record_def Let_def sorted_wrt_append)
  next
    case 2
    show ?case using Cons.IH(2) [of "keep_record ledger entry"] by (auto simp: keep_record_def Let_def split: if_splits)
  }
qed simp_all

lemma bound_part:
  "sorted_wrt P records \<Longrightarrow> sorted_wrt P (dl_records (boundDecisionLedger records))"
  "set (dl_records (boundDecisionLedger records)) \<subseteq> set records"
  using keep_records_part(1) [of P zero_ledger records] keep_records_part(2) [of zero_ledger records] by (simp_all add: boundDecisionLedger_def zero_ledger_def)

lemma keep_records_mono: "set (dl_records ledger) \<subseteq> set (dl_records (foldl keep_record ledger records))"
proof (induction records arbitrary: ledger)
  case (Cons entry records)
  have "set (dl_records ledger) \<subseteq> set (dl_records (keep_record ledger entry))" by (auto simp: keep_record_def Let_def)
  then show ?case using Cons.IH [of "keep_record ledger entry"] by simp
qed simp

lemma keep_records_fit:
  assumes "int (length (dl_records ledger @ records)) \<le> MaxDecisionRecords"
    "dl_encoded_bytes ledger + int (ledger_bytes records) \<le> MaxDecisionBytes"
  shows "dl_records (foldl keep_record ledger records) = dl_records ledger @ records"
  using assms
proof (induction records arbitrary: ledger)
  case (Cons entry records)
  have "keep_record ledger entry =
      ledger\<lparr>dl_records := dl_records ledger @ [entry], dl_encoded_bytes := dl_encoded_bytes ledger + int (length (json_record entry))\<rparr>"
    using Cons.prems by (auto simp: keep_record_def Let_def ledger_bytes_def)
  then show ?case using Cons.IH [of "keep_record ledger entry"] Cons.prems by (simp add: ledger_bytes_def add.assoc)
qed simp

lemma bound_keeps:
  assumes "int (length kept) \<le> MaxDecisionRecords" "int (ledger_bytes kept) \<le> MaxDecisionBytes"
  shows "set kept \<subseteq> set (dl_records (boundDecisionLedger (kept @ others)))"
  using keep_records_fit [of zero_ledger kept] keep_records_mono [of "foldl keep_record zero_ledger kept" others] assms
  by (simp add: boundDecisionLedger_def zero_ledger_def)

subsection \<open>The records\<close>

definition record_shape :: "decision_record list \<Rightarrow> decision_record \<Rightarrow> bool" where
  \<comment> \<open>a record of the ledger: one of the selected records, or well-formed and not linked\<close>
  "record_shape selected d \<longleftrightarrow>
     (if dr_outcome d = DecisionSelected then d \<in> set selected
      else dr_outcome d \<in> {DecisionRetained, DecisionRejected, DecisionSkipped} \<and> dr_action_id d = [] \<and>
        dr_state d \<in> {''available'', ''installed''} \<and> (\<exists>reasons. dr_reasons d = Some reasons \<and> reasons \<noteq> [] \<and> sorted reasons) \<and>
        sorted (dr_requirements d) \<and> dr_id d \<noteq> [])"

definition records_ok :: "decision_record list \<Rightarrow> decision_record gomap \<Rightarrow> bool" where
  "records_ok selected m \<longleftrightarrow>
     map_ok m \<and> (\<forall>(k, d) \<in> set m. dr_id d = k \<and> record_shape selected d) \<and>
     (\<forall>d \<in> set selected. map_of m (dr_id d) = Some d)"

lemma key_nonempty: "candidateDecisionKey cpv slot repository state \<noteq> []"
  by (simp add: candidateDecisionKey_def)

lemma selected_record_cases:
  assumes "d \<in> set (selected_records r planned removals)"
  obtains action a state requirements where "action \<in> set (planned @ removals)" "pa_atom action = Some a"
    "state \<in> {''available'', ''installed''}" "sorted requirements" "d = action_record state requirements action a"
proof -
  from assms consider
    (planned) action a where "action \<in> set planned" "pa_atom action = Some a"
      "d = action_record ''available'' (requirementsForCandidate r (CP a) (pa_slot action)) action a"
  | (removed) action a where "action \<in> set removals" "pa_atom action = Some a" "d = action_record ''installed'' [] action a"
    unfolding selected_records_def by (auto split: option.splits) (metis (no_types))+
  then show thesis
  proof cases
    case planned
    then show ?thesis using that [of action a "''available''" "requirementsForCandidate r (CP a) (pa_slot action)"] by (simp add: requirementsForCandidate_def)
  next
    case removed
    then show ?thesis using that [of action a "''installed''" "[]"] by simp
  qed
qed

lemma selected_record_outcome: "d \<in> set (selected_records r planned removals) \<Longrightarrow> dr_outcome d = DecisionSelected"
  by (erule selected_record_cases) (simp add: action_record_def)

lemma map_of_put_records:
  assumes "distinct (map dr_id ds)"
  shows "map_of (foldl put_record m ds) k = (case find (\<lambda>d. dr_id d = k) ds of None \<Rightarrow> map_of m k | Some d \<Rightarrow> Some d)"
  using assms
proof (induction ds arbitrary: m)
  case (Cons d ds)
  have "find (\<lambda>e. dr_id e = dr_id d) ds = None" using Cons.prems by (auto simp: find_None_iff image_iff)
  then show ?case using Cons.IH [of "put_record m d"] Cons.prems by (auto simp: put_record_def split: option.splits)
qed simp

lemma put_records_ok: "map_ok m \<Longrightarrow> map_ok (foldl put_record m ds)"
  by (induction ds arbitrary: m) (simp_all add: put_record_def map_put_ok)

lemma selected_records_ok:
  assumes "distinct (map dr_id (selected_records r planned removals))"
  shows "records_ok (selected_records r planned removals) (foldl put_record [] (selected_records r planned removals))"
proof -
  let ?ds = "selected_records r planned removals" and ?m = "foldl put_record [] (selected_records r planned removals)"
  have ok: "map_ok ?m" by (rule put_records_ok) (simp add: map_ok_def)
  have lookup: "map_of ?m k = find (\<lambda>d. dr_id d = k) ?ds" for k
    using map_of_put_records [OF assms, of "[]" k] by (simp split: option.splits)
  have "dr_id d = k \<and> record_shape ?ds d" if "(k, d) \<in> set ?m" for k d
  proof -
    have "find (\<lambda>d. dr_id d = k) ?ds = Some d" using that map_ok_entry [OF ok] lookup by metis
    then have "d \<in> set ?ds" "dr_id d = k" by (auto simp: find_Some_iff)
    then show ?thesis using selected_record_outcome by (simp add: record_shape_def)
  qed
  moreover have "find (\<lambda>e. dr_id e = dr_id d) ?ds = Some d" if "d \<in> set ?ds" for d
  proof -
    obtain e where e: "find (\<lambda>e. dr_id e = dr_id d) ?ds = Some e" using \<open>d \<in> set ?ds\<close> find_None_iff [of "\<lambda>e. dr_id e = dr_id d" ?ds] by (cases "find (\<lambda>e. dr_id e = dr_id d) ?ds") auto
    then have "e \<in> set ?ds" "dr_id e = dr_id d" by (auto simp: find_Some_iff)
    then show ?thesis using assms that e by (auto simp: distinct_map inj_on_def)
  qed
  ultimately show ?thesis using ok lookup by (auto simp: records_ok_def)
qed

lemma candidate_record_shape:
  assumes "sorted requirements"
  shows "record_shape selected (candidate_record r planned removedKeys node cp requirements version cpv)"
proof -
  let ?replaces = "selectedReplacesSlot planned cp (vi_slot version)"
  obtain reasons outcome where out: "candidateDecisionOutcome r node version requirements ?replaces = (reasons, outcome)" by (cases "candidateDecisionOutcome r node version requirements ?replaces")
  note reasons = outcome_reasons [OF out]
  have retained: "nonemptySortedUnique [''retained in final state''] \<noteq> []" by (simp add: nonemptySortedUnique_nonempty ascii_space_def code_def)
  have names: "DecisionRetained \<noteq> DecisionSelected" "DecisionRejected \<noteq> DecisionSelected" "DecisionSkipped \<noteq> DecisionSelected"
    by (simp_all add: DecisionSelected_def DecisionRetained_def DecisionRejected_def DecisionSkipped_def)
  show ?thesis unfolding candidate_record_def Let_def out using assms reasons retained names
    by (cases "vi_installed version \<and> candidateDecisionKey cpv (vi_slot version) (vi_repository version) ''installed'' \<notin> set removedKeys \<and> \<not> ?replaces")
      (auto simp: record_shape_def key_nonempty)
qed

lemma add_candidate_ok:
  assumes "records_ok selected m" "sorted requirements"
  shows "records_ok selected (add_candidate r planned removals node cp slot requirements m version)"
proof -
  have put: "records_ok selected (put_record m d)" if "record_shape selected d" "map_of m (dr_id d) = None" for d
  proof -
    have ok: "map_ok (put_record m d)" using assms(1) by (simp add: records_ok_def put_record_def map_put_ok)
    have "dr_id e = k \<and> record_shape selected e" if "(k, e) \<in> set (put_record m d)" for k e
    proof -
      have "map_of (put_record m d) k = Some e" using that map_ok_entry [OF ok] by metis
      then have "k = dr_id d \<and> e = d \<or> map_of m k = Some e" by (auto simp: put_record_def split: if_splits)
      then show ?thesis using \<open>record_shape selected d\<close> assms(1) map_of_SomeD by (fastforce simp: records_ok_def)
    qed
    then show ?thesis using ok assms(1) that(2) by (auto simp: records_ok_def put_record_def)
  qed
  show ?thesis unfolding add_candidate_def Let_def
    using put candidate_record_shape [OF assms(2)] assms(1) by (auto split: option.splits)
qed

lemma add_candidates_ok:
  assumes "records_ok selected m"
  shows "records_ok selected (add_candidates r planned removals m key)"
proof -
  have "records_ok selected (foldl (add_candidate r planned removals node cp slot (nonemptySortedUnique texts)) m versions)"
    if "records_ok selected m" for node cp slot texts versions m
    using that by (induction versions arbitrary: m) (simp_all add: add_candidate_ok)
  then show ?thesis using assms by (simp add: add_candidates_def split: option.splits prod.splits)
qed

lemma all_records_ok:
  assumes "distinct (map dr_id (selected_records r planned removals))"
  shows "records_ok (selected_records r planned removals)
    (foldl (add_candidates r planned removals) (foldl put_record [] (selected_records r planned removals)) keys)"
proof -
  have "records_ok selected m \<Longrightarrow> records_ok selected (foldl (add_candidates r planned removals) m keys)" for selected m
    by (induction keys arbitrary: m) (simp_all add: add_candidates_ok)
  then show ?thesis using selected_records_ok [OF assms] .
qed

lemma distinct_map_wrt: "distinct (map f xs) \<longleftrightarrow> sorted_wrt (\<lambda>a b. f a \<noteq> f b) xs"
  by (induction xs) auto

lemma sorted_split:
  assumes "sorted_wrt (\<lambda>x y. P y \<longrightarrow> P x) xs"
  shows "filter P xs @ filter (\<lambda>x. \<not> P x) xs = xs"
  using assms by (induction xs) (auto simp: filter_empty_conv)

lemma outcome_rank:
  "outcome \<in> {DecisionSelected, DecisionRetained, DecisionRejected, DecisionSkipped} \<Longrightarrow> decisionOutcomeRank outcome = decisionRank outcome"
  "decisionOutcomeRank outcome \<le> 0 \<longleftrightarrow> outcome = DecisionSelected"
  by (auto simp: decisionOutcomeRank_def decisionRank_def DecisionSelected_def DecisionRetained_def DecisionRejected_def DecisionSkipped_def)

lemma record_shape_outcome:
  assumes "record_shape (selected_records r planned removals) d"
  shows "dr_outcome d \<in> {DecisionSelected, DecisionRetained, DecisionRejected, DecisionSkipped}"
  using assms by (auto simp: record_shape_def split: if_splits)

lemma records_ok_selected:
  assumes "records_ok selected m" "distinct (map dr_id selected)" "\<forall>d \<in> set selected. dr_outcome d = DecisionSelected"
  shows "mset (filter (\<lambda>d. dr_outcome d = DecisionSelected) (map snd m)) = mset selected"
proof -
  have ok: "map_ok m" and shape: "\<And>k d. (k, d) \<in> set m \<Longrightarrow> dr_id d = k \<and> record_shape selected d"
    and found: "\<And>d. d \<in> set selected \<Longrightarrow> map_of m (dr_id d) = Some d" using assms(1) by (auto simp: records_ok_def)
  have keys: "map fst m = map (dr_id \<circ> snd) m" using shape by auto
  have "distinct (map dr_id (map snd m))" using map_ok_distinct [OF ok] unfolding keys by (simp add: comp_def)
  then have "distinct (map snd m)" by (simp only: distinct_map)
  moreover have "d \<in> snd ` set m \<and> dr_outcome d = DecisionSelected \<longleftrightarrow> d \<in> set selected" for d
  proof
    assume d: "d \<in> snd ` set m \<and> dr_outcome d = DecisionSelected"
    then obtain k where "(k, d) \<in> set m" by auto
    then show "d \<in> set selected" using shape [of k d] d by (simp add: record_shape_def)
  next
    assume "d \<in> set selected"
    then show "d \<in> snd ` set m \<and> dr_outcome d = DecisionSelected" using map_of_SomeD [OF found] assms(3) by (metis image_eqI snd_conv)
  qed
  ultimately show ?thesis using assms(2)
    by (subst set_eq_iff_mset_eq_distinct [symmetric]) (auto simp: distinct_map)
qed

lemma built_ledger:
  fixes planned removals r
  defines "selected \<equiv> selected_records r planned removals" and "ledger \<equiv> buildDecisionLedger r planned removals"
  assumes "distinct (map dr_id selected)" "int (length selected) \<le> MaxDecisionRecords" "int (ledger_bytes selected) \<le> MaxDecisionBytes"
  shows "\<forall>d \<in> set (dl_records ledger). record_shape selected d" "distinct (map dr_id (dl_records ledger))"
    "sorted_wrt decision_le (map decision_key (dl_records ledger))" "set selected \<subseteq> set (dl_records ledger)"
proof -
  define m where "m = foldl (add_candidates r planned removals) (foldl put_record [] selected) (candidate_keys r)"
  define key where "key d = (decisionOutcomeRank (dr_outcome d), dr_id d)" for d :: decision_record
  define l where "l = sort_key key (map snd m)"
  have ledger: "ledger = boundDecisionLedger l" by (simp add: ledger_def buildDecisionLedger_def selected_def m_def key_def [abs_def] l_def)
  have ok: "records_ok selected m" using all_records_ok assms(3) by (simp add: selected_def m_def)
  have shape: "record_shape selected d" if "d \<in> set l" for d using ok that by (auto simp: records_ok_def l_def)
  then show "\<forall>d \<in> set (dl_records ledger). record_shape selected d" using bound_part(2) ledger by blast
  have "map dr_id (map snd m) = map fst m" using ok by (auto simp: records_ok_def)
  moreover have "mset (map dr_id l) = mset (map dr_id (map snd m))" by (simp only: mset_map l_def mset_sort)
  moreover have "distinct (map fst m)" using ok map_ok_distinct by (auto simp: records_ok_def)
  ultimately have "distinct (map dr_id l)" using mset_eq_imp_distinct_iff by metis
  then have "sorted_wrt (\<lambda>a b. dr_id a \<noteq> dr_id b) l" by (simp add: distinct_map_wrt)
  from bound_part(1) [OF this] show "distinct (map dr_id (dl_records ledger))" by (simp add: ledger distinct_map_wrt)
  have sorted: "sorted_wrt (\<lambda>a b. key a \<le> key b) l" using sorted_sort_key [of key "map snd m"] by (simp add: l_def sorted_wrt_map)
  have rank: "decision_le (decision_key a) (decision_key b)" if "a \<in> set l" "b \<in> set l" "key a \<le> key b" for a b
    using that outcome_rank(1) [OF record_shape_outcome [OF shape [OF that(1), unfolded selected_def]]]
      outcome_rank(1) [OF record_shape_outcome [OF shape [OF that(2), unfolded selected_def]]]
    by (auto simp: key_def decision_key_def decision_le_def)
  have "sorted_wrt (\<lambda>a b. decision_le (decision_key a) (decision_key b)) l" by (rule sorted_wrt_mono_rel [OF rank sorted])
  from bound_part(1) [OF this] show "sorted_wrt decision_le (map decision_key (dl_records ledger))" by (simp add: ledger sorted_wrt_map)
  let ?P = "\<lambda>d. dr_outcome d = DecisionSelected"
  have first: "?P b \<longrightarrow> ?P a" if "key a \<le> key b" for a b
  proof -
    have "decisionOutcomeRank (dr_outcome a) \<le> decisionOutcomeRank (dr_outcome b)" using that by (auto simp: key_def)
    then show ?thesis using outcome_rank(2) [of "dr_outcome a"] outcome_rank(2) [of "dr_outcome b"] by linarith
  qed
  have "sorted_wrt (\<lambda>a b. ?P b \<longrightarrow> ?P a) l" by (rule sorted_wrt_mono_rel [OF first sorted])
  then have split: "l = filter ?P l @ filter (\<lambda>d. \<not> ?P d) l" using sorted_split [of ?P l] by simp
  have kept: "mset (filter ?P l) = mset selected"
    using records_ok_selected [OF ok assms(3)] selected_record_outcome by (simp add: l_def selected_def flip: filter_sort)
  have bytes: "ledger_bytes xs = sum_mset (image_mset (\<lambda>d. length (json_record d)) (mset xs))" for xs
    by (simp add: ledger_bytes_def flip: sum_mset_sum_list mset_map)
  have "length (filter ?P l) = length selected" "set (filter ?P l) = set selected" "ledger_bytes (filter ?P l) = ledger_bytes selected"
    using mset_eq_length [OF kept] mset_eq_setD [OF kept] by (simp_all only: bytes kept)
  then show "set selected \<subseteq> set (dl_records ledger)"
    using bound_keeps [of "filter ?P l" "filter (\<lambda>d. \<not> ?P d) l"] split assms(4,5) ledger by simp
qed

end
