(* ===== verification/Resolve_Transaction.thy ===== *)
theory Resolve_Transaction
  imports Resolve_Graph
begin

text \<open>
  The speculative state of the resolver, \<^verbatim>\<open>src/internal/resolve/resolve.go\<close>: the setters that log what they overwrite in every open
  transaction, begin, commit and rollback, the budget of backtracks and the replay of choices. A branch of the search is any
  sequence of setters, appended messages and nested transactions that are closed in order; rolling it back is shown to restore
  the state in which it began.

  A transaction is named by its position on the stack, where the source compares pointers; a transaction that has been closed is not used
  again. \<^verbatim>\<open>panic\<close> is the value \<open>None\<close>. Actions are values: the source copies an action before it changes one.
\<close>

subsection \<open>Undo logs\<close>

definition log_undo :: "string \<Rightarrow> 'v gomap \<Rightarrow> 'v option gomap \<Rightarrow> 'v option gomap" where
  \<comment> \<open>the old value of a key, unless the key was logged before\<close>
  "log_undo key m log = (if map_of log key \<noteq> None then log else map_put key (map_of m key) log)"

definition restore_entry :: "'v gomap \<Rightarrow> string \<times> 'v option \<Rightarrow> 'v gomap" where
  "restore_entry m e = (case snd e of None \<Rightarrow> map_delete (fst e) m | Some v \<Rightarrow> map_put (fst e) v m)"

definition restore :: "'v option gomap \<Rightarrow> 'v gomap \<Rightarrow> 'v gomap" where
  "restore log m = foldl restore_entry m log"

subsection \<open>Transactions\<close>

definition new_transaction :: "resolver \<Rightarrow> resolver_transaction" where
  "new_transaction r =
     \<lparr>tx_install = [], tx_uninstall = [], tx_seen_deps = [], tx_selected_cps = [], tx_constraints = [], tx_constraint_causes = [],
      tx_use_overrides = [], tx_use_change_seen = [], tx_action_owners = [], tx_conflicts_len = length (rv_conflicts r),
      tx_warnings_len = length (rv_warnings r), tx_replay_choices_len = length (rv_replay_choices r),
      tx_pending_constraint = rv_pending_constraint r, tx_pending_reason = rv_pending_reason r,
      tx_conflict_details_len = length (rv_conflict_details r), tx_backtrack_remaining = rv_backtrack_remaining r,
      tx_decision_history_len = length (rv_decision_history r)\<rparr>"

definition beginTransaction :: "resolver \<Rightarrow> resolver \<times> nat" where
  "beginTransaction r = (r\<lparr>rv_transactions := rv_transactions r @ [new_transaction r]\<rparr>, length (rv_transactions r))"

definition commitTransaction :: "resolver \<Rightarrow> nat \<Rightarrow> resolver option" where
  "commitTransaction r tx =
     (if rv_transactions r = [] \<or> length (rv_transactions r) - 1 \<noteq> tx then None
      else Some (r\<lparr>rv_transactions := butlast (rv_transactions r)\<rparr>))"

definition undo_size :: "resolver_transaction \<Rightarrow> nat" where
  "undo_size tx =
     length (tx_install tx) + length (tx_uninstall tx) + length (tx_seen_deps tx) + length (tx_selected_cps tx) +
     length (tx_constraints tx) + length (tx_constraint_causes tx) + length (tx_use_overrides tx) + length (tx_use_change_seen tx) +
     length (tx_action_owners tx)"

definition undo :: "resolver_transaction \<Rightarrow> resolver \<Rightarrow> resolver" where
  \<comment> \<open>the body of \<^verbatim>\<open>rollbackTransaction\<close> after the stack is popped\<close>
  "undo tx r =
     r\<lparr>rv_undo_log_operations := rv_undo_log_operations r + undo_size tx,
       rv_to_install := restore (tx_install tx) (rv_to_install r),
       rv_to_uninstall := restore (tx_uninstall tx) (rv_to_uninstall r),
       rv_seen_deps := restore (tx_seen_deps tx) (rv_seen_deps r),
       rv_selected_cps := restore (tx_selected_cps tx) (rv_selected_cps r),
       rv_constraints := restore (tx_constraints tx) (rv_constraints r),
       rv_constraint_causes := restore (tx_constraint_causes tx) (rv_constraint_causes r),
       rv_use_overrides := restore (tx_use_overrides tx) (rv_use_overrides r),
       rv_use_override_generation := (if tx_use_overrides tx \<noteq> [] then rv_use_override_generation r + 1 else rv_use_override_generation r),
       rv_use_change_seen := restore (tx_use_change_seen tx) (rv_use_change_seen r),
       rv_action_owners := restore (tx_action_owners tx) (rv_action_owners r),
       rv_conflicts := take (tx_conflicts_len tx) (rv_conflicts r),
       rv_warnings := take (tx_warnings_len tx) (rv_warnings r),
       rv_replay_choices := take (tx_replay_choices_len tx) (rv_replay_choices r),
       rv_pending_constraint := tx_pending_constraint tx,
       rv_pending_reason := tx_pending_reason tx,
       rv_conflict_details := take (tx_conflict_details_len tx) (rv_conflict_details r),
       rv_backtrack_remaining := tx_backtrack_remaining tx,
       rv_decision_history := take (tx_decision_history_len tx) (rv_decision_history r)\<rparr>"

definition rollbackTransaction :: "resolver \<Rightarrow> nat \<Rightarrow> resolver option" where
  "rollbackTransaction r tx =
     (if rv_transactions r = [] \<or> length (rv_transactions r) - 1 \<noteq> tx then None
      else Some (undo (last (rv_transactions r)) (r\<lparr>rv_transactions := butlast (rv_transactions r)\<rparr>)))"

subsection \<open>Setters\<close>

definition setActionOwners :: "resolver \<Rightarrow> string \<Rightarrow> bool gomap \<Rightarrow> resolver" where
  "setActionOwners r key owners =
     r\<lparr>rv_transactions := map (\<lambda>tx. tx\<lparr>tx_action_owners := log_undo key (rv_action_owners r) (tx_action_owners tx)\<rparr>) (rv_transactions r),
       rv_action_owners := (if owners = [] then map_delete key (rv_action_owners r) else map_put key owners (rv_action_owners r))\<rparr>"

definition addActionOwner :: "resolver \<Rightarrow> string \<Rightarrow> string \<Rightarrow> resolver" where
  "addActionOwner r key owner =
     setActionOwners r key (map_put owner True (case map_of (rv_action_owners r) key of None \<Rightarrow> [] | Some owners \<Rightarrow> owners))"

definition log_install :: "resolver \<Rightarrow> string \<Rightarrow> pkg_action gomap \<Rightarrow> resolver" where
  \<comment> \<open>the loop over the transactions, and then the new map\<close>
  "log_install r key m =
     r\<lparr>rv_transactions := map (\<lambda>tx. tx\<lparr>tx_install := log_undo key (rv_to_install r) (tx_install tx)\<rparr>) (rv_transactions r),
       rv_to_install := m\<rparr>"

definition setInstall :: "resolver \<Rightarrow> string \<Rightarrow> pkg_action \<Rightarrow> resolver" where
  "setInstall r key v =
     (let r' = log_install r key (map_put key v (rv_to_install r))
      in if rv_dependency_path r' = [] then r' else addActionOwner r' key (last (rv_dependency_path r')))"

definition deleteInstall :: "resolver \<Rightarrow> string \<Rightarrow> resolver" where
  "deleteInstall r key = setActionOwners (log_install r key (map_delete key (rv_to_install r))) key []"

definition setUninstall :: "resolver \<Rightarrow> string \<Rightarrow> pkg_action \<Rightarrow> resolver" where
  "setUninstall r key v =
     r\<lparr>rv_transactions := map (\<lambda>tx. tx\<lparr>tx_uninstall := log_undo key (rv_to_uninstall r) (tx_uninstall tx)\<rparr>) (rv_transactions r),
       rv_to_uninstall := map_put key v (rv_to_uninstall r)\<rparr>"

definition log_seen_dep :: "resolver \<Rightarrow> string \<Rightarrow> bool gomap \<Rightarrow> resolver" where
  "log_seen_dep r key m =
     r\<lparr>rv_transactions := map (\<lambda>tx. tx\<lparr>tx_seen_deps := log_undo key (rv_seen_deps r) (tx_seen_deps tx)\<rparr>) (rv_transactions r),
       rv_seen_deps := m\<rparr>"

definition setSeenDep :: "resolver \<Rightarrow> string \<Rightarrow> bool \<Rightarrow> resolver" where
  "setSeenDep r key v = log_seen_dep r key (map_put key v (rv_seen_deps r))"

definition deleteSeenDep :: "resolver \<Rightarrow> string \<Rightarrow> resolver" where
  "deleteSeenDep r key = log_seen_dep r key (map_delete key (rv_seen_deps r))"

definition setSelectedCP :: "resolver \<Rightarrow> string \<Rightarrow> resolver" where
  "setSelectedCP r key =
     r\<lparr>rv_transactions := map (\<lambda>tx. tx\<lparr>tx_selected_cps := log_undo key (rv_selected_cps r) (tx_selected_cps tx)\<rparr>) (rv_transactions r),
       rv_selected_cps := map_put key True (rv_selected_cps r)\<rparr>"

definition setConstraints :: "resolver \<Rightarrow> string \<Rightarrow> atom list \<Rightarrow> resolver" where
  "setConstraints r key v =
     r\<lparr>rv_transactions := map (\<lambda>tx. tx\<lparr>tx_constraints := log_undo key (rv_constraints r) (tx_constraints tx)\<rparr>) (rv_transactions r),
       rv_constraints := map_put key v (rv_constraints r)\<rparr>"

definition setConstraintCauses :: "resolver \<Rightarrow> string \<Rightarrow> conflict_requirement list \<Rightarrow> resolver" where
  "setConstraintCauses r key v =
     r\<lparr>rv_transactions := map (\<lambda>tx. tx\<lparr>tx_constraint_causes := log_undo key (rv_constraint_causes r) (tx_constraint_causes tx)\<rparr>)
         (rv_transactions r),
       rv_constraint_causes := map_put key v (rv_constraint_causes r)\<rparr>"

definition setUseOverride :: "resolver \<Rightarrow> string \<Rightarrow> string \<Rightarrow> bool \<Rightarrow> resolver" where
  "setUseOverride r key flag v =
     (let old = (case map_of (rv_use_overrides r) key of None \<Rightarrow> [] | Some flags \<Rightarrow> flags)
      in r\<lparr>rv_transactions := map (\<lambda>tx. tx\<lparr>tx_use_overrides := log_undo key (rv_use_overrides r) (tx_use_overrides tx)\<rparr>) (rv_transactions r),
           rv_use_overrides := map_put key (map_put flag v old) (rv_use_overrides r),
           rv_use_override_generation := rv_use_override_generation r + 1\<rparr>)"

definition setUseChangeSeen :: "resolver \<Rightarrow> string \<Rightarrow> bool \<Rightarrow> resolver" where
  "setUseChangeSeen r key v =
     r\<lparr>rv_transactions := map (\<lambda>tx. tx\<lparr>tx_use_change_seen := log_undo key (rv_use_change_seen r) (tx_use_change_seen tx)\<rparr>) (rv_transactions r),
       rv_use_change_seen := map_put key v (rv_use_change_seen r)\<rparr>"

subsection \<open>Backtracking\<close>

definition backtrackDecisionKey :: "string \<Rightarrow> string \<Rightarrow> string \<Rightarrow> string \<Rightarrow> string" where
  "backtrackDecisionKey kind key from to = kind @ [nul] @ key @ [nul] @ from @ [nul] @ to"

definition charge_key :: "backtrack_decision \<Rightarrow> string" where
  "charge_key d = backtrackDecisionKey (bd_kind d) (bd_key d) (bd_from d) (bd_to d)"

definition consumeBacktrack :: "resolver \<Rightarrow> backtrack_decision \<Rightarrow> resolver \<times> string option" where
  "consumeBacktrack r d =
     (if map_of (rv_charged_decisions r) (charge_key d) = Some True then (r, None)
      else if list_ex (\<lambda>d'. charge_key d' = charge_key d) (rv_decision_history r) then (r, None)
      else if rv_backtrack_remaining r \<le> 0
      then (r, Some (''backtrack limit exhausted while revising '' @ bd_key d @ '' from '' @ bd_from d @ '' to '' @ bd_to d))
      else (r\<lparr>rv_backtrack_remaining := rv_backtrack_remaining r - 1, rv_decision_history := rv_decision_history r @ [d]\<rparr>, None))"

definition recordReplayChoice :: "resolver \<Rightarrow> replay_decision \<Rightarrow> resolver" where
  "recordReplayChoice r decision =
     (if list_ex (\<lambda>d. rd_dep_key d = rd_dep_key decision \<and> rd_chosen d = rd_chosen decision) (rv_replay_choices r) then r
      else r\<lparr>rv_replay_choices := rv_replay_choices r @ [decision]\<rparr>)"

subsection \<open>Logs restore\<close>

definition undo_ok :: "'v option gomap \<Rightarrow> 'v gomap \<Rightarrow> 'v gomap \<Rightarrow> bool" where
  \<comment> \<open>a log takes a map back to another: what it holds are the old values, and what it does not hold has not changed\<close>
  "undo_ok log m b \<longleftrightarrow> map_ok log \<and>
     (\<forall>k. map_of log k = None \<and> map_of m k = map_of b k \<or> map_of log k = Some (map_of b k))"

lemma undo_refl [simp]: "undo_ok [] m m"
  by (simp add: undo_ok_def map_ok_def)

lemma undo_logged:
  assumes "undo_ok log m b" "\<And>j. j \<noteq> k \<Longrightarrow> map_of m' j = map_of m j"
  shows "undo_ok (log_undo k m log) m' b"
  unfolding undo_ok_def
proof (intro conjI allI)
  show "map_ok (log_undo k m log)" using assms(1) by (simp add: log_undo_def undo_ok_def map_put_ok)
  fix j
  have "map_of log j = None \<and> map_of m j = map_of b j \<or> map_of log j = Some (map_of b j)" using assms(1) by (simp add: undo_ok_def)
  then show "map_of (log_undo k m log) j = None \<and> map_of m' j = map_of b j \<or> map_of (log_undo k m log) j = Some (map_of b j)"
    using assms(2) [of j] by (cases "j = k") (auto simp: log_undo_def)
qed

lemma undo_logged_put: "undo_ok log m b \<Longrightarrow> undo_ok (log_undo k m log) (map_put k v m) b"
  by (rule undo_logged) simp_all

lemma undo_logged_delete: "undo_ok log m b \<Longrightarrow> undo_ok (log_undo k m log) (map_delete k m) b"
  by (rule undo_logged) simp_all

lemma undo_logged_other: "undo_ok log m b \<Longrightarrow> undo_ok log s b \<Longrightarrow> undo_ok (log_undo k m log) s b"
  unfolding undo_ok_def log_undo_def by (auto simp: map_put_ok)

lemma restore_lookup:
  assumes "map_ok log"
  shows "map_of (restore log m) k = (case map_of log k of None \<Rightarrow> map_of m k | Some u \<Rightarrow> u)"
proof -
  have "distinct (map fst log)" by (rule map_ok_distinct [OF assms])
  then show ?thesis unfolding restore_def
  proof (induction log arbitrary: m)
    case (Cons e log)
    obtain j u where e: "e = (j, u)" by force
    have "map_of log j = None" using Cons.prems e by (simp add: map_of_eq_None_iff)
    moreover have "map_of (restore_entry m e) k = (if k = j then u else map_of m k)" by (simp add: restore_entry_def e split: option.split)
    ultimately show ?case using Cons.IH [of "restore_entry m e"] Cons.prems e by (auto split: option.split)
  qed simp
qed

lemma restore_ok: "map_ok m \<Longrightarrow> map_ok (restore log m)"
  unfolding restore_def
  by (induction log arbitrary: m) (simp_all add: restore_entry_def map_put_ok map_delete_ok split: option.split)

lemma restore_back: "undo_ok log m b \<Longrightarrow> map_ok m \<Longrightarrow> map_ok b \<Longrightarrow> restore log m = b"
proof (rule map_ok_unique [OF restore_ok])
  assume undo: "undo_ok log m b"
  show "map_of (restore log m) = map_of b"
  proof
    fix k
    have "map_of log k = None \<and> map_of m k = map_of b k \<or> map_of log k = Some (map_of b k)" using undo by (simp add: undo_ok_def)
    moreover have "map_ok log" using undo by (simp add: undo_ok_def)
    ultimately show "map_of (restore log m) k = map_of b k" using restore_lookup [of log m k] by auto
  qed
qed

subsection \<open>What a transaction returns to\<close>

definition fixed_part :: "resolver \<Rightarrow> resolver" where
  \<comment> \<open>what no branch changes: the state with everything else forgotten\<close>
  "fixed_part r =
     r\<lparr>rv_dependency_path := [], rv_to_install := [], rv_to_uninstall := [], rv_seen_deps := [], rv_selected_cps := [], rv_constraints := [],
       rv_constraint_causes := [], rv_use_overrides := [], rv_use_change_seen := [], rv_action_owners := [], rv_conflicts := [], rv_warnings := [],
       rv_replay_choices := [], rv_pending_constraint := None, rv_pending_reason := [], rv_conflict_details := [], rv_backtrack_remaining := 0,
       rv_decision_history := [], rv_use_override_generation := 0, rv_undo_log_operations := 0, rv_transactions := []\<rparr>"

definition prefix_ok :: "nat \<Rightarrow> 'a list \<Rightarrow> 'a list \<Rightarrow> bool" where
  "prefix_ok n xs b \<longleftrightarrow> take n xs = b \<and> length b = n"

definition maps_return :: "resolver_transaction \<Rightarrow> resolver \<Rightarrow> resolver \<Rightarrow> bool" where
  "maps_return tx r b \<longleftrightarrow>
     undo_ok (tx_install tx) (rv_to_install r) (rv_to_install b) \<and> undo_ok (tx_uninstall tx) (rv_to_uninstall r) (rv_to_uninstall b) \<and>
     undo_ok (tx_seen_deps tx) (rv_seen_deps r) (rv_seen_deps b) \<and> undo_ok (tx_selected_cps tx) (rv_selected_cps r) (rv_selected_cps b) \<and>
     undo_ok (tx_constraints tx) (rv_constraints r) (rv_constraints b) \<and>
     undo_ok (tx_constraint_causes tx) (rv_constraint_causes r) (rv_constraint_causes b) \<and>
     undo_ok (tx_use_overrides tx) (rv_use_overrides r) (rv_use_overrides b) \<and>
     undo_ok (tx_use_change_seen tx) (rv_use_change_seen r) (rv_use_change_seen b) \<and>
     undo_ok (tx_action_owners tx) (rv_action_owners r) (rv_action_owners b)"

definition lists_return :: "resolver_transaction \<Rightarrow> resolver \<Rightarrow> resolver \<Rightarrow> bool" where
  "lists_return tx r b \<longleftrightarrow>
     prefix_ok (tx_conflicts_len tx) (rv_conflicts r) (rv_conflicts b) \<and> prefix_ok (tx_warnings_len tx) (rv_warnings r) (rv_warnings b) \<and>
     prefix_ok (tx_replay_choices_len tx) (rv_replay_choices r) (rv_replay_choices b) \<and>
     prefix_ok (tx_conflict_details_len tx) (rv_conflict_details r) (rv_conflict_details b) \<and>
     prefix_ok (tx_decision_history_len tx) (rv_decision_history r) (rv_decision_history b) \<and>
     tx_pending_constraint tx = rv_pending_constraint b \<and> tx_pending_reason tx = rv_pending_reason b \<and>
     tx_backtrack_remaining tx = rv_backtrack_remaining b \<and> fixed_part r = fixed_part b"

definition returns_to :: "resolver_transaction \<Rightarrow> resolver \<Rightarrow> resolver \<Rightarrow> bool" where
  "returns_to tx r b \<longleftrightarrow> maps_return tx r b \<and> lists_return tx r b"

definition maps_ok :: "resolver \<Rightarrow> bool" where
  "maps_ok r \<longleftrightarrow> map_ok (rv_to_install r) \<and> map_ok (rv_to_uninstall r) \<and> map_ok (rv_seen_deps r) \<and> map_ok (rv_selected_cps r) \<and>
     map_ok (rv_constraints r) \<and> map_ok (rv_constraint_causes r) \<and> map_ok (rv_use_overrides r) \<and> map_ok (rv_use_change_seen r) \<and>
     map_ok (rv_action_owners r)"

lemma prefix_refl [simp]: "prefix_ok (length xs) xs xs"
  by (simp add: prefix_ok_def)

lemma prefix_snoc: "prefix_ok n xs b \<Longrightarrow> prefix_ok n (xs @ ys) b"
  by (auto simp: prefix_ok_def)

lemma new_returns: "returns_to (new_transaction r) r r"
  by (simp add: returns_to_def maps_return_def lists_return_def new_transaction_def)

definition branch_state :: "resolver \<Rightarrow> resolver \<Rightarrow> resolver" where
  \<comment> \<open>a state with the parts that a rollback leaves alone taken from another\<close>
  "branch_state b r = b\<lparr>rv_transactions := rv_transactions r, rv_dependency_path := rv_dependency_path r,
     rv_use_override_generation := rv_use_override_generation r, rv_undo_log_operations := rv_undo_log_operations r\<rparr>"

lemma undo_returns:
  assumes "returns_to tx r b" "maps_ok r" "maps_ok b"
  shows "\<exists>generation operations. undo tx r = (branch_state b r)\<lparr>rv_use_override_generation := generation, rv_undo_log_operations := operations\<rparr>"
proof -
  have fixed: "rv_gm r = rv_gm b" "rv_goarch r = rv_goarch b" "rv_graph r = rv_graph b" "rv_config r = rv_config b"
    "rv_portage_config r = rv_portage_config b" "rv_only_deps_targets r = rv_only_deps_targets b" "rv_root_action_keys r = rv_root_action_keys b"
    "rv_charged_decisions r = rv_charged_decisions b" "rv_visible r = rv_visible b" "rv_warning_diagnostics r = rv_warning_diagnostics b"
    using assms(1) by (cases r; cases b; simp add: returns_to_def lists_return_def fixed_part_def)+
  have maps: "restore (tx_install tx) (rv_to_install r) = rv_to_install b" "restore (tx_uninstall tx) (rv_to_uninstall r) = rv_to_uninstall b"
    "restore (tx_seen_deps tx) (rv_seen_deps r) = rv_seen_deps b" "restore (tx_selected_cps tx) (rv_selected_cps r) = rv_selected_cps b"
    "restore (tx_constraints tx) (rv_constraints r) = rv_constraints b"
    "restore (tx_constraint_causes tx) (rv_constraint_causes r) = rv_constraint_causes b"
    "restore (tx_use_overrides tx) (rv_use_overrides r) = rv_use_overrides b"
    "restore (tx_use_change_seen tx) (rv_use_change_seen r) = rv_use_change_seen b"
    "restore (tx_action_owners tx) (rv_action_owners r) = rv_action_owners b"
    using assms by (auto simp: returns_to_def maps_return_def maps_ok_def intro!: restore_back)
  have lists: "take (tx_conflicts_len tx) (rv_conflicts r) = rv_conflicts b" "take (tx_warnings_len tx) (rv_warnings r) = rv_warnings b"
    "take (tx_replay_choices_len tx) (rv_replay_choices r) = rv_replay_choices b"
    "take (tx_conflict_details_len tx) (rv_conflict_details r) = rv_conflict_details b"
    "take (tx_decision_history_len tx) (rv_decision_history r) = rv_decision_history b"
    "tx_pending_constraint tx = rv_pending_constraint b" "tx_pending_reason tx = rv_pending_reason b"
    "tx_backtrack_remaining tx = rv_backtrack_remaining b"
    using assms(1) by (simp_all add: returns_to_def lists_return_def prefix_ok_def)
  show ?thesis
    by (intro exI [of _ "rv_use_override_generation (undo tx r)"] exI [of _ "rv_undo_log_operations (undo tx r)"] resolver.equality)
      (simp_all add: undo_def branch_state_def maps lists fixed)
qed

subsection \<open>Branches\<close>

datatype mutation =
    SetInstall string pkg_action
  | DeleteInstall string
  | SetActionOwners string "bool gomap"
  | AddActionOwner string string
  | SetUninstall string pkg_action
  | SetSeenDep string bool
  | DeleteSeenDep string
  | SetSelectedCP string
  | SetConstraints string "atom list"
  | SetConstraintCauses string "conflict_requirement list"
  | SetUseOverride string string bool
  | SetUseChangeSeen string bool
  | ConsumeBacktrack backtrack_decision
  | RecordReplayChoice replay_decision
  | AddReplayChoice replay_decision
  | AddConflict string
  | AddWarning string
  | AddConflictDetails "conflict_detail list"
  | SetPending "atom option" string
  | SetDependencyPath "string list"

fun apply_mutation :: "mutation \<Rightarrow> resolver \<Rightarrow> resolver" where
  \<comment> \<open>what the code of a branch does to the state between the calls that open and close transactions\<close>
  "apply_mutation (SetInstall key v) r = setInstall r key v"
| "apply_mutation (DeleteInstall key) r = deleteInstall r key"
| "apply_mutation (SetActionOwners key owners) r = setActionOwners r key owners"
| "apply_mutation (AddActionOwner key owner) r = addActionOwner r key owner"
| "apply_mutation (SetUninstall key v) r = setUninstall r key v"
| "apply_mutation (SetSeenDep key v) r = setSeenDep r key v"
| "apply_mutation (DeleteSeenDep key) r = deleteSeenDep r key"
| "apply_mutation (SetSelectedCP key) r = setSelectedCP r key"
| "apply_mutation (SetConstraints key v) r = setConstraints r key v"
| "apply_mutation (SetConstraintCauses key v) r = setConstraintCauses r key v"
| "apply_mutation (SetUseOverride key flag v) r = setUseOverride r key flag v"
| "apply_mutation (SetUseChangeSeen key v) r = setUseChangeSeen r key v"
| "apply_mutation (ConsumeBacktrack d) r = fst (consumeBacktrack r d)"
| "apply_mutation (RecordReplayChoice d) r = recordReplayChoice r d"
| "apply_mutation (AddReplayChoice d) r = r\<lparr>rv_replay_choices := rv_replay_choices r @ [d]\<rparr>"
| "apply_mutation (AddConflict msg) r = r\<lparr>rv_conflicts := rv_conflicts r @ [msg]\<rparr>"
| "apply_mutation (AddWarning msg) r = r\<lparr>rv_warnings := rv_warnings r @ [msg]\<rparr>"
| "apply_mutation (AddConflictDetails ds) r = r\<lparr>rv_conflict_details := rv_conflict_details r @ ds\<rparr>"
| "apply_mutation (SetPending constraint reason) r = r\<lparr>rv_pending_constraint := constraint, rv_pending_reason := reason\<rparr>"
| "apply_mutation (SetDependencyPath path) r = r\<lparr>rv_dependency_path := path\<rparr>"

inductive branch :: "resolver \<Rightarrow> resolver \<Rightarrow> bool" where
  idle: "branch r r"
| mutate: "branch r r1 \<Longrightarrow> branch r (apply_mutation m r1)"
| inner_commit: "branch r r1 \<Longrightarrow> beginTransaction r1 = (r2, tx) \<Longrightarrow> branch r2 r3 \<Longrightarrow> commitTransaction r3 tx = Some r4 \<Longrightarrow> branch r r4"
| inner_rollback: "branch r r1 \<Longrightarrow> beginTransaction r1 = (r2, tx) \<Longrightarrow> branch r2 r3 \<Longrightarrow> rollbackTransaction r3 tx = Some r4 \<Longrightarrow> branch r r4"

definition logged :: "(resolver_transaction \<Rightarrow> resolver_transaction) \<Rightarrow> resolver \<Rightarrow> resolver \<Rightarrow> bool" where
  \<comment> \<open>a change of the state together with what it does to the logs\<close>
  "logged f r r' \<longleftrightarrow> rv_transactions r' = map f (rv_transactions r) \<and> (maps_ok r \<longrightarrow> maps_ok r') \<and>
     (\<forall>tx b. returns_to tx r b \<longrightarrow> returns_to (f tx) r' b) \<and>
     (\<forall>tx s b. returns_to tx r b \<longrightarrow> returns_to tx s b \<longrightarrow> returns_to (f tx) s b)"

definition keeps_logs :: "resolver \<Rightarrow> resolver \<Rightarrow> bool" where
  "keeps_logs r r' \<longleftrightarrow> (\<exists>f. logged f r r')"

lemma keeps_refl: "keeps_logs r r"
  unfolding keeps_logs_def logged_def by (rule exI [of _ "\<lambda>tx. tx"]) simp

lemma keeps_trans:
  assumes "keeps_logs r r1" "keeps_logs r1 r2"
  shows "keeps_logs r r2"
proof -
  obtain f g where fg: "logged f r r1" "logged g r1 r2" using assms by (auto simp: keeps_logs_def)
  have "logged (g \<circ> f) r r2"
    unfolding logged_def
  proof (intro conjI allI impI)
    show "rv_transactions r2 = map (g \<circ> f) (rv_transactions r)" using fg by (simp add: logged_def)
    show "maps_ok r2" if "maps_ok r" using fg that by (simp add: logged_def)
    show "returns_to ((g \<circ> f) tx) r2 b" if "returns_to tx r b" for tx b using fg that by (simp add: logged_def)
    show "returns_to ((g \<circ> f) tx) s b" if "returns_to tx r b" "returns_to tx s b" for tx s b
      using fg that unfolding logged_def comp_apply by blast
  qed
  then show ?thesis by (auto simp: keeps_logs_def)
qed

lemmas return_simps = returns_to_def maps_return_def lists_return_def

lemma keeps_plain:
  assumes "rv_transactions r' = rv_transactions r" "maps_ok r \<longrightarrow> maps_ok r'" "\<And>tx b. returns_to tx r b \<Longrightarrow> returns_to tx r' b"
  shows "keeps_logs r r'"
  unfolding keeps_logs_def logged_def using assms by (intro exI [of _ "\<lambda>tx. tx"]) simp

lemma keeps_logged:
  assumes "rv_transactions r' = map f (rv_transactions r)" "maps_ok r \<longrightarrow> maps_ok r'"
    "\<And>tx b. returns_to tx r b \<Longrightarrow> returns_to (f tx) r' b"
    "\<And>tx s b. returns_to tx r b \<Longrightarrow> returns_to tx s b \<Longrightarrow> returns_to (f tx) s b"
  shows "keeps_logs r r'"
  unfolding keeps_logs_def logged_def using assms by blast

lemma fixed_updates [simp]:
  "fixed_part (r\<lparr>rv_transactions := ts\<rparr>) = fixed_part r" "fixed_part (r\<lparr>rv_to_install := m1\<rparr>) = fixed_part r"
  "fixed_part (r\<lparr>rv_to_uninstall := m2\<rparr>) = fixed_part r" "fixed_part (r\<lparr>rv_seen_deps := m3\<rparr>) = fixed_part r"
  "fixed_part (r\<lparr>rv_selected_cps := m4\<rparr>) = fixed_part r" "fixed_part (r\<lparr>rv_constraints := m5\<rparr>) = fixed_part r"
  "fixed_part (r\<lparr>rv_constraint_causes := m6\<rparr>) = fixed_part r" "fixed_part (r\<lparr>rv_use_overrides := m7\<rparr>) = fixed_part r"
  "fixed_part (r\<lparr>rv_use_change_seen := m8\<rparr>) = fixed_part r" "fixed_part (r\<lparr>rv_action_owners := m9\<rparr>) = fixed_part r"
  "fixed_part (r\<lparr>rv_conflicts := c1\<rparr>) = fixed_part r" "fixed_part (r\<lparr>rv_warnings := c2\<rparr>) = fixed_part r"
  "fixed_part (r\<lparr>rv_replay_choices := c3\<rparr>) = fixed_part r" "fixed_part (r\<lparr>rv_conflict_details := c4\<rparr>) = fixed_part r"
  "fixed_part (r\<lparr>rv_decision_history := c5\<rparr>) = fixed_part r" "fixed_part (r\<lparr>rv_pending_constraint := p1\<rparr>) = fixed_part r"
  "fixed_part (r\<lparr>rv_pending_reason := p2\<rparr>) = fixed_part r" "fixed_part (r\<lparr>rv_backtrack_remaining := p3\<rparr>) = fixed_part r"
  "fixed_part (r\<lparr>rv_use_override_generation := p4\<rparr>) = fixed_part r" "fixed_part (r\<lparr>rv_dependency_path := p5\<rparr>) = fixed_part r"
  "fixed_part (r\<lparr>rv_undo_log_operations := p6\<rparr>) = fixed_part r"
  by (simp_all add: fixed_part_def)

lemmas setter_simps = return_simps maps_ok_def undo_logged_put undo_logged_delete undo_logged_other map_put_ok map_delete_ok

lemma keeps_owners: "keeps_logs r (setActionOwners r key owners)"
  unfolding setActionOwners_def
  by (rule keeps_logged [where f = "\<lambda>tx. tx\<lparr>tx_action_owners := log_undo key (rv_action_owners r) (tx_action_owners tx)\<rparr>"])
    (simp_all add: setter_simps)

lemma keeps_install: "m = map_put key v (rv_to_install r) \<or> m = map_delete key (rv_to_install r) \<Longrightarrow> keeps_logs r (log_install r key m)"
  unfolding log_install_def
  by (rule keeps_logged [where f = "\<lambda>tx. tx\<lparr>tx_install := log_undo key (rv_to_install r) (tx_install tx)\<rparr>"]) (auto simp: setter_simps)

lemma keeps_uninstall: "keeps_logs r (setUninstall r key v)"
  unfolding setUninstall_def
  by (rule keeps_logged [where f = "\<lambda>tx. tx\<lparr>tx_uninstall := log_undo key (rv_to_uninstall r) (tx_uninstall tx)\<rparr>"]) (simp_all add: setter_simps)

lemma keeps_seen: "m = map_put key v (rv_seen_deps r) \<or> m = map_delete key (rv_seen_deps r) \<Longrightarrow> keeps_logs r (log_seen_dep r key m)"
  unfolding log_seen_dep_def
  by (rule keeps_logged [where f = "\<lambda>tx. tx\<lparr>tx_seen_deps := log_undo key (rv_seen_deps r) (tx_seen_deps tx)\<rparr>"]) (auto simp: setter_simps)

lemma keeps_selected: "keeps_logs r (setSelectedCP r key)"
  unfolding setSelectedCP_def
  by (rule keeps_logged [where f = "\<lambda>tx. tx\<lparr>tx_selected_cps := log_undo key (rv_selected_cps r) (tx_selected_cps tx)\<rparr>"])
    (simp_all add: setter_simps)

lemma keeps_constraints: "keeps_logs r (setConstraints r key v)"
  unfolding setConstraints_def
  by (rule keeps_logged [where f = "\<lambda>tx. tx\<lparr>tx_constraints := log_undo key (rv_constraints r) (tx_constraints tx)\<rparr>"]) (simp_all add: setter_simps)

lemma keeps_causes: "keeps_logs r (setConstraintCauses r key v)"
  unfolding setConstraintCauses_def
  by (rule keeps_logged [where f = "\<lambda>tx. tx\<lparr>tx_constraint_causes := log_undo key (rv_constraint_causes r) (tx_constraint_causes tx)\<rparr>"])
    (simp_all add: setter_simps)

lemma keeps_overrides: "keeps_logs r (setUseOverride r key flag v)"
  unfolding setUseOverride_def Let_def
  by (rule keeps_logged [where f = "\<lambda>tx. tx\<lparr>tx_use_overrides := log_undo key (rv_use_overrides r) (tx_use_overrides tx)\<rparr>"])
    (simp_all add: setter_simps)

lemma keeps_changes: "keeps_logs r (setUseChangeSeen r key v)"
  unfolding setUseChangeSeen_def
  by (rule keeps_logged [where f = "\<lambda>tx. tx\<lparr>tx_use_change_seen := log_undo key (rv_use_change_seen r) (tx_use_change_seen tx)\<rparr>"])
    (simp_all add: setter_simps)

lemma keeps_mutation: "keeps_logs r (apply_mutation m r)"
proof (cases m)
  case (SetInstall key v)
  have "keeps_logs r (log_install r key (map_put key v (rv_to_install r)))" by (rule keeps_install [of _ _ v]) simp
  then show ?thesis using keeps_trans keeps_owners SetInstall by (auto simp: setInstall_def Let_def addActionOwner_def)
next
  case (DeleteInstall key)
  have "keeps_logs r (log_install r key (map_delete key (rv_to_install r)))" by (rule keeps_install) simp
  then show ?thesis using keeps_trans keeps_owners DeleteInstall by (auto simp: deleteInstall_def)
next
  case (SetSeenDep key v)
  then show ?thesis using keeps_seen [of _ key v r] by (simp add: setSeenDep_def)
next
  case (DeleteSeenDep key)
  then show ?thesis using keeps_seen [of _ key _ r] by (simp add: deleteSeenDep_def)
next
  case (ConsumeBacktrack d)
  have "keeps_logs r (r\<lparr>rv_backtrack_remaining := rv_backtrack_remaining r - 1, rv_decision_history := rv_decision_history r @ [d]\<rparr>)"
    by (rule keeps_plain) (simp_all add: return_simps maps_ok_def prefix_snoc)
  then show ?thesis using ConsumeBacktrack keeps_refl by (simp add: consumeBacktrack_def)
next
  case (RecordReplayChoice d)
  have "keeps_logs r (r\<lparr>rv_replay_choices := rv_replay_choices r @ [d]\<rparr>)"
    by (rule keeps_plain) (simp_all add: return_simps maps_ok_def prefix_snoc)
  then show ?thesis using RecordReplayChoice keeps_refl by (simp add: recordReplayChoice_def)
qed (auto intro!: keeps_plain simp: return_simps maps_ok_def prefix_snoc keeps_owners addActionOwner_def keeps_uninstall keeps_selected
  keeps_constraints keeps_causes keeps_overrides keeps_changes)

lemma returns_same_data: "returns_to tx (r\<lparr>rv_transactions := ts\<rparr>) b \<longleftrightarrow> returns_to tx r b"
  by (simp add: return_simps)

lemma maps_ok_transactions [simp]: "maps_ok (r\<lparr>rv_transactions := ts\<rparr>) = maps_ok r"
  by (simp add: maps_ok_def)

lemma logged_inner:
  assumes "logged f (fst (beginTransaction r1)) r3"
  shows "rv_transactions r3 = map f (rv_transactions r1) @ [f (new_transaction r1)]"
    and "maps_ok r1 \<Longrightarrow> maps_ok r3" "returns_to tx r1 b \<Longrightarrow> returns_to (f tx) r3 b"
    and "returns_to tx r1 b \<Longrightarrow> returns_to tx s b \<Longrightarrow> returns_to (f tx) s b" "returns_to (f (new_transaction r1)) r3 r1"
  using assms new_returns [of r1] by (auto simp: logged_def beginTransaction_def returns_same_data)

lemma rollback_inner:
  assumes "logged f (fst (beginTransaction r1)) r3" "maps_ok r1"
  shows "\<exists>generation operations. rollbackTransaction r3 (snd (beginTransaction r1)) = Some ((branch_state r1 r3)\<lparr>rv_transactions := map f (rv_transactions r1),
    rv_use_override_generation := generation, rv_undo_log_operations := operations\<rparr>)"
proof -
  note inner = logged_inner [OF assms(1)]
  let ?r = "r3\<lparr>rv_transactions := map f (rv_transactions r1)\<rparr>"
  have "returns_to (f (new_transaction r1)) ?r r1" using inner(5) by (simp add: returns_same_data)
  then obtain generation operations where "undo (f (new_transaction r1)) ?r =
      (branch_state r1 ?r)\<lparr>rv_use_override_generation := generation, rv_undo_log_operations := operations\<rparr>"
    using undo_returns [of "f (new_transaction r1)" ?r r1] inner(2) assms(2) by (metis maps_ok_transactions)
  then show ?thesis
    by (intro exI [of _ generation] exI [of _ operations])
      (simp add: rollbackTransaction_def inner(1) beginTransaction_def branch_state_def)
qed

lemma branch_keeps: "branch r r' \<Longrightarrow> maps_ok r \<Longrightarrow> keeps_logs r r'"
proof (induction rule: branch.induct)
  case (idle r)
  show ?case by (rule keeps_refl)
next
  case (mutate r r1 m)
  then show ?case using keeps_trans keeps_mutation by blast
next
  case (inner_commit r r1 r2 tx r3 r4)
  have begin_eq: "r2 = fst (beginTransaction r1)" "tx = snd (beginTransaction r1)" using inner_commit.hyps(2) by simp_all
  have "keeps_logs r r1" by (rule inner_commit.IH(1) [OF inner_commit.prems])
  then have "maps_ok r1" using inner_commit.prems by (auto simp: keeps_logs_def logged_def)
  then have "keeps_logs r2 r3" using inner_commit.IH(2) begin_eq by (simp add: beginTransaction_def)
  then obtain f where f: "logged f (fst (beginTransaction r1)) r3" by (auto simp: keeps_logs_def begin_eq)
  note inner = logged_inner [OF f]
  have "r4 = r3\<lparr>rv_transactions := map f (rv_transactions r1)\<rparr>"
    using inner_commit.hyps(4) inner(1) by (auto simp: commitTransaction_def split: if_splits)
  then have "logged f r1 r4" using inner by (simp add: logged_def returns_same_data)
  then show ?case using keeps_trans [OF \<open>keeps_logs r r1\<close>] by (auto simp: keeps_logs_def)
next
  case (inner_rollback r r1 r2 tx r3 r4)
  have begin_eq: "r2 = fst (beginTransaction r1)" "tx = snd (beginTransaction r1)" using inner_rollback.hyps(2) by simp_all
  have "keeps_logs r r1" by (rule inner_rollback.IH(1) [OF inner_rollback.prems])
  then have ok: "maps_ok r1" using inner_rollback.prems by (auto simp: keeps_logs_def logged_def)
  then have "keeps_logs r2 r3" using inner_rollback.IH(2) begin_eq by (simp add: beginTransaction_def)
  then obtain f where f: "logged f (fst (beginTransaction r1)) r3" by (auto simp: keeps_logs_def begin_eq)
  note inner = logged_inner [OF f]
  obtain generation operations where r4: "r4 = (branch_state r1 r3)\<lparr>rv_transactions := map f (rv_transactions r1),
      rv_use_override_generation := generation, rv_undo_log_operations := operations\<rparr>"
    using rollback_inner [OF f ok] inner_rollback.hyps(4) begin_eq by auto
  have same: "returns_to tx r4 b \<longleftrightarrow> returns_to tx r1 b" for tx b by (simp add: r4 branch_state_def return_simps)
  have "logged f r1 r4" unfolding logged_def same using inner(4) by (simp add: r4 maps_ok_def branch_state_def)
  then show ?case using keeps_trans [OF \<open>keeps_logs r r1\<close>] by (auto simp: keeps_logs_def)
qed

text \<open>
  Claim C4: rolling back a transaction restores the state in which it was opened, whatever the branch did in between: any
  sequence of setters, messages, backtracks and nested transactions, committed or rolled back. Every map, list and
  counter of the search has its old value; only the dependency path, which the callers maintain, the generation of the USE
  overrides and the count of undo operations are those of the branch. With no other transaction open none is left.
\<close>

theorem rollback_restores_state:
  assumes "maps_ok r" "beginTransaction r = (r1, tx)" "branch r1 r2"
  shows "\<exists>ts generation operations. rollbackTransaction r2 tx = Some (r\<lparr>rv_transactions := ts, rv_dependency_path := rv_dependency_path r2,
      rv_use_override_generation := generation, rv_undo_log_operations := operations\<rparr>) \<and> length ts = length (rv_transactions r)"
proof -
  have begin_eq: "r1 = fst (beginTransaction r)" "tx = snd (beginTransaction r)" using assms(2) by simp_all
  then have "maps_ok r1" using assms(1) by (simp add: beginTransaction_def)
  then have "keeps_logs r1 r2" by (rule branch_keeps [OF assms(3)])
  then obtain f where f: "logged f (fst (beginTransaction r)) r2" by (auto simp: keeps_logs_def begin_eq)
  obtain generation operations where "rollbackTransaction r2 tx = Some ((branch_state r r2)\<lparr>rv_transactions := map f (rv_transactions r),
      rv_use_override_generation := generation, rv_undo_log_operations := operations\<rparr>)"
    using rollback_inner [OF f assms(1)] begin_eq by auto
  then show ?thesis
    by (intro exI [of _ "map f (rv_transactions r)"] exI [of _ generation] exI [of _ operations]) (simp add: branch_state_def)
qed

theorem rollback_restores_state_witness:
  "\<exists>r1 tx r2 ts generation operations. beginTransaction (empty_resolver []) = (r1, tx) \<and> branch r1 r2 \<and> rv_seen_deps r2 = [(''a/lib'', True)] \<and>
     rollbackTransaction r2 tx = Some ((empty_resolver [])\<lparr>rv_transactions := ts, rv_dependency_path := rv_dependency_path r2,
       rv_use_override_generation := generation, rv_undo_log_operations := operations\<rparr>)"
proof -
  let ?r = "empty_resolver []"
  obtain r1 tx where start: "beginTransaction ?r = (r1, tx)" by force
  let ?a = "apply_mutation (SetSeenDep ''a/lib'' True) r1"
  let ?c = "apply_mutation (SetUninstall ''a/lib-1'' zero_pkg_action) (fst (beginTransaction ?a))"
  obtain r2 where r2: "commitTransaction ?c (snd (beginTransaction ?a)) = Some r2"
    by (simp add: commitTransaction_def beginTransaction_def setUninstall_def setSeenDep_def log_seen_dep_def)
  have "branch r1 r2" by (rule branch.inner_commit [OF branch.mutate [OF branch.idle] prod.collapse [symmetric] branch.mutate [OF branch.idle] r2])
  moreover have "rv_seen_deps r2 = [(''a/lib'', True)]"
    using r2 start by (auto simp: commitTransaction_def beginTransaction_def setUninstall_def setSeenDep_def log_seen_dep_def empty_resolver_def)
  moreover have "maps_ok ?r" by (simp add: maps_ok_def empty_resolver_def map_ok_def)
  ultimately show ?thesis using rollback_restores_state [OF _ start] start by blast
qed

subsection \<open>The ledger of backtracks\<close>

definition budget :: "resolver \<Rightarrow> int" where
  "budget r = rv_backtrack_remaining r + int (length (rv_decision_history r))"

definition decisions_distinct :: "resolver \<Rightarrow> bool" where
  "decisions_distinct r \<longleftrightarrow> distinct (map charge_key (rv_decision_history r))"

lemma mutation_budget:
  "budget (apply_mutation m r) = budget r \<and> (0 \<le> rv_backtrack_remaining r \<longrightarrow> 0 \<le> rv_backtrack_remaining (apply_mutation m r)) \<and>
   (decisions_distinct r \<longrightarrow> decisions_distinct (apply_mutation m r))"
  by (cases m) (auto simp: budget_def decisions_distinct_def consumeBacktrack_def recordReplayChoice_def setInstall_def log_install_def
    deleteInstall_def setActionOwners_def addActionOwner_def setUninstall_def setSeenDep_def deleteSeenDep_def log_seen_dep_def setSelectedCP_def
    setConstraints_def setConstraintCauses_def setUseOverride_def setUseChangeSeen_def Let_def list_ex_iff)

lemma begin_budget:
  "budget (fst (beginTransaction r)) = budget r" "rv_backtrack_remaining (fst (beginTransaction r)) = rv_backtrack_remaining r"
  "decisions_distinct (fst (beginTransaction r)) = decisions_distinct r" "maps_ok (fst (beginTransaction r)) = maps_ok r"
  by (simp_all add: budget_def decisions_distinct_def beginTransaction_def)

lemma branch_budget:
  "branch r r' \<Longrightarrow> maps_ok r \<Longrightarrow> budget r' = budget r \<and> (0 \<le> rv_backtrack_remaining r \<longrightarrow> 0 \<le> rv_backtrack_remaining r') \<and>
     (decisions_distinct r \<longrightarrow> decisions_distinct r')"
proof (induction rule: branch.induct)
  case (mutate r r1 m)
  then show ?case using mutation_budget [of m r1] by simp
next
  case (inner_commit r r1 r2 tx r3 r4)
  have begin_eq: "r2 = fst (beginTransaction r1)" using inner_commit.hyps(2) by simp
  have "keeps_logs r r1" by (rule branch_keeps [OF inner_commit.hyps(1) inner_commit.prems])
  then have "maps_ok r2" using inner_commit.prems by (auto simp: keeps_logs_def logged_def begin_eq begin_budget)
  moreover have "r4 = r3\<lparr>rv_transactions := butlast (rv_transactions r3)\<rparr>"
    using inner_commit.hyps(4) by (auto simp: commitTransaction_def split: if_splits)
  ultimately show ?case
    using inner_commit.IH inner_commit.prems begin_budget [of r1] by (simp add: begin_eq budget_def decisions_distinct_def)
next
  case (inner_rollback r r1 r2 tx r3 r4)
  have begin_eq: "r2 = fst (beginTransaction r1)" "tx = snd (beginTransaction r1)" using inner_rollback.hyps(2) by simp_all
  have "keeps_logs r r1" by (rule branch_keeps [OF inner_rollback.hyps(1) inner_rollback.prems])
  then have ok: "maps_ok r1" using inner_rollback.prems by (auto simp: keeps_logs_def logged_def)
  then have "keeps_logs r2 r3" by (intro branch_keeps [OF inner_rollback.hyps(3)]) (simp add: begin_eq begin_budget)
  then obtain f where f: "logged f (fst (beginTransaction r1)) r3" by (auto simp: keeps_logs_def begin_eq)
  obtain generation operations where "r4 = (branch_state r1 r3)\<lparr>rv_transactions := map f (rv_transactions r1),
      rv_use_override_generation := generation, rv_undo_log_operations := operations\<rparr>"
    using rollback_inner [OF f ok] inner_rollback.hyps(4) begin_eq by auto
  then show ?case using inner_rollback.IH(1) inner_rollback.prems by (simp add: budget_def decisions_distinct_def branch_state_def)
qed simp

text \<open>
  Claim C24: the ledger of backtracks equals the budget used in every branch: what remains of the budget and the number of recorded decisions
  add up to the same sum, the budget is never overdrawn, and no decision is recorded twice.
\<close>

theorem backtrack_ledger_exact:
  assumes "maps_ok r" "branch r r'" "0 \<le> rv_backtrack_remaining r" "rv_decision_history r = []"
  shows "int (length (rv_decision_history r')) = rv_backtrack_remaining r - rv_backtrack_remaining r' \<and> 0 \<le> rv_backtrack_remaining r' \<and>
    distinct (map charge_key (rv_decision_history r'))"
  using branch_budget [OF assms(2,1)] assms(3,4) by (simp add: budget_def decisions_distinct_def)

theorem backtrack_ledger_exact_witness:
  "\<exists>r'. branch ((empty_resolver [])\<lparr>rv_backtrack_remaining := 2\<rparr>) r' \<and> rv_backtrack_remaining r' = 1 \<and> length (rv_decision_history r') = 1"
proof -
  let ?r = "(empty_resolver [])\<lparr>rv_backtrack_remaining := 2\<rparr>"
  let ?d = "\<lparr>bd_kind = ''provider'', bd_key = ''k'', bd_from = ''a'', bd_to = ''b''\<rparr>"
  let ?r' = "apply_mutation (ConsumeBacktrack ?d) ?r"
  have run: "branch ?r ?r'" by (rule branch.mutate [OF branch.idle])
  have "rv_backtrack_remaining ?r' = 1" by (simp add: consumeBacktrack_def empty_resolver_def)
  moreover have "maps_ok ?r" by (simp add: maps_ok_def empty_resolver_def map_ok_def)
  then have "int (length (rv_decision_history ?r')) = 2 - rv_backtrack_remaining ?r'"
    using backtrack_ledger_exact [OF _ run] by (simp add: empty_resolver_def)
  ultimately show ?thesis using run by (intro exI [of _ ?r']) simp
qed

end
