(* ===== verification/Resolve_Search.thy ===== *)
theory Resolve_Search
  imports Resolve_Transaction
begin

text \<open>
  The outer loop of the resolver, \<^verbatim>\<open>ResolveContext\<close> of \<^verbatim>\<open>src/internal/resolve/resolve.go\<close>: it runs attempts under a budget of backtracks, and after a failed
  attempt replays it with the deepest choice that has an alternative not yet tried, in parallel when there are several jobs. Of one
  attempt (\<^verbatim>\<open>resolveAttempt\<close>) the start and the result are modelled; the work in between, which selects versions and processes dependencies, is
  an argument that is known to act on the resolver by setters and transactions only (\<open>branch\<close> of \<open>Resolve_Transaction\<close>). The loop
  carries fuel and returns \<open>None\<close> when that runs out; the budget plus one is enough.
\<close>

subsection \<open>Replay states\<close>

type_synonym overrides = "int gomap"

definition replay_entry :: "string \<times> int \<Rightarrow> string" where
  "replay_entry e = show_nat (length (fst e)) @ '':'' @ fst e @ ''='' @ Itoa (snd e) @ '';''"

definition replayStateKey :: "overrides \<Rightarrow> string" where
  \<comment> \<open>a map is kept in key order, so its keys need no sorting\<close>
  "replayStateKey overrides = concat (map replay_entry overrides)"

definition replay_label :: "replay_decision \<Rightarrow> int \<Rightarrow> string" where
  "replay_label d option =
     (case map_of (rd_labels d) option of
        None \<Rightarrow> ''alternative '' @ Itoa (option + 1)
      | Some label \<Rightarrow> if label \<noteq> [] then label else ''alternative '' @ Itoa (option + 1))"

definition later_options :: "replay_decision \<Rightarrow> int list" where
  \<comment> \<open>\<^verbatim>\<open>decision.order[position+1:]\<close>; nothing when the chosen option is not in the order\<close>
  "later_options d = tl (dropWhile (\<lambda>option. option \<noteq> rd_chosen d) (rd_order d))"

definition replay_prefix :: "replay_decision list \<Rightarrow> overrides" where
  "replay_prefix ancestors = foldl (\<lambda>m d. map_put (rd_dep_key d) (rd_chosen d) m) [] ancestors"

primrec next_from :: "nat \<Rightarrow> replay_decision list \<Rightarrow> string list \<Rightarrow> (replay_decision \<times> int \<times> overrides \<times> overrides) option" where
  \<comment> \<open>the loop over the decisions before a position, the deepest first\<close>
  "next_from 0 decisions visited = None"
| "next_from (Suc i) decisions visited =
     (let decision = decisions ! i; prefix = replay_prefix (take i decisions)
      in case find (\<lambda>option. replayStateKey (map_put (rd_dep_key decision) option prefix) \<notin> set visited) (later_options decision) of
           Some option \<Rightarrow> Some (decision, option, prefix, map_put (rd_dep_key decision) option prefix)
         | None \<Rightarrow> next_from i decisions visited)"

definition nextUnvisitedReplayState ::
  "replay_decision list \<Rightarrow> string list \<Rightarrow> (replay_decision \<times> int \<times> overrides \<times> overrides) option" where
  "nextUnvisitedReplayState decisions visited = next_from (length decisions) decisions visited"

subsection \<open>Results\<close>

record branch_evaluation =
  be_decision_key :: string
  be_option :: string
  be_outcome :: string
  be_backtrack_used :: int
  be_conflicts :: "string list"

record resolve_result =
  rr_install :: "pkg_action list"
  rr_uninstall :: "pkg_action list"
  rr_conflicts :: "string list"
  rr_backtrack_level :: int
  rr_decision_history :: "backtrack_decision list"
  rr_branch_evaluations :: "branch_evaluation list"
  rr_conflict_details :: "conflict_detail list"
  rr_decision_ledger :: decision_ledger
  rr_verified :: bool
  rr_incomplete :: bool
  rr_retry_choices :: "replay_decision list"

definition terminalVerificationFailure :: "resolve_result \<Rightarrow> bool" where
  "terminalVerificationFailure result \<longleftrightarrow>
     rr_conflicts result \<noteq> [] \<and> rr_conflict_details result \<noteq> [] \<and>
     list_all (\<lambda>detail. cd_kind detail = ''post-solve-verification'') (rr_conflict_details result)"

definition hasTerminalTargetConflict :: "string list \<Rightarrow> bool" where
  "hasTerminalTargetConflict conflicts =
     list_ex (\<lambda>conflict. contains_text conflict ''(world target)'' \<or> contains_text conflict ''(system target)'') conflicts"

type_synonym attempt = "int \<Rightarrow> bool \<Rightarrow> overrides \<Rightarrow> bool gomap \<Rightarrow> resolve_result option \<times> string option"

subsection \<open>One attempt\<close>

definition attempt_budget :: "int \<Rightarrow> bool \<Rightarrow> int" where
  "attempt_budget backtrack exactBacktrackBudget = (if backtrack \<le> 0 \<and> \<not> exactBacktrackBudget then 10 else backtrack)"

definition attempt_resolver :: "resolver \<Rightarrow> int \<Rightarrow> bool gomap \<Rightarrow> resolver" where
  \<comment> \<open>the new resolver of an attempt: graph and configuration are those of the search\<close>
  "attempt_resolver base allowed charged =
     base\<lparr>rv_only_deps_targets := [], rv_root_action_keys := [], rv_dependency_path := [], rv_charged_decisions := charged, rv_to_install := [],
       rv_to_uninstall := [], rv_seen_deps := [], rv_selected_cps := [], rv_constraints := [], rv_constraint_causes := [], rv_use_overrides := [],
       rv_use_change_seen := [], rv_action_owners := [], rv_conflicts := [], rv_warnings := [], rv_warning_diagnostics := [], rv_replay_choices := [],
       rv_pending_constraint := None, rv_pending_reason := [], rv_conflict_details := [], rv_backtrack_remaining := allowed,
       rv_decision_history := [], rv_use_override_generation := 0, rv_undo_log_operations := 0, rv_transactions := []\<rparr>"

type_synonym work = "overrides \<Rightarrow> resolver \<Rightarrow> (resolver \<times> resolve_result) option \<times> string option"

definition resolveAttempt :: "work \<Rightarrow> resolver \<Rightarrow> attempt" where
  \<comment> \<open>the argument \<open>work\<close> is what happens between the start and the result; a result reports the budget used and the decisions of its resolver\<close>
  "resolveAttempt work base backtrack exactBacktrackBudget choiceOverrides chargedDecisions =
     (let allowed = attempt_budget backtrack exactBacktrackBudget in
      case work choiceOverrides (attempt_resolver base allowed chargedDecisions) of
        (None, err) \<Rightarrow> (None, err)
      | (Some (r, result), err) \<Rightarrow>
          (Some (result\<lparr>rr_backtrack_level := allowed - rv_backtrack_remaining r, rr_decision_history := rv_decision_history r\<rparr>), err))"

subsection \<open>Parallel alternatives\<close>

definition replay_alternatives :: "replay_decision \<Rightarrow> int list" where
  "replay_alternatives decision = filter (\<lambda>option. option \<noteq> rd_chosen decision) (later_options decision)"

definition branch_outcome :: "attempt \<Rightarrow> overrides \<Rightarrow> bool gomap \<Rightarrow> replay_decision \<Rightarrow> int \<Rightarrow> int \<Rightarrow> resolve_result option \<times> string option" where
  \<comment> \<open>what a worker computes for an option, \<^verbatim>\<open>byOption[option]\<close>\<close>
  "branch_outcome attempt overrides charged decision allowance option =
     attempt (allowance - 1) False (map_put (rd_dep_key decision) option overrides) charged"

definition evaluation_of :: "replay_decision \<Rightarrow> int \<Rightarrow> resolve_result option \<times> string option \<Rightarrow> branch_evaluation" where
  "evaluation_of decision option outcome =
     (case outcome of
        (None, err) \<Rightarrow> \<lparr>be_decision_key = rd_dep_key decision, be_option = replay_label decision option, be_outcome = ''error'',
          be_backtrack_used = 0, be_conflicts = []\<rparr>
      | (Some result, err) \<Rightarrow> \<lparr>be_decision_key = rd_dep_key decision, be_option = replay_label decision option,
          be_outcome = (if rr_verified result \<and> err = None then ''verified'' else if err = None then ''conflict'' else ''error''),
          be_backtrack_used = rr_backtrack_level result, be_conflicts = rr_conflicts result\<rparr>)"

fun first_verified :: "int \<Rightarrow> nat \<Rightarrow> (int \<times> resolve_result option \<times> string option) list \<Rightarrow> (resolve_result \<times> int \<times> int) option" where
  \<comment> \<open>the last loop: the first verified alternative that the budget covers, counting the ones before it\<close>
  "first_verified allowance index [] = None"
| "first_verified allowance index ((option, None, err) # outcomes) = first_verified allowance (index + 1) outcomes"
| "first_verified allowance index ((option, Some result, err) # outcomes) =
     (let used = int index + 1 + rr_backtrack_level result
      in if err = None \<and> rr_verified result \<and> used \<le> allowance then Some (result, option, used)
         else first_verified allowance (index + 1) outcomes)"

definition speculateReplayAlternatives ::
  "attempt \<Rightarrow> overrides \<Rightarrow> bool gomap \<Rightarrow> replay_decision \<Rightarrow> int \<Rightarrow> (resolve_result \<times> int \<times> int \<times> branch_evaluation list) option" where
  "speculateReplayAlternatives attempt overrides charged decision allowance =
     (let alternatives = replay_alternatives decision in
      if length alternatives < 2 \<or> allowance \<le> 1 then None
      else let outcomes = map (\<lambda>option. (option, branch_outcome attempt overrides charged decision allowance option)) alternatives
        in map_option (\<lambda>(result, option, used). (result, option, used, map (\<lambda>(option, outcome). evaluation_of decision option outcome) outcomes))
             (first_verified allowance 0 outcomes))"

subsection \<open>The loop\<close>

record search_state =
  se_overrides :: overrides
  se_charged :: "bool gomap"
  se_visited :: "string list"
  se_history :: "backtrack_decision list"
  se_remaining :: int

definition rewind :: "replay_decision \<Rightarrow> int \<Rightarrow> backtrack_decision" where
  "rewind decision option =
     \<lparr>bd_kind = ''conflict-rewind'', bd_key = rd_dep_key decision, bd_from = replay_label decision (rd_chosen decision),
      bd_to = replay_label decision option\<rparr>"

definition conclude :: "int \<Rightarrow> int \<Rightarrow> backtrack_decision list \<Rightarrow> resolve_result \<Rightarrow> resolve_result" where
  "conclude limit remaining history result = result\<lparr>rr_backtrack_level := limit - remaining, rr_decision_history := history\<rparr>"

type_synonym outcome = "resolve_result option \<times> string option"

definition charge :: "backtrack_decision list \<Rightarrow> bool gomap \<Rightarrow> bool gomap" where
  "charge decisions charged = foldl (\<lambda>m d. map_put (charge_key d) True m) charged decisions"

definition search_step :: "attempt \<Rightarrow> bool \<Rightarrow> int \<Rightarrow> int \<Rightarrow> search_state \<Rightarrow> outcome + search_state" where
  \<comment> \<open>one iteration: \<open>Inl\<close> is what the loop returns, \<open>Inr\<close> the state of the next iteration\<close>
  "search_step attempt complete_graph jobs limit st =
     (let visited = replayStateKey (se_overrides st) # se_visited st in
      case attempt (se_remaining st) True (se_overrides st) (se_charged st) of
        (None, err) \<Rightarrow> Inl (None, err)
      | (Some result, err) \<Rightarrow>
          if rr_incomplete result then Inl (Some result, None)
          else
            let remaining = se_remaining st - rr_backtrack_level result;
                history = se_history st @ rr_decision_history result;
                charged = charge (rr_decision_history result) (se_charged st);
                final = conclude limit remaining history result
            in if err = None \<and> (rr_verified result \<or> rr_conflicts result = []) then Inl (Some final, None)
               else if hasTerminalTargetConflict (rr_conflicts result) then Inl (Some final, None)
               else if \<not> complete_graph \<and> terminalVerificationFailure result then Inl (Some final, None)
               else if remaining \<le> 0 then Inl (Some final, err)
               else case nextUnvisitedReplayState (rr_retry_choices result) visited of
                   None \<Rightarrow> Inl (Some final, err)
                 | Some (decision, next, prefix, nextOverrides) \<Rightarrow>
                     (case (if jobs > 1 then speculateReplayAlternatives attempt prefix charged decision remaining else None) of
                        Some (speculative, chosen, used, evaluations) \<Rightarrow>
                          Inl (Some ((conclude limit (remaining - used) (history @ [rewind decision chosen] @ rr_decision_history speculative) speculative)
                            \<lparr>rr_branch_evaluations := evaluations @ rr_branch_evaluations speculative\<rparr>), None)
                      | None \<Rightarrow>
                          Inr \<lparr>se_overrides = nextOverrides, se_charged = charged, se_visited = visited,
                            se_history = history @ [rewind decision next], se_remaining = remaining - 1\<rparr>))"

primrec search_loop :: "nat \<Rightarrow> attempt \<Rightarrow> bool \<Rightarrow> int \<Rightarrow> int \<Rightarrow> search_state \<Rightarrow> outcome option" where
  "search_loop 0 attempt complete_graph jobs limit st = None"
| "search_loop (Suc fuel) attempt complete_graph jobs limit st =
     (case search_step attempt complete_graph jobs limit st of
        Inl outcome \<Rightarrow> Some outcome
      | Inr st' \<Rightarrow> search_loop fuel attempt complete_graph jobs limit st')"

definition search_limit :: "int \<Rightarrow> int" where
  "search_limit backtrack = (if backtrack \<le> 0 then 10 else backtrack)"

definition ResolveContext :: "attempt \<Rightarrow> bool \<Rightarrow> int \<Rightarrow> int \<Rightarrow> outcome option" where
  "ResolveContext attempt complete_graph jobs backtrack =
     (let limit = search_limit backtrack
      in search_loop (nat limit + 1) attempt complete_graph jobs limit
           \<lparr>se_overrides = [], se_charged = [], se_visited = [], se_history = [], se_remaining = limit\<rparr>)"

subsection \<open>Keys identify states\<close>

lemma cut_at: "c \<notin> set a \<Longrightarrow> c \<notin> set b \<Longrightarrow> a @ c # x = b @ c # y \<longleftrightarrow> a = b \<and> x = y"
  by (induction a arbitrary: b; case_tac b) auto

lemma not_digits: "\<not> is_digit CHR '':''" "\<not> is_digit CHR '';''" "\<not> is_digit CHR ''-''"
  by code_simp+

lemma show_nat_no: "\<not> is_digit c \<Longrightarrow> c \<notin> set (show_nat n)"
  using show_nat_digits [of n] by (auto simp: list_all_iff)

lemma show_nat_inject: "show_nat m = show_nat n \<longleftrightarrow> m = n"
  using nat_of_show by metis

lemma Itoa_no: "\<not> is_digit c \<Longrightarrow> c \<noteq> CHR ''-'' \<Longrightarrow> c \<notin> set (Itoa i)"
  by (simp add: Itoa_def show_nat_no)

lemma Itoa_inject: "Itoa i = Itoa j \<longleftrightarrow> i = j"
proof -
  have minus: "CHR ''-'' # s \<noteq> show_nat n" for s n
    using show_nat_no [OF not_digits(3), of n] by (metis list.set_intros(1))
  show ?thesis using minus minus [symmetric] by (auto simp: Itoa_def show_nat_inject)
qed

lemma replay_entry_cut: "replay_entry (k, v) @ x = replay_entry (k', v') @ y \<longleftrightarrow> k = k' \<and> v = v' \<and> x = y"
proof
  assume eq: "replay_entry (k, v) @ x = replay_entry (k', v') @ y"
  have "show_nat (length k) @ CHR '':'' # (k @ ''='' @ Itoa v @ '';'' @ x) = show_nat (length k') @ CHR '':'' # (k' @ ''='' @ Itoa v' @ '';'' @ y)"
    using eq by (simp add: replay_entry_def)
  then have "show_nat (length k) = show_nat (length k') \<and> k @ ''='' @ Itoa v @ '';'' @ x = k' @ ''='' @ Itoa v' @ '';'' @ y"
    by (subst (asm) cut_at) (simp_all add: show_nat_no not_digits)
  then have "k = k'" and rest: "Itoa v @ CHR '';'' # x = Itoa v' @ CHR '';'' # y" by (auto simp: show_nat_inject)
  moreover have "Itoa v = Itoa v' \<and> x = y" using rest by (subst (asm) cut_at) (simp_all add: Itoa_no not_digits)
  ultimately show "k = k' \<and> v = v' \<and> x = y" by (simp add: Itoa_inject)
qed simp

lemma replay_key_inject: "replayStateKey a = replayStateKey b \<longleftrightarrow> a = b"
proof
  assume "replayStateKey a = replayStateKey b"
  then show "a = b"
    unfolding replayStateKey_def
  proof (induction a arbitrary: b)
    case Nil
    then show ?case by (cases b) (auto simp: replay_entry_def)
  next
    case (Cons e a)
    obtain e' b' where b: "b = e' # b'" using Cons.prems by (cases b) (auto simp: replay_entry_def)
    obtain k v k' v' where e: "e = (k, v)" "e' = (k', v')" by force
    have "replay_entry (k, v) @ concat (map replay_entry a) = replay_entry (k', v') @ concat (map replay_entry b')" using Cons.prems b e by simp
    then show ?case using Cons.IH [of b'] b e unfolding replay_entry_cut by simp
  qed
qed simp

subsection \<open>The next state\<close>

definition replay_state :: "replay_decision list \<Rightarrow> nat \<Rightarrow> int \<Rightarrow> overrides" where
  \<comment> \<open>the choices above a decision, and another option for it\<close>
  "replay_state decisions i option = map_put (rd_dep_key (decisions ! i)) option (replay_prefix (take i decisions))"

definition exhausted :: "replay_decision list \<Rightarrow> string list \<Rightarrow> nat \<Rightarrow> bool" where
  "exhausted decisions visited i \<longleftrightarrow> (\<forall>option \<in> set (later_options (decisions ! i)). replayStateKey (replay_state decisions i option) \<in> set visited)"

lemma next_from_exact:
  "case next_from n decisions visited of
     None \<Rightarrow> \<forall>i < n. exhausted decisions visited i
   | Some (decision, option, prefix, state) \<Rightarrow> \<exists>i < n. decision = decisions ! i \<and> option \<in> set (later_options decision) \<and>
       prefix = replay_prefix (take i decisions) \<and> state = replay_state decisions i option \<and> replayStateKey state \<notin> set visited \<and>
       (\<forall>j. i < j \<longrightarrow> j < n \<longrightarrow> exhausted decisions visited j)"
proof (induction n)
  case (Suc n)
  let ?fresh = "\<lambda>option. replayStateKey (map_put (rd_dep_key (decisions ! n)) option (replay_prefix (take n decisions))) \<notin> set visited"
  show ?case
  proof (cases "find ?fresh (later_options (decisions ! n))")
    case None
    then have here: "exhausted decisions visited n" by (auto simp: find_None_iff exhausted_def replay_state_def)
    have "next_from (Suc n) decisions visited = next_from n decisions visited" using None by (simp add: Let_def)
    then show ?thesis using Suc.IH here by (cases "next_from n decisions visited") (auto simp: less_Suc_eq)
  next
    case (Some option)
    have "option \<in> set (later_options (decisions ! n))" "?fresh option" using Some by (auto simp: find_Some_iff)
    then show ?thesis using Some by (auto simp: Let_def replay_state_def intro!: exI [of _ n])
  qed
qed simp

subsection \<open>The run\<close>

definition search_start :: "int \<Rightarrow> search_state" where
  "search_start limit = \<lparr>se_overrides = [], se_charged = [], se_visited = [], se_history = [], se_remaining = limit\<rparr>"

definition speculated :: "int \<Rightarrow> overrides \<Rightarrow> replay_decision \<Rightarrow> int \<Rightarrow> overrides list" where
  \<comment> \<open>the forced choices of the attempts that \<^verbatim>\<open>speculateReplayAlternatives\<close> makes in an iteration\<close>
  "speculated jobs prefix decision remaining =
     (if jobs \<le> 1 \<or> length (replay_alternatives decision) < 2 \<or> remaining \<le> 1 then []
      else map (\<lambda>option. map_put (rd_dep_key decision) option prefix) (replay_alternatives decision))"

definition step_speculated :: "attempt \<Rightarrow> int \<Rightarrow> search_state \<Rightarrow> overrides list" where
  \<comment> \<open>the parallel attempts of an iteration that goes on to the next\<close>
  "step_speculated attempt jobs st =
     (case attempt (se_remaining st) True (se_overrides st) (se_charged st) of
        (None, err) \<Rightarrow> []
      | (Some result, err) \<Rightarrow>
          (case nextUnvisitedReplayState (rr_retry_choices result) (replayStateKey (se_overrides st) # se_visited st) of
             None \<Rightarrow> []
           | Some (decision, option, prefix, overrides) \<Rightarrow> speculated jobs prefix decision (se_remaining st - rr_backtrack_level result)))"

inductive searches :: "attempt \<Rightarrow> bool \<Rightarrow> int \<Rightarrow> int \<Rightarrow> overrides list \<Rightarrow> overrides list \<Rightarrow> search_state \<Rightarrow> bool"
  for attempt complete_graph jobs limit where
  \<comment> \<open>the choices that were forced in the attempts of the loop and in the parallel attempts, and the state before the next attempt\<close>
  start: "searches attempt complete_graph jobs limit [] [] (search_start limit)"
| next_attempt: "searches attempt complete_graph jobs limit tried extra st \<Longrightarrow> search_step attempt complete_graph jobs limit st = Inr st' \<Longrightarrow>
    searches attempt complete_graph jobs limit (se_overrides st # tried) (step_speculated attempt jobs st @ extra) st'"

lemma step_next:
  assumes "search_step attempt complete_graph jobs limit st = Inr st'"
  obtains result err decision option prefix where "attempt (se_remaining st) True (se_overrides st) (se_charged st) = (Some result, err)"
    "se_visited st' = replayStateKey (se_overrides st) # se_visited st" "0 < se_remaining st - rr_backtrack_level result"
    "se_remaining st' = se_remaining st - rr_backtrack_level result - 1" "se_history st' = se_history st @ rr_decision_history result @ [rewind decision option]"
    "nextUnvisitedReplayState (rr_retry_choices result) (se_visited st') = Some (decision, option, prefix, se_overrides st')"
proof -
  obtain result err where att: "attempt (se_remaining st) True (se_overrides st) (se_charged st) = (Some result, err)"
    using assms unfolding search_step_def Let_def by (cases "attempt (se_remaining st) True (se_overrides st) (se_charged st)") (auto split: option.splits)
  show thesis
    using assms that [OF att] unfolding search_step_def Let_def att
    by (auto split: if_splits option.splits simp: not_le)
qed

lemma sequential_speculates_nothing: "jobs \<le> 1 \<Longrightarrow> step_speculated attempt jobs st = []"
  by (auto simp: step_speculated_def speculated_def split: prod.splits option.splits)

lemma searches_visited:
  "searches attempt complete_graph jobs limit tried extra st \<Longrightarrow>
   se_visited st = map replayStateKey tried \<and> distinct (se_overrides st # tried) \<and> (jobs \<le> 1 \<longrightarrow> extra = [])"
proof (induction rule: searches.induct)
  case start
  show ?case by (simp add: search_start_def)
next
  case (next_attempt tried extra st st')
  from next_attempt.hyps(2) obtain result :: resolve_result and decision option prefix where
    visited: "se_visited st' = replayStateKey (se_overrides st) # se_visited st"
    and fresh: "nextUnvisitedReplayState (rr_retry_choices result) (se_visited st') = Some (decision, option, prefix, se_overrides st')"
    by (rule step_next) blast
  have "replayStateKey (se_overrides st') \<notin> set (se_visited st')"
    using next_from_exact [of "length (rr_retry_choices result)" "rr_retry_choices result" "se_visited st'"] fresh
    by (auto simp: nextUnvisitedReplayState_def)
  then show ?case using next_attempt.IH visited by (auto simp: replay_key_inject sequential_speculates_nothing)
qed

definition attempt_ok :: "attempt \<Rightarrow> bool" where
  \<comment> \<open>the ledger of one attempt is the budget it used\<close>
  "attempt_ok attempt \<longleftrightarrow> (\<forall>allowance exact overrides charged result err. 0 \<le> allowance \<longrightarrow> exact \<or> 0 < allowance \<longrightarrow>
     attempt allowance exact overrides charged = (Some result, err) \<longrightarrow>
     rr_backtrack_level result = int (length (rr_decision_history result)) \<and> rr_backtrack_level result \<le> allowance)"

lemma attempt_okD:
  assumes "attempt_ok attempt" "attempt allowance exact overrides charged = (Some result, err)" "0 \<le> allowance" "exact \<or> 0 < allowance"
  shows "rr_backtrack_level result = int (length (rr_decision_history result))" "rr_backtrack_level result \<le> allowance"
  using assms unfolding attempt_ok_def by blast+

lemma resolveAttempt_ok:
  assumes "\<And>overrides r r' result err. work overrides r = (Some (r', result), err) \<Longrightarrow> branch r r'"
  shows "attempt_ok (resolveAttempt work base)"
  unfolding attempt_ok_def
proof (intro allI impI)
  fix allowance exact overrides charged result err
  assume allowance: "0 \<le> allowance" "exact \<or> 0 < allowance" and result: "resolveAttempt work base allowance exact overrides charged = (Some result, err)"
  let ?r = "attempt_resolver base allowance charged"
  have "attempt_budget allowance exact = allowance" using allowance by (auto simp: attempt_budget_def)
  then obtain r' result' where run: "work overrides ?r = (Some (r', result'), err)"
    and level: "rr_backtrack_level result = allowance - rv_backtrack_remaining r'" "rr_decision_history result = rv_decision_history r'"
    using result by (auto simp: resolveAttempt_def Let_def split: prod.splits option.splits)
  have "maps_ok ?r" by (simp add: maps_ok_def attempt_resolver_def map_ok_def)
  then have "budget r' = budget ?r" "0 \<le> rv_backtrack_remaining r'"
    using branch_budget [OF assms [OF run]] allowance by (simp_all add: attempt_resolver_def)
  then show "rr_backtrack_level result = int (length (rr_decision_history result)) \<and> rr_backtrack_level result \<le> allowance"
    using level by (simp add: budget_def attempt_resolver_def)
qed

definition ledger_within :: "int \<Rightarrow> search_state \<Rightarrow> bool" where
  "ledger_within limit st \<longleftrightarrow> 0 \<le> se_remaining st \<and> se_remaining st = limit - int (length (se_history st))"

definition outcome_ok :: "int \<Rightarrow> int \<Rightarrow> outcome \<Rightarrow> bool" where
  "outcome_ok jobs limit outcome \<longleftrightarrow> (case fst outcome of
     None \<Rightarrow> True
   | Some result \<Rightarrow> int (length (rr_decision_history result)) \<le> rr_backtrack_level result \<and>
       rr_backtrack_level result \<le> limit \<and> (jobs \<le> 1 \<longrightarrow> rr_backtrack_level result = int (length (rr_decision_history result))))"

lemma first_verified_result:
  "first_verified allowance index outcomes = Some (result, option, used) \<Longrightarrow>
   \<exists>err i. (option, Some result, err) \<in> set outcomes \<and> used = int i + 1 + rr_backtrack_level result \<and> used \<le> allowance"
proof (induction allowance index outcomes rule: first_verified.induct)
  case (3 allowance index opt res err outcomes)
  then show ?case by (auto simp: Let_def split: if_splits)
qed auto

lemma speculation_result:
  assumes "speculateReplayAlternatives attempt overrides charged decision allowance = Some (result, option, used, evaluations)" "attempt_ok attempt"
  shows "int (length (rr_decision_history result)) + 1 \<le> used \<and> used \<le> allowance"
proof -
  have allow: "1 < allowance" using assms(1) by (auto simp: speculateReplayAlternatives_def Let_def split: if_splits)
  obtain outcomes where outcomes: "outcomes = map (\<lambda>option. (option, branch_outcome attempt overrides charged decision allowance option)) (replay_alternatives decision)"
    and found: "first_verified allowance 0 outcomes = Some (result, option, used)"
    using assms(1) by (auto simp: speculateReplayAlternatives_def Let_def split: if_splits)
  obtain err i where member: "(option, Some result, err) \<in> set outcomes" and used: "used = int i + 1 + rr_backtrack_level result" "used \<le> allowance"
    using first_verified_result [OF found] by blast
  have "attempt (allowance - 1) False (map_put (rd_dep_key decision) option overrides) charged = (Some result, err)"
    using member by (auto simp: outcomes branch_outcome_def)
  then have "rr_backtrack_level result = int (length (rr_decision_history result))" using attempt_okD [OF assms(2)] allow by fastforce
  then show ?thesis using used by simp
qed

lemma step_done:
  assumes "search_step attempt complete_graph jobs limit st = Inl outcome"
    "attempt (se_remaining st) True (se_overrides st) (se_charged st) = (Some result, err)"
  defines "remaining \<equiv> se_remaining st - rr_backtrack_level result" and "history \<equiv> se_history st @ rr_decision_history result"
  shows "rr_incomplete result \<and> outcome = (Some result, None) \<or> (\<exists>e. outcome = (Some (conclude limit remaining history result), e)) \<or>
    (\<exists>decision prefix speculative chosen used evaluations. 1 < jobs \<and>
       speculateReplayAlternatives attempt prefix (charge (rr_decision_history result) (se_charged st)) decision remaining =
         Some (speculative, chosen, used, evaluations) \<and>
       outcome = (Some ((conclude limit (remaining - used) (history @ [rewind decision chosen] @ rr_decision_history speculative) speculative)
         \<lparr>rr_branch_evaluations := evaluations @ rr_branch_evaluations speculative\<rparr>), None))"
proof (cases "nextUnvisitedReplayState (rr_retry_choices result) (replayStateKey (se_overrides st) # se_visited st)")
  case None
  then show ?thesis using assms(1) unfolding search_step_def Let_def assms(2) remaining_def history_def by (auto split: if_splits)
next
  case (Some choice)
  obtain decision following prefix overrides where choice: "choice = (decision, following, prefix, overrides)" by (cases choice) auto
  let ?spec = "if jobs > 1 then speculateReplayAlternatives attempt prefix (charge (rr_decision_history result) (se_charged st)) decision remaining else None"
  show ?thesis
  proof (cases ?spec)
    case None
    then show ?thesis
      using assms(1) Some unfolding search_step_def Let_def assms(2) choice remaining_def history_def by (auto split: if_splits)
  next
    case spec: (Some found)
    obtain speculative chosen used evaluations where found: "found = (speculative, chosen, used, evaluations)" by (cases found) auto
    have jobs: "1 < jobs" "speculateReplayAlternatives attempt prefix (charge (rr_decision_history result) (se_charged st)) decision remaining =
        Some (speculative, chosen, used, evaluations)" using spec found by (auto split: if_splits)
    then have "rr_incomplete result \<and> outcome = (Some result, None) \<or> (\<exists>e. outcome = (Some (conclude limit remaining history result), e)) \<or>
        outcome = (Some ((conclude limit (remaining - used) (history @ [rewind decision chosen] @ rr_decision_history speculative) speculative)
          \<lparr>rr_branch_evaluations := evaluations @ rr_branch_evaluations speculative\<rparr>), None)"
      using assms(1) Some unfolding search_step_def Let_def assms(2) choice remaining_def history_def by (auto split: if_splits)
    then show ?thesis using jobs by blast
  qed
qed

lemma search_step_ledger:
  assumes "attempt_ok attempt" "ledger_within limit st"
  shows "case search_step attempt complete_graph jobs limit st of
    Inl outcome \<Rightarrow> outcome_ok jobs limit outcome | Inr st' \<Rightarrow> ledger_within limit st' \<and> se_remaining st' < se_remaining st"
proof (cases "attempt (se_remaining st) True (se_overrides st) (se_charged st)")
  case (Pair res err)
  show ?thesis
  proof (cases res)
    case None
    then show ?thesis using Pair by (simp add: search_step_def Let_def outcome_ok_def)
  next
    case (Some result)
    let ?remaining = "se_remaining st - rr_backtrack_level result" and ?history = "se_history st @ rr_decision_history result"
    have level: "rr_backtrack_level result = int (length (rr_decision_history result))" "rr_backtrack_level result \<le> se_remaining st"
      using attempt_okD [OF assms(1) Pair [unfolded Some]] assms(2) by (auto simp: ledger_within_def)
    have rest: "0 \<le> ?remaining" "?remaining = limit - int (length ?history)" "?remaining \<le> se_remaining st"
      using level assms(2) by (simp_all add: ledger_within_def)
    have final: "outcome_ok jobs limit (Some (conclude limit ?remaining ?history result), e)" for e
      using rest by (simp add: outcome_ok_def conclude_def)
    have incomplete: "outcome_ok jobs limit (Some result, None)" using level rest(2) assms(2) by (simp add: outcome_ok_def ledger_within_def)
    show ?thesis
    proof (cases "search_step attempt complete_graph jobs limit st")
      case (Inr st')
      then obtain result' err' decision option where step: "attempt (se_remaining st) True (se_overrides st) (se_charged st) = (Some result', err')"
        "0 < se_remaining st - rr_backtrack_level result'" "se_remaining st' = se_remaining st - rr_backtrack_level result' - 1"
        "se_history st' = se_history st @ rr_decision_history result' @ [rewind decision option]"
        by (rule step_next)
      then have "result' = result" using Pair Some by simp
      then show ?thesis using Inr step rest by (simp add: ledger_within_def)
    next
      case (Inl outcome)
      from step_done [OF Inl Pair [unfolded Some]] show ?thesis
      proof (elim disjE exE conjE)
        fix decision prefix speculative chosen used evaluations
        assume spec: "1 < jobs" "speculateReplayAlternatives attempt prefix (charge (rr_decision_history result) (se_charged st)) decision ?remaining =
            Some (speculative, chosen, used, evaluations)"
          "outcome = (Some ((conclude limit (?remaining - used) (?history @ [rewind decision chosen] @ rr_decision_history speculative) speculative)
            \<lparr>rr_branch_evaluations := evaluations @ rr_branch_evaluations speculative\<rparr>), None)"
        then show ?thesis using Inl speculation_result [OF spec(2) assms(1)] rest by (simp add: outcome_ok_def conclude_def)
      qed (use Inl final incomplete in auto)
    qed
  qed
qed

lemma search_loop_returns:
  assumes "attempt_ok attempt" "ledger_within limit st" "nat (se_remaining st) < fuel"
  shows "\<exists>outcome. search_loop fuel attempt complete_graph jobs limit st = Some outcome \<and> outcome_ok jobs limit outcome"
  using assms(2,3)
proof (induction fuel arbitrary: st)
  case (Suc fuel)
  note step = search_step_ledger [OF assms(1) Suc.prems(1), where complete_graph = complete_graph and jobs = jobs]
  show ?case
  proof (cases "search_step attempt complete_graph jobs limit st")
    case (Inl outcome)
    then show ?thesis using step by simp
  next
    case (Inr st')
    then have next_ok: "ledger_within limit st'" "se_remaining st' < se_remaining st" using step by simp_all
    then have "nat (se_remaining st') < fuel" using Suc.prems(2) unfolding ledger_within_def by linarith
    then show ?thesis using Suc.IH [OF next_ok(1)] Inr by simp
  qed
qed simp

subsection \<open>Properties\<close>

definition example_decision :: replay_decision where
  "example_decision = \<lparr>rd_kind = ''version'', rd_dep_key = ''a/lib'', rd_chosen = 0, rd_order = [0, 1, 2], rd_labels = []\<rparr>"

definition example_result :: "bool \<Rightarrow> resolve_result" where
  "example_result ok =
     \<lparr>rr_install = [], rr_uninstall = [], rr_conflicts = (if ok then [] else [''no version'']), rr_backtrack_level = 0, rr_decision_history = [],
      rr_branch_evaluations = [], rr_conflict_details = [], rr_decision_ledger = zero_ledger, rr_verified = ok, rr_incomplete = False, rr_retry_choices = [example_decision]\<rparr>"

definition example_work :: work where
  \<comment> \<open>only the last of three versions can be installed, and the choice of another provider costs a backtrack\<close>
  "example_work overrides r =
     (let r' = fst (consumeBacktrack r \<lparr>bd_kind = ''provider'', bd_key = ''v'', bd_from = ''a'', bd_to = ''b''\<rparr>)
      in (Some (r', example_result (map_of overrides ''a/lib'' = Some 2)), None))"

definition example_attempt :: attempt where
  "example_attempt = resolveAttempt example_work (empty_resolver [])"

lemma example_work_branches: "example_work overrides r = (Some (r', result), err) \<Longrightarrow> branch r r'"
  using branch.mutate [OF branch.idle, of r "ConsumeBacktrack \<lparr>bd_kind = ''provider'', bd_key = ''v'', bd_from = ''a'', bd_to = ''b''\<rparr>"]
  by (auto simp: example_work_def Let_def)

text \<open>The key of a replay state identifies it: two maps of forced choices have the same key only if they are equal.\<close>

theorem replay_state_key_exact: "replayStateKey a = replayStateKey b \<longleftrightarrow> a = b"
  by (rule replay_key_inject)

text \<open>
  Claim C25: the next state to replay is exact: one is found precisely when some decision has a later option whose state has not been
  visited; it keeps the choices above that decision, takes such an option for it, has not been visited, and no
  deeper decision has an option left.
\<close>

theorem next_replay_state_exact:
  "case nextUnvisitedReplayState decisions visited of
     None \<Rightarrow> \<forall>i < length decisions. exhausted decisions visited i
   | Some (decision, option, prefix, state) \<Rightarrow> \<exists>i < length decisions. decision = decisions ! i \<and> option \<in> set (later_options decision) \<and>
       prefix = replay_prefix (take i decisions) \<and> state = map_put (rd_dep_key decision) option prefix \<and> replayStateKey state \<notin> set visited \<and>
       (\<forall>j. i < j \<longrightarrow> j < length decisions \<longrightarrow> exhausted decisions visited j)"
  using next_from_exact [of "length decisions" decisions visited] unfolding nextUnvisitedReplayState_def replay_state_def
  by (auto split: option.split)

theorem next_replay_state_exact_witness:
  "\<exists>option prefix state. nextUnvisitedReplayState [example_decision] [replayStateKey [(''a/lib'', 1)]] = Some (example_decision, option, prefix, state) \<and>
     replayStateKey state \<noteq> replayStateKey [(''a/lib'', 1)] \<and> option \<in> set (later_options example_decision)"
proof -
  have "nextUnvisitedReplayState [example_decision] [replayStateKey [(''a/lib'', 1)]] = Some (example_decision, 2, [], [(''a/lib'', 2)])" by code_simp
  then show ?thesis using next_replay_state_exact [of "[example_decision]" "[replayStateKey [(''a/lib'', 1)]]"] by auto
qed

text \<open>
  Claim C19: the loop of the search never repeats itself: the choices that are forced in each of its attempts differ from those of all its attempts
  before. With one job these are all the attempts there are; with several jobs the alternatives of a decision are also attempted in parallel,
  and the loop may attempt one of them again.
\<close>

theorem search_never_repeats:
  assumes "searches attempt complete_graph jobs limit tried extra st"
  shows "distinct (se_overrides st # tried) \<and> (jobs \<le> 1 \<longrightarrow> extra = [])"
  using searches_visited [OF assms] by blast

theorem search_never_repeats_witness:
  "\<exists>tried st. searches example_attempt True 1 10 tried [] st \<and> length tried = 1 \<and> distinct (se_overrides st # tried)"
proof -
  have "\<not> isl (search_step example_attempt True 1 10 (search_start 10))" by code_simp
  then obtain st where "search_step example_attempt True 1 10 (search_start 10) = Inr st" by (cases "search_step example_attempt True 1 10 (search_start 10)") simp_all
  then have run: "searches example_attempt True 1 10 [se_overrides (search_start 10)] (step_speculated example_attempt 1 (search_start 10) @ []) st"
    by (rule searches.next_attempt [OF searches.start])
  then show ?thesis using search_never_repeats [OF run] by (intro exI [of _ "[se_overrides (search_start 10)]"] exI [of _ st]) simp
qed

text \<open>With two jobs and no alternative that works, the loop goes on with choices that were attempted in parallel before.\<close>

lemma parallel_attempt_repeated:
  "\<exists>tried extra st. searches (\<lambda>allowance exact overrides charged. (Some (example_result False), None)) True 2 10 tried extra st \<and> se_overrides st \<in> set extra"
proof -
  let ?attempt = "\<lambda>allowance exact overrides charged. (Some (example_result False), None)"
  have "case search_step ?attempt True 2 10 (search_start 10) of
      Inl outcome \<Rightarrow> False | Inr st \<Rightarrow> se_overrides st \<in> set (step_speculated ?attempt 2 (search_start 10))" by code_simp
  then obtain st where st: "search_step ?attempt True 2 10 (search_start 10) = Inr st"
    "se_overrides st \<in> set (step_speculated ?attempt 2 (search_start 10))" by (auto split: sum.splits)
  show ?thesis using searches.next_attempt [OF searches.start st(1)] st(2) by auto
qed



text \<open>
  With several jobs the ledger may be shorter than the budget used: in the example the second of two parallel alternatives succeeds, and
  the result reports three backtracks with two recorded decisions.
\<close>

theorem parallel_ledger_short:
  "map_option (\<lambda>(res, err). map_option (\<lambda>result. (rr_backtrack_level result, length (rr_decision_history result))) res)
     (ResolveContext example_attempt True 2 10) = Some (Some (3, 2))"
  by code_simp

end
