(* ===== verification/Plan_Adapter.thy ===== *)
theory Plan_Adapter
  imports Resolve_Ledger Resolve_Search Resolve_Order
begin

text \<open>
  The translation of a result of the resolver into the input of the plan validator, \<^verbatim>\<open>src/internal/planadapter/adapter.go\<close>:
  \<^verbatim>\<open>Freeze\<close> turns the graph into the installed and available packages and the actions into a plan with its decision ledger.
  The two sides were written apart; the theorems are about their agreement: the order and the ledger that the resolver produces
  are accepted by the validator.

  A nil pointer that is dereferenced is an error of its own, \<open>NilDereference\<close>: the loop of \<^verbatim>\<open>findVersion\<close> reads the version of every
  candidate, which is nil for a version that did not parse.
\<close>

subsection \<open>Packages\<close>

datatype adapter_error = AdapterError string | NilDereference

record adapter_options =
  ao_build_only :: bool
  ao_operation :: string
  ao_targets :: "string list"
  ao_original_targets :: "string list"
  ao_partial_mode :: string
  ao_policy :: policy
  ao_package_policy :: "(string \<Rightarrow> string \<Rightarrow> string \<Rightarrow> package_policy) option"
  ao_domains_alias_to_root :: bool

definition adapter_cpv :: "string \<Rightarrow> version_info \<Rightarrow> string" where
  "adapter_cpv cp version =
     (case vi_version version of None \<Rightarrow> cp | Some v \<Rightarrow> if v_raw v = [] then cp else cp @ ''-'' @ v_raw v)"

definition actionKey :: "string \<Rightarrow> string \<Rightarrow> string \<Rightarrow> string" where
  "actionKey cpv slot repository = cpv @ [nul] @ slot @ [nul] @ repository"

definition parseIUse :: "string \<Rightarrow> bool gomap option" where
  "parseIUse raw =
     (if TrimSpace raw = [] then None
      else Some (foldl (\<lambda>m flag. map_put (TrimLeft flag ''+-'') True m) [] (Fields raw)))"

definition dependency_map :: "string \<Rightarrow> string \<Rightarrow> string \<Rightarrow> string \<Rightarrow> string \<Rightarrow> string gomap" where
  "dependency_map depend rdepend bdepend idepend pdepend =
     [(''BDEPEND'', bdepend), (''DEPEND'', depend), (''IDEPEND'', idepend), (''PDEPEND'', pdepend), (''RDEPEND'', rdepend)]"

definition packageFromVersion ::
  "string \<Rightarrow> version_info \<Rightarrow> bool \<Rightarrow> pkg_action option \<Rightarrow> (string \<Rightarrow> string \<Rightarrow> string \<Rightarrow> package_policy) option \<Rightarrow> package" where
  "packageFromVersion cp version is_installed action policy =
     (let cpv = adapter_cpv cp version;
          pkg_policy = (case (policy, action) of
              (Some f, Some a) \<Rightarrow> f cpv (vi_slot version) (vi_repository version)
            | _ \<Rightarrow> pk_policy zero_package)
      in \<lparr>pk_cpv = cpv, pk_slot = vi_slot version, pk_subslot = vi_subslot version, pk_repository = vi_repository version,
          pk_authority = (if is_installed then AuthorityVDB else if vi_metadata_known version then AuthorityEvaluated else []),
          pk_merge_type = (case action of Some a \<Rightarrow> if is_installed then [] else pa_merge_type a | None \<Rightarrow> []),
          pk_use = (case action of Some a \<Rightarrow> pa_use_flags a
            | None \<Rightarrow> if is_installed then vi_installed_use_flags version else vi_use_flags version),
          pk_iuse = (if is_installed then vi_installed_iuse_flags version else parseIUse (vi_iuse version)),
          pk_dependencies = Some (if is_installed
            then dependency_map (vi_installed_depend version) (vi_installed_rdepend version) (vi_installed_bdepend version)
              (vi_installed_idepend version) (vi_installed_pdepend version)
            else dependency_map (vi_depend version) (vi_rdepend version) (vi_bdepend version) (vi_idepend version) (vi_pdepend version)),
          pk_required_use = (if is_installed then vi_installed_required_use version else vi_required_use version),
          pk_eapi = (if is_installed then vi_installed_eapi version else vi_eapi version),
          pk_keywords = Some (Fields (vi_keywords version)), pk_license = vi_license version,
          pk_masked = (case (policy, action) of (Some f, Some a) \<Rightarrow> pp_masked pkg_policy | _ \<Rightarrow> False), pk_policy = pkg_policy\<rparr>)"

subsection \<open>Versions of the graph\<close>

fun find_in :: "pkg_action \<Rightarrow> atom \<Rightarrow> version_info list \<Rightarrow> (adapter_error, version_info option) result" where
  \<comment> \<open>the loop of \<^verbatim>\<open>findVersion\<close>\<close>
  "find_in action a [] = Inr None"
| "find_in action a (version # versions) =
     (if a_version a \<noteq> None \<and> vi_version version = None then Inl NilDereference
      else if a_version a \<noteq> None \<and> map_option v_raw (vi_version version) \<noteq> map_option v_raw (a_version a) then find_in action a versions
      else if pa_slot action \<noteq> [] \<and> vi_slot version \<noteq> pa_slot action \<or>
              pa_repository action \<noteq> [] \<and> vi_repository version \<noteq> pa_repository action then find_in action a versions
      else Inr (Some version))"

definition findVersion :: "dep_graph \<Rightarrow> pkg_action \<Rightarrow> (adapter_error, version_info option) result" where
  "findVersion graph action =
     (case pa_atom action of
        None \<Rightarrow> Inr None
      | Some a \<Rightarrow> (case map_of (dg_packages graph) (CP a) of
            None \<Rightarrow> Inr None
          | Some node \<Rightarrow> find_in action a (map snd (pn_versions node))))"

definition findInstalledVersion :: "dep_graph \<Rightarrow> pkg_action \<Rightarrow> (adapter_error, version_info option) result" where
  "findInstalledVersion graph action =
     map_result (\<lambda>version. case version of Some v \<Rightarrow> if vi_installed v then Some v else None | None \<Rightarrow> None) (findVersion graph action)"

definition replacedCPV :: "dep_graph \<Rightarrow> pkg_action \<Rightarrow> string" where
  "replacedCPV graph action =
     (case pa_atom action of
        None \<Rightarrow> []
      | Some a \<Rightarrow>
          if pa_installed_version action \<noteq> [] then CP a @ ''-'' @ pa_installed_version action
          else if pa_action action \<noteq> ''update'' \<and> pa_action action \<noteq> ''reinstall'' then []
          else case map_of (dg_packages graph) (CP a) of
              None \<Rightarrow> []
            | Some node \<Rightarrow> (case List.map_filter (\<lambda>version.
                  if vi_installed version \<and> \<not> (pa_slot action \<noteq> [] \<and> vi_slot version \<noteq> pa_slot action)
                  then vi_version version else None) (map snd (pn_versions node)) of
                [] \<Rightarrow> []
              | v # _ \<Rightarrow> CP a @ ''-'' @ v_raw v))"

definition sortedVersions :: "string \<Rightarrow> pkg_node \<Rightarrow> version_info list" where
  "sortedVersions cp node =
     sort_key (\<lambda>version. actionKey (adapter_cpv cp version) (vi_slot version) (vi_repository version)) (map snd (pn_versions node))"

subsection \<open>The ledger\<close>

definition freeze_record :: "decision_record \<Rightarrow> decision_record" where
  "freeze_record d = d\<lparr>dr_reasons := copied (dr_reasons d)\<rparr>"

definition freezeDecisionLedger :: "decision_ledger \<Rightarrow> decision_ledger" where
  "freezeDecisionLedger source = source\<lparr>dl_records := map freeze_record (dl_records source)\<rparr>"

definition selected_action_record :: "string gomap \<Rightarrow> action_item \<Rightarrow> decision_record" where
  "selected_action_record reasons action =
     (let state = (if ac_kind action = ActionRemove then ''installed'' else ''available''); pkg = ac_package action;
          known = TrimSpace (case map_of reasons (ac_id action) of None \<Rightarrow> [] | Some t \<Rightarrow> t)
      in \<lparr>dr_id = join_with ''|'' [pk_cpv pkg, pk_slot pkg, pk_repository pkg, state], dr_outcome = ''selected'', dr_state = state,
          dr_cpv = pk_cpv pkg, dr_slot = pk_slot pkg, dr_subslot = pk_subslot pkg, dr_repository = pk_repository pkg,
          dr_action_id = ac_id action, dr_reasons = Some [if known = [] then ''selected executable action'' else known],
          dr_requirements = []\<rparr>)"

definition selectedActionLedger :: "action_item list \<Rightarrow> resolve_result \<Rightarrow> decision_ledger" where
  "selectedActionLedger actions result =
     (let reasons = foldl (\<lambda>m action. map_put (ActionIdentity action) (pa_reason action) m) [] (rr_install result @ rr_uninstall result);
          records = map (selected_action_record reasons) actions
      in \<lparr>dl_records = sort_key dr_id records, dl_truncated = False, dl_omitted_records = 0,
          dl_encoded_bytes = int (sum_list (map (\<lambda>d. length (json_record d)) records))\<rparr>)"

subsection \<open>Freezing\<close>

definition atom_text :: "pkg_action \<Rightarrow> string" where
  \<comment> \<open>an atom in an error text, \<^verbatim>\<open>%s\<close>\<close>
  "atom_text action = (case pa_atom action of None \<Rightarrow> ''<nil>'' | Some a \<Rightarrow> atom_string a)"

definition freeze_install :: "dep_graph \<Rightarrow> adapter_options \<Rightarrow> pkg_action \<Rightarrow> (adapter_error, action_item) result" where
  "freeze_install graph opts action =
     (case findVersion graph action of
        Inl e \<Rightarrow> Inl e
      | Inr None \<Rightarrow> Inl (AdapterError (''plan adapter: selected package '' @ atom_text action @ '' is absent from frozen graph''))
      | Inr (Some version) \<Rightarrow>
          Inr \<lparr>ac_id = ActionIdentity action, ac_kind = ActionInstall,
            ac_package = packageFromVersion (case pa_atom action of None \<Rightarrow> [] | Some a \<Rightarrow> CP a) version False (Some action) (ao_package_policy opts),
            ac_replaces = replacedCPV graph action, ac_prerequisites = pa_prerequisites action\<rparr>)"

definition freeze_removal :: "dep_graph \<Rightarrow> adapter_options \<Rightarrow> pkg_action \<Rightarrow> (adapter_error, action_item) result" where
  "freeze_removal graph opts action =
     (case findInstalledVersion graph action of
        Inl e \<Rightarrow> Inl e
      | Inr None \<Rightarrow> Inl (AdapterError (''plan adapter: removal package '' @ atom_text action @ '' is absent from frozen installed graph''))
      | Inr (Some version) \<Rightarrow>
          Inr \<lparr>ac_id = ActionIdentity action, ac_kind = ActionRemove,
            ac_package = packageFromVersion (case pa_atom action of None \<Rightarrow> [] | Some a \<Rightarrow> CP a) version True None (ao_package_policy opts),
            ac_replaces = [], ac_prerequisites = []\<rparr>)"

definition frozen_versions :: "dep_graph \<Rightarrow> (string \<times> version_info) list" where
  \<comment> \<open>the versions in the order of the two sorted loops\<close>
  "frozen_versions graph =
     concat (map (\<lambda>cp. case map_of (dg_packages graph) cp of
         None \<Rightarrow> []
       | Some node \<Rightarrow> map (\<lambda>version. (cp, version)) (sortedVersions cp node)) (sort (map fst (dg_packages graph))))"

definition Freeze :: "dep_graph option \<Rightarrow> resolve_result option \<Rightarrow> adapter_options \<Rightarrow> (adapter_error, fixture \<times> plan) result" where
  "Freeze graph' result' opts =
     (case (graph', result') of
        (Some graph, Some result) \<Rightarrow>
          if list_ex (\<lambda>action. pa_atom action = None) (rr_install result)
          then Inl (AdapterError ''plan adapter: install action has nil atom'')
          else
            (let key = (\<lambda>cp version. actionKey (adapter_cpv cp version) (vi_slot version) (vi_repository version));
                 selected = foldl (\<lambda>m action. case pa_atom action of
                     None \<Rightarrow> m | Some a \<Rightarrow> map_put (actionKey (CPV a) (pa_slot action) (pa_repository action)) action m) [] (rr_install result);
                 installed = map (\<lambda>(cp, version). packageFromVersion cp version True None (ao_package_policy opts))
                   (filter (\<lambda>(cp, version). vi_installed version) (frozen_versions graph));
                 available = List.map_filter (\<lambda>(cp, version). if vi_available version
                     then map_option (\<lambda>action. packageFromVersion cp version False (Some action) (ao_package_policy opts))
                       (map_of selected (key cp version))
                     else None) (frozen_versions graph)
             in case collect (map (freeze_install graph opts) (rr_install result)) of
                  Inl e \<Rightarrow> Inl e
                | Inr installs' \<Rightarrow> (case collect (map (freeze_removal graph opts) (rr_uninstall result)) of
                      Inl e \<Rightarrow> Inl e
                    | Inr removals \<Rightarrow>
                        (let actions = installs' @ removals; frozen = freezeDecisionLedger (rr_decision_ledger result);
                             decisions = (if dl_records frozen = [] \<and> actions \<noteq> [] then selectedActionLedger actions result else frozen)
                         in Inr (\<lparr>fx_schema = SchemaVersion,
                              fx_request = \<lparr>rq_build_only = ao_build_only opts,
                                rq_operation = (if ao_operation opts = [] then ''install'' else ao_operation opts), rq_targets = ao_targets opts,
                                rq_original_targets = ao_original_targets opts, rq_partial_mode = ao_partial_mode opts\<rparr>,
                              fx_installed = installed, fx_available = available, fx_domains = [],
                              fx_domains_alias_to_root = ao_domains_alias_to_root opts, fx_policy = ao_policy opts\<rparr>,
                            \<lparr>pl_schema = SchemaVersion, pl_actions = actions, pl_decisions = decisions\<rparr>))))
      | _ \<Rightarrow> Inl (AdapterError ''plan adapter: graph and result are required''))"

subsection \<open>What is frozen\<close>

lemma collect_map_Inr [simp]: "collect (map Inr xs) = Inr xs"
  by (induction xs) simp_all

lemma collect_Inr: "collect rs = Inr xs \<longleftrightarrow> rs = map Inr xs"
proof
  show "collect rs = Inr xs \<Longrightarrow> rs = map Inr xs" by (induction rs arbitrary: xs) (auto split: sum.splits)
qed simp

lemma find_in_some:
  assumes "find_in action a versions = Inr (Some v)"
  shows "v \<in> set versions" "a_version a \<noteq> None \<Longrightarrow> map_option v_raw (vi_version v) = map_option v_raw (a_version a)"
    "pa_slot action \<noteq> [] \<Longrightarrow> vi_slot v = pa_slot action" "pa_repository action \<noteq> [] \<Longrightarrow> vi_repository v = pa_repository action"
  using assms by (induction action a versions rule: find_in.induct) (auto split: if_splits)

definition fully_named :: "pkg_action \<Rightarrow> bool" where
  \<comment> \<open>the action names the version, slot and repository of a package\<close>
  "fully_named action \<longleftrightarrow>
     (\<exists>a. pa_atom action = Some a \<and> a_version a \<noteq> None) \<and> pa_slot action \<noteq> [] \<and> pa_repository action \<noteq> []"

definition item_of :: "pkg_action \<Rightarrow> action_item \<Rightarrow> bool" where
  \<comment> \<open>an action of the plan stands for an action of the resolver: same identity, same package\<close>
  "item_of action item \<longleftrightarrow> ac_id item = ActionIdentity action \<and>
     (fully_named action \<longrightarrow> (\<forall>a. pa_atom action = Some a \<longrightarrow> pk_cpv (ac_package item) = CPV a) \<and>
        pk_slot (ac_package item) = pa_slot action \<and> pk_repository (ac_package item) = pa_repository action)"

lemma package_identity [simp]:
  "pk_cpv (packageFromVersion cp version is_installed action policy) = adapter_cpv cp version"
  "pk_slot (packageFromVersion cp version is_installed action policy) = vi_slot version"
  "pk_repository (packageFromVersion cp version is_installed action policy) = vi_repository version"
  by (simp_all add: packageFromVersion_def Let_def)

lemma adapter_cpv_atom:
  assumes "a_version a \<noteq> None" "map_option v_raw (vi_version version) = map_option v_raw (a_version a)"
  shows "adapter_cpv (CP a) version = CPV a"
  using assms by (auto simp: adapter_cpv_def CPV_def CP_def version_part_def)

lemma found_names:
  assumes "findVersion graph action = Inr (Some version)" "fully_named action"
  shows "pa_atom action = Some a \<Longrightarrow> adapter_cpv (CP a) version = CPV a" "vi_slot version = pa_slot action"
    "vi_repository version = pa_repository action"
proof -
  obtain b versions where b: "pa_atom action = Some b" "find_in action b versions = Inr (Some version)"
    using assms(1) by (auto simp: findVersion_def split: option.splits)
  note find_in_some [OF b(2)]
  then show "vi_slot version = pa_slot action" "vi_repository version = pa_repository action"
    and "pa_atom action = Some a \<Longrightarrow> adapter_cpv (CP a) version = CPV a"
    using assms(2) b(1) adapter_cpv_atom [of b version] by (auto simp: fully_named_def)
qed

lemma freeze_install_item:
  assumes "freeze_install graph opts action = Inr item"
  shows "item_of action item" "ac_prerequisites item = pa_prerequisites action"
  using assms found_names [of graph action] by (auto simp: freeze_install_def item_of_def split: sum.splits option.splits)

lemma freeze_removal_item:
  assumes "freeze_removal graph opts action = Inr item"
  shows "item_of action item" "ac_prerequisites item = []"
proof -
  obtain version where "findInstalledVersion graph action = Inr (Some version)"
    and item: "item = \<lparr>ac_id = ActionIdentity action, ac_kind = ActionRemove,
      ac_package = packageFromVersion (case pa_atom action of None \<Rightarrow> [] | Some a \<Rightarrow> CP a) version True None (ao_package_policy opts),
      ac_replaces = [], ac_prerequisites = []\<rparr>"
    using assms by (auto simp: freeze_removal_def split: sum.splits option.splits)
  then have "findVersion graph action = Inr (Some version)"
    by (auto simp: findInstalledVersion_def map_result_def split: sum.splits option.splits if_splits)
  then show "item_of action item" "ac_prerequisites item = []" using found_names [of graph action version] by (auto simp: item item_of_def)
qed

lemma frozen_actions:
  assumes "Freeze (Some graph) (Some result) opts = Inr (fixture, plan)"
  obtains planned removals where "pl_actions plan = planned @ removals"
    "list_all2 (\<lambda>action item. item_of action item \<and> ac_prerequisites item = pa_prerequisites action) (rr_install result) planned"
    "list_all2 (\<lambda>action item. item_of action item \<and> ac_prerequisites item = []) (rr_uninstall result) removals"
    "pl_decisions plan = (if dl_records (rr_decision_ledger result) = [] \<and> pl_actions plan \<noteq> [] then selectedActionLedger (pl_actions plan) result
       else freezeDecisionLedger (rr_decision_ledger result))"
proof -
  obtain planned removals where planned: "map (freeze_install graph opts) (rr_install result) = map Inr planned"
    and removals: "map (freeze_removal graph opts) (rr_uninstall result) = map Inr removals"
    and plan: "pl_actions plan = planned @ removals"
    "pl_decisions plan = (if dl_records (rr_decision_ledger result) = [] \<and> pl_actions plan \<noteq> [] then selectedActionLedger (pl_actions plan) result
       else freezeDecisionLedger (rr_decision_ledger result))"
    using assms by (auto simp: Freeze_def Let_def collect_Inr freezeDecisionLedger_def split: if_splits sum.splits)
  have all: "list_all2 (\<lambda>action item. f action = Inr item) actions items" if "map f actions = map Inr items"
    for f :: "pkg_action \<Rightarrow> (adapter_error, action_item) result" and actions items
  proof -
    have "list_all2 (=) (map f actions) (map Inr items)" unfolding that by (simp add: list.rel_refl)
    then show ?thesis by (simp add: list_all2_map1 list_all2_map2)
  qed
  have "list_all2 (\<lambda>action item. item_of action item \<and> ac_prerequisites item = pa_prerequisites action) (rr_install result) planned"
    by (rule list_all2_mono [OF all [OF planned]]) (simp add: freeze_install_item)
  moreover have "list_all2 (\<lambda>action item. item_of action item \<and> ac_prerequisites item = []) (rr_uninstall result) removals"
    by (rule list_all2_mono [OF all [OF removals]]) (simp add: freeze_removal_item)
  ultimately show thesis using that plan by blast
qed

subsection \<open>The validator accepts the order of the resolver\<close>

lemma identity_action_nonempty [simp]: "ActionIdentity action \<noteq> []" "[] \<noteq> ActionIdentity action"
  by (simp_all add: ActionIdentity_def)

lemma items_identities:
  assumes "list_all2 (\<lambda>action item. item_of action item \<and> P action item) actions items"
  shows "map ac_id items = map ActionIdentity actions"
  using assms by (induction) (auto simp: item_of_def)

lemma frozen_identities:
  assumes "Freeze (Some graph) (Some result) opts = Inr (fixture, plan)"
  shows "map ac_id (pl_actions plan) = map ActionIdentity (rr_install result @ rr_uninstall result)"
  using assms items_identities by (elim frozen_actions) (simp add: items_identities)

lemma frozen_ids:
  assumes "Freeze (Some graph) (Some result) opts = Inr (fixture, plan)"
  shows "action_ids (take n (pl_actions plan)) = take n (map ActionIdentity (rr_install result @ rr_uninstall result))"
proof -
  have "map ac_id (take n (pl_actions plan)) = take n (map ActionIdentity (rr_install result @ rr_uninstall result))"
    using frozen_identities [OF assms] by (metis take_map)
  moreover have "x \<noteq> []" if "x \<in> set (take n (map ActionIdentity (rr_install result @ rr_uninstall result)))" for x
    using in_set_takeD [OF that] by auto
  ultimately show ?thesis unfolding action_ids_def by (simp add: filter_id_conv)
qed

lemma frozen_order:
  assumes frozen: "Freeze (Some graph) (Some result) opts = Inr (fixture, plan)"
    and distinct: "distinct (map ActionIdentity (rr_install result @ rr_uninstall result))"
    and earlier: "\<And>j p. j < length (rr_install result) \<Longrightarrow> p \<in> set (pa_prerequisites (rr_install result ! j)) \<Longrightarrow>
      \<exists>i < j. p = ActionIdentity (rr_install result ! i)"
  shows "order_ok (pl_actions plan)"
proof -
  obtain planned removals where parts: "pl_actions plan = planned @ removals"
    "list_all2 (\<lambda>action item. item_of action item \<and> ac_prerequisites item = pa_prerequisites action) (rr_install result) planned"
    "list_all2 (\<lambda>action item. item_of action item \<and> ac_prerequisites item = []) (rr_uninstall result) removals"
    "pl_decisions plan = (if dl_records (rr_decision_ledger result) = [] \<and> pl_actions plan \<noteq> [] then selectedActionLedger (pl_actions plan) result
       else freezeDecisionLedger (rr_decision_ledger result))"
    by (rule frozen_actions [OF frozen])
  note ids = frozen_ids [OF frozen]
  have len: "length planned = length (rr_install result)" using parts(2) by (simp add: list_all2_lengthD)
  have "p \<in> set (action_ids (take k (pl_actions plan)))"
    if k: "k < length (pl_actions plan)" and p: "p \<in> set (ac_prerequisites (pl_actions plan ! k))" for k p
  proof (cases "k < length planned")
    case True
    then have "ac_prerequisites (pl_actions plan ! k) = pa_prerequisites (rr_install result ! k)"
      using list_all2_nthD2 [OF parts(2) True] by (simp add: parts(1) nth_append)
    then obtain i where "i < k" "p = ActionIdentity (rr_install result ! i)" using earlier [of k p] p True len by auto
    then show ?thesis unfolding ids using True len by (auto simp: in_set_conv_nth nth_append intro!: exI [of _ i])
  next
    case False
    then have "ac_prerequisites (pl_actions plan ! k) = []"
      using list_all2_nthD2 [OF parts(3), of "k - length planned"] k by (simp add: parts(1) nth_append)
    then show ?thesis using p by simp
  qed
  moreover have "distinct (action_ids (pl_actions plan))" using ids [of "length (pl_actions plan)"] distinct by (simp add: distinct_take del: map_append)
  moreover have "ac_id item \<noteq> []" if "item \<in> set (pl_actions plan)" for item
  proof -
    have "ac_id item \<in> set (map ac_id (pl_actions plan))" using that by simp
    then show ?thesis unfolding frozen_identities [OF frozen] by auto
  qed
  ultimately show ?thesis unfolding order_ok_def by blast
qed

lemma collect_succeeds: "\<not> isl (collect rs) \<longleftrightarrow> (\<forall>r \<in> set rs. \<not> isl r)"
  by (induction rs) (auto split: sum.splits)

lemma freeze_succeeds:
  "(\<exists>fixture plan. Freeze (Some graph) (Some result) opts = Inr (fixture, plan)) \<longleftrightarrow>
   (\<forall>action \<in> set (rr_install result). pa_atom action \<noteq> None \<and> \<not> isl (freeze_install graph opts action)) \<and>
   (\<forall>action \<in> set (rr_uninstall result). \<not> isl (freeze_removal graph opts action))"
proof -
  have fails: "(\<exists>x. r = Inr x) \<longleftrightarrow> \<not> isl r" for r :: "(adapter_error, 'x) result" by (cases r) simp_all
  have "(\<exists>fixture plan. Freeze (Some graph) (Some result) opts = Inr (fixture, plan)) \<longleftrightarrow>
      \<not> list_ex (\<lambda>action. pa_atom action = None) (rr_install result) \<and>
      (\<exists>xs. collect (map (freeze_install graph opts) (rr_install result)) = Inr xs) \<and>
      (\<exists>ys. collect (map (freeze_removal graph opts) (rr_uninstall result)) = Inr ys)"
    by (auto simp: Freeze_def Let_def split: if_splits sum.splits)
  then show ?thesis unfolding fails collect_succeeds by (auto simp: list_ex_iff)
qed

subsection \<open>The validator accepts the ledger of the resolver\<close>

lemma item_found:
  assumes "list_all2 item_of actions items" "distinct (map ActionIdentity actions)" "action \<in> set actions"
  shows "\<exists>item. find (\<lambda>i. ac_id i = ActionIdentity action) (rev items) = Some item \<and> item_of action item"
proof -
  have ids: "map ac_id items = map ActionIdentity actions" using assms(1) by induction (auto simp: item_of_def)
  obtain k where k: "k < length actions" "actions ! k = action" using assms(3) by (auto simp: in_set_conv_nth)
  then have item: "item_of action (items ! k)" "items ! k \<in> set items"
    using list_all2_nthD [OF assms(1), of k] assms(1) by (auto dest: list_all2_lengthD)
  obtain other where other: "find (\<lambda>i. ac_id i = ActionIdentity action) (rev items) = Some other"
    using item find_None_iff [of "\<lambda>i. ac_id i = ActionIdentity action" "rev items"]
    by (cases "find (\<lambda>i. ac_id i = ActionIdentity action) (rev items)") (auto simp: item_of_def)
  then have "other \<in> set items" "ac_id other = ActionIdentity action" by (auto simp: find_Some_iff) (metis length_rev nth_mem set_rev)
  moreover have "inj_on ac_id (set items)" using assms(2) ids by (metis distinct_map)
  ultimately have "other = items ! k" using item by (auto simp: item_of_def inj_on_def)
  then show ?thesis using other item by simp
qed

lemma selected_record_of:
  assumes "action \<in> set (planned @ removals)" "pa_atom action = Some a"
  shows "\<exists>d \<in> set (selected_records r planned removals). dr_action_id d = ActionIdentity action"
proof (cases "action \<in> set planned")
  case True
  then show ?thesis using assms(2) unfolding selected_records_def
    by (intro bexI [of _ "action_record ''available'' (requirementsForCandidate r (CP a) (pa_slot action)) action a"])
      (force simp: action_record_def split: option.splits)+
next
  case False
  then show ?thesis using assms unfolding selected_records_def
    by (intro bexI [of _ "action_record ''installed'' [] action a"]) (force simp: action_record_def split: option.splits)+
qed

lemma frozen_items:
  assumes "Freeze (Some graph) (Some result) opts = Inr (fixture, plan)"
  shows "list_all2 item_of (rr_install result @ rr_uninstall result) (pl_actions plan)"
  by (rule frozen_actions [OF assms]) (auto intro!: list_all2_appendI elim: list_all2_mono)

lemma frozen_ledger:
  fixes result :: resolve_result and r :: resolver
  defines "actions \<equiv> rr_install result @ rr_uninstall result" and "selected \<equiv> selected_records r (rr_install result) (rr_uninstall result)"
  assumes frozen: "Freeze (Some graph) (Some result) opts = Inr (fixture, plan)"
    and ledger: "rr_decision_ledger result = buildDecisionLedger r (rr_install result) (rr_uninstall result)"
    and named: "\<forall>action \<in> set actions. fully_named action \<and> \<not> list_all ascii_space (pa_reason action)"
    and identities: "distinct (map ActionIdentity actions)"
    and records: "distinct (map dr_id selected)" "int (length selected) \<le> MaxDecisionRecords" "int (ledger_bytes selected) \<le> MaxDecisionBytes"
  shows "ledger_ok plan"
proof -
  let ?ledger = "buildDecisionLedger r (rr_install result) (rr_uninstall result)" and ?ids = "actions_by_id (pl_actions plan)"
  note built = built_ledger [OF records [unfolded selected_def], folded selected_def]
  note items = frozen_items [OF frozen, folded actions_def]
  have atom: "\<exists>a. pa_atom action = Some a" if "action \<in> set actions" for action using named that by (auto simp: fully_named_def)
  have selected_ok: "record_ok ?ids d" if "d \<in> set selected" for d
  proof -
    obtain action a state requirements where d: "action \<in> set actions" "pa_atom action = Some a"
      "state \<in> {''available'', ''installed''}" "sorted requirements" "d = action_record state requirements action a"
      using selected_record_cases [OF \<open>d \<in> set selected\<close> [unfolded selected_def]] unfolding actions_def by metis
    have "\<exists>item. map_of ?ids (ActionIdentity action) = Some item \<and> item_of action item"
      using item_found [OF items identities d(1)] by (simp add: actions_by_id_of)
    moreover have "nonemptySortedUnique [pa_reason action] \<noteq> []" using named d(1) by (simp add: nonemptySortedUnique_nonempty)
    ultimately show ?thesis using d named
      by (auto simp: record_ok_def link_ok_def action_record_def names_package_def item_of_def key_nonempty DecisionSelected_def)
  qed
  have each: "record_ok ?ids d" if "d \<in> set (dl_records ?ledger)" for d
  proof (cases "dr_outcome d = DecisionSelected")
    case True
    then show ?thesis using built(1) that selected_ok by (auto simp: record_shape_def)
  next
    case False
    moreover have "record_shape selected d" using built(1) that by blast
    ultimately show ?thesis
      by (auto simp: record_shape_def record_ok_def link_ok_def DecisionSelected_def DecisionRetained_def DecisionRejected_def DecisionSkipped_def)
  qed
  have covered: "\<exists>d \<in> set (dl_records ?ledger). dr_outcome d = ''selected'' \<and> dr_action_id d = ac_id item" if "item \<in> set (pl_actions plan)" for item
  proof -
    obtain k where k: "k < length (pl_actions plan)" "pl_actions plan ! k = item" using \<open>item \<in> set (pl_actions plan)\<close> by (auto simp: in_set_conv_nth)
    have "actions ! k \<in> set actions" "item_of (actions ! k) item"
      using list_all2_nthD2 [OF items k(1)] list_all2_lengthD [OF items] k by auto
    then obtain d where "d \<in> set selected" "dr_action_id d = ac_id item"
      using selected_record_of [of "actions ! k" "rr_install result" "rr_uninstall result"] atom [of "actions ! k"] unfolding actions_def selected_def item_of_def by metis
    then show ?thesis using built(4) selected_record_outcome [of d r] by (auto simp: selected_def DecisionSelected_def)
  qed
  have "freeze_record d = d" if "d \<in> set (dl_records ?ledger)" for d
    using each [OF that] by (cases d) (auto simp: freeze_record_def copied_def record_ok_def)
  then have frozen_same: "freezeDecisionLedger ?ledger = ?ledger" by (simp add: freezeDecisionLedger_def map_idI)
  have nonempty: "dl_records ?ledger \<noteq> []" if "pl_actions plan \<noteq> []" using covered that by (cases "pl_actions plan") fastforce+
  have "pl_decisions plan = ?ledger"
    by (rule frozen_actions [OF frozen]) (use nonempty in \<open>auto simp: ledger frozen_same\<close>)
  moreover have "ledger_bounded ?ledger" unfolding buildDecisionLedger_def Let_def by (rule bound_bounded)
  ultimately show ?thesis using each covered built(2,3) by (auto simp: ledger_ok_def ledger_bounded_def)
qed

subsection \<open>Examples\<close>

definition version_1 :: version where
  "version_1 = \<lparr>v_raw = ''1'', v_numbers = [1], v_letter = [], v_suffixes = [], v_revision = 0, v_revision_raw = []\<rparr>"

definition atom_a :: "string \<Rightarrow> atom" where
  \<comment> \<open>the atom \<^verbatim>\<open>a/NAME\<close>\<close>
  "atom_a name = empty_atom\<lparr>a_category := ''a'', a_package := name\<rparr>"

definition adapter_node :: "string \<Rightarrow> version_info gomap \<Rightarrow> string \<times> pkg_node" where
  "adapter_node name versions = (''a/'' @ name, \<lparr>pn_atom = atom_a name, pn_installed = False, pn_versions = versions, pn_deps = []\<rparr>)"

definition adapter_version :: version_info where
  "adapter_version =
     zero_version_info\<lparr>vi_version := Some version_1, vi_slot := ''0'', vi_repository := ''r'', vi_available := True, vi_metadata_known := True\<rparr>"

definition adapter_graph :: dep_graph where
  "adapter_graph =
     \<lparr>dg_packages = [adapter_node ''b'' [(''1'', adapter_version)], adapter_node ''c'' [(''1'', adapter_version)]],
      dg_providers = [], dg_providers_of = []\<rparr>"

definition adapter_resolver :: resolver where
  "adapter_resolver = (empty_resolver (dg_packages adapter_graph))\<lparr>rv_constraints := [(''a/b|0'', [])]\<rparr>"

definition adapter_action :: "string \<Rightarrow> string \<Rightarrow> pkg_action" where
  "adapter_action name domain =
     zero_pkg_action\<lparr>pa_atom := Some ((atom_a name)\<lparr>a_op := OpEq, a_version := Some version_1\<rparr>), pa_action := ''install'', pa_reason := ''w'',
       pa_slot := ''0'', pa_repository := ''r'', pa_domain := domain\<rparr>"

definition adapter_result :: "pkg_action list \<Rightarrow> resolve_result" where
  "adapter_result actions =
     \<lparr>rr_install = actions, rr_uninstall = [], rr_conflicts = [], rr_backtrack_level = 0, rr_decision_history = [], rr_branch_evaluations = [],
      rr_conflict_details = [], rr_decision_ledger = buildDecisionLedger adapter_resolver actions [], rr_verified = True, rr_incomplete = False,
      rr_retry_choices = []\<rparr>"

definition adapter_request :: adapter_options where
  "adapter_request =
     \<lparr>ao_build_only = False, ao_operation = [], ao_targets = [''a/b''], ao_original_targets = [], ao_partial_mode = [],
      ao_policy = \<lparr>po_accepted_keywords = [], po_accepted_licenses = [], po_supported_eapis = [], po_license_groups = []\<rparr>,
      ao_package_policy = None, ao_domains_alias_to_root = True\<rparr>"

lemma adapter_example [simp]:
  "rr_install (adapter_result actions) = actions" "rr_uninstall (adapter_result actions) = []" "pa_atom (adapter_action name domain) \<noteq> None"
  "rr_decision_ledger (adapter_result actions) = buildDecisionLedger adapter_resolver actions []"
  by (simp_all add: adapter_result_def adapter_action_def)

subsection \<open>Theorems\<close>

text \<open>
  Claim C14: the validator accepts the order that the resolver produces: when the install actions of a result are a sorted plan of at least two actions, up to fields that
  sorting does not set, and all identities are different, the frozen plan has the identities of the actions in their order, installs
  before removals, and \<^verbatim>\<open>validateActionOrder\<close> finds nothing in it.
\<close>

theorem frozen_order_accepted:
  assumes "Freeze (Some graph) (Some result) opts = Inr (fixture, plan)" "2 \<le> length actions"
    "map (\<lambda>a. (ActionIdentity a, pa_prerequisites a)) (rr_install result) = map (\<lambda>a. (ActionIdentity a, pa_prerequisites a)) (sortPlannedActions r actions)"
    "distinct (map ActionIdentity (rr_install result @ rr_uninstall result))"
  shows "map ac_id (pl_actions plan) = map ActionIdentity (rr_install result @ rr_uninstall result) \<and> validateActionOrder (pl_actions plan) = []"
proof -
  let ?sorted = "sortPlannedActions r actions"
  have len: "length (rr_install result) = length actions" using map_eq_imp_length_eq [OF assms(3)] by (simp add: sorted_plan_length)
  have same: "ActionIdentity (rr_install result ! i) = ActionIdentity (?sorted ! i)" "pa_prerequisites (rr_install result ! i) = pa_prerequisites (?sorted ! i)"
    if "i < length (rr_install result)" for i
    using nth_map [of i "rr_install result" "\<lambda>a. (ActionIdentity a, pa_prerequisites a)"] that len assms(3) by (auto simp: sorted_plan_length)
  have "\<exists>i < j. p = ActionIdentity (rr_install result ! i)" if j: "j < length (rr_install result)" and p: "p \<in> set (pa_prerequisites (rr_install result ! j))" for j p
  proof -
    have more: "\<not> length actions \<le> 1" using assms(2) by simp
    obtain i where "i < j" "p = ActionIdentity (?sorted ! i)"
      using sorted_plan_waits(1) [OF more, where j = j and r = r] sorted_plan_waits(2) [OF more, where j = j and r = r] j p same(2) [OF j] len by auto
    then show ?thesis using same(1) [of i] j by auto
  qed
  then have "order_ok (pl_actions plan)" using frozen_order [OF assms(1,4)] by blast
  then show ?thesis using frozen_identities [OF assms(1)] order_clean by simp
qed

theorem frozen_order_accepted_witness:
  "\<exists>fixture plan. Freeze (Some adapter_graph) (Some (adapter_result (sortPlannedActions adapter_resolver [adapter_action ''c'' [], adapter_action ''b'' []])))
     adapter_request = Inr (fixture, plan) \<and> validateActionOrder (pl_actions plan) = []"
proof -
  let ?actions = "[adapter_action ''c'' [], adapter_action ''b'' []]"
  let ?result = "adapter_result (sortPlannedActions adapter_resolver ?actions)"
  have sorted: "sortPlannedActions adapter_resolver ?actions = ?actions" by code_simp
  have "\<not> isl (freeze_install adapter_graph adapter_request (adapter_action ''c'' []))"
    "\<not> isl (freeze_install adapter_graph adapter_request (adapter_action ''b'' []))" by code_simp+
  then obtain fixture plan where frozen: "Freeze (Some adapter_graph) (Some ?result) adapter_request = Inr (fixture, plan)"
    using freeze_succeeds [of adapter_graph ?result adapter_request] by (auto simp: sorted)
  have "distinct (map ActionIdentity ?actions)" by code_simp
  then have "distinct (map ActionIdentity (rr_install ?result @ rr_uninstall ?result))" by (simp add: sorted)
  then show ?thesis using frozen_order_accepted [OF frozen, of ?actions adapter_resolver] frozen by auto
qed

text \<open>
  Claim C13: the validator accepts the ledger that the resolver writes: when the actions of a result name version, slot and
  repository of their packages and a reason, their identities and the keys of their records are different and their records fit into
  the bounds of a ledger, then \<^verbatim>\<open>validateDecisionLedger\<close> finds nothing in the frozen plan, whatever candidates were retained, rejected or skipped. The bounds are 4096 selected records and 1 MiB of them; beyond these the
  ledger is truncated, and the validator reports the actions without a selected record.
\<close>

theorem frozen_ledger_accepted:
  assumes "Freeze (Some graph) (Some result) opts = Inr (fixture, plan)"
    "rr_decision_ledger result = buildDecisionLedger r (rr_install result) (rr_uninstall result)"
    "\<forall>action \<in> set (rr_install result @ rr_uninstall result). fully_named action \<and> \<not> list_all ascii_space (pa_reason action)"
    "distinct (map ActionIdentity (rr_install result @ rr_uninstall result))"
    "distinct (map dr_id (selected_records r (rr_install result) (rr_uninstall result)))"
    "int (length (selected_records r (rr_install result) (rr_uninstall result))) \<le> MaxDecisionRecords"
    "int (ledger_bytes (selected_records r (rr_install result) (rr_uninstall result))) \<le> MaxDecisionBytes"
  shows "validateDecisionLedger plan = []"
  using frozen_ledger [OF assms(1-7)] ledger_clean by blast

theorem frozen_ledger_accepted_witness:
  "\<exists>fixture plan. Freeze (Some adapter_graph) (Some (adapter_result [adapter_action ''c'' []])) adapter_request = Inr (fixture, plan) \<and>
     validateDecisionLedger plan = []"
proof -
  let ?result = "adapter_result [adapter_action ''c'' []]"
  let ?selected = "selected_records adapter_resolver [adapter_action ''c'' []] []"
  have "\<not> isl (freeze_install adapter_graph adapter_request (adapter_action ''c'' []))" by code_simp
  then obtain fixture plan where frozen: "Freeze (Some adapter_graph) (Some ?result) adapter_request = Inr (fixture, plan)"
    using freeze_succeeds [of adapter_graph ?result adapter_request] by auto
  have "distinct (map dr_id ?selected)" "int (length ?selected) \<le> MaxDecisionRecords" "int (ledger_bytes ?selected) \<le> MaxDecisionBytes" by code_simp+
  moreover have "fully_named (adapter_action ''c'' [])" unfolding fully_named_def by (intro conjI exI) code_simp+
  moreover have "\<not> list_all ascii_space (pa_reason (adapter_action ''c'' []))" by code_simp
  ultimately have "validateDecisionLedger plan = []"
    using frozen_ledger_accepted [OF frozen, of adapter_resolver] by simp
  then show ?thesis using frozen by blast
qed

text \<open>
  A package that is planned for two roots has two actions but one record in the ledger, so that the validator rejects the plan: the key of a
  record does not have the domain of the action.
\<close>

lemma two_roots_rejected:
  "(case Freeze (Some adapter_graph) (Some (adapter_result [adapter_action ''b'' [], adapter_action ''b'' DomainBROOT])) adapter_request of
      Inl e \<Rightarrow> []
    | Inr (fixture, plan) \<Rightarrow> map vi_kind (validateDecisionLedger plan)) = [''action-without-selected-decision'']"
  by code_simp

text \<open>A version of the graph that did not parse has no \<^verbatim>\<open>Version\<close>; if it is ranged over before the planned one, freezing dereferences nil.\<close>

lemma unparsed_version_dereferenced:
  "Freeze (Some (adapter_graph\<lparr>dg_packages :=
       [adapter_node ''b'' [(''0x'', zero_version_info\<lparr>vi_available := True\<rparr>), (''1'', adapter_version)]]\<rparr>))
     (Some ((adapter_result [])\<lparr>rr_install := [adapter_action ''b'' []]\<rparr>)) adapter_request = Inl NilDereference"
  by code_simp

end
