(* ===== verification/Files.thy ===== *)
theory Files
  imports Plan_Model "HOL-Library.Sublist"
begin

text \<open>
  The part of a Unix file system that the undo journal works on, and the functions of the Go packages \<^verbatim>\<open>os\<close>, \<^verbatim>\<open>path/filepath\<close> and
  \<^verbatim>\<open>unix\<close> it calls. A path is the list of the components of an absolute and cleaned path. The tree maps paths to
  objects; a regular file is a link to an inode, so that two paths can share one. Metadata is mode, owner, group and
  extended attributes; time stamps are left out. Created objects belong to the superuser, and no bits are masked from
  their mode.

  Functions on paths with a symbolic link among the ancestors fail in the model, while the system follows the link:
  the journal resolves the ancestors before it calls them.
\<close>

subsection \<open>File systems\<close>

type_synonym path = "string list"

type_synonym inode = "nat \<times> nat"

record metadata =
  md_mode :: nat
  md_uid :: nat
  md_gid :: nat
  md_xattrs :: "string gomap"

datatype file_object = Directory metadata | Symlink metadata string | RegularFile inode | SpecialFile metadata

record filesystem =
  fs_tree :: "(path \<times> file_object) list"
  fs_inodes :: "(inode \<times> string \<times> metadata) list"

datatype errno = ENOENT | ENOTDIR | ENOTEMPTY | EEXIST | EBUSY | EINVAL

datatype stat_result = Found file_object | StatError errno

definition object_at :: "filesystem \<Rightarrow> path \<Rightarrow> file_object option" where
  "object_at fs p = map_of (fs_tree fs) p"

definition put_object :: "path \<Rightarrow> file_object \<Rightarrow> filesystem \<Rightarrow> filesystem" where
  "put_object p obj fs = fs\<lparr>fs_tree := (p, obj) # filter (\<lambda>(q, _). q \<noteq> p) (fs_tree fs)\<rparr>"

definition delete_object :: "path \<Rightarrow> filesystem \<Rightarrow> filesystem" where
  "delete_object p fs = fs\<lparr>fs_tree := filter (\<lambda>(q, _). q \<noteq> p) (fs_tree fs)\<rparr>"

definition put_inode :: "inode \<Rightarrow> string \<Rightarrow> metadata \<Rightarrow> filesystem \<Rightarrow> filesystem" where
  "put_inode i content m fs = fs\<lparr>fs_inodes := (i, content, m) # filter (\<lambda>(k, _). k \<noteq> i) (fs_inodes fs)\<rparr>"

definition fresh_inode :: "filesystem \<Rightarrow> inode" where
  "fresh_inode fs = (1, 1 + foldr (\<lambda>(i, _) n. max (snd i) n) (fs_inodes fs) 0)"

definition has_children :: "filesystem \<Rightarrow> path \<Rightarrow> bool" where
  "has_children fs p \<longleftrightarrow> list_ex (\<lambda>(q, _). strict_prefix p q) (fs_tree fs)"

definition created_metadata :: "nat \<Rightarrow> metadata" where
  "created_metadata mode = \<lparr>md_mode = mode, md_uid = 0, md_gid = 0, md_xattrs = []\<rparr>"

subsection \<open>System calls\<close>

fun lstat_from :: "filesystem \<Rightarrow> path \<Rightarrow> path \<Rightarrow> stat_result" where
  "lstat_from fs base [] = (case object_at fs base of None \<Rightarrow> StatError ENOENT | Some obj \<Rightarrow> Found obj)"
| "lstat_from fs base (part # parts) =
     (case object_at fs base of
        None \<Rightarrow> StatError ENOENT
      | Some (Directory m) \<Rightarrow> lstat_from fs (base @ [part]) parts
      | Some obj \<Rightarrow> StatError ENOTDIR)"

definition Lstat :: "filesystem \<Rightarrow> path \<Rightarrow> stat_result" where
  "Lstat fs p = lstat_from fs [] p"

definition Remove :: "path \<Rightarrow> filesystem \<Rightarrow> (errno, filesystem) result" where
  "Remove p fs =
     (case Lstat fs p of
        StatError e \<Rightarrow> Inl e
      | Found (Directory m) \<Rightarrow>
          if p = [] then Inl EBUSY else if has_children fs p then Inl ENOTEMPTY else Inr (delete_object p fs)
      | Found obj \<Rightarrow> Inr (delete_object p fs))"

definition RemoveAll :: "path \<Rightarrow> filesystem \<Rightarrow> (errno, filesystem) result" where
  "RemoveAll p fs =
     (case Lstat fs p of
        StatError ENOENT \<Rightarrow> Inr fs
      | StatError e \<Rightarrow> Inl e
      | Found obj \<Rightarrow> if p = [] then Inl EBUSY else Inr (fs\<lparr>fs_tree := filter (\<lambda>(q, _). \<not> prefix p q) (fs_tree fs)\<rparr>))"

definition ensure_directory :: "nat \<Rightarrow> path \<Rightarrow> filesystem \<Rightarrow> (errno, filesystem) result" where
  "ensure_directory mode p fs =
     (case object_at fs p of
        None \<Rightarrow> Inr (put_object p (Directory (created_metadata mode)) fs)
      | Some (Directory m) \<Rightarrow> Inr fs
      | Some obj \<Rightarrow> Inl ENOTDIR)"

primrec mkdir_from :: "nat \<Rightarrow> path \<Rightarrow> path \<Rightarrow> filesystem \<Rightarrow> (errno, filesystem) result" where
  "mkdir_from mode base [] fs = ensure_directory mode base fs"
| "mkdir_from mode base (part # parts) fs =
     (case ensure_directory mode base fs of Inl e \<Rightarrow> Inl e | Inr fs' \<Rightarrow> mkdir_from mode (base @ [part]) parts fs')"

definition MkdirAll :: "nat \<Rightarrow> path \<Rightarrow> filesystem \<Rightarrow> (errno, filesystem) result" where
  "MkdirAll mode p fs = mkdir_from mode [] p fs"

definition is_directory :: "filesystem \<Rightarrow> path \<Rightarrow> bool" where
  "is_directory fs p \<longleftrightarrow> (case object_at fs p of Some (Directory m) \<Rightarrow> True | _ \<Rightarrow> False)"

definition MakeSymlink :: "string \<Rightarrow> path \<Rightarrow> filesystem \<Rightarrow> (errno, filesystem) result" where
  \<comment> \<open>\<^verbatim>\<open>os.Symlink\<close>; the mode of a link is fixed\<close>
  "MakeSymlink link p fs =
     (case Lstat fs p of
        Found obj \<Rightarrow> Inl EEXIST
      | StatError ENOENT \<Rightarrow>
          if is_directory fs (butlast p) then Inr (put_object p (Symlink (created_metadata 511) link) fs) else Inl ENOENT
      | StatError e \<Rightarrow> Inl e)"

definition WriteFile :: "nat \<Rightarrow> string \<Rightarrow> path \<Rightarrow> filesystem \<Rightarrow> (errno, filesystem) result" where
  \<comment> \<open>opening with \<^verbatim>\<open>O_CREATE|O_TRUNC|O_WRONLY\<close>, then writing the content\<close>
  "WriteFile mode content p fs =
     (case Lstat fs p of
        Found (RegularFile i) \<Rightarrow>
          (case map_of (fs_inodes fs) i of None \<Rightarrow> Inl EINVAL | Some (_, m) \<Rightarrow> Inr (put_inode i content m fs))
      | Found obj \<Rightarrow> Inl EINVAL
      | StatError ENOENT \<Rightarrow>
          if is_directory fs (butlast p)
          then Inr (put_object p (RegularFile (fresh_inode fs)) (put_inode (fresh_inode fs) content (created_metadata mode) fs))
          else Inl ENOENT
      | StatError e \<Rightarrow> Inl e)"

definition change_metadata :: "(metadata \<Rightarrow> metadata) \<Rightarrow> path \<Rightarrow> filesystem \<Rightarrow> (errno, filesystem) result" where
  \<comment> \<open>what \<^verbatim>\<open>Chown\<close>, \<^verbatim>\<open>Lchown\<close>, \<^verbatim>\<open>Chmod\<close> and \<^verbatim>\<open>Lsetxattr\<close> have in common\<close>
  "change_metadata f p fs =
     (case Lstat fs p of
        StatError e \<Rightarrow> Inl e
      | Found (Directory m) \<Rightarrow> Inr (put_object p (Directory (f m)) fs)
      | Found (Symlink m link) \<Rightarrow> Inr (put_object p (Symlink (f m) link) fs)
      | Found (SpecialFile m) \<Rightarrow> Inr (put_object p (SpecialFile (f m)) fs)
      | Found (RegularFile i) \<Rightarrow>
          (case map_of (fs_inodes fs) i of None \<Rightarrow> Inl EINVAL | Some (content, m) \<Rightarrow> Inr (put_inode i content (f m) fs)))"

definition Rel :: "path \<Rightarrow> path \<Rightarrow> path option" where
  \<comment> \<open>\<open>None\<close> for a relative path that leads out of the base\<close>
  "Rel base p = (if prefix base p then Some (drop (length base) p) else None)"

definition clean_step :: "path \<Rightarrow> string \<Rightarrow> path" where
  "clean_step p part = (if part = [] \<or> part = ''.'' then p else if part = ''..'' then butlast p else p @ [part])"

definition clean_join :: "path \<Rightarrow> string \<Rightarrow> path" where
  \<comment> \<open>\<^verbatim>\<open>filepath.Clean(filepath.Join(p, text))\<close>\<close>
  "clean_join p text = foldl clean_step p (split_on CHR ''/'' text)"

definition WalkDir :: "filesystem \<Rightarrow> path \<Rightarrow> path list" where
  \<comment> \<open>the paths below a root in lexical order, each directory before its members\<close>
  "WalkDir fs p = sort (remdups (filter (prefix p) (map fst (fs_tree fs))))"

subsection \<open>Views\<close>

datatype view = DirectoryView metadata | SymlinkView metadata string | FileView string metadata | SpecialView metadata

definition object_view :: "filesystem \<Rightarrow> file_object \<Rightarrow> view option" where
  "object_view fs obj =
     (case obj of
        Directory m \<Rightarrow> Some (DirectoryView m)
      | Symlink m link \<Rightarrow> Some (SymlinkView m link)
      | SpecialFile m \<Rightarrow> Some (SpecialView m)
      | RegularFile i \<Rightarrow> map_option (\<lambda>(content, m). FileView content m) (map_of (fs_inodes fs) i))"

definition view_at :: "filesystem \<Rightarrow> path \<Rightarrow> view option" where
  \<comment> \<open>what a path shows, whatever inode it is linked to\<close>
  "view_at fs p = Option.bind (object_at fs p) (object_view fs)"

definition object_ok :: "filesystem \<Rightarrow> file_object \<Rightarrow> bool" where
  "object_ok fs obj \<longleftrightarrow>
     (case obj of
        RegularFile i \<Rightarrow> fst i \<noteq> 0 \<and> snd i \<noteq> 0 \<and> (\<exists>content m. map_of (fs_inodes fs) i = Some (content, m) \<and> map_ok (md_xattrs m))
      | Symlink m link \<Rightarrow> md_mode m = 511 \<and> map_ok (md_xattrs m)
      | Directory m \<Rightarrow> map_ok (md_xattrs m)
      | SpecialFile m \<Rightarrow> map_ok (md_xattrs m))"

definition fs_ok :: "filesystem \<Rightarrow> bool" where
  \<comment> \<open>a tree of directories below \<^verbatim>\<open>/\<close>, with an inode for every file\<close>
  "fs_ok fs \<longleftrightarrow>
     is_directory fs [] \<and> (\<forall>p obj. object_at fs p = Some obj \<longrightarrow> (p \<noteq> [] \<longrightarrow> is_directory fs (butlast p)) \<and> object_ok fs obj)"

definition passable :: "filesystem \<Rightarrow> path \<Rightarrow> bool" where
  "passable fs p \<longleftrightarrow> object_at fs p = None \<or> is_directory fs p"

definition clear_path :: "filesystem \<Rightarrow> path \<Rightarrow> bool" where
  \<comment> \<open>the ancestors are directories or absent\<close>
  "clear_path fs p \<longleftrightarrow> list_all (\<lambda>n. passable fs (take n p)) [0..<length p]"

subsection \<open>Objects after a change\<close>

lemma map_of_filter_key: "map_of (filter (\<lambda>(k, _). P k) xs) x = (if P x then map_of xs x else None)"
  by (induction xs) auto

interpretation file_tree: dictionary object_at put_object delete_object "\<lambda>_. True"
  by unfold_locales (auto simp: object_at_def put_object_def delete_object_def map_of_filter_key)

lemmas object_simps [simp] = file_tree.lookup_put file_tree.lookup_del

lemma object_put_inode [simp]: "object_at (put_inode i content m fs) = object_at fs"
  by (rule ext) (simp add: object_at_def put_inode_def)

lemma inodes_put_object [simp]: "fs_inodes (put_object p obj fs) = fs_inodes fs" "fs_inodes (delete_object p fs) = fs_inodes fs"
  by (simp_all add: put_object_def delete_object_def)

lemma inodes_put_inode [simp]: "map_of (fs_inodes (put_inode i content m fs)) = (map_of (fs_inodes fs))(i \<mapsto> (content, m))"
  by (rule ext) (auto simp: put_inode_def map_of_filter_key)

lemma fresh_inode_unused: "map_of (fs_inodes fs) (fresh_inode fs) = None" "fst (fresh_inode fs) \<noteq> 0" "snd (fresh_inode fs) \<noteq> 0"
proof -
  have "snd i < 1 + foldr (\<lambda>(i, _) n. max (snd i) n) xs 0" if "i \<in> fst ` set xs" for i :: inode and xs :: "(inode \<times> string \<times> metadata) list"
    using that by (induction xs) force+
  from this [of _ "fs_inodes fs"] show "map_of (fs_inodes fs) (fresh_inode fs) = None"
    unfolding map_of_eq_None_iff fresh_inode_def by fastforce
qed (simp_all add: fresh_inode_def)

lemma is_directory_put [simp]: "is_directory (put_object p obj fs) q \<longleftrightarrow> (if q = p then (\<exists>m. obj = Directory m) else is_directory fs q)"
  by (auto simp: is_directory_def split: option.splits file_object.splits)

lemma is_directoryE: "is_directory fs p \<Longrightarrow> (\<And>m. object_at fs p = Some (Directory m) \<Longrightarrow> thesis) \<Longrightarrow> thesis"
  by (auto simp: is_directory_def split: option.splits file_object.splits)

lemma is_directoryI [intro]: "object_at fs p = Some (Directory m) \<Longrightarrow> is_directory fs p"
  by (simp add: is_directory_def)

lemma is_directory_iff: "is_directory fs p \<longleftrightarrow> (\<exists>m. object_at fs p = Some (Directory m))"
  by (auto elim: is_directoryE)

lemma is_directory_cong: "object_at fs = object_at fs' \<Longrightarrow> is_directory fs = is_directory fs'"
  by (rule ext) (simp add: is_directory_def)

lemma has_children_iff: "has_children fs p \<longleftrightarrow> (\<exists>q. strict_prefix p q \<and> object_at fs q \<noteq> None)"
  by (auto simp: has_children_def object_at_def list_ex_iff map_of_eq_None_iff image_iff) force+

subsection \<open>Lookup\<close>

lemma fs_okD:
  assumes "fs_ok fs"
  shows "is_directory fs []" "object_at fs p = Some obj \<Longrightarrow> p \<noteq> [] \<Longrightarrow> is_directory fs (butlast p)" "object_at fs p = Some obj \<Longrightarrow> object_ok fs obj"
  using assms by (auto simp: fs_ok_def)

lemma ancestor_directory:
  assumes ok: "fs_ok fs" and obj: "object_at fs p \<noteq> None" and less: "strict_prefix q p"
  shows "is_directory fs q"
  using obj less
proof (induction p rule: rev_induct)
  case (snoc x p)
  then have parent: "is_directory fs p" using fs_okD(2) [OF ok, of "p @ [x]"] by auto
  show ?case
  proof (cases "q = p")
    case False
    then have "strict_prefix q p" using snoc.prems(2) by (auto simp: strict_prefix_def prefix_snoc)
    moreover have "object_at fs p \<noteq> None" using parent by (auto elim: is_directoryE)
    ultimately show ?thesis using snoc.IH by blast
  qed (use parent in simp)
qed simp

lemma clear_pathD: "clear_path fs p \<longleftrightarrow> (\<forall>q. strict_prefix q p \<longrightarrow> passable fs q)"
proof -
  have ancestors: "strict_prefix q p \<longleftrightarrow> (\<exists>n < length p. q = take n p)" for q
  proof
    assume "strict_prefix q p"
    then show "\<exists>n < length p. q = take n p" by (intro exI [of _ "length q"]) (auto simp: strict_prefix_def prefix_def)
  next
    assume "\<exists>n < length p. q = take n p"
    then obtain n where n: "n < length p" "q = take n p" by blast
    then have "length q < length p" by simp
    then show "strict_prefix q p" using take_is_prefix [of n p] n(2) by (auto simp: strict_prefix_def)
  qed
  have "clear_path fs p \<longleftrightarrow> (\<forall>n < length p. passable fs (take n p))" by (auto simp: clear_path_def list_all_iff)
  then show ?thesis unfolding ancestors by blast
qed

lemma lstat_from_clear:
  assumes "\<And>k. k < length parts \<Longrightarrow> passable fs (base @ take k parts)" "fs_ok fs"
  shows "lstat_from fs base parts = (case object_at fs (base @ parts) of None \<Rightarrow> StatError ENOENT | Some obj \<Rightarrow> Found obj)"
  using assms(1)
proof (induction parts arbitrary: base)
  case (Cons part parts)
  have base: "passable fs base" using Cons.prems [of 0] by simp
  show ?case
  proof (cases "object_at fs base")
    case None
    have "object_at fs (base @ part # parts) = None"
    proof (rule ccontr)
      assume "object_at fs (base @ part # parts) \<noteq> None"
      then have "is_directory fs base" by (rule ancestor_directory [OF assms(2)]) (simp add: strict_prefix_def)
      then show False using None by (auto elim: is_directoryE)
    qed
    then show ?thesis using None by simp
  next
    case (Some obj)
    then obtain m where "obj = Directory m" using base by (cases obj) (auto simp: passable_def is_directory_def)
    moreover have "passable fs ((base @ [part]) @ take k parts)" if "k < length parts" for k
      using Cons.prems [of "Suc k"] that by simp
    ultimately show ?thesis using Some Cons.IH [of "base @ [part]"] by simp
  qed
qed simp

lemma Lstat_clear:
  assumes "clear_path fs p" "fs_ok fs"
  shows "Lstat fs p = (case object_at fs p of None \<Rightarrow> StatError ENOENT | Some obj \<Rightarrow> Found obj)"
  using lstat_from_clear [of p fs "[]"] assms by (simp add: Lstat_def clear_path_def list_all_iff)

lemma present_clear: "fs_ok fs \<Longrightarrow> object_at fs p \<noteq> None \<Longrightarrow> clear_path fs p"
  unfolding clear_pathD passable_def using ancestor_directory by blast

lemma Lstat_Found: "fs_ok fs \<Longrightarrow> object_at fs p = Some obj \<Longrightarrow> Lstat fs p = Found obj"
  using Lstat_clear [OF present_clear, of fs p] by simp

subsection \<open>Effects of system calls\<close>

lemma fs_ok_transfer:
  assumes "is_directory fs' []" "\<And>p obj. object_at fs' p = Some obj \<Longrightarrow> p \<noteq> [] \<Longrightarrow> is_directory fs' (butlast p)"
    and "\<And>p obj. object_at fs' p = Some obj \<Longrightarrow> object_ok fs' obj"
  shows "fs_ok fs'"
  using assms by (auto simp: fs_ok_def)

lemma object_ok_inodes: "fs_inodes fs' = fs_inodes fs \<Longrightarrow> object_ok fs' = object_ok fs"
  by (rule ext) (simp add: object_ok_def cong: file_object.case_cong)

lemma no_children:
  assumes "fs_ok fs" "\<not> is_directory fs p"
  shows "\<not> has_children fs p"
  using assms ancestor_directory unfolding has_children_iff by blast

lemma delete_ok:
  assumes ok: "fs_ok fs" and "p \<noteq> []" "\<not> has_children fs p"
  shows "fs_ok (delete_object p fs)"
proof (rule fs_ok_transfer)
  have dir: "is_directory (delete_object p fs) q \<longleftrightarrow> q \<noteq> p \<and> is_directory fs q" for q by (simp add: is_directory_def)
  show "is_directory (delete_object p fs) []" using fs_okD(1) [OF ok] assms(2) by (simp add: dir)
  fix q obj assume q: "object_at (delete_object p fs) q = Some obj"
  then have obj: "object_at fs q = Some obj" by (simp split: if_splits)
  show "object_ok (delete_object p fs) obj" using fs_okD(3) [OF ok obj] object_ok_inodes [of "delete_object p fs" fs] by simp
  assume "q \<noteq> []"
  then have "strict_prefix (butlast q) q" by (metis append_butlast_last_id prefixI prefix_order.less_le append_self_conv not_Cons_self2)
  then have "butlast q \<noteq> p" using assms(3) obj by (auto simp: has_children_iff)
  then show "is_directory (delete_object p fs) (butlast q)" using fs_okD(2) [OF ok obj \<open>q \<noteq> []\<close>] by (simp add: dir)
qed

lemma put_ok:
  assumes ok: "fs_ok fs" and "is_directory fs (butlast p)" "object_ok fs obj" "is_directory fs p \<Longrightarrow> \<exists>m. obj = Directory m"
  shows "fs_ok (put_object p obj fs)"
proof (rule fs_ok_transfer)
  have dir: "is_directory (put_object p obj fs) q" if "is_directory fs q" for q using that assms(4) by auto
  show "is_directory (put_object p obj fs) []" using fs_okD(1) [OF ok] by (rule dir)
  fix q obj' assume q: "object_at (put_object p obj fs) q = Some obj'"
  show "object_ok (put_object p obj fs) obj'"
    using q assms(3) fs_okD(3) [OF ok, of q] object_ok_inodes [of "put_object p obj fs" fs] by (auto split: if_splits)
  assume "q \<noteq> []"
  then have "is_directory fs (butlast q)" using q assms(2) fs_okD(2) [OF ok, of q] by (auto split: if_splits)
  then show "is_directory (put_object p obj fs) (butlast q)" by (rule dir)
qed

lemma put_inode_ok:
  assumes ok: "fs_ok fs" and "fst i \<noteq> 0" "snd i \<noteq> 0" "map_ok (md_xattrs m)"
  shows "fs_ok (put_inode i content m fs)"
proof (rule fs_ok_transfer)
  have same: "is_directory (put_inode i content m fs) = is_directory fs" by (rule is_directory_cong) simp
  show "is_directory (put_inode i content m fs) []" using fs_okD(1) [OF ok] by (simp add: same)
  fix q obj assume q: "object_at (put_inode i content m fs) q = Some obj"
  then show "q \<noteq> [] \<Longrightarrow> is_directory (put_inode i content m fs) (butlast q)" using fs_okD(2) [OF ok] by (simp add: same)
  show "object_ok (put_inode i content m fs) obj" using q fs_okD(3) [OF ok, of q obj] assms(2-4) by (auto simp: object_ok_def split: file_object.splits)
qed

lemma Remove_file:
  assumes ok: "fs_ok fs" and obj: "object_at fs p = Some obj" and "p \<noteq> []" "\<not> has_children fs p"
  shows "Remove p fs = Inr (delete_object p fs)"
  using assms by (simp add: Remove_def Lstat_Found split: file_object.split)

lemma Remove_directory_busy:
  assumes ok: "fs_ok fs" and "is_directory fs p" "p = [] \<or> has_children fs p"
  shows "\<exists>e. Remove p fs = Inl e"
  using assms by (auto simp: Remove_def Lstat_Found elim!: is_directoryE)

lemma RemoveAll_clear:
  assumes ok: "fs_ok fs" and "clear_path fs p" "p \<noteq> []"
  obtains fs' where "RemoveAll p fs = Inr fs'" "fs_ok fs'" "fs_inodes fs' = fs_inodes fs"
    "\<And>q. object_at fs' q = (if prefix p q then None else object_at fs q)"
proof -
  define fs' where "fs' = fs\<lparr>fs_tree := filter (\<lambda>(q, _). \<not> prefix p q) (fs_tree fs)\<rparr>"
  have objects: "object_at fs' q = (if prefix p q then None else object_at fs q)" for q
    by (simp add: fs'_def object_at_def map_of_filter_key)
  have dir: "is_directory fs' q \<longleftrightarrow> \<not> prefix p q \<and> is_directory fs q" for q by (simp add: is_directory_def objects)
  have "fs_ok fs'"
  proof (rule fs_ok_transfer)
    show "is_directory fs' []" using fs_okD(1) [OF ok] assms(3) by (simp add: dir)
    fix q obj assume q: "object_at fs' q = Some obj"
    then have obj: "object_at fs q = Some obj" "\<not> prefix p q" by (auto simp: objects split: if_splits)
    show "object_ok fs' obj" using fs_okD(3) [OF ok obj(1)] object_ok_inodes [of fs' fs] by (simp add: fs'_def)
    assume "q \<noteq> []"
    moreover have "\<not> prefix p (butlast q)" using obj(2) by (metis prefix_order.trans prefixeq_butlast)
    ultimately show "is_directory fs' (butlast q)" using fs_okD(2) [OF ok obj(1)] by (simp add: dir)
  qed
  have inodes: "fs_inodes fs' = fs_inodes fs" by (simp add: fs'_def)
  show thesis
  proof (cases "object_at fs p")
    case None
    have "object_at fs q = None" if "prefix p q" for q
    proof (rule ccontr)
      assume q: "object_at fs q \<noteq> None"
      then have "q \<noteq> p" using None by auto
      then have "is_directory fs p" using ancestor_directory [OF ok q] that by (auto simp: strict_prefix_def)
      then show False using None by (auto elim: is_directoryE)
    qed
    moreover have "RemoveAll p fs = Inr fs" using Lstat_clear [OF assms(2) ok] None by (simp add: RemoveAll_def)
    ultimately show ?thesis using that [of fs] ok by auto
  next
    case (Some obj)
    then have "RemoveAll p fs = Inr fs'" using Lstat_Found [OF ok Some] assms(3) by (simp add: RemoveAll_def fs'_def)
    then show ?thesis using that [of fs'] \<open>fs_ok fs'\<close> inodes objects by blast
  qed
qed

lemma mkdir_from_objects:
  assumes "\<And>k. k \<le> length parts \<Longrightarrow> passable fs (base @ take k parts)"
  shows "\<exists>fs'. mkdir_from mode base parts fs = Inr fs' \<and> fs_inodes fs' = fs_inodes fs \<and>
    (\<forall>q. object_at fs' q = (if object_at fs q = None \<and> (\<exists>k \<le> length parts. q = base @ take k parts)
       then Some (Directory (created_metadata mode)) else object_at fs q))"
  using assms
proof (induction parts arbitrary: base fs)
  case Nil
  then have "passable fs base" by simp
  then show ?case by (auto simp: ensure_directory_def passable_def split: option.split elim!: is_directoryE)
next
  case (Cons part parts)
  have "\<exists>fs1. ensure_directory mode base fs = Inr fs1 \<and> fs_inodes fs1 = fs_inodes fs \<and>
      (\<forall>q. object_at fs1 q = (if object_at fs q = None \<and> q = base then Some (Directory (created_metadata mode)) else object_at fs q))"
    using Cons.prems [of 0] by (cases "object_at fs base") (auto simp: ensure_directory_def passable_def elim!: is_directoryE)
  then obtain fs1 where fs1: "ensure_directory mode base fs = Inr fs1" "fs_inodes fs1 = fs_inodes fs"
    "\<And>q. object_at fs1 q = (if object_at fs q = None \<and> q = base then Some (Directory (created_metadata mode)) else object_at fs q)" by blast
  have "passable fs1 ((base @ [part]) @ take k parts)" if "k \<le> length parts" for k
    using Cons.prems [of "Suc k"] that fs1(3) by (auto simp: passable_def is_directory_def)
  from Cons.IH [OF this]
  obtain fs' where fs': "mkdir_from mode (base @ [part]) parts fs1 = Inr fs'" "fs_inodes fs' = fs_inodes fs1"
    "\<And>q. object_at fs' q = (if object_at fs1 q = None \<and> (\<exists>k \<le> length parts. q = (base @ [part]) @ take k parts)
       then Some (Directory (created_metadata mode)) else object_at fs1 q)" by blast
  have "(\<exists>k \<le> length (part # parts). q = base @ take k (part # parts)) \<longleftrightarrow> q = base \<or> (\<exists>k \<le> length parts. q = (base @ [part]) @ take k parts)" for q
  proof
    assume "\<exists>k \<le> length (part # parts). q = base @ take k (part # parts)"
    then obtain k where k: "k \<le> length (part # parts)" "q = base @ take k (part # parts)" by blast
    then show "q = base \<or> (\<exists>k \<le> length parts. q = (base @ [part]) @ take k parts)" by (cases k) auto
  next
    assume "q = base \<or> (\<exists>k \<le> length parts. q = (base @ [part]) @ take k parts)"
    then show "\<exists>k \<le> length (part # parts). q = base @ take k (part # parts)"
    proof (elim disjE exE conjE)
      show ?thesis if "q = base" using that by (intro exI [of _ 0]) simp
      show ?thesis if "k \<le> length parts" "q = (base @ [part]) @ take k parts" for k using that by (intro exI [of _ "Suc k"]) simp
    qed
  qed
  then show ?case using fs1 fs' by auto
qed

lemma MkdirAll_clear:
  assumes ok: "fs_ok fs" and clear: "clear_path fs p" "passable fs p"
  obtains fs' where "MkdirAll mode p fs = Inr fs'" "fs_ok fs'" "fs_inodes fs' = fs_inodes fs"
    "\<And>q. object_at fs' q = (if object_at fs q = None \<and> prefix q p then Some (Directory (created_metadata mode)) else object_at fs q)"
proof -
  have prefixes: "(\<exists>k \<le> length p. q = take k p) \<longleftrightarrow> prefix q p" for q
    by (metis nat_le_linear append_eq_conv_conj prefixE take_all take_is_prefix)
  have all: "passable fs q" if "prefix q p" for q using that clear unfolding clear_pathD by (cases "q = p") (auto simp: strict_prefix_def)
  have "passable fs ([] @ take k p)" for k using all [OF take_is_prefix] by simp
  from mkdir_from_objects [OF this, of mode]
  obtain fs' where fs': "MkdirAll mode p fs = Inr fs'" "fs_inodes fs' = fs_inodes fs"
    "\<And>q. object_at fs' q = (if object_at fs q = None \<and> prefix q p then Some (Directory (created_metadata mode)) else object_at fs q)"
    by (auto simp: MkdirAll_def prefixes)
  have dir: "is_directory fs' q" if "is_directory fs q \<or> prefix q p" for q
    using that all [of q] by (auto simp: is_directory_def fs'(3) passable_def)
  have "fs_ok fs'"
  proof (rule fs_ok_transfer)
    show "is_directory fs' []" by (rule dir) simp
    fix q obj assume q: "object_at fs' q = Some obj"
    show "object_ok fs' obj"
    proof (cases "object_at fs q = None \<and> prefix q p")
      case True
      then show ?thesis using q fs'(3) by (auto simp: object_ok_def created_metadata_def map_ok_def)
    next
      case False
      then show ?thesis using q fs' fs_okD(3) [OF ok, of q] object_ok_inodes [of fs' fs] by auto
    qed
    assume "q \<noteq> []"
    then show "is_directory fs' (butlast q)"
      using q fs'(3) fs_okD(2) [OF ok, of q] dir by (metis option.distinct(1) not_None_eq prefix_order.trans prefixeq_butlast)
  qed
  then show thesis using that fs' by blast
qed

lemma parent_strict: "p \<noteq> [] \<Longrightarrow> strict_prefix (butlast p) p"
  by (metis append_butlast_last_id prefixI prefix_order.less_le append_self_conv not_Cons_self2)

lemma below_parent: "strict_prefix q p \<Longrightarrow> prefix q (butlast p)"
  by (cases p rule: rev_cases) (auto simp: strict_prefix_def)

lemma parent_clear: "fs_ok fs \<Longrightarrow> is_directory fs (butlast p) \<Longrightarrow> clear_path fs p"
  unfolding clear_pathD passable_def using below_parent ancestor_directory [of fs "butlast p"]
  by (metis is_directoryE option.distinct(1) prefix_order.le_less)

lemma MakeSymlink_new:
  assumes "fs_ok fs" "object_at fs p = None" "is_directory fs (butlast p)"
  shows "MakeSymlink link p fs = Inr (put_object p (Symlink (created_metadata 511) link) fs)"
  using Lstat_clear [OF parent_clear, of fs p] assms by (simp add: MakeSymlink_def)

lemma WriteFile_new:
  assumes "fs_ok fs" "object_at fs p = None" "is_directory fs (butlast p)"
  shows "WriteFile mode content p fs =
    Inr (put_object p (RegularFile (fresh_inode fs)) (put_inode (fresh_inode fs) content (created_metadata mode) fs))"
  using Lstat_clear [OF parent_clear, of fs p] assms by (simp add: WriteFile_def)

lemma WriteFile_old:
  assumes "fs_ok fs" "object_at fs p = Some (RegularFile i)" "map_of (fs_inodes fs) i = Some (old, m)"
  shows "WriteFile mode content p fs = Inr (put_inode i content m fs)"
  using assms by (simp add: WriteFile_def Lstat_Found)

definition set_metadata :: "view \<Rightarrow> (metadata \<Rightarrow> metadata) \<Rightarrow> view" where
  "set_metadata v f =
     (case v of DirectoryView m \<Rightarrow> DirectoryView (f m) | SymlinkView m link \<Rightarrow> SymlinkView (f m) link
      | FileView content m \<Rightarrow> FileView content (f m) | SpecialView m \<Rightarrow> SpecialView (f m))"

definition same_places :: "path \<Rightarrow> filesystem \<Rightarrow> filesystem \<Rightarrow> bool" where
  \<comment> \<open>only the object at a path, of the same kind, or the content of its inode differ\<close>
  "same_places p fs fs' \<longleftrightarrow>
     (\<forall>q. q \<noteq> p \<longrightarrow> object_at fs' q = object_at fs q) \<and>
     (\<forall>i. object_at fs p = Some (RegularFile i) \<longleftrightarrow> object_at fs' p = Some (RegularFile i)) \<and>
     (\<forall>i. object_at fs p \<noteq> Some (RegularFile i) \<longrightarrow> map_of (fs_inodes fs') i = map_of (fs_inodes fs) i)"

lemma same_places_trans: "same_places p fs1 fs2 \<Longrightarrow> same_places p fs2 fs3 \<Longrightarrow> same_places p fs1 fs3"
  by (auto simp: same_places_def)

lemma view_cases:
  assumes "fs_ok fs" "object_at fs p = Some obj"
  obtains (dir) m where "obj = Directory m" "view_at fs p = Some (DirectoryView m)"
  | (link) m l where "obj = Symlink m l" "view_at fs p = Some (SymlinkView m l)"
  | (special) m where "obj = SpecialFile m" "view_at fs p = Some (SpecialView m)"
  | (regular) i content m where "obj = RegularFile i" "map_of (fs_inodes fs) i = Some (content, m)" "view_at fs p = Some (FileView content m)"
    "fst i \<noteq> 0" "snd i \<noteq> 0"
  using assms fs_okD(3) [OF assms] by (cases obj) (auto simp: view_at_def object_view_def object_ok_def)

lemma change_metadata_effect:
  assumes ok: "fs_ok fs" and v: "view_at fs p = Some v" and p: "\<And>m. map_ok (md_xattrs m) \<Longrightarrow> map_ok (md_xattrs (f m))"
    "\<And>m l. v = SymlinkView m l \<Longrightarrow> md_mode (f m) = 511"
  shows "\<exists>fs'. change_metadata f p fs = Inr fs' \<and> fs_ok fs' \<and> view_at fs' p = Some (set_metadata v f) \<and> same_places p fs fs'"
proof -
  obtain obj where obj: "object_at fs p = Some obj" using v by (auto simp: view_at_def bind_eq_Some_conv)
  note found = Lstat_Found [OF ok obj]
  have parent: "is_directory fs (butlast p)" using fs_okD(1) [OF ok] fs_okD(2) [OF ok obj] by (cases "p = []") simp_all
  have kind: "object_ok fs obj" using fs_okD(3) [OF ok obj] .
  from ok obj show ?thesis
  proof (cases rule: view_cases)
    case (dir m)
    let ?fs = "put_object p (Directory (f m)) fs"
    have "fs_ok ?fs" using kind dir p(1) by (intro put_ok [OF ok parent]) (auto simp: object_ok_def)
    then show ?thesis using dir v found obj
      by (intro exI [of _ ?fs]) (auto simp: change_metadata_def set_metadata_def same_places_def view_at_def object_view_def)
  next
    case (link m l)
    let ?fs = "put_object p (Symlink (f m) l) fs"
    have "\<not> is_directory fs p" using obj link by (simp add: is_directory_def)
    moreover have "md_mode (f m) = 511" using p(2) link v by simp
    ultimately have "fs_ok ?fs" using kind link p(1) by (intro put_ok [OF ok parent]) (auto simp: object_ok_def)
    then show ?thesis using link v found obj
      by (intro exI [of _ ?fs]) (auto simp: change_metadata_def set_metadata_def same_places_def view_at_def object_view_def)
  next
    case (special m)
    let ?fs = "put_object p (SpecialFile (f m)) fs"
    have "\<not> is_directory fs p" using obj special by (simp add: is_directory_def)
    then have "fs_ok ?fs" using kind special p(1) by (intro put_ok [OF ok parent]) (auto simp: object_ok_def)
    then show ?thesis using special v found obj
      by (intro exI [of _ ?fs]) (auto simp: change_metadata_def set_metadata_def same_places_def view_at_def object_view_def)
  next
    case (regular i content m)
    let ?fs = "put_inode i content (f m) fs"
    have "fs_ok ?fs" using kind regular p(1) by (intro put_inode_ok [OF ok]) (auto simp: object_ok_def)
    then show ?thesis using regular v found obj
      by (intro exI [of _ ?fs]) (auto simp: change_metadata_def set_metadata_def same_places_def view_at_def object_view_def)
  qed
qed

end
