(* ===== verification/Journal.thy ===== *)
theory Journal
  imports Files
begin

text \<open>
  The undo journal of a merge, \<^verbatim>\<open>src/internal/journal/journal.go\<close>, over the file systems of \<open>Files\<close>. Capturing a path
  records its preimage before the first change; rolling back restores the preimages in reverse order. The state on
  disk is the last published state, the log of the entries captured since, and the backups; a JSON document is the record it
  encodes. Reading and writing the journal's own directory succeeds.

  A run of a transaction is an inductive relation: captures alternate with arbitrary changes of captured paths.
\<close>

subsection \<open>Journals\<close>

record entry =
  en_path :: path
  en_kind :: string
  en_mode :: nat
  en_link :: string
  en_backup :: string
  en_uid :: nat
  en_gid :: nat
  en_dev :: nat
  en_ino :: nat
  en_xattrs :: "string gomap"

record journal_state =
  js_version :: int
  js_status :: string
  js_root :: path
  js_live_root :: bool
  js_entries :: "entry list"

record journal_files =
  jf_state :: journal_state
  jf_log :: "entry list"
  jf_backups :: "string gomap"

record journal =
  jn_state :: journal_state
  jn_captured :: "path list"
  jn_files :: journal_files

datatype journal_error =
    RefusingRoot
  | InvalidState
  | InvalidStatus string
  | InvalidEntry nat
  | DuplicateEntry path
  | InactiveOperation string
  | EscapesRoot path
  | TooManyLinks
  | UnsafeAbsoluteLink path
  | Unsupported path
  | TreeRootExists path
  | SystemError errno
  | CommittedOperation
  | InvalidIdentifier string

definition JournalVersion :: int where "JournalVersion = 5"

definition begin_journal :: "path \<Rightarrow> bool \<Rightarrow> (journal_error, journal) result" where
  "begin_journal root allowLiveRoot =
     (if root = [] \<and> \<not> allowLiveRoot then Inl RefusingRoot
      else let state = \<lparr>js_version = JournalVersion, js_status = ''active'', js_root = root, js_live_root = allowLiveRoot, js_entries = []\<rparr>
        in Inr \<lparr>jn_state = state, jn_captured = [], jn_files = \<lparr>jf_state = state, jf_log = [], jf_backups = []\<rparr>\<rparr>)"

definition persist :: "journal \<Rightarrow> journal" where
  "persist j = j\<lparr>jn_files := (jn_files j)\<lparr>jf_state := jn_state j\<rparr>\<rparr>"

subsection \<open>Confined paths\<close>

function resolve_ancestors ::
  "filesystem \<Rightarrow> path \<Rightarrow> nat \<Rightarrow> path \<Rightarrow> string list \<Rightarrow> (journal_error, path) result" where
  \<comment> \<open>the loop over the queue of components\<close>
  "resolve_ancestors fs root links current [] = Inr current"
| "resolve_ancestors fs root links current (part # queue) =
     (if part = [] \<or> part = ''.'' then resolve_ancestors fs root links current queue
      else let candidate = current @ [part] in
        case Lstat fs candidate of
          StatError ENOENT \<Rightarrow> Inr (candidate @ queue)
        | StatError e \<Rightarrow> Inl (SystemError e)
        | Found (Symlink m target) \<Rightarrow>
            if links + 1 > 255 then Inl TooManyLinks
            else if HasPrefix target ''/'' \<and> root \<noteq> [] then Inl (UnsafeAbsoluteLink candidate)
            else (case Rel root (clean_join (if HasPrefix target ''/'' then root else current) target) of
                None \<Rightarrow> Inl (EscapesRoot candidate)
              | Some relative \<Rightarrow> resolve_ancestors fs root (links + 1) root (relative @ queue))
        | Found obj \<Rightarrow> resolve_ancestors fs root links candidate queue)"
  by pat_completeness auto
termination
  by (relation "inv_image (less_than <*lex*> less_than) (\<lambda>(fs, root, links, current, queue). (256 - links, length queue))") auto

definition confined :: "journal_state \<Rightarrow> filesystem \<Rightarrow> path \<Rightarrow> (journal_error, path \<times> path) result" where
  "confined state fs p =
     (case Rel (js_root state) p of
        None \<Rightarrow> Inl (EscapesRoot p)
      | Some relative \<Rightarrow>
          if length relative \<le> 1 then Inr (p, relative)
          else (case resolve_ancestors fs (js_root state) 0 (js_root state) (butlast relative) of
              Inl e \<Rightarrow> Inl e
            | Inr current \<Rightarrow>
                let resolved = current @ [last relative] in
                (case Rel (js_root state) resolved of None \<Rightarrow> Inl (EscapesRoot resolved) | Some r \<Rightarrow> Inr (resolved, r))))"

subsection \<open>Captures\<close>

definition coveredByAbsentTree :: "entry list \<Rightarrow> path \<Rightarrow> bool" where
  "coveredByAbsentTree es relative \<longleftrightarrow> list_ex (\<lambda>e. en_kind e = ''absent-tree'' \<and> strict_prefix (en_path e) relative) es"

definition backup_name :: "nat \<Rightarrow> string" where
  "backup_name index = ''backups/'' @ replicate (8 - length (show_nat index)) CHR ''0'' @ show_nat index"

definition zero_entry :: entry where
  "zero_entry = \<lparr>en_path = [], en_kind = [], en_mode = 0, en_link = [], en_backup = [], en_uid = 0, en_gid = 0, en_dev = 0, en_ino = 0, en_xattrs = []\<rparr>"

definition entry_metadata :: "path \<Rightarrow> string \<Rightarrow> metadata \<Rightarrow> entry" where
  "entry_metadata relative kind m =
     zero_entry\<lparr>en_path := relative, en_kind := kind, en_mode := md_mode m, en_uid := md_uid m, en_gid := md_gid m, en_xattrs := md_xattrs m\<rparr>"

definition prepareEntry :: "filesystem \<Rightarrow> path \<Rightarrow> path \<Rightarrow> nat \<Rightarrow> (journal_error, entry \<times> string option) result" where
  \<comment> \<open>the entry and the content to back up\<close>
  "prepareEntry fs resolved relative index =
     (case Lstat fs resolved of
        StatError ENOENT \<Rightarrow> Inr (zero_entry\<lparr>en_path := relative, en_kind := ''absent''\<rparr>, None)
      | StatError e \<Rightarrow> Inl (SystemError e)
      | Found (RegularFile i) \<Rightarrow>
          (case map_of (fs_inodes fs) i of
             None \<Rightarrow> Inl (SystemError EINVAL)
           | Some (content, m) \<Rightarrow>
               Inr ((entry_metadata relative ''file'' m)\<lparr>en_dev := fst i, en_ino := snd i, en_backup := backup_name index\<rparr>, Some content))
      | Found (Directory m) \<Rightarrow> Inr (entry_metadata relative ''directory'' m, None)
      | Found (Symlink m link) \<Rightarrow> Inr ((entry_metadata relative ''symlink'' m)\<lparr>en_link := link\<rparr>, None)
      | Found (SpecialFile m) \<Rightarrow> Inl (Unsupported resolved))"

definition add_backup :: "entry \<times> string option \<Rightarrow> string gomap \<Rightarrow> string gomap" where
  "add_backup prepared backups = (case prepared of (e, None) \<Rightarrow> backups | (e, Some content) \<Rightarrow> map_put (en_backup e) content backups)"

definition publish_entries :: "(entry \<times> string option) list \<Rightarrow> journal \<Rightarrow> journal" where
  \<comment> \<open>the backups, the entries in memory, \<^verbatim>\<open>appendEntries\<close> and the captured paths\<close>
  "publish_entries prepared j =
     (let es = map fst prepared; files = jn_files j
      in j\<lparr>jn_state := (jn_state j)\<lparr>js_entries := js_entries (jn_state j) @ es\<rparr>,
           jn_captured := map en_path es @ jn_captured j,
           jn_files := files\<lparr>jf_log := jf_log files @ es, jf_backups := fold add_backup prepared (jf_backups files)\<rparr>\<rparr>)"

definition Capture :: "journal \<Rightarrow> filesystem \<Rightarrow> path \<Rightarrow> (journal_error, journal) result" where
  "Capture j fs p =
     (if js_status (jn_state j) \<noteq> ''active'' then Inl (InactiveOperation (js_status (jn_state j)))
      else case confined (jn_state j) fs p of
          Inl e \<Rightarrow> Inl e
        | Inr (resolved, relative) \<Rightarrow>
            if relative \<in> set (jn_captured j) \<or> coveredByAbsentTree (js_entries (jn_state j)) relative then Inr j
            else (case prepareEntry fs resolved relative (length (js_entries (jn_state j))) of
                Inl e \<Rightarrow> Inl e
              | Inr prepared \<Rightarrow> Inr (publish_entries [prepared] j)))"

primrec prepare_batch ::
  "journal \<Rightarrow> filesystem \<Rightarrow> (entry \<times> string option) list \<Rightarrow> path list \<Rightarrow> (journal_error, (entry \<times> string option) list) result" where
  \<comment> \<open>the loop of \<^verbatim>\<open>CaptureBatch\<close>, after the prepared entries\<close>
  "prepare_batch j fs prepared [] = Inr prepared"
| "prepare_batch j fs prepared (p # ps) =
     (case confined (jn_state j) fs p of
        Inl e \<Rightarrow> Inl e
      | Inr (resolved, relative) \<Rightarrow>
          if relative \<in> set (jn_captured j) \<or> coveredByAbsentTree (js_entries (jn_state j)) relative \<or>
             relative \<in> set (map (en_path \<circ> fst) prepared)
          then prepare_batch j fs prepared ps
          else (case prepareEntry fs resolved relative (length (js_entries (jn_state j)) + length prepared) of
              Inl e \<Rightarrow> Inl e
            | Inr x \<Rightarrow> prepare_batch j fs (prepared @ [x]) ps))"

definition CaptureBatch :: "journal \<Rightarrow> filesystem \<Rightarrow> path list \<Rightarrow> (journal_error, journal) result" where
  "CaptureBatch j fs ps =
     (if js_status (jn_state j) \<noteq> ''active'' then Inl (InactiveOperation (js_status (jn_state j)))
      else case prepare_batch j fs [] ps of
          Inl e \<Rightarrow> Inl e
        | Inr prepared \<Rightarrow> if prepared = [] then Inr j else Inr (publish_entries prepared j))"

definition CaptureAbsentTree :: "journal \<Rightarrow> filesystem \<Rightarrow> path \<Rightarrow> (journal_error, journal) result" where
  "CaptureAbsentTree j fs p =
     (if js_status (jn_state j) \<noteq> ''active'' then Inl (InactiveOperation (js_status (jn_state j)))
      else case confined (jn_state j) fs p of
          Inl e \<Rightarrow> Inl e
        | Inr (resolved, relative) \<Rightarrow>
            if relative \<in> set (jn_captured j) then Inr j
            else (case Lstat fs resolved of
                Found obj \<Rightarrow> Inl (TreeRootExists resolved)
              | StatError ENOENT \<Rightarrow> Inr (publish_entries [(zero_entry\<lparr>en_path := relative, en_kind := ''absent-tree''\<rparr>, None)] j)
              | StatError e \<Rightarrow> Inl (SystemError e)))"

primrec capture_all :: "journal \<Rightarrow> filesystem \<Rightarrow> path list \<Rightarrow> journal_error option \<times> journal" where
  "capture_all j fs [] = (None, j)"
| "capture_all j fs (p # ps) = (case Capture j fs p of Inl e \<Rightarrow> (Some e, j) | Inr j' \<Rightarrow> capture_all j' fs ps)"

definition CaptureTree :: "journal \<Rightarrow> filesystem \<Rightarrow> path \<Rightarrow> journal_error option \<times> journal" where
  \<comment> \<open>with the captures made before an error\<close>
  "CaptureTree j fs p =
     (case confined (jn_state j) fs p of
        Inl e \<Rightarrow> (Some e, j)
      | Inr (resolved, relative) \<Rightarrow>
          (case Lstat fs resolved of
             StatError ENOENT \<Rightarrow> capture_all j fs [resolved]
           | StatError e \<Rightarrow> (Some (SystemError e), j)
           | Found obj \<Rightarrow> capture_all j fs (WalkDir fs resolved)))"

primrec remove_paths :: "path list \<Rightarrow> filesystem \<Rightarrow> journal_error option \<times> filesystem" where
  "remove_paths [] fs = (None, fs)"
| "remove_paths (p # ps) fs =
     (case Remove p fs of
        Inr fs' \<Rightarrow> remove_paths ps fs'
      | Inl ENOENT \<Rightarrow> remove_paths ps fs
      | Inl e \<Rightarrow> (Some (SystemError e), fs))"

definition RemoveTree :: "journal \<Rightarrow> filesystem \<Rightarrow> path \<Rightarrow> journal_error option \<times> journal \<times> filesystem" where
  "RemoveTree j fs p =
     (case confined (jn_state j) fs p of
        Inl e \<Rightarrow> (Some e, j, fs)
      | Inr (resolved, relative) \<Rightarrow>
          (case CaptureTree j fs resolved of
             (Some e, j') \<Rightarrow> (Some e, j', fs)
           | (None, j') \<Rightarrow> (case remove_paths (rev (WalkDir fs resolved)) fs of (err, fs') \<Rightarrow> (err, j', fs'))))"

definition Commit :: "journal \<Rightarrow> (journal_error, journal) result" where
  "Commit j =
     (if js_status (jn_state j) \<noteq> ''active'' then Inl (InactiveOperation (js_status (jn_state j)))
      else Inr (persist (j\<lparr>jn_state := (jn_state j)\<lparr>js_status := ''committed''\<rparr>\<rparr>)))"

subsection \<open>Rolling back\<close>

definition chain :: "'e option \<times> 'a \<Rightarrow> ('a \<Rightarrow> 'e option \<times> 'a) \<Rightarrow> 'e option \<times> 'a" where
  \<comment> \<open>the next call, unless there was an error; the state is kept in both cases\<close>
  "chain r f = (case r of (Some e, x) \<Rightarrow> (Some e, x) | (None, x) \<Rightarrow> f x)"

definition call :: "('a \<Rightarrow> ('e, 'a) result) \<Rightarrow> 'a \<Rightarrow> 'e option \<times> 'a" where
  "call f x = (case f x of Inl e \<Rightarrow> (Some e, x) | Inr y \<Rightarrow> (None, y))"

definition in_place :: "filesystem \<Rightarrow> path \<Rightarrow> entry \<Rightarrow> bool" where
  \<comment> \<open>\<^verbatim>\<open>restoreFileInPlace\<close>\<close>
  "in_place fs target e \<longleftrightarrow>
     (case Lstat fs target of
        Found (RegularFile i) \<Rightarrow> en_kind e = ''file'' \<and> en_dev e \<noteq> 0 \<and> en_ino e \<noteq> 0 \<and> i = (en_dev e, en_ino e)
      | _ \<Rightarrow> False)"

definition clear_target :: "path \<Rightarrow> entry \<Rightarrow> filesystem \<Rightarrow> (errno, filesystem) result" where
  \<comment> \<open>the removal of what is at the target\<close>
  "clear_target target e fs =
     (case Lstat fs target of
        StatError ENOENT \<Rightarrow> Inr fs
      | StatError err \<Rightarrow> Inl err
      | Found (Directory m) \<Rightarrow>
          (case Remove target fs of
             Inr fs' \<Rightarrow> Inr fs'
           | Inl err \<Rightarrow> if en_kind e \<noteq> ''directory'' then Inl err else Inr fs)
      | Found obj \<Rightarrow> if in_place fs target e then Inr fs else Remove target fs)"

definition restore_owner :: "entry \<Rightarrow> metadata \<Rightarrow> metadata" where
  "restore_owner e m = m\<lparr>md_uid := en_uid e, md_gid := en_gid e\<rparr>"

definition restore_xattrs :: "entry \<Rightarrow> metadata \<Rightarrow> metadata" where
  "restore_xattrs e m = m\<lparr>md_xattrs := foldl (\<lambda>xs (k, v). map_put k v xs) (md_xattrs m) (en_xattrs e)\<rparr>"

definition restore_mode :: "entry \<Rightarrow> metadata \<Rightarrow> metadata" where
  "restore_mode e m = (if en_kind e = ''symlink'' then m else m\<lparr>md_mode := en_mode e\<rparr>)"

definition Perm :: "nat \<Rightarrow> nat" where
  \<comment> \<open>a mode without the set-ID and sticky bits\<close>
  "Perm mode = mode mod 512"

definition recreate :: "string gomap \<Rightarrow> path \<Rightarrow> entry \<Rightarrow> filesystem \<Rightarrow> errno option \<times> filesystem" where
  "recreate backups target e fs =
     (if en_kind e = ''directory'' then call (MkdirAll (Perm (en_mode e)) target) fs
      else if en_kind e = ''symlink'' then chain (call (MkdirAll 493 (butlast target)) fs) (call (MakeSymlink (en_link e) target))
      else if en_kind e = ''file'' then
        chain (call (MkdirAll 448 (butlast target)) fs) (\<lambda>fs'.
          case map_of backups (en_backup e) of None \<Rightarrow> (Some ENOENT, fs') | Some content \<Rightarrow> call (WriteFile (Perm (en_mode e)) content target) fs')
      else (Some EINVAL, fs))"

definition restore_preimage :: "string gomap \<Rightarrow> path \<Rightarrow> entry \<Rightarrow> filesystem \<Rightarrow> errno option \<times> filesystem" where
  "restore_preimage backups target e fs =
     (if en_kind e = ''absent-tree'' then call (RemoveAll target) fs
      else chain (call (clear_target target e) fs) (\<lambda>fs1.
        if en_kind e = ''absent'' then (None, fs1)
        else chain (recreate backups target e fs1) (\<lambda>fs2.
          chain (call (change_metadata (restore_owner e) target) fs2) (\<lambda>fs3.
            chain (call (change_metadata (restore_xattrs e) target) fs3) (call (change_metadata (restore_mode e) target))))))"

primrec restore_entries ::
  "journal_state \<Rightarrow> string gomap \<Rightarrow> entry list \<Rightarrow> filesystem \<Rightarrow> journal_error option \<times> filesystem" where
  \<comment> \<open>the loop of \<^verbatim>\<open>Rollback\<close> over the entries, latest first\<close>
  "restore_entries state backups [] fs = (None, fs)"
| "restore_entries state backups (e # es) fs =
     (case confined state fs (js_root state @ en_path e) of
        Inl err \<Rightarrow> (Some err, fs)
      | Inr (target, relative) \<Rightarrow>
          (case restore_preimage backups target e fs of
             (Some err, fs') \<Rightarrow> (Some (SystemError err), fs')
           | (None, fs') \<Rightarrow> restore_entries state backups es fs'))"

definition Rollback :: "journal \<Rightarrow> filesystem \<Rightarrow> journal_error option \<times> journal \<times> filesystem" where
  "Rollback j fs =
     (let state = jn_state j in
      if js_status state = ''rolled-back'' then (None, j, fs)
      else if js_status state = ''committed'' then (Some CommittedOperation, j, fs)
      else case restore_entries state (jf_backups (jn_files j)) (rev (js_entries state)) fs of
          (Some err, fs') \<Rightarrow> (Some err, j, fs')
        | (None, fs') \<Rightarrow> (None, persist (j\<lparr>jn_state := state\<lparr>js_status := ''rolled-back''\<rparr>\<rparr>), fs'))"

subsection \<open>Recovery\<close>

definition path_ok :: "path \<Rightarrow> bool" where
  "path_ok p \<longleftrightarrow> list_all (\<lambda>part. part \<notin> {[], ''.'', ''..''} \<and> CHR ''/'' \<notin> set part) p"

definition backup_ok :: "string \<Rightarrow> bool" where
  "backup_ok b = (case split_on CHR ''/'' b of [] \<Rightarrow> False | part # parts \<Rightarrow> part = ''backups'' \<and> parts \<noteq> [] \<and> path_ok parts)"

primrec validate_entries :: "nat \<Rightarrow> path list \<Rightarrow> entry list \<Rightarrow> journal_error option" where
  "validate_entries index seen [] = None"
| "validate_entries index seen (e # es) =
     (if \<not> path_ok (en_path e) then Some (InvalidEntry index)
      else if en_path e \<in> set seen then Some (DuplicateEntry (en_path e))
      else if en_kind e \<in> {''absent'', ''absent-tree'', ''directory'', ''symlink''} then
        (if en_backup e \<noteq> [] then Some (InvalidEntry index) else validate_entries (index + 1) (en_path e # seen) es)
      else if en_kind e = ''file'' then
        (if \<not> backup_ok (en_backup e) then Some (InvalidEntry index) else validate_entries (index + 1) (en_path e # seen) es)
      else Some (InvalidEntry index))"

definition validateStateEntries :: "journal_state \<Rightarrow> journal_error option" where
  "validateStateEntries state =
     (if js_status state \<notin> {''active'', ''committed'', ''rolled-back''} then Some (InvalidStatus (js_status state))
      else validate_entries 1 [] (js_entries state))"

definition OpenJournal :: "journal_files \<Rightarrow> (journal_error, journal) result" where
  "OpenJournal files =
     (let state = jf_state files in
      if js_version state < 1 \<or> js_version state > JournalVersion \<or> (js_root state = [] \<and> \<not> js_live_root state) \<or>
         (js_root state \<noteq> [] \<and> js_live_root state) then Inl InvalidState
      else
        let state' = (if js_version state \<ge> 3 \<and> js_status state = ''active''
                      then state\<lparr>js_entries := js_entries state @ jf_log files\<rparr> else state)
        in case validateStateEntries state' of
            Some e \<Rightarrow> Inl e
          | None \<Rightarrow> Inr \<lparr>jn_state = state', jn_captured = map en_path (js_entries state'), jn_files = files\<rparr>)"

type_synonym journal_directory = "string \<times> journal_files"

primrec recover_all ::
  "journal_directory list \<Rightarrow> filesystem \<Rightarrow> string list \<Rightarrow> journal_error option \<times> string list \<times> journal_directory list \<times> filesystem" where
  \<comment> \<open>the second loop of \<^verbatim>\<open>RecoverActive\<close>, after the recovered directories; with the directories and files it leaves\<close>
  "recover_all [] fs recovered = (None, recovered, [], fs)"
| "recover_all (d # ds) fs recovered =
     (case OpenJournal (snd d) of
        Inl e \<Rightarrow> (Some e, recovered, d # ds, fs)
      | Inr j \<Rightarrow>
          if js_status (jn_state j) \<noteq> ''active'' then
            (case recover_all ds fs recovered of (err, names, ds', fs') \<Rightarrow> (err, names, d # ds', fs'))
          else (case Rollback j fs of
              (Some e, j', fs') \<Rightarrow> (Some e, recovered, (fst d, jn_files j') # ds, fs')
            | (None, j', fs') \<Rightarrow>
                (case recover_all ds fs' (recovered @ [fst d]) of (err, names, ds', fs'') \<Rightarrow> (err, names, (fst d, jn_files j') # ds', fs''))))"

definition RecoverActive ::
  "journal_directory list \<Rightarrow> filesystem \<Rightarrow> journal_error option \<times> string list \<times> journal_directory list \<times> filesystem" where
  "RecoverActive directories fs = recover_all (sort_key fst directories) fs []"

record summary =
  su_id :: string
  su_status :: string
  su_root :: path
  su_entries :: nat

definition journal_summary :: "string \<Rightarrow> journal \<Rightarrow> summary" where
  "journal_summary name j =
     \<lparr>su_id = name, su_status = js_status (jn_state j), su_root = js_root (jn_state j), su_entries = length (js_entries (jn_state j))\<rparr>"

primrec list_journals :: "journal_directory list \<Rightarrow> (journal_error, summary list) result" where
  "list_journals [] = Inr []"
| "list_journals (d # ds) =
     (case OpenJournal (snd d) of
        Inl e \<Rightarrow> Inl e
      | Inr j \<Rightarrow> (case list_journals ds of Inl e \<Rightarrow> Inl e | Inr xs \<Rightarrow> Inr (journal_summary (fst d) j # xs)))"

definition List :: "journal_directory list \<Rightarrow> (journal_error, summary list) result" where
  "List directories = (case list_journals directories of Inl e \<Rightarrow> Inl e | Inr xs \<Rightarrow> Inr (sort_key su_id xs))"

definition RollbackActive ::
  "journal_directory list \<Rightarrow> string \<Rightarrow> filesystem \<Rightarrow> (journal_error, summary) result \<times> journal_directory list \<times> filesystem" where
  "RollbackActive directories name fs =
     (if name = [] \<or> (CHR ''/'' \<in> set name \<and> name \<noteq> ''/'') \<or> name = ''.'' \<or> name = ''..'' then (Inl (InvalidIdentifier name), directories, fs)
      else case map_of directories name of
          None \<Rightarrow> (Inl (SystemError ENOENT), directories, fs)
        | Some files \<Rightarrow>
            (case OpenJournal files of
               Inl e \<Rightarrow> (Inl e, directories, fs)
             | Inr j \<Rightarrow>
                 if js_status (jn_state j) \<noteq> ''active'' then (Inl (InactiveOperation (js_status (jn_state j))), directories, fs)
                 else (case Rollback j fs of
                     (Some e, j', fs') \<Rightarrow> (Inl e, map_put name (jn_files j') directories, fs')
                   | (None, j', fs') \<Rightarrow>
                       (Inr (journal_summary name j\<lparr>su_status := js_status (jn_state j')\<rparr>), map_put name (jn_files j') directories, fs'))))"

subsection \<open>Paths inside the root\<close>

lemma Lstat_clearI:
  assumes ok: "fs_ok fs" and stat: "Lstat fs p = Found obj \<or> Lstat fs p = StatError ENOENT"
  shows "clear_path fs p" "object_at fs p = (case Lstat fs p of Found obj \<Rightarrow> Some obj | StatError e \<Rightarrow> None)"
proof -
  have "\<forall>k < length parts. passable fs (base @ take k parts)"
    if "lstat_from fs base parts = Found obj \<or> lstat_from fs base parts = StatError ENOENT" for base parts
    using that
  proof (induction parts arbitrary: base)
    case (Cons part parts)
    show ?case
    proof (cases "object_at fs base")
      case None
      have "object_at fs (base @ take k (part # parts)) = None" for k
      proof (rule ccontr)
        assume present: "object_at fs (base @ take k (part # parts)) \<noteq> None"
        then have "strict_prefix base (base @ take k (part # parts))" using None by (cases k) (auto simp: strict_prefix_def)
        then have "is_directory fs base" by (rule ancestor_directory [OF ok present])
        then show False using None by (auto elim: is_directoryE)
      qed
      then show ?thesis by (simp add: passable_def)
    next
      case (Some obj')
      then obtain m where m: "obj' = Directory m" using Cons.prems by (cases obj') auto
      then have IH: "\<forall>k < length parts. passable fs ((base @ [part]) @ take k parts)" using Cons.IH [of "base @ [part]"] Cons.prems Some by simp
      show ?thesis
      proof (intro allI impI)
        fix k assume "k < length (part # parts)"
        then show "passable fs (base @ take k (part # parts))" using IH Some m by (cases k) (auto simp: passable_def is_directory_def)
      qed
    qed
  qed simp
  from this [of "[]" p] stat show clear: "clear_path fs p" by (auto simp: clear_path_def list_all_iff Lstat_def)
  show "object_at fs p = (case Lstat fs p of Found obj \<Rightarrow> Some obj | StatError e \<Rightarrow> None)"
    using Lstat_clear [OF clear ok] by (simp split: option.split)
qed

lemma path_ok_simps [simp]: "path_ok []" "path_ok (part # p) \<longleftrightarrow> part \<notin> {[], ''.'', ''..''} \<and> CHR ''/'' \<notin> set part \<and> path_ok p"
  "path_ok (p @ q) \<longleftrightarrow> path_ok p \<and> path_ok q"
  by (auto simp: path_ok_def)

lemma path_ok_parts: "path_ok p \<Longrightarrow> path_ok (butlast p)" "path_ok p \<Longrightarrow> path_ok (drop n p)"
  by (auto simp: path_ok_def list_all_iff dest: in_set_butlastD in_set_dropD)

lemma split_on_parts: "part \<in> set (split_on d s) \<Longrightarrow> d \<notin> set part"
  by (induction d s arbitrary: part rule: split_on.induct) (auto split: if_splits list.splits)

lemma clean_join_ok: "path_ok p \<Longrightarrow> path_ok (clean_join p s)"
proof -
  have "path_ok (foldl clean_step p parts)" if "path_ok p" "\<forall>part \<in> set parts. CHR ''/'' \<notin> set part" for p parts
    using that by (induction parts arbitrary: p) (auto simp: clean_step_def path_ok_parts(1))
  then show "path_ok p \<Longrightarrow> path_ok (clean_join p s)" using split_on_parts by (auto simp: clean_join_def)
qed

lemma Rel_Some: "Rel root p = Some relative \<longleftrightarrow> p = root @ relative"
  by (auto simp: Rel_def prefix_def)

lemma resolve_ancestors_ok:
  assumes "resolve_ancestors fs root links current queue = Inr resolved" "path_ok root" "path_ok current" "path_ok queue" "prefix root current"
  shows "path_ok resolved \<and> prefix root resolved"
  using assms
proof (induction fs root links current queue rule: resolve_ancestors.induct)
  case (2 fs root links current part queue)
  have part: "\<not> (part = [] \<or> part = ''.'')" using "2.prems"(4) by auto
  show ?case
  proof (cases "Lstat fs (current @ [part])")
    case (Found obj)
    show ?thesis
    proof (cases obj)
      case (Symlink m target)
      let ?base = "if HasPrefix target ''/'' then root else current"
      obtain relative where relative: "Rel root (clean_join ?base target) = Some relative"
        "\<not> links + 1 > 255" "\<not> (HasPrefix target ''/'' \<and> root \<noteq> [])" "resolve_ancestors fs root (links + 1) root (relative @ queue) = Inr resolved"
        using "2.prems"(1) part Found Symlink by (auto simp: Let_def split: if_splits option.splits)
      have "path_ok (clean_join ?base target)" using clean_join_ok "2.prems"(2,3) by simp
      then have "path_ok relative" using relative(1) unfolding Rel_Some by (simp only: path_ok_simps)
      then show ?thesis using "2.IH"(3) [OF part refl Found Symlink relative(2,3,1)] relative(4) "2.prems"(2,4) Symlink by simp
    qed (use "2.IH"(2,4,5) [OF part refl Found] "2.prems" part Found in \<open>auto simp: Let_def\<close>)
  next
    case (StatError e)
    then show ?thesis using "2.prems" part by (cases e) (auto simp: Let_def)
  qed
qed simp

definition no_links :: "filesystem \<Rightarrow> path \<Rightarrow> path \<Rightarrow> bool" where
  \<comment> \<open>no symbolic link on the way from the root down to a path\<close>
  "no_links fs root p \<longleftrightarrow> (\<forall>q m link. strict_prefix root q \<and> prefix q p \<longrightarrow> object_at fs q \<noteq> Some (Symlink m link))"

lemma absent_below: "fs_ok fs \<Longrightarrow> object_at fs p = None \<Longrightarrow> prefix p q \<Longrightarrow> object_at fs q = None"
  by (metis ancestor_directory is_directoryE option.distinct(1) strict_prefix_def)

lemma resolve_ancestors_links:
  assumes "fs_ok fs" "resolve_ancestors fs root links current queue = Inr resolved" "no_links fs root current"
  shows "no_links fs root resolved"
  using assms
proof (induction fs root links current queue rule: resolve_ancestors.induct)
  case (2 fs root links current part queue)
  note lookup = Lstat_clearI(2) [OF "2.prems"(1), of "current @ [part]"]
  show ?case
  proof (cases "part = [] \<or> part = ''.''")
    case True
    then show ?thesis using "2.IH"(1) "2.prems" by auto
  next
    case part: False
    show ?thesis
    proof (cases "Lstat fs (current @ [part])")
      case (Found obj)
      have extend: "no_links fs root (current @ [part])" if "\<forall>m link. obj \<noteq> Symlink m link"
        using "2.prems"(3) lookup [of obj] Found that unfolding no_links_def by (auto simp: prefix_snoc)
      show ?thesis
      proof (cases obj)
        case (Symlink m target)
        let ?base = "if HasPrefix target ''/'' then root else current"
        obtain relative where relative: "Rel root (clean_join ?base target) = Some relative"
          "\<not> links + 1 > 255" "\<not> (HasPrefix target ''/'' \<and> root \<noteq> [])" "resolve_ancestors fs root (links + 1) root (relative @ queue) = Inr resolved"
          using "2.prems"(2) part Found Symlink by (auto simp: Let_def split: if_splits option.splits)
        moreover have "no_links fs root root" by (auto simp: no_links_def strict_prefix_def)
        ultimately show ?thesis using "2.IH"(3) [OF part refl Found Symlink relative(2,3,1)] "2.prems"(1) by simp
      qed (use "2.IH"(2,4,5) [OF part refl Found] "2.prems" part Found extend in \<open>auto simp: Let_def\<close>)
    next
      case (StatError e)
      then have e: "e = ENOENT" and resolved: "resolved = (current @ [part]) @ queue" using "2.prems"(2) part by (auto simp: Let_def split: errno.splits)
      have "object_at fs (current @ [part]) = None" using lookup StatError e by simp
      moreover have "prefix q current \<or> prefix (current @ [part]) q" if "prefix q resolved" for q
        using that unfolding resolved by (metis prefix_order.trans prefix_same_cases prefix_snoc prefixI)
      ultimately show ?thesis using "2.prems"(1,3) absent_below unfolding no_links_def by (metis option.distinct(1))
    qed
  qed
qed simp

lemma confined_ok:
  assumes "confined state fs p = Inr (resolved, relative)" "path_ok p" "path_ok (js_root state)"
  shows "resolved = js_root state @ relative" "path_ok relative"
proof -
  obtain r where r: "p = js_root state @ r" "path_ok r"
    using assms by (auto simp: confined_def Rel_Some split: option.splits)
  have "resolved = js_root state @ relative \<and> path_ok relative"
  proof (cases "length r \<le> 1")
    case True
    then show ?thesis using assms(1) r by (auto simp: confined_def Rel_def)
  next
    case False
    then obtain current where current: "resolve_ancestors fs (js_root state) 0 (js_root state) (butlast r) = Inr current"
      "resolved = current @ [last r]" "resolved = js_root state @ relative"
      using assms(1) unfolding confined_def Let_def r(1) by (auto simp: Rel_Some Rel_Some [of _ _ r] split: sum.splits option.splits)
    have "path_ok current" using resolve_ancestors_ok [OF current(1) assms(3,3)] r(2) path_ok_parts(1) by simp
    moreover have "path_ok [last r]" using r(2) False by (cases r rule: rev_cases) auto
    ultimately have "path_ok resolved" by (simp only: current(2) path_ok_simps(3))
    then show ?thesis using current(3) by simp
  qed
  then show "resolved = js_root state @ relative" "path_ok relative" by blast+
qed

lemma resolve_ancestors_clear:
  assumes "fs_ok fs" "path_ok queue" "\<And>q. prefix q (current @ queue) \<Longrightarrow> passable fs q"
  shows "resolve_ancestors fs root links current queue = Inr (current @ queue)"
  using assms(2,3)
proof (induction queue arbitrary: current)
  case (Cons part queue)
  have all: "passable fs q" if "prefix q (current @ [part])" for q
    using Cons.prems(2) [of q] prefix_order.trans [OF that, of "current @ part # queue"] by simp
  have "clear_path fs (current @ [part])" unfolding clear_pathD using all by (auto simp: strict_prefix_def)
  note stat = Lstat_clear [OF this assms(1)]
  show ?case
  proof (cases "object_at fs (current @ [part])")
    case None
    then show ?thesis using stat Cons.prems(1) by simp
  next
    case (Some obj)
    then obtain m where "obj = Directory m" using all [of "current @ [part]"] by (cases obj) (auto simp: passable_def is_directory_def)
    then show ?thesis using Some stat Cons.prems Cons.IH [of "current @ [part]"] by simp
  qed
qed simp

lemma confined_clear:
  assumes "fs_ok fs" "path_ok relative" "clear_path fs (js_root state @ relative)"
  shows "confined state fs (js_root state @ relative) = Inr (js_root state @ relative, relative)"
proof (cases "length relative \<le> 1")
  case True
  then show ?thesis by (simp add: confined_def Rel_def)
next
  case False
  then have split: "butlast relative @ [last relative] = relative" by (cases relative rule: rev_cases) auto
  have "passable fs q" if "prefix q (js_root state @ butlast relative)" for q
  proof -
    have "strict_prefix (js_root state @ butlast relative) (js_root state @ relative)"
      using split by (metis append_Nil2 append_assoc not_Cons_self2 prefixI same_append_eq strict_prefix_def)
    then have "strict_prefix q (js_root state @ relative)" using that by (metis prefix_order.le_less_trans)
    then show ?thesis using assms(3) unfolding clear_pathD by blast
  qed
  from resolve_ancestors_clear [OF assms(1) path_ok_parts(1) [OF assms(2)] this]
  show ?thesis using False split by (simp add: confined_def Rel_def)
qed

subsection \<open>Transactions\<close>

definition covers :: "path \<Rightarrow> entry list \<Rightarrow> path \<Rightarrow> bool" where
  "covers root es p \<longleftrightarrow>
     (\<exists>e \<in> set es. p = root @ en_path e \<or> en_kind e = ''absent-tree'' \<and> prefix (root @ en_path e) p)"

definition same_at :: "filesystem \<Rightarrow> filesystem \<Rightarrow> path \<Rightarrow> bool" where
  "same_at fs fs' p \<longleftrightarrow>
     object_at fs' p = object_at fs p \<and>
     (\<forall>i. object_at fs p = Some (RegularFile i) \<longrightarrow> map_of (fs_inodes fs') i = map_of (fs_inodes fs) i)"

inductive transaction :: "path \<Rightarrow> filesystem \<Rightarrow> journal \<Rightarrow> filesystem \<Rightarrow> bool" for root fs0 where
  \<comment> \<open>captures in any order, and changes of captured paths only\<close>
  start: "begin_journal root (root = []) = Inr j \<Longrightarrow> transaction root fs0 j fs0"
| capture: "transaction root fs0 j fs \<Longrightarrow> path_ok p \<Longrightarrow> Capture j fs p = Inr j' \<Longrightarrow> transaction root fs0 j' fs"
| batch: "transaction root fs0 j fs \<Longrightarrow> list_all path_ok ps \<Longrightarrow> CaptureBatch j fs ps = Inr j' \<Longrightarrow> transaction root fs0 j' fs"
| absent_tree: "transaction root fs0 j fs \<Longrightarrow> path_ok p \<Longrightarrow> CaptureAbsentTree j fs p = Inr j' \<Longrightarrow> transaction root fs0 j' fs"
| change: "transaction root fs0 j fs \<Longrightarrow> fs_ok fs' \<Longrightarrow> (\<And>p. \<not> covers root (js_entries (jn_state j)) p \<Longrightarrow> same_at fs fs' p) \<Longrightarrow>
    transaction root fs0 j fs'"

definition records_metadata :: "entry \<Rightarrow> metadata \<Rightarrow> bool" where
  "records_metadata e m \<longleftrightarrow> en_mode e = md_mode m \<and> en_uid e = md_uid m \<and> en_gid e = md_gid m \<and> en_xattrs e = md_xattrs m"

definition records_object :: "filesystem \<Rightarrow> string gomap \<Rightarrow> entry \<Rightarrow> file_object option \<Rightarrow> bool" where
  \<comment> \<open>an entry holds the preimage\<close>
  "records_object fs backups e x \<longleftrightarrow>
     (case x of
        None \<Rightarrow> en_kind e \<in> {''absent'', ''absent-tree''} \<and> en_backup e = []
      | Some (Directory m) \<Rightarrow> en_kind e = ''directory'' \<and> en_backup e = [] \<and> records_metadata e m
      | Some (Symlink m link) \<Rightarrow> en_kind e = ''symlink'' \<and> en_backup e = [] \<and> records_metadata e m \<and> en_link e = link
      | Some (SpecialFile m) \<Rightarrow> False
      | Some (RegularFile i) \<Rightarrow> en_kind e = ''file'' \<and> i = (en_dev e, en_ino e) \<and>
          (\<exists>content m. map_of (fs_inodes fs) i = Some (content, m) \<and> records_metadata e m \<and> map_of backups (en_backup e) = Some content))"

definition entry_inv :: "path \<Rightarrow> filesystem \<Rightarrow> string gomap \<Rightarrow> entry list \<Rightarrow> entry \<Rightarrow> bool" where
  \<comment> \<open>an entry after earlier ones: its preimage, and what must be captured before it\<close>
  "entry_inv root fs0 backups earlier e \<longleftrightarrow>
     path_ok (en_path e) \<and> en_path e \<notin> en_path ` set earlier \<and> records_object fs0 backups e (object_at fs0 (root @ en_path e)) \<and>
     (en_kind e = ''file'' \<longrightarrow> en_backup e = backup_name (length earlier)) \<and>
     (en_kind e = ''absent'' \<longrightarrow> \<not> coveredByAbsentTree earlier (en_path e)) \<and>
     (\<forall>q. strict_prefix q (root @ en_path e) \<longrightarrow> \<not> passable fs0 q \<longrightarrow> q \<in> (\<lambda>e. root @ en_path e) ` set earlier)"

definition entries_inv :: "path \<Rightarrow> filesystem \<Rightarrow> string gomap \<Rightarrow> entry list \<Rightarrow> bool" where
  "entries_inv root fs0 backups es \<longleftrightarrow> (\<forall>i < length es. entry_inv root fs0 backups (take i es) (es ! i))"

lemma entries_inv_snoc:
  "entries_inv root fs0 backups (es @ [e]) \<longleftrightarrow> entries_inv root fs0 backups es \<and> entry_inv root fs0 backups es e"
proof -
  have "entries_inv root fs0 backups (es @ [e]) \<longleftrightarrow>
      (\<forall>i < length es. entry_inv root fs0 backups (take i (es @ [e])) ((es @ [e]) ! i)) \<and> entry_inv root fs0 backups (take (length es) (es @ [e])) ((es @ [e]) ! length es)"
    unfolding entries_inv_def by (auto simp: less_Suc_eq)
  also have "\<dots> \<longleftrightarrow> entries_inv root fs0 backups es \<and> entry_inv root fs0 backups es e"
    unfolding entries_inv_def by (auto simp: nth_append)
  finally show ?thesis .
qed

lemma nat_of_padded: "nat_of_digits (replicate k CHR ''0'' @ s) = nat_of_digits s"
  by (induction k) (auto simp: digit_value_def code_def)

lemma backup_name_inj: "backup_name i = backup_name j \<longleftrightarrow> i = j"
  unfolding backup_name_def using nat_of_padded nat_of_show by (metis same_append_eq)

lemma entry_inv_backup:
  assumes "entry_inv root fs0 backups earlier e" "length earlier < n"
  shows "entry_inv root fs0 (map_put (backup_name n) content backups) earlier e"
proof -
  have "en_backup e \<noteq> backup_name n" if "en_kind e = ''file''" using assms that backup_name_inj [of "length earlier" n] by (auto simp: entry_inv_def)
  then show ?thesis using assms(1) by (auto simp: entry_inv_def records_object_def split: option.splits file_object.splits)
qed

lemma entries_inv_backup: "entries_inv root fs0 backups es \<Longrightarrow> entries_inv root fs0 (map_put (backup_name (length es)) content backups) es"
  unfolding entries_inv_def using entry_inv_backup by fastforce

lemma entries_invD:
  assumes "entries_inv root fs0 backups es" "e \<in> set es"
  shows "path_ok (en_path e)" "records_object fs0 backups e (object_at fs0 (root @ en_path e))"
  using assms by (auto simp: entries_inv_def entry_inv_def in_set_conv_nth)

lemma entries_distinct: "entries_inv root fs0 backups es \<Longrightarrow> distinct (map en_path es)"
  by (induction es rule: rev_induct) (auto simp: entries_inv_snoc entry_inv_def)

lemma tree_covers_absent:
  assumes "entries_inv root fs0 backups es" "fs_ok fs0" "covers root es p" "object_at fs0 p \<noteq> None"
  shows "p \<in> (\<lambda>e. root @ en_path e) ` set es"
proof -
  obtain e where e: "e \<in> set es" "p = root @ en_path e \<or> en_kind e = ''absent-tree'' \<and> prefix (root @ en_path e) p"
    using assms(3) by (auto simp: covers_def)
  show ?thesis
  proof (cases "p = root @ en_path e")
    case True
    then show ?thesis using e(1) by (simp add: image_iff) blast
  next
    case False
    then have tree: "en_kind e = ''absent-tree''" "prefix (root @ en_path e) p" using e(2) by simp_all
    have "object_at fs0 (root @ en_path e) = None"
      using entries_invD(2) [OF assms(1) e(1)] tree(1) by (auto simp: records_object_def split: option.splits file_object.splits)
    from absent_below [OF assms(2) this tree(2)] show ?thesis using assms(4) by simp
  qed
qed

lemma covers_snoc: "covers root (es @ [e]) p \<longleftrightarrow> covers root es p \<or> p = root @ en_path e \<or> en_kind e = ''absent-tree'' \<and> prefix (root @ en_path e) p"
  by (auto simp: covers_def)

lemma not_covered:
  assumes "relative \<notin> en_path ` set es" "\<not> coveredByAbsentTree es relative"
  shows "\<not> covers root es (root @ relative)"
  using assms by (auto simp: covers_def coveredByAbsentTree_def list_ex_iff strict_prefix_def)

lemma blocked_ancestor:
  assumes inv: "entries_inv root fs0 backups es" and ok: "fs_ok fs0" "\<And>p. \<not> covers root es p \<Longrightarrow> same_at fs0 fs p"
    and clear: "clear_path fs (root @ relative)" and q: "strict_prefix q (root @ relative)" "\<not> passable fs0 q"
  shows "q \<in> (\<lambda>e. root @ en_path e) ` set es"
proof (rule tree_covers_absent [OF inv ok(1)])
  have "passable fs q" using clear q(1) unfolding clear_pathD by blast
  then have "\<not> same_at fs0 fs q" using q(2) by (auto simp: same_at_def passable_def is_directory_def)
  then show "covers root es q" using ok(2) by blast
  show "object_at fs0 q \<noteq> None" using q(2) by (auto simp: passable_def)
qed

lemma prepared_entry:
  assumes inv: "entries_inv root fs0 backups es" and ok: "fs_ok fs0" "fs_ok fs" "\<And>p. \<not> covers root es p \<Longrightarrow> same_at fs0 fs p"
    and new: "path_ok relative" "relative \<notin> en_path ` set es" "\<not> coveredByAbsentTree es relative"
    and prepared: "prepareEntry fs (root @ relative) relative (length es) = Inr x"
  shows "entries_inv root fs0 (add_backup x backups) (es @ [fst x])" "en_path (fst x) = relative" "en_kind (fst x) \<noteq> ''absent-tree''"
proof -
  have same: "same_at fs0 fs (root @ relative)" using not_covered [OF new(2,3)] ok(3) by blast
  have "Lstat fs (root @ relative) = StatError ENOENT \<or> (\<exists>obj. Lstat fs (root @ relative) = Found obj)"
    using prepared by (cases "Lstat fs (root @ relative)") (auto simp: prepareEntry_def split: errno.splits)
  then have stat: "clear_path fs (root @ relative)" "object_at fs0 (root @ relative) = (case Lstat fs (root @ relative) of Found obj \<Rightarrow> Some obj | StatError e \<Rightarrow> None)"
    using Lstat_clearI [OF ok(2)] same by (auto simp: same_at_def)
  obtain e c where x: "x = (e, c)" by force
  have e: "en_path e = relative" "en_kind e \<noteq> ''absent-tree''" "c \<noteq> None \<Longrightarrow> en_backup e = backup_name (length es)"
    "en_kind e = ''file'' \<Longrightarrow> en_backup e = backup_name (length es)"
    using prepared unfolding x prepareEntry_def
    by (auto simp: entry_metadata_def zero_entry_def split: stat_result.splits errno.splits file_object.splits option.splits)
  show "en_path (fst x) = relative" "en_kind (fst x) \<noteq> ''absent-tree''" using e by (simp_all add: x)
  have records: "records_object fs0 (add_backup x backups) e (object_at fs0 (root @ relative))"
    using prepared same stat(2) unfolding x prepareEntry_def
    by (auto simp: records_object_def records_metadata_def entry_metadata_def zero_entry_def add_backup_def same_at_def
        split: stat_result.splits errno.splits file_object.splits option.splits) metis
  have "entries_inv root fs0 (add_backup x backups) es"
    using inv entries_inv_backup e(3) by (cases c) (auto simp: add_backup_def x)
  moreover have "entry_inv root fs0 (add_backup x backups) es e"
    using records new e blocked_ancestor [OF inv ok(1,3) stat(1)] by (auto simp: entry_inv_def)
  ultimately show "entries_inv root fs0 (add_backup x backups) (es @ [fst x])" by (simp add: entries_inv_snoc x)
qed

definition journal_inv :: "path \<Rightarrow> filesystem \<Rightarrow> journal \<Rightarrow> filesystem \<Rightarrow> bool" where
  "journal_inv root fs0 j fs \<longleftrightarrow>
     (let es = js_entries (jn_state j) in
      fs_ok fs \<and> js_version (jn_state j) = JournalVersion \<and> js_status (jn_state j) = ''active'' \<and> js_root (jn_state j) = root \<and>
      js_live_root (jn_state j) = (root = []) \<and> set (jn_captured j) = en_path ` set es \<and>
      jf_log (jn_files j) = es \<and> jf_state (jn_files j) = (jn_state j)\<lparr>js_entries := []\<rparr> \<and>
      entries_inv root fs0 (jf_backups (jn_files j)) es \<and> (\<forall>p. \<not> covers root es p \<longrightarrow> same_at fs0 fs p))"

lemma publish_inv:
  assumes "journal_inv root fs0 j fs" "entries_inv root fs0 (fold add_backup xs (jf_backups (jn_files j))) (js_entries (jn_state j) @ map fst xs)"
  shows "journal_inv root fs0 (publish_entries xs j) fs"
proof -
  have "covers root (js_entries (jn_state j) @ map fst xs) p" if "covers root (js_entries (jn_state j)) p" for p
    using that by (auto simp: covers_def)
  then show ?thesis using assms by (auto simp: journal_inv_def publish_entries_def Let_def image_Un image_comp)
qed

lemma capture_inv:
  assumes inv: "journal_inv root fs0 j fs" and ok: "fs_ok fs0" "path_ok root" "path_ok p" and result: "Capture j fs p = Inr j'"
  shows "journal_inv root fs0 j' fs"
proof -
  let ?es = "js_entries (jn_state j)"
  have parts: "fs_ok fs" "js_status (jn_state j) = ''active''" "js_root (jn_state j) = root" "set (jn_captured j) = en_path ` set ?es"
    "entries_inv root fs0 (jf_backups (jn_files j)) ?es" "\<And>p. \<not> covers root ?es p \<Longrightarrow> same_at fs0 fs p"
    using inv by (simp_all add: journal_inv_def Let_def)
  obtain resolved relative where c: "confined (jn_state j) fs p = Inr (resolved, relative)"
    using result parts(2) by (cases "confined (jn_state j) fs p") (auto simp: Capture_def)
  note path = confined_ok [OF c ok(3), unfolded parts(3), OF ok(2)]
  show ?thesis
  proof (cases "relative \<in> set (jn_captured j) \<or> coveredByAbsentTree ?es relative")
    case True
    then show ?thesis using result c parts(2) inv by (simp add: Capture_def)
  next
    case False
    then obtain x where x: "prepareEntry fs (root @ relative) relative (length ?es) = Inr x" "j' = publish_entries [x] j"
      using result c parts(2) path(1) by (auto simp: Capture_def split: sum.splits)
    have "entries_inv root fs0 (add_backup x (jf_backups (jn_files j))) (?es @ [fst x])"
      using prepared_entry(1) [OF parts(5) ok(1) parts(1,6) path(2) _ _ x(1)] False parts(4) by auto
    then show ?thesis using publish_inv [OF inv, of "[x]"] x(2) by simp
  qed
qed

lemma prepare_batch_inv:
  assumes inv: "journal_inv root fs0 j fs" and ok: "fs_ok fs0" "path_ok root"
    and "list_all path_ok ps" "prepare_batch j fs xs ps = Inr ys"
    and "entries_inv root fs0 (fold add_backup xs (jf_backups (jn_files j))) (js_entries (jn_state j) @ map fst xs)"
      "\<forall>x \<in> set xs. en_kind (fst x) \<noteq> ''absent-tree''"
  shows "entries_inv root fs0 (fold add_backup ys (jf_backups (jn_files j))) (js_entries (jn_state j) @ map fst ys)"
  using assms(4-)
proof (induction ps arbitrary: xs)
  case (Cons p ps)
  let ?es = "js_entries (jn_state j)"
  have parts: "fs_ok fs" "js_root (jn_state j) = root" "set (jn_captured j) = en_path ` set ?es"
    "\<And>p. \<not> covers root ?es p \<Longrightarrow> same_at fs0 fs p"
    using inv by (simp_all add: journal_inv_def Let_def)
  obtain resolved relative where c: "confined (jn_state j) fs p = Inr (resolved, relative)"
    using Cons.prems(2) by (cases "confined (jn_state j) fs p") auto
  have "path_ok p" using Cons.prems(1) by simp
  note path = confined_ok [OF c this, unfolded parts(2), OF ok(2)]
  show ?case
  proof (cases "relative \<in> set (jn_captured j) \<or> coveredByAbsentTree ?es relative \<or> relative \<in> set (map (en_path \<circ> fst) xs)")
    case True
    then show ?thesis using Cons c by simp
  next
    case False
    then obtain x where x: "prepareEntry fs (root @ relative) relative (length (?es @ map fst xs)) = Inr x" "prepare_batch j fs (xs @ [x]) ps = Inr ys"
      using Cons.prems(2) c path(1) by (auto split: sum.splits)
    have "\<not> covers root (?es @ map fst xs) p \<Longrightarrow> same_at fs0 fs p" for p using parts(4) by (auto simp: covers_def)
    moreover have "relative \<notin> en_path ` set (?es @ map fst xs)" "\<not> coveredByAbsentTree (?es @ map fst xs) relative"
      using False parts(3) Cons.prems(4) by (auto simp: coveredByAbsentTree_def list_ex_iff)
    ultimately have "entries_inv root fs0 (add_backup x (fold add_backup xs (jf_backups (jn_files j)))) ((?es @ map fst xs) @ [fst x])"
      "en_kind (fst x) \<noteq> ''absent-tree''"
      using prepared_entry(1,3) [OF Cons.prems(3) ok(1) parts(1) _ path(2) _ _ x(1)] by blast+
    then show ?thesis using Cons.IH [of "xs @ [x]"] Cons.prems(1,4) x(2) by simp
  qed
qed simp

lemma batch_inv:
  assumes inv: "journal_inv root fs0 j fs" and ok: "fs_ok fs0" "path_ok root" "list_all path_ok ps" and result: "CaptureBatch j fs ps = Inr j'"
  shows "journal_inv root fs0 j' fs"
proof -
  have parts: "js_status (jn_state j) = ''active''" "entries_inv root fs0 (jf_backups (jn_files j)) (js_entries (jn_state j))"
    using inv by (simp_all add: journal_inv_def Let_def)
  obtain xs where xs: "prepare_batch j fs [] ps = Inr xs" "j' = (if xs = [] then j else publish_entries xs j)"
    using result parts(1) by (auto simp: CaptureBatch_def split: sum.splits if_splits)
  have "entries_inv root fs0 (fold add_backup xs (jf_backups (jn_files j))) (js_entries (jn_state j) @ map fst xs)"
    using prepare_batch_inv [OF inv ok xs(1)] parts(2) by simp
  then show ?thesis using publish_inv [OF inv] xs(2) inv by simp
qed

lemma absent_tree_inv:
  assumes inv: "journal_inv root fs0 j fs" and ok: "fs_ok fs0" "path_ok root" "path_ok p" and result: "CaptureAbsentTree j fs p = Inr j'"
  shows "journal_inv root fs0 j' fs"
proof -
  let ?es = "js_entries (jn_state j)"
  have parts: "fs_ok fs" "js_status (jn_state j) = ''active''" "js_root (jn_state j) = root" "set (jn_captured j) = en_path ` set ?es"
    "entries_inv root fs0 (jf_backups (jn_files j)) ?es" "\<And>p. \<not> covers root ?es p \<Longrightarrow> same_at fs0 fs p"
    using inv by (simp_all add: journal_inv_def Let_def)
  obtain resolved relative where c: "confined (jn_state j) fs p = Inr (resolved, relative)"
    using result parts(2) by (cases "confined (jn_state j) fs p") (auto simp: CaptureAbsentTree_def)
  note path = confined_ok [OF c ok(3), unfolded parts(3), OF ok(2)]
  show ?thesis
  proof (cases "relative \<in> set (jn_captured j)")
    case True
    then show ?thesis using result c parts(2) inv by (simp add: CaptureAbsentTree_def)
  next
    case False
    let ?e = "zero_entry\<lparr>en_path := relative, en_kind := ''absent-tree''\<rparr>"
    have stat: "Lstat fs (root @ relative) = StatError ENOENT" "j' = publish_entries [(?e, None)] j"
      using result c parts(2) path(1) False by (auto simp: CaptureAbsentTree_def split: stat_result.splits errno.splits)
    then have clear: "clear_path fs (root @ relative)" "object_at fs (root @ relative) = None"
      using Lstat_clearI [OF parts(1), of "root @ relative"] by simp_all
    have "object_at fs0 (root @ relative) = None"
    proof (rule ccontr)
      assume present: "object_at fs0 (root @ relative) \<noteq> None"
      then have "\<not> same_at fs0 fs (root @ relative)" using clear(2) by (auto simp: same_at_def)
      then have "covers root ?es (root @ relative)" using parts(6) by blast
      from tree_covers_absent [OF parts(5) ok(1) this present] show False using False parts(4) by auto
    qed
    then have "entry_inv root fs0 (jf_backups (jn_files j)) ?es ?e"
      using False parts(4) path(2) blocked_ancestor [OF parts(5) ok(1) parts(6) clear(1)]
      by (auto simp: entry_inv_def records_object_def zero_entry_def)
    then show ?thesis using publish_inv [OF inv, of "[(?e, None)]"] stat(2) parts(5) by (simp add: entries_inv_snoc add_backup_def)
  qed
qed

lemma transaction_inv:
  assumes "transaction root fs0 j fs" "fs_ok fs0" "path_ok root"
  shows "journal_inv root fs0 j fs"
  using assms
proof (induction rule: transaction.induct)
  case (start j)
  then show ?case by (auto simp: begin_journal_def journal_inv_def entries_inv_def same_at_def Let_def split: if_splits)
next
  case (change j fs fs')
  then have inv: "journal_inv root fs0 j fs" by blast
  have "same_at fs0 fs' p" if "\<not> covers root (js_entries (jn_state j)) p" for p
    using change.hyps(3) [OF that] that inv by (auto simp: journal_inv_def Let_def same_at_def)
  then show ?case using inv change.hyps(2) by (simp add: journal_inv_def Let_def)
qed (use capture_inv batch_inv absent_tree_inv in blast)+

subsection \<open>Restoring one entry\<close>

lemma map_of_fold_put: "map_of (foldl (\<lambda>xs (k, v). map_put k v xs) xs ys) = map_of xs ++ map_of (rev ys)"
  by (induction ys arbitrary: xs) (auto simp: map_add_def fun_eq_iff split: option.split)

lemma restored_xattrs:
  assumes ok: "map_ok xs" "map_ok ys" and keys: "fst ` set xs \<subseteq> fst ` set ys"
  shows "foldl (\<lambda>xs (k, v). map_put k v xs) xs ys = ys"
proof (rule map_ok_unique [OF go_map.foldl_put_ok [OF ok(1)] ok(2)])
  have rev: "map_of (rev ys) = map_of ys" using map_ok_distinct [OF ok(2)] map_of_inject_set [of "rev ys" ys] by (simp add: rev_map [symmetric])
  have "map_of xs k = None" if "map_of ys k = None" for k using that keys by (auto simp: map_of_eq_None_iff)
  then show "map_of (foldl (\<lambda>xs (k, v). map_put k v xs) xs ys) = map_of ys"
    unfolding map_of_fold_put rev by (auto simp: map_add_def fun_eq_iff split: option.split)
qed

definition restore_all :: "entry \<Rightarrow> metadata \<Rightarrow> metadata" where
  "restore_all e m = restore_mode e (restore_xattrs e (restore_owner e m))"

lemma restore_all_exact:
  assumes "records_metadata e m" "map_ok (md_xattrs m)" "map_ok (md_xattrs b)" "fst ` set (md_xattrs b) \<subseteq> fst ` set (en_xattrs e)"
    "en_kind e = ''symlink'' \<Longrightarrow> md_mode b = md_mode m"
  shows "restore_all e b = m"
  using assms restored_xattrs [of "md_xattrs b" "md_xattrs m"]
  by (cases m) (auto simp: restore_all_def restore_mode_def restore_xattrs_def restore_owner_def records_metadata_def)

lemma restore_metadata:
  assumes ok: "fs_ok fs" "view_at fs p = Some v" and link: "\<And>m l. v = SymlinkView m l \<Longrightarrow> en_kind e = ''symlink'' \<and> md_mode m = 511"
  shows "\<exists>fs'. chain (call (change_metadata (restore_owner e) p) fs) (\<lambda>fs3.
      chain (call (change_metadata (restore_xattrs e) p) fs3) (call (change_metadata (restore_mode e) p))) = (None, fs') \<and>
    fs_ok fs' \<and> view_at fs' p = Some (set_metadata v (restore_all e)) \<and> same_places p fs fs'"
proof -
  have xattrs: "map_ok (md_xattrs m) \<Longrightarrow> map_ok (md_xattrs (restore_owner e m))" "map_ok (md_xattrs m) \<Longrightarrow> map_ok (md_xattrs (restore_xattrs e m))"
    "map_ok (md_xattrs m) \<Longrightarrow> map_ok (md_xattrs (restore_mode e m))" for m
    using go_map.foldl_put_ok by (simp_all add: restore_owner_def restore_xattrs_def restore_mode_def)
  let ?v1 = "set_metadata v (restore_owner e)"
  let ?v2 = "set_metadata ?v1 (restore_xattrs e)"
  obtain fs1 where fs1: "change_metadata (restore_owner e) p fs = Inr fs1" "fs_ok fs1" "view_at fs1 p = Some ?v1" "same_places p fs fs1"
    using change_metadata_effect [OF ok, of "restore_owner e"] xattrs(1) link by (auto simp: restore_owner_def)
  have link1: "en_kind e = ''symlink'' \<and> md_mode m = 511" if "?v1 = SymlinkView m l" for m l
    using that link by (auto simp: set_metadata_def restore_owner_def split: view.splits)
  obtain fs2 where fs2: "change_metadata (restore_xattrs e) p fs1 = Inr fs2" "fs_ok fs2" "view_at fs2 p = Some ?v2" "same_places p fs1 fs2"
    using change_metadata_effect [OF fs1(2,3), of "restore_xattrs e"] xattrs(2) link1 by (auto simp: restore_xattrs_def)
  have link2: "en_kind e = ''symlink'' \<and> md_mode m = 511" if "?v2 = SymlinkView m l" for m l
    using that link by (auto simp: set_metadata_def restore_owner_def restore_xattrs_def split: view.splits)
  have mode: "md_mode (restore_mode e m) = 511" if "?v2 = SymlinkView m l" for m l
    using link2 [OF that] by (simp add: restore_mode_def)
  obtain fs3 where fs3: "change_metadata (restore_mode e) p fs2 = Inr fs3" "fs_ok fs3" "view_at fs3 p = Some (set_metadata ?v2 (restore_mode e))" "same_places p fs2 fs3"
    using change_metadata_effect [OF fs2(2,3), of "restore_mode e"] xattrs(3) mode by blast
  have "set_metadata ?v2 (restore_mode e) = set_metadata v (restore_all e)" by (simp add: set_metadata_def restore_all_def split: view.split)
  moreover have "same_places p fs fs3" by (rule same_places_trans [OF same_places_trans [OF fs1(4) fs2(4)] fs3(4)])
  ultimately show ?thesis using fs3(2,3) by (simp add: chain_def call_def fs1(1) fs2(1) fs3(1))
qed

definition restored :: "entry \<Rightarrow> path \<Rightarrow> view option \<Rightarrow> filesystem \<Rightarrow> filesystem \<Rightarrow> bool" where
  \<comment> \<open>a path shows a view; elsewhere only missing ancestors were created, and no other inode was touched\<close>
  "restored e p v fs fs' \<longleftrightarrow>
     fs_ok fs' \<and> view_at fs' p = v \<and>
     (\<forall>q. q \<noteq> p \<longrightarrow> object_at fs' q = object_at fs q \<or>
        object_at fs q = None \<and> strict_prefix q p \<and> v \<noteq> None \<and> (\<exists>mode. object_at fs' q = Some (Directory (created_metadata mode)))) \<and>
     (\<forall>i. object_at fs' p \<noteq> Some (RegularFile i) \<longrightarrow> map_of (fs_inodes fs') i = map_of (fs_inodes fs) i) \<and>
     (\<forall>i. object_at fs' p = Some (RegularFile i) \<longrightarrow> object_at fs p = Some (RegularFile i) \<and> i = (en_dev e, en_ino e) \<or> map_of (fs_inodes fs) i = None)"

lemma cleared_target:
  assumes ok: "fs_ok fs" and clear: "clear_path fs p" and dir: "has_children fs p \<or> p = [] \<Longrightarrow> en_kind e = ''directory''"
  obtains fs1 where "clear_target p e fs = Inr fs1" "fs_ok fs1" "fs_inodes fs1 = fs_inodes fs" "\<And>q. q \<noteq> p \<Longrightarrow> object_at fs1 q = object_at fs q"
    "object_at fs1 p = None \<or> fs1 = fs \<and> in_place fs p e \<or> fs1 = fs \<and> is_directory fs p \<and> en_kind e = ''directory''"
proof (cases "object_at fs p")
  case None
  then show thesis using that [of fs] ok Lstat_clear [OF clear ok] by (simp add: clear_target_def)
next
  case (Some obj)
  note stat = Lstat_Found [OF ok Some]
  show thesis
  proof (cases "in_place fs p e")
    case True
    then show thesis using that [of fs] ok stat by (simp add: clear_target_def in_place_def split: file_object.splits)
  next
    case other: False
    show thesis
    proof (cases "has_children fs p \<or> p = []")
      case True
      then have directory: "is_directory fs p" using no_children [OF ok] fs_okD(1) [OF ok] by blast
      then obtain m where m: "obj = Directory m" using Some by (auto simp: is_directory_iff)
      obtain err where "Remove p fs = Inl err" using Remove_directory_busy [OF ok directory] True by blast
      then show thesis using that [of fs] ok stat m dir [OF True] directory by (simp add: clear_target_def)
    next
      case False
      then have "Remove p fs = Inr (delete_object p fs)" using Remove_file [OF ok Some] by simp
      then have "clear_target p e fs = Inr (delete_object p fs)" using stat other by (simp add: clear_target_def split: file_object.split)
      then show thesis using that delete_ok [OF ok] False by simp
    qed
  qed
qed

lemma restored_metadata:
  assumes "restored e p (Some v2) fs fs2" "same_places p fs2 fs'" "fs_ok fs'" "view_at fs' p = Some v"
  shows "restored e p (Some v) fs fs'"
  using assms by (auto simp: restored_def same_places_def)

lemma made_parents:
  assumes ok: "fs_ok fs1" and same: "\<And>q. q \<noteq> p \<Longrightarrow> object_at fs1 q = object_at fs q" and clear: "clear_path fs p" and p: "p \<noteq> []"
  obtains fs2 where "MkdirAll mode (butlast p) fs1 = Inr fs2" "fs_ok fs2" "fs_inodes fs2 = fs_inodes fs1" "is_directory fs2 (butlast p)"
    "object_at fs2 p = object_at fs1 p"
    "\<forall>q. q \<noteq> p \<longrightarrow> object_at fs2 q = object_at fs q \<or> object_at fs q = None \<and> strict_prefix q p \<and> object_at fs2 q = Some (Directory (created_metadata mode))"
proof -
  have pass: "passable fs1 q" if "strict_prefix q p" for q
    using clear that same [of q] unfolding clear_pathD by (auto simp: passable_def is_directory_def strict_prefix_def)
  have parent: "strict_prefix (butlast p) p" by (rule parent_strict [OF p])
  have "clear_path fs1 (butlast p)" unfolding clear_pathD using pass parent by (metis prefix_order.less_trans)
  from MkdirAll_clear [OF ok this pass [OF parent], of mode]
  obtain fs2 where fs2: "MkdirAll mode (butlast p) fs1 = Inr fs2" "fs_ok fs2" "fs_inodes fs2 = fs_inodes fs1"
    "\<And>q. object_at fs2 q = (if object_at fs1 q = None \<and> prefix q (butlast p) then Some (Directory (created_metadata mode)) else object_at fs1 q)" by blast
  have "is_directory fs2 (butlast p)" using pass [OF parent] by (auto simp: is_directory_def fs2(4) passable_def)
  moreover have "\<not> prefix p (butlast p)" using parent by (auto simp: strict_prefix_def dest: prefix_order.antisym)
  moreover have "strict_prefix q p" if "prefix q (butlast p)" for q using that parent by (metis prefix_order.le_less_trans)
  ultimately show thesis using that [OF fs2(1-3)] fs2(4) same by auto
qed

lemma recreate_directory:
  assumes ok: "fs_ok fs" and clear: "clear_path fs p" and e: "en_kind e = ''directory''" "records_metadata e m" "map_ok (md_xattrs m)"
    and xattrs: "\<And>b. view_at fs p = Some (DirectoryView b) \<Longrightarrow> fst ` set (md_xattrs b) \<subseteq> fst ` set (en_xattrs e)"
  shows "\<exists>fs1 fs2 b. clear_target p e fs = Inr fs1 \<and> recreate backups p e fs1 = (None, fs2) \<and> restored e p (Some (DirectoryView b)) fs fs2 \<and> restore_all e b = m"
proof -
  obtain fs1 where fs1: "clear_target p e fs = Inr fs1" "fs_ok fs1" "fs_inodes fs1 = fs_inodes fs" "\<And>q. q \<noteq> p \<Longrightarrow> object_at fs1 q = object_at fs q"
    "object_at fs1 p = None \<or> fs1 = fs \<and> in_place fs p e \<or> fs1 = fs \<and> is_directory fs p \<and> en_kind e = ''directory''"
    by (rule cleared_target [OF ok clear, of e]) (use e(1) in blast)+
  have last: "object_at fs1 p = None \<or> fs1 = fs \<and> is_directory fs p" using fs1(5) e(1) by (auto simp: in_place_def split: stat_result.splits file_object.splits)
  have "clear_path fs1 p" using clear fs1(4) unfolding clear_pathD by (auto simp: passable_def is_directory_def strict_prefix_def)
  moreover have "passable fs1 p" using last by (auto simp: passable_def)
  ultimately obtain fs2 where fs2: "MkdirAll (Perm (en_mode e)) p fs1 = Inr fs2" "fs_ok fs2" "fs_inodes fs2 = fs_inodes fs1"
    "\<And>q. object_at fs2 q = (if object_at fs1 q = None \<and> prefix q p then Some (Directory (created_metadata (Perm (en_mode e)))) else object_at fs1 q)"
    using MkdirAll_clear [OF fs1(2), of p "Perm (en_mode e)"] by blast
  obtain b where b: "object_at fs2 p = Some (Directory b)" "map_ok (md_xattrs b)" "fst ` set (md_xattrs b) \<subseteq> fst ` set (en_xattrs e)"
  proof (cases "object_at fs1 p")
    case None
    then show ?thesis using that [of "created_metadata (Perm (en_mode e))"] fs2(4) by (simp add: created_metadata_def map_ok_def)
  next
    case (Some obj)
    then obtain b where "object_at fs p = Some (Directory b)" "fs1 = fs" using last by (auto simp: is_directory_iff)
    then show ?thesis using that [of b] fs2(4) fs_okD(3) [OF ok, of p] xattrs [of b] by (auto simp: object_ok_def view_at_def object_view_def)
  qed
  have "view_at fs2 p = Some (DirectoryView b)" using b(1) by (simp add: view_at_def object_view_def)
  then have "restored e p (Some (DirectoryView b)) fs fs2"
    using fs2 fs1(3,4) b(1) by (auto simp: restored_def strict_prefix_def)
  moreover have "restore_all e b = m" by (rule restore_all_exact [OF e(2,3) b(2,3)]) (use e(1) in simp)
  moreover have "recreate backups p e fs1 = (None, fs2)" using e(1) fs2(1) by (simp add: recreate_def call_def)
  ultimately show ?thesis using fs1(1) by blast
qed

lemma recreate_symlink:
  assumes ok: "fs_ok fs" and clear: "clear_path fs p" and e: "en_kind e = ''symlink''" "records_metadata e m" "map_ok (md_xattrs m)" "md_mode m = 511"
    and p: "p \<noteq> []" "\<not> has_children fs p"
  shows "\<exists>fs1 fs2 b. clear_target p e fs = Inr fs1 \<and> recreate backups p e fs1 = (None, fs2) \<and>
    restored e p (Some (SymlinkView b (en_link e))) fs fs2 \<and> restore_all e b = m \<and> md_mode b = 511"
proof -
  obtain fs1 where fs1: "clear_target p e fs = Inr fs1" "fs_ok fs1" "fs_inodes fs1 = fs_inodes fs" "\<And>q. q \<noteq> p \<Longrightarrow> object_at fs1 q = object_at fs q"
    "object_at fs1 p = None \<or> fs1 = fs \<and> in_place fs p e \<or> fs1 = fs \<and> is_directory fs p \<and> en_kind e = ''directory''"
    by (rule cleared_target [OF ok clear, of e]) (use p in blast)+
  have none: "object_at fs1 p = None" using fs1(5) e(1) by (auto simp: in_place_def split: stat_result.splits file_object.splits)
  obtain fs2 where fs2: "MkdirAll 493 (butlast p) fs1 = Inr fs2" "fs_ok fs2" "fs_inodes fs2 = fs_inodes fs1" "is_directory fs2 (butlast p)"
    "object_at fs2 p = object_at fs1 p"
    "\<forall>q. q \<noteq> p \<longrightarrow> object_at fs2 q = object_at fs q \<or> object_at fs q = None \<and> strict_prefix q p \<and> object_at fs2 q = Some (Directory (created_metadata 493))"
    by (rule made_parents [OF fs1(2,4) clear p(1), of 493]) blast
  let ?b = "created_metadata 511"
  let ?fs = "put_object p (Symlink ?b (en_link e)) fs2"
  have b: "map_ok (md_xattrs ?b)" "fst ` set (md_xattrs ?b) \<subseteq> fst ` set (en_xattrs e)" "md_mode ?b = 511" by (simp_all add: created_metadata_def map_ok_def)
  have nodir: "\<not> is_directory fs2 p" using none fs2(5) by (simp add: is_directory_def)
  have "fs_ok ?fs" by (rule put_ok [OF fs2(2,4)]) (use b nodir in \<open>auto simp: object_ok_def\<close>)
  moreover have "view_at ?fs p = Some (SymlinkView ?b (en_link e))" by (simp add: view_at_def object_view_def)
  ultimately have "restored e p (Some (SymlinkView ?b (en_link e))) fs ?fs"
    using fs2(3,6) fs1(3) by (auto simp: restored_def)
  moreover have "restore_all e ?b = m" by (rule restore_all_exact [OF e(2,3) b(1,2)]) (use e(4) b(3) in simp)
  moreover have "recreate backups p e fs1 = (None, ?fs)"
    using e(1) fs2(1) MakeSymlink_new [OF fs2(2) _ fs2(4)] none fs2(5) by (simp add: recreate_def call_def chain_def)
  ultimately show ?thesis using fs1(1) b(3) by blast
qed

lemma recreate_file:
  assumes ok: "fs_ok fs" and clear: "clear_path fs p" and e: "en_kind e = ''file''" "records_metadata e m" "map_ok (md_xattrs m)"
    and backup: "map_of backups (en_backup e) = Some content" and p: "p \<noteq> []" "\<not> has_children fs p"
    and xattrs: "\<And>b c. object_at fs p = Some (RegularFile (en_dev e, en_ino e)) \<Longrightarrow> view_at fs p = Some (FileView c b) \<Longrightarrow>
      fst ` set (md_xattrs b) \<subseteq> fst ` set (en_xattrs e)"
  shows "\<exists>fs1 fs2 b. clear_target p e fs = Inr fs1 \<and> recreate backups p e fs1 = (None, fs2) \<and> restored e p (Some (FileView content b)) fs fs2 \<and> restore_all e b = m"
proof -
  obtain fs1 where fs1: "clear_target p e fs = Inr fs1" "fs_ok fs1" "fs_inodes fs1 = fs_inodes fs" "\<And>q. q \<noteq> p \<Longrightarrow> object_at fs1 q = object_at fs q"
    "object_at fs1 p = None \<or> fs1 = fs \<and> in_place fs p e \<or> fs1 = fs \<and> is_directory fs p \<and> en_kind e = ''directory''"
    by (rule cleared_target [OF ok clear, of e]) (use p in blast)+
  obtain fs2 where fs2: "MkdirAll 448 (butlast p) fs1 = Inr fs2" "fs_ok fs2" "fs_inodes fs2 = fs_inodes fs1" "is_directory fs2 (butlast p)"
    "object_at fs2 p = object_at fs1 p"
    "\<forall>q. q \<noteq> p \<longrightarrow> object_at fs2 q = object_at fs q \<or> object_at fs q = None \<and> strict_prefix q p \<and> object_at fs2 q = Some (Directory (created_metadata 448))"
    by (rule made_parents [OF fs1(2,4) clear p(1), of 448]) blast
  have step: "recreate backups p e fs1 = call (WriteFile (Perm (en_mode e)) content p) fs2"
    using e(1) fs2(1) backup by (simp add: recreate_def call_def chain_def)
  show ?thesis
  proof (cases "object_at fs1 p")
    case None
    let ?i = "fresh_inode fs2" and ?b = "created_metadata (Perm (en_mode e))"
    let ?fs3 = "put_inode ?i content ?b fs2"
    let ?fs = "put_object p (RegularFile ?i) ?fs3"
    have b: "map_ok (md_xattrs ?b)" "fst ` set (md_xattrs ?b) \<subseteq> fst ` set (en_xattrs e)" by (simp_all add: created_metadata_def map_ok_def)
    note fresh = fresh_inode_unused [of fs2]
    have ok3: "fs_ok ?fs3" by (rule put_inode_ok [OF fs2(2) fresh(2,3) b(1)])
    have parent: "is_directory ?fs3 (butlast p)" "\<not> is_directory ?fs3 p" using fs2(4,5) None by (simp_all add: is_directory_def)
    have "fs_ok ?fs" by (rule put_ok [OF ok3 parent(1)]) (use fresh b parent(2) in \<open>auto simp: object_ok_def\<close>)
    moreover have "view_at ?fs p = Some (FileView content ?b)" by (simp add: view_at_def object_view_def)
    ultimately have "restored e p (Some (FileView content ?b)) fs ?fs"
      using fs2(3,6) fs1(3) fresh(1) by (auto simp: restored_def)
    moreover have "restore_all e ?b = m" by (rule restore_all_exact [OF e(2,3) b]) (use e(1) in simp)
    moreover have "recreate backups p e fs1 = (None, ?fs)" using step WriteFile_new [OF fs2(2) _ fs2(4)] None fs2(5) by (simp add: call_def)
    ultimately show ?thesis using fs1(1) by blast
  next
    case (Some obj)
    then have in_place: "fs1 = fs" "in_place fs p e" using fs1(5) e(1) by auto
    let ?i = "(en_dev e, en_ino e)"
    have obj: "object_at fs p = Some (RegularFile ?i)" "object_at fs2 p = Some (RegularFile ?i)"
      using in_place Lstat_Found [OF ok, of p] Some fs2(5) by (auto simp: in_place_def split: stat_result.splits file_object.splits)
    from fs_okD(3) [OF ok obj(1)] obtain c b where b: "map_of (fs_inodes fs) ?i = Some (c, b)" "map_ok (md_xattrs b)" "en_dev e \<noteq> 0" "en_ino e \<noteq> 0"
      by (auto simp: object_ok_def)
    have keys: "fst ` set (md_xattrs b) \<subseteq> fst ` set (en_xattrs e)"
      using xattrs [OF obj(1), of c b] obj(1) b(1) by (simp add: view_at_def object_view_def)
    let ?fs = "put_inode ?i content b fs2"
    have "fs_ok ?fs" by (rule put_inode_ok [OF fs2(2)]) (use b in simp_all)
    moreover have "view_at ?fs p = Some (FileView content b)" using obj(2) by (simp add: view_at_def object_view_def)
    ultimately have "restored e p (Some (FileView content b)) fs ?fs" using fs2(3,6) fs1(3) obj by (auto simp: restored_def)
    moreover have "restore_all e b = m" by (rule restore_all_exact [OF e(2,3) b(2) keys]) (use e(1) in simp)
    moreover have "recreate backups p e fs1 = (None, ?fs)"
      using step WriteFile_old [OF fs2(2) obj(2), of c b] b(1) fs2(3) in_place(1) by (simp add: call_def)
    ultimately show ?thesis using fs1(1) by blast
  qed
qed

definition xattrs_kept :: "filesystem \<Rightarrow> path \<Rightarrow> entry \<Rightarrow> bool" where
  \<comment> \<open>what is restored in place has no extended attributes but the recorded ones\<close>
  "xattrs_kept fs p e \<longleftrightarrow>
     (\<forall>b. en_kind e = ''directory'' \<and> view_at fs p = Some (DirectoryView b) \<longrightarrow> fst ` set (md_xattrs b) \<subseteq> fst ` set (en_xattrs e)) \<and>
     (\<forall>b c. en_kind e = ''file'' \<and> object_at fs p = Some (RegularFile (en_dev e, en_ino e)) \<and> view_at fs p = Some (FileView c b) \<longrightarrow>
        fst ` set (md_xattrs b) \<subseteq> fst ` set (en_xattrs e))"

lemma chain_None [simp]: "chain (None, x) f = f x"
  by (simp add: chain_def)

lemma call_Inr: "f x = Inr y \<Longrightarrow> call f x = (None, y)"
  by (simp add: call_def)

lemma restore_result:
  assumes "clear_target p e fs = Inr fs1" "recreate backups p e fs1 = (None, fs2)" "restored e p (Some v2) fs fs2"
    and kind: "en_kind e \<noteq> ''absent''" "en_kind e \<noteq> ''absent-tree''"
    and link: "\<And>m l. v2 = SymlinkView m l \<Longrightarrow> en_kind e = ''symlink'' \<and> md_mode m = 511"
  shows "\<exists>fs'. restore_preimage backups p e fs = (None, fs') \<and> restored e p (Some (set_metadata v2 (restore_all e))) fs fs'"
proof -
  have "fs_ok fs2" "view_at fs2 p = Some v2" using assms(3) by (simp_all add: restored_def)
  then obtain fs' where fs': "chain (call (change_metadata (restore_owner e) p) fs2) (\<lambda>fs3.
      chain (call (change_metadata (restore_xattrs e) p) fs3) (call (change_metadata (restore_mode e) p))) = (None, fs')"
    "fs_ok fs'" "view_at fs' p = Some (set_metadata v2 (restore_all e))" "same_places p fs2 fs'"
    using restore_metadata [of fs2 p v2 e] link by blast
  have "restore_preimage backups p e fs = (None, fs')" using assms(1,2) kind fs'(1) by (simp add: restore_preimage_def call_Inr [of "clear_target p e"])
  then show ?thesis using restored_metadata [OF assms(3) fs'(4,2,3)] by blast
qed

lemma restore_present:
  assumes ok: "fs_ok fs" "fs_ok fs0" and clear: "clear_path fs p" and obj: "object_at fs0 p = Some obj"
    and records: "records_object fs0 backups e (Some obj)" and dir: "has_children fs p \<Longrightarrow> is_directory fs0 p" and xattrs: "xattrs_kept fs p e"
  shows "\<exists>fs'. restore_preimage backups p e fs = (None, fs') \<and> restored e p (view_at fs0 p) fs fs'"
proof -
  have root: "p \<noteq> []" if "\<not> is_directory fs0 p" using that fs_okD(1) [OF ok(2)] by auto
  from ok(2) obj show ?thesis
  proof (cases rule: view_cases)
    case (dir m)
    then have e: "en_kind e = ''directory''" "records_metadata e m" using records by (simp_all add: records_object_def)
    have m: "map_ok (md_xattrs m)" using fs_okD(3) [OF ok(2) obj] dir by (simp add: object_ok_def)
    have kept: "\<And>b. view_at fs p = Some (DirectoryView b) \<Longrightarrow> fst ` set (md_xattrs b) \<subseteq> fst ` set (en_xattrs e)"
      using xattrs e(1) by (simp add: xattrs_kept_def)
    obtain fs1 fs2 b where step: "clear_target p e fs = Inr fs1" "recreate backups p e fs1 = (None, fs2)" "restored e p (Some (DirectoryView b)) fs fs2" "restore_all e b = m"
      using recreate_directory [OF ok(1) clear e m kept, of backups] by blast
    show ?thesis using restore_result [OF step(1-3)] e(1) step(4) dir(2) by (simp add: set_metadata_def)
  next
    case (link m l)
    then have e: "en_kind e = ''symlink''" "records_metadata e m" "en_link e = l" using records by (simp_all add: records_object_def)
    have m: "map_ok (md_xattrs m)" "md_mode m = 511" using fs_okD(3) [OF ok(2) obj] link by (simp_all add: object_ok_def)
    have "\<not> is_directory fs0 p" using obj link by (simp add: is_directory_def)
    then obtain fs1 fs2 b where step: "clear_target p e fs = Inr fs1" "recreate backups p e fs1 = (None, fs2)"
      "restored e p (Some (SymlinkView b (en_link e))) fs fs2" "restore_all e b = m" "md_mode b = 511"
      using recreate_symlink [OF ok(1) clear e(1,2) m, of backups] assms(6) root by blast
    show ?thesis using restore_result [OF step(1-3)] e(1,3) step(4,5) link(2) by (simp add: set_metadata_def)
  next
    case (special m)
    then show ?thesis using records by (simp add: records_object_def)
  next
    case (regular i content m)
    then have e: "en_kind e = ''file''" "i = (en_dev e, en_ino e)" "records_metadata e m" "map_of backups (en_backup e) = Some content"
      using records by (auto simp: records_object_def)
    have m: "map_ok (md_xattrs m)" using fs_okD(3) [OF ok(2) obj] regular by (simp add: object_ok_def)
    have nodir: "\<not> is_directory fs0 p" using obj regular by (simp add: is_directory_def)
    have children: "\<not> has_children fs p" using nodir assms(6) by blast
    have kept: "\<And>b c. object_at fs p = Some (RegularFile (en_dev e, en_ino e)) \<Longrightarrow> view_at fs p = Some (FileView c b) \<Longrightarrow>
      fst ` set (md_xattrs b) \<subseteq> fst ` set (en_xattrs e)" using xattrs e(1) by (simp add: xattrs_kept_def)
    have "\<exists>fs1 fs2 b. clear_target p e fs = Inr fs1 \<and> recreate backups p e fs1 = (None, fs2) \<and> restored e p (Some (FileView content b)) fs fs2 \<and> restore_all e b = m"
      by (rule recreate_file [OF ok(1) clear e(1,3) m e(4) root [OF nodir] children]) (rule kept)
    then obtain fs1 fs2 b where step: "clear_target p e fs = Inr fs1" "recreate backups p e fs1 = (None, fs2)"
      "restored e p (Some (FileView content b)) fs fs2" "restore_all e b = m" by blast
    show ?thesis using restore_result [OF step(1-3)] e(1) step(4) regular(3) by (simp add: set_metadata_def)
  qed
qed

lemma restore_absent:
  assumes ok: "fs_ok fs" and clear: "clear_path fs p" and e: "en_kind e = ''absent''" and p: "p \<noteq> []" "\<not> has_children fs p"
  shows "\<exists>fs'. restore_preimage backups p e fs = (None, fs') \<and> restored e p None fs fs'"
proof -
  obtain fs1 where fs1: "clear_target p e fs = Inr fs1" "fs_ok fs1" "fs_inodes fs1 = fs_inodes fs" "\<And>q. q \<noteq> p \<Longrightarrow> object_at fs1 q = object_at fs q"
    "object_at fs1 p = None \<or> fs1 = fs \<and> in_place fs p e \<or> fs1 = fs \<and> is_directory fs p \<and> en_kind e = ''directory''"
    by (rule cleared_target [OF ok clear, of e]) (use p in blast)+
  have "object_at fs1 p = None" using fs1(5) e by (auto simp: in_place_def split: stat_result.splits file_object.splits)
  then have "restored e p None fs fs1" using fs1(2-4) by (simp add: restored_def view_at_def)
  moreover have "restore_preimage backups p e fs = (None, fs1)" using e fs1(1) by (simp add: restore_preimage_def chain_def call_def)
  ultimately show ?thesis by blast
qed

subsection \<open>Rolling back all entries\<close>

definition parents_first :: "entry list \<Rightarrow> bool" where
  \<comment> \<open>a missing path is captured before what is below it\<close>
  "parents_first es \<longleftrightarrow>
     (\<forall>i < length es. en_kind (es ! i) = ''absent'' \<longrightarrow> (\<forall>e \<in> set (take i es). \<not> strict_prefix (en_path (es ! i)) (en_path e)))"

lemma parents_first_snoc:
  "parents_first (es @ [e]) \<longleftrightarrow> parents_first es \<and> (en_kind e = ''absent'' \<longrightarrow> (\<forall>e' \<in> set es. \<not> strict_prefix (en_path e) (en_path e')))"
proof -
  have "parents_first (es @ [e]) \<longleftrightarrow>
      (\<forall>i < length es. en_kind ((es @ [e]) ! i) = ''absent'' \<longrightarrow> (\<forall>e' \<in> set (take i (es @ [e])). \<not> strict_prefix (en_path ((es @ [e]) ! i)) (en_path e'))) \<and>
      (en_kind ((es @ [e]) ! length es) = ''absent'' \<longrightarrow> (\<forall>e' \<in> set (take (length es) (es @ [e])). \<not> strict_prefix (en_path ((es @ [e]) ! length es)) (en_path e')))"
    unfolding parents_first_def by (auto simp: less_Suc_eq)
  then show ?thesis unfolding parents_first_def by (auto simp: nth_append)
qed

definition rollback_inv :: "path \<Rightarrow> filesystem \<Rightarrow> entry list \<Rightarrow> filesystem \<Rightarrow> bool" where
  \<comment> \<open>what the remaining entries do not cover is as it was before the transaction\<close>
  "rollback_inv root fs0 es fs \<longleftrightarrow>
     fs_ok fs \<and> (\<forall>p. \<not> covers root es p \<longrightarrow> view_at fs p = view_at fs0 p) \<and>
     (\<forall>e \<in> set es. clear_path fs (root @ en_path e) \<and> xattrs_kept fs (root @ en_path e) e) \<and>
     (\<forall>p e. \<not> covers root es p \<and> e \<in> set es \<and> en_kind e = ''file'' \<and> object_at fs p = Some (RegularFile (en_dev e, en_ino e)) \<and>
        object_at fs (root @ en_path e) = Some (RegularFile (en_dev e, en_ino e)) \<longrightarrow> view_at fs0 p = view_at fs0 (root @ en_path e))"

lemma view_None: "fs_ok fs \<Longrightarrow> view_at fs p = None \<longleftrightarrow> object_at fs p = None"
  by (cases "object_at fs p") (auto simp: view_at_def elim: view_cases)

lemma view_directory: "view_at fs p = Some (DirectoryView m) \<longleftrightarrow> object_at fs p = Some (Directory m)"
proof (cases "object_at fs p")
  case (Some obj)
  then show ?thesis by (cases obj) (auto simp: view_at_def object_view_def)
qed (simp add: view_at_def)

lemma view_passable: "fs_ok fs \<Longrightarrow> fs_ok fs' \<Longrightarrow> view_at fs p = view_at fs' p \<Longrightarrow> passable fs p \<longleftrightarrow> passable fs' p"
  unfolding passable_def is_directory_iff view_None [symmetric] view_directory [symmetric] by simp

lemma earlier_blocks:
  assumes "entries_inv root fs0 backups es" "f \<in> set es" "strict_prefix p (root @ en_path f)" "\<not> passable fs0 p"
  shows "p \<in> (\<lambda>e. root @ en_path e) ` set es"
proof -
  obtain i where "i < length es" "f = es ! i" using assms(2) by (auto simp: in_set_conv_nth)
  then have "entry_inv root fs0 backups (take i es) f" using assms(1) by (simp add: entries_inv_def)
  then have "p \<in> (\<lambda>e. root @ en_path e) ` set (take i es)" using assms(3,4) unfolding entry_inv_def by blast
  then show ?thesis using set_take_subset by fast
qed

lemma strict_prefix_append [simp]: "strict_prefix (root @ p) (root @ q) \<longleftrightarrow> strict_prefix p q"
  by (simp add: strict_prefix_def)

lemma no_late_children:
  assumes inv: "entries_inv root fs0 backups (es @ [e])" and ok: "fs_ok fs0" "parents_first (es @ [e])" "rollback_inv root fs0 (es @ [e]) fs"
    and e: "en_kind e \<noteq> ''absent-tree''" "\<not> is_directory fs0 (root @ en_path e)"
  shows "\<not> has_children fs (root @ en_path e)"
proof
  let ?p = "root @ en_path e"
  assume "has_children fs ?p"
  then obtain r where r: "strict_prefix ?p r" "object_at fs r \<noteq> None" by (auto simp: has_children_iff)
  have own: "entry_inv root fs0 backups es e" and rest: "entries_inv root fs0 backups es" using inv by (simp_all add: entries_inv_snoc)
  have fs: "fs_ok fs" using ok(3) by (simp add: rollback_inv_def)
  have "object_at fs0 r = None" using ancestor_directory [OF ok(1) _ r(1)] e(2) by blast
  then have "view_at fs r \<noteq> view_at fs0 r" using view_None [OF fs, of r] view_None [OF ok(1), of r] r(2) by auto
  then have "covers root (es @ [e]) r" using ok(3) unfolding rollback_inv_def by blast
  then have "covers root es r" using e(1) r(1) by (auto simp: covers_snoc)
  then obtain f where f: "f \<in> set es" "r = root @ en_path f \<or> en_kind f = ''absent-tree'' \<and> prefix (root @ en_path f) r" by (auto simp: covers_def)
  let ?t = "root @ en_path f"
  have neq: "?t \<noteq> ?p" using own imageI [OF f(1), of en_path] unfolding entry_inv_def by auto
  have "prefix ?t r" using f(2) by auto
  then consider "strict_prefix ?p ?t" | "strict_prefix ?t ?p"
    using r(1) neq by (metis prefix_order.less_imp_le prefix_same_cases strict_prefix_def)
  then show False
  proof cases
    case 1
    show False
    proof (cases "object_at fs0 ?p")
      case None
      then have "en_kind e = ''absent''" using own e(1) by (auto simp: entry_inv_def records_object_def)
      then show False using ok(2) f(1) 1 by (auto simp: parents_first_snoc)
    next
      case (Some obj)
      then have "?p \<in> (\<lambda>e. root @ en_path e) ` set es" using earlier_blocks [OF rest f(1) 1] e(2) by (simp add: passable_def)
      then show False using own by (auto simp: entry_inv_def)
    qed
  next
    case 2
    then have tree: "en_kind f = ''absent-tree''" using f(2) r(1) by (auto simp: strict_prefix_def dest: prefix_order.antisym)
    then have "object_at fs0 ?t = None" using entries_invD(2) [OF rest f(1)] by (auto simp: records_object_def split: option.splits file_object.splits)
    then have "object_at fs0 ?p = None" using absent_below [OF ok(1)] 2 by (metis prefix_order.less_imp_le)
    then have "en_kind e = ''absent''" using own e(1) by (auto simp: entry_inv_def records_object_def)
    then have "\<not> coveredByAbsentTree es (en_path e)" using own by (simp add: entry_inv_def)
    then show False using f(1) tree 2 by (auto simp: coveredByAbsentTree_def list_ex_iff)
  qed
qed

definition untouched :: "path \<Rightarrow> entry list \<Rightarrow> filesystem \<Rightarrow> filesystem \<Rightarrow> bool" where
  \<comment> \<open>what the entries do not cover is the same object as before\<close>
  "untouched root es fs fs' \<longleftrightarrow> (\<forall>p. \<not> covers root es p \<longrightarrow> object_at fs p \<noteq> None \<longrightarrow> object_at fs' p = object_at fs p)"

lemma step_tree:
  assumes inv: "entries_inv root fs0 backups (es @ [e])" and ok: "fs_ok fs0" "rollback_inv root fs0 (es @ [e]) fs" and e: "en_kind e = ''absent-tree''"
  shows "\<exists>fs'. restore_preimage backups (root @ en_path e) e fs = (None, fs') \<and> rollback_inv root fs0 es fs' \<and> untouched root [e] fs fs'"
proof -
  let ?p = "root @ en_path e"
  have absent: "object_at fs0 ?p = None"
    using inv e by (auto simp: entries_inv_snoc entry_inv_def records_object_def split: option.splits file_object.splits)
  then have root: "?p \<noteq> []" using fs_okD(1) [OF ok(1)] by (auto simp: is_directory_iff)
  have fs: "fs_ok fs" "clear_path fs ?p" using ok(2) by (simp_all add: rollback_inv_def)
  obtain fs' where fs': "RemoveAll ?p fs = Inr fs'" "fs_ok fs'" "fs_inodes fs' = fs_inodes fs"
    "\<And>q. object_at fs' q = (if prefix ?p q then None else object_at fs q)"
    using RemoveAll_clear [OF fs root] by blast
  have "object_view fs' = object_view fs" by (rule ext) (simp add: object_view_def fs'(3) cong: file_object.case_cong)
  then have views: "view_at fs' q = (if prefix ?p q then None else view_at fs q)" for q by (simp add: view_at_def fs'(4))
  have pass: "passable fs' q" if "passable fs q" for q using that by (auto simp: passable_def is_directory_iff fs'(4))
  have "rollback_inv root fs0 es fs'"
    unfolding rollback_inv_def
  proof (intro conjI allI ballI impI)
    show "fs_ok fs'" by (rule fs'(2))
    fix q assume q: "\<not> covers root es q"
    show "view_at fs' q = view_at fs0 q"
    proof (cases "prefix ?p q")
      case True
      then show ?thesis using views absent_below [OF ok(1) absent True] by (simp add: view_at_def)
    next
      case False
      then have "\<not> covers root (es @ [e]) q" using q by (auto simp: covers_snoc)
      then show ?thesis using ok(2) views False by (simp add: rollback_inv_def)
    qed
  next
    fix f assume "f \<in> set es"
    then have f: "clear_path fs (root @ en_path f)" "xattrs_kept fs (root @ en_path f) f" using ok(2) by (simp_all add: rollback_inv_def)
    then show "clear_path fs' (root @ en_path f)" "xattrs_kept fs' (root @ en_path f) f"
      using pass by (auto simp: clear_pathD xattrs_kept_def views fs'(4) split: if_splits)
  next
    fix q f assume q: "\<not> covers root es q \<and> f \<in> set es \<and> en_kind f = ''file'' \<and> object_at fs' q = Some (RegularFile (en_dev f, en_ino f)) \<and>
        object_at fs' (root @ en_path f) = Some (RegularFile (en_dev f, en_ino f))"
    then have "\<not> covers root (es @ [e]) q" by (auto simp: covers_snoc fs'(4) split: if_splits)
    then show "view_at fs0 q = view_at fs0 (root @ en_path f)" using ok(2) q by (auto simp: rollback_inv_def fs'(4) split: if_splits)
  qed
  moreover have "untouched root [e] fs fs'" using e by (auto simp: untouched_def covers_def fs'(4))
  ultimately show ?thesis using fs'(1) e by (auto simp: restore_preimage_def call_def)
qed

lemma restored_view:
  assumes "restored e p v fs fs'" "q \<noteq> p" "object_at fs' q = object_at fs q" "fs_ok fs"
  shows "view_at fs' q = view_at fs q \<or>
    object_at fs q = Some (RegularFile (en_dev e, en_ino e)) \<and> object_at fs p = Some (RegularFile (en_dev e, en_ino e)) \<and> view_at fs' q = v"
proof (cases "\<exists>i. object_at fs q = Some (RegularFile i) \<and> object_at fs' p = Some (RegularFile i)")
  case True
  then obtain i where i: "object_at fs q = Some (RegularFile i)" "object_at fs' p = Some (RegularFile i)" by blast
  have "map_of (fs_inodes fs) i \<noteq> None" using fs_okD(3) [OF assms(4) i(1)] by (auto simp: object_ok_def)
  then have "object_at fs p = Some (RegularFile i)" "i = (en_dev e, en_ino e)" using assms(1) i(2) by (auto simp: restored_def)
  moreover have "view_at fs' q = view_at fs' p" using i assms(3) by (simp add: view_at_def)
  ultimately show ?thesis using i(1) assms(1) by (simp add: restored_def)
next
  case False
  show ?thesis
  proof (cases "object_at fs q")
    case (Some obj)
    then show ?thesis using False assms(1,3) by (cases obj) (auto simp: view_at_def object_view_def restored_def)
  qed (use assms(3) in \<open>simp add: view_at_def\<close>)
qed

lemma recorded_inode:
  assumes "entries_inv root fs0 backups es" "f \<in> set es" "en_kind f = ''file''"
  shows "object_at fs0 (root @ en_path f) = Some (RegularFile (en_dev f, en_ino f))"
    "\<exists>content m. view_at fs0 (root @ en_path f) = Some (FileView content m) \<and> md_xattrs m = en_xattrs f"
  using entries_invD(2) [OF assms(1,2)] assms(3)
  by (auto simp: records_object_def records_metadata_def view_at_def object_view_def split: option.splits file_object.splits)

definition one_restored :: "path \<Rightarrow> filesystem \<Rightarrow> string gomap \<Rightarrow> entry list \<Rightarrow> entry \<Rightarrow> filesystem \<Rightarrow> filesystem \<Rightarrow> bool" where
  \<comment> \<open>the last entry has been restored\<close>
  "one_restored root fs0 backups es e fs fs' \<longleftrightarrow>
     entries_inv root fs0 backups (es @ [e]) \<and> fs_ok fs0 \<and> rollback_inv root fs0 (es @ [e]) fs \<and> en_kind e \<noteq> ''absent-tree'' \<and>
     restored e (root @ en_path e) (view_at fs0 (root @ en_path e)) fs fs'"

lemma one_restoredD:
  assumes "one_restored root fs0 backups es e fs fs'"
  defines "p \<equiv> root @ en_path e"
  shows "entries_inv root fs0 backups es" "fs_ok fs0" "fs_ok fs" "fs_ok fs'" "restored e p (view_at fs0 p) fs fs'" "view_at fs' p = view_at fs0 p"
    "f \<in> set es \<Longrightarrow> root @ en_path f \<noteq> p" "f \<in> set es \<Longrightarrow> clear_path fs (root @ en_path f) \<and> xattrs_kept fs (root @ en_path f) f"
    "view_at fs0 p = Some (FileView c m) \<Longrightarrow> en_kind e = ''file'' \<and> object_at fs0 p = Some (RegularFile (en_dev e, en_ino e))"
    "\<not> covers root es q \<Longrightarrow> q \<noteq> p \<Longrightarrow> view_at fs q = view_at fs0 q"
    "\<not> covers root es q \<Longrightarrow> q \<noteq> p \<Longrightarrow> f \<in> set (es @ [e]) \<Longrightarrow> en_kind f = ''file'' \<Longrightarrow> object_at fs q = Some (RegularFile (en_dev f, en_ino f)) \<Longrightarrow>
       object_at fs (root @ en_path f) = Some (RegularFile (en_dev f, en_ino f)) \<Longrightarrow> view_at fs0 q = view_at fs0 (root @ en_path f)"
proof -
  have own: "entry_inv root fs0 backups es e" using assms by (simp add: one_restored_def entries_inv_snoc)
  have inv: "rollback_inv root fs0 (es @ [e]) fs" "en_kind e \<noteq> ''absent-tree''" using assms by (simp_all add: one_restored_def)
  show "entries_inv root fs0 backups es" "fs_ok fs0" "fs_ok fs" "fs_ok fs'" "restored e p (view_at fs0 p) fs fs'" "view_at fs' p = view_at fs0 p"
    using assms by (simp_all add: one_restored_def entries_inv_snoc rollback_inv_def restored_def)
  have "en_path e \<notin> en_path ` set es" using own by (simp add: entry_inv_def)
  then show "f \<in> set es \<Longrightarrow> root @ en_path f \<noteq> p" unfolding p_def by (metis imageI same_append_eq)
  show "f \<in> set es \<Longrightarrow> clear_path fs (root @ en_path f) \<and> xattrs_kept fs (root @ en_path f) f" using inv(1) by (simp add: rollback_inv_def)
  show "view_at fs0 p = Some (FileView c m) \<Longrightarrow> en_kind e = ''file'' \<and> object_at fs0 p = Some (RegularFile (en_dev e, en_ino e))"
    using own unfolding p_def by (auto simp: entry_inv_def records_object_def view_at_def object_view_def split: option.splits file_object.splits)
  have open_q: "\<not> covers root (es @ [e]) q" if "\<not> covers root es q" "q \<noteq> p" using that inv(2) by (auto simp: covers_snoc p_def)
  show "\<not> covers root es q \<Longrightarrow> q \<noteq> p \<Longrightarrow> view_at fs q = view_at fs0 q" using open_q inv(1) by (simp add: rollback_inv_def)
  show "\<not> covers root es q \<Longrightarrow> q \<noteq> p \<Longrightarrow> f \<in> set (es @ [e]) \<Longrightarrow> en_kind f = ''file'' \<Longrightarrow> object_at fs q = Some (RegularFile (en_dev f, en_ino f)) \<Longrightarrow>
      object_at fs (root @ en_path f) = Some (RegularFile (en_dev f, en_ino f)) \<Longrightarrow> view_at fs0 q = view_at fs0 (root @ en_path f)"
    using open_q inv(1) unfolding rollback_inv_def by blast
qed

lemma restored_elsewhere:
  assumes "restored e p v fs fs'" "q \<noteq> p"
  shows "object_at fs' q = object_at fs q \<or> object_at fs q = None \<and> strict_prefix q p \<and> v \<noteq> None \<and>
    (\<exists>mode. object_at fs' q = Some (Directory (created_metadata mode)))"
  using assms by (simp add: restored_def)

lemma file_view: "fs_ok fs \<Longrightarrow> object_at fs q = Some (RegularFile i) \<Longrightarrow> \<exists>c m. view_at fs q = Some (FileView c m)"
  using fs_okD(3) [of fs q] by (auto simp: view_at_def object_view_def object_ok_def)

lemma settled_views:
  assumes step: "one_restored root fs0 backups es e fs fs'" and q: "\<not> covers root es q"
  shows "view_at fs' q = view_at fs0 q"
proof (cases "q = root @ en_path e")
  case False
  let ?p = "root @ en_path e"
  note facts = one_restoredD [OF step]
  have before: "view_at fs q = view_at fs0 q" by (rule facts(10) [OF q False])
  show ?thesis
  proof (cases "object_at fs' q = object_at fs q")
    case True
    show ?thesis
    proof (cases "view_at fs' q = view_at fs q")
      case changed: False
      then have linked: "object_at fs q = Some (RegularFile (en_dev e, en_ino e))" "object_at fs ?p = Some (RegularFile (en_dev e, en_ino e))" "view_at fs' q = view_at fs0 ?p"
        using restored_view [OF facts(5) False True facts(3)] by blast+
      then have "en_kind e = ''file''" using file_view [OF facts(4), of q] facts(9) True by auto
      then show ?thesis using facts(11) [OF q False, of e] linked by simp
    qed (use before in simp)
  next
    case created: False
    then have "object_at fs q = None" "strict_prefix q ?p" "view_at fs0 ?p \<noteq> None" using restored_elsewhere [OF facts(5) False] by blast+
    then have "is_directory fs0 q" using ancestor_directory [OF facts(2), of ?p q] view_None [OF facts(2)] by simp
    then have "view_at fs0 q \<noteq> None" using view_None [OF facts(2), of q] by (auto simp: is_directory_iff)
    then show ?thesis using before \<open>object_at fs q = None\<close> by (simp add: view_at_def)
  qed
qed (use one_restoredD(6) [OF step] in simp)

lemma restored_clear:
  assumes step: "one_restored root fs0 backups es e fs fs'" and f: "f \<in> set es"
  shows "clear_path fs' (root @ en_path f)"
  unfolding clear_pathD
proof (intro allI impI)
  note facts = one_restoredD [OF step]
  let ?p = "root @ en_path e"
  fix q assume q: "strict_prefix q (root @ en_path f)"
  show "passable fs' q"
  proof (cases "q = ?p")
    case True
    have "passable fs0 ?p"
    proof (rule ccontr)
      assume "\<not> passable fs0 ?p"
      from earlier_blocks [OF facts(1) f _ this] q True have "?p \<in> (\<lambda>e. root @ en_path e) ` set es" by simp
      then show False using facts(7) by (metis imageE)
    qed
    then show ?thesis using view_passable [OF facts(4,2,6)] True by simp
  next
    case False
    have "passable fs q" using facts(8) [OF f] q unfolding clear_pathD by blast
    then show ?thesis using restored_elsewhere [OF facts(5) False] by (auto simp: passable_def is_directory_iff)
  qed
qed

lemma restored_attributes:
  assumes step: "one_restored root fs0 backups es e fs fs'" and f: "f \<in> set es"
  shows "xattrs_kept fs' (root @ en_path f) f"
proof (cases "object_at fs' (root @ en_path f) = object_at fs (root @ en_path f)")
  case same: True
  note facts = one_restoredD [OF step]
  let ?p = "root @ en_path e" and ?t = "root @ en_path f"
  show ?thesis
  proof (cases "view_at fs' ?t = view_at fs ?t")
    case True
    then show ?thesis using facts(8) [OF f] same by (simp add: xattrs_kept_def)
  next
    case False
    then have linked: "object_at fs' ?t = Some (RegularFile (en_dev e, en_ino e))" "view_at fs' ?t = view_at fs0 ?p"
      using restored_view [OF facts(5) facts(7) [OF f] same facts(3)] same by auto
    show ?thesis
    proof (cases "en_kind f = ''file'' \<and> (en_dev f, en_ino f) = (en_dev e, en_ino e) \<and> (\<exists>c b. view_at fs0 ?p = Some (FileView c b))")
      case True
      then have "object_at fs0 ?p = object_at fs0 ?t" using facts(9) recorded_inode(1) [OF facts(1) f] by auto
      then have "view_at fs0 ?p = view_at fs0 ?t" by (simp add: view_at_def)
      then show ?thesis using recorded_inode(2) [OF facts(1) f] True linked(2) by (auto simp: xattrs_kept_def)
    next
      case False
      moreover have "view_at fs' ?t \<noteq> Some (DirectoryView b)" for b using linked(1) by (simp add: view_directory)
      ultimately show ?thesis using linked by (auto simp: xattrs_kept_def)
    qed
  qed
next
  case False
  then show ?thesis using restored_elsewhere [OF one_restoredD(5) [OF step] one_restoredD(7) [OF step f]]
    by (auto simp: xattrs_kept_def view_directory created_metadata_def)
qed

lemma restored_shared:
  assumes step: "one_restored root fs0 backups es e fs fs'" and q: "\<not> covers root es q" and f: "f \<in> set es" "en_kind f = ''file''"
    and links: "object_at fs' q = Some (RegularFile (en_dev f, en_ino f))" "object_at fs' (root @ en_path f) = Some (RegularFile (en_dev f, en_ino f))"
  shows "view_at fs0 q = view_at fs0 (root @ en_path f)"
proof -
  note facts = one_restoredD [OF step]
  let ?p = "root @ en_path e"
  have t: "object_at fs (root @ en_path f) = Some (RegularFile (en_dev f, en_ino f))"
    using restored_elsewhere [OF facts(5) facts(7) [OF f(1)]] links(2) by auto
  show ?thesis
  proof (cases "q = ?p")
    case False
    then have "object_at fs q = Some (RegularFile (en_dev f, en_ino f))" using restored_elsewhere [OF facts(5) False] links(1) by auto
    then show ?thesis using facts(11) [OF q False _ f(2) _ t] f(1) by simp
  next
    case True
    have "map_of (fs_inodes fs) (en_dev f, en_ino f) \<noteq> None" using fs_okD(3) [OF facts(3) t] by (auto simp: object_ok_def)
    then have same: "(en_dev f, en_ino f) = (en_dev e, en_ino e)" using facts(5) links(1) True by (auto simp: restored_def)
    obtain c m where "view_at fs0 ?p = Some (FileView c m)" using file_view [OF facts(4) links(1)] True facts(6) by auto
    then have "object_at fs0 ?p = object_at fs0 (root @ en_path f)" using facts(9) same recorded_inode(1) [OF facts(1) f] by simp
    then show ?thesis using True by (simp add: view_at_def)
  qed
qed

lemma step_restored:
  assumes step: "one_restored root fs0 backups es e fs fs'"
  shows "rollback_inv root fs0 es fs'"
  unfolding rollback_inv_def
  using settled_views [OF step] restored_clear [OF step] restored_attributes [OF step] restored_shared [OF step] one_restoredD(4) [OF step] by blast

lemma restore_step:
  assumes inv: "entries_inv root fs0 backups (es @ [e])" and ok: "fs_ok fs0" "parents_first (es @ [e])" "rollback_inv root fs0 (es @ [e]) fs"
  shows "\<exists>fs'. restore_preimage backups (root @ en_path e) e fs = (None, fs') \<and> rollback_inv root fs0 es fs' \<and> untouched root [e] fs fs'"
proof (cases "en_kind e = ''absent-tree''")
  case True
  then show ?thesis using step_tree [OF inv ok(1,3)] by blast
next
  case False
  let ?p = "root @ en_path e"
  have records: "records_object fs0 backups e (object_at fs0 ?p)" using inv by (simp add: entries_inv_snoc entry_inv_def)
  have fs: "fs_ok fs" "clear_path fs ?p" "xattrs_kept fs ?p e" using ok(3) by (simp_all add: rollback_inv_def)
  note children = no_late_children [OF inv ok False]
  have "\<exists>fs'. restore_preimage backups ?p e fs = (None, fs') \<and> restored e ?p (view_at fs0 ?p) fs fs'"
  proof (cases "object_at fs0 ?p")
    case None
    then have "en_kind e = ''absent''" "?p \<noteq> []" "\<not> is_directory fs0 ?p"
      using records False fs_okD(1) [OF ok(1)] by (auto simp: records_object_def is_directory_iff)
    then show ?thesis using restore_absent [OF fs(1,2)] children None by (simp add: view_at_def)
  next
    case (Some obj)
    then show ?thesis using restore_present [OF fs(1) ok(1) fs(2) Some _ _ fs(3)] records children by auto
  qed
  then obtain fs' where fs': "restore_preimage backups ?p e fs = (None, fs')" "restored e ?p (view_at fs0 ?p) fs fs'" by blast
  have "untouched root [e] fs fs'" using restored_elsewhere [OF fs'(2)] unfolding untouched_def covers_def by fastforce
  then show ?thesis using step_restored fs' inv ok(1,3) False unfolding one_restored_def by blast
qed

lemma restore_some_entries:
  \<comment> \<open>the loop after the last entries\<close>
  assumes "entries_inv (js_root state) fs0 backups (es @ rs)" "fs_ok fs0" "parents_first (es @ rs)" "rollback_inv (js_root state) fs0 (es @ rs) fs"
  shows "\<exists>fs'. restore_entries state backups (rev rs) fs = (None, fs') \<and> rollback_inv (js_root state) fs0 es fs' \<and> untouched (js_root state) rs fs fs'"
  using assms
proof (induction rs arbitrary: fs rule: rev_induct)
  case Nil
  then show ?case by (simp add: untouched_def)
next
  case (snoc e rs)
  note prems = snoc.prems [unfolded append_assoc [symmetric]]
  obtain fs1 where fs1: "restore_preimage backups (js_root state @ en_path e) e fs = (None, fs1)" "rollback_inv (js_root state) fs0 (es @ rs) fs1"
    "untouched (js_root state) [e] fs fs1"
    using restore_step [OF prems] by blast
  have "path_ok (en_path e)" using prems(1) unfolding entries_inv_snoc entry_inv_def by blast
  then have "confined state fs (js_root state @ en_path e) = Inr (js_root state @ en_path e, en_path e)"
    using prems(4) by (intro confined_clear) (simp_all add: rollback_inv_def)
  moreover obtain fs2 where "restore_entries state backups (rev rs) fs1 = (None, fs2)" "rollback_inv (js_root state) fs0 es fs2" "untouched (js_root state) rs fs1 fs2"
    using snoc.IH [OF _ prems(2) _ fs1(2)] prems(1,3) unfolding entries_inv_snoc parents_first_snoc by blast
  moreover have "untouched (js_root state) (rs @ [e]) fs fs2" if "untouched (js_root state) rs fs1 fs2" for fs2
    using that fs1(3) by (auto simp: untouched_def covers_def)
  ultimately show ?case using fs1(1) by simp
qed

lemma restore_entries_exact:
  assumes "entries_inv (js_root state) fs0 backups es" "fs_ok fs0" "parents_first es" "rollback_inv (js_root state) fs0 es fs"
  shows "\<exists>fs'. restore_entries state backups (rev es) fs = (None, fs') \<and> fs_ok fs' \<and> (\<forall>p. view_at fs' p = view_at fs0 p)"
  using restore_some_entries [of state fs0 backups "[]" es fs] assms by (auto simp: rollback_inv_def covers_def)

subsection \<open>Removing trees\<close>

lemma capture_all_transaction:
  assumes "transaction root fs0 j fs" "list_all path_ok ps" "capture_all j fs ps = (err, j')"
  shows "transaction root fs0 j' fs"
  using assms
proof (induction ps arbitrary: j)
  case (Cons p ps)
  then show ?case using transaction.capture [of root fs0 j fs p] by (auto split: sum.splits)
qed simp

lemma covers_publish: "covers root (js_entries (jn_state j)) p \<Longrightarrow> covers root (js_entries (jn_state (publish_entries xs j))) p"
  by (auto simp: covers_def publish_entries_def Let_def)

lemma capture_covers:
  assumes inv: "journal_inv root fs0 j fs" and p: "path_ok relative" "object_at fs (root @ relative) \<noteq> None"
    and result: "Capture j fs (root @ relative) = Inr j'"
  shows "covers root (js_entries (jn_state j')) (root @ relative)"
    "covers root (js_entries (jn_state j)) q \<Longrightarrow> covers root (js_entries (jn_state j')) q"
proof -
  let ?es = "js_entries (jn_state j)"
  have parts: "fs_ok fs" "js_status (jn_state j) = ''active''" "js_root (jn_state j) = root" "set (jn_captured j) = en_path ` set ?es"
    using inv by (simp_all add: journal_inv_def Let_def)
  have c: "confined (jn_state j) fs (root @ relative) = Inr (root @ relative, relative)"
    using confined_clear [OF parts(1) p(1), of "jn_state j"] present_clear [OF parts(1) p(2)] parts(3) by simp
  have "(\<exists>x. j' = publish_entries [x] j \<and> en_path (fst x) = relative) \<or> j' = j \<and> covers root ?es (root @ relative)"
  proof (cases "relative \<in> set (jn_captured j) \<or> coveredByAbsentTree ?es relative")
    case True
    then have "covers root ?es (root @ relative)"
      using parts(4) unfolding covers_def coveredByAbsentTree_def list_ex_iff strict_prefix_def by (auto simp: image_iff)
    then show ?thesis using result c parts(2) True by (simp add: Capture_def)
  next
    case False
    then obtain x where "prepareEntry fs (root @ relative) relative (length ?es) = Inr x" "j' = publish_entries [x] j"
      using result c parts(2) by (auto simp: Capture_def split: sum.splits)
    moreover from this(1) have "en_path (fst x) = relative"
      by (auto simp: prepareEntry_def entry_metadata_def zero_entry_def split: stat_result.splits errno.splits file_object.splits option.splits)
    ultimately show ?thesis by blast
  qed
  then show "covers root (js_entries (jn_state j')) (root @ relative)"
    by (auto simp: publish_entries_def Let_def covers_def)
  show "covers root ?es q \<Longrightarrow> covers root (js_entries (jn_state j')) q"
    using \<open>(\<exists>x. j' = publish_entries [x] j \<and> en_path (fst x) = relative) \<or> j' = j \<and> covers root ?es (root @ relative)\<close> covers_publish by blast
qed

lemma capture_all_covers:
  assumes "transaction root fs0 j fs" "fs_ok fs0" "path_ok root" "capture_all j fs ps = (None, j')"
    and "\<And>p. p \<in> set ps \<Longrightarrow> path_ok p \<and> prefix root p \<and> object_at fs p \<noteq> None" "p \<in> set ps \<or> covers root (js_entries (jn_state j)) p"
  shows "covers root (js_entries (jn_state j')) p"
  using assms(1,4-)
proof (induction ps arbitrary: j)
  case (Cons q qs)
  obtain j1 where j1: "Capture j fs q = Inr j1" "capture_all j1 fs qs = (None, j')" using Cons.prems(2) by (auto split: sum.splits)
  obtain relative where q: "q = root @ relative" "path_ok relative" using Cons.prems(3) [of q] by (auto simp: prefix_def)
  have inv: "journal_inv root fs0 j fs" by (rule transaction_inv [OF Cons.prems(1) assms(2,3)])
  have "covers root (js_entries (jn_state j1)) q" "covers root (js_entries (jn_state j)) p \<Longrightarrow> covers root (js_entries (jn_state j1)) p"
    using capture_covers [OF inv q(2), of j1] j1(1) Cons.prems(3) [of q] q(1) by simp_all
  moreover have "transaction root fs0 j1 fs" using transaction.capture [OF Cons.prems(1) _ j1(1)] Cons.prems(3) by simp
  ultimately show ?case using Cons.IH [OF _ j1(2)] Cons.prems(3,4) by auto
qed simp

lemma remove_paths_transaction:
  assumes "transaction root fs0 j fs" "fs_ok fs" "\<And>p. p \<in> set ps \<Longrightarrow> covers root (js_entries (jn_state j)) p" "remove_paths ps fs = (err, fs')"
  shows "transaction root fs0 j fs'"
  using assms
proof (induction ps arbitrary: fs)
  case (Cons p ps)
  show ?case
  proof (cases "Remove p fs")
    case (Inr fs1)
    then have fs1: "fs1 = delete_object p fs" "p \<noteq> []" "\<not> has_children fs p"
      using no_children [OF Cons.prems(2), of p] fs_okD(1) [OF Cons.prems(2)] Lstat_clearI(2) [OF Cons.prems(2), of p]
      by (auto simp: Remove_def is_directory_iff split: stat_result.splits file_object.splits if_splits)
    have "transaction root fs0 j fs1"
    proof (rule transaction.change [OF Cons.prems(1)])
      show "fs_ok fs1" using delete_ok [OF Cons.prems(2)] fs1 by simp
      show "same_at fs fs1 q" if "\<not> covers root (js_entries (jn_state j)) q" for q
        using that Cons.prems(3) [of p] fs1(1) by (auto simp: same_at_def)
    qed
    then show ?thesis using Cons.IH [of fs1] Cons.prems(3,4) Inr delete_ok [OF Cons.prems(2)] fs1 by simp
  next
    case (Inl e)
    then show ?thesis using Cons by (cases e) auto
  qed
qed simp

lemma WalkDir_members: "p \<in> set (WalkDir fs q) \<longleftrightarrow> prefix q p \<and> object_at fs p \<noteq> None"
  by (auto simp: WalkDir_def object_at_def map_of_eq_None_iff)

lemma capture_tree_transaction:
  assumes run: "transaction root fs0 j fs" "fs_ok fs" "path_ok root" "js_root (jn_state j) = root"
    and names: "\<And>q. object_at fs q \<noteq> None \<Longrightarrow> path_ok q" and p: "path_ok p" "CaptureTree j fs p = (err, j')"
  shows "transaction root fs0 j' fs"
proof (cases "confined (jn_state j) fs p")
  case (Inl e)
  then show ?thesis using p(2) run(1) by (simp add: CaptureTree_def)
next
  case (Inr x)
  obtain resolved relative where x: "x = (resolved, relative)" by force
  have "path_ok resolved" using confined_ok [OF Inr [unfolded x] p(1)] run(3,4) by simp
  moreover have "list_all path_ok (WalkDir fs resolved)" using names by (auto simp: list_all_iff WalkDir_members)
  ultimately have lists: "list_all path_ok [resolved]" "list_all path_ok (WalkDir fs resolved)" by simp_all
  show ?thesis
  proof (cases "Lstat fs resolved")
    case (Found obj)
    then show ?thesis using p(2) Inr x capture_all_transaction [OF run(1) lists(2)] by (simp add: CaptureTree_def)
  next
    case (StatError e)
    then show ?thesis using p(2) Inr x run(1) capture_all_transaction [OF run(1) lists(1), of err j']
      by (cases e) (simp_all add: CaptureTree_def del: capture_all.simps)
  qed
qed

lemma remove_tree_run:
  assumes run: "transaction root fs0 j fs" and ok: "fs_ok fs0" "path_ok root" "path_ok p"
    and names: "\<And>q. object_at fs q \<noteq> None \<Longrightarrow> path_ok q" and result: "RemoveTree j fs p = (err, j', fs')"
  shows "transaction root fs0 j' fs'"
proof -
  have inv: "fs_ok fs" "js_root (jn_state j) = root" using transaction_inv [OF run ok(1,2)] by (simp_all add: journal_inv_def Let_def)
  show ?thesis
  proof (cases "confined (jn_state j) fs p")
    case (Inl e)
    then show ?thesis using result run by (simp add: RemoveTree_def)
  next
    case (Inr x)
    then obtain resolved relative where c: "confined (jn_state j) fs p = Inr (resolved, relative)" by (cases x) auto
    have path: "resolved = root @ relative" "path_ok relative" using confined_ok [OF c ok(3)] ok(2) inv(2) by simp_all
    obtain err1 j1 where capture: "CaptureTree j fs resolved = (err1, j1)" by force
    have run1: "transaction root fs0 j1 fs"
      using capture_tree_transaction [OF run inv(1) ok(2) inv(2) names _ capture] path ok(2) by simp
    show ?thesis
    proof (cases err1)
      case (Some e)
      then show ?thesis using result c capture run1 by (simp add: RemoveTree_def)
    next
      case None
      then have removed: "remove_paths (rev (WalkDir fs resolved)) fs = (err, fs')" "j' = j1"
        using result c capture by (auto simp: RemoveTree_def split: prod.splits)
      have "covers root (js_entries (jn_state j1)) q" if q: "q \<in> set (WalkDir fs resolved)" for q
      proof -
        have "object_at fs resolved \<noteq> None" using q absent_below [OF inv(1), of resolved q] unfolding WalkDir_members by metis
        then have "confined (jn_state j) fs resolved = Inr (resolved, relative)" "\<exists>obj. Lstat fs resolved = Found obj"
          using confined_clear [OF inv(1) path(2), of "jn_state j"] present_clear [OF inv(1)] inv(2) path(1) Lstat_Found [OF inv(1)] by auto
        then have "capture_all j fs (WalkDir fs resolved) = (None, j1)" using capture None by (auto simp: CaptureTree_def)
        then show ?thesis
          by (rule capture_all_covers [OF run ok(1,2)]) (use names q path(1) in \<open>auto simp: WalkDir_members dest: append_prefixD\<close>)
      qed
      then show ?thesis using remove_paths_transaction [OF run1 inv(1) _ removed(1)] removed(2) by simp
    qed
  qed
qed

subsection \<open>Reopening\<close>

lemma split_on_free: "d \<notin> set s \<Longrightarrow> split_on d s = [s]"
  by (induction s) auto

lemma backup_name_ok: "backup_ok (backup_name i)"
proof -
  let ?digits = "replicate (8 - length (show_nat i)) CHR ''0'' @ show_nat i"
  have digits: "list_all is_digit ?digits" using show_nat_digits [of i] by (auto simp: list_all_iff is_digit_def code_def)
  have marks: "\<not> is_digit CHR ''/''" "\<not> is_digit CHR ''.''" by (simp_all add: is_digit_def code_def)
  then have free: "CHR ''/'' \<notin> set ?digits" "CHR ''.'' \<notin> set ?digits" using digits unfolding list_all_iff by metis+
  have "split_on CHR ''/'' (backup_name i) = [''backups'', ?digits]" using split_on_free [OF free(1)] by (simp add: backup_name_def)
  moreover have "?digits \<noteq> []" using show_nat_nonempty [of i] by simp
  moreover have "?digits \<noteq> ''.''" "?digits \<noteq> ''..''" using free(2) by (metis list.set_intros(1))+
  ultimately show ?thesis using free(1) by (simp only: backup_ok_def list.case path_ok_simps) simp
qed

lemma validate_entries_ok:
  assumes "\<And>e. e \<in> set es \<Longrightarrow> path_ok (en_path e) \<and>
      (en_kind e \<in> {''absent'', ''absent-tree'', ''directory'', ''symlink''} \<and> en_backup e = [] \<or> en_kind e = ''file'' \<and> backup_ok (en_backup e))"
    and "distinct (map en_path es)" "en_path ` set es \<inter> set seen = {}"
  shows "validate_entries index seen es = None"
  using assms
proof (induction es arbitrary: index seen)
  case (Cons e es)
  have "validate_entries (index + 1) (en_path e # seen) es = None" by (rule Cons.IH) (use Cons.prems in auto)
  moreover have "en_path e \<notin> set seen" using Cons.prems(3) by auto
  ultimately show ?case using Cons.prems(1) [of e] by auto
qed simp

lemma entry_valid:
  assumes "entries_inv root fs0 backups es" "e \<in> set es"
  shows "path_ok (en_path e) \<and>
    (en_kind e \<in> {''absent'', ''absent-tree'', ''directory'', ''symlink''} \<and> en_backup e = [] \<or> en_kind e = ''file'' \<and> backup_ok (en_backup e))"
proof -
  obtain i where "i < length es" "e = es ! i" using assms(2) by (auto simp: in_set_conv_nth)
  then have "entry_inv root fs0 backups (take i es) e" using assms(1) by (simp add: entries_inv_def)
  then show ?thesis using backup_name_ok by (auto simp: entry_inv_def records_object_def split: option.splits file_object.splits)
qed

lemma open_entries:
  assumes inv: "entries_inv root fs0 backups (js_entries state @ (if js_status state = ''active'' then jf_log files else []))"
    and state: "jf_state files = state" "js_version state = JournalVersion" "js_root state = root" "js_live_root state = (root = [])"
      "js_status state \<in> {''active'', ''committed'', ''rolled-back''}"
  shows "\<exists>j. OpenJournal files = Inr j \<and> jn_files j = files \<and>
    jn_state j = state\<lparr>js_entries := js_entries state @ (if js_status state = ''active'' then jf_log files else [])\<rparr> \<and>
    jn_captured j = map en_path (js_entries (jn_state j))"
proof -
  let ?es = "js_entries state @ (if js_status state = ''active'' then jf_log files else [])"
  have "validate_entries 1 [] ?es = None"
    by (rule validate_entries_ok) (use entry_valid [OF inv] entries_distinct [OF inv] in auto)
  then have "validateStateEntries (state\<lparr>js_entries := ?es\<rparr>) = None" using state(5) by (auto simp: validateStateEntries_def)
  moreover have "(if js_version state \<ge> 3 \<and> js_status state = ''active'' then state\<lparr>js_entries := js_entries state @ jf_log files\<rparr> else state) =
      state\<lparr>js_entries := ?es\<rparr>" using state(2) by (simp add: JournalVersion_def)
  ultimately show ?thesis using state by (auto simp: OpenJournal_def Let_def JournalVersion_def)
qed

subsection \<open>Theorems\<close>

definition rollback_ready :: "journal \<Rightarrow> filesystem \<Rightarrow> bool" where
  \<comment> \<open>missing parents were captured first, no captured path lies below a link or a file, and nothing restored in place has new attributes\<close>
  "rollback_ready j fs \<longleftrightarrow>
     (let es = js_entries (jn_state j); root = js_root (jn_state j) in
      parents_first es \<and> (\<forall>e \<in> set es. clear_path fs (root @ en_path e) \<and> xattrs_kept fs (root @ en_path e) e))"

lemma rollback_start:
  assumes inv: "journal_inv root fs0 j fs" and ready: "rollback_ready j fs"
  shows "rollback_inv root fs0 (js_entries (jn_state j)) fs"
proof -
  let ?es = "js_entries (jn_state j)"
  have parts: "fs_ok fs" "js_root (jn_state j) = root" "entries_inv root fs0 (jf_backups (jn_files j)) ?es"
    "\<And>p. \<not> covers root ?es p \<Longrightarrow> same_at fs0 fs p"
    using inv by (simp_all add: journal_inv_def Let_def)
  have same: "view_at fs p = view_at fs0 p" if "\<not> covers root ?es p" for p
    using parts(4) [OF that] by (cases "object_at fs0 p") (auto simp: same_at_def view_at_def object_view_def split: file_object.split)
  have "view_at fs0 p = view_at fs0 (root @ en_path e)"
    if "\<not> covers root ?es p" "e \<in> set ?es" "en_kind e = ''file''" "object_at fs p = Some (RegularFile (en_dev e, en_ino e))" for p e
  proof -
    have "object_at fs0 p = object_at fs0 (root @ en_path e)"
      using recorded_inode(1) [OF parts(3) that(2,3)] parts(4) [OF that(1)] that(4) by (simp add: same_at_def)
    then show ?thesis by (simp add: view_at_def)
  qed
  then show ?thesis using parts(1,2) same ready by (auto simp: rollback_inv_def rollback_ready_def Let_def)
qed

lemma rollback_run:
  assumes inv: "journal_inv root fs0 j fs" and ok: "fs_ok fs0" and ready: "rollback_ready j fs"
  shows "\<exists>fs'. Rollback j fs = (None, persist (j\<lparr>jn_state := (jn_state j)\<lparr>js_status := ''rolled-back''\<rparr>\<rparr>), fs') \<and>
    fs_ok fs' \<and> (\<forall>p. view_at fs' p = view_at fs0 p)"
proof -
  from inv have parts: "js_root (jn_state j) = root" "js_status (jn_state j) = ''active''"
    "entries_inv root fs0 (jf_backups (jn_files j)) (js_entries (jn_state j))" by (simp_all add: journal_inv_def Let_def)
  obtain fs' where "restore_entries (jn_state j) (jf_backups (jn_files j)) (rev (js_entries (jn_state j))) fs = (None, fs')"
    "fs_ok fs'" "\<forall>p. view_at fs' p = view_at fs0 p"
    using restore_entries_exact [of "jn_state j" fs0 "jf_backups (jn_files j)" "js_entries (jn_state j)" fs] parts(1,3) ok
      rollback_start [OF inv ready] ready by (auto simp: rollback_ready_def Let_def)
  then show ?thesis using parts(2) by (auto simp: Rollback_def Let_def)
qed

text \<open>
  Claim C5: a transaction captures paths in any order, alone, in batches or as absent trees, and changes only paths that are captured or below a captured absent tree.
  Three conditions on the moment of the rollback, which the code does not check (\<^const>\<open>rollback_ready\<close>): a missing path was captured before what is below it; the
  ancestors of captured paths are directories or absent, not links or files; and objects that are restored in place have no new extended attributes. Then \<^const>\<open>Rollback\<close> succeeds
  and every path of the file system, captured or not, shows again what it showed at the start: kind, content, link text, mode, owner, group and extended
  attributes, also for files that share an inode. Without one of the conditions it fails or restores something else
  (\<open>child_first_blocks_rollback\<close>, \<open>link_misdirects_rollback\<close>, \<open>added_xattr_survives\<close>).
\<close>

theorem rollback_restores_files:
  assumes "transaction root fs0 j fs" "fs_ok fs0" "path_ok root" "rollback_ready j fs"
  shows "\<exists>j' fs'. Rollback j fs = (None, j', fs') \<and> js_status (jn_state j') = ''rolled-back'' \<and> fs_ok fs' \<and>
    (\<forall>p. view_at fs' p = view_at fs0 p)"
  using rollback_run [OF transaction_inv [OF assms(1-3)] assms(2,4)] by (auto simp: persist_def)

definition plain_metadata :: metadata where
  "plain_metadata = \<lparr>md_mode = 493, md_uid = 0, md_gid = 0, md_xattrs = []\<rparr>"

definition example_files :: filesystem where
  "example_files =
     \<lparr>fs_tree = [([], Directory plain_metadata), ([''a''], Directory plain_metadata), ([''a'', ''x''], RegularFile (1, 1)),
        ([''b''], Directory plain_metadata), ([''b'', ''x''], RegularFile (1, 2))],
      fs_inodes = [((1, 1), ''A'', plain_metadata), ((1, 2), ''B'', plain_metadata)]\<rparr>"

definition example_journal :: journal where
  "example_journal = (case begin_journal [] True of Inr j \<Rightarrow> j | Inl e \<Rightarrow> undefined)"

definition removed_tree :: "journal_error option \<times> journal \<times> filesystem" where
  "removed_tree = RemoveTree example_journal example_files [''a'']"

lemma example_files_ok: "fs_ok example_files"
  by (auto simp: fs_ok_def example_files_def object_at_def is_directory_def object_ok_def plain_metadata_def map_ok_def split: if_splits)

lemma example_start: "transaction [] example_files example_journal example_files"
  by (rule transaction.start) (simp add: example_journal_def begin_journal_def Let_def)

lemma removed_tree_run: "transaction [] example_files (fst (snd removed_tree)) (snd (snd removed_tree))"
  by (rule remove_tree_run [OF example_start example_files_ok, of "[''a'']" "fst removed_tree"])
    (auto simp: removed_tree_def example_files_def object_at_def split: if_splits)

lemma removed_tree_state:
  "fst removed_tree = None" "js_root (jn_state (fst (snd removed_tree))) = []"
  "map (\<lambda>e. (en_path e, en_kind e)) (js_entries (jn_state (fst (snd removed_tree)))) = [([''a''], ''directory''), ([''a'', ''x''], ''file'')]"
  "fs_tree (snd (snd removed_tree)) = [([], Directory plain_metadata), ([''b''], Directory plain_metadata), ([''b'', ''x''], RegularFile (1, 2))]"
  by code_simp+

lemma removed_tree_ready: "rollback_ready (fst (snd removed_tree)) (snd (snd removed_tree))"
proof -
  let ?j = "fst (snd removed_tree)" and ?fs = "snd (snd removed_tree)"
  obtain e f where es: "js_entries (jn_state ?j) = [e, f]" "en_path e = [''a'']" "en_path f = [''a'', ''x'']" "en_kind e = ''directory''" "en_kind f = ''file''"
    using removed_tree_state(3) by auto
  have objects: "object_at ?fs q = map_of [([], Directory plain_metadata), ([''b''], Directory plain_metadata), ([''b'', ''x''], RegularFile (1, 2))] q" for q
    by (simp add: object_at_def removed_tree_state(4))
  have "parents_first [e, f]" using es(4,5) by (simp add: parents_first_def less_Suc_eq)
  moreover have "clear_path ?fs [''a'']" "clear_path ?fs [''a'', ''x'']"
    by (simp_all add: clear_path_def passable_def is_directory_def objects)
  moreover have "xattrs_kept ?fs [''a''] e" "xattrs_kept ?fs [''a'', ''x''] f" by (simp_all add: xattrs_kept_def view_at_def objects)
  ultimately show ?thesis using es removed_tree_state(2) by (simp add: rollback_ready_def Let_def)
qed

theorem rollback_restores_files_witness:
  "object_at (snd (snd removed_tree)) [''a'', ''x''] = None \<and>
   (\<exists>j fs. Rollback (fst (snd removed_tree)) (snd (snd removed_tree)) = (None, j, fs) \<and> view_at fs [''a'', ''x''] = Some (FileView ''A'' plain_metadata))"
proof
  show "object_at (snd (snd removed_tree)) [''a'', ''x''] = None" by (simp add: object_at_def removed_tree_state(4))
  have "view_at example_files [''a'', ''x''] = Some (FileView ''A'' plain_metadata)"
    by (simp add: view_at_def object_view_def object_at_def example_files_def)
  then show "\<exists>j fs. Rollback (fst (snd removed_tree)) (snd (snd removed_tree)) = (None, j, fs) \<and> view_at fs [''a'', ''x''] = Some (FileView ''A'' plain_metadata)"
    using rollback_restores_files [OF removed_tree_run example_files_ok _ removed_tree_ready] by auto
qed

lemma reopened:
  assumes "journal_inv root fs0 j fs"
  obtains j' where "OpenJournal (jn_files j) = Inr j'" "jn_state j' = jn_state j" "jn_files j' = jn_files j"
proof -
  let ?state = "(jn_state j)\<lparr>js_entries := []\<rparr>"
  have parts: "js_status (jn_state j) = ''active''" "jf_state (jn_files j) = ?state" "jf_log (jn_files j) = js_entries (jn_state j)"
    "entries_inv root fs0 (jf_backups (jn_files j)) (js_entries (jn_state j))" "js_version (jn_state j) = JournalVersion"
    "js_root (jn_state j) = root" "js_live_root (jn_state j) = (root = [])"
    using assms by (simp_all add: journal_inv_def Let_def)
  have "\<exists>j'. OpenJournal (jn_files j) = Inr j' \<and> jn_files j' = jn_files j \<and>
      jn_state j' = ?state\<lparr>js_entries := js_entries ?state @ (if js_status ?state = ''active'' then jf_log (jn_files j) else [])\<rparr> \<and>
      jn_captured j' = map en_path (js_entries (jn_state j'))"
    by (rule open_entries) (use parts in simp_all)
  then show thesis using that parts(1,3) by auto
qed

lemma reopened_closed:
  assumes inv: "journal_inv root fs0 j fs" and status: "status \<in> {''committed'', ''rolled-back''}"
  obtains j' where "OpenJournal (jn_files (persist (j\<lparr>jn_state := (jn_state j)\<lparr>js_status := status\<rparr>\<rparr>))) = Inr j'" "js_status (jn_state j') = status"
proof -
  let ?state = "(jn_state j)\<lparr>js_status := status\<rparr>" and ?files = "jn_files (persist (j\<lparr>jn_state := (jn_state j)\<lparr>js_status := status\<rparr>\<rparr>))"
  have parts: "entries_inv root fs0 (jf_backups (jn_files j)) (js_entries (jn_state j))" "js_version (jn_state j) = JournalVersion"
    "js_root (jn_state j) = root" "js_live_root (jn_state j) = (root = [])"
    using inv by (simp_all add: journal_inv_def Let_def)
  have "\<exists>j'. OpenJournal ?files = Inr j' \<and> jn_files j' = ?files \<and>
      jn_state j' = ?state\<lparr>js_entries := js_entries ?state @ (if js_status ?state = ''active'' then jf_log ?files else [])\<rparr> \<and>
      jn_captured j' = map en_path (js_entries (jn_state j'))"
    by (rule open_entries [of root fs0 "jf_backups (jn_files j)"]) (use parts status in \<open>auto simp: persist_def\<close>)
  then show thesis using that by auto
qed

subsection \<open>Crashes\<close>

text \<open>
  What a crash can leave. Publishing a batch writes the backups, synchronises them and appends the entries to the log: before the
  log is written the new backups may be in any state, and afterwards any number of the new entries is complete (\<^verbatim>\<open>readEntryLog\<close> ignores a last record
  without its newline). The published state is replaced by a rename, so that it is the old or the new one. A rollback may have restored some of the entries.
\<close>

definition torn_batch :: "journal \<Rightarrow> (entry \<times> string option) list \<Rightarrow> journal_files \<Rightarrow> bool" where
  "torn_batch j prepared files \<longleftrightarrow>
     (let old = jn_files j; n = length (js_entries (jn_state j)) in
      jf_state files = jf_state old \<and>
      (jf_log files = jf_log old \<and> (\<forall>i < n. map_of (jf_backups files) (backup_name i) = map_of (jf_backups old) (backup_name i)) \<or>
       (\<exists>k. jf_log files = jf_log old @ map fst (take k prepared)) \<and> jf_backups files = fold add_backup prepared (jf_backups old)))"

definition crash :: "journal \<Rightarrow> filesystem \<Rightarrow> journal_files \<Rightarrow> filesystem \<Rightarrow> bool" where
  \<comment> \<open>the directory of the journal and the file system after a crash between two operations, while entries are captured, or during a rollback\<close>
  "crash j fs files fs' \<longleftrightarrow>
     files = jn_files j \<and> fs' = fs \<or>
     fs' = fs \<and> (\<exists>ps prepared. list_all path_ok ps \<and> prepare_batch j fs [] ps = Inr prepared \<and> torn_batch j prepared files) \<or>
     files = jn_files j \<and> rollback_ready j fs \<and>
       (\<exists>k. restore_entries (jn_state j) (jf_backups (jn_files j)) (take k (rev (js_entries (jn_state j)))) fs = (None, fs'))"

lemma entries_inv_backups:
  assumes "entries_inv root fs0 backups es" "\<And>i. i < length es \<Longrightarrow> map_of backups' (backup_name i) = map_of backups (backup_name i)"
  shows "entries_inv root fs0 backups' es"
  unfolding entries_inv_def
proof (intro allI impI)
  fix i assume i: "i < length es"
  then have e: "entry_inv root fs0 backups (take i es) (es ! i)" using assms(1) by (simp add: entries_inv_def)
  then have "en_kind (es ! i) = ''file'' \<Longrightarrow> map_of backups' (en_backup (es ! i)) = map_of backups (en_backup (es ! i))"
    using assms(2) i by (simp add: entry_inv_def)
  then show "entry_inv root fs0 backups' (take i es) (es ! i)"
    using e by (auto simp: entry_inv_def records_object_def split: option.splits file_object.splits)
qed

lemma entries_inv_take: "entries_inv root fs0 backups es \<Longrightarrow> entries_inv root fs0 backups (take k es)"
  by (auto simp: entries_inv_def min_def)

lemma torn_batch_inv:
  assumes inv: "journal_inv root fs0 j fs" and ok: "fs_ok fs0" "path_ok root"
    and batch: "list_all path_ok ps" "prepare_batch j fs [] ps = Inr prepared" and torn: "torn_batch j prepared files"
  shows "\<exists>j'. journal_inv root fs0 j' fs \<and> jn_files j' = files"
proof -
  let ?es = "js_entries (jn_state j)"
  have parts: "entries_inv root fs0 (jf_backups (jn_files j)) ?es" "jf_log (jn_files j) = ?es" using inv by (simp_all add: journal_inv_def Let_def)
  have new: "entries_inv root fs0 (fold add_backup prepared (jf_backups (jn_files j))) (?es @ map fst prepared)"
    using prepare_batch_inv [OF inv ok batch] parts(1) by simp
  have "\<exists>k. jf_log files = ?es @ map fst (take k prepared) \<and> entries_inv root fs0 (jf_backups files) (?es @ map fst (take k prepared))"
  proof (cases "jf_log files = jf_log (jn_files j) \<and> (\<forall>i < length ?es. map_of (jf_backups files) (backup_name i) = map_of (jf_backups (jn_files j)) (backup_name i))")
    case True
    then have "entries_inv root fs0 (jf_backups files) ?es" using entries_inv_backups [OF parts(1)] by blast
    then show ?thesis using True parts(2) by (intro exI [of _ 0]) simp
  next
    case False
    then obtain k where k: "jf_log files = ?es @ map fst (take k prepared)" "jf_backups files = fold add_backup prepared (jf_backups (jn_files j))"
      using torn parts(2) unfolding torn_batch_def Let_def by auto
    then show ?thesis using entries_inv_take [OF new, of "length ?es + k"] by (intro exI [of _ k]) (simp add: take_map)
  qed
  then obtain k where k: "jf_log files = ?es @ map fst (take k prepared)" "entries_inv root fs0 (jf_backups files) (?es @ map fst (take k prepared))" by blast
  have "jf_state files = jf_state (jn_files j)" using torn by (simp add: torn_batch_def Let_def)
  then show ?thesis
    using inv k by (intro exI [of _ "\<lparr>jn_state = (jn_state j)\<lparr>js_entries := jf_log files\<rparr>, jn_captured = map en_path (jf_log files), jn_files = files\<rparr>"])
      (auto simp: journal_inv_def Let_def covers_def)
qed

lemma same_object:
  assumes "same_at fs0 fs p" "view_at fs' p = view_at fs0 p" "object_at fs p \<noteq> None \<Longrightarrow> object_at fs' p = object_at fs p" "fs_ok fs'"
  shows "same_at fs0 fs' p"
proof (cases "object_at fs0 p")
  case None
  then have "object_at fs' p = None" using assms(2) view_None [OF assms(4), of p] by (simp add: view_at_def)
  then show ?thesis using None by (simp add: same_at_def)
next
  case (Some obj)
  then have "object_at fs' p = Some obj" using assms(1,3) by (simp add: same_at_def)
  then show ?thesis using Some assms(2) by (auto simp: same_at_def view_at_def object_view_def map_option_case split: option.splits)
qed

lemma partly_restored_inv:
  assumes inv: "journal_inv root fs0 j fs" and ok: "fs_ok fs0" and ready: "rollback_ready j fs"
    and run: "restore_entries (jn_state j) (jf_backups (jn_files j)) (take k (rev (js_entries (jn_state j)))) fs = (None, fs')"
  shows "journal_inv root fs0 j fs'"
proof -
  let ?es = "js_entries (jn_state j)"
  define ds rs where "ds = take (length ?es - k) ?es" and "rs = drop (length ?es - k) ?es"
  have split: "?es = ds @ rs" by (simp add: ds_def rs_def)
  have rev: "take k (rev ?es) = rev rs" unfolding rs_def by (simp add: take_rev)
  have parts: "js_root (jn_state j) = root" "entries_inv root fs0 (jf_backups (jn_files j)) (ds @ rs)"
    "\<And>p. \<not> covers root ?es p \<Longrightarrow> same_at fs0 fs p"
    using inv by (simp_all add: journal_inv_def Let_def split)
  have "parents_first (ds @ rs)" using ready unfolding rollback_ready_def Let_def split by blast
  then obtain fs1 where "restore_entries (jn_state j) (jf_backups (jn_files j)) (rev rs) fs = (None, fs1)" "rollback_inv root fs0 ds fs1" "untouched root rs fs fs1"
    using restore_some_entries [of "jn_state j" fs0 "jf_backups (jn_files j)" ds rs fs] parts(1,2) ok rollback_start [OF inv ready] unfolding split by auto
  then have fs': "fs_ok fs'" "\<And>p. \<not> covers root ds p \<Longrightarrow> view_at fs' p = view_at fs0 p" "untouched root rs fs fs'"
    using run unfolding rev rollback_inv_def by auto
  have "same_at fs0 fs' p" if p: "\<not> covers root ?es p" for p
  proof (rule same_object [OF parts(3) [OF p] _ _ fs'(1)])
    have "\<not> covers root ds p" "\<not> covers root rs p" using p unfolding split by (auto simp: covers_def)
    then show "view_at fs' p = view_at fs0 p" "object_at fs p \<noteq> None \<Longrightarrow> object_at fs' p = object_at fs p"
      using fs'(2,3) by (auto simp: untouched_def)
  qed
  then show ?thesis using inv fs'(1) by (simp add: journal_inv_def Let_def)
qed

lemma crash_inv:
  assumes "transaction root fs0 j fs" "fs_ok fs0" "path_ok root" "crash j fs files fs'"
  obtains j' where "journal_inv root fs0 j' fs'" "jn_files j' = files"
  using assms(4) torn_batch_inv [OF transaction_inv [OF assms(1-3)] assms(2,3)] partly_restored_inv [OF transaction_inv [OF assms(1-3)] assms(2)]
    transaction_inv [OF assms(1-3)] that unfolding crash_def by metis

lemma interrupted_rollback_continues:
  \<comment> \<open>a rollback that was interrupted between two entries has changed captured paths only: further interruptions are crashes of the same transaction\<close>
  assumes "transaction root fs0 j fs" "fs_ok fs0" "path_ok root" "rollback_ready j fs"
    "restore_entries (jn_state j) (jf_backups (jn_files j)) (take k (rev (js_entries (jn_state j)))) fs = (None, fs')"
  shows "transaction root fs0 j fs'"
proof (rule transaction.change [OF assms(1)])
  note inv = transaction_inv [OF assms(1-3)]
  have inv': "journal_inv root fs0 j fs'" by (rule partly_restored_inv [OF inv assms(2,4,5)])
  then show "fs_ok fs'" by (simp add: journal_inv_def Let_def)
  show "same_at fs fs' p" if "\<not> covers root (js_entries (jn_state j)) p" for p
    using that inv inv' by (auto simp: journal_inv_def Let_def same_at_def)
qed

definition closed :: "journal_directory \<Rightarrow> bool" where
  "closed d \<longleftrightarrow> (case OpenJournal (snd d) of Inl e \<Rightarrow> False | Inr j \<Rightarrow> js_status (jn_state j) \<noteq> ''active'')"

lemma recover_closed: "list_all closed ds \<Longrightarrow> recover_all ds fs recovered = (None, recovered, ds, fs)"
  by (induction ds) (auto simp: closed_def split: sum.splits)

lemma recover_one:
  assumes "list_all closed xs" "list_all closed ys" "OpenJournal files = Inr j" "js_status (jn_state j) = ''active''" "Rollback j fs = (None, j', fs')"
  shows "recover_all (xs @ (name, files) # ys) fs recovered = (None, recovered @ [name], xs @ (name, jn_files j') # ys, fs')"
  using assms by (induction xs) (auto simp: closed_def recover_closed split: sum.splits)

definition with_files :: "string \<Rightarrow> journal_files \<Rightarrow> journal_directory list \<Rightarrow> journal_directory list" where
  "with_files name files ds = map (\<lambda>d. if fst d = name then (name, files) else d) (sort_key fst ds)"

lemma recover_active_one:
  assumes ds: "distinct (map fst ds)" "(name, files) \<in> set ds" "\<And>d. d \<in> set ds \<Longrightarrow> fst d \<noteq> name \<Longrightarrow> closed d"
    and run: "OpenJournal files = Inr j" "js_status (jn_state j) = ''active''" "Rollback j fs = (None, j', fs')"
  shows "RecoverActive ds fs = (None, [name], with_files name (jn_files j') ds, fs')"
proof -
  have "(name, files) \<in> set (sort_key fst ds)" using ds(2) by simp
  then obtain xs ys where xs: "sort_key fst ds = xs @ (name, files) # ys" by (meson split_list)
  have "distinct (map fst (sort_key fst ds))" using ds(1) by (simp add: distinct_map)
  then have "distinct (map fst (xs @ (name, files) # ys))" by (simp only: xs)
  then have names: "\<And>d. d \<in> set xs \<union> set ys \<Longrightarrow> fst d \<noteq> name" by (auto simp: image_iff)
  moreover have "set xs \<union> set ys \<subseteq> set ds" using arg_cong [OF xs, of set] by auto
  ultimately have "list_all closed xs" "list_all closed ys" using ds(3) unfolding list_all_iff by blast+
  moreover have "map (\<lambda>d. if fst d = name then (name, jn_files j') else d) xs = xs" "map (\<lambda>d. if fst d = name then (name, jn_files j') else d) ys = ys"
    by (rule map_idI; use names in fastforce)+
  ultimately show ?thesis using recover_one [OF _ _ run, of xs ys name "[]"] xs by (simp add: RecoverActive_def with_files_def)
qed

lemma recover_none:
  assumes "distinct (map fst ds)" "closed (name, files)" "\<And>d. d \<in> set ds \<Longrightarrow> fst d \<noteq> name \<Longrightarrow> closed d"
  shows "RecoverActive (with_files name files ds) fs = (None, [], with_files name files ds, fs)"
proof -
  have "map fst (with_files name files ds) = map fst (sort_key fst ds)" unfolding with_files_def map_map by (rule map_cong) auto
  then have "sorted (map fst (with_files name files ds))" by simp
  then have "sort_key fst (with_files name files ds) = with_files name files ds" by (rule sort_key_id_if_sorted)
  moreover have "list_all closed (with_files name files ds)" using assms(2,3) by (auto simp: with_files_def list_all_iff)
  ultimately show ?thesis using recover_closed by (simp add: RecoverActive_def)
qed

lemma recover_active_inv:
  assumes inv: "journal_inv root fs0 j fs" and ok: "fs_ok fs0" and ready: "rollback_ready j fs"
    and ds: "distinct (map fst ds)" "(name, jn_files j) \<in> set ds" "\<And>d. d \<in> set ds \<Longrightarrow> fst d \<noteq> name \<Longrightarrow> closed d"
  shows "\<exists>files fs'. RecoverActive ds fs = (None, [name], with_files name files ds, fs') \<and> (\<forall>p. view_at fs' p = view_at fs0 p) \<and> closed (name, files)"
proof -
  have active: "js_status (jn_state j) = ''active''" using inv by (simp add: journal_inv_def Let_def)
  obtain j1 where j1: "OpenJournal (jn_files j) = Inr j1" "jn_state j1 = jn_state j" "jn_files j1 = jn_files j" by (rule reopened [OF inv])
  let ?files = "jn_files (persist (j\<lparr>jn_state := (jn_state j)\<lparr>js_status := ''rolled-back''\<rparr>\<rparr>))"
  obtain fs' where fs': "Rollback j fs = (None, persist (j\<lparr>jn_state := (jn_state j)\<lparr>js_status := ''rolled-back''\<rparr>\<rparr>), fs')" "\<forall>p. view_at fs' p = view_at fs0 p"
    using rollback_run [OF inv ok ready] by blast
  obtain j2 where "Rollback j1 fs = (None, j2, fs')" "jn_files j2 = ?files"
    using fs'(1) active j1(2,3) by (auto simp: Rollback_def Let_def persist_def split: prod.splits option.splits)
  then have "RecoverActive ds fs = (None, [name], with_files name ?files ds, fs')" using recover_active_one [OF ds j1(1)] j1(2) active by simp
  moreover obtain j3 where "OpenJournal ?files = Inr j3" "js_status (jn_state j3) = ''rolled-back''" by (rule reopened_closed [OF inv, of "''rolled-back''"]) auto
  ultimately show ?thesis using fs'(2) by (intro exI [of _ ?files] exI [of _ fs']) (simp add: closed_def)
qed



lemma rollback_active_recovers:
  \<comment> \<open>on one active directory the command agrees with the recovery at the start of a run\<close>
  assumes "OpenJournal files = Inr j" "js_status (jn_state j) = ''active''" "Rollback j fs = (None, j', fs')" "name \<notin> {[], ''.'', ''..''}" "CHR ''/'' \<notin> set name"
  shows "RollbackActive [(name, files)] name fs =
      (Inr (journal_summary name j\<lparr>su_status := ''rolled-back''\<rparr>), [(name, jn_files j')], fs') \<and>
    RecoverActive [(name, files)] fs = (None, [name], [(name, jn_files j')], fs')"
proof -
  have "js_status (jn_state j') = ''rolled-back''"
    using assms(2,3) by (auto simp: Rollback_def Let_def persist_def split: prod.splits option.splits)
  then show ?thesis using assms by (auto simp: RollbackActive_def RecoverActive_def)
qed

text \<open>
  Claim C15: \<^const>\<open>RemoveTree\<close> keeps the write-ahead rule, with or without an error: it is a step of a transaction, so that what it removes
  is restored by a rollback.
\<close>

theorem tree_removal_recoverable:
  assumes "transaction root fs0 j fs" "fs_ok fs0" "path_ok root" "path_ok p" "\<And>q. object_at fs q \<noteq> None \<Longrightarrow> path_ok q"
    "RemoveTree j fs p = (err, j', fs')"
  shows "transaction root fs0 j' fs'"
  by (rule remove_tree_run [OF assms])

theorem tree_removal_recoverable_witness:
  "fst removed_tree = None \<and> transaction [] example_files (fst (snd removed_tree)) (snd (snd removed_tree))"
proof
  show "fst removed_tree = None" by (rule removed_tree_state(1))
  show "transaction [] example_files (fst (snd removed_tree)) (snd (snd removed_tree))"
    by (rule tree_removal_recoverable [OF example_start example_files_ok, of "[''a'']" "fst removed_tree"])
      (auto simp: removed_tree_def example_files_def object_at_def split: if_splits)
qed

text \<open>
  Claim C21: a path that \<^const>\<open>confined\<close> accepts is below the root of the transaction, with the relative path it returns, and no symbolic link is among its
  ancestors below the root, whatever links the given path runs through.
\<close>

theorem confined_safe:
  assumes "confined state fs p = Inr (resolved, relative)" "fs_ok fs" "path_ok p" "path_ok (js_root state)"
  shows "resolved = js_root state @ relative \<and> path_ok relative \<and> no_links fs (js_root state) (butlast resolved)"
proof -
  let ?root = "js_root state"
  obtain r where r: "p = ?root @ r" using assms(1) by (auto simp: confined_def Rel_Some split: option.splits)
  have top: "no_links fs ?root ?root" by (auto simp: no_links_def strict_prefix_def)
  have "no_links fs ?root (butlast resolved)"
  proof (cases "length r \<le> 1")
    case True
    then have "resolved = ?root @ r" using assms(1) r by (auto simp: confined_def Rel_def)
    then have "prefix (butlast resolved) ?root" using True by (cases r) (auto simp: butlast_append prefixeq_butlast)
    then show ?thesis using top unfolding no_links_def by (metis prefix_order.trans)
  next
    case False
    then obtain current where "resolve_ancestors fs ?root 0 ?root (butlast r) = Inr current" "resolved = current @ [last r]"
      using assms(1) unfolding confined_def Let_def r by (auto simp: Rel_Some Rel_Some [of _ _ r] split: sum.splits option.splits)
    then show ?thesis using resolve_ancestors_links [OF assms(2) _ top] by simp
  qed
  then show ?thesis using confined_ok [OF assms(1,3,4)] by blast
qed

definition linked_files :: filesystem where
  "linked_files =
     \<lparr>fs_tree = [([], Directory plain_metadata), ([''lib''], Symlink (plain_metadata\<lparr>md_mode := 511\<rparr>) ''usr/lib''), ([''usr''], Directory plain_metadata),
        ([''usr'', ''lib''], Directory plain_metadata)], fs_inodes = []\<rparr>"

theorem confined_safe_witness:
  "confined (jn_state example_journal) linked_files [''lib'', ''udev'', ''x''] = Inr ([''usr'', ''lib'', ''udev'', ''x''], [''usr'', ''lib'', ''udev'', ''x'']) \<and>
   no_links linked_files [] [''usr'', ''lib'', ''udev'']"
proof -
  have c: "confined (jn_state example_journal) linked_files [''lib'', ''udev'', ''x''] = Inr ([''usr'', ''lib'', ''udev'', ''x''], [''usr'', ''lib'', ''udev'', ''x''])"
    by code_simp
  have "fs_ok linked_files"
    by (auto simp: fs_ok_def linked_files_def object_at_def is_directory_def object_ok_def plain_metadata_def map_ok_def split: if_splits)
  moreover have "js_root (jn_state example_journal) = []" by (simp add: example_journal_def begin_journal_def Let_def)
  ultimately show ?thesis using confined_safe [OF c] c by simp
qed

subsection \<open>Limits\<close>

text \<open>
  A directory that a transaction replaces by a symbolic link: the rollback follows the link. It reports success, but the
  file of the directory is lost and the file of the same name in the directory the link points to is overwritten.
\<close>

lemma link_misdirects_rollback:
  "case MakeSymlink ''b'' [''a''] (snd (snd removed_tree)) of
     Inl e \<Rightarrow> False
   | Inr fs \<Rightarrow> (case Rollback (fst (snd removed_tree)) fs of (err, j, fs') \<Rightarrow>
       err = None \<and> view_at fs' [''a'', ''x''] = None \<and> view_at fs' [''b'', ''x''] = Some (FileView ''A'' plain_metadata))"
  by code_simp

text \<open>A missing directory captured after a path below it: the rollback removes the directory first, and fails.\<close>

lemma child_first_blocks_rollback:
  "case CaptureBatch example_journal example_files [[''n'', ''y''], [''n'']] of
     Inl e \<Rightarrow> False
   | Inr j \<Rightarrow> (case MkdirAll 493 [''n'', ''y''] example_files of
       Inl e \<Rightarrow> False
     | Inr fs \<Rightarrow> fst (Rollback j fs) = Some (SystemError ENOTEMPTY))"
  by code_simp

text \<open>
  A file that a transaction replaces by a directory: the rollback removes what is in the directory and restores the file. When it is interrupted after
  that, a second rollback inspects the path inside the file and fails, so the operation can no longer be recovered.
\<close>

lemma interrupted_rollback_stuck:
  "case Capture example_journal example_files [''a'', ''x''] of
     Inl e \<Rightarrow> False
   | Inr j \<Rightarrow> (case Remove [''a'', ''x''] example_files of
       Inl e \<Rightarrow> False
     | Inr fs1 \<Rightarrow> (case MkdirAll 493 [''a'', ''x''] fs1 of
         Inl e \<Rightarrow> False
       | Inr fs2 \<Rightarrow> (case Capture j fs2 [''a'', ''x'', ''y''] of
           Inl e \<Rightarrow> False
         | Inr j' \<Rightarrow> (case restore_entries (jn_state j') (jf_backups (jn_files j')) (rev (js_entries (jn_state j'))) fs2 of (err, fs3) \<Rightarrow>
             err = None \<and> fst (Rollback j' fs3) = Some (SystemError ENOTDIR)))))"
  by code_simp

text \<open>An extended attribute that is added to a captured directory is still there after the rollback.\<close>

lemma added_xattr_survives:
  "case Capture example_journal example_files [''a''] of
     Inl e \<Rightarrow> False
   | Inr j \<Rightarrow> (case change_metadata (\<lambda>m. m\<lparr>md_xattrs := [(''user.k'', ''v'')]\<rparr>) [''a''] example_files of
       Inl e \<Rightarrow> False
     | Inr fs \<Rightarrow> (case Rollback j fs of (err, j', fs') \<Rightarrow>
         err = None \<and> view_at fs' [''a''] = Some (DirectoryView (plain_metadata\<lparr>md_xattrs := [(''user.k'', ''v'')]\<rparr>))))"
  by code_simp

end
