(* ===== verification/Spec2Isabelle.thy ===== *)
theory Spec2Isabelle
  imports Version_Order Atom_Roundtrip Depstring_Roundtrip Dep_Meaning Plan_Impact Merge_Forecast Plan_Adapter Journal
begin

text \<open>
  Verification library for Arise, a package manager for Gentoo Linux written in Go.

  \<^bold>\<open>The program and the parts modelled.\<close> A request names packages by atoms such as \<^verbatim>\<open>>=dev-libs/foo-1.2:0/2=[ssl]\<close>
  (\<^verbatim>\<open>src/internal/atom\<close>). Ebuilds state their needs as dependency expressions over such atoms
  (\<^verbatim>\<open>src/internal/depstring\<close>). The configuration says which USE flags, keywords and licenses are in
  force (\<^verbatim>\<open>src/internal/portage\<close>). The resolver (\<^verbatim>\<open>src/internal/resolve\<close>) turns a request into a plan, a list of install and
  remove actions with the ledger of the decisions that led to them: it makes attempts, each with the choices a rewind
  forces, works in transactions it can roll back, and sorts the actions it found by their dependencies. Before a plan
  is executed it is checked by an independent validator (\<^verbatim>\<open>src/internal/planvalidate\<close>), which applies the plan to the installed
  state by itself and checks the result; after the merge it compares the predicted with the observed state. The plan adapter
  (\<^verbatim>\<open>src/internal/planadapter\<close>) translates the result of the resolver into the input of the validator. The
  executor (\<^verbatim>\<open>src/internal/executor\<close>) checks the prerequisites of the actions once more and runs the actions with several workers;
  \<^verbatim>\<open>src/internal/mergehistory\<close> forecasts how long that takes. What a merge changes in the file system is first captured in an undo journal
  (\<^verbatim>\<open>src/internal/journal\<close>), from which a failed or interrupted merge is rolled back.
  The validator is the safety net of the program and is modelled completely, except for the JSON decoding of fixtures
  and the feature report.

  \<^bold>\<open>Theories.\<close>
  \<^item> \<open>Prelude\<close>: Go strings (byte lists), \<^verbatim>\<open>strings\<close> and \<^verbatim>\<open>strconv\<close> functions, the locales for three-way comparisons
    (\<open>three_way\<close>, \<open>keyed_order\<close>) and for printers with their parsers (\<open>print_parse\<close>).
  \<^item> \<open>Versions\<close>, \<open>Version_Order\<close>: \<^verbatim>\<open>atom.go\<close> and \<^verbatim>\<open>parser.go\<close>, the version parser and \<^verbatim>\<open>Version.Compare\<close>; the comparison is the order
    of an explicit key (antisymmetric always, transitive for versions with at most one suffix or with numbered
    suffixes, and not beyond), numbers saturate at 64 bits.
  \<^item> \<open>Atoms\<close>, \<open>Atom_Print\<close>, \<open>Atom_Roundtrip\<close>: the atom parser with all its errors and \<^verbatim>\<open>Atom.String\<close>; the exact set of atoms it can
    return, and that printing and parsing are inverse on it.
  \<^item> \<open>Depstring\<close>, \<open>Depstring_Roundtrip\<close>: \<^verbatim>\<open>depstring.go\<close>, the recursive parser and the rendering of dependency trees;
    the parser returns on every input and reads back what is rendered.
  \<^item> \<open>Dep_Eval\<close>, \<open>Dep_Meaning\<close>: \<^verbatim>\<open>VisitMeta\<close>, \<^verbatim>\<open>CollectMeta\<close>, \<^verbatim>\<open>ValidatePackageDependenciesEAPI\<close> and \<^verbatim>\<open>Satisfy\<close>, against one meaning of trees
    (\<open>tree_holds\<close>).
  \<^item> \<open>Plan_Model\<close>: \<^verbatim>\<open>model.go\<close>, the records of the validator, Go maps as ordered association lists (locale \<open>dictionary\<close>),
    canonical states, sorted and bounded violations, and the contract of a check (locale \<open>validator\<close>).
  \<^item> \<open>Plan_Match\<close>, \<open>Plan_Semantics\<close>: matching of \<^verbatim>\<open>validate.go\<close>; the index by package answers like a search
    (locale \<open>package_index\<close>), \<^verbatim>\<open>validateNode\<close> and \<^verbatim>\<open>requiredUseSatisfied\<close> decide the meaning of a tree.
  \<^item> \<open>Plan_Apply\<close>: \<^verbatim>\<open>apply.go\<close>; \<^verbatim>\<open>ApplyPlan\<close> keeps slots unique, changes only what actions name and refines a
    specification on finite maps.
  \<^item> \<open>Plan_Policy\<close>: \<^verbatim>\<open>policy.go\<close>; \<open>Plan_Decisions\<close>: \<^verbatim>\<open>decisions.go\<close> with the JSON size of records; \<open>Plan_Order\<close>: authority, order,
    targets and justification of actions, the last by a depth-first search (locale \<open>marking_search\<close>).
  \<^item> \<open>Plan_Validate\<close>: \<^verbatim>\<open>ValidateFinalState\<close> and \<^verbatim>\<open>build_only.go\<close>, exact against \<open>plan_valid\<close>; \<open>Plan_Impact\<close>: what
    \<^verbatim>\<open>ValidatePlanImpact\<close> guarantees and waives; \<open>Plan_Committed\<close>: \<^verbatim>\<open>committed.go\<close>.
  \<^item> \<open>Resolve_Match\<close>: the stateless tests of the resolver (\<^verbatim>\<open>src/internal/resolve/resolve.go\<close>): matching, USE dependencies, choice of a
    version, REQUIRED USE, licenses, keywords; where they agree with the validator and where not.

  \<^item> \<open>Portage_Policy\<close>: \<^verbatim>\<open>portage.go\<close>, the policy functions over a loaded configuration: incremental variables, global and per-package USE
    with masks and forces, keywords, licenses, package masks, and how \<^verbatim>\<open>Load\<close> takes over the flag policy of a profile. Effective USE follows the layers of masks and
    forces and agrees with the reports on them where nothing is reset; license groups expand as in the validator.
  \<^item> \<open>Resolve_Graph\<close>: the data of the resolver (\<^verbatim>\<open>PkgNode\<close>, \<^verbatim>\<open>PkgAction\<close>, \<^verbatim>\<open>resolver\<close> and others), identities and domains of actions, USE
    of a candidate, and the dependency edges of a version by class, EAPI, domain and options (\<^verbatim>\<open>dependenciesForVersion\<close>), which exist exactly when the
    dependencies keep to the feature table of the EAPI.
  \<^item> \<open>Resolve_Scc\<close>, \<open>Resolve_Kahn\<close>: Tarjan's algorithm and the queue of ready nodes, each in a locale of its graph (\<open>plan_graph\<close>,
    \<open>kahn_graph\<close>) with their correctness; \<open>Resolve_Order\<close> interprets them on the order graph of a plan (\<open>order_graph\<close>) and on the
    graph of its components (\<open>component_kahn\<close>): \<^verbatim>\<open>sortPlannedActions\<close> is a topological sort up to cycles, its prerequisites are exact,
    and \<^verbatim>\<open>validatePlanOrder\<close> accepts it.
  \<^item> \<open>Executor\<close>: \<^verbatim>\<open>validateActionGraph\<close> (the second interpretation of \<open>kahn_graph\<close>, \<open>exec_kahn\<close>) and \<^verbatim>\<open>executeConcurrent\<close> as a step function over
    events (a worker commits or fails, admission is granted, delayed or fails), with the runs as an inductive relation: prerequisites are
    respected, no stall, termination. Composed with \<open>Resolve_Order\<close>: a sorted plan executes in its dependency order. Also the
    reserve of temporary space on 64-bit words, and the planning of blocker removals (\<^verbatim>\<open>removal.go\<close>).
  \<^item> \<open>Resolve_Transaction\<close>: transactions, their undo logs and every setter of the resolver's state; a branch is any sequence of
    them with nested transactions (an inductive relation), and rolling it back restores the state. The ledger of backtracks equals the budget used.
  \<^item> \<open>Resolve_Search\<close>: \<^verbatim>\<open>ResolveContext\<close> with its parallel alternatives and the start and report of an attempt (\<^verbatim>\<open>resolveAttempt\<close>): the loop tries no state twice (but
    possibly one that was tried in parallel), the search ends within its budget, and what the result reports of it.
  \<^item> \<open>Resolve_Ledger\<close>: \<^verbatim>\<open>decision_ledger.go\<close>, the record of every candidate of a plan with its outcome, bounded in number and bytes, and
    the tests of masks, keywords and exclusions it calls; the shape of every record and the exact bound.
  \<^item> \<open>Plan_Adapter\<close>: \<^verbatim>\<open>planadapter/adapter.go\<close>, from the graph and the result of the resolver to fixture and plan. Composed with
    \<open>Resolve_Order\<close>, \<open>Resolve_Ledger\<close>, \<open>Plan_Order\<close> and \<open>Plan_Decisions\<close>: the validator accepts the order of a sorted plan and the ledger of a built one.
    Two examples show where the translation fails.
  \<^item> \<open>Merge_Forecast\<close>: \<^verbatim>\<open>mergehistory/forecast.go\<close>, the check of tasks, their critical path (the third interpretation of \<open>kahn_graph\<close>, \<open>task_kahn\<close>)
    and the simulation of the workers: when a forecast is returned, and bounds of the elapsed time by critical path and work.
  \<^item> \<open>Files\<close>: a file system of directories, links and shared inodes (an interpretation of \<open>dictionary\<close>) and the functions of \<^verbatim>\<open>os\<close>, \<^verbatim>\<open>path/filepath\<close> and \<^verbatim>\<open>unix\<close>
    that the journal calls, with their effect on every path.
  \<^item> \<open>Journal\<close>: \<^verbatim>\<open>journal.go\<close>, captures, tree removal, commit, rollback and recovery. A transaction is an inductive relation of captures and of changes of
    captured paths; an invariant says that the entries record the old state. Rolling back restores what every path showed (\<open>rollback_ready\<close> lists the
    three conditions: directories are recorded before their members, no captured path lies below a link or a file now, no extended attribute was added;
    examples show that each is needed), what a crash leaves on disk suffices for it (between operations, with a torn batch of captures, or with some entries
    already restored), and accepted paths do not leave the root.

  \<^bold>\<open>Conventions.\<close> A function that appends to a list of violations returns what it appends. A loop is a recursion or a
  fold over its list with the loop variables as arguments; one iteration is a definition of its own where it is
  long. Go errors are values of a sum type, their texts included. Maps are ranged over in key order; every list
  built from such a range in the source is sorted before it is used. \<^verbatim>\<open>sort.Slice\<close> is a stable sort in the model: for violations that
  differ in the dependency class only, the order is unspecified in the source, and no theorem depends on
  it. \<^verbatim>\<open>%q\<close> in error texts is exact for ASCII. \<^verbatim>\<open>strings.TrimSpace\<close> and \<^verbatim>\<open>strings.Fields\<close> treat ASCII white space.

  Pointers to actions and transactions are positions or keys. What runs concurrently is a sequence of events in an
  arbitrary order.

  \<^bold>\<open>Parameters.\<close> The version test of the gentooling package (\<open>gm\<close> in \<open>Portage_Policy\<close>), what an attempt of the resolver does between its start
  and its report (\<open>work\<close> in \<open>Resolve_Search\<close>), its visibility test for keywords (\<open>rv_visible\<close> in \<open>Resolve_Ledger\<close>), the package policy given to the
  adapter, the preflight of a removal, the free space and the events of the workers in \<open>Executor\<close> are arguments.
  Theorems hold for all of them, except that \<open>search_terminates\<close> requires the work of an attempt to act on its resolver by the setters and transactions of
  \<open>Resolve_Transaction\<close>, and \<open>effective_use_policy\<close> requires \<open>gm\<close> to match a version by its plain package name.

  \<^bold>\<open>Fuel.\<close> The dependency parser, the license group expansions, the visit of prerequisites, Tarjan's visit, the queue of ready
  nodes, the search and the simulation of workers carry fuel: the input length, the number of groups, of prerequisites, of nodes (twice), each plus a
  constant where needed, one more than the backtrack budget and one more than the number of open tasks. \<open>dep_parse_returns\<close>,
  \<open>license_expansion_terminates\<close>, \<open>justification_is_reachability\<close>, \<open>plan_components_strong\<close>, \<open>sorted_plan_topological\<close>, \<open>action_graph_exact\<close>,
  \<open>search_terminates\<close> and \<open>forecast_exact\<close> show that it never runs out.

  \<^bold>\<open>Not modelled.\<close> Inside an attempt of the resolver, the selection of versions and the processing of dependencies, which read the
  graph of the repositories; time stamps, crashes inside the restoration of one path, and errors on the directory of the journal itself; loading of configuration, profiles, repositories and the VDB; fetching, building and
  merging and the recovery around the journal; binary packages; rebuild analysis; search; the command line and its output. They are mostly file and process I/O and are listed in the manifest.
\<close>

section \<open>What a valid plan guarantees\<close>

lemma runtime_dependency_met:
  assumes "package_valid fx pkg installing root" "rq_partial_mode (fx_request fx) \<noteq> ''nodeps''"
    "cls \<in> {''RDEPEND'', ''PDEPEND''}" "dependency_text pkg cls \<noteq> []"
  shows "\<exists>n. dep_Parse (dependency_text pkg cls) = Inr (Some n) \<and> tree_holds (use_value (pk_use pkg)) (package_value pkg root) n"
proof -
  have "cls \<in> set (map fst (entries (pk_dependencies pkg)))"
  proof (rule ccontr)
    assume "cls \<notin> set (map fst (entries (pk_dependencies pkg)))"
    then have "map_of (entries (pk_dependencies pkg)) cls = None" by (simp add: map_of_eq_None_iff)
    then show False using assms(4) by (simp add: dependency_text_def TrimSpace_def)
  qed
  then have "dependency_due pkg installing cls" using assms(3,4) by (auto simp: dependency_due_def)
  then have "dependency_met fx pkg root cls" using assms(1,2) by (auto simp: package_valid_def)
  moreover have "dependency_domain fx cls (pk_eapi pkg) root = Some root" using assms(3) by (auto simp: dependency_domain_def)
  ultimately show ?thesis by (auto simp: dependency_met_def)
qed

text \<open>
  Claim C1: When \<^verbatim>\<open>ValidateFinalState\<close> accepts a plan that merges (a plan that only builds is judged against the installed packages) and the
  installed packages occupy distinct slots, the state it leads to is consistent: no two packages share a slot; every requested
  target is met, unless only the dependencies were asked for; and every package has its REQUIRED USE satisfied and, unless dependencies were switched off, each of
  its runtime and post-merge dependencies, read as a tree over atoms, blockers, alternatives and USE conditionals, met by the packages of that very state.
\<close>

theorem valid_plan_final_state:
  assumes "\<not> rq_build_only (fx_request fx)" "slots_unique (fx_installed fx)" "vr_valid (ValidateFinalState fx p)"
  shows "slots_unique (planned_state fx p) \<and>
    (rq_partial_mode (fx_request fx) \<noteq> ''onlydeps'' \<longrightarrow> targets_met (fx_request fx) (planned_state fx p)) \<and>
    (\<forall>pkg \<in> set (planned_state fx p). required_use_met pkg \<and>
       (rq_partial_mode (fx_request fx) \<noteq> ''nodeps'' \<longrightarrow>
         (\<forall>cls \<in> {''RDEPEND'', ''PDEPEND''}. dependency_text pkg cls \<noteq> [] \<longrightarrow>
            (\<exists>n. dep_Parse (dependency_text pkg cls) = Inr (Some n) \<and>
               tree_holds (use_value (pk_use pkg)) (package_value pkg (planned_state fx p)) n))))"
proof -
  have valid: "plan_valid fx p" using assms(1,3) validate_installed_exact by (simp add: ValidateFinalState_def)
  then have "package_valid fx pkg (installs p pkg) (planned_state fx p)" if "pkg \<in> set (planned_state fx p)" for pkg
    using that by (simp add: plan_valid_def)
  then have "\<forall>pkg \<in> set (planned_state fx p). required_use_met pkg \<and>
       (rq_partial_mode (fx_request fx) \<noteq> ''nodeps'' \<longrightarrow>
         (\<forall>cls \<in> {''RDEPEND'', ''PDEPEND''}. dependency_text pkg cls \<noteq> [] \<longrightarrow>
            (\<exists>n. dep_Parse (dependency_text pkg cls) = Inr (Some n) \<and>
               tree_holds (use_value (pk_use pkg)) (package_value pkg (planned_state fx p)) n)))"
    using runtime_dependency_met unfolding package_valid_def by blast
  moreover have "slots_unique (planned_state fx p)" using applied_slots_unique [OF assms(2)] by (simp add: planned_state_def)
  moreover have "rq_partial_mode (fx_request fx) \<noteq> ''onlydeps'' \<longrightarrow> targets_met (fx_request fx) (planned_state fx p)"
    using valid unfolding plan_valid_def request_valid_def by blast
  ultimately show ?thesis by blast
qed

theorem valid_plan_final_state_witness:
  "\<exists>fx p pkg n. vr_valid (ValidateFinalState fx p) \<and> planned_state fx p = [zero_package\<lparr>pk_cpv := ''a/b-1'', pk_slot := ''0''\<rparr>, pkg] \<and>
     slots_unique (planned_state fx p) \<and> targets_met (fx_request fx) (planned_state fx p) \<and>
     dep_Parse ''a/b'' = Inr (Some n) \<and> tree_holds (use_value (pk_use pkg)) (package_value pkg (planned_state fx p)) n"
proof -
  let ?b = "zero_package\<lparr>pk_cpv := ''a/b-1'', pk_slot := ''0''\<rparr>"
  let ?c = "zero_package\<lparr>pk_cpv := ''a/c-1'', pk_slot := ''0'', pk_eapi := ''8'', pk_dependencies := Some [(''RDEPEND'', ''a/b'')]\<rparr>"
  let ?fx = "sample_fixture (simple_request ''install'' [''a/c''] []) [?b, ?c] []"
  have valid: "vr_valid (ValidateFinalState ?fx (schema_plan 1))" by code_simp
  have state: "planned_state ?fx (schema_plan 1) = [?b, ?c]" by code_simp
  have dep: "dependency_text ?c ''RDEPEND'' = ''a/b''" by code_simp
  have mode: "\<not> rq_build_only (fx_request ?fx)" "rq_partial_mode (fx_request ?fx) = []" by (simp_all add: sample_fixture_def simple_request_def)
  have unique: "slots_unique (fx_installed ?fx)" by code_simp
  note met = valid_plan_final_state [OF mode(1) unique valid]
  have "?c \<in> set (planned_state ?fx (schema_plan 1))" unfolding state by simp
  then obtain n where "dep_Parse ''a/b'' = Inr (Some n)" "tree_holds (use_value (pk_use ?c)) (package_value ?c (planned_state ?fx (schema_plan 1))) n"
    using met dep mode(2) by (metis insertI1 list.distinct(1))
  moreover have "slots_unique (planned_state ?fx (schema_plan 1))" "targets_met (fx_request ?fx) (planned_state ?fx (schema_plan 1))"
    using met mode(2) by simp_all
  ultimately show ?thesis using valid state
    by (intro exI [of _ ?fx] exI [of _ "schema_plan 1"] exI [of _ ?c] exI [of _ n]) simp
qed

end
